(* ===== verification/Prelude.thy ===== *)
theory Prelude
  imports
    Main
    "HOL-Library.Word"
    "HOL-Library.Char_ord"
    "HOL-Library.List_Lexorder"
    "HOL-Library.Product_Lexorder"
    "HOL-Library.Multiset"
begin

text \<open>
  Shared vocabulary of the development: the machine integers of the Rust sources, byte strings,
  the little-endian encodings every frozen wire format uses, and the generic lemmas on lists and
  options that the component theories rest on.

  Rust types are modelled as follows.
  \<^item> \<open>u8\<close>, \<open>u16\<close>, \<open>u32\<close>, \<open>u64\<close> are words of that width.  Sizes and indices whose arithmetic the
    code bounds are \<open>nat\<close>, and the bound or the wrap-around is written out where it matters.
  \<^item> \<open>String\<close> is the list of its UTF-8 bytes (\<open>string\<close>); its \<open>Ord\<close> is the lexicographic order on
    bytes, which is the order of HOL-Library.List_Lexorder over Char_ord.
  \<^item> Tuples compare lexicographically (Product_Lexorder), as \<open>derive(Ord)\<close> does.
\<close>

section \<open>Machine integers and byte strings\<close>

type_synonym u8 = "8 word"
type_synonym u16 = "16 word"
type_synonym u32 = "32 word"
type_synonym u64 = "64 word"
type_synonym bytes = "u8 list"

named_theorems wire_simps \<open>length and unfolding facts of the byte encodings\<close>
named_theorems wire_inject \<open>injectivity facts of the byte encodings\<close>

text \<open>\<open>x.to_le_bytes()\<close> for an integer of \<open>n\<close> bytes.\<close>

fun le_bytes :: "nat \<Rightarrow> nat \<Rightarrow> bytes" where
  "le_bytes 0 x = []"
| "le_bytes (Suc n) x = word_of_nat (x mod 256) # le_bytes n (x div 256)"

text \<open>\<open>from_le_bytes\<close>: the number a little-endian byte string denotes.\<close>

fun of_le_bytes :: "bytes \<Rightarrow> nat" where
  "of_le_bytes [] = 0"
| "of_le_bytes (b # bs) = unat b + 256 * of_le_bytes bs"

definition le16 :: "u16 \<Rightarrow> bytes" where
  "le16 w = le_bytes 2 (unat w)"

definition le32 :: "u32 \<Rightarrow> bytes" where
  "le32 w = le_bytes 4 (unat w)"

definition le64 :: "u64 \<Rightarrow> bytes" where
  "le64 w = le_bytes 8 (unat w)"

text \<open>\<open>n as u32\<close> and \<open>n as u64\<close>: truncating casts of a \<open>usize\<close>.\<close>

definition as_u32 :: "nat \<Rightarrow> u32" where
  "as_u32 n = word_of_nat n"

definition as_u64 :: "nat \<Rightarrow> u64" where
  "as_u64 n = word_of_nat n"

text \<open>\<open>s.as_bytes()\<close>.\<close>

definition as_bytes :: "string \<Rightarrow> bytes" where
  "as_bytes s = map (\<lambda>c. word_of_nat (of_char c)) s"

lemma length_le_bytes [simp]: "length (le_bytes n x) = n"
  by (induction n arbitrary: x) auto

lemma length_le16 [simp, wire_simps]: "length (le16 w) = 2"
  by (simp add: le16_def)

lemma length_le32 [simp, wire_simps]: "length (le32 w) = 4"
  by (simp add: le32_def)

lemma length_le64 [simp, wire_simps]: "length (le64 w) = 8"
  by (simp add: le64_def)

lemma length_as_bytes [simp, wire_simps]: "length (as_bytes s) = length s"
  by (simp add: as_bytes_def)

lemma unat_byte_of_nat: "unat (word_of_nat (x mod 256) :: u8) = x mod 256"
  by (simp add: unat_of_nat take_bit_eq_mod)

lemma of_le_bytes_le_bytes: "of_le_bytes (le_bytes n x) = x mod 256 ^ n"
proof (induction n arbitrary: x)
  case 0
  then show ?case by simp
next
  case (Suc n)
  have "of_le_bytes (le_bytes (Suc n) x) = x mod 256 + 256 * ((x div 256) mod 256 ^ n)"
    by (simp only: le_bytes.simps of_le_bytes.simps unat_byte_of_nat Suc.IH)
  also have "\<dots> = x mod 256 ^ Suc n"
    by (simp add: mod_mult2_eq)
  finally show ?case .
qed

lemma of_le_bytes_bound: "of_le_bytes bs < 256 ^ length bs"
proof (induction bs)
  case Nil
  then show ?case by simp
next
  case (Cons b bs)
  have "unat b < 256" using unsigned_less [of b, where ?'a = nat] by simp
  with Cons show ?case by simp
qed

lemma le_bytes_of_le_bytes: "le_bytes (length bs) (of_le_bytes bs) = bs"
proof (induction bs)
  case Nil
  then show ?case by simp
next
  case (Cons b bs)
  have b: "unat b < 256" using unsigned_less [of b, where ?'a = nat] by simp
  then have "(unat b + 256 * of_le_bytes bs) div 256 = of_le_bytes bs" by simp
  with b Cons show ?case by simp
qed

lemma of_le_bytes_le16: "of_le_bytes (le16 w) = unat w"
  using unsigned_less [of w, where ?'a = nat] by (simp add: le16_def of_le_bytes_le_bytes)

lemma of_le_bytes_le32: "of_le_bytes (le32 w) = unat w"
  using unsigned_less [of w, where ?'a = nat] by (simp add: le32_def of_le_bytes_le_bytes)

lemma of_le_bytes_le64: "of_le_bytes (le64 w) = unat w"
  using unsigned_less [of w, where ?'a = nat] by (simp add: le64_def of_le_bytes_le_bytes)

lemma le16_inject [simp, wire_inject]: "le16 v = le16 w \<longleftrightarrow> v = w"
  by (metis of_le_bytes_le16 word_unat_eq_iff)

lemma le32_inject [simp, wire_inject]: "le32 v = le32 w \<longleftrightarrow> v = w"
  by (metis of_le_bytes_le32 word_unat_eq_iff)

lemma le64_inject [simp, wire_inject]: "le64 v = le64 w \<longleftrightarrow> v = w"
  by (metis of_le_bytes_le64 word_unat_eq_iff)

lemma as_bytes_inject [simp, wire_inject]: "as_bytes s = as_bytes t \<longleftrightarrow> s = t"
proof -
  have "inj (\<lambda>c :: char. word_of_nat (of_char c) :: u8)"
  proof (rule injI)
    fix c d :: char
    assume "(word_of_nat (of_char c) :: u8) = word_of_nat (of_char d)"
    then have "unat (word_of_nat (of_char c) :: u8) = unat (word_of_nat (of_char d) :: u8)"
      by simp
    then have "(of_char c :: nat) mod 256 = of_char d mod 256"
      by (simp add: unat_of_nat take_bit_eq_mod)
    then show "c = d" by (simp add: of_char_eq_iff)
  qed
  then show ?thesis
    by (simp add: as_bytes_def inj_map_eq_map)
qed

lemma as_bytes_append [simp]: "as_bytes (s @ t) = as_bytes s @ as_bytes t"
  by (simp add: as_bytes_def)

lemma as_u32_inject:
  "n < 2 ^ 32 \<Longrightarrow> m < 2 ^ 32 \<Longrightarrow> as_u32 n = as_u32 m \<longleftrightarrow> n = m"
  by (simp add: as_u32_def word_of_nat_eq_iff take_bit_nat_eq_self)

lemma as_u64_inject:
  "n < 2 ^ 64 \<Longrightarrow> m < 2 ^ 64 \<Longrightarrow> as_u64 n = as_u64 m \<longleftrightarrow> n = m"
  by (simp add: as_u64_def word_of_nat_eq_iff take_bit_nat_eq_self)

lemma unat_as_u32: "n < 2 ^ 32 \<Longrightarrow> unat (as_u32 n) = n"
  by (simp add: as_u32_def unat_of_nat take_bit_eq_mod)

lemma unat_as_u64: "n < 2 ^ 64 \<Longrightarrow> unat (as_u64 n) = n"
  by (simp add: as_u64_def unat_of_nat take_bit_eq_mod)

lemma unat_u8_of_nat: "n < 256 \<Longrightarrow> unat (word_of_nat n :: u8) = n"
  by (simp add: unat_of_nat take_bit_eq_mod)

lemma unat_u16_of_nat: "n < 65536 \<Longrightarrow> unat (word_of_nat n :: u16) = n"
  by (simp add: unat_of_nat take_bit_eq_mod)

lemma unat_u8_bound: "unat (b :: u8) < 256"
  using unsigned_less [of b, where ?'a = nat] by simp

lemma unat_u16_bound: "unat (w :: u16) < 65536"
  using unsigned_less [of w, where ?'a = nat] by simp

section \<open>Lists\<close>

lemma append_eq_same_length:
  "length a = length b \<Longrightarrow> a @ r = b @ s \<longleftrightarrow> a = b \<and> r = s"
  by simp

lemma strict_sorted_unique:
  fixes xs ys :: "'a::linorder list"
  assumes "sorted_wrt (<) xs" "sorted_wrt (<) ys" "set xs = set ys"
  shows "xs = ys"
  using assms by (meson sorted_list_of_set_unique strict_sorted_equal strict_sorted_iff)

lemma sort_key_mset_eq:
  assumes "mset xs = mset ys" and "inj_on f (set xs)"
  shows "sort_key f xs = sort_key f ys"
  by (rule sort_key_inj_key_eq) (use assms in auto)

text \<open>Sorting by a key and truncating keeps the elements of least key.\<close>

lemma take_sort_key_least:
  assumes "c \<in> set (take n (sort_key f xs))" "d \<in> set xs" "d \<notin> set (take n (sort_key f xs))"
  shows "f c \<le> f d"
proof -
  have "d \<in> set (drop n (sort_key f xs))"
    using assms(2,3) by (metis UnE append_take_drop_id set_append set_sort)
  moreover have "sorted (map f (take n (sort_key f xs) @ drop n (sort_key f xs)))"
    by simp
  ultimately show ?thesis using assms(1) by (auto simp: sorted_append simp del: append_take_drop_id)
qed

lemma set_take_sort_key: "c \<in> set (take n (sort_key f xs)) \<Longrightarrow> c \<in> set xs"
  using in_set_takeD by fastforce

end
