(* ===== verification/Rust_Std.thy ===== *)
theory Rust_Std
  imports Prelude
begin

text \<open>
  The functions of the Rust standard library that the sources call and that are not already a HOL
  function: \<open>div_ceil\<close>, the wrapping, checked and saturating integer operations on \<open>u64\<close> values
  kept as \<open>nat\<close>, \<open>Vec::dedup\<close>, and the slice binary search, with the contract the callers rely on.
\<close>

section \<open>Integers\<close>

definition u64_max :: nat where
  "u64_max = 2 ^ 64 - 1"

definition div_ceil :: "nat \<Rightarrow> nat \<Rightarrow> nat" where
  "div_ceil a b = a div b + (if a mod b > 0 then 1 else 0)"

text \<open>Plain \<open>+\<close> and \<open>*\<close> on \<open>u64\<close> in a release build wrap around.\<close>

definition u64_add :: "nat \<Rightarrow> nat \<Rightarrow> nat" where
  "u64_add a b = (a + b) mod 2 ^ 64"

definition u64_mul :: "nat \<Rightarrow> nat \<Rightarrow> nat" where
  "u64_mul a b = (a * b) mod 2 ^ 64"

definition checked_add :: "nat \<Rightarrow> nat \<Rightarrow> nat option" where
  "checked_add a b = (if a + b \<le> u64_max then Some (a + b) else None)"

definition saturating_add :: "nat \<Rightarrow> nat \<Rightarrow> nat" where
  "saturating_add a b = min (a + b) u64_max"

text \<open>\<open>saturating_sub\<close> is the truncated subtraction of \<open>nat\<close>.\<close>

text \<open>The same for the other widths: \<open>usize\<close> subtraction, \<open>u32\<close> counters, and the signed types.\<close>

definition usize_sub :: "nat \<Rightarrow> nat \<Rightarrow> nat" where
  "usize_sub a b = (a + 2 ^ 64 - b) mod 2 ^ 64"

definition u32_add :: "nat \<Rightarrow> nat \<Rightarrow> nat" where
  "u32_add a b = (a + b) mod 2 ^ 32"

definition u32_saturating_add :: "nat \<Rightarrow> nat \<Rightarrow> nat" where
  "u32_saturating_add a b = min (a + b) (2 ^ 32 - 1)"

definition i32_wrap :: "int \<Rightarrow> int" where
  "i32_wrap x = (x + 2 ^ 31) mod 2 ^ 32 - 2 ^ 31"

definition i64_wrap :: "int \<Rightarrow> int" where
  "i64_wrap x = (x + 2 ^ 63) mod 2 ^ 64 - 2 ^ 63"

definition i64_saturating_sub :: "int \<Rightarrow> int \<Rightarrow> int" where
  "i64_saturating_sub a b = max (- (2 ^ 63)) (min (2 ^ 63 - 1) (a - b))"

lemma usize_sub_eq: "b \<le> a \<Longrightarrow> a < 2 ^ 64 \<Longrightarrow> usize_sub a b = a - b"
  by (simp add: usize_sub_def mod_if)

lemma i64_wrap_id: "- (2 ^ 63) \<le> x \<Longrightarrow> x < 2 ^ 63 \<Longrightarrow> i64_wrap x = x"
  by (simp add: i64_wrap_def)

lemma i32_wrap_id: "- (2 ^ 31) \<le> x \<Longrightarrow> x < 2 ^ 31 \<Longrightarrow> i32_wrap x = x"
  by (simp add: i32_wrap_def)

lemma div_ceil_le_iff: "0 < b \<Longrightarrow> div_ceil a b \<le> n \<longleftrightarrow> a \<le> n * b"
proof -
  assume b: "0 < b"
  have a: "a = a div b * b + a mod b" by simp
  have m: "a mod b < b" using b by simp
  show ?thesis
  proof (cases "a mod b = 0")
    case True
    then show ?thesis using b a by (auto simp: div_ceil_def)
  next
    case False
    have "div_ceil a b = Suc (a div b)" using False by (simp add: div_ceil_def)
    moreover have "Suc (a div b) \<le> n \<longleftrightarrow> a \<le> n * b"
    proof
      assume "Suc (a div b) \<le> n"
      then have "Suc (a div b) * b \<le> n * b" by (rule mult_le_mono1)
      then show "a \<le> n * b" using m a by (metis add.commute add_le_cancel_right le_trans less_imp_le mult_Suc)
    next
      assume le: "a \<le> n * b"
      show "Suc (a div b) \<le> n"
      proof (rule ccontr)
        assume "\<not> Suc (a div b) \<le> n"
        then have "n * b \<le> a div b * b" by simp
        with le a False show False by linarith
      qed
    qed
    ultimately show ?thesis by simp
  qed
qed

lemma less_div_ceil_iff: "0 < b \<Longrightarrow> n < div_ceil a b \<longleftrightarrow> n * b < a"
  using div_ceil_le_iff [of b a n] by linarith

section \<open>Slices\<close>

text \<open>\<open>Vec::dedup\<close> removes consecutive equal elements: HOL's \<open>remdups_adj\<close>.\<close>

lemma strict_sorted_remdups_adj:
  fixes xs :: "'a::linorder list"
  shows "sorted xs \<Longrightarrow> sorted_wrt (<) (remdups_adj xs)"
  by (induction xs rule: remdups_adj.induct) (auto simp: le_less_trans less_le)

lemma sort_dedup:
  fixes xs :: "'a::linorder list"
  shows "sorted_wrt (<) (remdups_adj (sort xs)) \<and> set (remdups_adj (sort xs)) = set xs"
  using sorted_sort [of xs] by (simp add: strict_sorted_remdups_adj)

datatype ordering = Less | Equal | Greater

text \<open>
  \<open>slice::binary_search_by\<close>: \<open>Inr i\<close> for \<open>Ok(i)\<close>, \<open>Inl i\<close> for \<open>Err(i)\<close>.  The loop keeps a window of
  \<open>size\<close> elements from \<open>base\<close> and halves it.
\<close>

function bsearch_loop :: "('a \<Rightarrow> ordering) \<Rightarrow> 'a list \<Rightarrow> nat \<Rightarrow> nat \<Rightarrow> nat" where
  "bsearch_loop f xs base sz =
     (if 1 < sz then
        (let half = sz div 2; mid = base + half
         in bsearch_loop f xs (if f (xs ! mid) = Greater then base else mid) (sz - half))
      else base)"
  by pat_completeness auto
termination
  by (relation "measure (\<lambda>(f, xs, base, sz). sz)") auto

declare bsearch_loop.simps [simp del]

definition binary_search_by :: "('a \<Rightarrow> ordering) \<Rightarrow> 'a list \<Rightarrow> nat + nat" where
  "binary_search_by f xs =
     (if xs = [] then Inl 0
      else let base = bsearch_loop f xs 0 (length xs)
           in (case f (xs ! base) of Equal \<Rightarrow> Inr base | Less \<Rightarrow> Inl (Suc base) | Greater \<Rightarrow> Inl base))"

definition is_ok :: "'e + 'a \<Rightarrow> bool" where
  "is_ok r \<longleftrightarrow> (\<exists>x. r = Inr x)"

lemma is_ok_simps [simp, code]: "is_ok (Inr x) \<longleftrightarrow> True" "is_ok (Inl e) \<longleftrightarrow> False"
  by (auto simp: is_ok_def)

text \<open>
  The documented precondition of the search: the comparator runs through \<open>Less\<close>, then \<open>Equal\<close>,
  then \<open>Greater\<close> over the slice.
\<close>

definition partitioned :: "('a \<Rightarrow> ordering) \<Rightarrow> 'a list \<Rightarrow> bool" where
  "partitioned f xs \<longleftrightarrow>
     (\<forall>i j. i < j \<longrightarrow> j < length xs \<longrightarrow>
        (f (xs ! j) \<noteq> Greater \<longrightarrow> f (xs ! i) \<noteq> Greater) \<and>
        (f (xs ! j) = Less \<longrightarrow> f (xs ! i) = Less))"

lemma bsearch_loop_spec:
  assumes "partitioned f xs" "0 < sz" "base + sz \<le> length xs"
    and "\<And>i. i < length xs \<Longrightarrow> f (xs ! i) \<noteq> Greater \<Longrightarrow> i < base + sz"
    and "base = 0 \<or> f (xs ! base) \<noteq> Greater"
  shows "bsearch_loop f xs base sz < length xs \<and>
     (\<forall>i < length xs. f (xs ! i) \<noteq> Greater \<longrightarrow> i \<le> bsearch_loop f xs base sz) \<and>
     (bsearch_loop f xs base sz = 0 \<or> f (xs ! bsearch_loop f xs base sz) \<noteq> Greater)"
  using assms
proof (induction f xs base sz rule: bsearch_loop.induct)
  case (1 f xs base sz)
  show ?case
  proof (cases "1 < sz")
    case False
    with "1.prems"(2) have "sz = 1" by simp
    moreover have "bsearch_loop f xs base sz = base"
      using False by (simp add: bsearch_loop.simps [of f xs base sz])
    ultimately show ?thesis using "1.prems" by (auto simp: less_Suc_eq_le)
  next
    case True
    define half where "half = sz div 2"
    define mid where "mid = base + half"
    have half: "0 < half" "half < sz" using True by (auto simp: half_def)
    then have mid: "mid < length xs" using "1.prems"(3) by (simp add: mid_def)
    have half2: "half \<le> sz - half" by (simp add: half_def)
    note IH = "1.IH" [OF True half_def mid_def "1.prems"(1)]
    have eq: "bsearch_loop f xs base sz =
      bsearch_loop f xs (if f (xs ! mid) = Greater then base else mid) (sz - half)"
      using True by (simp add: bsearch_loop.simps [of f xs base sz] half_def mid_def Let_def)
    show ?thesis
    proof (cases "f (xs ! mid) = Greater")
      case G: True
      have "i < base + (sz - half)" if "i < length xs" "f (xs ! i) \<noteq> Greater" for i
      proof (rule ccontr)
        assume "\<not> i < base + (sz - half)"
        then have "mid \<le> i" using half2 by (simp add: mid_def)
        with that G "1.prems"(1) show False
          unfolding partitioned_def by (metis le_neq_implies_less)
      qed
      then show ?thesis using IH G half "1.prems" eq by simp
    next
      case False
      then show ?thesis using IH half "1.prems" eq by (simp add: mid_def)
    qed
  qed
qed

lemma binary_search_by_ok_iff:
  assumes "partitioned f xs"
  shows "is_ok (binary_search_by f xs) \<longleftrightarrow> (\<exists>x \<in> set xs. f x = Equal)"
proof (cases "xs = []")
  case True
  then show ?thesis by (simp add: binary_search_by_def)
next
  case False
  define b where "b = bsearch_loop f xs 0 (length xs)"
  have b: "b < length xs" "\<And>i. i < length xs \<Longrightarrow> f (xs ! i) \<noteq> Greater \<Longrightarrow> i \<le> b"
    using bsearch_loop_spec [OF assms, of "length xs" 0] False unfolding b_def by auto
  have res: "is_ok (binary_search_by f xs) \<longleftrightarrow> f (xs ! b) = Equal"
    using False by (auto simp: binary_search_by_def b_def Let_def split: ordering.split)
  have "f (xs ! b) = Equal" if x: "x \<in> set xs" and eq: "f x = Equal" for x
  proof -
    obtain i where i: "i < length xs" "xs ! i = x" using x unfolding in_set_conv_nth by blast
    then have "i \<le> b" using b(2) eq by simp
    show ?thesis
    proof (cases "i = b")
      case False
      with \<open>i \<le> b\<close> have "i < b" by simp
      with assms b(1) i eq have "f (xs ! b) \<noteq> Less"
        unfolding partitioned_def by (metis ordering.distinct(1))
      moreover have "f (xs ! b) \<noteq> Greater"
      proof -
        have "b = 0 \<or> f (xs ! b) \<noteq> Greater"
          using bsearch_loop_spec [OF assms, of "length xs" 0] \<open>xs \<noteq> []\<close> unfolding b_def by auto
        with \<open>i < b\<close> show ?thesis by simp
      qed
      ultimately show ?thesis by (cases "f (xs ! b)") auto
    qed (use i eq in simp)
  qed
  with b(1) res show ?thesis by auto
qed

section \<open>Floating point\<close>

text \<open>
  The rounding of an exact result to an \<open>f64\<close>: 53 significant bits, ties to even.
\<close>

fun bit_len :: "nat \<Rightarrow> nat" where
  "bit_len n = (if n = 0 then 0 else Suc (bit_len (n div 2)))"

declare bit_len.simps [simp del]

definition round53 :: "nat \<Rightarrow> nat" where
  "round53 n =
     (let e = bit_len n - 53; q = n div 2 ^ e; r = n mod 2 ^ e
      in if e = 0 then n
         else if 2 * r > 2 ^ e \<or> (2 * r = 2 ^ e \<and> odd q) then (q + 1) * 2 ^ e else q * 2 ^ e)"

lemma bit_len_pow: "0 < n \<Longrightarrow> 2 ^ (bit_len n - 1) \<le> n"
proof (induction n rule: bit_len.induct)
  case (1 n)
  show ?case
  proof (cases "n div 2 = 0")
    case True
    then show ?thesis using 1(2) by (simp add: bit_len.simps [of n] bit_len.simps [of 0])
  next
    case False
    then have IH: "2 ^ (bit_len (n div 2) - 1) \<le> n div 2" using 1 by simp
    have "bit_len (n div 2) \<noteq> 0" using False by (simp add: bit_len.simps [of "n div 2"])
    then have "(2 :: nat) ^ bit_len (n div 2) = 2 * 2 ^ (bit_len (n div 2) - 1)" by (cases "bit_len (n div 2)") auto
    then show ?thesis using IH 1(2) by (simp add: bit_len.simps [of n])
  qed
qed

lemma round53_le: "round53 n \<le> 2 * n"
proof (cases "bit_len n - 53 = 0")
  case False
  define e where "e = bit_len n - 53"
  have "0 < n" using False by (cases n) (auto simp: bit_len.simps [of 0])
  have "2 ^ e \<le> (2 :: nat) ^ (bit_len n - 1)" using False by (intro power_increasing) (auto simp: e_def)
  then have e: "2 ^ e \<le> n" using bit_len_pow [OF \<open>0 < n\<close>] by linarith
  have q: "n div 2 ^ e * 2 ^ e \<le> n" by simp
  then have "(n div 2 ^ e + 1) * 2 ^ e \<le> 2 * n" using e unfolding add_mult_distrib by linarith
  then show ?thesis using q unfolding round53_def Let_def e_def [symmetric] by auto
qed (simp add: round53_def)

end
