(* ===== verification/Group_Bits.thy ===== *)
theory Group_Bits
  imports Rust_Std
begin

text \<open>
  The chunk-group bitfield of \<^verbatim>\<open>epix-blob/src/bitfield.rs\<close>: which 16 KiB groups of an object are
  present, as a sorted list of disjoint, non-adjacent ranges of group indices.  Every operation of
  \<open>GroupBits\<close> is modelled on the run list; \<open>groups_of\<close> reads a field as the set of groups it holds,
  and the lemmas say that each operation implements the set operation it stands for, keeps the run
  list canonical, and that the wire form round-trips.

  A \<open>Range<u64>\<close> is a pair of its \<open>start\<close> and \<open>end\<close>.  The field \<open>runs\<close> is private to the type, so its
  values are those the operations build; the subtractions \<open>r.end - r.start\<close> and \<open>r.start - cursor\<close>
  never underflow on them (\<open>runs_ok\<close>).
\<close>

section \<open>Definitions\<close>

type_synonym range = "nat \<times> nat"

record group_bits =
  runs :: "range list"

definition GROUP_BYTES :: nat where
  "GROUP_BYTES = 16384"

definition CHUNKS_PER_GROUP :: nat where
  "CHUNKS_PER_GROUP = GROUP_BYTES div 1024"

definition CHUNK_BYTES :: nat where
  "CHUNK_BYTES = GROUP_BYTES div CHUNKS_PER_GROUP"

definition MAX_GROUPS :: nat where
  "MAX_GROUPS = 2 ^ 26"

definition MAX_WIRE_RUNS :: nat where
  "MAX_WIRE_RUNS = 2 ^ 17"

definition group_count :: "nat \<Rightarrow> nat" where
  "group_count sz = div_ceil sz GROUP_BYTES"

definition groups_for_bytes :: "range \<Rightarrow> range" where
  "groups_for_bytes r =
     (if fst r \<ge> snd r then (0, 0)
      else (fst r div GROUP_BYTES, div_ceil (snd r) GROUP_BYTES))"

definition bytes_of_group :: "nat \<Rightarrow> nat \<Rightarrow> range" where
  "bytes_of_group g sz =
     (let start = u64_mul g GROUP_BYTES
      in (min start sz, min (u64_mul (u64_add g 1) GROUP_BYTES) sz))"

definition gb_new :: group_bits where
  "gb_new = \<lparr>runs = []\<rparr>"

definition gb_complete :: "nat \<Rightarrow> group_bits" where
  "gb_complete sz = (let n = group_count sz in if n > 0 then \<lparr>runs = [(0, n)]\<rparr> else gb_new)"

definition gb_cmp :: "nat \<Rightarrow> range \<Rightarrow> ordering" where
  "gb_cmp g r = (if snd r \<le> g then Less else if fst r > g then Greater else Equal)"

definition gb_contains :: "group_bits \<Rightarrow> nat \<Rightarrow> bool" where
  "gb_contains s g = is_ok (binary_search_by (gb_cmp g) (runs s))"

definition gb_contains_all :: "group_bits \<Rightarrow> range \<Rightarrow> bool" where
  "gb_contains_all s gs \<longleftrightarrow>
     fst gs \<ge> snd gs \<or> list_ex (\<lambda>r. fst r \<le> fst gs \<and> snd gs \<le> snd r) (runs s)"

text \<open>The rebuilding loop of \<open>add\<close>: the state is \<open>(new, merged, placed)\<close>.\<close>

fun add_step :: "range list \<times> range \<times> bool \<Rightarrow> range \<Rightarrow> range list \<times> range \<times> bool" where
  "add_step (new, merged, placed) r =
     (if snd r < fst merged \<or> fst r > snd merged then
        (if fst r > snd merged \<and> \<not> placed then (new @ [merged, r], merged, True)
         else (new @ [r], merged, placed))
      else (new, (min (fst merged) (fst r), max (snd merged) (snd r)), placed))"

definition add_result :: "range list \<times> range \<times> bool \<Rightarrow> range list" where
  "add_result st = (case st of (new, merged, placed) \<Rightarrow> if placed then new else new @ [merged])"

definition add_rebuild :: "range list \<Rightarrow> range \<Rightarrow> range list" where
  "add_rebuild rs gs = add_result (foldl add_step ([], gs, False) rs)"

definition gb_add :: "group_bits \<Rightarrow> range \<Rightarrow> group_bits" where
  "gb_add s gs =
     (if fst gs \<ge> snd gs then s
      else if runs s = [] then s\<lparr>runs := [gs]\<rparr>
      else let tail_end = snd (last (runs s)) in
           if fst gs = tail_end then
             s\<lparr>runs := butlast (runs s) @ [(fst (last (runs s)), snd gs)]\<rparr>
           else if fst gs > tail_end then s\<lparr>runs := runs s @ [gs]\<rparr>
           else s\<lparr>runs := add_rebuild (runs s) gs\<rparr>)"

definition remove_run :: "range \<Rightarrow> range \<Rightarrow> range list" where
  "remove_run gs r =
     (if snd r \<le> fst gs \<or> fst r \<ge> snd gs then [r]
      else (if fst r < fst gs then [(fst r, fst gs)] else []) @
           (if snd r > snd gs then [(snd gs, snd r)] else []))"

definition gb_remove :: "group_bits \<Rightarrow> range \<Rightarrow> group_bits" where
  "gb_remove s gs =
     (if fst gs \<ge> snd gs then s else s\<lparr>runs := concat (map (remove_run gs) (runs s))\<rparr>)"

definition gb_count :: "group_bits \<Rightarrow> nat" where
  "gb_count s = sum_list (map (\<lambda>r. snd r - fst r) (runs s))"

definition gb_is_empty :: "group_bits \<Rightarrow> bool" where
  "gb_is_empty s \<longleftrightarrow> runs s = []"

definition gb_is_complete :: "group_bits \<Rightarrow> nat \<Rightarrow> bool" where
  "gb_is_complete s sz \<longleftrightarrow> (let n = group_count sz in n = 0 \<or> runs s = [(0, n)])"

text \<open>The loop of \<open>gaps\<close> over the remaining runs, with the cursor; the two \<open>break\<close>s end it.\<close>

fun gaps_loop :: "range \<Rightarrow> nat \<Rightarrow> range list \<Rightarrow> range list" where
  "gaps_loop w cursor [] = (if cursor < snd w then [(cursor, snd w)] else [])"
| "gaps_loop w cursor (r # rs) =
     (if snd r \<le> cursor then gaps_loop w cursor rs
      else if fst r \<ge> snd w then gaps_loop w cursor []
      else (if fst r > cursor then [(cursor, min (fst r) (snd w))] else []) @
           (let cursor' = max cursor (snd r)
            in if cursor' \<ge> snd w then gaps_loop w cursor' [] else gaps_loop w cursor' rs))"

definition gb_gaps :: "group_bits \<Rightarrow> range \<Rightarrow> range list" where
  "gb_gaps s w = gaps_loop w (fst w) (runs s)"

definition gb_added_in :: "group_bits \<Rightarrow> group_bits \<Rightarrow> group_bits" where
  "gb_added_in s other = foldl gb_remove other (runs s)"

fun wire_pairs :: "nat \<Rightarrow> range list \<Rightarrow> nat list" where
  "wire_pairs cursor [] = []"
| "wire_pairs cursor (r # rs) = (fst r - cursor) # (snd r - fst r) # wire_pairs (snd r) rs"

definition gb_to_wire :: "group_bits \<Rightarrow> nat list" where
  "gb_to_wire s =
     (case wire_pairs 0 (runs s) of
        [] \<Rightarrow> []
      | x # out \<Rightarrow> if x = 0 then out else 0 # x # out)"

definition push_run :: "range list \<Rightarrow> range \<Rightarrow> range list" where
  "push_run rs r =
     (if rs \<noteq> [] \<and> snd (last rs) = fst r
      then butlast rs @ [(fst (last rs), snd r)] else rs @ [r])"

fun from_wire_loop :: "range list \<Rightarrow> nat \<Rightarrow> bool \<Rightarrow> nat list \<Rightarrow> range list option" where
  "from_wire_loop acc cursor present [] = Some acc"
| "from_wire_loop acc cursor present (run # rest) =
     (case checked_add cursor run of
        None \<Rightarrow> None
      | Some e \<Rightarrow>
          if e > MAX_GROUPS then None
          else from_wire_loop (if present \<and> run > 0 then push_run acc (cursor, e) else acc)
                 e (\<not> present) rest)"

definition gb_from_wire :: "nat list \<Rightarrow> group_bits option" where
  "gb_from_wire ws =
     (if length ws > MAX_WIRE_RUNS then None
      else map_option (\<lambda>rs. \<lparr>runs = rs\<rparr>) (from_wire_loop [] 0 True ws))"

text \<open>
  \<open>ChunkRanges\<close> is a set type of the \<open>bao-tree\<close> crate: its empty set, union and range constructor
  are the parameters \<open>emp\<close>, \<open>un\<close> and \<open>of_range\<close>.
\<close>

definition gb_to_chunk_ranges ::
  "'c \<Rightarrow> ('c \<Rightarrow> 'c \<Rightarrow> 'c) \<Rightarrow> (nat \<Rightarrow> nat \<Rightarrow> 'c) \<Rightarrow> group_bits \<Rightarrow> 'c" where
  "gb_to_chunk_ranges emp un of_range s =
     foldl (\<lambda>out r. un out (of_range (u64_mul (fst r) CHUNKS_PER_GROUP)
                                    (u64_mul (snd r) CHUNKS_PER_GROUP))) emp (runs s)"

definition gb_to_chunk_ranges_clamped ::
  "'c \<Rightarrow> ('c \<Rightarrow> 'c \<Rightarrow> 'c) \<Rightarrow> (nat \<Rightarrow> nat \<Rightarrow> 'c) \<Rightarrow> group_bits \<Rightarrow> nat \<Rightarrow> 'c" where
  "gb_to_chunk_ranges_clamped emp un of_range s sz =
     (let chunks = div_ceil sz CHUNK_BYTES in
      foldl (\<lambda>out r.
        let start = min (u64_mul (fst r) CHUNKS_PER_GROUP) chunks;
            end' = min (u64_mul (snd r) CHUNKS_PER_GROUP) chunks
        in if start < end' then un out (of_range start end') else out) emp (runs s))"

section \<open>The set a field stands for\<close>

definition range_set :: "range \<Rightarrow> nat set" where
  "range_set r = {fst r..<snd r}"

definition run_set :: "range list \<Rightarrow> nat set" where
  "run_set rs = (\<Union>r \<in> set rs. range_set r)"

definition groups_of :: "group_bits \<Rightarrow> nat set" where
  "groups_of s = run_set (runs s)"

text \<open>The invariant of the type: sorted, non-empty, non-overlapping, non-adjacent runs.\<close>

definition runs_ok :: "range list \<Rightarrow> bool" where
  "runs_ok rs \<longleftrightarrow> (\<forall>r \<in> set rs. fst r < snd r) \<and> sorted_wrt (\<lambda>r t. snd r < fst t) rs"

definition gb_inv :: "group_bits \<Rightarrow> bool" where
  "gb_inv s \<longleftrightarrow> runs_ok (runs s)"

named_theorems gb_simps \<open>unfolding facts of group fields\<close>

declare groups_of_def [gb_simps] gb_inv_def [gb_simps]

lemma mem_range_set [simp]: "g \<in> range_set r \<longleftrightarrow> fst r \<le> g \<and> g < snd r"
  by (simp add: range_set_def)

lemma run_set_simps [simp]:
  "run_set [] = {}" "run_set (r # rs) = range_set r \<union> run_set rs"
  "run_set (rs @ ts) = run_set rs \<union> run_set ts"
  by (auto simp: run_set_def)

lemma runs_ok_Nil [simp]: "runs_ok []"
  by (simp add: runs_ok_def)

lemma runs_ok_Cons [simp]:
  "runs_ok (r # rs) \<longleftrightarrow> fst r < snd r \<and> (\<forall>t \<in> set rs. snd r < fst t) \<and> runs_ok rs"
  by (auto simp: runs_ok_def)

lemma runs_ok_append:
  "runs_ok (rs @ ts) \<longleftrightarrow> runs_ok rs \<and> runs_ok ts \<and> (\<forall>r \<in> set rs. \<forall>t \<in> set ts. snd r < fst t)"
  by (auto simp: runs_ok_def sorted_wrt_append)

lemma mem_run_set: "g \<in> run_set rs \<longleftrightarrow> (\<exists>r \<in> set rs. fst r \<le> g \<and> g < snd r)"
  by (auto simp: run_set_def)

lemma finite_run_set [simp]: "finite (run_set rs)"
  by (auto simp: run_set_def range_set_def)

section \<open>Adding and removing groups\<close>

lemma range_set_hull:
  assumes "fst m < snd m" "fst r < snd r" "\<not> snd r < fst m" "\<not> fst r > snd m"
  shows "range_set (min (fst m) (fst r), max (snd m) (snd r)) = range_set m \<union> range_set r"
  using assms by (auto simp: range_set_def)

lemma add_step_placed:
  "\<forall>r \<in> set rs. fst r > snd m \<Longrightarrow> foldl add_step (new, m, True) rs = (new @ rs, m, True)"
  by (induction rs arbitrary: new) auto

lemma add_step_unplaced:
  assumes "runs_ok new" "fst m < snd m" "\<forall>n \<in> set new. snd n < fst m"
    and "runs_ok rs" "\<forall>n \<in> set new. \<forall>r \<in> set rs. snd n < fst r"
  shows "runs_ok (add_result (foldl add_step (new, m, False) rs)) \<and>
    run_set (add_result (foldl add_step (new, m, False) rs)) = run_set new \<union> range_set m \<union> run_set rs"
  using assms
proof (induction rs arbitrary: new m)
  case Nil
  then show ?case by (auto simp: runs_ok_append add_result_def)
next
  case (Cons r rs)
  have r: "fst r < snd r" "runs_ok rs" "\<forall>t \<in> set rs. snd r < fst t"
    using Cons.prems(4) by auto
  consider (before) "snd r < fst m" | (after) "fst r > snd m"
    | (touch) "\<not> snd r < fst m" "\<not> fst r > snd m" by blast
  then show ?case
  proof cases
    case before
    have na: "\<not> fst r > snd m" using before r(1) Cons.prems(2) by simp
    have "runs_ok (new @ [r])" "\<forall>n \<in> set (new @ [r]). snd n < fst m"
      "\<forall>n \<in> set (new @ [r]). \<forall>t \<in> set rs. snd n < fst t"
      using Cons.prems before by (auto simp: runs_ok_append)
    from Cons.IH [OF this(1) Cons.prems(2) this(2) r(2) this(3)]
    show ?thesis using before na by (simp add: Un_ac)
  next
    case after
    then have "\<forall>t \<in> set rs. fst t > snd m" using r by fastforce
    then have eq: "foldl add_step (new, m, False) (r # rs) = ((new @ [m, r]) @ rs, m, True)"
      using after by (simp add: add_step_placed)
    have "runs_ok (new @ [m, r] @ rs)"
      using Cons.prems after r \<open>\<forall>t \<in> set rs. fst t > snd m\<close> by (simp add: runs_ok_append)
    then show ?thesis unfolding eq by (simp add: add_result_def Un_ac)
  next
    case touch
    let ?m = "(min (fst m) (fst r), max (snd m) (snd r))"
    have "fst ?m < snd ?m" "\<forall>n \<in> set new. snd n < fst ?m"
      "\<forall>n \<in> set new. \<forall>t \<in> set rs. snd n < fst t"
      using Cons.prems by (auto simp: min_less_iff_disj less_max_iff_disj)
    from Cons.IH [OF Cons.prems(1) this(1,2) r(2) this(3)]
    show ?thesis using touch range_set_hull [OF Cons.prems(2) r(1) touch] by (simp add: Un_ac)
  qed
qed

lemma add_rebuild_spec:
  assumes "runs_ok rs" "fst gs < snd gs"
  shows "runs_ok (add_rebuild rs gs)" "run_set (add_rebuild rs gs) = run_set rs \<union> range_set gs"
  using add_step_unplaced [of "[]" gs rs] assms
  by (simp_all add: add_rebuild_def add_result_def Un_commute)

lemma runs_ok_last: "runs_ok rs \<Longrightarrow> r \<in> set rs \<Longrightarrow> snd r \<le> snd (last rs)"
proof (induction rs)
  case Nil
  then show ?case by simp
next
  case (Cons t rs)
  show ?case
  proof (cases "rs = []")
    case True
    with Cons.prems show ?thesis by auto
  next
    case False
    then have "snd t < fst (last rs)" "fst (last rs) < snd (last rs)"
      using Cons.prems(1) by (auto simp: runs_ok_def)
    then have "snd t \<le> snd (last rs)" by simp
    with Cons False show ?thesis by (cases "r = t") auto
  qed
qed

lemma push_run_spec:
  assumes "runs_ok rs" "fst r < snd r" "\<forall>t \<in> set rs. snd t \<le> fst r"
  shows "runs_ok (push_run rs r)" "run_set (push_run rs r) = run_set rs \<union> range_set r"
proof -
  have "runs_ok (push_run rs r) \<and> run_set (push_run rs r) = run_set rs \<union> range_set r"
  proof (cases "rs \<noteq> [] \<and> snd (last rs) = fst r")
    case True
    define us where "us = butlast rs"
    define l where "l = last rs"
    have rs: "rs = us @ [l]" using True by (simp add: us_def l_def)
    have "push_run rs r = us @ [(fst l, snd r)]"
      using True by (simp add: push_run_def us_def l_def)
    moreover have "snd l = fst r" using True by (simp add: l_def)
    ultimately show ?thesis
      using assms unfolding rs by (auto simp: runs_ok_append range_set_def)
  next
    case False
    then have "push_run rs r = rs @ [r]" by (auto simp: push_run_def)
    moreover have "snd t < fst r" if "t \<in> set rs" for t
    proof (cases "t = last rs")
      case True
      with False that assms(3) show ?thesis by (cases "rs = []") (auto simp: le_less)
    next
      case neq: False
      have "snd (last rs) \<le> fst r" using assms(3) that by (cases "rs = []") auto
      moreover have "snd t \<le> snd (last rs)" using runs_ok_last assms(1) that by blast
      ultimately show ?thesis using False that by (cases "rs = []") (auto simp: le_less)
    qed
    ultimately show ?thesis using assms by (auto simp: runs_ok_append)
  qed
  then show "runs_ok (push_run rs r)" "run_set (push_run rs r) = run_set rs \<union> range_set r"
    by auto
qed

lemma gb_add_runs:
  "runs (gb_add s gs) =
     (if fst gs \<ge> snd gs then runs s
      else if runs s = [] \<or> fst gs \<ge> snd (last (runs s)) then push_run (runs s) gs
      else add_rebuild (runs s) gs)"
  by (auto simp: gb_add_def push_run_def Let_def)

lemma gb_add_ok:
  assumes "gb_inv s"
  shows "gb_inv (gb_add s gs)" "groups_of (gb_add s gs) = groups_of s \<union> range_set gs"
proof -
  have "\<forall>t \<in> set (runs s). snd t \<le> fst gs" if "runs s = [] \<or> fst gs \<ge> snd (last (runs s))"
    using runs_ok_last assms that by (auto simp: gb_simps intro: order_trans)
  then show "gb_inv (gb_add s gs)" "groups_of (gb_add s gs) = groups_of s \<union> range_set gs"
    using assms push_run_spec [of "runs s" gs] add_rebuild_spec [of "runs s" gs]
    by (auto simp: gb_simps gb_add_runs range_set_def)
qed

lemma remove_run_spec:
  assumes "fst r < snd r" "fst gs < snd gs"
  shows "runs_ok (remove_run gs r)" "run_set (remove_run gs r) = range_set r - range_set gs"
    and "\<forall>t \<in> set (remove_run gs r). fst r \<le> fst t \<and> snd t \<le> snd r"
  using assms by (auto simp: remove_run_def)

lemma remove_runs_spec:
  assumes "runs_ok rs" "fst gs < snd gs"
  shows "runs_ok (concat (map (remove_run gs) rs))"
    and "run_set (concat (map (remove_run gs) rs)) = run_set rs - range_set gs"
    and "\<forall>t \<in> set (concat (map (remove_run gs) rs)). \<exists>r \<in> set rs. fst r \<le> fst t \<and> snd t \<le> snd r"
proof -
  show within: "\<forall>t \<in> set (concat (map (remove_run gs) rs)). \<exists>r \<in> set rs. fst r \<le> fst t \<and> snd t \<le> snd r"
    using assms remove_run_spec(3) [of _ gs] by (auto simp: runs_ok_def)
  show "run_set (concat (map (remove_run gs) rs)) = run_set rs - range_set gs"
    using assms remove_run_spec(2) [of _ gs] by (induction rs) auto
  show "runs_ok (concat (map (remove_run gs) rs))"
    using assms
  proof (induction rs)
    case Nil
    then show ?case by simp
  next
    case (Cons r rs)
    have "snd a < fst b" if "a \<in> set (remove_run gs r)" "b \<in> set (concat (map (remove_run gs) rs))" for a b
    proof -
      obtain t where "t \<in> set rs" "b \<in> set (remove_run gs t)" using \<open>b \<in> _\<close> by auto
      then have "fst t \<le> fst b" "snd r < fst t"
        using Cons.prems remove_run_spec(3) [of t gs] by (auto simp: runs_ok_def)
      moreover have "snd a \<le> snd r" using remove_run_spec(3) [of r gs] Cons.prems that(1) by auto
      ultimately show ?thesis by simp
    qed
    then show ?case
      using Cons remove_run_spec(1) [of r gs] by (auto simp: runs_ok_append)
  qed
qed

lemma gb_remove_ok:
  assumes "gb_inv s"
  shows "gb_inv (gb_remove s gs)" "groups_of (gb_remove s gs) = groups_of s - range_set gs"
  using assms remove_runs_spec [of "runs s" gs]
  by (auto simp: gb_remove_def gb_simps)

section \<open>Queries\<close>

lemma run_set_above: "\<forall>t \<in> set rs. b < fst t \<Longrightarrow> g \<in> run_set rs \<Longrightarrow> b < g"
  unfolding mem_run_set by (meson less_le_trans)

lemma run_end_absent: "runs_ok rs \<Longrightarrow> r \<in> set rs \<Longrightarrow> snd r \<notin> run_set rs"
proof (induction rs)
  case Nil
  then show ?case by simp
next
  case (Cons t rs)
  have above: "g \<in> run_set rs \<Longrightarrow> snd t < g" for g using run_set_above [of rs "snd t"] Cons.prems by simp
  show ?case
  proof (cases "r = t")
    case True
    with above show ?thesis by auto
  next
    case False
    then have "snd t < fst r" "fst r < snd r" "r \<in> set rs"
      using Cons.prems by (auto simp: runs_ok_def)
    moreover have "snd r \<notin> run_set rs" using Cons \<open>r \<in> set rs\<close> by simp
    ultimately show ?thesis by (metis Un_iff less_trans mem_range_set not_less_iff_gr_or_eq run_set_simps(2))
  qed
qed

lemma gb_cmp_partitioned:
  assumes "runs_ok rs"
  shows "partitioned (gb_cmp g) rs"
proof -
  have "snd (rs ! i) < fst (rs ! j)" "fst (rs ! i) < snd (rs ! i)" "fst (rs ! j) < snd (rs ! j)"
    if "i < j" "j < length rs" for i j
    using assms that by (auto simp: runs_ok_def sorted_wrt_iff_nth_less)
  then show ?thesis
    unfolding partitioned_def gb_cmp_def by (fastforce split: if_splits)
qed

lemma gb_contains_iff: "gb_inv s \<Longrightarrow> gb_contains s g \<longleftrightarrow> g \<in> groups_of s"
  unfolding gb_contains_def gb_simps
  by (subst binary_search_by_ok_iff [OF gb_cmp_partitioned], assumption)
    (force simp: mem_run_set gb_cmp_def split: if_splits)

lemma gb_contains_all_iff:
  assumes "gb_inv s"
  shows "gb_contains_all s gs \<longleftrightarrow> range_set gs \<subseteq> groups_of s"
proof (cases "fst gs \<ge> snd gs")
  case True
  then show ?thesis by (auto simp: gb_contains_all_def range_set_def)
next
  case False
  have "\<exists>r \<in> set (runs s). fst r \<le> fst gs \<and> snd gs \<le> snd r" if sub: "range_set gs \<subseteq> groups_of s"
  proof -
    have "fst gs \<in> groups_of s" using sub False by auto
    then obtain r where r: "r \<in> set (runs s)" "fst r \<le> fst gs" "fst gs < snd r"
      by (auto simp: gb_simps mem_run_set)
    have "snd r \<notin> groups_of s" using assms r by (simp add: gb_simps run_end_absent)
    with sub r have "snd gs \<le> snd r" by (meson in_mono mem_range_set less_imp_le not_le)
    with r show ?thesis by blast
  qed
  moreover have "range_set gs \<subseteq> groups_of s"
    if "r \<in> set (runs s)" "fst r \<le> fst gs" "snd gs \<le> snd r" for r
    using that unfolding groups_of_def run_set_def by fastforce
  ultimately show ?thesis
    using False unfolding gb_contains_all_def list_ex_iff by blast
qed

lemma run_set_canonical:
  "runs_ok rs \<Longrightarrow> runs_ok ts \<Longrightarrow> run_set rs = run_set ts \<Longrightarrow> rs = ts"
proof (induction rs arbitrary: ts)
  case Nil
  then show ?case by (cases ts) (auto simp: range_set_def)
next
  case (Cons r rs)
  obtain t us where ts: "ts = t # us" using Cons.prems by (cases ts) (auto simp: range_set_def)
  have low: "fst x \<le> g" if "runs_ok (x # xs)" "g \<in> run_set (x # xs)" for x xs g
    using that run_set_above [of xs "snd x" g] by fastforce
  have first: "fst x \<in> run_set (x # xs)" if "runs_ok (x # xs)" for x xs
    using that by simp
  have eq: "run_set (r # rs) = run_set (t # us)" using Cons.prems ts by simp
  have f: "fst r = fst t"
    using low first eq Cons.prems ts by (metis le_antisym)
  have "snd r \<notin> run_set (r # rs)" "snd t \<notin> run_set (t # us)"
    using run_end_absent [OF Cons.prems(1), of r] run_end_absent [of "t # us" t] Cons.prems ts by auto
  then have "\<not> snd r < snd t" "\<not> snd t < snd r"
    using eq f Cons.prems ts by auto
  then have rt: "r = t" using f by (simp add: prod_eq_iff)
  have tail: "run_set xs = run_set (x # xs) - range_set x" if "runs_ok (x # xs)" for x xs
    using that run_set_above [of xs "snd x"] by fastforce
  have "run_set rs = run_set us"
    using tail [of r rs] tail [of t us] eq rt Cons.prems ts by simp
  with Cons rt ts show ?case by simp
qed

lemma gb_extensional: "gb_inv s \<Longrightarrow> gb_inv t \<Longrightarrow> groups_of s = groups_of t \<Longrightarrow> s = t"
  using run_set_canonical by (cases s, cases t) (auto simp: gb_simps)

lemma gb_count_card: "gb_inv s \<Longrightarrow> gb_count s = card (groups_of s)"
proof -
  have "runs_ok rs \<Longrightarrow> sum_list (map (\<lambda>r. snd r - fst r) rs) = card (run_set rs)" for rs
  proof (induction rs)
    case Nil
    then show ?case by simp
  next
    case (Cons r rs)
    then have "range_set r \<inter> run_set rs = {}" using run_set_above [of rs "snd r"] by fastforce
    then have "card (run_set (r # rs)) = card (range_set r) + card (run_set rs)"
      by (simp add: card_Un_disjoint range_set_def)
    with Cons show ?case by (simp add: range_set_def)
  qed
  then show "gb_inv s \<Longrightarrow> gb_count s = card (groups_of s)"
    by (simp add: gb_count_def gb_simps)
qed

lemma gb_complete_ok:
  "gb_inv (gb_complete sz)" "groups_of (gb_complete sz) = {..<group_count sz}"
  by (auto simp: gb_complete_def gb_new_def gb_simps Let_def)

lemma gb_is_complete_iff:
  assumes "gb_inv s" "0 < sz"
  shows "gb_is_complete s sz \<longleftrightarrow> groups_of s = {..<group_count sz}"
proof -
  have n: "0 < group_count sz"
    using assms(2) by (simp add: group_count_def GROUP_BYTES_def less_div_ceil_iff)
  have "groups_of s = {..<group_count sz} \<Longrightarrow> s = gb_complete sz"
    using assms gb_complete_ok [of sz] gb_extensional by simp
  moreover have "s = gb_complete sz \<longleftrightarrow> gb_is_complete s sz"
    using n by (cases s) (auto simp: gb_complete_def gb_is_complete_def Let_def)
  ultimately show ?thesis using gb_complete_ok [of sz] by auto
qed

lemma gaps_loop_spec:
  assumes "runs_ok rs"
  shows "run_set (gaps_loop w c rs) = {c..<snd w} - run_set rs \<and> runs_ok (gaps_loop w c rs) \<and>
    (\<forall>g \<in> set (gaps_loop w c rs). c \<le> fst g \<and> snd g \<le> snd w)"
  using assms
proof (induction w c rs rule: gaps_loop.induct)
  case (1 w cursor)
  then show ?case by (auto simp: range_set_def)
next
  case (2 w c r rs)
  consider (skip) "snd r \<le> c" | (stop) "\<not> snd r \<le> c" "fst r \<ge> snd w"
    | (hit) "\<not> snd r \<le> c" "\<not> fst r \<ge> snd w" by blast
  then show ?case
  proof cases
    case skip
    then have "{c..<snd w} - run_set (r # rs) = {c..<snd w} - run_set rs" by fastforce
    moreover have "gaps_loop w c (r # rs) = gaps_loop w c rs" using skip by simp
    ultimately show ?thesis using "2.IH"(1) [OF skip] "2.prems" by simp
  next
    case stop
    have "x \<notin> run_set (r # rs)" if "x < snd w" for x
      using stop that "2.prems" run_set_above [of rs "snd r" x] by auto
    then have "{c..<snd w} - run_set (r # rs) = {c..<snd w}" by auto
    moreover have "gaps_loop w c (r # rs) = gaps_loop w c []" using stop by simp
    ultimately show ?thesis by (auto simp: range_set_def)
  next
    case hit
    have m: "max c (snd r) = snd r" using hit by simp
    define rest where "rest = (if snd r \<ge> snd w then [] else gaps_loop w (snd r) rs)"
    have rest: "run_set rest = {snd r..<snd w} - run_set rs" "runs_ok rest"
      "\<forall>g \<in> set rest. snd r \<le> fst g \<and> snd g \<le> snd w"
      using "2.IH"(4) [OF hit refl] "2.prems" m by (simp_all add: rest_def)
    have eq: "gaps_loop w c (r # rs) =
      (if fst r > c then [(c, fst r)] else []) @ rest"
      using hit m by (simp add: rest_def Let_def min_def)
    have below: "x \<notin> run_set rs" if "x < snd r" for x
      using that "2.prems" run_set_above [of rs "snd r" x] by auto
    have "run_set (gaps_loop w c (r # rs)) = {c..<snd w} - run_set (r # rs)"
      unfolding eq using rest(1) hit "2.prems" below by (auto simp: range_set_def)
    moreover have "runs_ok (gaps_loop w c (r # rs))"
      unfolding eq using rest(2,3) "2.prems" hit by (fastforce simp: runs_ok_append)
    moreover have "\<forall>g \<in> set (gaps_loop w c (r # rs)). c \<le> fst g \<and> snd g \<le> snd w"
      unfolding eq using rest(3) hit by fastforce
    ultimately show ?thesis by blast
  qed
qed

lemma gb_gaps_ok:
  assumes "gb_inv s"
  shows "runs_ok (gb_gaps s w)" "run_set (gb_gaps s w) = range_set w - groups_of s"
  using gaps_loop_spec [of "runs s" w "fst w"] assms
  by (auto simp: gb_gaps_def gb_simps range_set_def)

lemma foldl_gb_add:
  assumes "gb_inv s"
  shows "gb_inv (foldl gb_add s rs) \<and> groups_of (foldl gb_add s rs) = groups_of s \<union> run_set rs"
  using assms by (induction rs arbitrary: s) (auto simp: gb_add_ok)

lemma gb_added_in_ok:
  assumes "gb_inv other"
  shows "gb_inv (gb_added_in s other)" "groups_of (gb_added_in s other) = groups_of other - groups_of s"
proof -
  have "gb_inv (foldl gb_remove t rs) \<and> groups_of (foldl gb_remove t rs) = groups_of t - run_set rs"
    if "gb_inv t" for t rs
    using that by (induction rs arbitrary: t) (auto simp: gb_remove_ok)
  then show "gb_inv (gb_added_in s other)" "groups_of (gb_added_in s other) = groups_of other - groups_of s"
    using assms by (simp_all add: gb_added_in_def groups_of_def [of s])
qed

section \<open>The wire form\<close>

lemma length_wire_pairs: "length (wire_pairs c rs) = 2 * length rs"
  by (induction c rs rule: wire_pairs.induct) auto

lemma push_run_gap: "rs = [] \<or> snd (last rs) < fst r \<Longrightarrow> push_run rs r = rs @ [r]"
  by (auto simp: push_run_def)

lemma from_wire_pairs:
  assumes "runs_ok rs" "\<forall>r \<in> set rs. c \<le> fst r \<and> snd r \<le> MAX_GROUPS"
    and "acc = [] \<or> (\<forall>r \<in> set rs. snd (last acc) < fst r)"
  shows "from_wire_loop acc c False (wire_pairs c rs) = Some (acc @ rs)"
  using assms
proof (induction c rs arbitrary: acc rule: wire_pairs.induct)
  case (1 c)
  then show ?case by simp
next
  case (2 c r rs)
  have r: "c \<le> fst r" "fst r < snd r" "snd r \<le> MAX_GROUPS" using "2.prems" by auto
  moreover have "MAX_GROUPS \<le> u64_max" by (simp add: MAX_GROUPS_def u64_max_def)
  moreover have "push_run acc (fst r, snd r) = acc @ [r]"
    using "2.prems"(3) push_run_gap [of acc r] by auto
  moreover have "from_wire_loop (acc @ [r]) (snd r) False (wire_pairs (snd r) rs) = Some ((acc @ [r]) @ rs)"
    using "2.prems" by (intro "2.IH") (auto simp: less_imp_le)
  ultimately show ?case by (simp add: checked_add_def)
qed

lemma gb_wire_roundtrip:
  assumes "gb_inv s" "groups_of s \<subseteq> {..<MAX_GROUPS}" "length (gb_to_wire s) \<le> MAX_WIRE_RUNS"
  shows "gb_from_wire (gb_to_wire s) = Some s"
proof -
  have ok: "runs_ok (runs s)" using assms(1) by (simp add: gb_simps)
  have bound: "snd r \<le> MAX_GROUPS" if r: "r \<in> set (runs s)" for r
  proof -
    have "fst r < snd r" using ok r by (simp add: runs_ok_def)
    then have "snd r - 1 \<in> range_set r" by simp
    then have "snd r - 1 \<in> groups_of s"
      using r unfolding groups_of_def run_set_def by blast
    then show ?thesis using assms(2) by auto
  qed
  have pairs: "from_wire_loop [] 0 False (wire_pairs 0 (runs s)) = Some (runs s)"
    using from_wire_pairs [of "runs s" 0 "[]"] ok bound by simp
  have "from_wire_loop [] 0 True (gb_to_wire s) = Some (runs s)"
  proof (cases "runs s")
    case Nil
    then show ?thesis by (simp add: gb_to_wire_def)
  next
    case (Cons r rs)
    show ?thesis
    proof (cases "fst r = 0")
      case True
      then have "gb_to_wire s = snd r # wire_pairs (snd r) rs"
        using Cons by (simp add: gb_to_wire_def)
      moreover have "from_wire_loop [] 0 False (0 # snd r # wire_pairs (snd r) rs) = Some (runs s)"
        using pairs True unfolding Cons by simp
      ultimately show ?thesis by (simp add: checked_add_def MAX_GROUPS_def u64_max_def)
    next
      case False
      then have "gb_to_wire s = 0 # wire_pairs 0 (runs s)"
        using Cons by (simp add: gb_to_wire_def)
      then show ?thesis using pairs by (simp add: checked_add_def)
    qed
  qed
  then show ?thesis using assms(3) by (simp add: gb_from_wire_def)
qed

lemma from_wire_loop_ok:
  assumes "from_wire_loop acc c p ws = Some rs" "runs_ok acc" "\<forall>r \<in> set acc. snd r \<le> c" "c \<le> MAX_GROUPS"
  shows "runs_ok rs \<and> (\<forall>r \<in> set rs. snd r \<le> MAX_GROUPS)"
  using assms
proof (induction acc c p ws rule: from_wire_loop.induct)
  case (1 acc c p)
  then show ?case by auto
next
  case (2 acc c p run rest)
  define acc' where "acc' = (if p \<and> run > 0 then push_run acc (c, c + run) else acc)"
  have step: "checked_add c run = Some (c + run)" "\<not> c + run > MAX_GROUPS"
    "from_wire_loop acc' (c + run) (\<not> p) rest = Some rs"
    using "2.prems"(1) by (auto simp: checked_add_def acc'_def split: option.splits if_splits)
  have ok: "runs_ok acc'"
    using "2.prems" push_run_spec(1) [of acc "(c, c + run)"] by (auto simp: acc'_def)
  have "snd r \<le> c + run" if "r \<in> set acc'" for r
  proof -
    have "r \<in> set acc \<or> snd r = c + run"
      using that by (auto simp: acc'_def push_run_def split: if_splits dest: in_set_butlastD)
    then show ?thesis using "2.prems"(3) by fastforce
  qed
  then show ?case
    using "2.IH" [OF step(1,2)] step ok unfolding acc'_def by auto
qed

lemma from_wire_loop_defined:
  "c \<le> MAX_GROUPS \<Longrightarrow> from_wire_loop acc c p ws \<noteq> None \<longleftrightarrow> c + sum_list ws \<le> MAX_GROUPS"
proof (induction acc c p ws rule: from_wire_loop.induct)
  case (1 acc c p)
  then show ?case by simp
next
  case (2 acc c p run rest)
  show ?case
  proof (cases "c + run \<le> MAX_GROUPS")
    case True
    then have "checked_add c run = Some (c + run)"
      by (simp add: checked_add_def MAX_GROUPS_def u64_max_def)
    then show ?thesis using 2 True by (simp add: add.assoc)
  next
    case False
    then show ?thesis by (auto simp: checked_add_def split: option.split)
  qed
qed

lemma gb_from_wire_ok:
  "gb_from_wire ws = Some s \<Longrightarrow> gb_inv s \<and> groups_of s \<subseteq> {..<MAX_GROUPS}"
proof -
  assume "gb_from_wire ws = Some s"
  then have "from_wire_loop [] 0 True ws = Some (runs s)"
    by (auto simp: gb_from_wire_def split: if_splits)
  then have "runs_ok (runs s) \<and> (\<forall>r \<in> set (runs s). snd r \<le> MAX_GROUPS)"
    by (rule from_wire_loop_ok) simp_all
  then show ?thesis
    unfolding gb_simps subset_iff mem_run_set lessThan_iff by (meson less_le_trans)
qed

lemma gb_from_wire_defined:
  "gb_from_wire ws \<noteq> None \<longleftrightarrow> length ws \<le> MAX_WIRE_RUNS \<and> sum_list ws \<le> MAX_GROUPS"
  using from_wire_loop_defined [of 0 "[]" True ws] by (auto simp: gb_from_wire_def)

section \<open>Byte and chunk geometry\<close>

lemma GROUP_BYTES_pos [simp]: "0 < GROUP_BYTES"
  by (simp add: GROUP_BYTES_def)

lemma bytes_of_group_set:
  assumes "g < group_count sz" "sz \<le> 2 ^ 64 - GROUP_BYTES"
  shows "range_set (bytes_of_group g sz) = {b. b < sz \<and> b div GROUP_BYTES = g}"
proof -
  have "g * GROUP_BYTES < sz"
    using assms(1) by (simp add: group_count_def less_div_ceil_iff)
  then have lt: "(g + 1) * GROUP_BYTES < 2 ^ 64" "g + 1 < 2 ^ 64" "g * GROUP_BYTES < 2 ^ 64"
    using assms(2) by (simp_all add: GROUP_BYTES_def)
  have eq: "bytes_of_group g sz = (min (g * GROUP_BYTES) sz, min ((g + 1) * GROUP_BYTES) sz)"
    using lt by (simp add: bytes_of_group_def u64_mul_def u64_add_def)
  show ?thesis
    unfolding eq using \<open>g * GROUP_BYTES < sz\<close> by (auto simp: GROUP_BYTES_def)
qed

lemma groups_for_bytes_set:
  "range_set (groups_for_bytes r) = (\<lambda>b. b div GROUP_BYTES) ` range_set r"
proof (cases "fst r \<ge> snd r")
  case True
  then show ?thesis by (auto simp: groups_for_bytes_def range_set_def)
next
  case False
  show ?thesis
  proof (intro set_eqI)
    fix g
    have "g \<in> range_set (groups_for_bytes r) \<longleftrightarrow> fst r div GROUP_BYTES \<le> g \<and> g * GROUP_BYTES < snd r"
      using False by (simp add: groups_for_bytes_def less_div_ceil_iff)
    also have "\<dots> \<longleftrightarrow> (\<exists>b. fst r \<le> b \<and> b < snd r \<and> b div GROUP_BYTES = g)"
    proof
      assume g: "fst r div GROUP_BYTES \<le> g \<and> g * GROUP_BYTES < snd r"
      have "max (fst r) (g * GROUP_BYTES) div GROUP_BYTES = g"
        using g by (auto simp: max_def GROUP_BYTES_def)
      with g False show "\<exists>b. fst r \<le> b \<and> b < snd r \<and> b div GROUP_BYTES = g"
        by (intro exI [of _ "max (fst r) (g * GROUP_BYTES)"]) auto
    next
      assume "\<exists>b. fst r \<le> b \<and> b < snd r \<and> b div GROUP_BYTES = g"
      then show "fst r div GROUP_BYTES \<le> g \<and> g * GROUP_BYTES < snd r"
        by (auto simp: div_le_mono GROUP_BYTES_def)
    qed
    finally show "g \<in> range_set (groups_for_bytes r) \<longleftrightarrow> g \<in> (\<lambda>b. b div GROUP_BYTES) ` range_set r"
      by (auto simp: range_set_def)
  qed
qed

lemma clamped_chunks_set:
  fixes mem :: "'c \<Rightarrow> nat \<Rightarrow> bool"
  assumes "\<And>x. \<not> mem emp x"
    and "\<And>a b x. mem (un a b) x \<longleftrightarrow> mem a x \<or> mem b x"
    and "\<And>a b x. mem (of_range a b) x \<longleftrightarrow> a \<le> x \<and> x < b"
    and "\<forall>r \<in> set (runs s). fst r < 2 ^ 60 \<and> snd r < 2 ^ 60"
  shows "mem (gb_to_chunk_ranges_clamped emp un of_range s sz) x \<longleftrightarrow>
     x < div_ceil sz CHUNK_BYTES \<and> x div CHUNKS_PER_GROUP \<in> groups_of s"
proof -
  define chunks where "chunks = div_ceil sz CHUNK_BYTES"
  define step where "step = (\<lambda>out r.
        let start = min (u64_mul (fst r) CHUNKS_PER_GROUP) chunks;
            end' = min (u64_mul (snd r) CHUNKS_PER_GROUP) chunks
        in if start < end' then un out (of_range start end') else out)"
  have c16: "CHUNKS_PER_GROUP = 16" by (simp add: CHUNKS_PER_GROUP_def GROUP_BYTES_def)
  have one: "mem (step out r) x \<longleftrightarrow> mem out x \<or> (x < chunks \<and> x div 16 \<in> range_set r)"
    if "fst r < 2 ^ 60" "snd r < 2 ^ 60" for out and r :: range
  proof -
    have "u64_mul (fst r) 16 = 16 * fst r" "u64_mul (snd r) 16 = 16 * snd r"
      using that by (simp_all add: u64_mul_def)
    then show ?thesis using assms(2,3) by (auto simp: step_def c16 Let_def)
  qed
  have "mem (foldl step out rs) x \<longleftrightarrow> mem out x \<or> (x < chunks \<and> x div 16 \<in> run_set rs)"
    if "\<forall>r \<in> set rs. fst r < 2 ^ 60 \<and> snd r < 2 ^ 60" for out rs
    using that by (induction rs arbitrary: out) (auto simp: one)
  from this [OF assms(4), of emp] assms(1) show ?thesis
    by (simp add: gb_to_chunk_ranges_clamped_def chunks_def step_def groups_of_def c16 Let_def)
qed

section \<open>The interface of a group field\<close>

text \<open>
  What the store, the scheduler and the wire layer rely on: a set of groups with update, deletion,
  gap query and delta.  The client lemmas hold of any implementation of the interface.
\<close>

locale group_set =
  fixes elems :: "'s \<Rightarrow> nat set"
    and add :: "'s \<Rightarrow> range \<Rightarrow> 's"
    and remove :: "'s \<Rightarrow> range \<Rightarrow> 's"
    and gaps :: "'s \<Rightarrow> range \<Rightarrow> range list"
    and has_all :: "'s \<Rightarrow> range \<Rightarrow> bool"
    and inv :: "'s \<Rightarrow> bool"
  assumes elems_add: "inv s \<Longrightarrow> elems (add s r) = elems s \<union> range_set r"
    and inv_add: "inv s \<Longrightarrow> inv (add s r)"
    and elems_remove: "inv s \<Longrightarrow> elems (remove s r) = elems s - range_set r"
    and inv_remove: "inv s \<Longrightarrow> inv (remove s r)"
    and gaps_set: "inv s \<Longrightarrow> run_set (gaps s w) = range_set w - elems s"
    and has_all: "inv s \<Longrightarrow> has_all s w \<longleftrightarrow> range_set w \<subseteq> elems s"
begin

lemma add_all: "inv s \<Longrightarrow> inv (foldl add s rs) \<and> elems (foldl add s rs) = elems s \<union> run_set rs"
  by (induction rs arbitrary: s) (auto simp: elems_add inv_add)

text \<open>Fetching every reported gap completes the window and marks nothing outside it.\<close>

lemma fill_gaps:
  assumes "inv s"
  shows "has_all (foldl add s (gaps s w)) w \<and>
    elems (foldl add s (gaps s w)) = elems s \<union> range_set w"
  using add_all [OF assms] assms by (auto simp: has_all gaps_set)

lemma no_gaps_iff:
  assumes "inv s" "\<forall>g \<in> set (gaps s w). fst g < snd g"
  shows "gaps s w = [] \<longleftrightarrow> has_all s w"
proof -
  have "run_set (gaps s w) = {} \<longleftrightarrow> gaps s w = []"
    using assms(2) by (cases "gaps s w") (auto simp: run_set_def range_set_def)
  then show ?thesis using assms(1) by (auto simp: gaps_set has_all)
qed

end

interpretation gb: group_set groups_of gb_add gb_remove gb_gaps gb_contains_all gb_inv
  by unfold_locales (simp_all add: gb_add_ok gb_remove_ok gb_gaps_ok gb_contains_all_iff)

section \<open>Properties\<close>

text \<open>
  C22. The updates of a group field implement the set updates they stand for, from any canonical
  field and for any range, and keep the run list canonical: \<open>add\<close> is union (on both append fast
  paths and on the rebuilding path), \<open>remove\<close> is difference, and \<open>added_in\<close> is the delta
  between two fields.
\<close>

theorem group_bits_updates:
  assumes "gb_inv s" "gb_inv t"
  shows "gb_inv (gb_add s gs) \<and> groups_of (gb_add s gs) = groups_of s \<union> range_set gs \<and>
    gb_inv (gb_remove s gs) \<and> groups_of (gb_remove s gs) = groups_of s - range_set gs \<and>
    gb_inv (gb_added_in s t) \<and> groups_of (gb_added_in s t) = groups_of t - groups_of s"
  using assms by (simp add: gb_add_ok gb_remove_ok gb_added_in_ok)

theorem group_bits_updates_witness:
  "gb_inv \<lparr>runs = [(0, 2), (5, 9)]\<rparr> \<and> gb_inv \<lparr>runs = [(1, 7)]\<rparr> \<and>
   gb_add \<lparr>runs = [(0, 2), (5, 9)]\<rparr> (2, 4) = \<lparr>runs = [(0, 4), (5, 9)]\<rparr> \<and>
   groups_of (gb_add \<lparr>runs = [(0, 2), (5, 9)]\<rparr> (2, 4)) =
     groups_of \<lparr>runs = [(0, 2), (5, 9)]\<rparr> \<union> range_set (2, 4)"
  using group_bits_updates [of "\<lparr>runs = [(0, 2), (5, 9)]\<rparr>" "\<lparr>runs = [(1, 7)]\<rparr>" "(2, 4)"]
  by (simp add: gb_inv_def gb_add_def add_rebuild_def add_result_def Let_def)

text \<open>
  The queries of a group field are exact: the binary search of \<open>contains\<close>, the single-run test
  of \<open>contains_all\<close>, the run-length sum of \<open>count\<close>, the one-run test of \<open>is_complete\<close> and the
  cursor walk of \<open>gaps\<close> all agree with the set the field stands for; gaps are themselves
  canonical; and two canonical fields of the same set are the same value.
\<close>

theorem group_bits_queries:
  assumes "gb_inv s" "gb_inv t" "0 < sz"
  shows "(gb_contains s g \<longleftrightarrow> g \<in> groups_of s) \<and>
    (gb_contains_all s w \<longleftrightarrow> range_set w \<subseteq> groups_of s) \<and>
    gb_count s = card (groups_of s) \<and>
    (gb_is_complete s sz \<longleftrightarrow> groups_of s = {..<group_count sz}) \<and>
    run_set (gb_gaps s w) = range_set w - groups_of s \<and> runs_ok (gb_gaps s w) \<and>
    (groups_of s = groups_of t \<longleftrightarrow> s = t)"
  using assms gb_extensional
  by (simp add: gb_contains_iff gb_contains_all_iff gb_count_card gb_is_complete_iff gb_gaps_ok) blast

theorem group_bits_queries_witness:
  "gb_gaps \<lparr>runs = [(0, 2), (5, 9)]\<rparr> (1, 7) = [(2, 5)] \<and>
   run_set (gb_gaps \<lparr>runs = [(0, 2), (5, 9)]\<rparr> (1, 7)) =
     range_set (1, 7) - groups_of \<lparr>runs = [(0, 2), (5, 9)]\<rparr> \<and>
   \<not> gb_is_complete \<lparr>runs = [(0, 2), (5, 9)]\<rparr> 100000"
  using group_bits_queries
    [of "\<lparr>runs = [(0, 2), (5, 9)]\<rparr>" "\<lparr>runs = [(0, 2), (5, 9)]\<rparr>" 100000 0 "(1, 7)"]
  by (simp add: gb_inv_def gb_gaps_def gb_is_complete_def group_count_def div_ceil_def GROUP_BYTES_def Let_def)

text \<open>
  The wire form round-trips: decoding the run lengths \<open>to_wire\<close> emits gives the field back,
  for every canonical field within the decoder's two caps.
\<close>

theorem group_bits_wire_roundtrip:
  assumes "gb_inv s" "groups_of s \<subseteq> {..<MAX_GROUPS}" "length (gb_to_wire s) \<le> MAX_WIRE_RUNS"
  shows "gb_from_wire (gb_to_wire s) = Some s"
  using assms by (rule gb_wire_roundtrip)

theorem group_bits_wire_roundtrip_witness:
  "gb_to_wire \<lparr>runs = [(1, 3), (5, 9)]\<rparr> = [0, 1, 2, 2, 4] \<and>
   gb_from_wire [0, 1, 2, 2, 4] = Some \<lparr>runs = [(1, 3), (5, 9)]\<rparr>"
proof -
  have w: "gb_to_wire \<lparr>runs = [(1, 3), (5, 9)]\<rparr> = [0, 1, 2, 2, 4]"
    by (simp add: gb_to_wire_def)
  have "gb_from_wire (gb_to_wire \<lparr>runs = [(1, 3), (5, 9)]\<rparr>) = Some \<lparr>runs = [(1, 3), (5, 9)]\<rparr>"
    by (rule group_bits_wire_roundtrip, unfold w)
      (auto simp: gb_inv_def groups_of_def MAX_WIRE_RUNS_def MAX_GROUPS_def)
  with w show ?thesis by simp
qed

text \<open>
  C32. Decoding a peer's run list accepts exactly the lists within the run cap whose lengths sum to
  at most \<open>MAX_GROUPS\<close> (so the checked addition never hides an overflow), and what it accepts is
  a canonical field that describes no group past the cap, whatever zero-length runs the peer sent.
\<close>

theorem group_bits_from_wire:
  "(gb_from_wire ws \<noteq> None \<longleftrightarrow> length ws \<le> MAX_WIRE_RUNS \<and> sum_list ws \<le> MAX_GROUPS) \<and>
   (gb_from_wire ws = Some s \<longrightarrow> gb_inv s \<and> groups_of s \<subseteq> {..<MAX_GROUPS})"
  using gb_from_wire_defined gb_from_wire_ok by simp

theorem group_bits_from_wire_witness:
  "gb_from_wire [2, 0, 3, 1, 0] = Some \<lparr>runs = [(0, 5)]\<rparr> \<and> gb_inv \<lparr>runs = [(0, 5)]\<rparr> \<and>
   gb_from_wire [MAX_GROUPS, 1] = None"
proof -
  have d: "gb_from_wire [2, 0, 3, 1, 0] = Some \<lparr>runs = [(0, 5)]\<rparr>"
    by (simp add: gb_from_wire_def checked_add_def push_run_def MAX_GROUPS_def MAX_WIRE_RUNS_def u64_max_def)
  moreover have "\<not> sum_list [MAX_GROUPS, 1] \<le> MAX_GROUPS" by simp
  ultimately show ?thesis
    using group_bits_from_wire [of "[2, 0, 3, 1, 0]" "\<lparr>runs = [(0, 5)]\<rparr>"]
      group_bits_from_wire [of "[MAX_GROUPS, 1]"] by blast
qed

text \<open>
  Byte and chunk geometry: the groups of a byte range are exactly the groups its bytes lie in,
  a group covers exactly the object's bytes with that quotient (for every object whose size leaves
  room for the last group's end in 64 bits), and the clamped chunk ranges handed to the verified
  codec are exactly the chunks below the object's chunk count that lie in a present group.  The
  set type of the codec enters through the documented laws of its empty set, union and range.
\<close>

theorem group_geometry:
  assumes "g < group_count sz" "sz \<le> 2 ^ 64 - GROUP_BYTES"
    and "\<And>x. \<not> mem emp x"
    and "\<And>a b x. mem (un a b) x \<longleftrightarrow> mem a x \<or> mem b x"
    and "\<And>a b x. mem (of_range a b) x \<longleftrightarrow> a \<le> x \<and> x < b"
    and "\<forall>r \<in> set (runs s). fst r < 2 ^ 60 \<and> snd r < 2 ^ 60"
  shows "range_set (bytes_of_group g sz) = {b. b < sz \<and> b div GROUP_BYTES = g} \<and>
    range_set (groups_for_bytes r) = (\<lambda>b. b div GROUP_BYTES) ` range_set r \<and>
    (mem (gb_to_chunk_ranges_clamped emp un of_range s sz) x \<longleftrightarrow>
       x < div_ceil sz CHUNK_BYTES \<and> x div CHUNKS_PER_GROUP \<in> groups_of s)"
  using bytes_of_group_set [OF assms(1,2)] groups_for_bytes_set
    clamped_chunks_set [OF assms(3,4,5,6)] by simp

theorem group_geometry_witness:
  "range_set (bytes_of_group 1 20000) = {b. b < 20000 \<and> b div GROUP_BYTES = 1} \<and>
   (19 \<in> gb_to_chunk_ranges_clamped {} (\<union>) (\<lambda>a b. {a..<b}) \<lparr>runs = [(0, 2)]\<rparr> 20000 \<longleftrightarrow>
      19 < div_ceil 20000 CHUNK_BYTES \<and> 19 div CHUNKS_PER_GROUP \<in> groups_of \<lparr>runs = [(0, 2)]\<rparr>)"
  using group_geometry [of 1 20000 "\<lambda>S x. x \<in> S" "{}" "(\<union>)" "\<lambda>a b. {a..<b}" "\<lparr>runs = [(0, 2)]\<rparr>" _ 19]
  by (simp add: group_count_def div_ceil_def GROUP_BYTES_def)

end
