(* ===== verification/Obj_Id.thy ===== *)
theory Obj_Id
  imports Prelude
begin

text \<open>
  Object identifiers of \<^verbatim>\<open>epix-blob/src/lib.rs\<close>: the 32-byte BLAKE3 root of an object, its hex form
  and its order.  BLAKE3 itself is code of a third-party crate: every definition that hashes takes
  the hash function as its parameter \<open>H\<close>, and a theorem that needs more than determinism names the
  assumption it makes about \<open>H\<close> (output length, or no collision among the byte strings involved).
\<close>

datatype obj_id = ObjId (id_bytes: bytes)

type_synonym hash_fn = "bytes \<Rightarrow> bytes"

text \<open>\<open>derive(PartialOrd, Ord)\<close> on the array: lexicographic on the bytes.\<close>

instantiation obj_id :: linorder
begin

definition less_eq_obj_id :: "obj_id \<Rightarrow> obj_id \<Rightarrow> bool" where
  "less_eq_obj_id x y \<longleftrightarrow> id_bytes x \<le> id_bytes y"

definition less_obj_id :: "obj_id \<Rightarrow> obj_id \<Rightarrow> bool" where
  "less_obj_id x y \<longleftrightarrow> id_bytes x < id_bytes y"

instance
  by standard (auto simp: less_eq_obj_id_def less_obj_id_def obj_id.expand)

end

definition ObjId_of :: "hash_fn \<Rightarrow> bytes \<Rightarrow> obj_id" where
  "ObjId_of H data = ObjId (H data)"

definition zero_id :: obj_id where
  "zero_id = ObjId (replicate 32 0)"

text \<open>\<open>{b:02x}\<close>, and \<open>u8::from_str_radix(_, 16)\<close>, which accepts one leading \<open>+\<close>.\<close>

definition hex_char :: "nat \<Rightarrow> char" where
  "hex_char n = (if n < 10 then char_of (48 + n) else char_of (87 + n))"

definition hex_digit :: "char \<Rightarrow> nat option" where
  "hex_digit c =
     (let n = of_char c :: nat in
      if 48 \<le> n \<and> n \<le> 57 then Some (n - 48)
      else if 97 \<le> n \<and> n \<le> 102 then Some (n - 87)
      else if 65 \<le> n \<and> n \<le> 70 then Some (n - 55)
      else None)"

fun radix16 :: "nat \<Rightarrow> string \<Rightarrow> nat option" where
  "radix16 acc [] = Some acc"
| "radix16 acc (c # cs) =
     (case hex_digit c of
        None \<Rightarrow> None
      | Some d \<Rightarrow> if 16 * acc + d < 256 then radix16 (16 * acc + d) cs else None)"

definition u8_from_str_radix16 :: "string \<Rightarrow> u8 option" where
  "u8_from_str_radix16 s =
     map_option word_of_nat
       (case s of
          [] \<Rightarrow> None
        | c # cs \<Rightarrow> if c = CHR ''+'' then (if cs = [] then None else radix16 0 cs) else radix16 0 s)"

fun from_hex_loop :: "string \<Rightarrow> bytes option" where
  "from_hex_loop (a # b # s) =
     (case u8_from_str_radix16 [a, b] of
        None \<Rightarrow> None
      | Some x \<Rightarrow> (case from_hex_loop s of None \<Rightarrow> None | Some xs \<Rightarrow> Some (x # xs)))"
| "from_hex_loop s = Some []"

definition ObjId_from_hex :: "string \<Rightarrow> obj_id option" where
  "ObjId_from_hex s = (if length s \<noteq> 64 then None else map_option ObjId (from_hex_loop s))"

definition byte_hex :: "u8 \<Rightarrow> string" where
  "byte_hex b = [hex_char (unat b div 16), hex_char (unat b mod 16)]"

definition ObjId_to_string :: "obj_id \<Rightarrow> string" where
  "ObjId_to_string i = concat (map byte_hex (id_bytes i))"

section \<open>Hex form\<close>

lemma hex_digit_hex_char: "n < 16 \<Longrightarrow> hex_digit (hex_char n) = Some n"
  by (auto simp: hex_digit_def hex_char_def Let_def)

lemma hex_char_not_plus: "n < 16 \<Longrightarrow> hex_char n \<noteq> CHR ''+''"
proof
  assume "n < 16" "hex_char n = CHR ''+''"
  then have "hex_digit (CHR ''+'') = Some n" using hex_digit_hex_char by metis
  then show False by (simp add: hex_digit_def)
qed

lemma u8_from_byte_hex: "u8_from_str_radix16 (byte_hex b) = Some b"
proof -
  have b: "unat b < 256" using unsigned_less [of b, where ?'a = nat] by simp
  then have "unat b div 16 < 16" "unat b mod 16 < 16" by auto
  moreover have "16 * (unat b div 16) + unat b mod 16 = unat b" by simp
  ultimately show ?thesis
    using b by (simp add: u8_from_str_radix16_def byte_hex_def hex_digit_hex_char hex_char_not_plus)
qed

lemma from_hex_loop_hex: "from_hex_loop (concat (map byte_hex bs)) = Some bs"
proof (induction bs)
  case (Cons b bs)
  then show ?case using u8_from_byte_hex [of b] by (simp add: byte_hex_def)
qed simp

lemma from_hex_loop_length: "even (length s) \<Longrightarrow> from_hex_loop s = Some bs \<Longrightarrow> 2 * length bs = length s"
  by (induction s arbitrary: bs rule: from_hex_loop.induct) (auto split: option.splits)

lemma length_concat_hex: "length (concat (map byte_hex bs)) = 2 * length bs"
  by (induction bs) (auto simp: byte_hex_def)

text \<open>
  Hex identifiers: parsing the printed form of a 32-byte identifier gives it back, the printed
  form has the 64 characters the parser demands, and whatever the parser accepts is a 32-byte
  identifier.
\<close>

theorem obj_id_hex_roundtrip:
  "(length (id_bytes i) = 32 \<longrightarrow>
      length (ObjId_to_string i) = 64 \<and> ObjId_from_hex (ObjId_to_string i) = Some i) \<and>
   (ObjId_from_hex s = Some j \<longrightarrow> length s = 64 \<and> length (id_bytes j) = 32)"
  using from_hex_loop_length [of s]
  by (cases i) (auto simp: ObjId_from_hex_def ObjId_to_string_def length_concat_hex from_hex_loop_hex
      split: if_splits)

theorem obj_id_hex_roundtrip_witness:
  "ObjId_from_hex (ObjId_to_string (ObjId (replicate 32 171))) = Some (ObjId (replicate 32 171))"
  using obj_id_hex_roundtrip [of "ObjId (replicate 32 171)"] by simp

end
