(* ===== verification/Ordered_Map.thy ===== *)
theory Ordered_Map
  imports Prelude
begin

text \<open>
  \<open>BTreeMap\<close> and \<open>BTreeSet\<close> of the Rust standard library, as strictly sorted association lists and
  lists: iteration order is the key order, which the frozen serializations rely on.  \<open>HashMap\<close> is
  modelled by the same type where the code only looks entries up or folds over them in a way that
  does not depend on the iteration order.

  The locale \<open>ordered_map\<close> states what a client may use of the interface; the clients' generic
  lemmas are proved from its laws, and it is interpreted on the association lists.
\<close>

section \<open>Association lists sorted by key\<close>

type_synonym ('k, 'v) btree_map = "('k \<times> 'v) list"

definition bt_inv :: "('k::linorder \<times> 'v) list \<Rightarrow> bool" where
  "bt_inv m \<longleftrightarrow> sorted_wrt (<) (map fst m)"

text \<open>\<open>map.insert(k, v)\<close>.\<close>

fun bt_insert :: "'k::linorder \<Rightarrow> 'v \<Rightarrow> ('k \<times> 'v) list \<Rightarrow> ('k \<times> 'v) list" where
  "bt_insert k v [] = [(k, v)]"
| "bt_insert k v ((k', v') # m) =
     (if k < k' then (k, v) # (k', v') # m
      else if k = k' then (k, v) # m
      else (k', v') # bt_insert k v m)"

text \<open>\<open>map.remove(k)\<close>.\<close>

definition bt_remove :: "'k \<Rightarrow> ('k \<times> 'v) list \<Rightarrow> ('k \<times> 'v) list" where
  "bt_remove k m = filter (\<lambda>e. fst e \<noteq> k) m"

text \<open>\<open>map.entry(k).and_modify(f).or_insert(d)\<close>.\<close>

definition bt_upsert :: "'k::linorder \<Rightarrow> ('v \<Rightarrow> 'v) \<Rightarrow> 'v \<Rightarrow> ('k \<times> 'v) list \<Rightarrow> ('k \<times> 'v) list" where
  "bt_upsert k f d m =
     bt_insert k (case map_of m k of None \<Rightarrow> d | Some v \<Rightarrow> f v) m"

text \<open>\<open>set.insert(x)\<close> of a \<open>BTreeSet\<close>, and collecting an iterator into one.\<close>

fun bs_insert :: "'a::linorder \<Rightarrow> 'a list \<Rightarrow> 'a list" where
  "bs_insert x [] = [x]"
| "bs_insert x (y # ys) =
     (if x < y then x # y # ys else if x = y then y # ys else y # bs_insert x ys)"

definition bs_collect :: "'a::linorder list \<Rightarrow> 'a list" where
  "bs_collect xs = foldr bs_insert xs []"

named_theorems bt_simps \<open>lookup, key-set and invariant facts of the ordered maps\<close>

lemma bt_inv_Nil [simp, bt_simps]: "bt_inv []"
  by (simp add: bt_inv_def)

lemma bt_inv_Cons [simp]:
  "bt_inv ((k, v) # m) \<longleftrightarrow> (\<forall>k' \<in> set (map fst m). k < k') \<and> bt_inv m"
  by (auto simp: bt_inv_def)

lemma map_of_bt_insert [simp, bt_simps]: "map_of (bt_insert k v m) = (map_of m)(k \<mapsto> v)"
  by (induction k v m rule: bt_insert.induct) auto

lemma keys_bt_insert [simp, bt_simps]: "set (map fst (bt_insert k v m)) = insert k (set (map fst m))"
  by (induction k v m rule: bt_insert.induct) auto

lemma bt_inv_insert [simp, bt_simps]: "bt_inv m \<Longrightarrow> bt_inv (bt_insert k v m)"
proof (induction k v m rule: bt_insert.induct)
  case (1 k v)
  then show ?case by simp
next
  case (2 k v k' v' m)
  then show ?case using keys_bt_insert [of k v m] by (auto simp del: keys_bt_insert)
qed

lemma bt_inv_distinct: "bt_inv m \<Longrightarrow> distinct (map fst m)"
  by (simp add: bt_inv_def strict_sorted_iff)

lemma map_of_bt_remove [simp, bt_simps]: "map_of (bt_remove k m) = (map_of m)(k := None)"
  by (induction m) (auto simp: bt_remove_def fun_eq_iff)

lemma bt_inv_filter: "bt_inv m \<Longrightarrow> bt_inv (filter P m)"
  by (induction m) (auto simp: bt_inv_def)

lemma bt_inv_remove [simp, bt_simps]: "bt_inv m \<Longrightarrow> bt_inv (bt_remove k m)"
  by (simp add: bt_remove_def bt_inv_filter)

lemma map_of_bt_upsert [simp, bt_simps]:
  "map_of (bt_upsert k f d m) = (map_of m)(k \<mapsto> (case map_of m k of None \<Rightarrow> d | Some v \<Rightarrow> f v))"
  by (simp add: bt_upsert_def)

lemma bt_inv_upsert [simp, bt_simps]: "bt_inv m \<Longrightarrow> bt_inv (bt_upsert k f d m)"
  by (simp add: bt_upsert_def)

lemma bt_entry_iff: "bt_inv m \<Longrightarrow> map_of m k = Some v \<longleftrightarrow> (k, v) \<in> set m"
  by (simp add: bt_inv_distinct)

text \<open>An ordered map is determined by its lookups, so maps built in different orders are equal.\<close>

lemma alist_from_lookups:
  "distinct (map fst m) \<Longrightarrow> m = map (\<lambda>k. (k, the (map_of m k))) (map fst m)"
proof (rule nth_equalityI)
  fix i
  assume d: "distinct (map fst m)" and "i < length m"
  then have "map_of m (fst (m ! i)) = Some (snd (m ! i))"
    by (intro map_of_is_SomeI) auto
  with \<open>i < length m\<close> show "m ! i = map (\<lambda>k. (k, the (map_of m k))) (map fst m) ! i"
    by simp
qed simp

lemma bt_extensional:
  assumes "bt_inv m" "bt_inv n" "\<And>k. map_of m k = map_of n k"
  shows "m = n"
proof -
  have eq: "map_of m = map_of n" using assms(3) by auto
  then have "set (map fst m) = set (map fst n)"
    by (metis dom_map_of_conv_image_fst set_map)
  then have "map fst m = map fst n"
    using assms(1,2) by (intro strict_sorted_unique) (auto simp: bt_inv_def)
  with eq show ?thesis
    using alist_from_lookups [of m] alist_from_lookups [of n] assms(1,2)
    by (metis bt_inv_distinct)
qed

lemma set_bs_insert [simp]: "set (bs_insert x xs) = insert x (set xs)"
  by (induction x xs rule: bs_insert.induct) auto

lemma sorted_bs_insert [simp]: "sorted_wrt (<) xs \<Longrightarrow> sorted_wrt (<) (bs_insert x xs)"
  by (induction x xs rule: bs_insert.induct) auto

lemma set_bs_collect [simp]: "set (bs_collect xs) = set xs"
  by (induction xs) (auto simp: bs_collect_def)

lemma sorted_bs_collect [simp]: "sorted_wrt (<) (bs_collect xs)"
  by (induction xs) (auto simp: bs_collect_def)

lemma bs_collect_cong: "set xs = set ys \<Longrightarrow> bs_collect xs = bs_collect ys"
  by (rule strict_sorted_unique) auto

section \<open>The map interface\<close>

text \<open>
  What the folds of the program use of a map: lookup, upsert and iteration.  A client that folds
  an associative update into a map may rely on these laws alone.
\<close>

locale ordered_map =
  fixes get :: "'m \<Rightarrow> 'k::linorder \<Rightarrow> 'v option"
    and upsert :: "'k \<Rightarrow> ('v \<Rightarrow> 'v) \<Rightarrow> 'v \<Rightarrow> 'm \<Rightarrow> 'm"
    and empty :: 'm
    and entries :: "'m \<Rightarrow> ('k \<times> 'v) list"
    and inv :: "'m \<Rightarrow> bool"
  assumes get_empty: "get empty k = None"
    and get_upsert: "inv m \<Longrightarrow>
      get (upsert k f d m) k' =
        (if k' = k then Some (case get m k of None \<Rightarrow> d | Some v \<Rightarrow> f v) else get m k')"
    and inv_empty: "inv empty"
    and inv_upsert: "inv m \<Longrightarrow> inv (upsert k f d m)"
    and entries_get: "inv m \<Longrightarrow> (k, v) \<in> set (entries m) \<longleftrightarrow> get m k = Some v"
    and entries_sorted: "inv m \<Longrightarrow> sorted_wrt (<) (map fst (entries m))"
begin

text \<open>Tallying a list of keys: every key holds the number of its occurrences.\<close>

lemma inv_foldl: "inv m \<Longrightarrow> inv (foldl (\<lambda>m x. upsert (key x) (f x) (d x) m) m xs)"
  by (induction xs arbitrary: m) (auto intro: inv_upsert)

lemma get_foldl_other:
  "inv m \<Longrightarrow> k \<notin> key ` set xs \<Longrightarrow>
   get (foldl (\<lambda>m x. upsert (key x) (f x) (d x) m) m xs) k = get m k"
proof (induction xs arbitrary: m)
  case Nil
  then show ?case by simp
next
  case (Cons x xs)
  then show ?case by (auto simp: inv_upsert get_upsert)
qed

lemma dom_foldl:
  "inv m \<Longrightarrow>
   (get (foldl (\<lambda>m x. upsert (key x) (f x) (d x) m) m xs) k \<noteq> None) \<longleftrightarrow>
   (k \<in> key ` set xs \<or> get m k \<noteq> None)"
proof (induction xs arbitrary: m)
  case Nil
  then show ?case by simp
next
  case (Cons x xs)
  then show ?case by (auto simp: inv_upsert get_upsert)
qed

end

interpretation btm: ordered_map map_of bt_upsert "[]" "\<lambda>m. m" bt_inv
  by unfold_locales (auto simp: bt_entry_iff bt_inv_def bt_upsert_def simp flip: bt_inv_def)

end
