(* ===== verification/Lww_Fold.thy ===== *)
theory Lww_Fold
  imports Ordered_Map
begin

text \<open>
  Last-writer-wins folds.  The feed derives its state by folding a record list into a map that
  keeps, per identity key, the record with the highest order key.  The sources write this fold
  three times (reaction lineages of one target, live records, reaction lineages of a checkpoint);
  the locale states what one step does and proves once what the whole fold computes: the maximum
  of each key, which depends on the set of records alone and not on the order they arrived in.
\<close>

locale lww_fold =
  fixes sel :: "'r \<Rightarrow> bool"
    and key :: "'r \<Rightarrow> 'k::linorder"
    and ord :: "'r \<Rightarrow> 'o::linorder"
    and step :: "('k \<times> 'r) list \<Rightarrow> 'r \<Rightarrow> ('k \<times> 'r) list"
  assumes step_skip: "\<not> sel r \<Longrightarrow> step m r = m"
    and step_get: "sel r \<Longrightarrow>
      map_of (step m r) k =
        (if k = key r
         then Some (case map_of m k of None \<Rightarrow> r | Some c \<Rightarrow> if ord c < ord r then r else c)
         else map_of m k)"
    and step_inv: "bt_inv m \<Longrightarrow> bt_inv (step m r)"
begin

definition winners :: "'r list \<Rightarrow> ('k \<times> 'r) list" where
  "winners rs = foldl step [] rs"

lemma winners_inv: "bt_inv (winners rs)"
  unfolding winners_def
  by (induction rs rule: rev_induct) (auto simp: step_inv)

lemma winners_None: "map_of (winners rs) k = None \<longleftrightarrow> \<not> (\<exists>r \<in> set rs. sel r \<and> key r = k)"
proof (induction rs rule: rev_induct)
  case Nil
  then show ?case by (simp add: winners_def)
next
  case (snoc r rs)
  have "winners (rs @ [r]) = step (winners rs) r" by (simp add: winners_def)
  with snoc show ?case by (cases "sel r") (auto simp: step_get step_skip)
qed

lemma winners_Some:
  "map_of (winners rs) k = Some w \<Longrightarrow>
   w \<in> set rs \<and> sel w \<and> key w = k \<and> (\<forall>r \<in> set rs. sel r \<longrightarrow> key r = k \<longrightarrow> ord r \<le> ord w)"
proof (induction rs arbitrary: w rule: rev_induct)
  case Nil
  then show ?case by (simp add: winners_def)
next
  case (snoc r rs)
  have eq: "winners (rs @ [r]) = step (winners rs) r" by (simp add: winners_def)
  show ?case
  proof (cases "sel r \<and> k = key r")
    case False
    then have "map_of (winners rs) k = Some w"
      using snoc.prems eq by (cases "sel r") (auto simp: step_get step_skip)
    with snoc.IH False show ?thesis by auto
  next
    case True
    then have w: "w = (case map_of (winners rs) k of None \<Rightarrow> r | Some c \<Rightarrow> if ord c < ord r then r else c)"
      using snoc.prems eq by (simp add: step_get)
    show ?thesis
    proof (cases "map_of (winners rs) k")
      case None
      with w True winners_None [of rs k] show ?thesis by auto
    next
      case (Some c)
      with w True snoc.IH [OF Some] show ?thesis by fastforce
    qed
  qed
qed

text \<open>
  When the order key separates the selected records, the winner of a key is the selected record
  of that key that no other exceeds.
\<close>

lemma winners_iff:
  assumes "inj_on ord {r \<in> set rs. sel r}"
  shows "map_of (winners rs) k = Some w \<longleftrightarrow>
    w \<in> set rs \<and> sel w \<and> key w = k \<and> (\<forall>r \<in> set rs. sel r \<longrightarrow> key r = k \<longrightarrow> ord r \<le> ord w)"
proof
  assume w: "w \<in> set rs \<and> sel w \<and> key w = k \<and> (\<forall>r \<in> set rs. sel r \<longrightarrow> key r = k \<longrightarrow> ord r \<le> ord w)"
  then obtain v where v: "map_of (winners rs) k = Some v"
    using winners_None [of rs k] by (cases "map_of (winners rs) k") auto
  from winners_Some [OF v] w have "ord v = ord w" "v \<in> {r \<in> set rs. sel r}" "w \<in> {r \<in> set rs. sel r}"
    by (auto intro: antisym)
  then have "v = w" using assms by (meson inj_onD)
  with v show "map_of (winners rs) k = Some w" by simp
qed (rule winners_Some)

lemma winners_cong:
  assumes "set rs = set rs'" "inj_on ord {r \<in> set rs. sel r}"
  shows "winners rs = winners rs'"
proof (rule bt_extensional)
  fix k
  show "map_of (winners rs) k = map_of (winners rs') k"
  proof (cases "map_of (winners rs) k")
    case None
    with assms show ?thesis using winners_None by metis
  next
    case (Some w)
    with assms winners_iff [of rs k w] winners_iff [of rs' k w] show ?thesis by simp
  qed
qed (auto simp: winners_inv)

lemma winners_values:
  "w \<in> snd ` set (winners rs) \<longleftrightarrow> map_of (winners rs) (key w) = Some w"
proof
  assume "w \<in> snd ` set (winners rs)"
  then obtain k where "(k, w) \<in> set (winners rs)" by auto
  then have "map_of (winners rs) k = Some w" using winners_inv by (simp add: bt_entry_iff)
  with winners_Some [of rs k w] show "map_of (winners rs) (key w) = Some w" by simp
next
  assume "map_of (winners rs) (key w) = Some w"
  then have "(key w, w) \<in> set (winners rs)" using winners_inv by (simp add: bt_entry_iff)
  then show "w \<in> snd ` set (winners rs)" by force
qed

lemma winners_distinct_values: "distinct (map snd (winners rs))"
proof -
  have "inj_on snd (set (winners rs))"
  proof (rule inj_onI)
    fix x y
    assume x: "x \<in> set (winners rs)" and y: "y \<in> set (winners rs)" and eq: "snd x = snd y"
    have "fst z = key (snd z)" if "z \<in> set (winners rs)" for z
    proof -
      have "map_of (winners rs) (fst z) = Some (snd z)"
        using that winners_inv by (simp add: bt_entry_iff)
      then show ?thesis using winners_Some [of rs "fst z" "snd z"] by simp
    qed
    then show "x = y" using x y eq by (metis prod.collapse)
  qed
  moreover have "distinct (winners rs)"
    using bt_inv_distinct [OF winners_inv] by (simp add: distinct_map)
  ultimately show ?thesis by (simp add: distinct_map)
qed

end

end
