(* ===== verification/Feed_Record.thy ===== *)
theory Feed_Record
  imports Obj_Id Lww_Fold
begin

text \<open>
  Feed records of \<^verbatim>\<open>epix-feed/src/lib.rs\<close> and the reaction counts of \<^verbatim>\<open>reactions.rs\<close>: the normalized
  record, its lineage and identity keys, the canonical order, and the OR-set reaction fold.
\<close>

section \<open>Records\<close>

datatype kind = Post | Comment | Reaction string bool | Tombstone

record feed_record =
  fr_canonical :: bytes
  fr_id :: string
  fr_author :: string
  fr_target :: string
  fr_clock :: u64
  fr_kind :: kind

text \<open>The separator \<open>\u{1f}\<close>, one byte in UTF-8.\<close>

definition sep :: char where
  "sep = char_of (31 :: nat)"

definition addr :: "hash_fn \<Rightarrow> feed_record \<Rightarrow> obj_id" where
  "addr H r = ObjId_of H (fr_canonical r)"

definition kind_tag :: "kind \<Rightarrow> string" where
  "kind_tag k = (case k of Post \<Rightarrow> ''post'' | Comment \<Rightarrow> ''comment'' | Reaction s _ \<Rightarrow> s | Tombstone \<Rightarrow> ''tomb'')"

definition lineage_key :: "string \<Rightarrow> string \<Rightarrow> string \<Rightarrow> string" where
  "lineage_key a t k = a @ [sep] @ t @ [sep] @ k"

definition lineage :: "feed_record \<Rightarrow> string" where
  "lineage r = lineage_key (fr_author r) (fr_target r) (kind_tag (fr_kind r))"

definition is_reaction :: "feed_record \<Rightarrow> bool" where
  "is_reaction r = (case fr_kind r of Reaction _ _ \<Rightarrow> True | _ \<Rightarrow> False)"

definition identity :: "feed_record \<Rightarrow> string" where
  "identity r = (if is_reaction r then lineage r else fr_author r @ [sep] @ fr_id r)"

definition order_key :: "hash_fn \<Rightarrow> feed_record \<Rightarrow> u64 \<times> string \<times> string \<times> bytes" where
  "order_key H r = (fr_clock r, fr_id r, fr_author r, id_bytes (addr H r))"

definition canonical_order :: "hash_fn \<Rightarrow> feed_record list \<Rightarrow> feed_record list" where
  "canonical_order H rs = sort_key (order_key H) rs"

section \<open>Reaction counts\<close>

type_synonym reaction_counts = "(string, nat) btree_map"

definition rc_total :: "reaction_counts \<Rightarrow> nat" where
  "rc_total c = sum_list (map snd c)"

definition rc_of :: "reaction_counts \<Rightarrow> string \<Rightarrow> nat" where
  "rc_of c k = (case map_of c k of None \<Rightarrow> 0 | Some n \<Rightarrow> n)"

definition keep_newer :: "hash_fn \<Rightarrow> feed_record \<Rightarrow> feed_record \<Rightarrow> feed_record" where
  "keep_newer H r cur = (if order_key H r > order_key H cur then r else cur)"

definition fold_lineages_step ::
  "hash_fn \<Rightarrow> string \<Rightarrow> (string, feed_record) btree_map \<Rightarrow> feed_record \<Rightarrow> (string, feed_record) btree_map" where
  "fold_lineages_step H tgt m r =
     (if fr_target r \<noteq> tgt then m
      else if \<not> is_reaction r then m
      else bt_upsert (lineage r) (keep_newer H r) r m)"

definition fold_lineages :: "hash_fn \<Rightarrow> feed_record list \<Rightarrow> string \<Rightarrow> (string, feed_record) btree_map" where
  "fold_lineages H rs tgt = foldl (fold_lineages_step H tgt) [] rs"

text \<open>One turn of the tally over the winners; the order of the winners does not matter.\<close>

definition tally_step :: "reaction_counts \<Rightarrow> feed_record \<Rightarrow> reaction_counts" where
  "tally_step c r =
     (case fr_kind r of
        Reaction k active \<Rightarrow> if active then bt_upsert k Suc 1 c else c
      | _ \<Rightarrow> c)"

definition reaction_count :: "hash_fn \<Rightarrow> feed_record list \<Rightarrow> string \<Rightarrow> reaction_counts" where
  "reaction_count H rs tgt = foldl tally_step [] (map snd (fold_lineages H rs tgt))"

definition is_active :: "hash_fn \<Rightarrow> feed_record list \<Rightarrow> string \<Rightarrow> string \<Rightarrow> string \<Rightarrow> bool" where
  "is_active H rs a tgt k =
     (case map_of (fold_lineages H rs tgt) (lineage_key a tgt k) of
        None \<Rightarrow> False
      | Some r \<Rightarrow> (case fr_kind r of Reaction _ active \<Rightarrow> active | _ \<Rightarrow> False))"

section \<open>Keys\<close>

lemma append_sep_inject:
  assumes "sep \<notin> set a" "sep \<notin> set b"
  shows "a @ [sep] @ x = b @ [sep] @ y \<longleftrightarrow> a = b \<and> x = y"
proof
  assume eq: "a @ [sep] @ x = b @ [sep] @ y"
  have "takeWhile (\<lambda>c. c \<noteq> sep) (a @ [sep] @ x) = a" "takeWhile (\<lambda>c. c \<noteq> sep) (b @ [sep] @ y) = b"
    using assms by (auto simp: takeWhile_append takeWhile_eq_all_conv)
  with eq show "a = b \<and> x = y" by simp
qed simp

lemma lineage_key_inject:
  assumes "sep \<notin> set a" "sep \<notin> set b"
  shows "lineage_key a t k = lineage_key b t l \<longleftrightarrow> a = b \<and> k = l"
  using append_sep_inject [OF assms] by (auto simp: lineage_key_def)

lemma lineage_key_inject3:
  assumes "sep \<notin> set a" "sep \<notin> set b" "sep \<notin> set t" "sep \<notin> set u"
  shows "lineage_key a t k = lineage_key b u l \<longleftrightarrow> a = b \<and> t = u \<and> k = l"
  using append_sep_inject [OF assms(1,2)] append_sep_inject [OF assms(3,4)]
  by (simp add: lineage_key_def)

lemma canonical_order_sorted: "sorted (map (order_key H) (canonical_order H rs))"
  by (simp add: canonical_order_def)

lemma set_canonical_order [simp]: "set (canonical_order H rs) = set rs"
  by (simp add: canonical_order_def)

lemma length_canonical_order [simp]: "length (canonical_order H rs) = length rs"
  by (simp add: canonical_order_def)

lemma canonical_order_mset:
  assumes "mset rs = mset rs'" "inj_on (order_key H) (set rs)"
  shows "canonical_order H rs = canonical_order H rs'"
  using sort_key_mset_eq [OF assms] by (simp add: canonical_order_def)

interpretation react: lww_fold "\<lambda>r. fr_target r = tgt \<and> is_reaction r" lineage "order_key H"
  "fold_lineages_step H tgt" for H tgt
  by unfold_locales (auto simp: fold_lineages_step_def keep_newer_def split: option.split)

lemma fold_lineages_winners: "fold_lineages H rs tgt = react.winners H tgt rs"
  by (simp add: fold_lineages_def react.winners_def)

section \<open>Counts\<close>

definition active_kind :: "string \<Rightarrow> feed_record \<Rightarrow> bool" where
  "active_kind k r \<longleftrightarrow> fr_kind r = Reaction k True"

lemma tally_step_of:
  "rc_of (tally_step c r) k = rc_of c k + (if active_kind k r then 1 else 0)"
  by (auto simp: tally_step_def rc_of_def active_kind_def split: kind.split option.split)

lemma tally_inv: "bt_inv c \<Longrightarrow> bt_inv (foldl tally_step c ws)"
  by (induction ws arbitrary: c) (auto simp: tally_step_def split: kind.split)

lemma tally_of: "rc_of (foldl tally_step c ws) k = rc_of c k + length (filter (active_kind k) ws)"
  by (induction ws arbitrary: c) (auto simp: tally_step_of)

lemma tally_pos: "(\<forall>e \<in> set c. 0 < snd e) \<Longrightarrow> bt_inv c \<Longrightarrow> e \<in> set (foldl tally_step c ws) \<Longrightarrow> 0 < snd e"
proof (induction ws arbitrary: c)
  case Nil
  then show ?case by simp
next
  case (Cons w ws)
  have inv: "bt_inv (tally_step c w)" using Cons.prems(2) by (auto simp: tally_step_def split: kind.split)
  have "0 < snd x" if "x \<in> set (tally_step c w)" for x
  proof -
    have "map_of (tally_step c w) (fst x) = Some (snd x)" using that inv by (simp add: bt_entry_iff)
    moreover have "0 < n" if "map_of c j = Some n" for j n
      using that Cons.prems(1) by (auto dest!: map_of_SomeD)
    ultimately show ?thesis
      by (auto simp: tally_step_def split: kind.splits if_splits option.splits)
  qed
  then show ?case using Cons.IH [of "tally_step c w"] Cons.prems(3) inv by simp
qed

lemma rc_extensional:
  assumes "bt_inv c" "bt_inv d" "\<forall>e \<in> set c. 0 < snd e" "\<forall>e \<in> set d. 0 < snd e"
    and "\<And>k. rc_of c k = rc_of d k"
  shows "c = d"
proof (rule bt_extensional [OF assms(1,2)])
  fix k
  have "0 < n" if "map_of c k = Some n" for n using that assms(3) by (auto dest!: map_of_SomeD)
  moreover have "0 < n" if "map_of d k = Some n" for n using that assms(4) by (auto dest!: map_of_SomeD)
  ultimately show "map_of c k = map_of d k"
    using assms(5) [of k] by (fastforce simp: rc_of_def split: option.splits)
qed

lemma reaction_count_of:
  "rc_of (reaction_count H rs tgt) k = length (filter (active_kind k) (map snd (fold_lineages H rs tgt)))"
  unfolding reaction_count_def tally_of by (simp add: rc_of_def)

text \<open>Authors are recovered addresses, which never contain the separator byte.\<close>

definition sep_free_authors :: "feed_record list \<Rightarrow> bool" where
  "sep_free_authors rs \<longleftrightarrow> (\<forall>r \<in> set rs. sep \<notin> set (fr_author r))"

text \<open>The winning records of a target.\<close>

definition winner_set :: "hash_fn \<Rightarrow> feed_record list \<Rightarrow> string \<Rightarrow> feed_record set" where
  "winner_set H rs tgt = snd ` set (fold_lineages H rs tgt)"

lemma winner_set_iff: "r \<in> winner_set H rs tgt \<longleftrightarrow> map_of (fold_lineages H rs tgt) (lineage r) = Some r"
  using react.winners_values by (simp add: winner_set_def fold_lineages_winners)

lemma winner_setD:
  assumes "r \<in> winner_set H rs tgt"
  shows "r \<in> set rs" "fr_target r = tgt" "is_reaction r"
  using react.winners_Some [of H tgt rs "lineage r" r] assms
  by (auto simp: winner_set_iff fold_lineages_winners)

lemma is_active_iff:
  assumes "sep_free_authors rs" "sep \<notin> set a"
  shows "is_active H rs a tgt k \<longleftrightarrow> (\<exists>r \<in> winner_set H rs tgt. fr_author r = a \<and> active_kind k r)"
proof
  assume "is_active H rs a tgt k"
  then obtain r where r: "map_of (fold_lineages H rs tgt) (lineage_key a tgt k) = Some r"
    "case fr_kind r of Reaction _ active \<Rightarrow> active | _ \<Rightarrow> False"
    by (auto simp: is_active_def split: option.splits)
  have "r \<in> set rs" "fr_target r = tgt" "lineage r = lineage_key a tgt k"
    using react.winners_Some [of H tgt rs _ r] r(1) by (auto simp: fold_lineages_winners)
  moreover from this have "fr_author r = a" "kind_tag (fr_kind r) = k"
    using lineage_key_inject [of "fr_author r" a tgt "kind_tag (fr_kind r)" k] assms
    by (auto simp: lineage_def sep_free_authors_def)
  ultimately show "\<exists>r \<in> winner_set H rs tgt. fr_author r = a \<and> active_kind k r"
    using r by (intro bexI [of _ r]) (auto simp: winner_set_iff active_kind_def kind_tag_def split: kind.splits)
next
  assume "\<exists>r \<in> winner_set H rs tgt. fr_author r = a \<and> active_kind k r"
  then obtain r where r: "r \<in> winner_set H rs tgt" "fr_author r = a" "active_kind k r"
    by auto
  then have "lineage r = lineage_key a tgt k"
    using winner_setD(2) [OF r(1)] by (simp add: lineage_def active_kind_def kind_tag_def)
  with r show "is_active H rs a tgt k" by (simp add: winner_set_iff is_active_def active_kind_def)
qed

lemma winner_author_inj: "inj_on fr_author {r \<in> winner_set H rs tgt. active_kind k r}"
proof (rule inj_onI, elim CollectE conjE)
  fix x y
  assume x: "x \<in> winner_set H rs tgt" "active_kind k x" and y: "y \<in> winner_set H rs tgt" "active_kind k y"
    and eq: "fr_author x = fr_author y"
  then have "lineage x = lineage y"
    using winner_setD(2) [OF x(1)] winner_setD(2) [OF y(1)] by (simp add: lineage_def active_kind_def kind_tag_def)
  then show "x = y" using x y by (simp add: winner_set_iff)
qed

text \<open>
  What the counts mean, said without the fold: of two reactions of one author, the later one has the
  greater clock, then the greater record id, then the greater content hash; an author reacts with a kind
  when some record of his says so and none of his records for that target and kind is later.
\<close>

definition later :: "hash_fn \<Rightarrow> feed_record \<Rightarrow> feed_record \<Rightarrow> bool" where
  "later H q r \<longleftrightarrow> fr_clock r < fr_clock q \<or>
     fr_clock r = fr_clock q \<and> (fr_id r < fr_id q \<or> fr_id r = fr_id q \<and> H (fr_canonical r) < H (fr_canonical q))"

definition reacts :: "hash_fn \<Rightarrow> feed_record list \<Rightarrow> string \<Rightarrow> string \<Rightarrow> string \<Rightarrow> bool" where
  "reacts H rs a tgt k \<longleftrightarrow>
     (\<exists>r \<in> set rs. fr_author r = a \<and> fr_target r = tgt \<and> fr_kind r = Reaction k True \<and>
        \<not> (\<exists>q \<in> set rs. fr_author q = a \<and> fr_target q = tgt \<and> fr_kind q \<in> {Reaction k True, Reaction k False} \<and> later H q r))"

lemma order_key_later: "fr_author q = fr_author r \<Longrightarrow> order_key H q \<le> order_key H r \<longleftrightarrow> \<not> later H q r"
  by (auto simp: order_key_def later_def addr_def ObjId_of_def)

lemma reaction_lineage:
  assumes "sep_free_authors rs" "q \<in> set rs" "r \<in> set rs" "fr_target q = fr_target r" "fr_kind r = Reaction k b"
  shows "is_reaction q \<and> lineage q = lineage r \<longleftrightarrow> fr_author q = fr_author r \<and> fr_kind q \<in> {Reaction k True, Reaction k False}"
proof -
  have "sep \<notin> set (fr_author q)" "sep \<notin> set (fr_author r)" using assms(1-3) by (auto simp: sep_free_authors_def)
  then have "lineage q = lineage r \<longleftrightarrow> fr_author q = fr_author r \<and> kind_tag (fr_kind q) = k"
    using lineage_key_inject assms(4,5) by (simp add: lineage_def kind_tag_def)
  then show ?thesis by (cases "fr_kind q") (auto simp: is_reaction_def kind_tag_def)
qed

lemma hash_order_inj: "inj_on (\<lambda>r. H (fr_canonical r)) R \<Longrightarrow> inj_on (order_key H) R"
  by (auto simp: inj_on_def order_key_def addr_def ObjId_of_def)

lemma winner_active_iff:
  assumes "sep_free_authors rs" "inj_on (\<lambda>r. H (fr_canonical r)) (set rs)"
  shows "r \<in> winner_set H rs tgt \<and> active_kind k r \<longleftrightarrow> r \<in> set rs \<and> fr_target r = tgt \<and> fr_kind r = Reaction k True \<and>
    \<not> (\<exists>q \<in> set rs. fr_author q = fr_author r \<and> fr_target q = tgt \<and> fr_kind q \<in> {Reaction k True, Reaction k False} \<and> later H q r)"
proof (cases "r \<in> set rs \<and> fr_target r = tgt \<and> fr_kind r = Reaction k True")
  case True
  have "inj_on (order_key H) {r \<in> set rs. fr_target r = tgt \<and> is_reaction r}"
    using hash_order_inj [OF assms(2)] by (rule inj_on_subset) blast
  from react.winners_iff [OF this, of "lineage r" r] True
  have "r \<in> winner_set H rs tgt \<longleftrightarrow>
      (\<forall>q \<in> set rs. fr_target q = tgt \<and> is_reaction q \<longrightarrow> lineage q = lineage r \<longrightarrow> order_key H q \<le> order_key H r)"
    by (auto simp: winner_set_iff fold_lineages_winners is_reaction_def)
  also have "\<dots> \<longleftrightarrow> (\<forall>q \<in> set rs. fr_target q = tgt \<longrightarrow> is_reaction q \<and> lineage q = lineage r \<longrightarrow> order_key H q \<le> order_key H r)"
    by blast
  also have "\<dots> \<longleftrightarrow> (\<forall>q \<in> set rs. fr_target q = tgt \<longrightarrow>
      fr_author q = fr_author r \<and> fr_kind q \<in> {Reaction k True, Reaction k False} \<longrightarrow> \<not> later H q r)"
    using reaction_lineage [OF assms(1)] order_key_later [of _ r H] True by (intro ball_cong refl imp_cong) auto
  finally show ?thesis using True by (auto simp: active_kind_def)
next
  case False
  then show ?thesis using winner_setD(1,2) [of r H rs tgt] by (auto simp: active_kind_def)
qed

lemma reacts_iff:
  assumes "sep_free_authors rs" "inj_on (\<lambda>r. H (fr_canonical r)) (set rs)"
  shows "reacts H rs a tgt k \<longleftrightarrow> (\<exists>r \<in> winner_set H rs tgt. fr_author r = a \<and> active_kind k r)"
  unfolding reacts_def using winner_active_iff [OF assms, of _ tgt k] by blast

text \<open>
  C23. Reaction counts are exact: the count of a reaction kind on a target is the number of authors
  whose latest reaction of that kind to that target is active (a repeated reaction counts once, a
  retraction removes it, whatever order the records arrive in), and an author is reported as reacting
  exactly then.  Assumes that author addresses do not contain the separator byte and that no two of the
  records have the same hash.
\<close>

theorem reaction_count_exact:
  assumes "sep_free_authors rs" "inj_on (\<lambda>r. H (fr_canonical r)) (set rs)" "sep \<notin> set a"
  shows "rc_of (reaction_count H rs tgt) k = card {a. reacts H rs a tgt k} \<and> is_active H rs a tgt k = reacts H rs a tgt k"
proof
  let ?W = "{r \<in> winner_set H rs tgt. active_kind k r}"
  have "{a. reacts H rs a tgt k} = fr_author ` ?W" using reacts_iff [OF assms(1,2)] by auto
  then have "card {a. reacts H rs a tgt k} = card ?W" using winner_author_inj by (simp add: card_image)
  moreover have "?W = set (filter (active_kind k) (map snd (fold_lineages H rs tgt)))"
    by (auto simp: winner_set_def)
  moreover have "distinct (filter (active_kind k) (map snd (fold_lineages H rs tgt)))"
    by (intro distinct_filter) (simp add: fold_lineages_winners react.winners_distinct_values)
  ultimately show "rc_of (reaction_count H rs tgt) k = card {a. reacts H rs a tgt k}"
    by (simp add: reaction_count_of distinct_card del: set_filter)
  show "is_active H rs a tgt k = reacts H rs a tgt k"
    using is_active_iff [OF assms(1,3)] reacts_iff [OF assms(1,2)] by simp
qed

text \<open>A like, its repetition and a second author's like, withdrawn, with an older one arriving last: one active reaction.\<close>

definition ex_reaction :: "string \<Rightarrow> nat \<Rightarrow> bool \<Rightarrow> feed_record" where
  "ex_reaction a n active =
     \<lparr>fr_canonical = [word_of_nat n], fr_id = ''r'', fr_author = a, fr_target = ''p'',
      fr_clock = word_of_nat n, fr_kind = Reaction ''like'' active\<rparr>"

theorem reaction_count_exact_witness:
  "let rs = [ex_reaction ''a'' 1 True, ex_reaction ''b'' 2 True, ex_reaction ''b'' 4 False, ex_reaction ''a'' 5 True, ex_reaction ''b'' 3 True]
   in rc_of (reaction_count id rs ''p'') ''like'' = 1 \<and> card {a. reacts id rs a ''p'' ''like''} = 1 \<and>
      \<not> is_active id rs ''b'' ''p'' ''like'' \<and> \<not> reacts id rs ''b'' ''p'' ''like''"
proof -
  let ?rs = "[ex_reaction ''a'' 1 True, ex_reaction ''b'' 2 True, ex_reaction ''b'' 4 False, ex_reaction ''a'' 5 True, ex_reaction ''b'' 3 True]"
  have "rc_of (reaction_count id ?rs ''p'') ''like'' = 1" "\<not> is_active id ?rs ''b'' ''p'' ''like''" by code_simp+
  moreover have "sep_free_authors ?rs" "sep \<notin> set ''b''" by code_simp+
  moreover have "inj_on (\<lambda>r. id (fr_canonical r)) (set ?rs)" by code_simp
  ultimately show ?thesis using reaction_count_exact [of ?rs id "''b''" "''p''" "''like''"] by simp
qed

end
