(* ===== verification/Prefix_Code.thy ===== *)
theory Prefix_Code
  imports Prelude
begin

text \<open>
  Prefix codes: byte encodings that can be read back from the front of a longer string without
  ambiguity.  The derived blobs of the program (segments, checkpoints, indexes, rollups) are
  concatenations of fixed-width integers and length-prefixed strings; content addressing is only
  meaningful because such a concatenation determines its parts.  The locale states the law for one
  encoding, the lemmas below build the law for pairs and counted lists, and each encoding the
  formats use is an interpretation.
\<close>

locale prefix_code =
  fixes enc :: "'a \<Rightarrow> bytes"
    and ok :: "'a \<Rightarrow> bool"
  assumes enc_inject: "ok x \<Longrightarrow> ok y \<Longrightarrow> enc x @ r = enc y @ s \<Longrightarrow> x = y \<and> r = s"
begin

lemma enc_eq_iff: "ok x \<Longrightarrow> ok y \<Longrightarrow> enc x @ r = enc y @ s \<longleftrightarrow> x = y \<and> r = s"
  using enc_inject by blast

lemma enc_list_inject:
  "length xs = length ys \<Longrightarrow> \<forall>x \<in> set xs. ok x \<Longrightarrow> \<forall>y \<in> set ys. ok y \<Longrightarrow>
   concat (map enc xs) @ r = concat (map enc ys) @ s \<Longrightarrow> xs = ys \<and> r = s"
proof (induction xs ys rule: list_induct2)
  case Nil
  then show ?case by simp
next
  case (Cons x xs y ys)
  then have "x = y \<and> concat (map enc xs) @ r = concat (map enc ys) @ s"
    using enc_inject [of x y "concat (map enc xs) @ r" "concat (map enc ys) @ s"] by simp
  with Cons show ?case by simp
qed

end

text \<open>\<open>(xs.len() as u32).to_le_bytes()\<close> followed by the elements.\<close>

definition enc_counted :: "('a \<Rightarrow> bytes) \<Rightarrow> 'a list \<Rightarrow> bytes" where
  "enc_counted enc xs = le32 (as_u32 (length xs)) @ concat (map enc xs)"

definition ok_counted :: "('a \<Rightarrow> bool) \<Rightarrow> 'a list \<Rightarrow> bool" where
  "ok_counted ok xs \<longleftrightarrow> length xs < 2 ^ 32 \<and> (\<forall>x \<in> set xs. ok x)"

text \<open>A length-prefixed byte string, and a length-prefixed \<open>String\<close>.\<close>

definition enc_bytes :: "bytes \<Rightarrow> bytes" where
  "enc_bytes b = le32 (as_u32 (length b)) @ b"

definition enc_str :: "string \<Rightarrow> bytes" where
  "enc_str s = le32 (as_u32 (length s)) @ as_bytes s"

definition ok_len :: "'a list \<Rightarrow> bool" where
  "ok_len xs \<longleftrightarrow> length xs < 2 ^ 32"

lemma prefix_code_counted:
  assumes "prefix_code enc ok"
  shows "prefix_code (enc_counted enc) (ok_counted ok)"
proof (rule prefix_code.intro)
  fix xs ys r s
  assume x: "ok_counted ok xs" and y: "ok_counted ok ys"
    and eq: "enc_counted enc xs @ r = enc_counted enc ys @ s"
  from eq have "le32 (as_u32 (length xs)) = le32 (as_u32 (length ys)) \<and>
    concat (map enc xs) @ r = concat (map enc ys) @ s"
    by (simp add: enc_counted_def)
  with x y show "xs = ys \<and> r = s"
    using prefix_code.enc_list_inject [OF assms, of xs ys r s]
    by (simp add: ok_counted_def as_u32_inject)
qed

lemma prefix_code_pair:
  assumes "prefix_code e1 ok1" "prefix_code e2 ok2"
  shows "prefix_code (\<lambda>p. e1 (fst p) @ e2 (snd p)) (\<lambda>p. ok1 (fst p) \<and> ok2 (snd p))"
proof (rule prefix_code.intro)
  fix p q r s
  assume "ok1 (fst p) \<and> ok2 (snd p)" "ok1 (fst q) \<and> ok2 (snd q)"
    "(e1 (fst p) @ e2 (snd p)) @ r = (e1 (fst q) @ e2 (snd q)) @ s"
  then show "p = q \<and> r = s"
    using prefix_code.enc_inject [OF assms(1), of "fst p" "fst q" "e2 (snd p) @ r" "e2 (snd q) @ s"]
      prefix_code.enc_inject [OF assms(2), of "snd p" "snd q" r s]
    by (simp add: prod_eq_iff)
qed

lemma prefix_code_fixed:
  assumes "\<And>x. ok x \<Longrightarrow> length (enc x) = n" and "\<And>x y. ok x \<Longrightarrow> ok y \<Longrightarrow> enc x = enc y \<Longrightarrow> x = y"
  shows "prefix_code enc ok"
proof (rule prefix_code.intro)
  fix x y r s
  assume "ok x" "ok y" "enc x @ r = enc y @ s"
  then show "x = y \<and> r = s" using assms [of x] assms [of y] by simp
qed

interpretation c32: prefix_code le32 "\<lambda>_. True"
  by (rule prefix_code_fixed) auto

interpretation c64: prefix_code le64 "\<lambda>_. True"
  by (rule prefix_code_fixed) auto

interpretation cstr: prefix_code enc_str ok_len
proof
  fix x y :: string and r s :: bytes
  assume "ok_len x" "ok_len y" "enc_str x @ r = enc_str y @ s"
  then show "x = y \<and> r = s"
    by (auto simp: enc_str_def ok_len_def as_u32_inject append_eq_same_length)
qed

interpretation cbytes: prefix_code enc_bytes ok_len
proof
  fix x y :: bytes and r s :: bytes
  assume "ok_len x" "ok_len y" "enc_bytes x @ r = enc_bytes y @ s"
  then show "x = y \<and> r = s"
    by (auto simp: enc_bytes_def ok_len_def as_u32_inject append_eq_same_length)
qed

text \<open>A count kept as \<open>nat\<close> and written as a \<open>u64\<close>.\<close>

definition enc_u64_nat :: "nat \<Rightarrow> bytes" where
  "enc_u64_nat n = le64 (as_u64 n)"

interpretation cnat: prefix_code enc_u64_nat "\<lambda>n. n < 2 ^ 64"
proof
  fix x y :: nat and r s :: bytes
  assume "x < 2 ^ 64" "y < 2 ^ 64" "enc_u64_nat x @ r = enc_u64_nat y @ s"
  then show "x = y \<and> r = s"
    using as_u64_inject [of x y] by (simp add: enc_u64_nat_def)
qed

end
