(* ===== verification/Feed_Segment.thy ===== *)
theory Feed_Segment
  imports Feed_Record Prefix_Code Rust_Std
begin

text \<open>
  Sealed segments and the segment spine of \<^verbatim>\<open>epix-feed/src/segment.rs\<close>, and the target index of
  \<^verbatim>\<open>index.rs\<close>: the frozen segment bytes, the extents of its records, the prev-linked spine, and the
  map from targets to record locations.
\<close>

section \<open>Segments\<close>

record segment =
  sg_boundary :: u64
  sg_records :: "feed_record list"
  sg_bytes :: bytes
  sg_root :: obj_id

definition SEG_MAGIC :: bytes where
  "SEG_MAGIC = as_bytes ''EDXSEG1''"

definition segment_bytes :: "u64 \<Rightarrow> feed_record list \<Rightarrow> bytes" where
  "segment_bytes boundary rs =
     SEG_MAGIC @ le64 boundary @ le32 (as_u32 (length rs)) @
     concat (map (\<lambda>r. le32 (as_u32 (length (fr_canonical r))) @ fr_canonical r) rs)"

definition seal :: "hash_fn \<Rightarrow> feed_record list \<Rightarrow> u64 \<Rightarrow> segment" where
  "seal H rs boundary =
     (let selected = canonical_order H (filter (\<lambda>r. fr_clock r \<le> boundary) rs);
          bs = segment_bytes boundary selected
      in \<lparr>sg_boundary = boundary, sg_records = selected, sg_bytes = bs, sg_root = ObjId_of H bs\<rparr>)"

fun extents_loop :: "hash_fn \<Rightarrow> u64 \<Rightarrow> feed_record list \<Rightarrow> (obj_id \<times> u64 \<times> u32) list" where
  "extents_loop H off [] = []"
| "extents_loop H off (r # rs) =
     (let off' = off + 4
      in (addr H r, off', as_u32 (length (fr_canonical r))) #
         extents_loop H (off' + as_u64 (length (fr_canonical r))) rs)"

definition record_extents :: "hash_fn \<Rightarrow> segment \<Rightarrow> (obj_id \<times> u64 \<times> u32) list" where
  "record_extents H seg = extents_loop H (as_u64 (length SEG_MAGIC + 8 + 4)) (sg_records seg)"

section \<open>The spine\<close>

record spine_link =
  sl_boundary :: u64
  sl_segment_root :: obj_id
  sl_link_root :: obj_id

type_synonym spine = "spine_link list"

datatype spine_error = NonMonotoneBoundary u64 u64

definition spine_head :: "spine \<Rightarrow> obj_id" where
  "spine_head sp = (if sp = [] then zero_id else sl_link_root (last sp))"

definition link_material :: "obj_id \<Rightarrow> obj_id \<Rightarrow> u64 \<Rightarrow> bytes" where
  "link_material prev root boundary = id_bytes prev @ id_bytes root @ le64 boundary"

definition spine_append :: "hash_fn \<Rightarrow> spine \<Rightarrow> segment \<Rightarrow> spine_error + spine" where
  "spine_append H sp seg =
     (if sp \<noteq> [] \<and> sg_boundary seg \<le> sl_boundary (last sp)
      then Inl (NonMonotoneBoundary (sl_boundary (last sp)) (sg_boundary seg))
      else Inr (sp @ [\<lparr>sl_boundary = sg_boundary seg, sl_segment_root = sg_root seg,
                        sl_link_root = ObjId_of H (link_material (spine_head sp) (sg_root seg) (sg_boundary seg))\<rparr>]))"

definition is_extension_of :: "spine \<Rightarrow> spine \<Rightarrow> bool" where
  "is_extension_of self base =
     (if length self < length base then False
      else list_all (\<lambda>(a, b). a = b) (zip base self))"

section \<open>Target index\<close>

type_synonym loc = "obj_id \<times> u64 \<times> u32"

type_synonym target_index = "(string, loc list) btree_map"

definition index_key :: "feed_record \<Rightarrow> string" where
  "index_key r = (if fr_target r = [] then fr_id r else fr_target r)"

definition add_locs :: "obj_id \<Rightarrow> target_index \<Rightarrow> (feed_record \<times> obj_id \<times> u64 \<times> u32) list \<Rightarrow> target_index" where
  "add_locs root ix ps =
     foldl (\<lambda>ix p. case p of (r, _, off, len) \<Rightarrow>
       bt_upsert (index_key r) (\<lambda>ls. ls @ [(root, off, len)]) [(root, off, len)] ix) ix ps"

definition normalize_target :: "target_index \<Rightarrow> string \<Rightarrow> target_index" where
  "normalize_target ix key =
     (case map_of ix key of
        None \<Rightarrow> ix
      | Some locs \<Rightarrow> bt_insert key (remdups_adj (sort locs)) ix)"

definition add_segment :: "hash_fn \<Rightarrow> target_index \<Rightarrow> segment \<Rightarrow> target_index" where
  "add_segment H ix seg =
     (let extents = record_extents H seg;
          touched = remdups_adj (sort (map index_key (map fst (zip (sg_records seg) extents))))
      in foldl normalize_target (add_locs (sg_root seg) ix (zip (sg_records seg) extents)) touched)"

definition locations :: "target_index \<Rightarrow> string \<Rightarrow> loc list" where
  "locations ix tgt = (case map_of ix tgt of None \<Rightarrow> [] | Some ls \<Rightarrow> ls)"

definition index_targets :: "target_index \<Rightarrow> string list" where
  "index_targets ix = map fst ix"

definition enc_loc :: "loc \<Rightarrow> bytes" where
  "enc_loc l = id_bytes (fst l) @ le64 (fst (snd l)) @ le32 (snd (snd l))"

definition index_serialize :: "target_index \<Rightarrow> bytes" where
  "index_serialize ix =
     as_bytes ''EDXIDX1'' @ le32 (as_u32 (length ix)) @
     concat (map (\<lambda>e. le32 (as_u32 (length (fst e))) @ as_bytes (fst e) @
       le32 (as_u32 (length (snd e))) @ concat (map enc_loc (snd e))) ix)"

definition index_root :: "hash_fn \<Rightarrow> target_index \<Rightarrow> obj_id" where
  "index_root H ix = ObjId_of H (index_serialize ix)"

section \<open>Segment lemmas\<close>

definition enc_record :: "feed_record \<Rightarrow> bytes" where
  "enc_record r = enc_bytes (fr_canonical r)"

lemma segment_bytes_enc:
  "segment_bytes b rs = SEG_MAGIC @ le64 b @ enc_counted enc_bytes (map fr_canonical rs)"
  by (simp add: segment_bytes_def enc_counted_def enc_bytes_def comp_def)

lemma length_SEG_MAGIC [simp]: "length SEG_MAGIC = 7"
  by (simp add: SEG_MAGIC_def)

lemma seal_records: "sg_records (seal H rs b) = canonical_order H (filter (\<lambda>r. fr_clock r \<le> b) rs)"
  by (simp add: seal_def Let_def)

lemma seal_sel:
  "sg_boundary (seal H rs b) = b" "sg_bytes (seal H rs b) = segment_bytes b (sg_records (seal H rs b))"
  "sg_root (seal H rs b) = ObjId_of H (sg_bytes (seal H rs b))"
  by (simp_all add: seal_def Let_def)

lemma as_u64_add: "as_u64 a + as_u64 b = as_u64 (a + b)"
  by (simp add: as_u64_def)

lemma extents_loop_slices:
  assumes "off + length (concat (map enc_record rs)) < 2 ^ 64"
    and "\<forall>r \<in> set rs. ok_len (fr_canonical r)" and "length pre = off"
    and "i < length rs"
  shows "\<exists>a o' n. extents_loop H (as_u64 off) rs ! i = (a, o', n) \<and> a = addr H (rs ! i) \<and>
    take (unat n) (drop (unat o') (pre @ concat (map enc_record rs) @ post)) = fr_canonical (rs ! i)"
  using assms
proof (induction rs arbitrary: off pre i)
  case Nil
  then show ?case by simp
next
  case (Cons r rs)
  have len: "length (fr_canonical r) < 2 ^ 32" using Cons.prems(2) by (simp add: ok_len_def)
  have enc: "enc_record r = le32 (as_u32 (length (fr_canonical r))) @ fr_canonical r"
    by (simp add: enc_record_def enc_bytes_def)
  have four: "as_u64 off + 4 = as_u64 (off + 4)"
    using as_u64_add [of off 4] by (simp add: as_u64_def)
  have off4: "unat (as_u64 (off + 4)) = off + 4"
    using Cons.prems(1) by (intro unat_as_u64) (simp add: enc)
  show ?case
  proof (cases i)
    case 0
    show ?thesis using len off4 Cons.prems(3) unfolding 0
      by (simp add: four Let_def unat_as_u32 enc)
  next
    case (Suc j)
    have "\<exists>a o' n. extents_loop H (as_u64 (off + 4 + length (fr_canonical r))) rs ! j = (a, o', n) \<and>
      a = addr H (rs ! j) \<and>
      take (unat n) (drop (unat o') ((pre @ enc_record r) @ concat (map enc_record rs) @ post)) = fr_canonical (rs ! j)"
      using Cons.prems Suc by (intro Cons.IH) (auto simp: enc)
    then show ?thesis unfolding Suc by (simp add: four Let_def as_u64_add)
  qed
qed

lemma length_extents_loop [simp]: "length (extents_loop H off rs) = length rs"
  by (induction rs arbitrary: off) (auto simp: Let_def)

lemma length_record_extents [simp]: "length (record_extents H seg) = length (sg_records seg)"
  by (simp add: record_extents_def)

section \<open>Spine lemmas\<close>

definition spine_ok :: "spine \<Rightarrow> bool" where
  "spine_ok sp \<longleftrightarrow> sorted_wrt (<) (map sl_boundary sp)"

text \<open>Every link hashes its predecessor's link root, its segment root and its boundary.\<close>

fun spine_linked :: "hash_fn \<Rightarrow> obj_id \<Rightarrow> spine \<Rightarrow> bool" where
  "spine_linked H prev [] = True"
| "spine_linked H prev (l # ls) =
     (sl_link_root l = ObjId_of H (link_material prev (sl_segment_root l) (sl_boundary l)) \<and>
      spine_linked H (sl_link_root l) ls)"

lemma spine_linked_append:
  "spine_linked H prev (ls @ [l]) \<longleftrightarrow>
     spine_linked H prev ls \<and>
     sl_link_root l = ObjId_of H (link_material (if ls = [] then prev else sl_link_root (last ls))
       (sl_segment_root l) (sl_boundary l))"
  by (induction ls arbitrary: prev) auto

lemma spine_ok_snoc:
  "spine_ok (sp @ [l]) \<longleftrightarrow> spine_ok sp \<and> (sp = [] \<or> sl_boundary (last sp) < sl_boundary l)"
proof -
  have "sl_boundary x \<le> sl_boundary (last sp)" if ok: "spine_ok sp" and x: "x \<in> set sp" for x
  proof -
    have "sorted (map sl_boundary sp)" using ok by (simp add: spine_ok_def strict_sorted_iff)
    moreover obtain i where "i < length sp" "sp ! i = x" using x by (metis in_set_conv_nth)
    ultimately show ?thesis
      using sorted_nth_mono [of "map sl_boundary sp" i "length sp - 1"] x
      by (cases "sp = []") (auto simp: last_conv_nth)
  qed
  then show ?thesis
    by (cases "sp = []") (auto simp: spine_ok_def sorted_wrt_append intro: le_less_trans)
qed

lemma is_extension_of_prefix: "is_extension_of self base \<longleftrightarrow> (\<exists>ext. self = base @ ext)"
proof -
  have "list_all (\<lambda>(a, b). a = b) (zip base self) \<longleftrightarrow> take (length base) self = base"
    if "length base \<le> length self"
    using that by (auto simp: list_all_length list_eq_iff_nth_eq)
  then show ?thesis
    unfolding is_extension_of_def by (auto simp: not_less) (metis append_take_drop_id)
qed

section \<open>Index lemmas\<close>

definition norm_locs :: "loc list \<Rightarrow> loc list" where
  "norm_locs ls = remdups_adj (sort ls)"

lemma norm_locs_sorted: "sorted_wrt (<) (norm_locs ls)" and set_norm_locs [simp]: "set (norm_locs ls) = set ls"
  using sort_dedup [of ls] by (simp_all add: norm_locs_def)

lemma norm_locs_idem: "norm_locs (norm_locs ls) = norm_locs ls"
  by (rule strict_sorted_unique) (auto simp: norm_locs_sorted)

lemma locations_normalize:
  "locations (normalize_target ix k) t = (if t = k then norm_locs (locations ix t) else locations ix t)"
  by (auto simp: normalize_target_def locations_def norm_locs_def split: option.split)

lemma locations_normalize_all:
  "locations (foldl normalize_target ix ks) t =
     (if t \<in> set ks then norm_locs (locations ix t) else locations ix t)"
  by (induction ks arbitrary: ix) (auto simp: locations_normalize norm_locs_idem)

lemma bt_inv_normalize_all: "bt_inv ix \<Longrightarrow> bt_inv (foldl normalize_target ix ks)"
  by (induction ks arbitrary: ix) (auto simp: normalize_target_def split: option.split)

lemma locations_add_locs:
  "locations (add_locs root ix ps) t =
     locations ix t @ map (\<lambda>p. (root, snd (snd p))) (filter (\<lambda>p. index_key (fst p) = t) ps)"
proof (induction ps arbitrary: ix)
  case Nil
  then show ?case by (simp add: add_locs_def)
next
  case (Cons p ps)
  obtain r a off len where p: "p = (r, a, off, len)" by (cases p) auto
  define ix' where "ix' = bt_upsert (index_key r) (\<lambda>ls. ls @ [(root, off, len)]) [(root, off, len)] ix"
  have "add_locs root ix (p # ps) = add_locs root ix' ps"
    by (simp add: add_locs_def p ix'_def)
  moreover have "locations ix' t = (if t = index_key r then locations ix t @ [(root, off, len)] else locations ix t)"
    by (auto simp: ix'_def locations_def split: option.split)
  ultimately show ?case using Cons.IH [of ix'] by (simp add: p)
qed

lemma bt_inv_add_locs: "bt_inv ix \<Longrightarrow> bt_inv (add_locs root ix ps)"
  unfolding add_locs_def by (induction ps arbitrary: ix) (auto split: prod.split)

text \<open>The index's own invariant: an ordered map of strictly sorted location lists.\<close>

definition index_ok :: "target_index \<Rightarrow> bool" where
  "index_ok ix \<longleftrightarrow> bt_inv ix \<and> (\<forall>t. sorted_wrt (<) (locations ix t))"

lemma add_segment_locations:
  assumes "index_ok ix"
  shows "index_ok (add_segment H ix seg)"
    and "set (locations (add_segment H ix seg) t) = set (locations ix t) \<union>
      {(sg_root seg, off, len) | r a off len.
         (r, a, off, len) \<in> set (zip (sg_records seg) (record_extents H seg)) \<and> index_key r = t}"
proof -
  let ?ps = "zip (sg_records seg) (record_extents H seg)"
  let ?keys = "remdups_adj (sort (map index_key (map fst ?ps)))"
  let ?new = "\<lambda>t. map (\<lambda>p. (sg_root seg, snd (snd p))) (filter (\<lambda>p. index_key (fst p) = t) ?ps)"
  have keys: "t \<in> set ?keys \<longleftrightarrow> ?new t \<noteq> []" for t
  proof -
    have "set ?keys = (\<lambda>p. index_key (fst p)) ` set ?ps"
      by (simp only: remdups_adj_set set_sort set_map image_image)
    then have "t \<in> set ?keys \<longleftrightarrow> (\<exists>p \<in> set ?ps. index_key (fst p) = t)"
      by (metis (no_types, lifting) image_iff)
    also have "\<dots> \<longleftrightarrow> ?new t \<noteq> []" unfolding map_is_Nil_conv filter_empty_conv by blast
    finally show ?thesis .
  qed
  have eq: "locations (add_segment H ix seg) t =
    (if t \<in> set ?keys then norm_locs (locations ix t @ ?new t) else locations ix t @ ?new t)" for t
    by (simp only: add_segment_def Let_def locations_normalize_all locations_add_locs)
  have loc: "locations (add_segment H ix seg) t = norm_locs (locations ix t @ ?new t)" for t
  proof (cases "t \<in> set ?keys")
    case True
    then show ?thesis unfolding eq by (rule if_P)
  next
    case False
    then have "?new t = []" using keys by blast
    moreover have "norm_locs (locations ix t) = locations ix t"
      using assms by (intro strict_sorted_unique) (auto simp: norm_locs_sorted index_ok_def)
    ultimately have "locations ix t @ ?new t = norm_locs (locations ix t @ ?new t)" by simp
    with False show ?thesis unfolding eq by presburger
  qed
  show "index_ok (add_segment H ix seg)"
    using assms by (simp add: index_ok_def loc norm_locs_sorted)
      (simp add: add_segment_def Let_def bt_inv_normalize_all bt_inv_add_locs)
  show "set (locations (add_segment H ix seg) t) = set (locations ix t) \<union>
      {(sg_root seg, off, len) | r a off len. (r, a, off, len) \<in> set ?ps \<and> index_key r = t}"
    unfolding loc by (force simp: image_iff)
qed

section \<open>Commitment lemmas\<close>

fun link_inputs :: "obj_id \<Rightarrow> spine \<Rightarrow> bytes list" where
  "link_inputs prev [] = []"
| "link_inputs prev (l # ls) =
     link_material prev (sl_segment_root l) (sl_boundary l) # link_inputs (sl_link_root l) ls"

lemma link_inputs_append:
  "link_inputs prev (ls @ [l]) =
     link_inputs prev ls @
       [link_material (if ls = [] then prev else sl_link_root (last ls)) (sl_segment_root l) (sl_boundary l)]"
  by (induction ls arbitrary: prev) auto

lemma link_material_inject:
  assumes "length (id_bytes p) = 32" "length (id_bytes q) = 32"
    and "length (id_bytes x) = 32" "length (id_bytes y) = 32"
    and "link_material p x b = link_material q y c"
  shows "p = q \<and> x = y \<and> b = c"
  using assms by (auto simp: link_material_def append_eq_same_length intro: obj_id.expand)

lemma spine_head_input:
  assumes "spine_linked H zero_id sp" "sp \<noteq> []"
  shows "spine_head sp \<in> ObjId_of H ` set (link_inputs zero_id sp)"
  using assms by (cases sp rule: rev_cases) (auto simp: spine_linked_append spine_head_def link_inputs_append)

lemma spine_head_commits:
  assumes "\<And>x. length (H x) = 32"
    and "spine_linked H zero_id sp" "spine_linked H zero_id sp'"
    and "\<forall>l \<in> set sp \<union> set sp'. length (id_bytes (sl_segment_root l)) = 32"
    and "inj_on H (set (link_inputs zero_id sp) \<union> set (link_inputs zero_id sp'))"
    and "zero_id \<notin> ObjId_of H ` (set (link_inputs zero_id sp) \<union> set (link_inputs zero_id sp'))"
    and "spine_head sp = spine_head sp'"
  shows "sp = sp'"
  using assms(2-)
proof (induction sp arbitrary: sp' rule: rev_induct)
  case Nil
  show ?case
  proof (rule ccontr)
    assume "[] \<noteq> sp'"
    with spine_head_input [OF Nil.prems(2)] Nil.prems(5,6) show False by (auto simp: spine_head_def)
  qed
next
  case (snoc l sp)
  have "sp' \<noteq> []" using spine_head_input [OF snoc.prems(1)] snoc.prems(5,6) by (auto simp: spine_head_def)
  then obtain l' ls where sp': "sp' = ls @ [l']" by (cases sp' rule: rev_cases) auto
  let ?m = "link_material (spine_head sp) (sl_segment_root l) (sl_boundary l)"
  let ?m' = "link_material (spine_head ls) (sl_segment_root l') (sl_boundary l')"
  have roots: "sl_link_root l = ObjId_of H ?m" "sl_link_root l' = ObjId_of H ?m'"
    using snoc.prems(1,2) by (simp_all add: sp' spine_linked_append spine_head_def)
  have linked: "spine_linked H zero_id sp" "spine_linked H zero_id ls"
    using snoc.prems(1,2) by (simp_all add: sp' spine_linked_append)
  have inputs: "?m \<in> set (link_inputs zero_id (sp @ [l]))" "?m' \<in> set (link_inputs zero_id sp')"
    by (simp_all add: sp' link_inputs_append spine_head_def)
  have "sl_link_root l = sl_link_root l'" using snoc.prems(6) by (simp add: sp' spine_head_def) 
  then have "H ?m = H ?m'" using roots by (simp add: ObjId_of_def)
  then have "?m = ?m'" using snoc.prems(4) inputs by (meson UnI1 UnI2 inj_onD)
  moreover have "length (id_bytes (spine_head ks)) = 32" if "spine_linked H zero_id ks" for ks
    using that assms(1)
    by (cases ks rule: rev_cases) (auto simp: spine_head_def zero_id_def spine_linked_append ObjId_of_def)
  ultimately have eq: "spine_head sp = spine_head ls \<and> sl_segment_root l = sl_segment_root l' \<and>
    sl_boundary l = sl_boundary l'"
    using linked snoc.prems(3) by (intro link_material_inject) (auto simp: sp')
  have "sp = ls"
  proof (rule snoc.IH)
    show "inj_on H (set (link_inputs zero_id sp) \<union> set (link_inputs zero_id ls))"
      using snoc.prems(4) by (rule inj_on_subset) (auto simp: sp' link_inputs_append)
    show "zero_id \<notin> ObjId_of H ` (set (link_inputs zero_id sp) \<union> set (link_inputs zero_id ls))"
      using snoc.prems(5) by (auto simp: sp' link_inputs_append)
  qed (use snoc.prems(3) linked eq in \<open>auto simp: sp'\<close>)
  moreover have "l = l'" using eq \<open>sl_link_root l = sl_link_root l'\<close> by simp
  ultimately show ?case by (simp add: sp')
qed

lemma segment_bytes_inject:
  assumes "ok_counted ok_len (map fr_canonical rs)" "ok_counted ok_len (map fr_canonical rs')"
    and "segment_bytes b rs = segment_bytes b' rs'"
  shows "b = b' \<and> map fr_canonical rs = map fr_canonical rs'"
  using assms prefix_code.enc_inject [OF prefix_code_counted [OF cbytes.prefix_code_axioms],
      of "map fr_canonical rs" "map fr_canonical rs'" "[]" "[]"]
  by (auto simp: segment_bytes_enc append_eq_same_length)

lemma index_of_segments:
  "index_ok (foldl (add_segment H) [] segs) \<and>
   set (locations (foldl (add_segment H) [] segs) t) =
     {(sg_root seg, off, len) | seg r a off len. seg \<in> set segs \<and>
        (r, a, off, len) \<in> set (zip (sg_records seg) (record_extents H seg)) \<and> index_key r = t}"
proof (induction segs rule: rev_induct)
  case Nil
  then show ?case by (simp add: index_ok_def locations_def)
next
  case (snoc seg segs)
  then show ?case
    using add_segment_locations [of "foldl (add_segment H) [] segs" H seg] by fastforce
qed

section \<open>Properties\<close>

text \<open>
  Sealing is a function of the records and not of the order in which a node received them: two
  nodes that hold the same records (with the same multiplicities), none of which share an order
  key, seal the identical segment, bytes and root included.
\<close>

theorem seal_order_independent:
  assumes "mset rs = mset rs'" and "inj_on (order_key H) (set rs)"
  shows "seal H rs b = seal H rs' b"
proof -
  have "mset (filter (\<lambda>r. fr_clock r \<le> b) rs) = mset (filter (\<lambda>r. fr_clock r \<le> b) rs')"
    using assms(1) by simp
  moreover have "inj_on (order_key H) (set (filter (\<lambda>r. fr_clock r \<le> b) rs))"
    using assms(2) by (rule inj_on_subset) auto
  ultimately have "canonical_order H (filter (\<lambda>r. fr_clock r \<le> b) rs) =
    canonical_order H (filter (\<lambda>r. fr_clock r \<le> b) rs')"
    by (rule canonical_order_mset)
  then show ?thesis by (simp only: seal_def)
qed

theorem seal_order_independent_witness:
  "seal id [ex_reaction ''a'' 1 True, ex_reaction ''b'' 2 True] 9 =
   seal id [ex_reaction ''b'' 2 True, ex_reaction ''a'' 1 True] 9 \<and>
   length (sg_records (seal id [ex_reaction ''a'' 1 True, ex_reaction ''b'' 2 True] 9)) = 2"
  using seal_order_independent
    [of "[ex_reaction ''a'' 1 True, ex_reaction ''b'' 2 True]" "[ex_reaction ''b'' 2 True, ex_reaction ''a'' 1 True]" id 9]
  by (auto simp: ex_reaction_def order_key_def inj_on_def seal_records)

text \<open>
  A sealed segment holds exactly the records up to its boundary, in canonical order, and the
  extents the index stores are right: the byte range of the \<open>i\<close>-th extent of the segment's bytes is
  the \<open>i\<close>-th record's signed bytes (for records below 4 GiB and segments below \<open>2 ^ 64\<close> bytes).
\<close>

theorem seal_extents:
  assumes "seg = seal H rs b" "length (sg_bytes seg) < 2 ^ 64"
    and "\<forall>r \<in> set rs. ok_len (fr_canonical r)" and "i < length (sg_records seg)"
  shows "set (sg_records seg) = {r \<in> set rs. fr_clock r \<le> b} \<and>
    sorted (map (order_key H) (sg_records seg)) \<and>
    length (record_extents H seg) = length (sg_records seg) \<and>
    (case record_extents H seg ! i of (a, off, len) \<Rightarrow>
       a = addr H (sg_records seg ! i) \<and>
       take (unat len) (drop (unat off) (sg_bytes seg)) = fr_canonical (sg_records seg ! i))"
proof -
  let ?rs = "sg_records seg" and ?pre = "SEG_MAGIC @ le64 b @ le32 (as_u32 (length (sg_records seg)))"
  have bytes: "sg_bytes seg = ?pre @ concat (map enc_record ?rs) @ []"
    by (simp add: assms(1) seal_sel segment_bytes_def enc_record_def [abs_def] enc_bytes_def)
  have recs: "set ?rs = {r \<in> set rs. fr_clock r \<le> b}" "sorted (map (order_key H) ?rs)"
    by (auto simp: assms(1) seal_records canonical_order_sorted)
  have "\<exists>a o' n. extents_loop H (as_u64 19) ?rs ! i = (a, o', n) \<and> a = addr H (?rs ! i) \<and>
    take (unat n) (drop (unat o') (?pre @ concat (map enc_record ?rs) @ [])) = fr_canonical (?rs ! i)"
  proof (rule extents_loop_slices)
    show "19 + length (concat (map enc_record ?rs)) < 2 ^ 64" using assms(2) unfolding bytes by simp
  qed (use assms(3,4) recs in auto)
  then show ?thesis using recs unfolding bytes by (auto simp: record_extents_def)
qed

definition ex_segment :: segment where
  "ex_segment = seal (\<lambda>_. []) [ex_reaction ''b'' 2 True, ex_reaction ''a'' 1 True] 9"

theorem seal_extents_witness:
  "record_extents (\<lambda>_. []) ex_segment ! 1 = (ObjId [], 28, 1) \<and>
   take 1 (drop 28 (sg_bytes ex_segment)) = fr_canonical (sg_records ex_segment ! 1)"
proof -
  have ext: "record_extents (\<lambda>_. []) ex_segment ! 1 = (ObjId [], 28, 1)" by code_simp
  have "length (sg_bytes ex_segment) = 29" "length (sg_records ex_segment) = 2" by code_simp+
  then have len: "length (sg_bytes ex_segment) < 2 ^ 64" "1 < length (sg_records ex_segment)" by simp_all
  have "\<forall>r \<in> set [ex_reaction ''b'' 2 True, ex_reaction ''a'' 1 True]. ok_len (fr_canonical r)"
    by (simp add: ok_len_def ex_reaction_def)
  from seal_extents [OF ex_segment_def len(1) this len(2)] ext show ?thesis by simp
qed

text \<open>
  The spine.  Appending a segment fails exactly when its boundary does not exceed the last one
  and reports the two boundaries; otherwise the new spine extends the old, its boundaries still
  strictly increase and every link still commits to its predecessor.
\<close>

theorem spine_append_spec:
  assumes "spine_ok sp" "spine_linked H zero_id sp"
  shows "case spine_append H sp seg of
      Inl e \<Rightarrow> sp \<noteq> [] \<and> sg_boundary seg \<le> sl_boundary (last sp) \<and>
        e = NonMonotoneBoundary (sl_boundary (last sp)) (sg_boundary seg)
    | Inr sp' \<Rightarrow> (sp = [] \<or> sl_boundary (last sp) < sg_boundary seg) \<and> spine_ok sp' \<and>
        spine_linked H zero_id sp' \<and> is_extension_of sp' sp \<and> length sp' = Suc (length sp) \<and>
        spine_head sp' = ObjId_of H (link_material (spine_head sp) (sg_root seg) (sg_boundary seg))"
  using assms
  by (auto simp: spine_append_def spine_ok_snoc spine_linked_append is_extension_of_prefix spine_head_def)

theorem spine_append_spec_witness:
  "let seg = seal id [] 5 in
   (\<exists>l. spine_append id [] seg = Inr [l] \<and> spine_ok [l] \<and> is_extension_of [l] []) \<and>
   spine_append id [\<lparr>sl_boundary = 7, sl_segment_root = zero_id,
      sl_link_root = ObjId_of id (link_material zero_id zero_id 7)\<rparr>] seg = Inl (NonMonotoneBoundary 7 5)"
  using spine_append_spec [of "[]" id "seal id [] 5"]
    spine_append_spec [of "[\<lparr>sl_boundary = 7, sl_segment_root = zero_id,
      sl_link_root = ObjId_of id (link_material zero_id zero_id 7)\<rparr>]" id "seal id [] 5"]
  by (auto simp: spine_ok_def seal_sel spine_append_def)

text \<open>A feed's spine, as its publisher grows it: one sealed segment appended after the other.\<close>

fun spine_grow :: "hash_fn \<Rightarrow> spine \<Rightarrow> (feed_record list \<times> u64) list \<Rightarrow> spine_error + spine" where
  "spine_grow H sp [] = Inr sp"
| "spine_grow H sp ((rs, b) # fs) =
     (case spine_append H sp (seal H rs b) of Inl e \<Rightarrow> Inl e | Inr sp' \<Rightarrow> spine_grow H sp' fs)"

text \<open>The strings hashed on the way: the segment bytes and the link materials.\<close>

definition feed_inputs :: "hash_fn \<Rightarrow> (feed_record list \<times> u64) list \<Rightarrow> spine \<Rightarrow> bytes set" where
  "feed_inputs H fs sp = (\<lambda>(rs, b). sg_bytes (seal H rs b)) ` set fs \<union> set (link_inputs zero_id sp)"

text \<open>What a feed says: for each segment its boundary and the signed bytes of the records up to it.\<close>

definition feed_says :: "hash_fn \<Rightarrow> (feed_record list \<times> u64) list \<Rightarrow> (u64 \<times> bytes list) list" where
  "feed_says H fs = map (\<lambda>(rs, b). (b, map fr_canonical (canonical_order H (filter (\<lambda>r. fr_clock r \<le> b) rs)))) fs"

lemma spine_grow_linked:
  "spine_grow H sp fs = Inr sp' \<Longrightarrow> spine_linked H zero_id sp \<Longrightarrow>
   spine_linked H zero_id sp' \<and> map sl_segment_root sp' = map sl_segment_root sp @ map (\<lambda>(rs, b). sg_root (seal H rs b)) fs"
proof (induction fs arbitrary: sp)
  case (Cons f fs)
  obtain rs b where f: "f = (rs, b)" by (cases f)
  obtain sp1 where sp1: "spine_append H sp (seal H rs b) = Inr sp1" "spine_grow H sp1 fs = Inr sp'"
    using Cons.prems(1) by (auto simp: f split: sum.splits)
  then have "spine_linked H zero_id sp1" "map sl_segment_root sp1 = map sl_segment_root sp @ [sg_root (seal H rs b)]"
    using Cons.prems(2) by (auto simp: spine_append_def spine_linked_append spine_head_def split: if_splits)
  then show ?case using Cons.IH [OF sp1(2)] by (simp add: f)
qed simp

lemma seal_root_commits:
  assumes "sg_root (seal H rs b) = sg_root (seal H rs' b')" "inj_on H {sg_bytes (seal H rs b), sg_bytes (seal H rs' b')}"
    and "ok_counted ok_len (map fr_canonical rs)" "ok_counted ok_len (map fr_canonical rs')"
  shows "b = b' \<and> map fr_canonical (sg_records (seal H rs b)) = map fr_canonical (sg_records (seal H rs' b'))"
proof -
  have "sg_bytes (seal H rs b) = sg_bytes (seal H rs' b')"
    using assms(1,2) unfolding seal_sel(3) ObjId_of_def obj_id.inject by (meson inj_onD insertCI)
  moreover have "ok_counted ok_len (map fr_canonical (sg_records (seal H us c)))"
    if "ok_counted ok_len (map fr_canonical us)" for us c
    using that by (auto simp: ok_counted_def seal_records intro: le_less_trans [OF length_filter_le])
  ultimately show ?thesis
    using assms(3,4) by (intro segment_bytes_inject) (auto simp: seal_sel(2))
qed

lemma seal_roots_commit:
  assumes "map (\<lambda>(rs, b). sg_root (seal H rs b)) fs = map (\<lambda>(rs, b). sg_root (seal H rs b)) fs'"
    and "list_all (\<lambda>(rs, b). ok_counted ok_len (map fr_canonical rs)) (fs @ fs')"
    and "inj_on H ((\<lambda>(rs, b). sg_bytes (seal H rs b)) ` (set fs \<union> set fs'))"
  shows "feed_says H fs = feed_says H fs'"
proof (rule nth_equalityI)
  show len: "length (feed_says H fs) = length (feed_says H fs')"
    using arg_cong [OF assms(1), of length] by (simp add: feed_says_def)
  fix i assume "i < length (feed_says H fs)"
  then have i: "i < length fs" "i < length fs'" using len by (simp_all add: feed_says_def)
  obtain rs b rs' b' where f: "fs ! i = (rs, b)" "fs' ! i = (rs', b')" by (metis surj_pair)
  then have mem: "(rs, b) \<in> set fs" "(rs', b') \<in> set fs'" using i by (metis nth_mem)+
  have "sg_root (seal H rs b) = sg_root (seal H rs' b')"
    using arg_cong [OF assms(1), of "\<lambda>l. l ! i"] i f by simp
  moreover have "inj_on H {sg_bytes (seal H rs b), sg_bytes (seal H rs' b')}"
    using assms(3) by (rule inj_on_subset) (use mem in force)
  moreover have "ok_counted ok_len (map fr_canonical rs)" "ok_counted ok_len (map fr_canonical rs')"
    using assms(2) mem by (auto simp: list_all_iff)
  ultimately have "b = b' \<and> map fr_canonical (sg_records (seal H rs b)) = map fr_canonical (sg_records (seal H rs' b'))"
    by (rule seal_root_commits)
  then show "feed_says H fs ! i = feed_says H fs' ! i" using i f by (auto simp: feed_says_def seal_records)
qed

text \<open>
  C24. The spine head commits to the whole feed: two feeds, each grown from the empty spine by sealing
  and appending segments, that end in the same head have the same spine link for link, and hence the
  same number of segments with the same boundaries and the same signed bytes in the same order, as long
  as the hash has 32-byte output, no collision among the strings that were hashed, and none of them
  hashes to the 32 zero bytes that stand for the empty spine.
\<close>

theorem feed_roots_commit:
  assumes "\<And>x. length (H x) = 32"
    and "spine_grow H [] fs = Inr sp" "spine_grow H [] fs' = Inr sp'" "spine_head sp = spine_head sp'"
    and "list_all (\<lambda>(rs, b). ok_counted ok_len (map fr_canonical rs)) (fs @ fs')"
    and "inj_on H (feed_inputs H fs sp \<union> feed_inputs H fs' sp')"
    and "replicate 32 0 \<notin> H ` (feed_inputs H fs sp \<union> feed_inputs H fs' sp')"
  shows "sp = sp' \<and> feed_says H fs = feed_says H fs'"
proof -
  have g: "spine_linked H zero_id sp" "map sl_segment_root sp = map (\<lambda>(rs, b). sg_root (seal H rs b)) fs"
    using spine_grow_linked [OF assms(2)] by simp_all
  have g': "spine_linked H zero_id sp'" "map sl_segment_root sp' = map (\<lambda>(rs, b). sg_root (seal H rs b)) fs'"
    using spine_grow_linked [OF assms(3)] by simp_all
  have root32: "length (id_bytes (sl_segment_root l)) = 32"
    if "l \<in> set ks" "map sl_segment_root ks = map (\<lambda>(rs, b). sg_root (seal H rs b)) gs" for l ks gs
  proof -
    have "sl_segment_root l \<in> set (map (\<lambda>(rs, b). sg_root (seal H rs b)) gs)" using that by (metis image_eqI list.set_map)
    then show ?thesis using assms(1) by (auto simp: seal_sel(3) ObjId_of_def)
  qed
  have "sp = sp'"
  proof (rule spine_head_commits [OF assms(1) g(1) g'(1) _ _ _ assms(4)])
    show "\<forall>l \<in> set sp \<union> set sp'. length (id_bytes (sl_segment_root l)) = 32" using root32 g(2) g'(2) by blast
    show "inj_on H (set (link_inputs zero_id sp) \<union> set (link_inputs zero_id sp'))"
      using assms(6) by (rule inj_on_subset) (auto simp: feed_inputs_def)
    show "zero_id \<notin> ObjId_of H ` (set (link_inputs zero_id sp) \<union> set (link_inputs zero_id sp'))"
      using assms(7) by (auto simp: feed_inputs_def zero_id_def ObjId_of_def)
  qed
  moreover have "feed_says H fs = feed_says H fs'"
  proof (rule seal_roots_commit [OF _ assms(5)])
    show "map (\<lambda>(rs, b). sg_root (seal H rs b)) fs = map (\<lambda>(rs, b). sg_root (seal H rs b)) fs'"
      using g(2) g'(2) \<open>sp = sp'\<close> by simp
    show "inj_on H ((\<lambda>(rs, b). sg_bytes (seal H rs b)) ` (set fs \<union> set fs'))"
      using assms(6) by (rule inj_on_subset) (auto simp: feed_inputs_def)
  qed
  ultimately show ?thesis by simp
qed

definition ex_hash :: hash_fn where
  "ex_hash x = take 32 (x @ replicate 32 0)"

text \<open>A node that received two records in the other order ends in the same head, and so holds the same feed.\<close>

definition ex_tail_hash :: hash_fn where
  "ex_tail_hash x = 1 # take 31 (rev x @ replicate 31 0)"

definition ex_feed :: "bool \<Rightarrow> (feed_record list \<times> u64) list" where
  "ex_feed swap = (let rs = [ex_reaction ''a'' 1 True, ex_reaction ''b'' 2 True] in [(if swap then rev rs else rs, 5)])"

definition ex_grown :: spine where
  "ex_grown = (case spine_grow ex_tail_hash [] (ex_feed False) of Inr sp \<Rightarrow> sp | Inl _ \<Rightarrow> [])"

lemma ex_grow: "spine_grow ex_tail_hash [] (ex_feed False) = Inr ex_grown" "spine_grow ex_tail_hash [] (ex_feed True) = Inr ex_grown"
  by code_simp+

theorem feed_roots_commit_witness:
  "spine_grow ex_tail_hash [] (ex_feed True) = Inr ex_grown \<and>
   feed_says ex_tail_hash (ex_feed False) = feed_says ex_tail_hash (ex_feed True) \<and> length ex_grown = 1"
proof -
  let ?X = "feed_inputs ex_tail_hash (ex_feed False) ex_grown \<union> feed_inputs ex_tail_hash (ex_feed True) ex_grown"
  have len: "length (ex_tail_hash x) = 32" for x by (simp add: ex_tail_hash_def)
  have "inj_on ex_tail_hash ?X" by code_simp
  moreover have "replicate 32 0 \<notin> ex_tail_hash ` ?X" by (auto simp: ex_tail_hash_def numeral_eq_Suc)
  moreover have "list_all (\<lambda>(rs, b). ok_counted ok_len (map fr_canonical rs)) (ex_feed False @ ex_feed True)"
    by (simp add: ex_feed_def ok_counted_def ok_len_def ex_reaction_def Let_def)
  ultimately have "feed_says ex_tail_hash (ex_feed False) = feed_says ex_tail_hash (ex_feed True)"
    using feed_roots_commit [OF len ex_grow refl] by blast
  moreover have "length ex_grown = 1" by code_simp
  ultimately show ?thesis using ex_grow(2) by blast
qed

text \<open>
  The target index.  After folding any sequence of sealed segments, the locations of a target
  are strictly sorted and are exactly the extents of the records attached to it (a record without
  target is attached to its own id), across all segments, however often and in whatever order the
  segments were added.
\<close>

theorem target_index_exact:
  "sorted_wrt (<) (locations (foldl (add_segment H) [] segs) t) \<and>
   set (locations (foldl (add_segment H) [] segs) t) =
     {(sg_root seg, off, len) | seg r a off len. seg \<in> set segs \<and>
        (r, a, off, len) \<in> set (zip (sg_records seg) (record_extents H seg)) \<and>
        (if fr_target r = [] then fr_id r else fr_target r) = t}"
  using index_of_segments [of H segs t] by (simp add: index_ok_def index_key_def)

end
