(* ===== verification/Feed_Checkpoint.thy ===== *)
theory Feed_Checkpoint
  imports Feed_Segment
begin

text \<open>
  Checkpoints of \<^verbatim>\<open>epix-feed/src/checkpoint.rs\<close> and the gallery rollup of \<^verbatim>\<open>rollup.rs\<close>: the live record
  set, the reaction balances, the sticky tombstones, the prev-linked history root and the per-item
  summary.  All of it is a function of the record set; the lemmas say which function.
\<close>

section \<open>Definitions\<close>

type_synonym reaction_map = "(string, reaction_counts) btree_map"

record checkpoint =
  ck_boundary :: u64
  ck_live :: "feed_record list"
  ck_reaction_counts :: reaction_map
  ck_tombstones :: "(string \<times> string) list"
  ck_history_root :: obj_id
  ck_root :: obj_id

definition is_tombstone :: "feed_record \<Rightarrow> bool" where
  "is_tombstone r \<longleftrightarrow> fr_kind r = Tombstone"

definition tombstoned_ids :: "feed_record list \<Rightarrow> (string \<times> string) list" where
  "tombstoned_ids rs = bs_collect (map (\<lambda>r. (fr_author r, fr_target r)) (filter is_tombstone rs))"

definition live_step ::
  "hash_fn \<Rightarrow> (string \<times> string) list \<Rightarrow> (string, feed_record) btree_map \<Rightarrow> feed_record \<Rightarrow> (string, feed_record) btree_map" where
  "live_step H tombs m r =
     (if is_reaction r \<or> is_tombstone r then m
      else if (fr_author r, fr_id r) \<in> set tombs then m
      else bt_upsert (identity r) (keep_newer H r) r m)"

definition live_records :: "hash_fn \<Rightarrow> feed_record list \<Rightarrow> (string \<times> string) list \<Rightarrow> feed_record list" where
  "live_records H rs tombs = canonical_order H (map snd (foldl (live_step H tombs) [] rs))"

definition lineage_step ::
  "hash_fn \<Rightarrow> (string, feed_record) btree_map \<Rightarrow> feed_record \<Rightarrow> (string, feed_record) btree_map" where
  "lineage_step H m r =
     (if \<not> is_reaction r then m else bt_upsert (lineage r) (keep_newer H r) r m)"

text \<open>\<open>*counts.entry(target).or_default().entry(kind).or_insert(0) += 1\<close>\<close>

definition balance_step :: "reaction_map \<Rightarrow> feed_record \<Rightarrow> reaction_map" where
  "balance_step m r =
     (case fr_kind r of
        Reaction k active \<Rightarrow>
          if active then bt_upsert (fr_target r) (bt_upsert k Suc 1) (bt_upsert k Suc 1 []) m else m
      | _ \<Rightarrow> m)"

definition in_scope :: "feed_record list \<Rightarrow> u64 \<Rightarrow> feed_record list" where
  "in_scope rs boundary =
     (if list_all (\<lambda>r. fr_clock r \<le> boundary) rs then rs
      else filter (\<lambda>r. fr_clock r \<le> boundary) rs)"

definition reaction_balances :: "hash_fn \<Rightarrow> feed_record list \<Rightarrow> reaction_map" where
  "reaction_balances H rs = foldl balance_step [] (map snd (foldl (lineage_step H) [] rs))"

definition state_bytes ::
  "hash_fn \<Rightarrow> feed_record list \<Rightarrow> reaction_map \<Rightarrow> (string \<times> string) list \<Rightarrow> bytes" where
  "state_bytes H live reactions tombs =
     le32 (as_u32 (length live)) @ concat (map (\<lambda>r. id_bytes (addr H r)) live) @
     le32 (as_u32 (length reactions)) @
     concat (map (\<lambda>(tgt, kinds).
       le32 (as_u32 (length tgt)) @ as_bytes tgt @ le32 (as_u32 (length kinds)) @
       concat (map (\<lambda>(k, v). le32 (as_u32 (length k)) @ as_bytes k @ le64 (as_u64 v)) kinds)) reactions) @
     le32 (as_u32 (length tombs)) @
     concat (map (\<lambda>(a, t).
       le32 (as_u32 (length a)) @ as_bytes a @ le32 (as_u32 (length t)) @ as_bytes t) tombs)"

definition state_digest ::
  "hash_fn \<Rightarrow> feed_record list \<Rightarrow> reaction_map \<Rightarrow> (string \<times> string) list \<Rightarrow> obj_id" where
  "state_digest H live reactions tombs = ObjId_of H (state_bytes H live reactions tombs)"

definition history_material :: "obj_id \<Rightarrow> u64 \<Rightarrow> obj_id \<Rightarrow> bytes" where
  "history_material prev boundary digest =
     as_bytes ''EDXHIST1'' @ id_bytes prev @ le64 boundary @ id_bytes digest"

definition compute_history_root ::
  "hash_fn \<Rightarrow> obj_id \<Rightarrow> u64 \<Rightarrow> feed_record list \<Rightarrow> reaction_map \<Rightarrow> (string \<times> string) list \<Rightarrow> obj_id" where
  "compute_history_root H prev boundary live reactions tombs =
     ObjId_of H (history_material prev boundary (state_digest H live reactions tombs))"

definition compute_root ::
  "hash_fn \<Rightarrow> u64 \<Rightarrow> obj_id \<Rightarrow> feed_record list \<Rightarrow> reaction_map \<Rightarrow> (string \<times> string) list \<Rightarrow> obj_id" where
  "compute_root H boundary history_root live reactions tombs =
     ObjId_of H (as_bytes ''EDXCKPT1'' @ le64 boundary @ id_bytes history_root @
       id_bytes (state_digest H live reactions tombs))"

definition checkpoint_compute :: "hash_fn \<Rightarrow> feed_record list \<Rightarrow> u64 \<Rightarrow> obj_id \<Rightarrow> checkpoint" where
  "checkpoint_compute H rs boundary prev_history =
     (let scope = in_scope rs boundary;
          tombs = tombstoned_ids scope;
          live = live_records H scope tombs;
          counts = reaction_balances H scope;
          hist = compute_history_root H prev_history boundary live counts tombs
      in \<lparr>ck_boundary = boundary, ck_live = live, ck_reaction_counts = counts, ck_tombstones = tombs,
          ck_history_root = hist, ck_root = compute_root H boundary hist live counts tombs\<rparr>)"

definition extends :: "hash_fn \<Rightarrow> checkpoint \<Rightarrow> checkpoint \<Rightarrow> bool" where
  "extends H self prev =
     (if ck_boundary self \<le> ck_boundary prev then False
      else compute_history_root H (ck_history_root prev) (ck_boundary self) (ck_live self)
             (ck_reaction_counts self) (ck_tombstones self) = ck_history_root self)"

subsection \<open>Rollup\<close>

record item_summary =
  is_comment_count :: nat
  is_reactions :: reaction_counts
  is_newest_clock :: u64

type_synonym rollup = "(string, item_summary) btree_map"

definition summarize :: "hash_fn \<Rightarrow> feed_record list \<Rightarrow> feed_record list \<Rightarrow> string \<Rightarrow> item_summary" where
  "summarize H live rs item =
     \<lparr>is_comment_count = length (filter (\<lambda>r. fr_target r = item \<and> fr_kind r = Comment) live),
      is_reactions = reaction_count H rs item,
      is_newest_clock = fold max (map fr_clock (filter (\<lambda>r. fr_target r = item) rs)) 0\<rparr>"

definition rollup_compute :: "hash_fn \<Rightarrow> string list \<Rightarrow> feed_record list \<Rightarrow> rollup" where
  "rollup_compute H items rs =
     (let tombs = tombstoned_ids rs;
          live = live_records H rs tombs
      in foldl (\<lambda>m item. bt_insert item (summarize H live rs item) m) [] items)"

definition rollup_get :: "rollup \<Rightarrow> string \<Rightarrow> item_summary option" where
  "rollup_get m item = map_of m item"

definition rollup_serialize :: "rollup \<Rightarrow> bytes" where
  "rollup_serialize m =
     as_bytes ''EDXROLL1'' @ le32 (as_u32 (length m)) @
     concat (map (\<lambda>(item, s).
       le32 (as_u32 (length item)) @ as_bytes item @ le64 (as_u64 (is_comment_count s)) @
       le64 (is_newest_clock s) @
       (let kinds = sort (is_reactions s) in
        le32 (as_u32 (length kinds)) @
        concat (map (\<lambda>(k, v). le32 (as_u32 (length k)) @ as_bytes k @ le64 (as_u64 v)) kinds))) m)"

definition rollup_root :: "hash_fn \<Rightarrow> rollup \<Rightarrow> obj_id" where
  "rollup_root H m = ObjId_of H (rollup_serialize m)"

section \<open>The folds\<close>

interpretation live: lww_fold
  "\<lambda>r. \<not> is_reaction r \<and> \<not> is_tombstone r \<and> (fr_author r, fr_id r) \<notin> set tombs"
  identity "order_key H" "live_step H tombs" for H tombs
  by unfold_locales (auto simp: live_step_def keep_newer_def split: option.split)

interpretation bal: lww_fold is_reaction lineage "order_key H" "lineage_step H" for H
  by unfold_locales (auto simp: lineage_step_def keep_newer_def split: option.split)

lemma in_scope_filter: "in_scope rs b = filter (\<lambda>r. fr_clock r \<le> b) rs"
  by (auto simp: in_scope_def list_all_iff filter_id_conv)

lemma set_tombstoned_ids:
  "set (tombstoned_ids rs) = {(fr_author r, fr_target r) | r. r \<in> set rs \<and> is_tombstone r}"
  by (auto simp: tombstoned_ids_def)

lemma tombstoned_ids_cong: "set rs = set rs' \<Longrightarrow> tombstoned_ids rs = tombstoned_ids rs'"
  unfolding tombstoned_ids_def by (rule bs_collect_cong) auto

lemma live_records_winners:
  "live_records H rs tombs = canonical_order H (map snd (live.winners H tombs rs))"
  by (simp add: live_records_def live.winners_def)

lemma live_records_cong:
  assumes "set rs = set rs'" "inj_on (order_key H) (set rs)"
  shows "live_records H rs tombs = live_records H rs' tombs"
proof -
  have "live.winners H tombs rs = live.winners H tombs rs'"
    using assms(1) by (rule live.winners_cong) (rule inj_on_subset [OF assms(2)], auto)
  then show ?thesis by (simp add: live_records_winners)
qed

lemma live_records_iff:
  assumes "inj_on (order_key H) (set rs)"
  shows "r \<in> set (live_records H rs tombs) \<longleftrightarrow>
    r \<in> set rs \<and> \<not> is_reaction r \<and> \<not> is_tombstone r \<and> (fr_author r, fr_id r) \<notin> set tombs \<and>
    (\<forall>r' \<in> set rs. \<not> is_reaction r' \<longrightarrow> \<not> is_tombstone r' \<longrightarrow> (fr_author r', fr_id r') \<notin> set tombs \<longrightarrow>
       identity r' = identity r \<longrightarrow> order_key H r' \<le> order_key H r)"
proof -
  have inj: "inj_on (order_key H) {r \<in> set rs. \<not> is_reaction r \<and> \<not> is_tombstone r \<and> (fr_author r, fr_id r) \<notin> set tombs}"
    by (rule inj_on_subset [OF assms]) auto
  have "r \<in> set (live_records H rs tombs) \<longleftrightarrow> r \<in> snd ` set (live.winners H tombs rs)"
    by (simp add: live_records_winners)
  also have "\<dots> \<longleftrightarrow> map_of (live.winners H tombs rs) (identity r) = Some r"
    by (rule live.winners_values)
  finally show ?thesis using live.winners_iff [OF inj, of "identity r" r] by auto
qed

lemma distinct_live_records: "distinct (live_records H rs tombs)"
  by (simp add: live_records_winners canonical_order_def live.winners_distinct_values)

section \<open>Balances\<close>

text \<open>The count a balance map holds for a target and a kind.\<close>

definition balance_of :: "reaction_map \<Rightarrow> string \<Rightarrow> string \<Rightarrow> nat" where
  "balance_of m t k = (case map_of m t of None \<Rightarrow> 0 | Some c \<Rightarrow> rc_of c k)"

lemma rc_of_upsert: "rc_of (bt_upsert k Suc (Suc 0) c) j = rc_of c j + (if j = k then 1 else 0)"
  by (auto simp: rc_of_def split: option.split)

lemma rc_of_Nil [simp]: "rc_of [] k = 0"
  by (simp add: rc_of_def)

lemma balance_step_of:
  "balance_of (balance_step m r) t k =
     balance_of m t k + (if fr_target r = t \<and> active_kind k r then 1 else 0)"
  by (auto simp: balance_step_def balance_of_def active_kind_def rc_of_upsert
      split: kind.split option.split)

lemma balances_of:
  "balance_of (foldl balance_step m ws) t k =
     balance_of m t k + length (filter (\<lambda>r. fr_target r = t \<and> active_kind k r) ws)"
  by (induction ws arbitrary: m) (auto simp: balance_step_of)

lemma reaction_balances_winners:
  "reaction_balances H rs = foldl balance_step [] (map snd (bal.winners H rs))"
  by (simp add: reaction_balances_def bal.winners_def)

lemma reaction_balances_cong:
  assumes "set rs = set rs'" "inj_on (order_key H) (set rs)"
  shows "reaction_balances H rs = reaction_balances H rs'"
proof -
  have "bal.winners H rs = bal.winners H rs'"
    using assms(1) by (rule bal.winners_cong) (rule inj_on_subset [OF assms(2)], auto)
  then show ?thesis by (simp add: reaction_balances_winners)
qed

text \<open>
  Without the separator byte in authors and targets, lineages of different targets differ, so the
  one-pass fold of the checkpoint keeps the same winners as the per-target fold.
\<close>

definition sep_free :: "feed_record list \<Rightarrow> bool" where
  "sep_free rs \<longleftrightarrow> (\<forall>r \<in> set rs. sep \<notin> set (fr_author r) \<and> sep \<notin> set (fr_target r))"

lemma balance_winner_iff:
  assumes "sep_free rs" "inj_on (order_key H) (set rs)" "fr_target w = t" "is_reaction w"
  shows "w \<in> snd ` set (bal.winners H rs) \<longleftrightarrow> w \<in> winner_set H rs t"
proof -
  have inj: "inj_on (order_key H) {r \<in> set rs. P r}" for P
    by (rule inj_on_subset [OF assms(2)]) auto
  have same: "fr_target r = t" if "r \<in> set rs" "w \<in> set rs" "lineage r = lineage w" for r
    using that assms(1,3) lineage_key_inject3 [of "fr_author r" "fr_author w" "fr_target r" "fr_target w"]
    by (auto simp: sep_free_def lineage_def)
  have "w \<in> snd ` set (bal.winners H rs) \<longleftrightarrow>
    w \<in> set rs \<and> (\<forall>r \<in> set rs. is_reaction r \<longrightarrow> lineage r = lineage w \<longrightarrow> order_key H r \<le> order_key H w)"
    using bal.winners_values [of w H rs] bal.winners_iff [OF inj [of is_reaction], of "lineage w" w] assms(4)
    by simp
  also have "\<dots> \<longleftrightarrow> w \<in> set rs \<and> (\<forall>r \<in> set rs. fr_target r = t \<and> is_reaction r \<longrightarrow>
    lineage r = lineage w \<longrightarrow> order_key H r \<le> order_key H w)"
    using same by blast
  also have "\<dots> \<longleftrightarrow> w \<in> winner_set H rs t"
    using react.winners_iff [OF inj [of "\<lambda>r. fr_target r = t \<and> is_reaction r"], of "lineage w" w] assms(3,4)
    by (simp add: winner_set_iff fold_lineages_winners)
  finally show ?thesis .
qed

lemma balance_of_count:
  assumes "sep_free rs" "inj_on (order_key H) (set rs)"
  shows "balance_of (reaction_balances H rs) t k = rc_of (reaction_count H rs t) k"
proof -
  let ?B = "filter (\<lambda>r. fr_target r = t \<and> active_kind k r) (map snd (bal.winners H rs))"
  let ?R = "filter (active_kind k) (map snd (fold_lineages H rs t))"
  have "set ?B = set ?R"
  proof (intro set_eqI)
    fix w
    have "active_kind k w \<Longrightarrow> is_reaction w" by (simp add: active_kind_def is_reaction_def)
    then show "w \<in> set ?B \<longleftrightarrow> w \<in> set ?R"
      using balance_winner_iff [OF assms, of w t] winner_setD(2) [of w H rs t]
      by (auto simp: winner_set_def)
  qed
  moreover have "distinct ?B" "distinct ?R"
    by (auto intro!: distinct_filter simp: bal.winners_distinct_values react.winners_distinct_values fold_lineages_winners)
  ultimately have "length ?B = length ?R" by (metis distinct_card)
  then show ?thesis
    unfolding reaction_count_of reaction_balances_winners balances_of by (simp add: balance_of_def)
qed

section \<open>Commitments\<close>

interpretation cid: prefix_code id_bytes "\<lambda>i. length (id_bytes i) = 32"
  by (rule prefix_code_fixed) (auto intro: obj_id.expand)

definition enc_kinds :: "reaction_counts \<Rightarrow> bytes" where
  "enc_kinds = enc_counted (\<lambda>p. enc_str (fst p) @ enc_u64_nat (snd p))"

definition ok_kinds :: "reaction_counts \<Rightarrow> bool" where
  "ok_kinds = ok_counted (\<lambda>p. ok_len (fst p) \<and> snd p < 2 ^ 64)"

definition enc_reactions :: "reaction_map \<Rightarrow> bytes" where
  "enc_reactions = enc_counted (\<lambda>p. enc_str (fst p) @ enc_kinds (snd p))"

definition ok_reactions :: "reaction_map \<Rightarrow> bool" where
  "ok_reactions = ok_counted (\<lambda>p. ok_len (fst p) \<and> ok_kinds (snd p))"

definition enc_tombs :: "(string \<times> string) list \<Rightarrow> bytes" where
  "enc_tombs = enc_counted (\<lambda>p. enc_str (fst p) @ enc_str (snd p))"

definition ok_tombs :: "(string \<times> string) list \<Rightarrow> bool" where
  "ok_tombs = ok_counted (\<lambda>p. ok_len (fst p) \<and> ok_len (snd p))"

interpretation ckinds: prefix_code enc_kinds ok_kinds
  unfolding enc_kinds_def ok_kinds_def
  by (intro prefix_code_counted prefix_code_pair cstr.prefix_code_axioms cnat.prefix_code_axioms)

interpretation creact: prefix_code enc_reactions ok_reactions
  unfolding enc_reactions_def ok_reactions_def
  by (intro prefix_code_counted prefix_code_pair cstr.prefix_code_axioms ckinds.prefix_code_axioms)

interpretation ctombs: prefix_code enc_tombs ok_tombs
  unfolding enc_tombs_def ok_tombs_def
  by (intro prefix_code_counted prefix_code_pair cstr.prefix_code_axioms)

interpretation cids: prefix_code "enc_counted id_bytes" "ok_counted (\<lambda>i. length (id_bytes i) = 32)"
  by (intro prefix_code_counted cid.prefix_code_axioms)

lemma state_bytes_enc:
  "state_bytes H live reactions tombs =
     enc_counted id_bytes (map (addr H) live) @ enc_reactions reactions @ enc_tombs tombs"
  by (simp add: state_bytes_def enc_counted_def enc_reactions_def enc_kinds_def enc_tombs_def enc_str_def
      enc_u64_nat_def case_prod_unfold comp_def)

text \<open>Sizes below which the length prefixes do not wrap.\<close>

definition state_sizes_ok :: "hash_fn \<Rightarrow> feed_record list \<Rightarrow> reaction_map \<Rightarrow> (string \<times> string) list \<Rightarrow> bool" where
  "state_sizes_ok H live reactions tombs \<longleftrightarrow>
     length live < 2 ^ 32 \<and> (\<forall>r \<in> set live. length (id_bytes (addr H r)) = 32) \<and>
     ok_reactions reactions \<and> ok_tombs tombs"

lemma state_bytes_inject:
  assumes "state_sizes_ok H l r t" "state_sizes_ok H l' r' t'"
    and "state_bytes H l r t = state_bytes H l' r' t'"
  shows "map (addr H) l = map (addr H) l' \<and> r = r' \<and> t = t'"
proof -
  have "map (addr H) l = map (addr H) l' \<and>
    enc_reactions r @ enc_tombs t @ [] = enc_reactions r' @ enc_tombs t' @ []"
    using assms by (intro cids.enc_inject) (auto simp: state_sizes_ok_def ok_counted_def state_bytes_enc)
  then show ?thesis
    using assms(1,2) creact.enc_inject [of r r' "enc_tombs t @ []" "enc_tombs t' @ []"]
      ctombs.enc_inject [of t t' "[]" "[]"] by (simp add: state_sizes_ok_def)
qed

lemma history_material_inject:
  assumes "length (id_bytes p) = 32" "length (id_bytes q) = 32"
    and "history_material p b d = history_material q c e"
  shows "p = q \<and> b = c \<and> d = e"
  using assms by (auto simp: history_material_def append_eq_same_length intro: obj_id.expand)

lemma checkpoint_sel:
  "ck_boundary (checkpoint_compute H rs b p) = b"
  "ck_tombstones (checkpoint_compute H rs b p) = tombstoned_ids (in_scope rs b)"
  "ck_live (checkpoint_compute H rs b p) = live_records H (in_scope rs b) (tombstoned_ids (in_scope rs b))"
  "ck_reaction_counts (checkpoint_compute H rs b p) = reaction_balances H (in_scope rs b)"
  "ck_history_root (checkpoint_compute H rs b p) =
     compute_history_root H p b (ck_live (checkpoint_compute H rs b p))
       (ck_reaction_counts (checkpoint_compute H rs b p)) (ck_tombstones (checkpoint_compute H rs b p))"
  by (simp_all add: checkpoint_compute_def Let_def)

section \<open>Properties\<close>

text \<open>
  A checkpoint is a function of the record set: two nodes whose record lists have the same
  elements, in any order and with any repetitions, compute the identical checkpoint (live set,
  balances, tombstones, history root and content root), provided no two distinct records share an
  order key.
\<close>

theorem checkpoint_set_determined:
  assumes "set rs = set rs'" and "inj_on (order_key H) (set rs)"
  shows "checkpoint_compute H rs b prev = checkpoint_compute H rs' b prev"
proof -
  have scope: "set (in_scope rs b) = set (in_scope rs' b)" using assms(1) by (simp add: in_scope_filter)
  have inj: "inj_on (order_key H) (set (in_scope rs b))"
    using assms(2) by (rule inj_on_subset) (auto simp: in_scope_filter)
  show ?thesis
    unfolding checkpoint_compute_def Let_def tombstoned_ids_cong [OF scope]
      live_records_cong [OF scope inj] reaction_balances_cong [OF scope inj] ..
qed

definition ex_post :: "string \<Rightarrow> string \<Rightarrow> nat \<Rightarrow> feed_record" where
  "ex_post a i n =
     \<lparr>fr_canonical = [word_of_nat n], fr_id = i, fr_author = a, fr_target = [],
      fr_clock = word_of_nat n, fr_kind = Post\<rparr>"

definition ex_tomb :: "string \<Rightarrow> string \<Rightarrow> nat \<Rightarrow> feed_record" where
  "ex_tomb a t n =
     \<lparr>fr_canonical = [word_of_nat n], fr_id = ''t'', fr_author = a, fr_target = t,
      fr_clock = word_of_nat n, fr_kind = Tombstone\<rparr>"

theorem checkpoint_set_determined_witness:
  "checkpoint_compute id [ex_post ''a'' ''x'' 1, ex_tomb ''a'' ''x'' 2, ex_post ''a'' ''x'' 1] 9 zero_id =
   checkpoint_compute id [ex_tomb ''a'' ''x'' 2, ex_post ''a'' ''x'' 1] 9 zero_id \<and>
   ck_tombstones (checkpoint_compute id [ex_tomb ''a'' ''x'' 2, ex_post ''a'' ''x'' 1] 9 zero_id) = [(''a'', ''x'')]"
  using checkpoint_set_determined
    [of "[ex_post ''a'' ''x'' 1, ex_tomb ''a'' ''x'' 2, ex_post ''a'' ''x'' 1]"
        "[ex_tomb ''a'' ''x'' 2, ex_post ''a'' ''x'' 1]" id 9 zero_id]
  by (auto simp: ex_post_def ex_tomb_def order_key_def inj_on_def checkpoint_sel in_scope_filter
      tombstoned_ids_def is_tombstone_def bs_collect_def)

text \<open>
  The live set is exact: a record is live in a checkpoint iff it is in scope, is a post or a
  comment, its item is not tombstoned, and no other such record of the same identity has a higher
  order key; the list is duplicate-free and in canonical order.
\<close>

theorem checkpoint_live_exact:
  assumes "inj_on (order_key H) (set rs)"
  shows "distinct (ck_live (checkpoint_compute H rs b prev)) \<and>
    sorted (map (order_key H) (ck_live (checkpoint_compute H rs b prev))) \<and>
    (r \<in> set (ck_live (checkpoint_compute H rs b prev)) \<longleftrightarrow>
      r \<in> set rs \<and> fr_clock r \<le> b \<and> (fr_kind r = Post \<or> fr_kind r = Comment) \<and>
      (fr_author r, fr_id r) \<notin> set (ck_tombstones (checkpoint_compute H rs b prev)) \<and>
      (\<forall>r' \<in> set rs. fr_clock r' \<le> b \<longrightarrow> fr_kind r' = Post \<or> fr_kind r' = Comment \<longrightarrow>
         (fr_author r', fr_id r') \<notin> set (ck_tombstones (checkpoint_compute H rs b prev)) \<longrightarrow>
         identity r' = identity r \<longrightarrow> order_key H r' \<le> order_key H r))"
proof -
  have inj: "inj_on (order_key H) (set (in_scope rs b))"
    using assms by (rule inj_on_subset) (auto simp: in_scope_filter)
  have kinds: "\<not> is_reaction x \<and> \<not> is_tombstone x \<longleftrightarrow> fr_kind x = Post \<or> fr_kind x = Comment" for x
    by (auto simp: is_reaction_def is_tombstone_def split: kind.splits)
  have "sorted (map (order_key H) (live_records H (in_scope rs b) tombs))" for tombs
    by (simp add: live_records_def canonical_order_sorted)
  then show ?thesis
    unfolding checkpoint_sel live_records_iff [OF inj]
    using kinds distinct_live_records by (simp add: in_scope_filter) blast
qed

theorem checkpoint_live_exact_witness:
  "map fr_clock (ck_live (checkpoint_compute id [ex_post ''a'' ''x'' 1, ex_post ''a'' ''x'' 3, ex_post ''b'' ''x'' 2] 9 zero_id)) = [2, 3] \<and>
   distinct (ck_live (checkpoint_compute id [ex_post ''a'' ''x'' 1, ex_post ''a'' ''x'' 3, ex_post ''b'' ''x'' 2] 9 zero_id))"
proof -
  let ?rs = "[ex_post ''a'' ''x'' 1, ex_post ''a'' ''x'' 3, ex_post ''b'' ''x'' 2]"
  have "map fr_clock (live_records id (in_scope ?rs 9) (tombstoned_ids (in_scope ?rs 9))) = [2, 3]"
    by code_simp
  moreover have "inj_on (order_key id) (set ?rs)"
    by (auto simp: ex_post_def order_key_def inj_on_def)
  ultimately show ?thesis using checkpoint_live_exact [of id ?rs 9 zero_id] by (simp add: checkpoint_sel)
qed

text \<open>
  C21. Tombstones are sticky.  When the record set only grows and the boundary does not move back,
  every tombstone of the earlier checkpoint is a tombstone of the later one, and no live record of
  the later checkpoint belongs to an item tombstoned in the earlier one, whatever clock a
  re-introduced or newer version of the item carries.
\<close>

theorem tombstones_sticky:
  assumes "set rs \<subseteq> set rs'" "b \<le> b'" "inj_on (order_key H) (set rs')"
    and "(a, i) \<in> set (ck_tombstones (checkpoint_compute H rs b prev))"
  shows "(a, i) \<in> set (ck_tombstones (checkpoint_compute H rs' b' prev')) \<and>
    \<not> (\<exists>r \<in> set (ck_live (checkpoint_compute H rs' b' prev')). fr_author r = a \<and> fr_id r = i)"
proof -
  have t: "(a, i) \<in> set (tombstoned_ids (in_scope rs' b'))"
    using assms by (fastforce simp: checkpoint_sel set_tombstoned_ids in_scope_filter)
  have "inj_on (order_key H) (set (in_scope rs' b'))"
    using assms(3) by (rule inj_on_subset) (auto simp: in_scope_filter)
  from live_records_iff [OF this] t show ?thesis by (auto simp: checkpoint_sel)
qed

theorem tombstones_sticky_witness:
  "\<not> (\<exists>r \<in> set (ck_live (checkpoint_compute id [ex_tomb ''a'' ''x'' 2, ex_post ''a'' ''x'' 7] 9 zero_id)).
       fr_author r = ''a'' \<and> fr_id r = ''x'')"
proof -
  have "(''a'', ''x'') \<in> set (ck_tombstones (checkpoint_compute id [ex_tomb ''a'' ''x'' 2] 3 zero_id))"
    by (simp add: checkpoint_sel in_scope_filter set_tombstoned_ids ex_tomb_def is_tombstone_def)
  moreover have "inj_on (order_key id) (set [ex_tomb ''a'' ''x'' 2, ex_post ''a'' ''x'' 7])"
    by (auto simp: ex_post_def ex_tomb_def order_key_def inj_on_def)
  ultimately show ?thesis
    using tombstones_sticky [of "[ex_tomb ''a'' ''x'' 2]" "[ex_tomb ''a'' ''x'' 2, ex_post ''a'' ''x'' 7]" 3 9 id
        "''a''" "''x''" zero_id zero_id] by simp
qed

text \<open>
  The one-pass balances of a checkpoint agree with the per-target reaction fold: the count it
  carries for a target and kind is the one \<open>reactions::count\<close> computes from the records in scope,
  when neither authors nor targets contain the separator byte.
\<close>

theorem checkpoint_balances_exact:
  assumes "sep_free rs" "inj_on (order_key H) (set rs)"
  shows "balance_of (ck_reaction_counts (checkpoint_compute H rs b prev)) t k =
    rc_of (reaction_count H (in_scope rs b) t) k"
proof -
  have "sep_free (in_scope rs b)" using assms(1) by (simp add: sep_free_def in_scope_filter)
  moreover have "inj_on (order_key H) (set (in_scope rs b))"
    using assms(2) by (rule inj_on_subset) (auto simp: in_scope_filter)
  ultimately show ?thesis unfolding checkpoint_sel by (rule balance_of_count)
qed

theorem checkpoint_balances_exact_witness:
  "balance_of (ck_reaction_counts (checkpoint_compute id [ex_reaction ''a'' 1 True, ex_reaction ''b'' 2 True] 9 zero_id)) ''p'' ''like'' = 2"
proof -
  let ?rs = "[ex_reaction ''a'' 1 True, ex_reaction ''b'' 2 True]"
  have "rc_of (reaction_count id (in_scope ?rs 9) ''p'') ''like'' = 2" by code_simp
  moreover have "sep_free ?rs" by code_simp
  moreover have "inj_on (order_key id) (set ?rs)"
    by (auto simp: ex_reaction_def order_key_def inj_on_def)
  ultimately show ?thesis using checkpoint_balances_exact [of ?rs id 9 zero_id "''p''" "''like''"] by simp
qed

definition collide_1 :: feed_record where
  "collide_1 = \<lparr>fr_canonical = [1], fr_id = ''r'', fr_author = ''u'', fr_target = ''a'',
     fr_clock = 1, fr_kind = Reaction (''b'' @ [sep] @ ''k'') True\<rparr>"

definition collide_2 :: feed_record where
  "collide_2 = \<lparr>fr_canonical = [2], fr_id = ''s'', fr_author = ''u'', fr_target = ''a'' @ [sep] @ ''b'',
     fr_clock = 2, fr_kind = Reaction ''k'' True\<rparr>"

text \<open>
  The separator matters: with a separator byte inside a target the two folds differ.  One author
  reacts with kind \<open>b\<close> + separator + \<open>k\<close> to target \<open>a\<close> and with kind \<open>k\<close> to target \<open>a\<close> + separator + \<open>b\<close>;
  both records have the same lineage string, so the checkpoint keeps only the later one and its
  balance for the first target is 0, where the per-target count is 1.
\<close>

theorem checkpoint_balances_collision:
  "balance_of (ck_reaction_counts (checkpoint_compute id [collide_1, collide_2] 9 zero_id)) ''a'' (''b'' @ [sep] @ ''k'') = 0 \<and>
   rc_of (reaction_count id (in_scope [collide_1, collide_2] 9) ''a'') (''b'' @ [sep] @ ''k'') = 1"
proof
  have "balance_of (reaction_balances id (in_scope [collide_1, collide_2] 9)) ''a'' (''b'' @ [sep] @ ''k'') = 0"
    by code_simp
  then show "balance_of (ck_reaction_counts (checkpoint_compute id [collide_1, collide_2] 9 zero_id)) ''a'' (''b'' @ [sep] @ ''k'') = 0"
    by (simp only: checkpoint_sel)
  show "rc_of (reaction_count id (in_scope [collide_1, collide_2] 9) ''a'') (''b'' @ [sep] @ ''k'') = 1"
    by code_simp
qed

text \<open>
  The checkpoint chain.  A checkpoint computed on top of \<open>prev\<close> extends it iff its boundary is
  later, and a checkpoint pins its predecessor: if it extends two checkpoints, their history roots
  are the same, given 32-byte history roots and no hash collision between the two linked strings.
\<close>

theorem checkpoint_chain:
  assumes "extends H c p" "extends H c q"
    and "length (id_bytes (ck_history_root p)) = 32" "length (id_bytes (ck_history_root q)) = 32"
    and "inj_on H {history_material (ck_history_root x) (ck_boundary c)
           (state_digest H (ck_live c) (ck_reaction_counts c) (ck_tombstones c)) | x. x \<in> {p, q}}"
  shows "ck_history_root p = ck_history_root q \<and> ck_boundary p < ck_boundary c \<and>
    (extends H (checkpoint_compute H rs b (ck_history_root p)) p \<longleftrightarrow> ck_boundary p < b)"
proof -
  let ?d = "state_digest H (ck_live c) (ck_reaction_counts c) (ck_tombstones c)"
  let ?m = "\<lambda>x. history_material (ck_history_root x) (ck_boundary c) ?d"
  have "H (?m p) = H (?m q)"
    using assms(1,2) unfolding extends_def compute_history_root_def ObjId_of_def
    by (metis obj_id.inject)
  moreover have "?m p \<in> {?m x | x. x \<in> {p, q}}" "?m q \<in> {?m x | x. x \<in> {p, q}}" by blast+
  ultimately have "?m p = ?m q" by (rule inj_onD [OF assms(5)])
  then have "ck_history_root p = ck_history_root q"
    using history_material_inject [OF assms(3,4)] by blast
  moreover have "ck_boundary p < ck_boundary c"
    using assms(1) by (auto simp: extends_def split: if_splits)
  moreover have "extends H (checkpoint_compute H rs b (ck_history_root p)) p \<longleftrightarrow> ck_boundary p < b"
    unfolding extends_def checkpoint_sel(5) by (auto simp: checkpoint_sel(1) not_le)
  ultimately show ?thesis by blast
qed

theorem checkpoint_chain_witness:
  "let p = checkpoint_compute ex_hash [] 3 zero_id; c = checkpoint_compute ex_hash [] 5 (ck_history_root p)
   in extends ex_hash c p \<and> ck_boundary p < ck_boundary c"
proof -
  define p where "p = checkpoint_compute ex_hash [] 3 zero_id"
  define c where "c = checkpoint_compute ex_hash [] 5 (ck_history_root p)"
  have "ck_boundary p = 3" by (simp add: p_def checkpoint_sel)
  then have ext: "extends ex_hash c p"
    unfolding extends_def c_def checkpoint_sel(5) by (simp add: checkpoint_sel(1))
  have len: "length (id_bytes (ck_history_root p)) = 32"
    by (simp add: p_def checkpoint_sel(5) compute_history_root_def ObjId_of_def ex_hash_def)
  have "ck_boundary p < ck_boundary c"
    using checkpoint_chain [OF ext ext len len] by simp
  with ext show ?thesis by (simp add: p_def c_def Let_def)
qed

text \<open>
  The digest of a checkpoint commits to its whole state: if two states within the size limits of
  the 32-bit length prefixes have the same digest and the hash does not collide on their two
  serializations, they have the same live record addresses, the same balances and the same
  tombstones.
\<close>

theorem state_digest_commits:
  assumes "state_sizes_ok H l r t" "state_sizes_ok H l' r' t'"
    and "state_digest H l r t = state_digest H l' r' t'"
    and "inj_on H {state_bytes H l r t, state_bytes H l' r' t'}"
  shows "map (addr H) l = map (addr H) l' \<and> r = r' \<and> t = t'"
proof -
  have "H (state_bytes H l r t) = H (state_bytes H l' r' t')"
    using assms(3) by (simp add: state_digest_def ObjId_of_def)
  then have "state_bytes H l r t = state_bytes H l' r' t'"
    by (rule inj_onD [OF assms(4)]) simp_all
  with assms(1,2) show ?thesis by (rule state_bytes_inject)
qed

theorem state_digest_commits_witness:
  "state_sizes_ok ex_hash [ex_post ''a'' ''x'' 1] [(''p'', [(''like'', 2)])] [(''a'', ''y'')] \<and>
   map (addr ex_hash) [ex_post ''a'' ''x'' 1] = map (addr ex_hash) [ex_post ''a'' ''x'' 1]"
proof -
  have "state_sizes_ok ex_hash [ex_post ''a'' ''x'' 1] [(''p'', [(''like'', 2)])] [(''a'', ''y'')]"
    by (simp add: state_sizes_ok_def addr_def ObjId_of_def ex_hash_def ok_reactions_def ok_kinds_def
        ok_tombs_def ok_counted_def ok_len_def)
  with state_digest_commits [OF this this refl] show ?thesis by simp
qed

lemma rollup_fold_get:
  "map_of (foldl (\<lambda>m item. bt_insert item (f item) m) m0 items) x =
     (if x \<in> set items then Some (f x) else map_of m0 x)"
  by (induction items arbitrary: m0) auto

lemma fold_max_ge: "(a :: 'a::linorder) \<le> fold max xs a"
  by (induction xs arbitrary: a) (auto intro: order_trans [OF max.cobounded2])

lemma fold_max_bound: "(x :: 'a::linorder) \<in> set xs \<Longrightarrow> x \<le> fold max xs a"
  by (induction xs arbitrary: a) (auto intro: order_trans [OF max.cobounded1 fold_max_ge])

text \<open>
  The gallery rollup never disagrees with the checkpoint: over a record set within the boundary,
  the summary of every requested item counts exactly the live comments the checkpoint holds for it,
  its reaction counts are the checkpoint's balances, and the newest clock is an upper bound of the
  clocks on the item; items not requested have no summary.
\<close>

theorem rollup_agrees_with_checkpoint:
  assumes "sep_free rs" "inj_on (order_key H) (set rs)" "\<forall>r \<in> set rs. fr_clock r \<le> b"
  shows "case rollup_get (rollup_compute H items rs) x of
      None \<Rightarrow> x \<notin> set items
    | Some s \<Rightarrow> x \<in> set items \<and>
        is_comment_count s = length (filter (\<lambda>r. fr_target r = x \<and> fr_kind r = Comment)
          (ck_live (checkpoint_compute H rs b prev))) \<and>
        (\<forall>k. rc_of (is_reactions s) k = balance_of (ck_reaction_counts (checkpoint_compute H rs b prev)) x k) \<and>
        (\<forall>r \<in> set rs. fr_target r = x \<longrightarrow> fr_clock r \<le> is_newest_clock s)"
proof -
  have scope: "in_scope rs b = rs" using assms(3) by (simp add: in_scope_filter filter_id_conv)
  show ?thesis
    using balance_of_count [OF assms(1,2)]
    by (auto simp: rollup_get_def rollup_compute_def Let_def rollup_fold_get summarize_def checkpoint_sel scope
        intro!: fold_max_bound)
qed

theorem rollup_agrees_with_checkpoint_witness:
  "rollup_get (rollup_compute id [''p''] [ex_reaction ''a'' 1 True]) ''q'' = None \<and>
   (\<exists>s. rollup_get (rollup_compute id [''p''] [ex_reaction ''a'' 1 True]) ''p'' = Some s \<and> rc_of (is_reactions s) ''like'' = 1)"
proof -
  let ?rs = "[ex_reaction ''a'' 1 True]"
  have hyp: "sep_free ?rs" "inj_on (order_key id) (set ?rs)" "\<forall>r \<in> set ?rs. fr_clock r \<le> 9"
    by code_simp (simp_all add: ex_reaction_def)
  have "balance_of (ck_reaction_counts (checkpoint_compute id ?rs 9 zero_id)) ''p'' ''like'' = 1"
    unfolding checkpoint_sel by code_simp
  then show ?thesis
    using rollup_agrees_with_checkpoint [OF hyp, where items = "[''p'']" and x = "''p''" and prev = zero_id]
      rollup_agrees_with_checkpoint [OF hyp, where items = "[''p'']" and x = "''q''" and prev = zero_id]
    by (auto split: option.splits)
qed

end
