(* ===== verification/Rust_Str.thy ===== *)
theory Rust_Str
  imports Prelude
begin

text \<open>
  The \<open>str\<close> methods of the Rust standard library that the sources call, on strings as lists of their
  UTF-8 bytes.  Case conversion is the conversion of ASCII letters; the strings the sources convert
  are host names, labels and hex or base32 text.
\<close>

definition strip_prefix :: "'a list \<Rightarrow> 'a list \<Rightarrow> 'a list option" where
  "strip_prefix p s = (if take (length p) s = p then Some (drop (length p) s) else None)"

definition strip_suffix :: "'a list \<Rightarrow> 'a list \<Rightarrow> 'a list option" where
  "strip_suffix p s =
     (if length p \<le> length s \<and> drop (length s - length p) s = p
      then Some (take (length s - length p) s) else None)"

definition starts_with :: "'a list \<Rightarrow> 'a list \<Rightarrow> bool" where
  "starts_with p s \<longleftrightarrow> take (length p) s = p"

definition ends_with :: "'a list \<Rightarrow> 'a list \<Rightarrow> bool" where
  "ends_with p s \<longleftrightarrow> length p \<le> length s \<and> drop (length s - length p) s = p"

text \<open>\<open>split_once\<close> at the first and \<open>rsplit_once\<close> at the last occurrence of a character.\<close>

fun split_once :: "'a \<Rightarrow> 'a list \<Rightarrow> ('a list \<times> 'a list) option" where
  "split_once c [] = None"
| "split_once c (x # xs) =
     (if x = c then Some ([], xs)
      else case split_once c xs of None \<Rightarrow> None | Some (a, b) \<Rightarrow> Some (x # a, b))"

fun rsplit_once :: "'a \<Rightarrow> 'a list \<Rightarrow> ('a list \<times> 'a list) option" where
  "rsplit_once c [] = None"
| "rsplit_once c (x # xs) =
     (case rsplit_once c xs of
        Some (a, b) \<Rightarrow> Some (x # a, b)
      | None \<Rightarrow> if x = c then Some ([], xs) else None)"

text \<open>\<open>s.split(c)\<close>: the pieces between the occurrences, empty ones included.\<close>

fun split_on :: "'a \<Rightarrow> 'a list \<Rightarrow> 'a list list" where
  "split_on c [] = [[]]"
| "split_on c (x # xs) =
     (if x = c then [] # split_on c xs
      else case split_on c xs of [] \<Rightarrow> [[x]] | p # ps \<Rightarrow> (x # p) # ps)"

definition is_upper :: "char \<Rightarrow> bool" where
  "is_upper c \<longleftrightarrow> 65 \<le> (of_char c :: nat) \<and> (of_char c :: nat) \<le> 90"

definition is_lower :: "char \<Rightarrow> bool" where
  "is_lower c \<longleftrightarrow> 97 \<le> (of_char c :: nat) \<and> (of_char c :: nat) \<le> 122"

definition upper_char :: "char \<Rightarrow> char" where
  "upper_char c = (if is_lower c then char_of (of_char c - 32 :: nat) else c)"

definition lower_char :: "char \<Rightarrow> char" where
  "lower_char c = (if is_upper c then char_of (of_char c + 32 :: nat) else c)"

definition to_uppercase :: "string \<Rightarrow> string" where
  "to_uppercase = map upper_char"

definition to_lowercase :: "string \<Rightarrow> string" where
  "to_lowercase = map lower_char"

lemma strip_prefix_append [simp]: "strip_prefix p (p @ s) = Some s"
  by (simp add: strip_prefix_def)

lemma strip_prefix_Some: "strip_prefix p s = Some t \<longleftrightarrow> s = p @ t"
  by (auto simp: strip_prefix_def) (metis append_take_drop_id)

lemma strip_suffix_append [simp]: "strip_suffix p (s @ p) = Some s"
  by (simp add: strip_suffix_def)

lemma strip_suffix_Some: "strip_suffix p s = Some t \<longleftrightarrow> s = t @ p"
  by (auto simp: strip_suffix_def) (metis append_take_drop_id)

lemma strip_suffix_last: "s \<noteq> [] \<Longrightarrow> p \<noteq> [] \<Longrightarrow> last s \<noteq> last p \<Longrightarrow> strip_suffix p s = None"
  by (metis last_appendR option.exhaust strip_suffix_Some)

lemma rsplit_once_None: "rsplit_once c s = None \<longleftrightarrow> c \<notin> set s"
  by (induction s) (auto split: option.splits)

lemma rsplit_once_last: "c \<notin> set b \<Longrightarrow> rsplit_once c (a @ c # b) = Some (a, b)"
proof (induction a)
  case Nil
  then show ?case using rsplit_once_None [of c b] by (simp add: option.case_eq_if)
next
  case (Cons x a)
  then show ?case by simp
qed

lemma split_once_first: "c \<notin> set a \<Longrightarrow> split_once c (a @ c # b) = Some (a, b)"
  by (induction a) auto

lemma split_on_nonempty [simp]: "split_on c s \<noteq> []"
  by (induction s) (auto split: list.splits)

lemma lower_char_upper: "\<not> is_lower c \<Longrightarrow> upper_char (lower_char c) = c"
  by (auto simp: upper_char_def lower_char_def is_lower_def is_upper_def)

lemma upper_of_lowercase:
  "\<forall>c \<in> set s. \<not> is_lower c \<Longrightarrow> to_uppercase (to_lowercase s) = s"
  by (induction s) (auto simp: to_uppercase_def to_lowercase_def lower_char_upper)

lemma length_to_lowercase [simp]: "length (to_lowercase s) = length s"
  by (simp add: to_lowercase_def)

section \<open>Trimming\<close>

text \<open>
  \<open>str::trim\<close>: removes the characters with the Unicode property \<open>White_Space\<close> at both ends.  On a UTF-8
  string these are the byte sequences below.
\<close>

definition utf8_seq :: "nat list \<Rightarrow> string" where
  "utf8_seq ns = map char_of ns"

definition white_space :: "string list" where
  "white_space = map (\<lambda>n. utf8_seq [n]) [0x09, 0x0A, 0x0B, 0x0C, 0x0D, 0x20] @
     map utf8_seq [[0xC2, 0x85], [0xC2, 0xA0], [0xE1, 0x9A, 0x80], [0xE2, 0x80, 0xA8], [0xE2, 0x80, 0xA9],
       [0xE2, 0x80, 0xAF], [0xE2, 0x81, 0x9F], [0xE3, 0x80, 0x80]] @
     map (\<lambda>n. utf8_seq [0xE2, 0x80, n]) [0x80..<0x8B]"

lemma white_space_nonempty: "w \<in> set white_space \<Longrightarrow> w \<noteq> []"
  by (auto simp: white_space_def utf8_seq_def)

function trim_start :: "string \<Rightarrow> string" where
  "trim_start s =
     (case find (\<lambda>w. starts_with w s) white_space of
        None \<Rightarrow> s
      | Some w \<Rightarrow> trim_start (drop (length w) s))"
  by pat_completeness auto
termination
proof (relation "measure length")
  fix s w assume "find (\<lambda>w. starts_with w s) white_space = Some w"
  then have "w \<in> set white_space" "starts_with w s" by (auto simp: find_Some_iff)
  then have "w \<noteq> []" "length w \<le> length s"
    using white_space_nonempty by (auto simp: starts_with_def) (metis length_take min.cobounded1)
  then show "(drop (length w) s, s) \<in> measure length" by (cases w) auto
qed simp

function trim_end :: "string \<Rightarrow> string" where
  "trim_end s =
     (case find (\<lambda>w. ends_with w s) white_space of
        None \<Rightarrow> s
      | Some w \<Rightarrow> trim_end (take (length s - length w) s))"
  by pat_completeness auto
termination
proof (relation "measure length")
  fix s w assume "find (\<lambda>w. ends_with w s) white_space = Some w"
  then have "w \<in> set white_space" "ends_with w s" by (auto simp: find_Some_iff)
  then have "w \<noteq> []" "length w \<le> length s"
    using white_space_nonempty by (auto simp: ends_with_def)
  then show "(take (length s - length w) s, s) \<in> measure length" by (cases w) auto
qed simp

declare trim_start.simps [simp del] trim_end.simps [simp del]

definition trim :: "string \<Rightarrow> string" where
  "trim s = trim_end (trim_start s)"

section \<open>UTF-8\<close>

text \<open>\<open>String::from_utf8_unchecked\<close>: the string of the given bytes.\<close>

definition str_of_bytes :: "bytes \<Rightarrow> string" where
  "str_of_bytes b = map (\<lambda>w. char_of (unat w)) b"

text \<open>\<open>std::str::from_utf8\<close>: the well-formed UTF-8 byte sequences.\<close>

definition cont_byte :: "u8 \<Rightarrow> bool" where
  "cont_byte b \<longleftrightarrow> 0x80 \<le> b \<and> b \<le> 0xBF"

definition lead3_ok :: "u8 \<Rightarrow> u8 \<Rightarrow> bool" where
  "lead3_ok a b \<longleftrightarrow> (a = 0xE0 \<and> 0xA0 \<le> b \<and> b \<le> 0xBF) \<or> (0xE1 \<le> a \<and> a \<le> 0xEC \<and> cont_byte b) \<or>
     (a = 0xED \<and> 0x80 \<le> b \<and> b \<le> 0x9F) \<or> (0xEE \<le> a \<and> a \<le> 0xEF \<and> cont_byte b)"

definition lead4_ok :: "u8 \<Rightarrow> u8 \<Rightarrow> bool" where
  "lead4_ok a b \<longleftrightarrow> (a = 0xF0 \<and> 0x90 \<le> b \<and> b \<le> 0xBF) \<or> (0xF1 \<le> a \<and> a \<le> 0xF3 \<and> cont_byte b) \<or>
     (a = 0xF4 \<and> 0x80 \<le> b \<and> b \<le> 0x8F)"

fun utf8_ok :: "bytes \<Rightarrow> bool" where
  "utf8_ok [] = True"
| "utf8_ok (a # r) =
     (if a < 0x80 then utf8_ok r
      else case r of
        [] \<Rightarrow> False
      | b # r1 \<Rightarrow>
          if 0xC2 \<le> a \<and> a \<le> 0xDF then cont_byte b \<and> utf8_ok r1
          else case r1 of
            [] \<Rightarrow> False
          | c # r2 \<Rightarrow>
              if lead3_ok a b then cont_byte c \<and> utf8_ok r2
              else case r2 of
                [] \<Rightarrow> False
              | d # r3 \<Rightarrow> lead4_ok a b \<and> cont_byte c \<and> cont_byte d \<and> utf8_ok r3)"

text \<open>
  \<open>String::from_utf8_lossy\<close>: the standard library cuts the input into characters; where no character
  starts, the longest run of bytes that a character could start with is replaced by one U+FFFD.
  \<open>utf8_chunk\<close> gives the number of bytes of the next piece and whether they are a character.
\<close>

definition at_cont :: "bytes \<Rightarrow> nat \<Rightarrow> bool" where
  "at_cont s i \<longleftrightarrow> i < length s \<and> cont_byte (s ! i)"

fun utf8_chunk :: "bytes \<Rightarrow> nat \<times> bool" where
  "utf8_chunk [] = (0, True)"
| "utf8_chunk (a # r) =
     (if a < 0x80 then (1, True)
      else if 0xC2 \<le> a \<and> a \<le> 0xDF then (if at_cont r 0 then (2, True) else (1, False))
      else if 0xE0 \<le> a \<and> a \<le> 0xEF then
        (if \<not> (r \<noteq> [] \<and> lead3_ok a (hd r)) then (1, False)
         else if at_cont r 1 then (3, True) else (2, False))
      else if 0xF0 \<le> a \<and> a \<le> 0xF4 then
        (if \<not> (r \<noteq> [] \<and> lead4_ok a (hd r)) then (1, False)
         else if \<not> at_cont r 1 then (2, False)
         else if at_cont r 2 then (4, True) else (3, False))
      else (1, False))"

lemma utf8_chunk_pos: "s \<noteq> [] \<Longrightarrow> 0 < fst (utf8_chunk s)"
  by (cases s) simp_all

function utf8_lossy :: "bytes \<Rightarrow> bytes" where
  "utf8_lossy s =
     (if s = [] then []
      else case utf8_chunk s of
        (n, ok) \<Rightarrow> (if ok then take n s else [0xEF, 0xBF, 0xBD]) @ utf8_lossy (drop n s))"
  by pat_completeness auto
termination
proof (relation "measure length")
  fix s n ok
  assume "s \<noteq> []" "(n, ok) = utf8_chunk s"
  then show "(drop n s, s) \<in> measure length"
    using utf8_chunk_pos [of s] by (metis diff_less fst_conv in_measure length_drop length_greater_0_conv)
qed simp

declare utf8_lossy.simps [simp del]

lemma lead3_range: "lead3_ok a b \<Longrightarrow> 0xE0 \<le> a \<and> a \<le> 0xEF"
  by (auto simp: lead3_ok_def word_le_nat_alt)

lemma lead4_range: "lead4_ok a b \<Longrightarrow> 0xF0 \<le> a \<and> a \<le> 0xF4"
  by (auto simp: lead4_ok_def word_le_nat_alt)

lemma utf8_ok_chunk:
  assumes "utf8_ok s" "s \<noteq> []"
  shows "snd (utf8_chunk s) \<and> utf8_ok (drop (fst (utf8_chunk s)) s)"
proof -
  obtain a r where s: "s = a # r" using assms(2) by (cases s) auto
  have no2: "\<not> (0xC2 \<le> a \<and> a \<le> 0xDF)" if "0xE0 \<le> a" using that by (simp add: word_le_nat_alt)
  have no3: "\<not> (0xE0 \<le> a \<and> a \<le> 0xEF)" if "0xF0 \<le> a" using that by (simp add: word_le_nat_alt)
  consider "a < 0x80" | "\<not> a < 0x80" "0xC2 \<le> a" "a \<le> 0xDF" | b r1 where
    "\<not> a < 0x80" "\<not> (0xC2 \<le> a \<and> a \<le> 0xDF)" "r = b # r1" "lead3_ok a b"
    | b r1 where "\<not> a < 0x80" "\<not> (0xC2 \<le> a \<and> a \<le> 0xDF)" "r = b # r1" "\<not> lead3_ok a b"
    using assms s by (cases r; cases "a < 0x80") auto
  then show ?thesis
  proof cases
    case 1
    then show ?thesis using assms s by simp
  next
    case 2
    then show ?thesis using assms s by (auto simp: at_cont_def split: list.splits)
  next
    case 3
    then show ?thesis using assms s lead3_range [OF 3(4)] by (auto simp: at_cont_def split: list.splits)
  next
    case 4
    then obtain c d r3 where r: "r1 = c # d # r3" "lead4_ok a b"
      using assms s by (auto split: list.splits)
    then show ?thesis using 4 assms s lead4_range [OF r(2)] no3 by (auto simp: at_cont_def)
  qed
qed

lemma utf8_lossy_id: "utf8_ok s \<Longrightarrow> utf8_lossy s = s"
proof (induction s rule: utf8_lossy.induct)
  case (1 s)
  show ?case
  proof (cases "s = []")
    case False
    then show ?thesis
      using 1 utf8_ok_chunk [OF "1.prems" False] by (subst utf8_lossy.simps) (auto split: prod.splits)
  qed (simp add: utf8_lossy.simps)
qed

lemma as_bytes_str_of_bytes [simp]: "as_bytes (str_of_bytes b) = b"
  by (induction b) (auto simp: as_bytes_def str_of_bytes_def of_char_of take_bit_eq_mod
      unsigned_less [where ?'a = nat] mod_less [OF unat_u8_bound])

end
