(* ===== verification/Peer_Addr.thy ===== *)
theory Peer_Addr
  imports Decimal Rust_Str
begin

text \<open>
  Peer addresses across the transports, after \<^verbatim>\<open>epix-core/src/peer.rs\<close>: the address type, its
  classification and timeouts, the compact wire form of the peer exchange, and the text form.

  Base32 (\<open>data_encoding\<close>) and hex (\<open>hex\<close>) are third-party crates and \<open>SocketAddr\<close>'s text form is the
  standard library's: \<open>b32enc\<close>/\<open>b32dec\<close>, \<open>hexenc\<close>/\<open>hexdec\<close> and \<open>sock_show\<close>/\<open>sock_parse\<close> are parameters.
  The process-wide flag \<open>ROUTE_ALL_VIA_OVERLAY\<close> is an argument of the two timeouts it changes.
\<close>

unbundle bit_operations_syntax

section \<open>Addresses\<close>

text \<open>A socket address: the octets and port, and for IPv6 the flow info and scope id.\<close>

datatype socket_addr = V4 bytes u16 | V6 bytes u16 u32 u32

datatype peer_addr = Ip socket_addr | Onion string u16 | I2p string u16 | Rns bytes

datatype ip_type = Ipv4 | Ipv6 | OnionT | I2pT | RnsT

datatype core_error = InvalidPeer string

fun sa_port :: "socket_addr \<Rightarrow> u16" where
  "sa_port (V4 ip p) = p"
| "sa_port (V6 ip p fl sc) = p"

fun peer_addr_ok :: "peer_addr \<Rightarrow> bool" where
  "peer_addr_ok (Ip (V4 ip p)) \<longleftrightarrow> length ip = 4"
| "peer_addr_ok (Ip (V6 ip p fl sc)) \<longleftrightarrow> length ip = 16"
| "peer_addr_ok (Rns h) \<longleftrightarrow> length h = 16"
| "peer_addr_ok _ \<longleftrightarrow> True"

fun pex_field :: "ip_type \<Rightarrow> string option" where
  "pex_field Ipv4 = Some ''peers''"
| "pex_field Ipv6 = Some ''peers_ipv6''"
| "pex_field OnionT = Some ''peers_onion''"
| "pex_field I2pT = Some ''peers_i2p''"
| "pex_field RnsT = Some ''peers_rns''"

fun scheme :: "peer_addr \<Rightarrow> string" where
  "scheme (Ip _) = ''tcp''"
| "scheme (Onion _ _) = ''onion''"
| "scheme (I2p _ _) = ''i2p''"
| "scheme (Rns _) = ''rns''"

fun is_overlay :: "peer_addr \<Rightarrow> bool" where
  "is_overlay (Ip _) = False"
| "is_overlay (Onion _ _) = True"
| "is_overlay (I2p _ _) = True"
| "is_overlay (Rns _) = True"

fun is_wellformed :: "peer_addr \<Rightarrow> bool" where
  "is_wellformed (Ip sa) \<longleftrightarrow> sa_port sa \<noteq> 1"
| "is_wellformed (Onion host port) \<longleftrightarrow> host \<noteq> [] \<and> port \<noteq> 0"
| "is_wellformed (I2p dest port) \<longleftrightarrow> dest \<noteq> []"
| "is_wellformed (Rns hash) \<longleftrightarrow> hash \<noteq> replicate 16 0"

text \<open>Deadlines in seconds; \<open>via\<close> is \<open>route_all_via_overlay()\<close>.\<close>

definition connect_timeout :: "bool \<Rightarrow> peer_addr \<Rightarrow> nat" where
  "connect_timeout via p = (if is_overlay p \<or> via then 45 else 15)"

definition file_timeout :: "bool \<Rightarrow> peer_addr \<Rightarrow> nat" where
  "file_timeout via p = (if is_overlay p \<or> via then 180 else 60)"

fun i2p_dest :: "peer_addr \<Rightarrow> string option" where
  "i2p_dest (I2p dest _) = Some (dest @ ''.i2p'')"
| "i2p_dest _ = None"

fun ip_type_of :: "peer_addr \<Rightarrow> ip_type" where
  "ip_type_of (Ip (V4 _ _)) = Ipv4"
| "ip_type_of (Ip (V6 _ _ _ _)) = Ipv6"
| "ip_type_of (Onion _ _) = OnionT"
| "ip_type_of (I2p _ _) = I2pT"
| "ip_type_of (Rns _) = RnsT"

text \<open>
  \<open>Ipv4Addr::is_private\<close>, \<open>is_loopback\<close>, \<open>is_link_local\<close> and the carrier range 100.64/10; for IPv6
  \<open>is_loopback\<close> (\<open>::1\<close>), fc00::/7 and fe80::/10 on the first segment.
\<close>

definition v4_private :: "bytes \<Rightarrow> bool" where
  "v4_private ip \<longleftrightarrow>
     ip ! 0 = 10 \<or> (ip ! 0 = 172 \<and> 16 \<le> ip ! 1 \<and> ip ! 1 \<le> 31) \<or> (ip ! 0 = 192 \<and> ip ! 1 = 168)"

definition segment0 :: "bytes \<Rightarrow> u16" where
  "segment0 ip = word_of_nat (256 * unat (ip ! 0) + unat (ip ! 1))"

fun is_private :: "peer_addr \<Rightarrow> bool" where
  "is_private (Ip (V4 ip _)) \<longleftrightarrow>
     v4_private ip \<or> ip ! 0 = 127 \<or> (ip ! 0 = 169 \<and> ip ! 1 = 254) \<or>
     (ip ! 0 = 100 \<and> (ip ! 1) AND 0xc0 = 0x40)"
| "is_private (Ip (V6 ip _ _ _)) \<longleftrightarrow>
     ip = replicate 15 0 @ [1] \<or>
     (segment0 ip) AND 0xfe00 = 0xfc00 \<or>
     (segment0 ip) AND 0xffc0 = 0xfe80"
| "is_private _ \<longleftrightarrow> False"

section \<open>Compact wire form\<close>

type_synonym b32_enc = "bytes \<Rightarrow> string"
type_synonym b32_dec = "bytes \<Rightarrow> bytes option"

definition u16_of_le :: "u8 \<Rightarrow> u8 \<Rightarrow> u16" where
  "u16_of_le a b = word_of_nat (of_le_bytes [a, b])"

definition or_self :: "'a option \<Rightarrow> 'a \<Rightarrow> 'a" where
  "or_self o_x d = (case o_x of None \<Rightarrow> d | Some x \<Rightarrow> x)"

fun peer_pack :: "b32_dec \<Rightarrow> peer_addr \<Rightarrow> bytes option" where
  "peer_pack b32dec (Ip (V4 ip port)) = Some (ip @ le16 port)"
| "peer_pack b32dec (Ip (V6 ip port _ _)) = Some (ip @ le16 port)"
| "peer_pack b32dec (Onion host port) =
     (case b32dec (as_bytes (to_uppercase host)) of
        None \<Rightarrow> None
      | Some raw \<Rightarrow> Some (raw @ le16 port))"
| "peer_pack b32dec (I2p dest port) =
     (let b32 = or_self (strip_suffix ''.b32'' dest) dest in
      case b32dec (as_bytes (to_uppercase b32)) of
        None \<Rightarrow> None
      | Some raw \<Rightarrow> if length raw \<noteq> 32 then None else Some (raw @ le16 port))"
| "peer_pack b32dec (Rns hash) = Some hash"

definition unpack_ip :: "bytes \<Rightarrow> peer_addr option" where
  "unpack_ip packed =
     (if length packed = 6
      then Some (Ip (V4 (take 4 packed) (u16_of_le (packed ! 4) (packed ! 5))))
      else if length packed = 18
      then Some (Ip (V6 (take 16 packed) (u16_of_le (packed ! 16) (packed ! 17)) 0 0))
      else None)"

definition unpack_onion :: "b32_enc \<Rightarrow> bytes \<Rightarrow> peer_addr option" where
  "unpack_onion b32enc packed =
     (if length packed < 3 then None
      else let n = length packed - 2;
               host = to_lowercase (b32enc (take n packed))
           in Some (Onion host (u16_of_le (packed ! n) (packed ! Suc n))))"

definition unpack_rns :: "bytes \<Rightarrow> peer_addr option" where
  "unpack_rns packed = (if length packed \<noteq> 16 then None else Some (Rns packed))"

definition unpack_i2p :: "b32_enc \<Rightarrow> bytes \<Rightarrow> peer_addr option" where
  "unpack_i2p b32enc packed =
     (if length packed \<noteq> 34 then None
      else let b32 = to_lowercase (b32enc (take 32 packed))
           in Some (I2p (b32 @ ''.b32'') (u16_of_le (packed ! 32) (packed ! 33))))"

section \<open>Text form\<close>

definition u16_max :: nat where
  "u16_max = 65535"

definition parse_u16 :: "string \<Rightarrow> u16 option" where
  "parse_u16 s = map_option word_of_nat (parse_uint u16_max s)"

definition PeerAddr_parse ::
    "(string \<Rightarrow> socket_addr option) \<Rightarrow> (string \<Rightarrow> bytes option) \<Rightarrow> string \<Rightarrow> core_error + peer_addr" where
  "PeerAddr_parse sock_parse hexdec s =
     (case strip_prefix ''rns:'' s of
        Some hash_hex \<Rightarrow>
          (case hexdec hash_hex of
             None \<Rightarrow> Inl (InvalidPeer s)
           | Some bs \<Rightarrow> if length bs = 16 then Inr (Rns bs) else Inl (InvalidPeer s))
      | None \<Rightarrow>
     (case strip_suffix ''.i2p'' s of
        Some host \<Rightarrow> if host = [] then Inl (InvalidPeer s) else Inr (I2p host 0)
      | None \<Rightarrow>
        (let ip = (case sock_parse s of None \<Rightarrow> Inl (InvalidPeer s) | Some sa \<Rightarrow> Inr (Ip sa)) in
         case rsplit_once CHR '':'' s of
           None \<Rightarrow> ip
         | Some (host, port) \<Rightarrow>
            (case strip_suffix ''.onion'' host of
               Some onion_host \<Rightarrow>
                 (case parse_u16 port of
                    None \<Rightarrow> Inl (InvalidPeer s)
                  | Some p \<Rightarrow> if onion_host = [] then Inl (InvalidPeer s) else Inr (Onion onion_host p))
             | None \<Rightarrow>
            (case strip_suffix ''.i2p'' host of
               Some dest \<Rightarrow>
                 (case parse_u16 port of
                    None \<Rightarrow> Inl (InvalidPeer s)
                  | Some p \<Rightarrow> if dest = [] then Inl (InvalidPeer s) else Inr (I2p dest p))
             | None \<Rightarrow> ip)))))"

fun PeerAddr_to_string :: "(socket_addr \<Rightarrow> string) \<Rightarrow> (bytes \<Rightarrow> string) \<Rightarrow> peer_addr \<Rightarrow> string" where
  "PeerAddr_to_string sock_show hexenc (Ip a) = sock_show a"
| "PeerAddr_to_string sock_show hexenc (Onion host port) = host @ ''.onion:'' @ show_nat (unat port)"
| "PeerAddr_to_string sock_show hexenc (I2p dest port) = dest @ ''.i2p:'' @ show_nat (unat port)"
| "PeerAddr_to_string sock_show hexenc (Rns h) = ''rns:'' @ hexenc h"

section \<open>The compact form round-trips\<close>

lemma le16_u16_of_le [simp]: "le16 (u16_of_le a b) = [a, b]"
proof -
  have "of_le_bytes [a, b] < 65536" using of_le_bytes_bound [of "[a, b]"] by simp
  then have "unat (u16_of_le a b) = of_le_bytes [a, b]"
    unfolding u16_of_le_def by (rule unat_u16_of_nat)
  then show ?thesis
    using le_bytes_of_le_bytes [of "[a, b]"] by (simp add: le16_def numeral_2_eq_2)
qed

lemma le16_two: "le16 w = [le16 w ! 0, le16 w ! 1]"
  by (simp add: le16_def numeral_2_eq_2)

lemma u16_of_le_le16 [simp]: "u16_of_le (le16 w ! 0) (le16 w ! Suc 0) = w"
  using le16_two [of w] by (metis One_nat_def le16_inject le16_u16_of_le)

lemma split_last_two:
  assumes "length xs = Suc (Suc n)"
  shows "take n xs @ [xs ! n, xs ! Suc n] = xs"
proof -
  have "drop n xs = [xs ! n, xs ! Suc n]"
    using assms Cons_nth_drop_Suc [of n xs] Cons_nth_drop_Suc [of "Suc n" xs] by simp
  then show ?thesis by (metis append_take_drop_id)
qed

lemmas compact_defs = unpack_ip_def unpack_onion_def unpack_rns_def unpack_i2p_def

lemma pack_unpack_ip: "unpack_ip b = Some p \<Longrightarrow> peer_pack b32dec p = Some b \<and> peer_addr_ok p"
  using split_last_two [of b 4] split_last_two [of b 16]
  by (auto simp: unpack_ip_def split: if_splits)

lemma pack_unpack_onion:
  assumes "\<And>x. b32dec (as_bytes (b32enc x)) = Some x" "\<And>x. \<forall>c \<in> set (b32enc x). \<not> is_lower c"
    and "unpack_onion b32enc b = Some p"
  shows "peer_pack b32dec p = Some b"
  using assms split_last_two [of b "length b - 2"]
  by (auto simp: unpack_onion_def Let_def upper_of_lowercase split: if_splits)

lemma pack_unpack_i2p:
  assumes "\<And>x. b32dec (as_bytes (b32enc x)) = Some x" "\<And>x. \<forall>c \<in> set (b32enc x). \<not> is_lower c"
    and "unpack_i2p b32enc b = Some p"
  shows "peer_pack b32dec p = Some b"
  using assms split_last_two [of b 32]
  by (auto simp: unpack_i2p_def Let_def or_self_def upper_of_lowercase split: if_splits)

lemma unpack_pack_v4: "length ip = 4 \<Longrightarrow> unpack_ip (ip @ le16 port) = Some (Ip (V4 ip port))"
  by (simp add: unpack_ip_def nth_append)

lemma unpack_pack_v6: "length ip = 16 \<Longrightarrow> unpack_ip (ip @ le16 port) = Some (Ip (V6 ip port 0 0))"
  by (simp add: unpack_ip_def nth_append)

text \<open>
  The compact peer-exchange form loses nothing: whatever bytes one of the four unpackers accepts
  are exactly the bytes the resulting address packs to, so decoding is injective and never aliases
  two wire entries to one address; and every IPv4 address, every IPv6 address (up to the flow info
  and scope, which the wire does not carry) and every 16-byte mesh destination survives packing and
  unpacking.  Assumed of the base32 crate: decoding inverts encoding, and its alphabet has no
  lower-case letter.
\<close>

theorem peer_compact_roundtrip:
  assumes dec: "\<And>x. b32dec (as_bytes (b32enc x)) = Some x"
    and up: "\<And>x. \<forall>c \<in> set (b32enc x). \<not> is_lower c"
  shows
    "(unpack_ip b = Some p \<or> unpack_onion b32enc b = Some p \<or> unpack_i2p b32enc b = Some p \<or>
        unpack_rns b = Some p \<longrightarrow> peer_pack b32dec p = Some b) \<and>
     (peer_addr_ok (Ip (V4 ip4 port)) \<longrightarrow>
        Option.bind (peer_pack b32dec (Ip (V4 ip4 port))) unpack_ip = Some (Ip (V4 ip4 port))) \<and>
     (peer_addr_ok (Ip (V6 ip6 port fl sc)) \<longrightarrow>
        Option.bind (peer_pack b32dec (Ip (V6 ip6 port fl sc))) unpack_ip = Some (Ip (V6 ip6 port 0 0))) \<and>
     (peer_addr_ok (Rns h) \<longrightarrow> Option.bind (peer_pack b32dec (Rns h)) unpack_rns = Some (Rns h))"
  using pack_unpack_ip [of b p b32dec] pack_unpack_onion [OF dec up, of b p]
    pack_unpack_i2p [OF dec up, of b p]
  by (auto simp: unpack_rns_def unpack_pack_v4 unpack_pack_v6 split: if_splits)

text \<open>A base32-like codec for the witness: two letters of \<open>A\<close> to \<open>P\<close> per byte.\<close>

definition ex_b32enc :: b32_enc where
  "ex_b32enc bs = concat (map (\<lambda>b. [char_of (65 + unat b div 16), char_of (65 + unat b mod 16)]) bs)"

fun ex_b32dec :: b32_dec where
  "ex_b32dec (a # b # s) =
     map_option ((#) (word_of_nat ((unat a - 65) * 16 + (unat b - 65)))) (ex_b32dec s)"
| "ex_b32dec s = (if s = [] then Some [] else None)"

lemma ex_b32_digit: "n < 16 \<Longrightarrow> unat (word_of_nat (of_char (char_of (65 + n) :: char)) :: u8) - 65 = n"
proof -
  assume "n < 16"
  then have "(of_char (char_of (65 + n) :: char) :: nat) = 65 + n" by simp
  with \<open>n < 16\<close> show ?thesis using unat_u8_of_nat [of "65 + n"] by simp
qed

lemma ex_b32_roundtrip: "ex_b32dec (as_bytes (ex_b32enc x)) = Some x"
proof (induction x)
  case (Cons b x)
  have b: "unat b div 16 < 16" "unat b mod 16 < 16" using unat_u8_bound [of b] by auto
  have "ex_b32dec (as_bytes (ex_b32enc (b # x))) =
    Some (word_of_nat (unat b div 16 * 16 + unat b mod 16) # x)"
    using Cons unfolding ex_b32enc_def as_bytes_def
    by (simp only: list.map concat.simps append.simps ex_b32dec.simps option.map
        ex_b32_digit [OF b(1)] ex_b32_digit [OF b(2)])
  then show ?case by simp
qed (simp add: ex_b32enc_def as_bytes_def)

lemma ex_b32_upper: "\<forall>c \<in> set (ex_b32enc x). \<not> is_lower c"
proof
  fix c
  assume "c \<in> set (ex_b32enc x)"
  then obtain b where "c = char_of (65 + unat (b :: u8) div 16) \<or> c = char_of (65 + unat b mod 16)"
    by (auto simp: ex_b32enc_def)
  moreover have "unat b < 256" using unsigned_less [of b, where ?'a = nat] by simp
  then have "unat b div 16 < 16" "unat b mod 16 < 16" by auto
  ultimately show "\<not> is_lower c" by (auto simp: is_lower_def)
qed

theorem peer_compact_roundtrip_witness:
  "peer_pack ex_b32dec (the (unpack_onion ex_b32enc [171, 205, 80, 0])) = Some [171, 205, 80, 0] \<and>
   Option.bind (peer_pack ex_b32dec (Ip (V4 [1, 2, 3, 4] 8080))) unpack_ip = Some (Ip (V4 [1, 2, 3, 4] 8080))"
  using peer_compact_roundtrip [OF ex_b32_roundtrip ex_b32_upper,
      of "[171, 205, 80, 0]" "the (unpack_onion ex_b32enc [171, 205, 80, 0])" "[1, 2, 3, 4]" 8080 _ _ _ "[]"]
  by (simp add: unpack_onion_def)

section \<open>The text form round-trips\<close>

lemma show_nat_no_colon: "CHR '':'' \<notin> set (show_nat n)"
  using show_nat_digits [of "CHR '':''" n] by (auto simp: is_digit_def)

lemma show_nat_last: "is_digit (last (show_nat n))"
  by (meson last_in_set show_nat_digits show_nat_nonempty)

lemma parse_u16_show: "parse_u16 (show_nat (unat port)) = Some port"
  using unat_u16_bound [of port] by (simp add: parse_u16_def parse_uint_show u16_max_def)

lemma host_port_not_i2p: "strip_suffix ''.i2p'' (s @ show_nat n) = None"
  using show_nat_last [of n] by (intro strip_suffix_last) (auto simp: is_digit_def)

lemma strip_prefix_none_append:
  assumes "strip_prefix p host = None" "c \<notin> set p"
  shows "strip_prefix p (host @ c # t) = None"
proof (rule ccontr)
  assume "strip_prefix p (host @ c # t) \<noteq> None"
  then obtain r where "host @ c # t = p @ r" by (auto simp: strip_prefix_Some)
  then consider us where "host = p @ us" | us where "host @ us = p" "c # t = us @ r"
    by (auto simp: append_eq_append_conv2)
  then show False
  proof cases
    case 1
    then show ?thesis using assms(1) by simp
  next
    case 2
    then show ?thesis using assms by (cases us) (auto simp: strip_prefix_def)
  qed
qed

lemma parse_host_port:
  assumes "strip_prefix ''rns:'' h = None"
  shows "PeerAddr_parse sp hx (h @ ''.onion:'' @ show_nat (unat port)) =
      (if h = [] then Inl (InvalidPeer (''.onion:'' @ show_nat (unat port))) else Inr (Onion h port))"
    and "PeerAddr_parse sp hx (h @ ''.i2p:'' @ show_nat (unat port)) =
      (if h = [] then Inl (InvalidPeer (''.i2p:'' @ show_nat (unat port))) else Inr (I2p h port))"
proof -
  have no: "CHR ''.'' \<notin> set ''rns:''" by simp
  have r: "strip_prefix ''rns:'' (h @ ''.onion:'' @ show_nat (unat port)) = None"
    "strip_prefix ''rns:'' (h @ ''.i2p:'' @ show_nat (unat port)) = None"
    using strip_prefix_none_append [OF assms no] by auto
  have i: "strip_suffix ''.i2p'' (h @ ''.onion:'' @ show_nat (unat port)) = None"
    "strip_suffix ''.i2p'' (h @ ''.i2p:'' @ show_nat (unat port)) = None"
    using host_port_not_i2p [of "h @ ''.onion:''" "unat port"]
      host_port_not_i2p [of "h @ ''.i2p:''" "unat port"] by auto
  have s: "rsplit_once CHR '':'' (h @ ''.onion:'' @ show_nat (unat port)) =
      Some (h @ ''.onion'', show_nat (unat port))"
    "rsplit_once CHR '':'' (h @ ''.i2p:'' @ show_nat (unat port)) =
      Some (h @ ''.i2p'', show_nat (unat port))"
    using rsplit_once_last [OF show_nat_no_colon [of "unat port"], where a = "h @ ''.onion''"]
      rsplit_once_last [OF show_nat_no_colon [of "unat port"], where a = "h @ ''.i2p''"] by simp_all
  have o: "strip_suffix ''.onion'' (h @ ''.i2p'') = None"
    by (rule strip_suffix_last) auto
  show "PeerAddr_parse sp hx (h @ ''.onion:'' @ show_nat (unat port)) =
      (if h = [] then Inl (InvalidPeer (''.onion:'' @ show_nat (unat port))) else Inr (Onion h port))"
    unfolding PeerAddr_parse_def r i s by (simp add: parse_u16_show)
  show "PeerAddr_parse sp hx (h @ ''.i2p:'' @ show_nat (unat port)) =
      (if h = [] then Inl (InvalidPeer (''.i2p:'' @ show_nat (unat port))) else Inr (I2p h port))"
    unfolding PeerAddr_parse_def r i s by (simp add: parse_u16_show o)
qed

text \<open>
  The text \<open>sa\<close> of a socket address as the parser of \<open>PeerAddr\<close> sees it: not one of the overlay forms.
\<close>

definition plain_socket_text :: "string \<Rightarrow> bool" where
  "plain_socket_text s \<longleftrightarrow>
     strip_prefix ''rns:'' s = None \<and> strip_suffix ''.i2p'' s = None \<and>
     (case rsplit_once CHR '':'' s of
        None \<Rightarrow> True
      | Some (host, _) \<Rightarrow> strip_suffix ''.onion'' host = None \<and> strip_suffix ''.i2p'' host = None)"

text \<open>
  Text round trip: parsing the printed form of an address gives the address back, for every
  transport: socket addresses and mesh destinations as far as the standard library's and the hex
  crate's own text forms do, onion and I2P addresses for every port and every non-empty host that does
  not itself look like a mesh address.  A blank onion or I2P host, the advertisement of a node whose
  overlay is not up, is an error, never a peer.
\<close>

theorem peer_text_roundtrip:
  assumes ip: "\<And>a. p = Ip a \<Longrightarrow> sock_parse (sock_show a) = Some a \<and> plain_socket_text (sock_show a)"
    and rns: "\<And>h. p = Rns h \<Longrightarrow> hexdec (hexenc h) = Some h"
    and ok: "peer_addr_ok p"
    and host: "\<And>h port. p = Onion h port \<or> p = I2p h port \<Longrightarrow> strip_prefix ''rns:'' h = None"
  shows "PeerAddr_parse sock_parse hexdec (PeerAddr_to_string sock_show hexenc p) =
    (if (\<exists>port. p = Onion [] port \<or> p = I2p [] port)
     then Inl (InvalidPeer (PeerAddr_to_string sock_show hexenc p)) else Inr p)"
proof (cases p)
  case (Ip a)
  with ip [OF Ip] show ?thesis
    by (auto simp: PeerAddr_parse_def plain_socket_text_def Let_def split: option.splits)
next
  case (Onion h port)
  with host [of h port] show ?thesis using parse_host_port(1) [of h sock_parse hexdec port] by auto
next
  case (I2p h port)
  with host [of h port] show ?thesis using parse_host_port(2) [of h sock_parse hexdec port] by auto
next
  case (Rns h)
  with rns [OF Rns] ok show ?thesis by (simp add: PeerAddr_parse_def strip_prefix_def)
qed

theorem peer_text_roundtrip_witness:
  "PeerAddr_parse (\<lambda>s. None) (\<lambda>s. None) (PeerAddr_to_string (\<lambda>a. []) (\<lambda>h. []) (Onion ''abcdefghij234567'' 43110)) =
     Inr (Onion ''abcdefghij234567'' 43110)"
  using peer_text_roundtrip [of "Onion ''abcdefghij234567'' 43110"
      "\<lambda>s. None" "\<lambda>a. []" "\<lambda>s. None" "\<lambda>h. []"]
  by (simp add: strip_prefix_def)

end
