(* ===== verification/Dht_Routing.thy ===== *)
theory Dht_Routing
  imports Peer_Addr
begin

text \<open>
  Identifiers and routing table of the Kademlia node, after \<^verbatim>\<open>epix-dht/src/id.rs\<close> and
  \<^verbatim>\<open>routing.rs\<close>.  The distance of two identifiers is the byte-wise XOR, compared as the code compares
  it (lexicographically on the bytes); \<open>be_nat\<close> is the 256-bit number it stands for, the reference the
  metric and the bucket index are proved against.
\<close>

unbundle bit_operations_syntax

section \<open>Identifiers\<close>

definition ID_LEN :: nat where "ID_LEN = 32"
definition BITS :: nat where "BITS = ID_LEN * 8"

datatype node_id = NodeId (nid: bytes)

definition NodeId_hash :: "(bytes \<Rightarrow> bytes) \<Rightarrow> bytes \<Rightarrow> node_id" where
  "NodeId_hash sha256 data = NodeId (sha256 data)"

definition node_distance :: "node_id \<Rightarrow> node_id \<Rightarrow> bytes" where
  "node_distance a b = map2 (XOR) (nid a) (nid b)"

text \<open>\<open>u8::leading_zeros\<close>.\<close>

definition leading_zeros8 :: "u8 \<Rightarrow> nat" where
  "leading_zeros8 b = length (takeWhile (\<lambda>i. \<not> bit b i) (rev [0..<8]))"

fun first_nonzero :: "nat \<Rightarrow> bytes \<Rightarrow> nat option" where
  "first_nonzero i [] = None"
| "first_nonzero i (b # bs) =
     (if b \<noteq> 0 then Some (BITS - 1 - (i * 8 + leading_zeros8 b)) else first_nonzero (Suc i) bs)"

definition bucket_index :: "node_id \<Rightarrow> node_id \<Rightarrow> nat option" where
  "bucket_index self other = first_nonzero 0 (node_distance self other)"

record contact =
  c_id :: node_id
  c_addr :: peer_addr

definition node_id_ok :: "node_id \<Rightarrow> bool" where
  "node_id_ok n \<longleftrightarrow> length (nid n) = ID_LEN"

section \<open>Routing table\<close>

definition K :: nat where "K = 8"

record routing_table =
  rt_local :: node_id
  rt_buckets :: "contact list list"

definition rt_new :: "node_id \<Rightarrow> routing_table" where
  "rt_new local = \<lparr>rt_local = local, rt_buckets = replicate BITS []\<rparr>"

text \<open>\<open>position\<close>, then \<open>remove\<close> and \<open>push\<close> of the incumbent, or \<open>push\<close> of the newcomer.\<close>

fun position :: "('a \<Rightarrow> bool) \<Rightarrow> 'a list \<Rightarrow> nat option" where
  "position P [] = None"
| "position P (x # xs) = (if P x then Some 0 else map_option Suc (position P xs))"

definition remove_at :: "nat \<Rightarrow> 'a list \<Rightarrow> 'a list" where
  "remove_at i xs = take i xs @ drop (Suc i) xs"

definition bucket_insert :: "contact \<Rightarrow> contact list \<Rightarrow> contact list" where
  "bucket_insert contact bucket =
     (case position (\<lambda>c. c_id c = c_id contact) bucket of
        Some pos \<Rightarrow> (let existing = bucket ! pos in remove_at pos bucket @ [existing])
      | None \<Rightarrow> if length bucket < K then bucket @ [contact] else bucket)"

definition rt_insert :: "contact \<Rightarrow> routing_table \<Rightarrow> routing_table" where
  "rt_insert contact rt =
     (case bucket_index (rt_local rt) (c_id contact) of
        None \<Rightarrow> rt
      | Some idx \<Rightarrow>
          rt\<lparr>rt_buckets := (rt_buckets rt)[idx := bucket_insert contact (rt_buckets rt ! idx)]\<rparr>)"

definition by_distance :: "node_id \<Rightarrow> contact list \<Rightarrow> contact list" where
  "by_distance target = sort_key (\<lambda>c. node_distance target (c_id c))"

definition rt_closest :: "node_id \<Rightarrow> nat \<Rightarrow> routing_table \<Rightarrow> contact list" where
  "rt_closest target n rt = take n (by_distance target (concat (rt_buckets rt)))"

definition rt_len :: "routing_table \<Rightarrow> nat" where
  "rt_len rt = sum_list (map length (rt_buckets rt))"

definition rt_is_empty :: "routing_table \<Rightarrow> bool" where
  "rt_is_empty rt \<longleftrightarrow> rt_len rt = 0"

text \<open>
  The table invariant: one bucket per bit, at most \<open>K\<close> contacts in each, no identifier twice, and
  every contact in the bucket its distance to the local identifier selects.
\<close>

definition bucket_ok :: "node_id \<Rightarrow> nat \<Rightarrow> contact list \<Rightarrow> bool" where
  "bucket_ok local i b \<longleftrightarrow>
     length b \<le> K \<and> distinct (map c_id b) \<and>
     (\<forall>c \<in> set b. node_id_ok (c_id c) \<and> bucket_index local (c_id c) = Some i)"

definition rt_inv :: "routing_table \<Rightarrow> bool" where
  "rt_inv rt \<longleftrightarrow>
     node_id_ok (rt_local rt) \<and> length (rt_buckets rt) = BITS \<and>
     (\<forall>i < BITS. bucket_ok (rt_local rt) i (rt_buckets rt ! i))"

section \<open>The metric\<close>

text \<open>The number a big-endian byte string denotes.\<close>

fun be_nat :: "bytes \<Rightarrow> nat" where
  "be_nat [] = 0"
| "be_nat (b # bs) = unat b * 256 ^ length bs + be_nat bs"

lemma be_nat_bound: "be_nat bs < 256 ^ length bs"
proof (induction bs)
  case (Cons b bs)
  have "unat b * 256 ^ length bs + be_nat bs < (unat b + 1) * 256 ^ length bs"
    using Cons by simp
  also have "\<dots> \<le> 256 * 256 ^ length bs"
    using unat_u8_bound [of b] by (intro mult_le_mono1) simp
  finally show ?case by simp
qed simp

lemma digit_less:
  fixes a b m r s :: nat
  assumes "r < m" "s < m"
  shows "a * m + r < b * m + s \<longleftrightarrow> a < b \<or> (a = b \<and> r < s)"
proof (cases a b rule: linorder_cases)
  case less
  then have "Suc a * m \<le> b * m" by (intro mult_le_mono1) simp
  with assms less show ?thesis by simp
next
  case greater
  then have "Suc b * m \<le> a * m" by (intro mult_le_mono1) simp
  with assms greater show ?thesis by simp
qed simp

text \<open>Comparing equally long byte strings as the code does is comparing the numbers they denote.\<close>

lemma be_nat_less: "length xs = length ys \<Longrightarrow> xs < ys \<longleftrightarrow> be_nat xs < be_nat ys"
proof (induction xs ys rule: list_induct2)
  case (Cons x xs y ys)
  have "be_nat (x # xs) < be_nat (y # ys) \<longleftrightarrow> unat x < unat y \<or> (unat x = unat y \<and> be_nat xs < be_nat ys)"
    using digit_less [OF be_nat_bound, of "be_nat ys" xs "unat x" "unat y"] be_nat_bound [of ys] Cons.hyps
    by simp
  also have "\<dots> \<longleftrightarrow> x < y \<or> (x = y \<and> xs < ys)"
    using Cons.IH by (simp add: word_less_nat_alt word_unat_eq_iff)
  finally show ?case by (simp add: Cons_less_Cons)
qed simp

lemma be_nat_eq: "length xs = length ys \<Longrightarrow> be_nat xs = be_nat ys \<longleftrightarrow> xs = ys"
  using be_nat_less [of xs ys] be_nat_less [of ys xs] by (metis linorder_neqE less_irrefl_nat)


lemma length_node_distance [simp]:
  "node_id_ok a \<Longrightarrow> node_id_ok b \<Longrightarrow> length (node_distance a b) = ID_LEN"
  by (simp add: node_distance_def node_id_ok_def)

lemma xor_left_cancel_word: "(x :: u8) XOR y = x XOR z \<longleftrightarrow> y = z"
  by (metis xor.left_neutral xor.assoc xor_self_eq)

lemma map2_xor_cancel:
  "length xs = length ys \<Longrightarrow> length xs = length zs \<Longrightarrow>
   map2 (XOR) xs ys = map2 (XOR) xs (zs :: bytes) \<longleftrightarrow> ys = zs"
proof (induction xs ys arbitrary: zs rule: list_induct2)
  case (Cons x xs y ys)
  then show ?case by (cases zs) (auto simp: xor_left_cancel_word)
qed auto

text \<open>No two identifiers are at the same distance from a target.\<close>

lemma node_distance_inject:
  "node_id_ok t \<Longrightarrow> node_id_ok a \<Longrightarrow> node_id_ok b \<Longrightarrow>
   node_distance t a = node_distance t b \<longleftrightarrow> a = b"
  by (cases a; cases b) (simp add: node_distance_def node_id_ok_def map2_xor_cancel)

lemma node_distance_sym: "node_distance a b = node_distance b a"
  by (simp add: node_distance_def zip_commute [of "nid a"] xor.commute case_prod_unfold)

lemma be_nat_zero: "be_nat bs = 0 \<longleftrightarrow> (\<forall>b \<in> set bs. b = 0)"
  by (induction bs) (auto simp: unat_eq_0)

lemma bit_imp_le_nat: "bit (n :: nat) i \<Longrightarrow> 2 ^ i \<le> n"
  by (metis bit_iff_odd div_less even_zero leI)

lemma no_high_bits_bound:
  assumes "\<And>j. i \<le> j \<Longrightarrow> \<not> bit (n :: nat) j"
  shows "n < 2 ^ i"
proof -
  have "take_bit i n = n"
    using assms by (intro bit_eqI) (metis bit_take_bit_iff not_le)
  then show ?thesis by (metis take_bit_nat_less_exp)
qed

lemma takeWhile_rev_upt:
  assumes "\<exists>i < n. P i"
  obtains i where "i < n" "P i" "\<And>j. i < j \<Longrightarrow> j < n \<Longrightarrow> \<not> P j"
    "length (takeWhile (\<lambda>i. \<not> P i) (rev [0..<n])) = n - 1 - i"
  using assms
proof (induction n arbitrary: thesis)
  case (Suc n)
  show ?case
  proof (cases "P n")
    case True
    then show ?thesis by (intro Suc.prems(1) [of n]) auto
  next
    case False
    with Suc.prems(2) have "\<exists>i < n. P i" by (metis less_SucE)
    then obtain i where i: "i < n" "P i" "\<And>j. i < j \<Longrightarrow> j < n \<Longrightarrow> \<not> P j"
      "length (takeWhile (\<lambda>i. \<not> P i) (rev [0..<n])) = n - 1 - i"
      using Suc.IH by blast
    show ?thesis
      using i False by (intro Suc.prems(1) [of i]) (auto simp: less_Suc_eq)
  qed
qed simp

lemma leading_zeros8_bounds:
  assumes "b \<noteq> 0"
  shows "leading_zeros8 b < 8" and "2 ^ (7 - leading_zeros8 b) \<le> unat b" and "unat b < 2 ^ (8 - leading_zeros8 b)"
proof -
  have hi: "\<not> bit b j" if "8 \<le> j" for j using that bit_imp_le_length [of b j] by auto
  obtain j where "bit b j" using assms by (metis bit_eqI bit_0_eq bot_apply bot_bool_def)
  then have "\<exists>i < 8. bit b i" using hi by (meson not_le)
  then obtain i where i: "i < 8" "bit b i" "\<And>j. i < j \<Longrightarrow> j < 8 \<Longrightarrow> \<not> bit b j"
    "leading_zeros8 b = 8 - 1 - i"
    unfolding leading_zeros8_def by (rule takeWhile_rev_upt) blast
  have b: "bit (unat b) j = bit b j" for j using bit_imp_le_length [of b j] by (auto simp: bit_unsigned_iff)
  show "leading_zeros8 b < 8" using i by simp
  show "2 ^ (7 - leading_zeros8 b) \<le> unat b" using i b bit_imp_le_nat [of "unat b" i] by simp
  have "unat b < 2 ^ Suc i"
  proof (rule no_high_bits_bound)
    fix j assume "Suc i \<le> j"
    then show "\<not> bit (unat b) j" using i(3) [of j] hi [of j] b by (cases "j < 8") auto
  qed
  moreover have "8 - leading_zeros8 b = Suc i" using i by simp
  ultimately show "unat b < 2 ^ (8 - leading_zeros8 b)" by simp
qed

lemma first_nonzero_log:
  "8 * (i + length ds) = BITS \<Longrightarrow>
   (case first_nonzero i ds of None \<Rightarrow> be_nat ds = 0 | Some k \<Rightarrow> 2 ^ k \<le> be_nat ds \<and> be_nat ds < 2 ^ Suc k)"
proof (induction i ds rule: first_nonzero.induct)
  case (2 i b ds)
  show ?case
  proof (cases "b = 0")
    case True
    then show ?thesis using 2 by (auto split: option.splits)
  next
    case False
    let ?z = "leading_zeros8 b" and ?n = "8 * length ds"
    note z = leading_zeros8_bounds [OF False]
    have p: "(256 :: nat) ^ length ds = 2 ^ ?n" by (simp add: power_mult)
    have k: "BITS - 1 - (i * 8 + ?z) = (7 - ?z) + ?n" using "2.prems" z(1) by simp
    have k': "Suc ((7 - ?z) + ?n) = (8 - ?z) + ?n" using z(1) by simp
    have r: "be_nat ds < 2 ^ ?n" using be_nat_bound [of ds] p by simp
    have "2 ^ ((7 - ?z) + ?n) \<le> unat b * 2 ^ ?n" using z(2) by (simp add: power_add)
    moreover have "unat b * 2 ^ ?n + be_nat ds < 2 ^ ((8 - ?z) + ?n)"
    proof -
      have "unat b * 2 ^ ?n + be_nat ds < (unat b + 1) * 2 ^ ?n" using r by simp
      also have "\<dots> \<le> 2 ^ (8 - ?z) * 2 ^ ?n" using z(3) by (intro mult_le_mono1) simp
      finally show ?thesis by (simp add: power_add)
    qed
    ultimately show ?thesis using False by (simp only: first_nonzero.simps be_nat.simps p k k' if_True
        option.case simp_thms if_False)
  qed
qed simp


lemma bucket_index_log:
  assumes "node_id_ok a" "node_id_ok b"
  shows "bucket_index a b = None \<longleftrightarrow> a = b"
    and "bucket_index a b = Some k \<longleftrightarrow>
      2 ^ k \<le> be_nat (node_distance a b) \<and> be_nat (node_distance a b) < 2 ^ Suc k"
    and "bucket_index a b = Some k \<Longrightarrow> k < BITS"
proof -
  let ?d = "node_distance a b"
  have len: "length ?d = ID_LEN" using assms by simp
  have main: "case bucket_index a b of None \<Rightarrow> be_nat ?d = 0
      | Some k \<Rightarrow> 2 ^ k \<le> be_nat ?d \<and> be_nat ?d < 2 ^ Suc k"
    using first_nonzero_log [of 0 ?d] len unfolding bucket_index_def by (simp add: BITS_def)
  have uniq: "k = k'" if "2 ^ k \<le> n" "n < 2 ^ Suc k" "2 ^ k' \<le> n" "n < 2 ^ Suc k'" for n k k' :: nat
  proof -
    have "(2 :: nat) ^ k < 2 ^ Suc k'" "(2 :: nat) ^ k' < 2 ^ Suc k" using that by auto
    then have "k < Suc k'" "k' < Suc k" by (meson one_less_numeral_iff power_less_imp_less_exp semiring_norm(76))+
    then show ?thesis by simp
  qed
  have pos: "(0 :: nat) < 2 ^ k" for k by simp
  show iff: "bucket_index a b = Some k \<longleftrightarrow> 2 ^ k \<le> be_nat ?d \<and> be_nat ?d < 2 ^ Suc k" for k
    using main uniq pos [of k] by (auto split: option.splits)
  have "node_distance a a = replicate ID_LEN 0"
    using assms(1) by (auto simp: node_distance_def node_id_ok_def intro!: nth_equalityI)
  then have "be_nat (node_distance a a) = 0" by (simp add: be_nat_zero)
  then show "bucket_index a b = None \<longleftrightarrow> a = b"
    using main pos be_nat_eq [of ?d "node_distance a a"] node_distance_inject [of a b a] assms len
    by (auto split: option.splits)
  assume "bucket_index a b = Some k"
  then have "2 ^ k \<le> be_nat ?d" by (simp add: iff)
  also have "\<dots> < 256 ^ ID_LEN" using be_nat_bound [of ?d] len by simp
  also have "\<dots> = 2 ^ BITS" by (simp add: BITS_def ID_LEN_def)
  finally show "k < BITS" by simp
qed

text \<open>
  The bucket of a contact is the integer logarithm of its XOR distance: identifiers of 32 bytes
  have no bucket exactly when they are equal, otherwise the index is the \<open>k < 256\<close> with
  \<open>2\<^sup>k \<le> d < 2\<^sup>k\<^sup>+\<^sup>1\<close> for the distance read as a 256-bit number.  The byte-wise comparison the code sorts by is
  the comparison of these numbers, the distance is symmetric, and two identifiers at the same
  distance from a target are equal.
\<close>

theorem xor_metric_buckets:
  assumes "node_id_ok a" "node_id_ok b" "node_id_ok t"
  shows "(bucket_index a b = None \<longleftrightarrow> a = b) \<and>
    (bucket_index a b = Some k \<longleftrightarrow>
       k < BITS \<and> 2 ^ k \<le> be_nat (node_distance a b) \<and> be_nat (node_distance a b) < 2 ^ Suc k) \<and>
    (node_distance t a < node_distance t b \<longleftrightarrow> be_nat (node_distance t a) < be_nat (node_distance t b)) \<and>
    node_distance a b = node_distance b a \<and>
    (node_distance t a = node_distance t b \<longleftrightarrow> a = b)"
  using bucket_index_log [OF assms(1,2)] node_distance_sym [of a b] node_distance_inject [OF assms(3,1,2)]
    be_nat_less [of "node_distance t a" "node_distance t b"] assms
  by auto

lemma ex_ids_ok: "node_id_ok (NodeId (replicate 32 0))" "node_id_ok (NodeId (replicate 31 0 @ [x]))"
  by (simp_all add: node_id_ok_def ID_LEN_def)

lemma xor_zeros: "map2 (XOR) (replicate (length ys) 0) ys = (ys :: bytes)"
  by (induction ys) auto

lemma be_nat_zeros: "be_nat (replicate n 0 @ ds) = be_nat ds"
  by (induction n) auto

lemma ex_distance: "be_nat (node_distance (NodeId (replicate 32 0)) (NodeId (replicate 31 0 @ [5]))) = 5"
  using xor_zeros [of "replicate 31 0 @ [5]"] by (simp add: node_distance_def be_nat_zeros)

theorem xor_metric_buckets_witness:
  "bucket_index (NodeId (replicate 32 0)) (NodeId (replicate 31 0 @ [5])) = Some 2"
  using xor_metric_buckets [OF ex_ids_ok(1) ex_ids_ok(2) [of 5] ex_ids_ok(1), of 2]
  unfolding ex_distance by (simp add: BITS_def ID_LEN_def)

section \<open>The routing table\<close>

lemma position_Some:
  "position P xs = Some i \<Longrightarrow> i < length xs \<and> P (xs ! i)"
  by (induction P xs arbitrary: i rule: position.induct) (auto split: if_splits)

lemma position_None: "position P xs = None \<longleftrightarrow> (\<forall>x \<in> set xs. \<not> P x)"
  by (induction P xs rule: position.induct) auto

lemma mset_remove_at: "i < length xs \<Longrightarrow> add_mset (xs ! i) (mset (remove_at i xs)) = mset xs"
  by (metis add_mset_add_single append_Cons append_Nil append_take_drop_id Cons_nth_drop_Suc mset.simps(2)
      mset_append remove_at_def union_mset_add_mset_right)

lemma bucket_insert_mset:
  "mset (bucket_insert c b) =
     (if (\<exists>d \<in> set b. c_id d = c_id c) \<or> K \<le> length b then mset b else add_mset c (mset b))"
proof (cases "position (\<lambda>d. c_id d = c_id c) b")
  case None
  then have "\<forall>d \<in> set b. c_id d \<noteq> c_id c" by (simp add: position_None)
  with None show ?thesis by (auto simp: bucket_insert_def)
next
  case (Some i)
  then have i: "i < length b" "c_id (b ! i) = c_id c" using position_Some [OF Some] by auto
  then have "\<exists>d \<in> set b. c_id d = c_id c" by (meson nth_mem)
  with Some i show ?thesis using mset_remove_at [OF i(1)] by (simp add: bucket_insert_def Let_def)
qed

lemma mset_bucket_ok:
  "mset b' = mset b \<Longrightarrow> bucket_ok l i b' \<longleftrightarrow> bucket_ok l i b"
  unfolding bucket_ok_def
  by (metis mset_eq_imp_distinct_iff mset_eq_length mset_eq_setD mset_map)

lemma bucket_insert_ok:
  assumes "bucket_ok l i b" "node_id_ok (c_id c)" "bucket_index l (c_id c) = Some i"
  shows "bucket_ok l i (bucket_insert c b)"
proof (cases "(\<exists>d \<in> set b. c_id d = c_id c) \<or> K \<le> length b")
  case True
  then show ?thesis using assms(1) mset_bucket_ok bucket_insert_mset [of c b] by metis
next
  case False
  then have "mset (bucket_insert c b) = mset (c # b)" by (auto simp: bucket_insert_mset)
  moreover have "bucket_ok l i (c # b)" using False assms by (auto simp: bucket_ok_def)
  ultimately show ?thesis using mset_bucket_ok by blast
qed

lemma rt_new_local [simp]: "rt_local (rt_new l) = l"
  by (simp add: rt_new_def)

lemma rt_new_inv: "node_id_ok l \<Longrightarrow> rt_inv (rt_new l)"
  by (simp add: rt_inv_def rt_new_def bucket_ok_def)

lemma rt_insert_local [simp]: "rt_local (rt_insert c rt) = rt_local rt"
  by (simp add: rt_insert_def split: option.split)

lemma rt_insert_inv:
  assumes "rt_inv rt" "node_id_ok (c_id c)"
  shows "rt_inv (rt_insert c rt)"
proof (cases "bucket_index (rt_local rt) (c_id c)")
  case None
  then show ?thesis using assms by (simp add: rt_insert_def)
next
  case (Some k)
  have "bucket_ok (rt_local rt) i ((rt_buckets rt)[k := bucket_insert c (rt_buckets rt ! k)] ! i)"
    if "i < BITS" for i
    using that assms Some bucket_insert_ok [of "rt_local rt" k _ c]
    by (cases "i = k") (auto simp: rt_inv_def)
  then show ?thesis using assms Some by (simp add: rt_inv_def rt_insert_def)
qed

definition rt_known :: "routing_table \<Rightarrow> contact set" where
  "rt_known rt = set (concat (rt_buckets rt))"

lemma distinct_concat_keyed:
  assumes "\<And>i. i < length bs \<Longrightarrow> distinct (map f (bs ! i)) \<and> (\<forall>c \<in> set (bs ! i). g (f c) = Some (i + k))"
  shows "distinct (map f (concat bs))"
  using assms
proof (induction bs arbitrary: k)
  case (Cons b bs)
  have b: "distinct (map f b)" "\<forall>c \<in> set b. g (f c) = Some k" using Cons.prems [of 0] by auto
  have tl: "distinct (map f (bs ! i)) \<and> (\<forall>c \<in> set (bs ! i). g (f c) = Some (i + Suc k))"
    if "i < length bs" for i
    using Cons.prems [of "Suc i"] that by simp
  have "g (f c) \<noteq> Some k" if c: "c \<in> set (concat bs)" for c
  proof -
    from c obtain b' where "b' \<in> set bs" "c \<in> set b'" by auto
    then obtain i where "i < length bs" "c \<in> set (bs ! i)" by (metis in_set_conv_nth)
    with tl [of i] show ?thesis by auto
  qed
  then have "f ` set b \<inter> f ` set (concat bs) = {}" using b(2) by force
  with b Cons.IH [OF tl] show ?case by simp
qed simp

lemma rt_known_distinct: "rt_inv rt \<Longrightarrow> distinct (map c_id (concat (rt_buckets rt)))"
  using distinct_concat_keyed [of "rt_buckets rt" c_id "bucket_index (rt_local rt)" 0]
  by (auto simp: rt_inv_def bucket_ok_def)

lemma rt_known_ok:
  assumes "rt_inv rt" "c \<in> rt_known rt"
  shows "node_id_ok (c_id c)" "c_id c \<noteq> rt_local rt"
proof -
  from assms(2) obtain b where "b \<in> set (rt_buckets rt)" "c \<in> set b" by (auto simp: rt_known_def)
  then obtain i where i: "i < BITS" "c \<in> set (rt_buckets rt ! i)"
    using assms(1) by (auto simp: rt_inv_def in_set_conv_nth)
  with assms(1) have c: "node_id_ok (c_id c)" "bucket_index (rt_local rt) (c_id c) = Some i"
    "node_id_ok (rt_local rt)"
    by (auto simp: rt_inv_def bucket_ok_def)
  then show "node_id_ok (c_id c)" "c_id c \<noteq> rt_local rt"
    using bucket_index_log(1) [of "rt_local rt" "c_id c"] by auto
qed


lemma rt_known_insert:
  assumes "rt_inv rt" "node_id_ok (c_id c)"
  shows "rt_known rt \<subseteq> rt_known (rt_insert c rt) \<and> rt_known (rt_insert c rt) \<subseteq> insert c (rt_known rt)"
proof (cases "bucket_index (rt_local rt) (c_id c)")
  case None
  then show ?thesis by (auto simp: rt_insert_def)
next
  case (Some k)
  let ?b = "rt_buckets rt ! k"
  have k: "k < length (rt_buckets rt)"
    using assms Some bucket_index_log(3) [of "rt_local rt" "c_id c" k] by (simp add: rt_inv_def)
  have b: "set ?b \<subseteq> set (bucket_insert c ?b)" "set (bucket_insert c ?b) \<subseteq> insert c (set ?b)"
    using bucket_insert_mset [of c ?b] by (metis insertCI set_mset_add_mset_insert set_mset_mset subsetI)+
  have split: "rt_buckets rt = take k (rt_buckets rt) @ ?b # drop (Suc k) (rt_buckets rt)"
    using k by (simp add: id_take_nth_drop)
  have "set (concat ((rt_buckets rt)[k := bucket_insert c ?b])) =
    set (concat (take k (rt_buckets rt))) \<union> set (bucket_insert c ?b) \<union> set (concat (drop (Suc k) (rt_buckets rt)))"
    using k by (simp add: upd_conv_take_nth_drop Un_assoc)
  moreover have "rt_known rt =
    set (concat (take k (rt_buckets rt))) \<union> set ?b \<union> set (concat (drop (Suc k) (rt_buckets rt)))"
    unfolding rt_known_def by (subst split) (simp add: Un_assoc)
  ultimately show ?thesis using Some b by (auto simp: rt_insert_def rt_known_def)
qed

lemma rt_len_known: "rt_inv rt \<Longrightarrow> rt_len rt = card (c_id ` rt_known rt)"
  using rt_known_distinct [of rt] distinct_card [of "map c_id (concat (rt_buckets rt))"]
  by (simp add: rt_len_def rt_known_def length_concat)

lemma closest_distinct: "rt_inv rt \<Longrightarrow> distinct (map c_id (rt_closest t n rt))"
proof -
  assume "rt_inv rt"
  then have "distinct (map c_id (by_distance t (concat (rt_buckets rt))))"
    using rt_known_distinct [of rt]
    by (simp add: by_distance_def) (metis mset_eq_imp_distinct_iff mset_map mset_sort)
  then show ?thesis by (simp add: rt_closest_def flip: take_map)
qed

text \<open>
  C35. The routing table: inserting a contact keeps the invariant (one bucket per bit, at most 8
  contacts in each, no identifier twice, every contact in the bucket of its distance), never forgets a
  contact and adds at most the new one, never the local node; and \<open>closest(t, n)\<close> is exactly the
  \<open>min(n, len)\<close> known contacts nearest to \<open>t\<close>: in increasing distance, every contact left out being
  strictly farther than every contact returned.
\<close>

theorem routing_table_correct:
  assumes "rt_inv rt" "node_id_ok (c_id c)" "node_id_ok t"
  shows "rt_inv (rt_insert c rt) \<and>
    rt_known rt \<subseteq> rt_known (rt_insert c rt) \<and> rt_known (rt_insert c rt) \<subseteq> insert c (rt_known rt) \<and>
    (\<forall>d \<in> rt_known rt. c_id d \<noteq> rt_local rt) \<and>
    length (rt_closest t n rt) = min n (rt_len rt) \<and>
    set (rt_closest t n rt) \<subseteq> rt_known rt \<and>
    sorted_wrt (<) (map (\<lambda>d. node_distance t (c_id d)) (rt_closest t n rt)) \<and>
    (\<forall>d \<in> set (rt_closest t n rt). \<forall>e \<in> rt_known rt - set (rt_closest t n rt).
       node_distance t (c_id d) < node_distance t (c_id e))"
proof -
  let ?cl = "rt_closest t n rt" and ?f = "\<lambda>d. node_distance t (c_id d)"
  have sub: "set ?cl \<subseteq> rt_known rt"
    by (auto simp: rt_closest_def by_distance_def rt_known_def dest: set_take_sort_key)
  have inj: "c_id d = c_id e" if "d \<in> rt_known rt" "e \<in> rt_known rt" "?f d = ?f e" for d e
    using that rt_known_ok(1) [OF assms(1)] node_distance_inject [OF assms(3)] by blast
  have inj_id: "d = e" if "d \<in> rt_known rt" "e \<in> rt_known rt" "c_id d = c_id e" for d e
    using that rt_known_distinct [OF assms(1)] by (auto simp: rt_known_def distinct_map inj_on_def)
  have "sorted (map ?f ?cl)"
    by (simp add: rt_closest_def by_distance_def sorted_wrt_take flip: take_map)
  moreover have "distinct (map ?f ?cl)"
    using closest_distinct [OF assms(1), of t n] sub inj inj_id
    unfolding distinct_map inj_on_def by (meson subsetD)
  ultimately have "sorted_wrt (<) (map ?f ?cl)" by (simp add: strict_sorted_iff)
  moreover have "?f d < ?f e" if "d \<in> set ?cl" "e \<in> rt_known rt" "e \<notin> set ?cl" for d e
  proof -
    have "?f d \<le> ?f e" using that take_sort_key_least [of d n ?f "concat (rt_buckets rt)" e]
      by (simp add: rt_closest_def by_distance_def rt_known_def)
    moreover have "?f d \<noteq> ?f e" using that sub inj inj_id by (metis subsetD)
    ultimately show ?thesis by simp
  qed
  moreover have "length ?cl = min n (rt_len rt)"
    by (simp add: rt_closest_def by_distance_def rt_len_def length_concat)
  ultimately show ?thesis
    using sub rt_insert_inv [OF assms(1,2)] rt_known_insert [OF assms(1,2)] rt_known_ok(2) [OF assms(1)]
    by blast
qed

text \<open>A table of two contacts for the witness.\<close>

definition ex_contact :: "u8 \<Rightarrow> contact" where
  "ex_contact x = \<lparr>c_id = NodeId (replicate 31 0 @ [x]), c_addr = Ip (V4 [1, 2, 3, x] 80)\<rparr>"

definition ex_table :: routing_table where
  "ex_table = rt_insert (ex_contact 9) (rt_insert (ex_contact 5) (rt_new (NodeId (replicate 32 0))))"

lemma ex_table_inv: "rt_inv ex_table"
  unfolding ex_table_def
  by (intro rt_insert_inv rt_new_inv) (auto simp: ex_contact_def ex_ids_ok)

theorem routing_table_correct_witness:
  "rt_inv (rt_insert (ex_contact 7) ex_table) \<and>
   length (rt_closest (NodeId (replicate 32 0)) 1 ex_table) = min 1 (rt_len ex_table)"
  using routing_table_correct [OF ex_table_inv, of "ex_contact 7" "NodeId (replicate 32 0)" 1]
  by (simp add: ex_contact_def ex_ids_ok)

end
