(* ===== verification/Peer_Directory.thy ===== *)
theory Peer_Directory
  imports Peer_Addr
begin

text \<open>
  The contract shared by the two peer directories of the program, the value store of the DHT node and
  the announce tracker of the user-interface server: announcements arrive unauthenticated, each is
  recorded under its key with the time it came, and nothing else changes what a key holds.  The
  locale states it over the set of recorded pairs; what a client learns after any history of
  announcements is proved once.
\<close>

locale peer_directory =
  fixes announce :: "'t \<Rightarrow> 'k \<Rightarrow> peer_addr \<Rightarrow> 's \<Rightarrow> 's"
    and stored :: "'s \<Rightarrow> 'k \<Rightarrow> (peer_addr \<times> 't) set"
    and inv :: "'s \<Rightarrow> bool"
    and cap :: nat
  assumes inv_announce: "inv s \<Longrightarrow> inv (announce t k p s)"
    and stored_announce: "inv s \<Longrightarrow>
      stored (announce t k p s) k' \<subseteq> (if k' = k then insert (p, t) (stored s k') else stored s k')"
    and stored_cap: "inv s \<Longrightarrow> finite (stored s k) \<and> card (stored s k) \<le> cap"
begin

definition run :: "('t \<times> 'k \<times> peer_addr) list \<Rightarrow> 's \<Rightarrow> 's" where
  "run ops s = foldl (\<lambda>s (t, k, p). announce t k p s) s ops"

lemma run_Nil [simp]: "run [] s = s"
  by (simp add: run_def)

lemma run_Cons [simp]: "run ((t, k, p) # ops) s = run ops (announce t k p s)"
  by (simp add: run_def)

lemma inv_run: "inv s \<Longrightarrow> inv (run ops s)"
  by (induction ops arbitrary: s) (auto simp: inv_announce)

text \<open>After any history, what a key holds was announced under that key at that time.\<close>

lemma run_sound:
  "inv s \<Longrightarrow> (p, t) \<in> stored (run ops s) k \<Longrightarrow> (t, k, p) \<in> set ops \<or> (p, t) \<in> stored s k"
proof (induction ops arbitrary: s)
  case (Cons op ops)
  obtain t' k' p' where op: "op = (t', k', p')" by (cases op)
  with Cons.prems have "(t, k, p) \<in> set ops \<or> (p, t) \<in> stored (announce t' k' p' s) k"
    using Cons.IH inv_announce by simp
  then show ?case using stored_announce [OF Cons.prems(1), of t' k' p' k] op by (auto split: if_splits)
qed simp

lemma run_cap: "inv s \<Longrightarrow> card (stored (run ops s) k) \<le> cap"
  using inv_run stored_cap by blast

end

end
