(* ===== verification/Dht_Store.thy ===== *)
theory Dht_Store
  imports Dht_Routing Peer_Directory
begin

text \<open>
  The value store of the DHT node, after \<^verbatim>\<open>epix-dht/src/store.rs\<close>: the peers announced for a key,
  with expiry and a cap per key.  The clock is an argument \<open>now\<close> of every operation that reads it
  (one reading per call); \<open>elapsed()\<close> is the saturating difference to it.
\<close>

definition MAX_PEERS_PER_KEY :: nat where "MAX_PEERS_PER_KEY = 128"

record peer_store =
  ps_entries :: "node_id \<rightharpoonup> (peer_addr \<times> nat) list"
  ps_ttl :: nat

definition ps_new :: "nat \<Rightarrow> peer_store" where
  "ps_new ttl = \<lparr>ps_entries = Map.empty, ps_ttl = ttl\<rparr>"

definition fresh_entry :: "nat \<Rightarrow> nat \<Rightarrow> peer_addr \<times> nat \<Rightarrow> bool" where
  "fresh_entry ttl now e \<longleftrightarrow> now - snd e < ttl"

text \<open>\<open>(0..len).min_by_key(|i| list[i].1)\<close>: the first index of least timestamp.\<close>

definition oldest_index :: "(peer_addr \<times> nat) list \<Rightarrow> nat option" where
  "oldest_index l =
     (if l = [] then None else position (\<lambda>e. snd e = Min (set (map snd l))) l)"

definition evict_oldest :: "(peer_addr \<times> nat) list \<Rightarrow> (peer_addr \<times> nat) list" where
  "evict_oldest l = (case oldest_index l of None \<Rightarrow> l | Some i \<Rightarrow> remove_at i l)"

definition make_room :: "nat \<Rightarrow> nat \<Rightarrow> (peer_addr \<times> nat) list \<Rightarrow> (peer_addr \<times> nat) list" where
  "make_room ttl now l =
     (if MAX_PEERS_PER_KEY \<le> length l
      then (let l' = filter (fresh_entry ttl now) l
            in if MAX_PEERS_PER_KEY \<le> length l' then evict_oldest l' else l')
      else l)"

definition list_add :: "nat \<Rightarrow> nat \<Rightarrow> peer_addr \<Rightarrow> (peer_addr \<times> nat) list \<Rightarrow> (peer_addr \<times> nat) list" where
  "list_add ttl now peer l =
     (case position (\<lambda>e. fst e = peer) l of
        Some i \<Rightarrow> l[i := (fst (l ! i), now)]
      | None \<Rightarrow> make_room ttl now l @ [(peer, now)])"

definition entry_list :: "peer_store \<Rightarrow> node_id \<Rightarrow> (peer_addr \<times> nat) list" where
  "entry_list s key = (case ps_entries s key of None \<Rightarrow> [] | Some l \<Rightarrow> l)"

definition ps_add :: "nat \<Rightarrow> node_id \<Rightarrow> peer_addr \<Rightarrow> peer_store \<Rightarrow> peer_store" where
  "ps_add now key peer s =
     s\<lparr>ps_entries := (ps_entries s)(key \<mapsto> list_add (ps_ttl s) now peer (entry_list s key))\<rparr>"

definition ps_get :: "nat \<Rightarrow> node_id \<Rightarrow> peer_store \<Rightarrow> peer_addr list" where
  "ps_get now key s =
     (case ps_entries s key of
        None \<Rightarrow> []
      | Some l \<Rightarrow> map fst (filter (fresh_entry (ps_ttl s) now) l))"

definition ps_expire :: "nat \<Rightarrow> peer_store \<Rightarrow> peer_store" where
  "ps_expire now s =
     s\<lparr>ps_entries := (\<lambda>key.
         case ps_entries s key of
           None \<Rightarrow> None
         | Some l \<Rightarrow> (let l' = filter (fresh_entry (ps_ttl s) now) l in if l' = [] then None else Some l'))\<rparr>"

text \<open>Invariant: no key holds more than the cap or a peer twice.\<close>

definition entries_ok :: "(peer_addr \<times> nat) list \<Rightarrow> bool" where
  "entries_ok l \<longleftrightarrow> length l \<le> MAX_PEERS_PER_KEY \<and> distinct (map fst l)"

definition ps_inv :: "peer_store \<Rightarrow> bool" where
  "ps_inv s \<longleftrightarrow> (\<forall>key. entries_ok (entry_list s key))"

section \<open>One list\<close>

lemma oldest_index_Some:
  "l \<noteq> [] \<Longrightarrow> \<exists>i. oldest_index l = Some i \<and> i < length l \<and> (\<forall>e \<in> set l. snd (l ! i) \<le> snd e)"
proof -
  assume "l \<noteq> []"
  then have "Min (set (map snd l)) \<in> set (map snd l)" by (intro Min_in) auto
  then have "\<not> (\<forall>e \<in> set l. \<not> snd e = Min (set (map snd l)))" by force
  then obtain i where i: "position (\<lambda>e. snd e = Min (set (map snd l))) l = Some i"
    using position_None [of "\<lambda>e. snd e = Min (set (map snd l))" l] by fastforce
  then have "i < length l" "snd (l ! i) = Min (set (map snd l))" using position_Some by fastforce+
  with i \<open>l \<noteq> []\<close> show ?thesis by (simp add: oldest_index_def)
qed

lemma evict_oldest_mset:
  assumes "l \<noteq> []"
  obtains e where "e \<in> set l" "\<And>d. d \<in> set l \<Longrightarrow> snd e \<le> snd d" "mset l = add_mset e (mset (evict_oldest l))"
proof -
  obtain i where i: "oldest_index l = Some i" "i < length l" "\<forall>e \<in> set l. snd (l ! i) \<le> snd e"
    using oldest_index_Some [OF assms] by blast
  then have "mset l = add_mset (l ! i) (mset (evict_oldest l))"
    using mset_remove_at [OF i(2)] by (simp add: evict_oldest_def)
  with i that show thesis by (metis nth_mem)
qed

lemma evict_oldest_subset: "mset (evict_oldest l) \<subseteq># mset l"
proof (cases "l = []")
  case False
  then obtain e where "mset l = add_mset e (mset (evict_oldest l))" by (rule evict_oldest_mset)
  then show ?thesis by simp
qed (simp add: evict_oldest_def oldest_index_def)

lemma make_room_subset: "mset (make_room ttl now l) \<subseteq># mset l"
proof -
  have f: "mset (filter (fresh_entry ttl now) l) \<subseteq># mset l" by (simp add: mset_filter)
  then show ?thesis
    using subset_mset.order_trans [OF evict_oldest_subset f] unfolding make_room_def Let_def by simp
qed

lemma make_room_length: "length l \<le> MAX_PEERS_PER_KEY \<Longrightarrow> length (make_room ttl now l) < MAX_PEERS_PER_KEY"
proof -
  assume le: "length l \<le> MAX_PEERS_PER_KEY"
  let ?f = "filter (fresh_entry ttl now) l"
  have "length (evict_oldest ?f) < MAX_PEERS_PER_KEY" if "MAX_PEERS_PER_KEY \<le> length ?f"
  proof -
    from that have "?f \<noteq> []" by (auto simp: MAX_PEERS_PER_KEY_def)
    then obtain e where "mset ?f = add_mset e (mset (evict_oldest ?f))" by (rule evict_oldest_mset)
    then have "length ?f = Suc (length (evict_oldest ?f))" by (metis size_add_mset size_mset)
    then show ?thesis using le length_filter_le [of "fresh_entry ttl now" l] by linarith
  qed
  then show ?thesis unfolding make_room_def Let_def by auto
qed

lemma mset_subset_distinct: "mset a \<subseteq># mset b \<Longrightarrow> distinct (map f b) \<Longrightarrow> distinct (map f a)"
proof -
  assume sub: "mset a \<subseteq># mset b" and d: "distinct (map f b)"
  obtain c where "mset c = mset b - mset a" using ex_mset by blast
  with sub have "mset (a @ c) = mset b" by simp
  then have "distinct (map f (a @ c))" using d by (metis mset_eq_imp_distinct_iff mset_map)
  then show ?thesis by simp
qed

lemma make_room_set: "set (make_room ttl now l) \<subseteq> set l"
  using set_mset_mono [OF make_room_subset [of ttl now l]] by simp

lemma list_add_ok: "entries_ok l \<Longrightarrow> entries_ok (list_add ttl now p l)"
proof (cases "position (\<lambda>e. fst e = p) l")
  case None
  assume ok: "entries_ok l"
  have "p \<notin> fst ` set (make_room ttl now l)"
    using None make_room_set [of ttl now l] by (auto simp: position_None)
  moreover have "distinct (map fst (make_room ttl now l))"
    using ok mset_subset_distinct [OF make_room_subset] by (auto simp: entries_ok_def)
  moreover have "length (make_room ttl now l) < MAX_PEERS_PER_KEY"
    using ok make_room_length by (auto simp: entries_ok_def)
  ultimately show ?thesis using None by (simp add: list_add_def entries_ok_def)
next
  case (Some i)
  assume ok: "entries_ok l"
  have "i < length l" using position_Some [OF Some] by simp
  then have "map fst (l[i := (fst (l ! i), now)]) = map fst l"
    by (simp add: map_update) (metis list_update_id nth_map)
  with Some ok show ?thesis by (simp add: list_add_def entries_ok_def)
qed

lemma list_add_set: "set (list_add ttl now p l) \<subseteq> insert (p, now) (set l)"
proof (cases "position (\<lambda>e. fst e = p) l")
  case None
  then show ?thesis using make_room_set [of ttl now l] by (auto simp: list_add_def)
next
  case (Some i)
  then have "fst (l ! i) = p" using position_Some [OF Some] by simp
  with Some show ?thesis using set_update_subset_insert [of l i "(p, now)"] by (simp add: list_add_def)
qed

lemma list_add_mem: "(p, now) \<in> set (list_add ttl now p l)"
proof (cases "position (\<lambda>e. fst e = p) l")
  case (Some i)
  then have "i < length l" "fst (l ! i) = p" using position_Some [OF Some] by auto
  with Some show ?thesis by (simp add: list_add_def set_update_memI)
qed (simp add: list_add_def)

section \<open>The store\<close>

lemma entry_list_add [simp]:
  "entry_list (ps_add now key p s) k =
     (if k = key then list_add (ps_ttl s) now p (entry_list s k) else entry_list s k)"
  by (simp add: entry_list_def ps_add_def)

lemma ps_ttl_add [simp]: "ps_ttl (ps_add now key p s) = ps_ttl s"
  by (simp add: ps_add_def)

lemma ps_get_entry_list: "ps_get now key s = map fst (filter (fresh_entry (ps_ttl s) now) (entry_list s key))"
  by (simp add: ps_get_def entry_list_def split: option.split)

lemma ps_new_simps [simp]: "entry_list (ps_new ttl) key = []" "ps_ttl (ps_new ttl) = ttl"
  by (simp_all add: ps_new_def entry_list_def)

lemma ps_new_inv: "ps_inv (ps_new ttl)"
  by (simp add: ps_inv_def ps_new_def entry_list_def entries_ok_def)

lemma ps_add_inv: "ps_inv s \<Longrightarrow> ps_inv (ps_add now key p s)"
  by (simp add: ps_inv_def list_add_ok)

lemma entry_list_expire [simp]:
  "entry_list (ps_expire now s) key = filter (fresh_entry (ps_ttl s) now) (entry_list s key)"
  by (auto simp: ps_expire_def entry_list_def Let_def split: option.split)

lemma ps_expire_inv: "ps_inv s \<Longrightarrow> ps_inv (ps_expire now s)"
  by (auto simp: ps_inv_def entries_ok_def distinct_map_filter intro: order_trans [OF length_filter_le])

text \<open>Expiry never changes what a lookup at the same or a later time returns.\<close>

lemma ps_get_expire: "now \<le> later \<Longrightarrow> ps_get later key (ps_expire now s) = ps_get later key s"
proof -
  assume "now \<le> later"
  then have "fresh_entry ttl now e \<and> fresh_entry ttl later e \<longleftrightarrow> fresh_entry ttl later e" for ttl e
    by (auto simp: fresh_entry_def)
  moreover have "ps_ttl (ps_expire now s) = ps_ttl s" by (simp add: ps_expire_def)
  ultimately show ?thesis by (simp add: ps_get_entry_list)
qed

interpretation pstore: peer_directory ps_add "\<lambda>s k. set (entry_list s k)" ps_inv MAX_PEERS_PER_KEY
proof
  fix s :: peer_store and t k p k'
  assume inv: "ps_inv s"
  show "ps_inv (ps_add t k p s)" using inv by (rule ps_add_inv)
  show "set (entry_list (ps_add t k p s) k') \<subseteq>
      (if k' = k then insert (p, t) (set (entry_list s k')) else set (entry_list s k'))"
    using list_add_set by simp
  show "finite (set (entry_list s k)) \<and> card (set (entry_list s k)) \<le> MAX_PEERS_PER_KEY"
    using inv card_length [of "entry_list s k"] by (auto simp: ps_inv_def entries_ok_def intro: order_trans)
qed

section \<open>A re-announcing host survives a flood\<close>

text \<open>The entries that could push a host announced at \<open>t0\<close> out: those not older than it.\<close>

definition rivals :: "peer_addr \<Rightarrow> nat \<Rightarrow> (peer_addr \<times> nat) list \<Rightarrow> nat" where
  "rivals host t0 l = length (filter (\<lambda>e. fst e \<noteq> host \<and> t0 \<le> snd e) l)"

definition held :: "peer_addr \<Rightarrow> nat \<Rightarrow> (peer_addr \<times> nat) list \<Rightarrow> bool" where
  "held host t0 l \<longleftrightarrow> (\<exists>t \<ge> t0. (host, t) \<in> set l)"

lemma rivals_mset: "rivals host t0 l = size (filter_mset (\<lambda>e. fst e \<noteq> host \<and> t0 \<le> snd e) (mset l))"
  by (simp only: rivals_def size_mset mset_filter [symmetric])

lemma rivals_mono: "mset a \<subseteq># mset b \<Longrightarrow> rivals host t0 a \<le> rivals host t0 b"
  unfolding rivals_mset by (intro size_mset_mono multiset_filter_mono)

lemma length_rivals:
  assumes "distinct (map fst l)" "\<forall>e \<in> set l. t0 \<le> snd e"
  shows "length l \<le> Suc (rivals host t0 l)"
  using assms
proof (induction l)
  case (Cons e l)
  show ?case
  proof (cases "fst e = host")
    case True
    then have "\<forall>e' \<in> set l. fst e' \<noteq> host"
      using Cons.prems(1) by (metis distinct.simps(2) image_eqI list.simps(9) set_map)
    then have "filter (\<lambda>e. fst e \<noteq> host \<and> t0 \<le> snd e) l = l" using Cons.prems by (simp add: filter_id_conv)
    with True show ?thesis by (simp add: rivals_def)
  next
    case False
    then show ?thesis using Cons by (simp add: rivals_def)
  qed
qed simp

lemma held_evict:
  assumes "held host t0 l" "distinct (map fst l)" "rivals host t0 l < MAX_PEERS_PER_KEY - 1" "MAX_PEERS_PER_KEY \<le> length l"
  shows "held host t0 (evict_oldest l)"
proof -
  have "\<not> (\<forall>e \<in> set l. t0 \<le> snd e)"
  proof
    assume "\<forall>e \<in> set l. t0 \<le> snd e"
    then have "length l \<le> Suc (rivals host t0 l)" using length_rivals [OF assms(2)] by blast
    with assms(3,4) show False by simp
  qed
  then obtain d where d: "d \<in> set l" "snd d < t0" by auto
  then have "l \<noteq> []" by auto
  then obtain e where e: "\<And>d. d \<in> set l \<Longrightarrow> snd e \<le> snd d" "mset l = add_mset e (mset (evict_oldest l))"
    using evict_oldest_mset by blast
  have lt: "snd e < t0" using e(1) [OF d(1)] d(2) by simp
  obtain t where t: "t0 \<le> t" "(host, t) \<in> set l" using assms(1) by (auto simp: held_def)
  then have "(host, t) \<noteq> e" using lt by auto
  then have "(host, t) \<in> set (evict_oldest l)" using t e(2) by (metis insertE set_mset_add_mset_insert set_mset_mset)
  then show ?thesis using t by (auto simp: held_def)
qed


lemma held_make_room:
  assumes "held host t0 l" "entries_ok l" "rivals host t0 l < MAX_PEERS_PER_KEY - 1" "now - t0 < ttl"
  shows "held host t0 (make_room ttl now l)"
proof -
  let ?f = "filter (fresh_entry ttl now) l"
  have h: "held host t0 ?f"
    using assms(1,4) by (auto simp: held_def fresh_entry_def)
  have d: "distinct (map fst ?f)" using assms(2) by (simp add: entries_ok_def distinct_map_filter)
  have "rivals host t0 ?f \<le> rivals host t0 l" by (rule rivals_mono) (simp add: mset_filter)
  then have "held host t0 (evict_oldest ?f)" if "MAX_PEERS_PER_KEY \<le> length ?f"
    using held_evict [OF h d _ that] assms(3) by simp
  then show ?thesis using h assms(1) unfolding make_room_def Let_def by auto
qed

lemma rivals_update:
  assumes "i < length l"
  shows "rivals host t0 (l[i := e]) \<le> Suc (rivals host t0 l)"
proof -
  have "l = take i l @ l ! i # drop (Suc i) l" using assms by (simp add: id_take_nth_drop)
  moreover have "l[i := e] = take i l @ e # drop (Suc i) l" using assms by (simp add: upd_conv_take_nth_drop)
  moreover have "rivals host t0 (a @ x # b) \<le> Suc (rivals host t0 (a @ y # b))" for a b x y
    by (simp add: rivals_def)
  ultimately show ?thesis by metis
qed

lemma held_list_add:
  assumes "held host t0 l" "entries_ok l" "rivals host t0 l < MAX_PEERS_PER_KEY - 1" "now - t0 < ttl" "t0 \<le> now"
  shows "held host t0 (list_add ttl now p l) \<and> rivals host t0 (list_add ttl now p l) \<le> Suc (rivals host t0 l)"
proof (cases "position (\<lambda>e. fst e = p) l")
  case None
  have "rivals host t0 (make_room ttl now l) \<le> rivals host t0 l" by (rule rivals_mono [OF make_room_subset])
  then have "rivals host t0 (make_room ttl now l @ [(p, now)]) \<le> Suc (rivals host t0 l)"
    by (simp add: rivals_def)
  then show ?thesis
    using None held_make_room [OF assms(1-4)] by (auto simp: list_add_def held_def)
next
  case (Some i)
  then have i: "i < length l" "fst (l ! i) = p" using position_Some [OF Some] by auto
  obtain t where t: "t0 \<le> t" "(host, t) \<in> set l" using assms(1) by (auto simp: held_def)
  then obtain j where j: "j < length l" "l ! j = (host, t)" by (metis in_set_conv_nth)
  have "held host t0 (l[i := (p, now)])"
  proof (cases "i = j")
    case True
    with i j have "p = host" by simp
    then show ?thesis using i assms(5) by (auto simp: held_def intro!: exI [of _ now] set_update_memI)
  next
    case False
    then have "(l[i := (p, now)]) ! j = (host, t)" using j by simp
    then have "(host, t) \<in> set (l[i := (p, now)])" using j by (metis length_list_update nth_mem)
    with t show ?thesis by (auto simp: held_def)
  qed
  with Some i rivals_update [OF i(1)] show ?thesis by (simp add: list_add_def)
qed

lemma held_run:
  assumes "ps_inv s" "held host t0 (entry_list s key)"
    and "\<forall>(t, k, p) \<in> set ops. t0 \<le> t \<and> t - t0 < ps_ttl s"
    and "rivals host t0 (entry_list s key) + length (filter (\<lambda>(t, k, p). k = key) ops) < MAX_PEERS_PER_KEY"
  shows "held host t0 (entry_list (pstore.run ops s) key) \<and> ps_ttl (pstore.run ops s) = ps_ttl s"
  using assms
proof (induction ops arbitrary: s)
  case (Cons op ops)
  obtain t k p where op: "op = (t, k, p)" by (cases op)
  let ?s = "ps_add t k p s"
  have t: "t0 \<le> t" "t - t0 < ps_ttl s" using Cons.prems(3) op by auto
  have ok: "entries_ok (entry_list s key)" using Cons.prems(1) by (simp add: ps_inv_def)
  have "held host t0 (entry_list ?s key) \<and>
    rivals host t0 (entry_list ?s key) + length (filter (\<lambda>(t, k, p). k = key) ops) < MAX_PEERS_PER_KEY"
  proof (cases "k = key")
    case True
    then have "rivals host t0 (entry_list s key) < MAX_PEERS_PER_KEY - 1" using Cons.prems(4) op by simp
    from held_list_add [OF Cons.prems(2) ok this t(2,1), of p] show ?thesis
      using True Cons.prems(4) op by simp
  next
    case False
    then show ?thesis using Cons.prems op by auto
  qed
  then show ?case using Cons.IH [of ?s] Cons.prems op ps_add_inv by simp
qed simp

text \<open>
  C34. The unauthenticated value store under a flood: from any reachable state, whatever announcements
  follow, no key holds more than 128 peers or a peer twice, every peer a lookup returns was announced
  under that key, and a genuine host is not displaced: after it announces at \<open>t0\<close>, fewer than 128
  later announcements for its key (counting entries already recorded at \<open>t0\<close> or later) leave it in
  the answer until its entry expires.
\<close>

theorem peer_store_flood:
  assumes "ps_inv s"
    and "\<forall>(t, k, p) \<in> set ops. t0 \<le> t \<and> t - t0 < ps_ttl s"
    and "rivals host t0 (entry_list (ps_add t0 key host s) key) +
      length (filter (\<lambda>(t, k, p). k = key) ops) < MAX_PEERS_PER_KEY"
    and "now - t0 < ps_ttl s"
  shows "ps_inv (foldl (\<lambda>s (t, k, p). ps_add t k p s) (ps_add t0 key host s) ops) \<and>
    host \<in> set (ps_get now key (foldl (\<lambda>s (t, k, p). ps_add t k p s) (ps_add t0 key host s) ops)) \<and>
    (\<forall>p \<in> set (ps_get now key (foldl (\<lambda>s (t, k, p). ps_add t k p s) (ps_add t0 key host s) ops)).
       p = host \<or> (\<exists>t. (t, key, p) \<in> set ops) \<or> p \<in> fst ` set (entry_list s key))"
proof -
  let ?s = "ps_add t0 key host s"
  let ?r = "pstore.run ops ?s"
  have inv: "ps_inv ?s" using assms(1) by (rule ps_add_inv)
  have "held host t0 (entry_list ?s key)" using list_add_mem by (auto simp: held_def)
  from held_run [OF inv this] assms(2,3)
  have h: "held host t0 (entry_list ?r key)" "ps_ttl ?r = ps_ttl s" by auto
  then have "host \<in> set (ps_get now key ?r)"
    using assms(4) by (force simp: ps_get_entry_list held_def fresh_entry_def)
  moreover have "p = host \<or> (\<exists>t. (t, key, p) \<in> set ops) \<or> p \<in> fst ` set (entry_list s key)"
    if p: "p \<in> set (ps_get now key ?r)" for p
  proof -
    obtain t where "(p, t) \<in> set (entry_list ?r key)" using p by (auto simp: ps_get_entry_list)
    then have "(t, key, p) \<in> set ops \<or> (p, t) \<in> set (entry_list ?s key)"
      using pstore.run_sound [OF inv] by blast
    then show ?thesis using list_add_set [of "ps_ttl s" t0 host "entry_list s key"] by force
  qed
  ultimately show ?thesis using pstore.inv_run [OF inv] by (simp add: pstore.run_def)
qed

theorem peer_store_flood_witness:
  "Ip (V4 [1, 2, 3, 4] 80) \<in> set (ps_get 20 (NodeId []) (ps_add 12 (NodeId []) (Rns [7]) (ps_add 10 (NodeId []) (Ip (V4 [1, 2, 3, 4] 80)) (ps_new 60))))"
  using peer_store_flood [OF ps_new_inv, of "[(12, NodeId [], Rns [7])]" 10 60 "Ip (V4 [1, 2, 3, 4] 80)" "NodeId []" 20]
  by (simp add: list_add_def make_room_def rivals_def MAX_PEERS_PER_KEY_def)

end
