(* ===== verification/Dht_Node.thy ===== *)
theory Dht_Node
  imports Dht_Store Rust_Std
begin

text \<open>
  The Kademlia node, after \<^verbatim>\<open>epix-dht/src/node.rs\<close> and \<^verbatim>\<open>rpc.rs\<close>: serving inbound requests, the
  iterative lookup, announcing and bootstrapping.

  The network is the parameter \<open>rpc\<close>: what a contact answers to a request, an error
  included.  One lookup sends at most one request to an identifier, so a function of the contact covers
  every behaviour of the network during a lookup; nothing is assumed of the answers but that their
  identifiers have 32 bytes, which their type guarantees.  The lookup is an unbounded loop and is
  modelled with fuel; that enough fuel always exists is part of what is proved.
\<close>

datatype request = Ping | FindNode node_id | GetPeers node_id | Announce node_id peer_addr

datatype response = Pong | Nodes "contact list" | Peers "peer_addr list" "contact list" | Ack

type_synonym rpc = "contact \<Rightarrow> request \<Rightarrow> string + response"

definition ALPHA :: nat where "ALPHA = 3"

record dht_node =
  n_id :: node_id
  n_routing :: routing_table
  n_store :: peer_store

definition node_new :: "node_id \<Rightarrow> dht_node" where
  "node_new i = \<lparr>n_id = i, n_routing = rt_new i, n_store = ps_new (30 * 60)\<rparr>"

definition add_contact :: "contact \<Rightarrow> dht_node \<Rightarrow> dht_node" where
  "add_contact c node = node\<lparr>n_routing := rt_insert c (n_routing node)\<rparr>"

definition routing_len :: "dht_node \<Rightarrow> nat" where
  "routing_len node = rt_len (n_routing node)"

definition handle :: "nat \<Rightarrow> contact \<Rightarrow> request \<Rightarrow> dht_node \<Rightarrow> response \<times> dht_node" where
  "handle now from req node0 =
     (let node = node0\<lparr>n_routing := rt_insert from (n_routing node0)\<rparr> in
      case req of
        Ping \<Rightarrow> (Pong, node)
      | FindNode target \<Rightarrow> (Nodes (rt_closest target K (n_routing node)), node)
      | GetPeers key \<Rightarrow>
          (let peers = ps_get now key (n_store node); nodes = rt_closest key K (n_routing node)
           in (Peers peers nodes, node))
      | Announce key peer \<Rightarrow> (Ack, node\<lparr>n_store := ps_add now key peer (n_store node)\<rparr>))"

section \<open>The iterative lookup\<close>

record lookup =
  lk_shortlist :: "contact list"
  lk_queried :: "node_id set"
  lk_peers :: "peer_addr list"
  lk_routing :: routing_table

definition lookup_batch :: "lookup \<Rightarrow> contact list" where
  "lookup_batch st = take ALPHA (filter (\<lambda>c. c_id c \<notin> lk_queried st) (lk_shortlist st))"

text \<open>The nodes and the peers of an answer, as the match in the loop takes them.\<close>

fun reply_nodes :: "string + response \<Rightarrow> contact list" where
  "reply_nodes (Inr (Nodes nodes)) = nodes"
| "reply_nodes (Inr (Peers p nodes)) = nodes"
| "reply_nodes _ = []"

fun reply_peers :: "string + response \<Rightarrow> peer_addr list" where
  "reply_peers (Inr (Peers p nodes)) = p"
| "reply_peers _ = []"

definition push_node :: "node_id \<Rightarrow> contact list \<Rightarrow> contact \<Rightarrow> contact list" where
  "push_node self shortlist n =
     (if c_id n \<noteq> self \<and> \<not> (\<exists>c \<in> set shortlist. c_id c = c_id n) then shortlist @ [n] else shortlist)"

definition apply_reply :: "node_id \<Rightarrow> lookup \<Rightarrow> contact \<times> (string + response) \<Rightarrow> lookup" where
  "apply_reply self st cr =
     (case cr of (contact, res) \<Rightarrow>
        st\<lparr>lk_queried := insert (c_id contact) (lk_queried st),
           lk_routing := rt_insert contact (lk_routing st),
           lk_peers := lk_peers st @ reply_peers res,
           lk_shortlist := foldl (push_node self) (lk_shortlist st) (reply_nodes res)\<rparr>)"

definition lookup_request :: "bool \<Rightarrow> node_id \<Rightarrow> request" where
  "lookup_request want_peers target = (if want_peers then GetPeers target else FindNode target)"

definition lookup_round :: "node_id \<Rightarrow> node_id \<Rightarrow> (contact \<Rightarrow> string + response) \<Rightarrow> lookup \<Rightarrow> lookup" where
  "lookup_round self target ask st =
     (let st' = foldl (apply_reply self) st (map (\<lambda>c. (c, ask c)) (lookup_batch st))
      in st'\<lparr>lk_shortlist := take K (by_distance target (lk_shortlist st'))\<rparr>)"

fun lookup_loop ::
    "nat \<Rightarrow> node_id \<Rightarrow> node_id \<Rightarrow> (contact \<Rightarrow> string + response) \<Rightarrow> lookup \<Rightarrow> lookup option" where
  "lookup_loop 0 self target ask st = None"
| "lookup_loop (Suc fuel) self target ask st =
     (if lookup_batch st = [] then Some st
      else lookup_loop fuel self target ask (lookup_round self target ask st))"

definition iterative ::
    "nat \<Rightarrow> node_id \<Rightarrow> rpc \<Rightarrow> bool \<Rightarrow> dht_node \<Rightarrow> (contact list \<times> peer_addr list \<times> dht_node) option" where
  "iterative fuel target rpc want_peers node =
     (let st0 = \<lparr>lk_shortlist = rt_closest target K (n_routing node), lk_queried = {},
                 lk_peers = [], lk_routing = n_routing node\<rparr> in
      case lookup_loop fuel (n_id node) target (\<lambda>c. rpc c (lookup_request want_peers target)) st0 of
        None \<Rightarrow> None
      | Some st \<Rightarrow> Some (lk_shortlist st, lk_peers st, node\<lparr>n_routing := lk_routing st\<rparr>))"

definition find_node :: "nat \<Rightarrow> node_id \<Rightarrow> rpc \<Rightarrow> dht_node \<Rightarrow> (contact list \<times> dht_node) option" where
  "find_node fuel target rpc node =
     map_option (\<lambda>(nodes, _, node'). (nodes, node')) (iterative fuel target rpc False node)"

text \<open>\<open>show\<close> is the text form of addresses the answer is sorted by.\<close>

definition get_peers ::
    "(peer_addr \<Rightarrow> string) \<Rightarrow> nat \<Rightarrow> node_id \<Rightarrow> rpc \<Rightarrow> dht_node \<Rightarrow> (peer_addr list \<times> dht_node) option" where
  "get_peers show_addr fuel key rpc node =
     map_option (\<lambda>(_, peers, node'). (remdups_adj (sort_key show_addr peers), node'))
       (iterative fuel key rpc True node)"

text \<open>The third result is the list of \<open>Announce\<close> messages sent, in order; their answers are ignored.\<close>

definition announce_all ::
    "nat \<Rightarrow> nat \<Rightarrow> node_id \<Rightarrow> peer_addr list \<Rightarrow> rpc \<Rightarrow> dht_node \<Rightarrow> (dht_node \<times> (contact \<times> request) list) option" where
  "announce_all fuel now key self_peers rpc node =
     (if self_peers = [] then Some (node, [])
      else
        let node1 = node\<lparr>n_store := foldl (\<lambda>s p. ps_add now key p s) (n_store node) self_peers\<rparr> in
        case find_node fuel key rpc node1 of
          None \<Rightarrow> None
        | Some (closest, node2) \<Rightarrow>
            Some (node2, concat (map (\<lambda>c. map (\<lambda>p. (c, Announce key p)) self_peers) closest)))"

definition announce ::
    "nat \<Rightarrow> nat \<Rightarrow> node_id \<Rightarrow> peer_addr \<Rightarrow> rpc \<Rightarrow> dht_node \<Rightarrow> (dht_node \<times> (contact \<times> request) list) option" where
  "announce fuel now key self_peer rpc node = announce_all fuel now key [self_peer] rpc node"

definition bootstrap :: "nat \<Rightarrow> contact list \<Rightarrow> rpc \<Rightarrow> dht_node \<Rightarrow> dht_node option" where
  "bootstrap fuel seeds rpc node =
     (let node1 = foldl (\<lambda>n s. add_contact s n) node seeds
      in map_option snd (find_node fuel (n_id node) rpc node1))"

text \<open>Node invariant.\<close>

definition node_inv :: "dht_node \<Rightarrow> bool" where
  "node_inv node \<longleftrightarrow> rt_inv (n_routing node) \<and> rt_local (n_routing node) = n_id node \<and> ps_inv (n_store node)"

section \<open>Truncation keeps the closest\<close>

definition ids :: "contact list \<Rightarrow> node_id set" where
  "ids sl = c_id ` set sl"

text \<open>\<open>i\<close> is outside a full shortlist whose entries are all strictly closer to the target.\<close>

definition beaten :: "node_id \<Rightarrow> contact list \<Rightarrow> node_id \<Rightarrow> bool" where
  "beaten t sl i \<longleftrightarrow> length sl = K \<and> (\<forall>s \<in> set sl. node_distance t (c_id s) < node_distance t i)"

definition covered :: "node_id \<Rightarrow> contact list \<Rightarrow> node_id \<Rightarrow> bool" where
  "covered t sl i \<longleftrightarrow> i \<in> ids sl \<or> beaten t sl i"

definition list_ok :: "contact list \<Rightarrow> bool" where
  "list_ok sl \<longleftrightarrow> distinct (map c_id sl) \<and> (\<forall>c \<in> set sl. node_id_ok (c_id c))"

lemma beaten_not_in: "beaten t sl i \<Longrightarrow> i \<notin> ids sl"
  by (auto simp: beaten_def ids_def)

lemma trunc_ok: "list_ok xs \<Longrightarrow> list_ok (take n (by_distance t xs))"
proof -
  assume ok: "list_ok xs"
  have "distinct (map c_id (by_distance t xs))"
    using ok by (simp add: list_ok_def by_distance_def) (metis mset_eq_imp_distinct_iff mset_map mset_sort)
  then show ?thesis
    using ok by (auto simp: list_ok_def by_distance_def take_map [symmetric] dest: set_take_sort_key)
qed

lemma trunc_covers:
  assumes "list_ok xs" "node_id_ok t" "i \<in> ids xs"
  shows "covered t (take K (by_distance t xs)) i"
proof (cases "i \<in> ids (take K (by_distance t xs))")
  case False
  let ?sl = "take K (by_distance t xs)"
  obtain c where c: "c \<in> set xs" "c_id c = i" using assms(3) by (auto simp: ids_def)
  with False have out: "c \<notin> set ?sl" by (auto simp: ids_def)
  have "length ?sl = K"
  proof (rule ccontr)
    assume "length ?sl \<noteq> K"
    then have "?sl = by_distance t xs" by simp
    with out c show False by (simp add: by_distance_def)
  qed
  moreover have "node_distance t (c_id s) < node_distance t i" if s: "s \<in> set ?sl" for s
  proof -
    have "node_distance t (c_id s) \<le> node_distance t (c_id c)"
      using take_sort_key_least s out c(1) by (simp add: by_distance_def)
    moreover have "s \<in> set xs" using s by (auto simp: by_distance_def dest: set_take_sort_key)
    then have "node_distance t (c_id s) \<noteq> node_distance t (c_id c)"
      using s c False assms(1,2) node_distance_inject [of t "c_id s" "c_id c"]
      unfolding list_ok_def ids_def by (metis image_eqI)
    ultimately show ?thesis using c by simp
  qed
  ultimately show ?thesis by (simp add: covered_def beaten_def)
qed (simp add: covered_def)

lemma trunc_beaten:
  assumes "list_ok xs" "set sl \<subseteq> set xs" "distinct (map c_id sl)" "beaten t sl i"
  shows "beaten t (take K (by_distance t xs)) i"
proof -
  let ?sl = "take K (by_distance t xs)"
  have K: "length sl = K" using assms(4) by (simp add: beaten_def)
  have dsl: "distinct sl" using assms(3) by (simp add: distinct_map)
  have dxs: "distinct xs" using assms(1) by (simp add: list_ok_def distinct_map)
  have "K \<le> length xs" using card_mono [OF _ assms(2)] dsl dxs K by (simp add: distinct_card)
  then have len: "length ?sl = K" by (simp add: by_distance_def)
  have "node_distance t (c_id s) < node_distance t i" if s: "s \<in> set ?sl" for s
  proof (rule ccontr)
    assume ge: "\<not> node_distance t (c_id s) < node_distance t i"
    have "e \<in> set ?sl" if e: "e \<in> set sl" for e
    proof (rule ccontr)
      assume "e \<notin> set ?sl"
      then have "node_distance t (c_id s) \<le> node_distance t (c_id e)"
        using take_sort_key_least [of s K "\<lambda>c. node_distance t (c_id c)" xs e] s e assms(2)
        by (auto simp: by_distance_def)
      also have "\<dots> < node_distance t i" using e assms(4) by (simp add: beaten_def)
      finally show False using ge by simp
    qed
    then have "set sl \<subseteq> set ?sl" by blast
    moreover have "s \<notin> set sl" using ge assms(4) by (auto simp: beaten_def)
    ultimately have "card (insert s (set sl)) \<le> card (set ?sl)" using s by (intro card_mono) auto
    then show False using \<open>s \<notin> set sl\<close> K len dsl card_length [of ?sl] by (simp add: distinct_card)
  qed
  with len show ?thesis by (simp add: beaten_def)
qed

lemma trunc_covered:
  assumes "list_ok xs" "node_id_ok t" "set sl \<subseteq> set xs" "distinct (map c_id sl)" "covered t sl i"
  shows "covered t (take K (by_distance t xs)) i"
  using assms trunc_covers [OF assms(1,2), of i] trunc_beaten [OF assms(1,3,4), of t i]
  by (auto simp: covered_def ids_def)

section \<open>One round\<close>

lemma push_node_fold:
  assumes "list_ok sl" "\<forall>n \<in> set ns. node_id_ok (c_id n)" "self \<notin> ids sl"
  shows "set sl \<subseteq> set (foldl (push_node self) sl ns) \<and>
    list_ok (foldl (push_node self) sl ns) \<and> self \<notin> ids (foldl (push_node self) sl ns) \<and>
    set (foldl (push_node self) sl ns) \<subseteq> set sl \<union> set ns \<and>
    (\<forall>n \<in> set ns. c_id n = self \<or> c_id n \<in> ids (foldl (push_node self) sl ns))"
  using assms
proof (induction ns arbitrary: sl)
  case (Cons n ns)
  let ?sl = "push_node self sl n"
  have "list_ok ?sl" "self \<notin> ids ?sl" "set sl \<subseteq> set ?sl" "set ?sl \<subseteq> insert n (set sl)"
    "c_id n = self \<or> c_id n \<in> ids ?sl"
    using Cons.prems by (auto simp: push_node_def list_ok_def ids_def) (metis image_eqI)
  with Cons.IH [of ?sl] Cons.prems show ?case by (auto simp: ids_def)
qed (auto simp: ids_def)

lemma apply_reply_simps [simp]:
  "lk_queried (apply_reply self st (c, r)) = insert (c_id c) (lk_queried st)"
  "lk_routing (apply_reply self st (c, r)) = rt_insert c (lk_routing st)"
  "lk_peers (apply_reply self st (c, r)) = lk_peers st @ reply_peers r"
  "lk_shortlist (apply_reply self st (c, r)) = foldl (push_node self) (lk_shortlist st) (reply_nodes r)"
  by (simp_all add: apply_reply_def)

definition batch_result :: "node_id \<Rightarrow> (contact \<Rightarrow> string + response) \<Rightarrow> contact list \<Rightarrow> lookup \<Rightarrow> lookup" where
  "batch_result self ask batch st = foldl (apply_reply self) st (map (\<lambda>c. (c, ask c)) batch)"

definition answers_ok :: "(contact \<Rightarrow> string + response) \<Rightarrow> bool" where
  "answers_ok ask \<longleftrightarrow> (\<forall>c. \<forall>n \<in> set (reply_nodes (ask c)). node_id_ok (c_id n))"

lemma batch_result_shortlist:
  assumes "list_ok (lk_shortlist st)" "answers_ok ask" "self \<notin> ids (lk_shortlist st)"
  shows "set (lk_shortlist st) \<subseteq> set (lk_shortlist (batch_result self ask batch st)) \<and>
    list_ok (lk_shortlist (batch_result self ask batch st)) \<and>
    self \<notin> ids (lk_shortlist (batch_result self ask batch st)) \<and>
    (\<forall>c \<in> set batch. \<forall>n \<in> set (reply_nodes (ask c)).
       c_id n = self \<or> c_id n \<in> ids (lk_shortlist (batch_result self ask batch st)))"
  using assms
proof (induction batch arbitrary: st)
  case (Cons c batch)
  let ?st = "apply_reply self st (c, ask c)"
  have r: "\<forall>n \<in> set (reply_nodes (ask c)). node_id_ok (c_id n)" using Cons.prems(2) by (simp add: answers_ok_def)
  note p = push_node_fold [OF Cons.prems(1) r Cons.prems(3)]
  have eq: "batch_result self ask (c # batch) st = batch_result self ask batch ?st"
    by (simp add: batch_result_def)
  have IH: "set (lk_shortlist ?st) \<subseteq> set (lk_shortlist (batch_result self ask batch ?st)) \<and>
    list_ok (lk_shortlist (batch_result self ask batch ?st)) \<and>
    self \<notin> ids (lk_shortlist (batch_result self ask batch ?st)) \<and>
    (\<forall>c \<in> set batch. \<forall>n \<in> set (reply_nodes (ask c)).
       c_id n = self \<or> c_id n \<in> ids (lk_shortlist (batch_result self ask batch ?st)))"
    using Cons.IH [of ?st] p Cons.prems(2) by simp
  then have "ids (lk_shortlist ?st) \<subseteq> ids (lk_shortlist (batch_result self ask batch ?st))"
    by (auto simp: ids_def)
  with IH p show ?case unfolding eq by auto
qed (simp add: batch_result_def)

lemma batch_result_queried: "lk_queried (batch_result self ask batch st) = lk_queried st \<union> ids batch"
  by (induction batch arbitrary: st) (auto simp: batch_result_def ids_def)

lemma batch_result_peers:
  "set (lk_peers (batch_result self ask batch st)) = set (lk_peers st) \<union> (\<Union>c \<in> set batch. set (reply_peers (ask c)))"
  by (induction batch arbitrary: st) (auto simp: batch_result_def)

lemma batch_result_routing:
  "rt_inv (lk_routing st) \<Longrightarrow> \<forall>c \<in> set batch. node_id_ok (c_id c) \<Longrightarrow>
   rt_inv (lk_routing (batch_result self ask batch st)) \<and>
   rt_local (lk_routing (batch_result self ask batch st)) = rt_local (lk_routing st)"
proof (induction batch arbitrary: st)
  case (Cons c batch)
  then show ?case
    using Cons.IH [of "apply_reply self st (c, ask c)"] rt_insert_inv [of "lk_routing st" c]
    by (simp add: batch_result_def)
qed (simp add: batch_result_def)

definition lookup_inv :: "node_id \<Rightarrow> node_id \<Rightarrow> (contact \<Rightarrow> string + response) \<Rightarrow> lookup \<Rightarrow> bool" where
  "lookup_inv self t ask st \<longleftrightarrow>
     list_ok (lk_shortlist st) \<and> self \<notin> ids (lk_shortlist st) \<and> length (lk_shortlist st) \<le> K \<and>
     sorted (map (\<lambda>c. node_distance t (c_id c)) (lk_shortlist st)) \<and>
     (\<forall>i \<in> lk_queried st. covered t (lk_shortlist st) i) \<and>
     (\<forall>c \<in> set (lk_shortlist st). c_id c \<in> lk_queried st \<longrightarrow>
        (\<forall>n \<in> set (reply_nodes (ask c)). c_id n = self \<or> covered t (lk_shortlist st) (c_id n)) \<and>
        set (reply_peers (ask c)) \<subseteq> set (lk_peers st)) \<and>
     rt_inv (lk_routing st) \<and> rt_local (lk_routing st) = self"

lemma lookup_round_eq:
  "lookup_round self t ask st =
     (let st' = batch_result self ask (lookup_batch st) st
      in st'\<lparr>lk_shortlist := take K (by_distance t (lk_shortlist st'))\<rparr>)"
  by (simp add: lookup_round_def batch_result_def)

lemma lookup_batch_subset: "set (lookup_batch st) \<subseteq> set (lk_shortlist st)"
  by (auto simp: lookup_batch_def dest: in_set_takeD)

lemma lookup_round_inv:
  assumes inv: "lookup_inv self t ask st" and ans: "answers_ok ask" and t: "node_id_ok t"
  shows "lookup_inv self t ask (lookup_round self t ask st)"
    and "covered t (lk_shortlist st) i \<Longrightarrow> covered t (lk_shortlist (lookup_round self t ask st)) i"
proof -
  let ?sl = "lk_shortlist st" and ?b = "lookup_batch st"
  let ?st = "batch_result self ask ?b st"
  let ?xs = "lk_shortlist ?st"
  let ?sl' = "take K (by_distance t ?xs)"
  have ok: "list_ok ?sl" "self \<notin> ids ?sl" "distinct (map c_id ?sl)"
    using inv by (auto simp: lookup_inv_def list_ok_def)
  have xs: "set ?sl \<subseteq> set ?xs" "list_ok ?xs" "self \<notin> ids ?xs"
    "\<And>c n. c \<in> set ?b \<Longrightarrow> n \<in> set (reply_nodes (ask c)) \<Longrightarrow> c_id n = self \<or> c_id n \<in> ids ?xs"
    using batch_result_shortlist [OF ok(1) ans ok(2), of ?b] by auto
  have keep: "covered t ?sl' i" if "covered t ?sl i" for i
    using trunc_covered [OF xs(2) t xs(1) ok(3) that] .
  then show "covered t ?sl i \<Longrightarrow> covered t (lk_shortlist (lookup_round self t ask st)) i"
    by (simp add: lookup_round_eq Let_def)
  have sub': "set ?sl' \<subseteq> set ?xs" by (auto simp: by_distance_def dest: set_take_sort_key)
  have q: "lk_queried ?st = lk_queried st \<union> ids ?b" by (rule batch_result_queried)
  have cov_q: "covered t ?sl' i" if "i \<in> lk_queried ?st" for i
  proof (cases "i \<in> lk_queried st")
    case True
    then show ?thesis using inv keep by (auto simp: lookup_inv_def)
  next
    case False
    with that q lookup_batch_subset xs(1) have "i \<in> ids ?xs" by (fastforce simp: ids_def)
    then show ?thesis by (rule trunc_covers [OF xs(2) t])
  qed
  have replies: "(\<forall>n \<in> set (reply_nodes (ask c)). c_id n = self \<or> covered t ?sl' (c_id n)) \<and>
      set (reply_peers (ask c)) \<subseteq> set (lk_peers ?st)"
    if c: "c \<in> set ?sl'" and cq: "c_id c \<in> lk_queried ?st" for c
  proof (cases "c \<in> set ?sl")
    case True
    show ?thesis
    proof (cases "c_id c \<in> lk_queried st")
      case old: True
      then have "\<forall>n \<in> set (reply_nodes (ask c)). c_id n = self \<or> covered t ?sl (c_id n)"
        "set (reply_peers (ask c)) \<subseteq> set (lk_peers st)"
        using True inv unfolding lookup_inv_def by blast+
      then show ?thesis using keep batch_result_peers [of self ask ?b st] by blast
    next
      case False
      then obtain d where "d \<in> set ?b" "c_id d = c_id c" using cq q by (auto simp: ids_def)
      then have "c \<in> set ?b" using True lookup_batch_subset ok(3) by (metis (no_types, lifting) distinct_map inj_onD subsetD)
      then show ?thesis
        using xs(4) trunc_covers [OF xs(2) t] batch_result_peers [of self ask ?b st] by blast
    qed
  next
    case False
    have new: "c_id c \<notin> ids ?sl"
    proof
      assume "c_id c \<in> ids ?sl"
      then obtain d where "d \<in> set ?sl" "c_id d = c_id c" by (auto simp: ids_def)
      then have "c = d" using c sub' xs(1,2) by (metis (no_types, lifting) distinct_map inj_onD list_ok_def subsetD)
      with False \<open>d \<in> set ?sl\<close> show False by simp
    qed
    then have "c_id c \<in> lk_queried st" using cq q lookup_batch_subset [of st] by (auto simp: ids_def)
    then have "beaten t ?sl (c_id c)" using inv new by (auto simp: lookup_inv_def covered_def)
    then have "beaten t ?sl' (c_id c)" using trunc_beaten [OF xs(2,1) ok(3)] by blast
    then have False using c beaten_not_in by (fastforce simp: ids_def)
    then show ?thesis ..
  qed
  have b_ok: "\<forall>c \<in> set ?b. node_id_ok (c_id c)" using lookup_batch_subset ok(1) by (fastforce simp: list_ok_def)
  have rt: "rt_inv (lk_routing ?st) \<and> rt_local (lk_routing ?st) = self"
    using batch_result_routing [OF _ b_ok, of st self ask] inv by (simp add: lookup_inv_def)
  have "self \<notin> ids ?sl'" using xs(3) sub' by (auto simp: ids_def)
  moreover have "sorted (map (\<lambda>c. node_distance t (c_id c)) ?sl')"
    by (simp add: by_distance_def sorted_wrt_take take_map [symmetric])
  ultimately show "lookup_inv self t ask (lookup_round self t ask st)"
    using trunc_ok [OF xs(2)] cov_q replies rt by (simp add: lookup_inv_def lookup_round_eq Let_def)
qed

section \<open>The lookup ends and converges\<close>

lemma card_node_ids: "finite {i. node_id_ok i}" "card {i. node_id_ok i} = 2 ^ 256"
proof -
  have eq: "{i. node_id_ok i} = NodeId ` {bs. set bs \<subseteq> (UNIV :: u8 set) \<and> length bs = ID_LEN}"
    by (auto simp: node_id_ok_def image_iff) (metis node_id.collapse)
  show "finite {i. node_id_ok i}" unfolding eq by (intro finite_imageI finite_lists_length_eq) simp
  have "card {i. node_id_ok i} = card {bs. set bs \<subseteq> (UNIV :: u8 set) \<and> length bs = ID_LEN}"
    unfolding eq by (rule card_image) (auto simp: inj_on_def)
  also have "\<dots> = card (UNIV :: u8 set) ^ ID_LEN" by (rule card_lists_length_eq) simp
  finally show "card {i. node_id_ok i} = 2 ^ 256" by (simp add: card_word ID_LEN_def)
qed

lemma lookup_batch_empty: "lookup_batch st = [] \<longleftrightarrow> (\<forall>c \<in> set (lk_shortlist st). c_id c \<in> lk_queried st)"
  by (auto simp: lookup_batch_def ALPHA_def filter_empty_conv)

lemma lookup_batch_fresh: "c \<in> set (lookup_batch st) \<Longrightarrow> c_id c \<notin> lk_queried st"
  by (auto simp: lookup_batch_def dest: in_set_takeD)

lemma lookup_queried_grows:
  assumes "lookup_inv self t ask st" "lookup_batch st \<noteq> []"
  shows "card ({i. node_id_ok i} - lk_queried (lookup_round self t ask st)) < card ({i. node_id_ok i} - lk_queried st)"
proof (rule psubset_card_mono)
  show "finite ({i. node_id_ok i} - lk_queried st)" using card_node_ids(1) by simp
  obtain c where c: "c \<in> set (lookup_batch st)" using assms(2) by (meson list.set_sel(1))
  then have "node_id_ok (c_id c)" "c_id c \<notin> lk_queried st"
    using assms(1) lookup_batch_subset lookup_batch_fresh unfolding lookup_inv_def list_ok_def by blast+
  moreover have "lk_queried (lookup_round self t ask st) = lk_queried st \<union> ids (lookup_batch st)"
    by (simp add: lookup_round_eq Let_def batch_result_queried)
  ultimately show "{i. node_id_ok i} - lk_queried (lookup_round self t ask st) \<subset> {i. node_id_ok i} - lk_queried st"
    using c by (auto simp: ids_def)
qed

lemma lookup_loop_correct:
  assumes "lookup_inv self t ask st" "answers_ok ask" "node_id_ok t"
    and "card ({i. node_id_ok i} - lk_queried st) < fuel"
  shows "\<exists>st'. lookup_loop fuel self t ask st = Some st' \<and> lookup_inv self t ask st' \<and>
    lookup_batch st' = [] \<and> (\<forall>i. covered t (lk_shortlist st) i \<longrightarrow> covered t (lk_shortlist st') i)"
  using assms
proof (induction fuel arbitrary: st)
  case (Suc fuel)
  show ?case
  proof (cases "lookup_batch st = []")
    case False
    let ?st = "lookup_round self t ask st"
    have "card ({i. node_id_ok i} - lk_queried ?st) < fuel"
      using lookup_queried_grows [OF Suc.prems(1) False] Suc.prems(4) by linarith
    then obtain st' where "lookup_loop fuel self t ask ?st = Some st'" "lookup_inv self t ask st'"
      "lookup_batch st' = []" "\<forall>i. covered t (lk_shortlist ?st) i \<longrightarrow> covered t (lk_shortlist st') i"
      using Suc.IH [of ?st] lookup_round_inv(1) [OF Suc.prems(1-3)] Suc.prems(2,3) by blast
    then show ?thesis using False lookup_round_inv(2) [OF Suc.prems(1-3)] by auto
  qed (use Suc.prems in auto)
qed simp

lemma closest_covers:
  assumes "rt_inv rt" "node_id_ok t"
  shows "list_ok (rt_closest t K rt)" "c \<in> rt_known rt \<Longrightarrow> covered t (rt_closest t K rt) (c_id c)"
proof -
  have all: "list_ok (concat (rt_buckets rt))"
    using rt_known_distinct [OF assms(1)] rt_known_ok(1) [OF assms(1)]
    by (auto simp: list_ok_def rt_known_def)
  show "list_ok (rt_closest t K rt)" unfolding rt_closest_def by (rule trunc_ok [OF all])
  assume "c \<in> rt_known rt"
  then have "c_id c \<in> ids (concat (rt_buckets rt))" unfolding ids_def rt_known_def by blast
  then show "covered t (rt_closest t K rt) (c_id c)"
    unfolding rt_closest_def by (rule trunc_covers [OF all assms(2)])
qed

lemma lookup_inv_init:
  assumes "rt_inv rt" "node_id_ok t"
  shows "lookup_inv (rt_local rt) t ask
    \<lparr>lk_shortlist = rt_closest t K rt, lk_queried = {}, lk_peers = [], lk_routing = rt\<rparr>"
proof -
  have "set (rt_closest t K rt) \<subseteq> rt_known rt"
    by (auto simp: rt_closest_def by_distance_def rt_known_def dest: set_take_sort_key)
  then have "rt_local rt \<notin> ids (rt_closest t K rt)" using rt_known_ok(2) [OF assms(1)] unfolding ids_def by fastforce
  moreover have "sorted (map (\<lambda>c. node_distance t (c_id c)) (rt_closest t K rt))" "length (rt_closest t K rt) \<le> K"
    by (simp_all add: rt_closest_def by_distance_def sorted_wrt_take take_map [symmetric])
  ultimately show ?thesis using closest_covers(1) [OF assms] assms(1) by (simp add: lookup_inv_def)
qed

text \<open>
  C33. The iterative lookup terminates and converges, against any network: whatever the contacts answer
  (errors, lies, ever closer fabricated identifiers), the loop ends, since no identifier is asked
  twice; the node keeps its invariant; and the answer is at most 8 contacts, distinct, sorted by
  distance, without the node itself, such that everything the node knew at the start and everything
  the returned contacts themselves report is either in the answer or strictly farther than all 8 of
  its entries.  Every peer a returned contact reports is among the peers found.
\<close>

theorem lookup_converges:
  assumes "node_inv node" "node_id_ok target"
    and "\<And>c r n. n \<in> set (reply_nodes (rpc c r)) \<Longrightarrow> node_id_ok (c_id n)"
    and "2 ^ 256 < fuel"
  shows "\<exists>nodes peers node'.
    iterative fuel target rpc want_peers node = Some (nodes, peers, node') \<and> node_inv node' \<and>
    length nodes \<le> K \<and> distinct (map c_id nodes) \<and> n_id node \<notin> ids nodes \<and>
    sorted (map (\<lambda>c. node_distance target (c_id c)) nodes) \<and>
    (\<forall>c \<in> rt_known (n_routing node). covered target nodes (c_id c)) \<and>
    (\<forall>c \<in> set nodes. \<forall>n \<in> set (reply_nodes (rpc c (lookup_request want_peers target))).
       c_id n = n_id node \<or> covered target nodes (c_id n)) \<and>
    (\<forall>c \<in> set nodes. set (reply_peers (rpc c (lookup_request want_peers target))) \<subseteq> set peers)"
proof -
  let ?ask = "\<lambda>c. rpc c (lookup_request want_peers target)"
  let ?st = "\<lparr>lk_shortlist = rt_closest target K (n_routing node), lk_queried = {},
    lk_peers = [], lk_routing = n_routing node\<rparr>"
  have rt: "rt_inv (n_routing node)" "rt_local (n_routing node) = n_id node"
    using assms(1) by (auto simp: node_inv_def)
  have ans: "answers_ok ?ask" using assms(3) by (auto simp: answers_ok_def)
  have inv: "lookup_inv (n_id node) target ?ask ?st"
    using lookup_inv_init [OF rt(1) assms(2), of ?ask] rt(2) by simp
  have "card ({i. node_id_ok i} - lk_queried ?st) < fuel" using card_node_ids(2) assms(4) by simp
  then obtain st where st: "lookup_loop fuel (n_id node) target ?ask ?st = Some st"
    "lookup_inv (n_id node) target ?ask st" "lookup_batch st = []"
    "\<forall>i. covered target (lk_shortlist ?st) i \<longrightarrow> covered target (lk_shortlist st) i"
    using lookup_loop_correct [OF inv ans assms(2)] by blast
  have q: "\<forall>c \<in> set (lk_shortlist st). c_id c \<in> lk_queried st" using st(3) lookup_batch_empty by blast
  have known: "\<forall>c \<in> rt_known (n_routing node). covered target (lk_shortlist st) (c_id c)"
    using closest_covers(2) [OF rt(1) assms(2)] st(4) by simp
  have "iterative fuel target rpc want_peers node =
      Some (lk_shortlist st, lk_peers st, node\<lparr>n_routing := lk_routing st\<rparr>)"
    using st(1) by (simp add: iterative_def)
  moreover have "node_inv (node\<lparr>n_routing := lk_routing st\<rparr>)"
    using assms(1) st(2) by (simp add: node_inv_def lookup_inv_def)
  ultimately show ?thesis
    using st(2) q known unfolding lookup_inv_def list_ok_def by blast
qed

text \<open>A node that knows one contact, in a network where that contact reports two others.\<close>

definition ex_node :: dht_node where
  "ex_node = add_contact (ex_contact 9) (node_new (NodeId (replicate 32 0)))"

definition ex_rpc :: rpc where
  "ex_rpc c r = (if c = ex_contact 9 then Inr (Peers [Rns (replicate 16 1)] [ex_contact 3, ex_contact 5])
                 else Inl ''timeout'')"

lemma ex_node_inv: "node_inv ex_node"
  unfolding node_inv_def ex_node_def add_contact_def node_new_def
  by (simp add: rt_insert_inv rt_new_inv ps_new_inv ex_contact_def ex_ids_ok)

lemma ex_rpc_ok: "n \<in> set (reply_nodes (ex_rpc c r)) \<Longrightarrow> node_id_ok (c_id n)"
  by (auto simp: ex_rpc_def ex_contact_def ex_ids_ok split: if_splits)

theorem lookup_converges_witness:
  "\<exists>nodes peers node'.
     iterative (2 ^ 256 + 1) (NodeId (replicate 32 0)) ex_rpc True ex_node = Some (nodes, peers, node') \<and>
     node_inv node' \<and> length nodes \<le> K"
  using lookup_converges [OF ex_node_inv ex_ids_ok(1), of ex_rpc "2 ^ 256 + 1" True] ex_rpc_ok by auto

section \<open>Serving requests\<close>

lemma handle_inv:
  "node_inv node \<Longrightarrow> node_id_ok (c_id from) \<Longrightarrow> node_inv (snd (handle now from req node))"
  by (auto simp: node_inv_def handle_def Let_def rt_insert_inv ps_add_inv split: request.split)

lemma remdups_adj_map_inj_on: "inj_on f (set xs) \<Longrightarrow> remdups_adj (map f xs) = map f (remdups_adj xs)"
  by (induction xs rule: remdups_adj.induct) auto

lemma get_peers_distinct:
  assumes "inj_on show_addr (set peers)"
  shows "distinct (remdups_adj (sort_key show_addr peers))"
proof -
  have "remdups_adj (map show_addr (sort_key show_addr peers)) = map show_addr (remdups_adj (sort_key show_addr peers))"
    by (rule remdups_adj_map_inj_on) (use assms in simp)
  moreover have "distinct (remdups_adj (map show_addr (sort_key show_addr peers)))"
    using strict_sorted_remdups_adj [OF sorted_sort_key] by (simp add: strict_sorted_iff)
  ultimately show ?thesis by (metis distinct_map)
qed

end
