(* ===== verification/Propagation.thy ===== *)
theory Propagation
  imports Rust_Std
begin

text \<open>
  The store-and-forward log of update notifications, after \<^verbatim>\<open>epix-propagation/src/lib.rs\<close>: a bounded
  log addressed by a sequence cursor, and the selection of what a node should re-sync.  Sequence
  numbers are \<open>u64\<close> kept as \<open>nat\<close> with the wrap-around of \<open>+= 1\<close> written out.
\<close>

definition DEFAULT_CAPACITY :: nat where "DEFAULT_CAPACITY = 10000"

record notification =
  nt_xite :: string
  nt_modified :: int

record stored =
  st_seq :: nat
  st_xite :: string
  st_modified :: int

record propagation_store =
  pr_items :: "stored list"
  pr_next_seq :: nat
  pr_cap :: nat

definition pr_with_capacity :: "nat \<Rightarrow> propagation_store" where
  "pr_with_capacity cap = \<lparr>pr_items = [], pr_next_seq = 1, pr_cap = max cap 1\<rparr>"

definition pr_new :: propagation_store where
  "pr_new = pr_with_capacity DEFAULT_CAPACITY"

definition same_update :: "string \<Rightarrow> int \<Rightarrow> stored \<Rightarrow> bool" where
  "same_update xite modified s \<longleftrightarrow> st_xite s = xite \<and> st_modified s = modified"

text \<open>\<open>while items.len() > cap { items.pop_front() }\<close>.\<close>

fun pop_excess :: "nat \<Rightarrow> 'a list \<Rightarrow> 'a list" where
  "pop_excess cap [] = []"
| "pop_excess cap (x # xs) = (if cap < length (x # xs) then pop_excess cap xs else x # xs)"

definition pr_record :: "string \<Rightarrow> int \<Rightarrow> propagation_store \<Rightarrow> nat \<times> propagation_store" where
  "pr_record xite modified s =
     (case find (same_update xite modified) (pr_items s) of
        Some existing \<Rightarrow> (st_seq existing, s)
      | None \<Rightarrow>
          let seq = pr_next_seq s;
              items = pr_items s @ [\<lparr>st_seq = seq, st_xite = xite, st_modified = modified\<rparr>]
          in (seq, s\<lparr>pr_next_seq := u64_add (pr_next_seq s) 1, pr_items := pop_excess (pr_cap s) items\<rparr>))"

definition notification_of :: "stored \<Rightarrow> notification" where
  "notification_of s = \<lparr>nt_xite = st_xite s, nt_modified = st_modified s\<rparr>"

definition pr_head :: "propagation_store \<Rightarrow> nat" where
  "pr_head s = pr_next_seq s - 1"

definition pr_since :: "nat \<Rightarrow> propagation_store \<Rightarrow> notification list \<times> nat" where
  "pr_since after s =
     (let head = pr_next_seq s - 1;
          updates = map notification_of (filter (\<lambda>i. after < st_seq i) (pr_items s))
      in (updates, head))"

definition updates_since :: "nat \<Rightarrow> propagation_store \<Rightarrow> notification list \<times> nat" where
  "updates_since after store = pr_since after store"

definition service_record :: "string \<Rightarrow> int \<Rightarrow> propagation_store \<Rightarrow> nat option \<times> propagation_store" where
  "service_record xite modified store =
     (if xite = [] then (None, store)
      else case pr_record xite modified store of (seq, store') \<Rightarrow> (Some seq, store'))"

definition needs_sync :: "notification list \<Rightarrow> (string \<rightharpoonup> int) \<Rightarrow> notification list" where
  "needs_sync notifications local =
     filter (\<lambda>n. case local (nt_xite n) of None \<Rightarrow> False | Some have_v \<Rightarrow> have_v < nt_modified n) notifications"

text \<open>Invariant: consecutive sequence numbers ending just below \<open>next_seq\<close>, bounded, no update twice.\<close>

definition pr_inv :: "propagation_store \<Rightarrow> bool" where
  "pr_inv s \<longleftrightarrow>
     length (pr_items s) < pr_next_seq s \<and> length (pr_items s) \<le> pr_cap s \<and> 0 < pr_cap s \<and>
     map st_seq (pr_items s) = [pr_next_seq s - length (pr_items s)..<pr_next_seq s] \<and>
     distinct (map notification_of (pr_items s))"

definition record_all :: "(string \<times> int) list \<Rightarrow> propagation_store \<Rightarrow> propagation_store" where
  "record_all ops s = foldl (\<lambda>s (x, m). snd (pr_record x m s)) s ops"

section \<open>The log\<close>

lemma pop_excess_drop: "pop_excess cap xs = drop (length xs - cap) xs"
proof (induction cap xs rule: pop_excess.induct)
  case (2 cap x xs)
  then show ?case by (cases "cap < length (x # xs)") (auto simp: Suc_diff_le)
qed simp

lemma find_same_None:
  "find (same_update x m) items = None \<longleftrightarrow> \<lparr>nt_xite = x, nt_modified = m\<rparr> \<notin> set (map notification_of items)"
  by (auto simp: find_None_iff same_update_def notification_of_def)

lemma pr_new_inv: "pr_inv (pr_with_capacity cap)"
  by (simp add: pr_inv_def pr_with_capacity_def)

lemma pr_record_fresh:
  assumes "find (same_update x m) (pr_items s) = None" "pr_next_seq s < u64_max"
  shows "snd (pr_record x m s) =
    s\<lparr>pr_next_seq := Suc (pr_next_seq s),
      pr_items := drop (Suc (length (pr_items s)) - pr_cap s)
        (pr_items s @ [\<lparr>st_seq = pr_next_seq s, st_xite = x, st_modified = m\<rparr>])\<rparr>"
  using assms by (simp add: pr_record_def pop_excess_drop u64_add_def u64_max_def Let_def)

lemma pr_record_dup: "find (same_update x m) (pr_items s) \<noteq> None \<Longrightarrow> snd (pr_record x m s) = s"
  by (auto simp: pr_record_def)

lemma pr_record_inv:
  assumes "pr_inv s" "pr_next_seq s < u64_max"
  shows "pr_inv (snd (pr_record x m s))"
proof (cases "find (same_update x m) (pr_items s)")
  case None
  let ?n = "pr_next_seq s" and ?l = "length (pr_items s)" and ?d = "Suc (length (pr_items s)) - pr_cap s"
  have inv: "?l < ?n" "?l \<le> pr_cap s" "0 < pr_cap s" "map st_seq (pr_items s) = [?n - ?l..<?n]"
    "distinct (map notification_of (pr_items s))"
    using assms(1) by (auto simp: pr_inv_def)
  let ?items = "pr_items s @ [\<lparr>st_seq = ?n, st_xite = x, st_modified = m\<rparr>]"
  have seqs: "map st_seq (drop ?d ?items) = [Suc ?n - (Suc ?l - ?d)..<Suc ?n]"
  proof -
    have "map st_seq ?items = [?n - ?l..<Suc ?n]" using inv(1,4) by (simp add: upt_Suc_append)
    then have "map st_seq (drop ?d ?items) = drop ?d [?n - ?l..<Suc ?n]" by (metis drop_map)
    also have "\<dots> = [?n - ?l + ?d..<Suc ?n]" by (simp only: drop_upt)
    finally show ?thesis using inv(1-3) by (cases "?d = 0") (auto simp: Suc_diff_le)
  qed
  have "distinct (map notification_of ?items)"
    using inv(5) None by (auto simp: find_same_None notification_of_def)
  then have dist: "distinct (map notification_of (drop ?d ?items))" by (metis distinct_drop drop_map)
  define its where "its = drop ?d ?items"
  have len: "length its = Suc ?l - ?d" by (simp add: its_def)
  have "Suc ?l - ?d \<le> pr_cap s" "Suc ?l - ?d < Suc ?n" using inv(1) by auto
  with seqs dist inv(3) len show ?thesis
    unfolding pr_record_fresh [OF None assms(2)] pr_inv_def its_def [symmetric] by (simp del: upt_Suc)
qed (use assms(1) pr_record_dup in auto)

lemma pr_record_next:
  "pr_next_seq s < u64_max \<Longrightarrow>
   pr_next_seq s \<le> pr_next_seq (snd (pr_record x m s)) \<and>
   pr_next_seq (snd (pr_record x m s)) \<le> Suc (pr_next_seq s) \<and>
   pr_cap (snd (pr_record x m s)) = pr_cap s"
  by (cases "find (same_update x m) (pr_items s)") (auto simp: pr_record_fresh pr_record_dup)

lemma record_all_inv:
  "pr_inv s \<Longrightarrow> pr_next_seq s + length ops \<le> u64_max \<Longrightarrow>
   pr_inv (record_all ops s) \<and> pr_cap (record_all ops s) = pr_cap s \<and>
   pr_next_seq s \<le> pr_next_seq (record_all ops s) \<and>
   pr_next_seq (record_all ops s) \<le> pr_next_seq s + length ops"
proof (induction ops arbitrary: s)
  case (Cons op ops)
  obtain x m where op: "op = (x, m)" by (cases op)
  let ?s = "snd (pr_record x m s)"
  have "pr_next_seq s < u64_max" using Cons.prems by simp
  note r = pr_record_inv [OF Cons.prems(1) this, of x m] pr_record_next [OF this, of x m]
  then have "pr_next_seq ?s + length ops \<le> u64_max" using Cons.prems(2) by simp
  with Cons.IH [OF r(1)] r op show ?case by (auto simp: record_all_def)
qed (simp add: record_all_def)

section \<open>Catching up by cursor\<close>

lemma filter_above_upt: "map f xs = [a..<b] \<Longrightarrow> filter (\<lambda>x. c < f x) xs = drop (Suc c - a) xs"
proof (induction xs arbitrary: a)
  case (Cons x xs)
  then have "f x = a" "map f xs = [Suc a..<b]" by (auto simp: upt_eq_Cons_conv [symmetric] eq_commute [of "_ # _"] upt_eq_Cons_conv)
  with Cons.IH [of "Suc a"] show ?case
    by (cases "c < a") (auto simp: filter_id_conv Suc_diff_le)
qed simp

lemma record_length:
  assumes "pr_inv s" "pr_next_seq s < u64_max"
  shows "length (pr_items (snd (pr_record x m s))) =
    min (pr_cap s) (length (pr_items s) + (pr_next_seq (snd (pr_record x m s)) - pr_next_seq s))"
  using assms by (cases "find (same_update x m) (pr_items s)") (auto simp: pr_record_fresh pr_record_dup pr_inv_def)

lemma record_items:
  assumes "pr_inv s" "pr_next_seq s < u64_max"
  shows "i \<in> set (pr_items (snd (pr_record x m s))) \<Longrightarrow>
      i \<in> set (pr_items s) \<or> (st_seq i = pr_next_seq s \<and> notification_of i = \<lparr>nt_xite = x, nt_modified = m\<rparr>)"
    and "i \<in> set (pr_items s) \<Longrightarrow> pr_next_seq (snd (pr_record x m s)) \<le> st_seq i + pr_cap s \<Longrightarrow>
      i \<in> set (pr_items (snd (pr_record x m s)))"
    and "\<lparr>nt_xite = x, nt_modified = m\<rparr> \<in> notification_of ` set (pr_items (snd (pr_record x m s)))"
proof -
  let ?new = "\<lparr>st_seq = pr_next_seq s, st_xite = x, st_modified = m\<rparr>"
  let ?d = "Suc (length (pr_items s)) - pr_cap s"
  have inv: "length (pr_items s) < pr_next_seq s" "length (pr_items s) \<le> pr_cap s" "0 < pr_cap s"
    "map st_seq (pr_items s) = [pr_next_seq s - length (pr_items s)..<pr_next_seq s]"
    using assms(1) by (auto simp: pr_inv_def)
  have fresh: "pr_items (snd (pr_record x m s)) = drop ?d (pr_items s) @ [?new]"
    "pr_next_seq (snd (pr_record x m s)) = Suc (pr_next_seq s)" if "find (same_update x m) (pr_items s) = None"
    using pr_record_fresh [OF that assms(2)] inv(2,3) by auto
  show "i \<in> set (pr_items s) \<or> (st_seq i = pr_next_seq s \<and> notification_of i = \<lparr>nt_xite = x, nt_modified = m\<rparr>)"
    if "i \<in> set (pr_items (snd (pr_record x m s)))"
  proof (cases "find (same_update x m) (pr_items s) = None")
    case True
    with that fresh(1) have "i \<in> set (drop ?d (pr_items s)) \<or> i = ?new" by auto
    then show ?thesis by (auto simp: notification_of_def dest: in_set_dropD)
  next
    case False
    with that show ?thesis using pr_record_dup [OF False] by simp
  qed
  show "i \<in> set (pr_items (snd (pr_record x m s)))"
    if i: "i \<in> set (pr_items s)" and le: "pr_next_seq (snd (pr_record x m s)) \<le> st_seq i + pr_cap s"
  proof (cases "find (same_update x m) (pr_items s) = None")
    case True
    have "i \<in> set (drop ?d (pr_items s))"
    proof (cases "length (pr_items s) = pr_cap s")
      case full: True
      obtain y ys where y: "pr_items s = y # ys" using i by (cases "pr_items s") auto
      with inv(4) have "st_seq y = pr_next_seq s - pr_cap s" using full by (auto simp: upt_eq_Cons_conv eq_commute [of "_ # _"])
      with le fresh(2) [OF True] inv(1) full have "i \<noteq> y" by auto
      with i y full show ?thesis by simp
    qed (use i inv(2) in simp)
    with fresh(1) [OF True] show ?thesis by simp
  next
    case False
    with i show ?thesis using pr_record_dup [OF False] by simp
  qed
  show "\<lparr>nt_xite = x, nt_modified = m\<rparr> \<in> notification_of ` set (pr_items (snd (pr_record x m s)))"
  proof (cases "find (same_update x m) (pr_items s) = None")
    case True
    show ?thesis unfolding fresh(1) [OF True] by (simp add: notification_of_def)
  next
    case False
    then show ?thesis using pr_record_dup [OF False] find_same_None [of x m "pr_items s"] by auto
  qed
qed

lemma record_all_snoc: "record_all (ops @ [(x, m)]) s = snd (pr_record x m (record_all ops s))"
  by (simp add: record_all_def)

lemma pr_inv_seq_below: "pr_inv s \<Longrightarrow> i \<in> set (pr_items s) \<Longrightarrow> st_seq i < pr_next_seq s"
proof -
  assume "pr_inv s" "i \<in> set (pr_items s)"
  then have "st_seq i \<in> set [pr_next_seq s - length (pr_items s)..<pr_next_seq s]"
    by (metis image_eqI pr_inv_def set_map)
  then show ?thesis by simp
qed

abbreviation mk_note :: "string \<Rightarrow> int \<Rightarrow> notification" where
  "mk_note x m \<equiv> \<lparr>nt_xite = x, nt_modified = m\<rparr>"

lemma record_all_track:
  assumes "pr_inv s" "pr_next_seq s + length ops \<le> u64_max"
  shows "(\<forall>i \<in> set (pr_items (record_all ops s)).
      i \<in> set (pr_items s) \<or> pr_next_seq s \<le> st_seq i \<and> (\<exists>(x, m) \<in> set ops. notification_of i = mk_note x m)) \<and>
    (pr_next_seq (record_all ops s) \<le> pr_next_seq s + pr_cap s \<longrightarrow>
      (\<forall>(x, m) \<in> set ops. mk_note x m \<in> notification_of ` set (pr_items s) \<or>
        mk_note x m \<in> notification_of ` {i \<in> set (pr_items (record_all ops s)). pr_next_seq s \<le> st_seq i})) \<and>
    length (pr_items (record_all ops s)) =
      min (pr_cap s) (length (pr_items s) + (pr_next_seq (record_all ops s) - pr_next_seq s))"
  using assms
proof (induction ops rule: rev_induct)
  case Nil
  then show ?case by (simp add: record_all_def pr_inv_def)
next
  case (snoc op ops)
  obtain x m where op: "op = (x, m)" by (cases op)
  let ?r = "record_all ops s" and ?n = "pr_next_seq s"
  let ?r' = "snd (pr_record x m ?r)"
  have eq: "record_all (ops @ [op]) s = ?r'" by (simp add: op record_all_snoc)
  note all = record_all_inv [OF snoc.prems(1), of ops]
  have r: "pr_inv ?r" "pr_cap ?r = pr_cap s" "?n \<le> pr_next_seq ?r" "pr_next_seq ?r < u64_max"
    using all snoc.prems(2) by auto
  note nx = pr_record_next [OF r(4), of x m]
  note it = record_items [OF r(1,4), where x = x and m = m]
  note IH = snoc.IH [OF snoc.prems(1)]
  have IH1: "\<forall>i \<in> set (pr_items ?r). i \<in> set (pr_items s) \<or> ?n \<le> st_seq i \<and> (\<exists>(x, m) \<in> set ops. notification_of i = mk_note x m)"
    and IH2: "pr_next_seq ?r \<le> ?n + pr_cap s \<Longrightarrow> (y, k) \<in> set ops \<Longrightarrow> mk_note y k \<in> notification_of ` set (pr_items s) \<or>
        mk_note y k \<in> notification_of ` {i \<in> set (pr_items ?r). ?n \<le> st_seq i}"
    and IH3: "length (pr_items ?r) = min (pr_cap s) (length (pr_items s) + (pr_next_seq ?r - ?n))" for y k
    using IH snoc.prems(2) by auto
  have keep: "mk_note y k \<in> notification_of ` {i \<in> set (pr_items ?r'). ?n \<le> st_seq i}"
    if le: "pr_next_seq ?r' \<le> ?n + pr_cap s"
      and y: "mk_note y k \<in> notification_of ` {i \<in> set (pr_items ?r). ?n \<le> st_seq i}" for y k
  proof -
    from y obtain i where i: "i \<in> set (pr_items ?r)" "?n \<le> st_seq i" "mk_note y k = notification_of i" by blast
    then have "pr_next_seq ?r' \<le> st_seq i + pr_cap ?r" using le r(2) by simp
    from it(2) [OF i(1) this] i show ?thesis by blast
  qed
  have A: "\<forall>i \<in> set (pr_items ?r'). i \<in> set (pr_items s) \<or>
      ?n \<le> st_seq i \<and> (\<exists>(x, m) \<in> set (ops @ [op]). notification_of i = mk_note x m)"
  proof
    fix i
    assume "i \<in> set (pr_items ?r')"
    then consider "i \<in> set (pr_items ?r)" | "st_seq i = pr_next_seq ?r" "notification_of i = mk_note x m"
      using it(1) by blast
    then show "i \<in> set (pr_items s) \<or> ?n \<le> st_seq i \<and> (\<exists>(x, m) \<in> set (ops @ [op]). notification_of i = mk_note x m)"
      using IH1 r(3) op by cases fastforce+
  qed
  have B: "mk_note y k \<in> notification_of ` set (pr_items s) \<or>
      mk_note y k \<in> notification_of ` {i \<in> set (pr_items ?r'). ?n \<le> st_seq i}"
    if le: "pr_next_seq ?r' \<le> ?n + pr_cap s" and y: "(y, k) \<in> set (ops @ [op])" for y k
  proof (cases "(y, k) \<in> set ops")
    case True
    moreover have "pr_next_seq ?r \<le> ?n + pr_cap s" using le nx by simp
    ultimately show ?thesis using IH2 keep [OF le] by blast
  next
    case False
    with y op have "y = x" "k = m" by auto
    with it(3) obtain i where i: "i \<in> set (pr_items ?r')" "notification_of i = mk_note y k" by (metis (no_types, lifting) imageE)
    with A show ?thesis by (metis (mono_tags, lifting) image_eqI mem_Collect_eq)
  qed
  have C: "length (pr_items ?r') = min (pr_cap s) (length (pr_items s) + (pr_next_seq ?r' - ?n))"
    using record_length [OF r(1,4), of x m] IH3 nx r(2,3) unfolding min_def by (simp split: if_splits)
  show ?case unfolding eq using A B C by blast
qed

text \<open>
  Store-and-forward catch-up: a peer that last saw \<open>head\<close> and asks again after any further updates
  were recorded gets the new head and, without repetition, only updates recorded since, as many as the
  retention holds; as long as no more than the capacity were added it misses none of them (one not
  sent was already in the log it had seen); asking again at the new head gives nothing.  The log
  stays bounded, its sequence numbers consecutive, and no update is stored twice.
\<close>

theorem cursor_catch_up:
  assumes inv: "pr_inv s" and fits: "pr_next_seq s + length ops \<le> u64_max"
    and upd: "updates_since (pr_head s) (record_all ops s) = (ups, head)"
  shows "pr_inv (record_all ops s) \<and> pr_head s \<le> head \<and>
    updates_since head (record_all ops s) = ([], head) \<and>
    distinct ups \<and> length ups = min (pr_cap s) (head - pr_head s) \<and>
    (\<forall>n \<in> set ups. \<exists>(x, m) \<in> set ops. n = mk_note x m) \<and>
    (head - pr_head s \<le> pr_cap s \<longrightarrow>
       (\<forall>(x, m) \<in> set ops. mk_note x m \<in> set ups \<or> mk_note x m \<in> notification_of ` set (pr_items s)))"
proof -
  let ?r = "record_all ops s"
  note all = record_all_inv [OF inv fits]
  note tr = record_all_track [OF inv fits]
  have n: "0 < pr_next_seq s" using inv by (simp add: pr_inv_def)
  have r: "pr_inv ?r" "pr_next_seq s \<le> pr_next_seq ?r" using all by auto
  have hd: "head = pr_next_seq ?r - 1" "pr_head s = pr_next_seq s - 1"
    and ups: "ups = map notification_of (filter (\<lambda>i. pr_next_seq s - 1 < st_seq i) (pr_items ?r))"
    using upd by (auto simp: updates_since_def pr_since_def pr_head_def Let_def)
  have above: "pr_next_seq s - 1 < st_seq i \<longleftrightarrow> pr_next_seq s \<le> st_seq i" for i using n by auto
  let ?l = "length (pr_items ?r)"
  have seqs: "map st_seq (pr_items ?r) = [pr_next_seq ?r - ?l..<pr_next_seq ?r]" "?l < pr_next_seq ?r"
    using r(1) by (auto simp: pr_inv_def)
  have upd_drop: "ups = map notification_of (drop (pr_next_seq s - (pr_next_seq ?r - ?l)) (pr_items ?r))"
    using filter_above_upt [OF seqs(1), of "pr_next_seq s - 1"] n ups by simp
  have "length ups = min (pr_cap s) (head - pr_head s)"
    using upd_drop tr seqs(2) r(2) n hd inv by (auto simp: pr_inv_def min_def)
  moreover have "distinct ups"
    using r(1) unfolding upd_drop pr_inv_def by (metis distinct_drop drop_map)
  moreover have "\<exists>(x, m) \<in> set ops. k = mk_note x m" if "k \<in> set ups" for k
  proof -
    from that ups above obtain i where i: "i \<in> set (pr_items ?r)" "pr_next_seq s \<le> st_seq i" "k = notification_of i"
      by auto
    then have "i \<notin> set (pr_items s)" using pr_inv_seq_below [OF inv, of i] by auto
    with tr i show ?thesis by blast
  qed
  moreover have "mk_note x m \<in> set ups \<or> mk_note x m \<in> notification_of ` set (pr_items s)"
    if "head - pr_head s \<le> pr_cap s" "(x, m) \<in> set ops" for x m
  proof -
    have "pr_next_seq ?r \<le> pr_next_seq s + pr_cap s" using that hd n r(2) by simp
    then have "mk_note x m \<in> notification_of ` set (pr_items s) \<or>
        mk_note x m \<in> notification_of ` {i \<in> set (pr_items ?r). pr_next_seq s \<le> st_seq i}"
      using tr that(2) by blast
    then show ?thesis unfolding ups using above by auto
  qed
  moreover have "updates_since head ?r = ([], head)"
    using pr_inv_seq_below [OF r(1)] hd n r(2)
    by (auto simp: updates_since_def pr_since_def Let_def filter_empty_conv) (metis Suc_pred less_Suc_eq_le not_less less_le_trans)
  ultimately show ?thesis using r hd by auto
qed

theorem cursor_catch_up_witness:
  "updates_since (pr_head pr_new) (record_all [(''a'', 1), (''b'', 2), (''a'', 1)] pr_new) =
     ([mk_note ''a'' 1, mk_note ''b'' 2], 2) \<and> distinct [mk_note ''a'' 1, mk_note ''b'' 2]"
proof -
  have e: "updates_since (pr_head pr_new) (record_all [(''a'', 1), (''b'', 2), (''a'', 1)] pr_new) =
     ([mk_note ''a'' 1, mk_note ''b'' 2], 2)"
    by (simp add: updates_since_def pr_since_def record_all_def pr_record_def pr_new_def pr_with_capacity_def
        pr_head_def same_update_def u64_add_def notification_of_def DEFAULT_CAPACITY_def)
  have "pr_inv pr_new" unfolding pr_new_def by (rule pr_new_inv)
  from cursor_catch_up [OF this _ e] e show ?thesis
    by (simp add: pr_new_def pr_with_capacity_def u64_max_def)
qed

text \<open>Once the local versions are at those announced, nothing is left to sync.\<close>

lemma needs_sync_done:
  "(\<And>n v. n \<in> set ns \<Longrightarrow> local (nt_xite n) = Some v \<Longrightarrow> nt_modified n \<le> v) \<Longrightarrow> needs_sync ns local = []"
  by (force simp: needs_sync_def filter_empty_conv split: option.split)

end
