(* ===== verification/Hash_Map.thy ===== *)
theory Hash_Map
  imports Main
begin

text \<open>
  \<open>HashMap\<close> of the Rust standard library where the code iterates over it: an association list with
  distinct keys whose list order stands for the iteration order.  That order is unspecified in Rust;
  the invariant leaves it free, and the theorems about iterating code hold for every such list.
\<close>

type_synonym ('k, 'v) hash_map = "('k \<times> 'v) list"

definition hm_inv :: "('k, 'v) hash_map \<Rightarrow> bool" where
  "hm_inv m \<longleftrightarrow> distinct (map fst m)"

text \<open>\<open>insert\<close>: replaces the value of a present key, else adds the entry.\<close>

fun hm_insert :: "'k \<Rightarrow> 'v \<Rightarrow> ('k, 'v) hash_map \<Rightarrow> ('k, 'v) hash_map" where
  "hm_insert k v [] = [(k, v)]"
| "hm_insert k v ((k', v') # m) = (if k = k' then (k, v) # m else (k', v') # hm_insert k v m)"

definition hm_contains :: "'k \<Rightarrow> ('k, 'v) hash_map \<Rightarrow> bool" where
  "hm_contains k m \<longleftrightarrow> map_of m k \<noteq> None"

definition hm_remove :: "'k \<Rightarrow> ('k, 'v) hash_map \<Rightarrow> ('k, 'v) hash_map" where
  "hm_remove k m = filter (\<lambda>e. fst e \<noteq> k) m"

lemma map_of_hm_insert [simp]: "map_of (hm_insert k v m) = (map_of m)(k \<mapsto> v)"
  by (induction k v m rule: hm_insert.induct) auto

lemma keys_hm_insert [simp]: "fst ` set (hm_insert k v m) = insert k (fst ` set m)"
  by (induction k v m rule: hm_insert.induct) auto

lemma hm_inv_insert [simp]: "hm_inv m \<Longrightarrow> hm_inv (hm_insert k v m)"
  by (induction k v m rule: hm_insert.induct) (auto simp: hm_inv_def)

lemma hm_inv_Nil [simp]: "hm_inv []"
  by (simp add: hm_inv_def)

lemma hm_inv_filter [simp]: "hm_inv m \<Longrightarrow> hm_inv (filter P m)"
  by (simp add: hm_inv_def distinct_map_filter)

lemma hm_contains_iff: "hm_contains k m \<longleftrightarrow> k \<in> fst ` set m"
  by (auto simp: hm_contains_def map_of_eq_None_iff)

lemma length_hm_insert:
  "length (hm_insert k v m) = (if hm_contains k m then length m else Suc (length m))"
  by (induction k v m rule: hm_insert.induct) (auto simp: hm_contains_def)

lemma hm_entry_iff: "hm_inv m \<Longrightarrow> map_of m k = Some v \<longleftrightarrow> (k, v) \<in> set m"
  by (simp add: hm_inv_def)

lemma set_hm_insert: "hm_inv m \<Longrightarrow> set (hm_insert k v m) = insert (k, v) {e \<in> set m. fst e \<noteq> k}"
  by (induction k v m rule: hm_insert.induct) (auto simp: hm_inv_def image_iff)

lemma map_of_filter_value:
  "hm_inv m \<Longrightarrow> map_of (filter (\<lambda>e. P (snd e)) m) k =
     (case map_of m k of None \<Rightarrow> None | Some v \<Rightarrow> if P v then Some v else None)"
proof (induction m)
  case (Cons e m)
  then show ?case
    by (cases e) (auto simp: hm_inv_def map_of_eq_None_iff image_iff split: option.split)
qed simp

end
