(* ===== verification/Ui_Tracker.thy ===== *)
theory Ui_Tracker
  imports Peer_Directory Hash_Map
begin

text \<open>
  The in-memory announce tracker of the user-interface server, after \<^verbatim>\<open>epix-ui/src/tracker.rs\<close>.
  Times are epoch seconds (\<open>i64\<close>, as \<open>int\<close>: the differences taken are far from its bounds).  The text
  form of addresses, the key of a bucket, is the parameter \<open>show_addr\<close>.
\<close>

definition TTL_SECS :: int where "TTL_SECS = 60 * 60"
definition MAX_HASHES :: nat where "MAX_HASHES = 20000"
definition MAX_PEERS_PER_HASH :: nat where "MAX_PEERS_PER_HASH = 200"

record need_types =
  need_ipv4 :: bool
  need_ipv6 :: bool
  need_onion :: bool
  need_i2p :: bool

definition need_from_list :: "string list \<Rightarrow> need_types" where
  "need_from_list l =
     (let has = (\<lambda>name. list_ex (\<lambda>t. t = name) l) in
      \<lparr>need_ipv4 = has ''ipv4'' \<or> has ''ip4'', need_ipv6 = has ''ipv6'',
       need_onion = has ''onion'', need_i2p = has ''i2p''\<rparr>)"

fun wants :: "need_types \<Rightarrow> ip_type \<Rightarrow> bool" where
  "wants n Ipv4 = need_ipv4 n"
| "wants n Ipv6 = need_ipv6 n"
| "wants n OnionT = need_onion n"
| "wants n I2pT = need_i2p n"
| "wants n RnsT = False"

record tracker_entry =
  te_addr :: peer_addr
  te_announced :: int

type_synonym tracker_db = "(bytes, (string, tracker_entry) hash_map) hash_map"

definition bucket_of :: "tracker_db \<Rightarrow> bytes \<Rightarrow> (string, tracker_entry) hash_map" where
  "bucket_of db h = (case map_of db h of None \<Rightarrow> [] | Some b \<Rightarrow> b)"

text \<open>One iteration of the loop over the announced hashes.\<close>

definition announce_one :: "(peer_addr \<Rightarrow> string) \<Rightarrow> peer_addr \<Rightarrow> int \<Rightarrow> tracker_db \<Rightarrow> bytes \<Rightarrow> tracker_db" where
  "announce_one show_addr addr now db h =
     (if MAX_HASHES \<le> length db \<and> \<not> hm_contains h db then db
      else
        let key = show_addr addr; bucket = bucket_of db h in
        hm_insert h
          (if hm_contains key bucket \<or> length bucket < MAX_PEERS_PER_HASH
           then hm_insert key \<lparr>te_addr = addr, te_announced = now\<rparr> bucket else bucket) db)"

definition tracker_announce ::
    "(peer_addr \<Rightarrow> string) \<Rightarrow> bytes list \<Rightarrow> peer_addr \<Rightarrow> int \<Rightarrow> tracker_db \<Rightarrow> tracker_db" where
  "tracker_announce show_addr hashes addr now db = foldl (announce_one show_addr addr now) db hashes"

definition live_entry :: "int \<Rightarrow> tracker_entry \<Rightarrow> bool" where
  "live_entry now e \<longleftrightarrow> now - te_announced e \<le> TTL_SECS"

text \<open>\<open>sort_by(|a, b| b.announced.cmp(&a.announced))\<close> is the stable sort by the negated time.\<close>

definition peer_list ::
    "(peer_addr \<Rightarrow> string) \<Rightarrow> bytes \<Rightarrow> string set \<Rightarrow> nat \<Rightarrow> int \<Rightarrow> need_types \<Rightarrow> tracker_db \<Rightarrow> peer_addr list" where
  "peer_list show_addr h exclude limit now need db =
     (case map_of db h of
        None \<Rightarrow> []
      | Some bucket \<Rightarrow>
          let live = filter (\<lambda>e. live_entry now e \<and> wants need (ip_type_of (te_addr e)) \<and>
                                 show_addr (te_addr e) \<notin> exclude) (map snd bucket)
          in map te_addr (take limit (sort_key (\<lambda>e. - te_announced e) live)))"

definition drop_excess :: "tracker_db \<Rightarrow> tracker_db" where
  "drop_excess db =
     (if MAX_HASHES < length db
      then foldl (\<lambda>m k. hm_remove k m) db (map fst (take (length db - MAX_HASHES) db))
      else db)"

definition tracker_expire :: "int \<Rightarrow> tracker_db \<Rightarrow> tracker_db" where
  "tracker_expire now db =
     drop_excess
       (filter (\<lambda>(h, b). b \<noteq> [])
         (map (\<lambda>(h, b). (h, filter (\<lambda>(k, e). live_entry now e) b)) db))"

definition tracker_stats :: "tracker_db \<Rightarrow> nat \<times> nat" where
  "tracker_stats db = (length db, sum_list (map (\<lambda>(h, b). length b) db))"

text \<open>Invariant: bounded, distinct keys, and every entry under the text of its own address.\<close>

definition bucket_inv :: "(peer_addr \<Rightarrow> string) \<Rightarrow> (string, tracker_entry) hash_map \<Rightarrow> bool" where
  "bucket_inv show_addr b \<longleftrightarrow>
     hm_inv b \<and> length b \<le> MAX_PEERS_PER_HASH \<and> (\<forall>(k, e) \<in> set b. k = show_addr (te_addr e))"

definition tracker_inv :: "(peer_addr \<Rightarrow> string) \<Rightarrow> tracker_db \<Rightarrow> bool" where
  "tracker_inv show_addr db \<longleftrightarrow>
     hm_inv db \<and> length db \<le> MAX_HASHES \<and> (\<forall>(h, b) \<in> set db. bucket_inv show_addr b)"

definition tracker_stored :: "tracker_db \<Rightarrow> bytes \<Rightarrow> (peer_addr \<times> int) set" where
  "tracker_stored db h = (\<lambda>(k, e). (te_addr e, te_announced e)) ` set (bucket_of db h)"

section \<open>The directory contract\<close>

lemma bucket_of_ok: "tracker_inv show_addr db \<Longrightarrow> bucket_inv show_addr (bucket_of db h)"
  by (auto simp: bucket_of_def tracker_inv_def bucket_inv_def split: option.split dest!: map_of_SomeD)

lemma bucket_insert_inv:
  "bucket_inv show_addr b \<Longrightarrow> hm_contains (show_addr addr) b \<or> length b < MAX_PEERS_PER_HASH \<Longrightarrow>
   bucket_inv show_addr (hm_insert (show_addr addr) \<lparr>te_addr = addr, te_announced = now\<rparr> b)"
  by (auto simp: bucket_inv_def length_hm_insert set_hm_insert)

lemma announce_one_inv:
  assumes "tracker_inv show_addr db"
  shows "tracker_inv show_addr (announce_one show_addr addr now db h)"
  using assms bucket_of_ok [OF assms, of h] bucket_insert_inv [of show_addr "bucket_of db h" addr now]
  by (auto simp: announce_one_def Let_def tracker_inv_def length_hm_insert set_hm_insert)

lemma bucket_of_insert [simp]: "bucket_of (hm_insert h b db) h' = (if h' = h then b else bucket_of db h')"
  by (simp add: bucket_of_def)

lemma announce_one_stored:
  assumes "tracker_inv show_addr db"
  shows "tracker_stored (announce_one show_addr addr now db h) h' \<subseteq>
    (if h' = h then insert (addr, now) (tracker_stored db h') else tracker_stored db h')"
proof -
  have "hm_inv (bucket_of db h)" using bucket_of_ok [OF assms] by (simp add: bucket_inv_def)
  then show ?thesis
    by (auto simp: announce_one_def Let_def tracker_stored_def set_hm_insert)
qed

interpretation tracker: peer_directory
  "\<lambda>now h addr db. tracker_announce show_addr [h] addr now db" tracker_stored "tracker_inv show_addr" MAX_PEERS_PER_HASH
  for show_addr
proof
  fix db t k p k'
  assume inv: "tracker_inv show_addr db"
  show "tracker_inv show_addr (tracker_announce show_addr [k] p t db)"
    using announce_one_inv [OF inv] by (simp add: tracker_announce_def)
  show "tracker_stored (tracker_announce show_addr [k] p t db) k' \<subseteq>
      (if k' = k then insert (p, t) (tracker_stored db k') else tracker_stored db k')"
    using announce_one_stored [OF inv] by (simp add: tracker_announce_def)
  have "card (tracker_stored db k) \<le> length (bucket_of db k)"
    unfolding tracker_stored_def by (metis (no_types, lifting) List.finite_set card_image_le card_length le_trans)
  then show "finite (tracker_stored db k) \<and> card (tracker_stored db k) \<le> MAX_PEERS_PER_HASH"
    using bucket_of_ok [OF inv, of k] by (auto simp: tracker_stored_def bucket_inv_def)
qed

section \<open>Answers\<close>

definition eligible :: "(peer_addr \<Rightarrow> string) \<Rightarrow> string set \<Rightarrow> int \<Rightarrow> need_types \<Rightarrow> tracker_entry \<Rightarrow> bool" where
  "eligible show_addr exclude now need e \<longleftrightarrow>
     live_entry now e \<and> wants need (ip_type_of (te_addr e)) \<and> show_addr (te_addr e) \<notin> exclude"

lemma peer_list_eq:
  "peer_list show_addr h exclude limit now need db =
     map te_addr (take limit (sort_key (\<lambda>e. - te_announced e)
       (filter (eligible show_addr exclude now need) (map snd (bucket_of db h)))))"
  by (auto simp: peer_list_def bucket_of_def eligible_def [abs_def] split: option.split)

lemma bucket_addrs_distinct:
  assumes "bucket_inv show_addr b"
  shows "distinct (map te_addr (map snd b))"
proof -
  have "map fst b = map show_addr (map te_addr (map snd b))"
    using assms by (auto simp: bucket_inv_def case_prod_unfold)
  then show ?thesis using assms by (metis bucket_inv_def distinct_map hm_inv_def)
qed

lemma bucket_of_expire:
  assumes "tracker_inv show_addr db"
  shows "bucket_of (tracker_expire now db) h = filter (\<lambda>(k, e). live_entry now e) (bucket_of db h)"
proof -
  let ?m = "map (\<lambda>(h, b). (h, filter (\<lambda>(k, e). live_entry now e) b)) db"
  have fst_m: "map fst ?m = map fst db" by (auto simp: case_prod_unfold)
  have "hm_inv db" using assms by (simp add: tracker_inv_def)
  then have inv: "hm_inv ?m" unfolding hm_inv_def fst_m .
  have no_excess: "drop_excess m = m" if "length m \<le> MAX_HASHES" for m
    using that by (simp add: drop_excess_def)
  have "length (filter (\<lambda>(h, b). b \<noteq> []) ?m) \<le> length ?m" by (rule length_filter_le)
  also have "\<dots> \<le> MAX_HASHES" using assms by (simp add: tracker_inv_def)
  finally have "tracker_expire now db = filter (\<lambda>(h, b). b \<noteq> []) ?m"
    unfolding tracker_expire_def by (rule no_excess)
  then have "tracker_expire now db = filter (\<lambda>e. snd e \<noteq> []) ?m"
    by (simp only: case_prod_unfold)
  moreover have "map_of ?m h = map_option (filter (\<lambda>(k, e). live_entry now e)) (map_of db h)"
    by (simp add: map_of_map [symmetric] comp_def map_of_map)
  ultimately show ?thesis
    by (auto simp: bucket_of_def map_of_filter_value [OF inv, of "\<lambda>b. b \<noteq> []"] split: option.split)
qed

text \<open>Expiring never changes what is answered at that time or later.\<close>

lemma peer_list_expire:
  assumes "tracker_inv show_addr db" "t \<le> now"
  shows "peer_list show_addr h exclude limit now need (tracker_expire t db) =
    peer_list show_addr h exclude limit now need db"
proof -
  have "filter (eligible show_addr exclude now need) (map snd (filter (\<lambda>(k, e). live_entry t e) b)) =
    filter (eligible show_addr exclude now need) (map snd b)" for b :: "(string, tracker_entry) hash_map"
    using assms(2) by (induction b) (auto simp: eligible_def live_entry_def)
  then show ?thesis by (simp add: peer_list_eq bucket_of_expire [OF assms(1)])
qed

lemma announce_recorded:
  assumes "tracker_inv show_addr db"
    and "hm_contains h db \<or> length db < MAX_HASHES"
    and "hm_contains (show_addr addr) (bucket_of db h) \<or> length (bucket_of db h) < MAX_PEERS_PER_HASH"
  shows "(addr, now) \<in> tracker_stored (tracker_announce show_addr [h] addr now db) h"
proof -
  have "hm_inv (bucket_of db h)" using bucket_of_ok [OF assms(1)] by (simp add: bucket_inv_def)
  then show ?thesis
    using assms(2,3) by (auto simp: tracker_announce_def announce_one_def Let_def tracker_stored_def set_hm_insert)
qed

text \<open>
  What the tracker answers: distinct addresses, as many as the limit and the eligible entries
  allow, each announced for that hash within the hour, of a wanted type and not the asker's own, the
  most recent first: no eligible entry left out is more recent than one returned.  Periodic expiry is
  invisible in the answers, and an announcement within the two caps, or a refresh, is always recorded.
\<close>

theorem tracker_answers:
  assumes inv: "tracker_inv show_addr db"
  shows "distinct (peer_list show_addr h exclude limit now need db) \<and>
    length (peer_list show_addr h exclude limit now need db) =
      min limit (length (filter (eligible show_addr exclude now need) (map snd (bucket_of db h)))) \<and>
    (\<forall>p \<in> set (peer_list show_addr h exclude limit now need db). \<exists>t.
       (p, t) \<in> tracker_stored db h \<and> now - t \<le> TTL_SECS \<and> wants need (ip_type_of p) \<and> show_addr p \<notin> exclude \<and>
       (\<forall>(q, u) \<in> tracker_stored db h.
          now - u \<le> TTL_SECS \<and> wants need (ip_type_of q) \<and> show_addr q \<notin> exclude \<and>
          q \<notin> set (peer_list show_addr h exclude limit now need db) \<longrightarrow> u \<le> t)) \<and>
    (t0 \<le> now \<longrightarrow> peer_list show_addr h exclude limit now need (tracker_expire t0 db) =
       peer_list show_addr h exclude limit now need db) \<and>
    ((hm_contains h db \<or> length db < MAX_HASHES) \<and>
     (hm_contains (show_addr addr) (bucket_of db h) \<or> length (bucket_of db h) < MAX_PEERS_PER_HASH) \<longrightarrow>
       (addr, now) \<in> tracker_stored (tracker_announce show_addr [h] addr now db) h)"
proof -
  let ?f = "\<lambda>e. - te_announced e" and ?el = "filter (eligible show_addr exclude now need) (map snd (bucket_of db h))"
  let ?t = "take limit (sort_key ?f ?el)"
  note eq = peer_list_eq [of show_addr h exclude limit now need db]
  have "distinct (map te_addr ?el)"
    using bucket_addrs_distinct [OF bucket_of_ok [OF inv]] by (rule distinct_map_filter)
  then have "distinct (map te_addr (sort_key ?f ?el))" by (metis mset_eq_imp_distinct_iff mset_map mset_sort)
  then have d: "distinct (map te_addr ?t)" by (metis distinct_take take_map)
  have stored: "(te_addr e, te_announced e) \<in> tracker_stored db h" if "e \<in> set ?el" for e
    using that by (force simp: tracker_stored_def)
  have "\<exists>t. (p, t) \<in> tracker_stored db h \<and> now - t \<le> TTL_SECS \<and> wants need (ip_type_of p) \<and> show_addr p \<notin> exclude \<and>
       (\<forall>(q, u) \<in> tracker_stored db h.
          now - u \<le> TTL_SECS \<and> wants need (ip_type_of q) \<and> show_addr q \<notin> exclude \<and> q \<notin> te_addr ` set ?t \<longrightarrow> u \<le> t)"
    if p: "p \<in> te_addr ` set ?t" for p
  proof -
    obtain e where e: "e \<in> set ?t" "p = te_addr e" using p by blast
    from set_take_sort_key [OF e(1)] have el: "e \<in> set ?el" .
    have "te_announced g \<le> te_announced e" if "g \<in> set ?el" "te_addr g \<notin> te_addr ` set ?t" for g
      using take_sort_key_least [OF e(1), of g] that by force
    moreover have "\<exists>g \<in> set ?el. te_addr g = q \<and> te_announced g = u"
      if "(q, u) \<in> tracker_stored db h" "now - u \<le> TTL_SECS" "wants need (ip_type_of q)" "show_addr q \<notin> exclude" for q u
      using that by (force simp: tracker_stored_def eligible_def live_entry_def)
    ultimately have "\<forall>(q, u) \<in> tracker_stored db h.
        now - u \<le> TTL_SECS \<and> wants need (ip_type_of q) \<and> show_addr q \<notin> exclude \<and> q \<notin> te_addr ` set ?t \<longrightarrow>
        u \<le> te_announced e"
      by blast
    with stored [OF el] el e(2) show ?thesis by (auto simp: eligible_def live_entry_def)
  qed
  then show ?thesis
    using d peer_list_expire [OF inv, of t0 now h exclude limit need]
      announce_recorded [OF inv, of h addr now]
    unfolding eq by simp
qed

theorem tracker_answers_witness:
  "distinct (peer_list (PeerAddr_to_string (\<lambda>a. []) (\<lambda>b. [])) [7] {} 5 100 (need_from_list [''onion'']) []) \<and>
   (Onion ''abc'' 80, 100) \<in> tracker_stored (tracker_announce (PeerAddr_to_string (\<lambda>a. []) (\<lambda>b. [])) [[7]] (Onion ''abc'' 80) 100 []) [7]"
  using tracker_answers [of "PeerAddr_to_string (\<lambda>a. []) (\<lambda>b. [])" "[]" "[7]" "{}" 5 100 "need_from_list [''onion'']" 0 "Onion ''abc'' 80"]
  by (simp add: tracker_inv_def hm_contains_def bucket_of_def MAX_HASHES_def MAX_PEERS_PER_HASH_def)

end
