(* ===== verification/Piece_Field.thy ===== *)
theory Piece_Field
  imports Ordered_Map Obj_Id
begin

text \<open>
  The two availability fields of \<^verbatim>\<open>epix-xite\<close>: the piecefield of a big file (\<^verbatim>\<open>piecefield.rs\<close>), a
  run-length encoded list of flags, and the hashfield of optional files (\<^verbatim>\<open>hashfield.rs\<close>), a sorted
  set of 16-bit hash ids, with their wire forms.
\<close>

section \<open>Pairs of bytes\<close>

text \<open>\<open>chunks_exact(2)\<close> with \<open>u16::from_le_bytes\<close>; a trailing odd byte is ignored.\<close>

fun u16_chunks :: "bytes \<Rightarrow> u16 list" where
  "u16_chunks (a # b # bs) = word_of_nat (of_le_bytes [a, b]) # u16_chunks bs"
| "u16_chunks _ = []"

definition u16_bytes :: "u16 list \<Rightarrow> bytes" where
  "u16_bytes ws = concat (map le16 ws)"

lemma u16_chunks_bytes: "u16_chunks (u16_bytes ws) = ws"
proof (induction ws)
  case (Cons w ws)
  have two: "le16 w = [le16 w ! 0, le16 w ! 1]" by (simp add: le16_def numeral_2_eq_2)
  have "u16_chunks (le16 w @ u16_bytes ws) = word_of_nat (of_le_bytes (le16 w)) # u16_chunks (u16_bytes ws)"
    by (subst (1 2) two) (simp del: of_le_bytes.simps)
  with Cons show ?case by (simp add: u16_bytes_def of_le_bytes_le16)
qed (simp add: u16_bytes_def)

section \<open>Piecefields\<close>

definition MAX_PIECES :: nat where "MAX_PIECES = 8 * 1024 * 1024"

definition U16_MAX :: nat where "U16_MAX = 65535"

type_synonym piecefield = "bool list"

definition all_present :: "nat \<Rightarrow> piecefield" where
  "all_present n = replicate n True"

definition pf_get :: "piecefield \<Rightarrow> nat \<Rightarrow> bool" where
  "pf_get bits i = (if i < length bits then bits ! i else False)"

definition pf_set :: "nat \<Rightarrow> bool \<Rightarrow> piecefield \<Rightarrow> piecefield" where
  "pf_set i present bits =
     (let bits' = (if length bits \<le> i then bits @ replicate (i + 1 - length bits) False else bits)
      in bits'[i := present])"

definition count_present :: "piecefield \<Rightarrow> nat" where
  "count_present bits = length (filter (\<lambda>b. b) bits)"

text \<open>Splitting a run longer than \<open>u16::MAX\<close> with empty runs of the opposite kind.\<close>

function split_run :: "nat \<Rightarrow> u16 list" where
  "split_run n =
     (if U16_MAX < n then word_of_nat U16_MAX # 0 # split_run (n - U16_MAX) else [word_of_nat n])"
  by pat_completeness auto
termination
  by (relation "measure id") (auto simp: U16_MAX_def)

function pack_runs :: "bool \<Rightarrow> bool list \<Rightarrow> u16 list" where
  "pack_runs expected bits =
     (if bits = [] then []
      else split_run (length (takeWhile (\<lambda>b. b = expected) bits)) @
           pack_runs (\<not> expected) (dropWhile (\<lambda>b. b = expected) bits))"
  by pat_completeness auto
termination
proof (relation "measure (\<lambda>(e, bits). 2 * length bits + (if bits \<noteq> [] \<and> hd bits \<noteq> e then 1 else 0))")
  fix expected bits
  assume "bits \<noteq> ([] :: bool list)"
  then obtain b bs where "bits = b # bs" by (cases bits) auto
  then show "((\<not> expected, dropWhile (\<lambda>b. b = expected) bits), (expected, bits)) \<in>
      measure (\<lambda>(e, bits). 2 * length bits + (if bits \<noteq> [] \<and> hd bits \<noteq> e then 1 else 0))"
    using length_dropWhile_le [of "\<lambda>b. b = expected" bs] by auto
qed simp

declare split_run.simps [simp del] pack_runs.simps [simp del]

definition pf_pack :: "piecefield \<Rightarrow> bytes" where
  "pf_pack bits = (if bits = [] then [] else u16_bytes (pack_runs True bits))"

fun unpack_runs :: "bool \<Rightarrow> bool list \<Rightarrow> u16 list \<Rightarrow> piecefield" where
  "unpack_runs present bits [] = bits"
| "unpack_runs present bits (run # runs) =
     (if MAX_PIECES < length bits + unat run then []
      else unpack_runs (\<not> present) (bits @ replicate (unat run) present) runs)"

definition pf_unpack :: "bytes \<Rightarrow> piecefield" where
  "pf_unpack packed = unpack_runs True [] (u16_chunks packed)"

lemma unpack_split_run:
  "length acc + n \<le> MAX_PIECES \<Longrightarrow>
   unpack_runs e acc (split_run n @ runs) = unpack_runs (\<not> e) (acc @ replicate n e) runs"
proof (induction n arbitrary: acc rule: split_run.induct)
  case (1 n)
  show ?case
  proof (cases "U16_MAX < n")
    case True
    have u: "unat (word_of_nat U16_MAX :: u16) = U16_MAX"
      using unat_u16_of_nat [of U16_MAX] by (simp add: U16_MAX_def)
    have "unpack_runs e acc (split_run n @ runs) =
      unpack_runs e (acc @ replicate U16_MAX e) (split_run (n - U16_MAX) @ runs)"
      using True "1.prems" by (simp add: split_run.simps [of n] u)
    also have "\<dots> = unpack_runs (\<not> e) (acc @ replicate U16_MAX e @ replicate (n - U16_MAX) e) runs"
      using "1.IH" [OF True, of "acc @ replicate U16_MAX e"] "1.prems" True by simp
    finally show ?thesis using True by (simp flip: replicate_add)
  next
    case False
    then have "unat (word_of_nat n :: u16) = n" by (intro unat_u16_of_nat) (simp add: U16_MAX_def)
    then show ?thesis using False "1.prems" by (simp add: split_run.simps [of n])
  qed
qed

lemma takeWhile_eq_replicate: "takeWhile (\<lambda>b. b = e) bs = replicate (length (takeWhile (\<lambda>b. b = e) bs)) e"
  by (induction bs) auto

lemma unpack_pack_runs:
  "length acc + length bits \<le> MAX_PIECES \<Longrightarrow> unpack_runs e acc (pack_runs e bits) = acc @ bits"
proof (induction e bits arbitrary: acc rule: pack_runs.induct)
  case (1 e bits)
  show ?case
  proof (cases "bits = []")
    case True
    then show ?thesis by (simp add: pack_runs.simps [of e "[]"])
  next
    case False
    let ?n = "length (takeWhile (\<lambda>b. b = e) bits)" and ?r = "dropWhile (\<lambda>b. b = e) bits"
    have split: "replicate ?n e @ ?r = bits"
      by (subst takeWhile_eq_replicate [symmetric]) (rule takeWhile_dropWhile_id)
    then have len: "?n + length ?r = length bits" by (metis length_append length_replicate)
    have "unpack_runs e acc (pack_runs e bits) = unpack_runs (\<not> e) (acc @ replicate ?n e) (pack_runs (\<not> e) ?r)"
      using False "1.prems" len unpack_split_run [of acc ?n e] by (simp add: pack_runs.simps [of e bits])
    also have "\<dots> = (acc @ replicate ?n e) @ ?r"
      using "1.IH" [OF False, of "acc @ replicate ?n e"] "1.prems" len by simp
    finally show ?thesis using split by simp
  qed
qed

lemma unpack_runs_bound: "length acc \<le> MAX_PIECES \<Longrightarrow> length (unpack_runs e acc runs) \<le> MAX_PIECES"
  by (induction e acc runs rule: unpack_runs.induct) auto

lemma pf_get_set: "pf_get (pf_set i v bits) j = (if j = i then v else pf_get bits j)"
  by (auto simp: pf_get_def pf_set_def Let_def nth_append nth_list_update)

text \<open>
  The piecefield wire form: a field of at most 8 Mi pieces comes back unchanged, also when a run
  exceeds 65,535 and is split; whatever bytes a peer sends, the unpacked field never exceeds the cap;
  and setting a piece changes that piece only, extending the field with absent pieces.
\<close>

theorem piecefield_roundtrip:
  "(length bits \<le> MAX_PIECES \<longrightarrow> pf_unpack (pf_pack bits) = bits) \<and>
   length (pf_unpack packed) \<le> MAX_PIECES \<and>
   pf_get (pf_set i v bits) j = (if j = i then v else pf_get bits j)"
proof -
  have "pf_unpack (pf_pack bits) = bits" if "length bits \<le> MAX_PIECES"
  proof (cases "bits = []")
    case False
    then show ?thesis
      using that unpack_pack_runs [of "[]" bits True] by (simp add: pf_unpack_def pf_pack_def u16_chunks_bytes)
  qed (simp add: pf_unpack_def pf_pack_def)
  then show ?thesis using unpack_runs_bound [of "[]" True "u16_chunks packed"] pf_get_set by (simp add: pf_unpack_def)
qed

theorem piecefield_roundtrip_witness:
  "pf_unpack (pf_pack (replicate 70000 True @ [False, True])) = replicate 70000 True @ [False, True]"
  using piecefield_roundtrip [of "replicate 70000 True @ [False, True]"] by (simp add: MAX_PIECES_def)

section \<open>Hashfields\<close>

type_synonym hashfield = "u16 list"

fun radix16_u16 :: "nat \<Rightarrow> string \<Rightarrow> nat option" where
  "radix16_u16 acc [] = Some acc"
| "radix16_u16 acc (c # cs) =
     (case hex_digit c of
        None \<Rightarrow> None
      | Some d \<Rightarrow> if 16 * acc + d \<le> U16_MAX then radix16_u16 (16 * acc + d) cs else None)"

text \<open>\<open>u16::from_str_radix(h, 16)\<close> on the first four bytes.\<close>

definition hash_id :: "string \<Rightarrow> u16 option" where
  "hash_id sha512_hex =
     (if length sha512_hex < 4 then None
      else let h = take 4 sha512_hex in
        map_option word_of_nat (if hd h = CHR ''+'' then radix16_u16 0 (tl h) else radix16_u16 0 h))"

definition hf_add_id :: "u16 \<Rightarrow> hashfield \<Rightarrow> bool \<times> hashfield" where
  "hf_add_id i ids = (i \<notin> set ids, bs_insert i ids)"

definition hf_add_hash :: "string \<Rightarrow> hashfield \<Rightarrow> bool \<times> hashfield" where
  "hf_add_hash s ids = (case hash_id s of Some i \<Rightarrow> hf_add_id i ids | None \<Rightarrow> (False, ids))"

definition hf_remove_hash :: "string \<Rightarrow> hashfield \<Rightarrow> bool \<times> hashfield" where
  "hf_remove_hash s ids =
     (case hash_id s of
        Some i \<Rightarrow> (i \<in> set ids, filter (\<lambda>j. j \<noteq> i) ids)
      | None \<Rightarrow> (False, ids))"

definition hf_has_id :: "hashfield \<Rightarrow> u16 \<Rightarrow> bool" where
  "hf_has_id ids i \<longleftrightarrow> i \<in> set ids"

definition hf_has_hash :: "hashfield \<Rightarrow> string \<Rightarrow> bool" where
  "hf_has_hash ids s \<longleftrightarrow> (case hash_id s of Some i \<Rightarrow> i \<in> set ids | None \<Rightarrow> False)"

definition hf_to_bytes :: "hashfield \<Rightarrow> bytes" where
  "hf_to_bytes ids = concat (map le16 ids)"

definition hf_from_bytes :: "bytes \<Rightarrow> hashfield" where
  "hf_from_bytes raw = foldl (\<lambda>ids i. bs_insert i ids) [] (u16_chunks raw)"

lemma foldl_bs_insert: "sorted_wrt (<) ids \<Longrightarrow>
  sorted_wrt (<) (foldl (\<lambda>ids i. bs_insert i ids) ids ws) \<and>
  set (foldl (\<lambda>ids i. bs_insert i ids) ids ws) = set ids \<union> set ws"
  by (induction ws arbitrary: ids) auto

lemma hf_from_to: "sorted_wrt (<) ids \<Longrightarrow> hf_from_bytes (hf_to_bytes ids) = ids"
  using foldl_bs_insert [of "[]" ids] u16_chunks_bytes [of ids]
  by (intro strict_sorted_unique) (auto simp: hf_from_bytes_def hf_to_bytes_def u16_bytes_def)

text \<open>
  Hashfields are sets of hash ids with a canonical wire form: a file added is found and reported
  new exactly when its id was absent, a removed one is no longer found, files with other ids are
  unaffected, the ids stay strictly sorted through every operation, any bytes parse to a well-formed
  field, and serializing and parsing gives the field back.
\<close>

theorem hashfield_set:
  assumes "sorted_wrt (<) ids"
  shows "hf_from_bytes (hf_to_bytes ids) = ids \<and> sorted_wrt (<) (hf_from_bytes raw) \<and>
    sorted_wrt (<) (snd (hf_add_hash s ids)) \<and> sorted_wrt (<) (snd (hf_remove_hash s ids)) \<and>
    (hash_id s \<noteq> None \<longrightarrow> hf_has_hash (snd (hf_add_hash s ids)) s) \<and>
    (fst (hf_add_hash s ids) \<longleftrightarrow> hash_id s \<noteq> None \<and> \<not> hf_has_hash ids s) \<and>
    (fst (hf_remove_hash s ids) \<longleftrightarrow> hf_has_hash ids s) \<and>
    \<not> hf_has_hash (snd (hf_remove_hash s ids)) s \<and>
    (hash_id t \<noteq> hash_id s \<longrightarrow>
       hf_has_hash (snd (hf_add_hash s ids)) t = hf_has_hash ids t \<and>
       hf_has_hash (snd (hf_remove_hash s ids)) t = hf_has_hash ids t)"
  using assms hf_from_to [OF assms] foldl_bs_insert [of "[]" "u16_chunks raw"]
  by (auto simp: hf_add_hash_def hf_remove_hash_def hf_has_hash_def hf_add_id_def hf_from_bytes_def
      sorted_wrt_filter split: option.splits)

theorem hashfield_set_witness:
  "hf_has_hash (snd (hf_add_hash ''beef01'' [7, 9])) ''beefff'' \<and> hash_id ''beef01'' = Some 0xbeef"
proof -
  have h: "hash_id ''beef01'' = Some 0xbeef" "hash_id ''beefff'' = Some 0xbeef"
    by (simp_all add: hash_id_def hex_digit_def U16_MAX_def Let_def)
  then show ?thesis
    using hashfield_set [of "[7, 9]" "[]" "''beefff''" "''beef01''"] by (simp add: hf_has_hash_def hf_add_hash_def)
qed

end
