(* ===== verification/Choker.thy ===== *)
theory Choker
  imports Hash_Map Rust_Std
begin

text \<open>
  The upload-side reciprocity choker and upload governor, after \<^verbatim>\<open>epix-edx/src/choke.rs\<close>.  Byte and
  time counters are \<open>u64\<close> kept as \<open>nat\<close>, with the wrap-around of plain addition written out
  (\<open>u64_add\<close>).  The account table is a \<open>HashMap\<close>; its iteration order decides only which of several
  equally bad accounts is evicted.
\<close>

definition FIRST_PAINT_FREE_BYTES :: nat where "FIRST_PAINT_FREE_BYTES = 6 * 2 ^ 30"
definition FIRST_PAINT_WINDOW_SECS :: nat where "FIRST_PAINT_WINDOW_SECS = 600"
definition MAX_TRACKED_PEERS :: nat where "MAX_TRACKED_PEERS = 4096"
definition PEER_IDLE_EVICT_SECS :: nat where "PEER_IDLE_EVICT_SECS = 24 * 3600"
definition UNCHOKE_SLOTS :: nat where "UNCHOKE_SLOTS = 16"
definition OVERLAY_RESERVED_SLOTS :: nat where "OVERLAY_RESERVED_SLOTS = 4"
definition OPTIMISTIC_ROTATE_SECS :: nat where "OPTIMISTIC_ROTATE_SECS = 30"
definition ACTIVE_WINDOW_SECS :: nat where "ACTIVE_WINDOW_SECS = 60"
definition PAUSED_RETRY_SECS :: nat where "PAUSED_RETRY_SECS = 60"

datatype reach = Clearnet | Overlay

record peer_account =
  served_to_us :: nat
  served_by_us :: nat
  free_spent :: nat
  free_window_start :: nat
  last_seen :: nat
  acct_reach :: reach
  conns :: nat
  last_activity :: "nat option"

definition default_account :: peer_account where
  "default_account = \<lparr>served_to_us = 0, served_by_us = 0, free_spent = 0, free_window_start = 0,
     last_seen = 0, acct_reach = Clearnet, conns = 0, last_activity = None\<rparr>"

record choker =
  ck_peers :: "(bytes, peer_account) hash_map"
  global_cap_bps :: nat
  foreground_yield_num :: nat
  second_bytes :: nat
  second_ts :: nat
  paused :: bool
  unchoked :: "bytes set"
  unchoked_epoch :: nat
  dirty :: bool

datatype serve_decision = Serve | FirstPaint | Choked | Throttled

definition choker_new :: "nat \<Rightarrow> choker" where
  "choker_new cap = \<lparr>ck_peers = [], global_cap_bps = cap, foreground_yield_num = 64, second_bytes = 0,
     second_ts = 0, paused = False, unchoked = {}, unchoked_epoch = 0, dirty = True\<rparr>"

section \<open>The account table\<close>

text \<open>\<open>min_by\<close> over the unconnected accounts: least contribution, then oldest seen, first in order.\<close>

definition evict_key :: "peer_account \<Rightarrow> nat \<times> nat" where
  "evict_key a = (served_to_us a, last_seen a)"

fun min_by_first :: "('a \<Rightarrow> 'b::linorder) \<Rightarrow> 'a list \<Rightarrow> 'a option" where
  "min_by_first f [] = None"
| "min_by_first f (x # xs) =
     (case min_by_first f xs of None \<Rightarrow> Some x | Some y \<Rightarrow> if f x \<le> f y then Some x else Some y)"

definition worst_account :: "(bytes, peer_account) hash_map \<Rightarrow> bytes option" where
  "worst_account peers =
     map_option fst (min_by_first (\<lambda>(pk, a). evict_key a) (filter (\<lambda>(pk, a). conns a = 0) peers))"

lemma min_by_first_mem: "min_by_first f xs = Some x \<Longrightarrow> x \<in> set xs"
  by (induction f xs arbitrary: x rule: min_by_first.induct) (auto split: option.splits if_splits)

lemma min_by_first_None: "min_by_first f xs = None \<longleftrightarrow> xs = []"
  by (cases xs) (auto split: option.splits)

lemma min_by_first_le: "min_by_first f xs = Some x \<Longrightarrow> y \<in> set xs \<Longrightarrow> f x \<le> f y"
proof (induction f xs arbitrary: x y rule: min_by_first.induct)
  case (2 f z zs)
  show ?case
  proof (cases "min_by_first f zs")
    case None
    then show ?thesis using 2 by (simp add: min_by_first_None)
  next
    case (Some w)
    then show ?thesis using 2 by (force split: if_splits)
  qed
qed simp

lemma worst_account_Some:
  assumes "worst_account peers = Some pk"
  obtains a where "(pk, a) \<in> set peers" "conns a = 0"
    "\<And>pk' a'. (pk', a') \<in> set peers \<Longrightarrow> conns a' = 0 \<Longrightarrow> evict_key a \<le> evict_key a'"
proof -
  obtain e where e: "min_by_first (\<lambda>(pk, a). evict_key a) (filter (\<lambda>(pk, a). conns a = 0) peers) = Some e" "pk = fst e"
    using assms by (auto simp: worst_account_def)
  show thesis
  proof (rule that [of "snd e"])
    show "(pk, snd e) \<in> set peers" "conns (snd e) = 0" using min_by_first_mem [OF e(1)] e(2) by auto
    show "evict_key (snd e) \<le> evict_key a'" if "(pk', a') \<in> set peers" "conns a' = 0" for pk' a'
      using min_by_first_le [OF e(1), of "(pk', a')"] that by (simp add: case_prod_unfold)
  qed
qed

function evict_loop :: "(bytes, peer_account) hash_map \<Rightarrow> (bytes, peer_account) hash_map" where
  "evict_loop peers =
     (if MAX_TRACKED_PEERS \<le> length peers
      then (case worst_account peers of None \<Rightarrow> peers | Some worst \<Rightarrow> evict_loop (hm_remove worst peers))
      else peers)"
  by pat_completeness auto
termination
proof (relation "measure length")
  fix peers :: "(bytes, peer_account) hash_map" and worst
  assume "worst_account peers = Some worst"
  then obtain a where "(worst, a) \<in> set peers" by (rule worst_account_Some)
  then show "(hm_remove worst peers, peers) \<in> measure length"
    by (auto simp: hm_remove_def intro!: length_filter_less)
qed simp

declare evict_loop.simps [simp del]

definition evict :: "nat \<Rightarrow> choker \<Rightarrow> choker" where
  "evict now ck =
     ck\<lparr>ck_peers := evict_loop
          (filter (\<lambda>(pk, a). conns a > 0 \<or> now - last_seen a < PEER_IDLE_EVICT_SECS) (ck_peers ck))\<rparr>"

text \<open>\<open>touch\<close> followed by an update of the account it returns.\<close>

definition touch_account :: "nat \<Rightarrow> peer_account option \<Rightarrow> peer_account" where
  "touch_account now o_a =
     (case o_a of
        None \<Rightarrow> default_account\<lparr>free_window_start := now, last_seen := now\<rparr>
      | Some a \<Rightarrow> a\<lparr>last_seen := now\<rparr>)"

definition touch :: "bytes \<Rightarrow> nat \<Rightarrow> choker \<Rightarrow> choker" where
  "touch pk now ck0 =
     (let ck = (if hm_contains pk (ck_peers ck0) then ck0
                else (if MAX_TRACKED_PEERS \<le> length (ck_peers ck0) then evict now ck0 else ck0)\<lparr>dirty := True\<rparr>)
      in ck\<lparr>ck_peers := hm_insert pk (touch_account now (map_of (ck_peers ck) pk)) (ck_peers ck)\<rparr>)"

definition account :: "choker \<Rightarrow> bytes \<Rightarrow> peer_account" where
  "account ck pk = (case map_of (ck_peers ck) pk of None \<Rightarrow> default_account | Some a \<Rightarrow> a)"

definition set_account :: "bytes \<Rightarrow> peer_account \<Rightarrow> choker \<Rightarrow> choker" where
  "set_account pk a ck = ck\<lparr>ck_peers := hm_insert pk a (ck_peers ck)\<rparr>"

definition U32_MAX :: nat where "U32_MAX = 2 ^ 32 - 1"

definition note_peer :: "bytes \<Rightarrow> reach \<Rightarrow> nat \<Rightarrow> choker \<Rightarrow> choker" where
  "note_peer pk r now ck0 =
     (let ck = touch pk now ck0 in
      (set_account pk ((account ck pk)\<lparr>acct_reach := r\<rparr>) ck)\<lparr>dirty := True\<rparr>)"

definition note_connected :: "bytes \<Rightarrow> reach \<Rightarrow> nat \<Rightarrow> choker \<Rightarrow> choker" where
  "note_connected pk r now ck0 =
     (let ck = touch pk now ck0; a = account ck pk in
      (set_account pk (a\<lparr>acct_reach := r, conns := min (conns a + 1) U32_MAX\<rparr>) ck)\<lparr>dirty := True\<rparr>)"

definition note_disconnected :: "bytes \<Rightarrow> nat \<Rightarrow> choker \<Rightarrow> choker" where
  "note_disconnected pk now ck0 =
     (let ck = touch pk now ck0; a = account ck pk in
      (set_account pk (a\<lparr>conns := conns a - 1\<rparr>) ck)\<lparr>dirty := True\<rparr>)"

definition credit_peer :: "bytes \<Rightarrow> nat \<Rightarrow> nat \<Rightarrow> choker \<Rightarrow> choker" where
  "credit_peer pk n now ck0 =
     (let ck = touch pk now ck0; a = account ck pk in
      (set_account pk (a\<lparr>served_to_us := u64_add (served_to_us a) n, last_activity := Some now\<rparr>) ck)\<lparr>dirty := True\<rparr>)"

definition set_paused :: "bool \<Rightarrow> choker \<Rightarrow> choker" where
  "set_paused p ck = ck\<lparr>paused := p\<rparr>"

section \<open>The unchoke set\<close>

definition active_at :: "nat \<Rightarrow> nat option \<Rightarrow> bool" where
  "active_at now la = (case la of None \<Rightarrow> False | Some t \<Rightarrow> now - t \<le> ACTIVE_WINDOW_SECS)"

definition is_ranked :: "nat \<Rightarrow> peer_account \<Rightarrow> bool" where
  "is_ranked now a \<longleftrightarrow> conns a > 0 \<and> active_at now (last_activity a)"

definition rank_key :: "bytes \<times> peer_account \<Rightarrow> int \<times> nat \<times> bytes" where
  "rank_key e = (- int (served_to_us (snd e)), served_by_us (snd e), fst e)"

definition ranked_peers :: "nat \<Rightarrow> (bytes, peer_account) hash_map \<Rightarrow> (bytes \<times> peer_account) list" where
  "ranked_peers now peers = sort_key rank_key (filter (\<lambda>(pk, a). is_ranked now a) peers)"

text \<open>The loop over the overlay peers inserts until its slots are used up.\<close>

fun fill_reserved :: "nat \<Rightarrow> bytes set \<Rightarrow> bytes list \<Rightarrow> bytes set" where
  "fill_reserved slots s [] = s"
| "fill_reserved slots s (pk # pks) = (if slots = 0 then s else fill_reserved (slots - 1) (insert pk s) pks)"

fun fill_general :: "nat \<Rightarrow> bytes set \<Rightarrow> bytes list \<Rightarrow> bytes set" where
  "fill_general slots s [] = s"
| "fill_general slots s (pk # pks) =
     (if slots = 0 then s
      else if pk \<in> s then fill_general slots s pks
      else fill_general (slots - 1) (insert pk s) pks)"

definition connected_peers :: "(bytes, peer_account) hash_map \<Rightarrow> bytes list" where
  "connected_peers peers = sort (map fst (filter (\<lambda>(pk, a). conns a > 0) peers))"

definition unchoke_set :: "nat \<Rightarrow> nat \<Rightarrow> (bytes, peer_account) hash_map \<Rightarrow> bytes set" where
  "unchoke_set epoch now peers =
     (let ranked = ranked_peers now peers;
          s1 = fill_reserved OVERLAY_RESERVED_SLOTS {} (map fst (filter (\<lambda>(pk, a). acct_reach a = Overlay) ranked));
          s2 = fill_general (UNCHOKE_SLOTS - OVERLAY_RESERVED_SLOTS) s1 (map fst ranked);
          connected = connected_peers peers
      in if connected = [] then s2 else insert (connected ! (epoch mod length connected)) s2)"

definition rebuild_unchoked :: "nat \<Rightarrow> nat \<Rightarrow> choker \<Rightarrow> choker" where
  "rebuild_unchoked epoch now ck =
     ck\<lparr>unchoked := unchoke_set epoch now (ck_peers ck), unchoked_epoch := epoch, dirty := False\<rparr>"

definition is_unchoked :: "bytes \<Rightarrow> nat \<Rightarrow> choker \<Rightarrow> bool \<times> choker" where
  "is_unchoked pk now ck0 =
     (let epoch = now div OPTIMISTIC_ROTATE_SECS;
          ck = (if dirty ck0 \<or> epoch \<noteq> unchoked_epoch ck0 then rebuild_unchoked epoch now ck0 else ck0)
      in (pk \<in> unchoked ck, ck))"

section \<open>Decisions\<close>

definition effective_cap :: "bool \<Rightarrow> choker \<Rightarrow> nat" where
  "effective_cap foreground ck =
     (if foreground then min (global_cap_bps ck * foreground_yield_num ck) u64_max div 256 else global_cap_bps ck)"

text \<open>The activity stamp every request leaves, and the roll of the per-second bucket.\<close>

definition stamp_activity :: "bytes \<Rightarrow> nat \<Rightarrow> choker \<Rightarrow> choker" where
  "stamp_activity pk now ck0 =
     (let ck = touch pk now ck0; a = account ck pk;
          ck' = set_account pk (a\<lparr>last_activity := Some now\<rparr>) ck
      in if active_at now (last_activity a) then ck' else ck'\<lparr>dirty := True\<rparr>)"

definition roll_second :: "nat \<Rightarrow> choker \<Rightarrow> choker" where
  "roll_second now ck = (if now \<noteq> second_ts ck then ck\<lparr>second_ts := now, second_bytes := 0\<rparr> else ck)"

text \<open>The first-paint branch up to the budget test: the account with its window rolled.\<close>

definition free_account :: "nat \<Rightarrow> peer_account \<Rightarrow> peer_account" where
  "free_account now a =
     (if FIRST_PAINT_WINDOW_SECS \<le> now - free_window_start a
      then a\<lparr>free_window_start := now, free_spent := 0\<rparr> else a)"

text \<open>The part after the first-paint branch: the choke, then the accounting of what is served.\<close>

definition decide_choke :: "bytes \<Rightarrow> nat \<Rightarrow> bool \<Rightarrow> nat \<Rightarrow> choker \<Rightarrow> serve_decision \<times> choker" where
  "decide_choke pk n first_paint now ck0 =
     (case is_unchoked pk now ck0 of (ok, ck) \<Rightarrow>
        if \<not> ok then (Choked, ck)
        else
          let ck1 = (if first_paint then ck\<lparr>second_bytes := u64_add (second_bytes ck) n\<rparr> else ck)
          in (Serve,
              (case map_of (ck_peers ck1) pk of
                 None \<Rightarrow> ck1
               | Some a \<Rightarrow> set_account pk (a\<lparr>served_by_us := u64_add (served_by_us a) n, last_seen := now\<rparr>) ck1)))"

definition decide :: "bytes \<Rightarrow> nat \<Rightarrow> bool \<Rightarrow> bool \<Rightarrow> nat \<Rightarrow> choker \<Rightarrow> serve_decision \<times> choker" where
  "decide pk n first_paint foreground now ck0 =
     (if paused ck0 then (Throttled, ck0)
      else
        let ck = roll_second now (stamp_activity pk now ck0) in
        if first_paint then
          if effective_cap foreground ck < u64_add (second_bytes ck) n then (Throttled, ck)
          else
            let ck1 = touch pk now ck; a = free_account now (account ck1 pk) in
            if u64_add (free_spent a) n \<le> FIRST_PAINT_FREE_BYTES
            then (FirstPaint,
                  (set_account pk (a\<lparr>free_spent := u64_add (free_spent a) n\<rparr>) ck1)
                    \<lparr>second_bytes := u64_add (second_bytes ck1) n\<rparr>)
            else decide_choke pk n True now (set_account pk a ck1)
        else decide_choke pk n False now ck)"

definition retry_after_secs :: "serve_decision \<Rightarrow> nat \<Rightarrow> choker \<Rightarrow> nat" where
  "retry_after_secs d now ck =
     (case d of
        Choked \<Rightarrow> OPTIMISTIC_ROTATE_SECS - now mod OPTIMISTIC_ROTATE_SECS
      | Throttled \<Rightarrow> if paused ck then PAUSED_RETRY_SECS else 1
      | Serve \<Rightarrow> 0
      | FirstPaint \<Rightarrow> 0)"

definition served_to :: "bytes \<Rightarrow> choker \<Rightarrow> nat" where
  "served_to pk ck = served_by_us (account ck pk)"

definition credit_of :: "bytes \<Rightarrow> choker \<Rightarrow> nat" where
  "credit_of pk ck = served_to_us (account ck pk)"

section \<open>Who is unchoked\<close>

lemma fill_reserved_take: "fill_reserved n s pks = s \<union> set (take n pks)"
proof (induction n s pks rule: fill_reserved.induct)
  case (2 n s pk pks)
  then show ?case by (cases n) auto
qed simp

lemma fill_general_take:
  "distinct pks \<Longrightarrow> fill_general n s pks = s \<union> set (take n (filter (\<lambda>pk. pk \<notin> s) pks))"
proof (induction n s pks rule: fill_general.induct)
  case (2 n s pk pks)
  show ?case
  proof (cases "n = 0 \<or> pk \<in> s")
    case True
    then show ?thesis using 2 by (auto split: if_splits)
  next
    case False
    then obtain m where n: "n = Suc m" by (cases n) auto
    have "filter (\<lambda>x. x \<notin> insert pk s) pks = filter (\<lambda>x. x \<notin> s) pks"
      using "2.prems" by (intro filter_cong) auto
    with 2 False n show ?thesis by (auto split: if_splits)
  qed
qed simp

lemma sorted_wrt_take_before:
  assumes "sorted_wrt P xs" "x \<in> set xs" "x \<notin> set (take n xs)"
  shows "length (take n xs) = n" "\<And>y. y \<in> set (take n xs) \<Longrightarrow> P y x"
proof -
  have d: "x \<in> set (drop n xs)" using assms(2,3) by (metis UnE append_take_drop_id set_append)
  then have "n < length xs" by (metis drop_all equals0D not_le set_empty)
  then show "length (take n xs) = n" by simp
  have "sorted_wrt P (take n xs @ drop n xs)" using assms(1) by simp
  with d show "\<And>y. y \<in> set (take n xs) \<Longrightarrow> P y x" by (auto simp only: sorted_wrt_append)
qed

abbreviation rank_less :: "bytes \<times> peer_account \<Rightarrow> bytes \<times> peer_account \<Rightarrow> bool" where
  "rank_less x y \<equiv> rank_key x < rank_key y"

lemma ranked_set: "set (ranked_peers now peers) = {(pk, a) \<in> set peers. is_ranked now a}"
  by (auto simp: ranked_peers_def)

lemma ranked_strict:
  assumes "hm_inv peers"
  shows "distinct (map fst (ranked_peers now peers))" "sorted_wrt rank_less (ranked_peers now peers)"
proof -
  have "distinct (map fst (filter (\<lambda>(pk, a). is_ranked now a) peers))"
    using assms by (simp add: hm_inv_def distinct_map_filter)
  then show d: "distinct (map fst (ranked_peers now peers))"
    unfolding ranked_peers_def by (metis mset_eq_imp_distinct_iff mset_map mset_sort)
  have "sorted (map rank_key (ranked_peers now peers))" by (simp add: ranked_peers_def)
  moreover have "distinct (map rank_key (ranked_peers now peers))"
  proof -
    have "map fst (ranked_peers now peers) = map (\<lambda>k. snd (snd k)) (map rank_key (ranked_peers now peers))"
      by (simp add: rank_key_def)
    then show ?thesis using d by (metis distinct_map)
  qed
  ultimately have "sorted_wrt (<) (map rank_key (ranked_peers now peers))" by (simp only: strict_sorted_iff)
  then show "sorted_wrt rank_less (ranked_peers now peers)" by (simp add: sorted_wrt_map)
qed

definition overlay_ranked :: "nat \<Rightarrow> (bytes, peer_account) hash_map \<Rightarrow> (bytes \<times> peer_account) list" where
  "overlay_ranked now peers = filter (\<lambda>(pk, a). acct_reach a = Overlay) (ranked_peers now peers)"

definition reserved_set :: "nat \<Rightarrow> (bytes, peer_account) hash_map \<Rightarrow> bytes set" where
  "reserved_set now peers = fst ` set (take OVERLAY_RESERVED_SLOTS (overlay_ranked now peers))"

definition general_list :: "nat \<Rightarrow> (bytes, peer_account) hash_map \<Rightarrow> (bytes \<times> peer_account) list" where
  "general_list now peers = filter (\<lambda>e. fst e \<notin> reserved_set now peers) (ranked_peers now peers)"

lemma unchoke_set_eq:
  assumes "hm_inv peers"
  shows "unchoke_set epoch now peers =
    reserved_set now peers \<union>
    fst ` set (take (UNCHOKE_SLOTS - OVERLAY_RESERVED_SLOTS) (general_list now peers)) \<union>
    (if connected_peers peers = [] then {}
     else {connected_peers peers ! (epoch mod length (connected_peers peers))})"
proof -
  have r: "fill_reserved OVERLAY_RESERVED_SLOTS {} (map fst (filter (\<lambda>(pk, a). acct_reach a = Overlay) (ranked_peers now peers))) =
      reserved_set now peers"
    by (simp add: fill_reserved_take reserved_set_def overlay_ranked_def take_map)
  have g: "fill_general (UNCHOKE_SLOTS - OVERLAY_RESERVED_SLOTS) (reserved_set now peers) (map fst (ranked_peers now peers)) =
      reserved_set now peers \<union> fst ` set (take (UNCHOKE_SLOTS - OVERLAY_RESERVED_SLOTS) (general_list now peers))"
    by (simp add: fill_general_take [OF ranked_strict(1) [OF assms]] general_list_def filter_map comp_def take_map)
  show ?thesis unfolding unchoke_set_def Let_def r g by auto
qed

lemma connected_peers_mem:
  "hm_inv peers \<Longrightarrow> pk \<in> set (connected_peers peers) \<longleftrightarrow> (\<exists>a. map_of peers pk = Some a \<and> 0 < conns a)"
  by (force simp: connected_peers_def hm_entry_iff)

lemma take_image_card: "card (f ` set (take n xs)) \<le> n"
  by (metis (no_types, lifting) card_length image_set length_map length_take min.bounded_iff)

text \<open>A ranked peer beyond the first \<open>m\<close> of a selection of the ranking is beaten by \<open>m\<close> of that selection.\<close>

lemma ranked_out:
  assumes inv: "hm_inv peers" and xs: "xs = filter Q (ranked_peers now peers)"
    and out: "(pk, a) \<in> set xs" "(pk, a) \<notin> set (take m xs)"
    and P: "\<And>e. Q e \<Longrightarrow> P (snd e)"
  shows "card (fst ` set (take m xs)) = m \<and>
    (\<forall>q \<in> fst ` set (take m xs). \<exists>b. map_of peers q = Some b \<and> is_ranked now b \<and> P b \<and> rank_less (q, b) (pk, a))"
proof -
  note strict = ranked_strict [OF inv, of now]
  have "sorted_wrt rank_less xs" using strict(2) by (simp add: xs sorted_wrt_filter)
  note b = sorted_wrt_take_before [OF this out]
  have "distinct (map fst (take m xs))"
    using strict(1) by (simp add: xs distinct_map_filter take_map [symmetric])
  then have "card (fst ` set (take m xs)) = m" using b(1) distinct_card by fastforce
  moreover have "\<exists>c. map_of peers q = Some c \<and> is_ranked now c \<and> P c \<and> rank_less (q, c) (pk, a)"
    if q: "q \<in> fst ` set (take m xs)" for q
  proof -
    obtain e where e: "e \<in> set (take m xs)" "q = fst e" using q by blast
    then have "e \<in> set (ranked_peers now peers)" "Q e" by (auto simp: xs dest!: in_set_takeD)
    then have "map_of peers q = Some (snd e)" "is_ranked now (snd e)"
      using e(2) inv by (auto simp: ranked_set hm_entry_iff)
    then show ?thesis using P [OF \<open>Q e\<close>] b(2) [OF e(1)] e(2) by auto
  qed
  ultimately show ?thesis by blast
qed

lemma unchoke_set_card:
  assumes "hm_inv peers"
  shows "card (unchoke_set epoch now peers) \<le> UNCHOKE_SLOTS + 1"
proof -
  let ?G = "fst ` set (take (UNCHOKE_SLOTS - OVERLAY_RESERVED_SLOTS) (general_list now peers))"
  let ?opt = "if connected_peers peers = [] then {} else {connected_peers peers ! (epoch mod length (connected_peers peers))}"
  have "card (unchoke_set epoch now peers) \<le> card (reserved_set now peers) + card ?G + card ?opt"
    unfolding unchoke_set_eq [OF assms] by (meson add_mono card_Un_le le_refl le_trans)
  also have "\<dots> \<le> OVERLAY_RESERVED_SLOTS + (UNCHOKE_SLOTS - OVERLAY_RESERVED_SLOTS) + 1"
    using take_image_card [of fst OVERLAY_RESERVED_SLOTS "overlay_ranked now peers"] take_image_card [of fst]
    by (intro add_mono) (auto simp: reserved_set_def)
  finally show ?thesis by (simp add: UNCHOKE_SLOTS_def OVERLAY_RESERVED_SLOTS_def)
qed

lemma unchoke_set_connected:
  assumes inv: "hm_inv peers" and pk: "pk \<in> unchoke_set epoch now peers"
  shows "\<exists>a. map_of peers pk = Some a \<and> 0 < conns a"
proof -
  have "(\<exists>b. (pk, b) \<in> set (ranked_peers now peers)) \<or> pk \<in> set (connected_peers peers)"
    using pk unfolding unchoke_set_eq [OF inv]
    by (auto simp: reserved_set_def overlay_ranked_def general_list_def dest!: in_set_takeD split: if_splits)
  then show ?thesis
    using inv connected_peers_mem [OF inv] by (auto simp: ranked_set hm_entry_iff is_ranked_def)
qed

text \<open>
  C39. Who is unchoked, at any time and for any account table: never more than 16 ranked peers and one
  optimistic one, all of them connected; a connected, active peer is left out only when the 12
  general slots went to peers that rank strictly before it (more contribution to us, then less served
  by us), and an overlay peer only when in addition 4 better overlay peers hold the reserved slots, so
  with few competitors nobody is choked and overlay peers are never crowded out; and the optimistic
  slot reaches every connected peer in its turn of the rotation.
\<close>

theorem unchoke_set_fair:
  assumes inv: "hm_inv peers"
  shows "card (unchoke_set epoch now peers) \<le> UNCHOKE_SLOTS + 1 \<and>
    (\<forall>pk \<in> unchoke_set epoch now peers. \<exists>a. map_of peers pk = Some a \<and> 0 < conns a) \<and>
    (\<forall>pk a. map_of peers pk = Some a \<and> is_ranked now a \<and> pk \<notin> unchoke_set epoch now peers \<longrightarrow>
       (\<exists>B \<subseteq> unchoke_set epoch now peers. card B = UNCHOKE_SLOTS - OVERLAY_RESERVED_SLOTS \<and>
          (\<forall>q \<in> B. \<exists>b. map_of peers q = Some b \<and> is_ranked now b \<and> rank_less (q, b) (pk, a))) \<and>
       (acct_reach a = Overlay \<longrightarrow>
          (\<exists>B \<subseteq> unchoke_set epoch now peers. card B = OVERLAY_RESERVED_SLOTS \<and>
             (\<forall>q \<in> B. \<exists>b. map_of peers q = Some b \<and> is_ranked now b \<and> acct_reach b = Overlay \<and>
                rank_less (q, b) (pk, a))))) \<and>
    (\<forall>pk a. map_of peers pk = Some a \<and> 0 < conns a \<longrightarrow>
       (\<exists>i < length (connected_peers peers). \<forall>e. e mod length (connected_peers peers) = i \<longrightarrow>
          pk \<in> unchoke_set e now peers))"
proof -
  let ?R = "ranked_peers now peers" and ?O = "overlay_ranked now peers" and ?G = "general_list now peers"
  let ?n = "UNCHOKE_SLOTS - OVERLAY_RESERVED_SLOTS"
  let ?U = "unchoke_set epoch now peers" and ?C = "connected_peers peers"
  note U = unchoke_set_eq [OF inv, of epoch now]
  have main: "(\<exists>B \<subseteq> ?U. card B = ?n \<and> (\<forall>q \<in> B. \<exists>b. map_of peers q = Some b \<and> is_ranked now b \<and> rank_less (q, b) (pk, a))) \<and>
       (acct_reach a = Overlay \<longrightarrow>
          (\<exists>B \<subseteq> ?U. card B = OVERLAY_RESERVED_SLOTS \<and>
             (\<forall>q \<in> B. \<exists>b. map_of peers q = Some b \<and> is_ranked now b \<and> acct_reach b = Overlay \<and> rank_less (q, b) (pk, a))))"
    if pk: "map_of peers pk = Some a" "is_ranked now a" "pk \<notin> ?U" for pk a
  proof -
    have R: "(pk, a) \<in> set ?R" using pk inv by (auto simp: ranked_set hm_entry_iff)
    have notin: "pk \<notin> reserved_set now peers" "pk \<notin> fst ` set (take ?n ?G)" using pk(3) unfolding U by auto
    have "(pk, a) \<in> set ?G" using R notin(1) by (simp add: general_list_def)
    moreover have "(pk, a) \<notin> set (take ?n ?G)" using notin(2) by force
    moreover have "fst ` set (take ?n ?G) \<subseteq> ?U" unfolding U by blast
    ultimately have "\<exists>B \<subseteq> ?U. card B = ?n \<and>
        (\<forall>q \<in> B. \<exists>b. map_of peers q = Some b \<and> is_ranked now b \<and> True \<and> rank_less (q, b) (pk, a))"
      using ranked_out [OF inv general_list_def, of pk a now ?n "\<lambda>_. True"] by blast
    moreover have "\<exists>B \<subseteq> ?U. card B = OVERLAY_RESERVED_SLOTS \<and>
        (\<forall>q \<in> B. \<exists>b. map_of peers q = Some b \<and> is_ranked now b \<and> acct_reach b = Overlay \<and> rank_less (q, b) (pk, a))"
      if ov: "acct_reach a = Overlay"
    proof -
      have 1: "(pk, a) \<in> set ?O" using R ov by (simp add: overlay_ranked_def)
      have 2: "(pk, a) \<notin> set (take OVERLAY_RESERVED_SLOTS ?O)" using notin(1) by (force simp: reserved_set_def)
      have 3: "fst ` set (take OVERLAY_RESERVED_SLOTS ?O) \<subseteq> ?U" unfolding U reserved_set_def by blast
      have 4: "acct_reach (snd e) = Overlay" if "(\<lambda>(pk, a). acct_reach a = Overlay) e" for e :: "bytes \<times> peer_account"
        using that by (simp add: case_prod_unfold)
      from ranked_out [OF inv overlay_ranked_def 1 2, of "\<lambda>a. acct_reach a = Overlay"] 4 3 show ?thesis by blast
    qed
    ultimately show ?thesis by simp
  qed
  have rotation: "\<exists>i < length ?C. \<forall>e. e mod length ?C = i \<longrightarrow> pk \<in> unchoke_set e now peers"
    if "map_of peers pk = Some a" "0 < conns a" for pk a
  proof -
    have "pk \<in> set ?C" using that connected_peers_mem [OF inv] by blast
    then obtain i where "i < length ?C" "?C ! i = pk" by (metis in_set_conv_nth)
    then show ?thesis by (intro exI [of _ i]) (auto simp: unchoke_set_eq [OF inv])
  qed
  show ?thesis
    by (intro conjI [OF unchoke_set_card [OF inv]] conjI [OF ballI [OF unchoke_set_connected [OF inv]]]
        conjI allI impI main [THEN conjunct1] main [THEN conjunct2, THEN mp] rotation) auto
qed

definition ex_accounts :: "(bytes, peer_account) hash_map" where
  "ex_accounts = [([1], default_account\<lparr>conns := 1, last_activity := Some 100\<rparr>),
                  ([2], default_account\<lparr>conns := 1, acct_reach := Overlay\<rparr>)]"

theorem unchoke_set_fair_witness:
  "hm_inv ex_accounts \<and> card (unchoke_set 3 110 ex_accounts) \<le> 17"
  using unchoke_set_fair [of ex_accounts 3 110] by (simp add: ex_accounts_def hm_inv_def UNCHOKE_SLOTS_def)

section \<open>Operations as steps\<close>

datatype choke_op =
    NotePeer bytes reach nat
  | NoteConnected bytes reach nat
  | NoteDisconnected bytes nat
  | CreditPeer bytes nat nat
  | SetPaused bool
  | Decide bytes nat bool bool nat

fun choke_step :: "choke_op \<Rightarrow> choker \<Rightarrow> serve_decision option \<times> choker" where
  "choke_step (NotePeer pk r now) ck = (None, note_peer pk r now ck)"
| "choke_step (NoteConnected pk r now) ck = (None, note_connected pk r now ck)"
| "choke_step (NoteDisconnected pk now) ck = (None, note_disconnected pk now ck)"
| "choke_step (CreditPeer pk n now) ck = (None, credit_peer pk n now ck)"
| "choke_step (SetPaused p) ck = (None, set_paused p ck)"
| "choke_step (Decide pk n fp fg now) ck = (case decide pk n fp fg now ck of (d, ck') \<Rightarrow> (Some d, ck'))"

section \<open>The account table\<close>

lemma evict_loop_spec:
  assumes "hm_inv peers"
  shows "set (evict_loop peers) \<subseteq> set peers \<and> hm_inv (evict_loop peers) \<and>
    (\<forall>e \<in> set peers. 0 < conns (snd e) \<longrightarrow> e \<in> set (evict_loop peers)) \<and>
    (length (evict_loop peers) < MAX_TRACKED_PEERS \<or> (\<forall>e \<in> set (evict_loop peers). 0 < conns (snd e))) \<and>
    (\<forall>e \<in> set peers - set (evict_loop peers). \<forall>f \<in> set (evict_loop peers).
       conns (snd f) = 0 \<longrightarrow> evict_key (snd e) \<le> evict_key (snd f))"
  using assms
proof (induction peers rule: evict_loop.induct)
  case (1 peers)
  consider "length peers < MAX_TRACKED_PEERS" | "MAX_TRACKED_PEERS \<le> length peers" "worst_account peers = None" |
    w where "MAX_TRACKED_PEERS \<le> length peers" "worst_account peers = Some w"
    by (meson not_le option.exhaust)
  then show ?case
  proof cases
    case 1
    then show ?thesis using "1.prems" by (simp add: evict_loop.simps [of peers])
  next
    case 2
    then have "filter (\<lambda>(pk, a). conns a = 0) peers = []" by (simp add: worst_account_def min_by_first_None)
    then have "\<forall>e \<in> set peers. 0 < conns (snd e)" by (auto simp: filter_empty_conv)
    then show ?thesis using 2 "1.prems" by (simp add: evict_loop.simps [of peers])
  next
    case (3 w)
    let ?p = "hm_remove w peers"
    obtain a where a: "(w, a) \<in> set peers" "conns a = 0"
      "\<And>pk' a'. (pk', a') \<in> set peers \<Longrightarrow> conns a' = 0 \<Longrightarrow> evict_key a \<le> evict_key a'"
      using worst_account_Some [OF 3(2)] by blast
    have eq: "evict_loop peers = evict_loop ?p" using 3 by (simp add: evict_loop.simps [of peers])
    have inv_p: "hm_inv ?p" using "1.prems" by (simp add: hm_remove_def)
    note IH = "1.IH" [OF 3 inv_p]
    have set_p: "set ?p = {e \<in> set peers. fst e \<noteq> w}" by (auto simp: hm_remove_def)
    have uniq: "snd e = a" if "e \<in> set peers" "fst e = w" for e
      using that a(1) "1.prems" by (metis hm_entry_iff option.inject prod.collapse)
    have "evict_key (snd e) \<le> evict_key (snd f)"
      if e: "e \<in> set peers" "e \<notin> set (evict_loop ?p)" and f: "f \<in> set (evict_loop ?p)" "conns (snd f) = 0" for e f
    proof (cases "fst e = w")
      case True
      moreover have "f \<in> set peers" using IH f(1) set_p by blast
      ultimately show ?thesis using a(3) [of "fst f" "snd f"] f(2) uniq [OF e(1)] by simp
    next
      case False
      then show ?thesis using IH e f set_p by blast
    qed
    moreover have "e \<in> set (evict_loop ?p)" if e: "e \<in> set peers" "0 < conns (snd e)" for e
    proof -
      have "fst e \<noteq> w" using uniq [of e] e a(2) by auto
      then have "e \<in> set ?p" using set_p e(1) by blast
      then show ?thesis using IH e(2) by blast
    qed
    moreover have "set (evict_loop ?p) \<subseteq> set peers" using IH set_p by blast
    ultimately show ?thesis unfolding eq using IH by blast
  qed
qed

definition connected_count :: "choker \<Rightarrow> nat" where
  "connected_count ck = length (filter (\<lambda>(pk, a). 0 < conns a) (ck_peers ck))"

definition table_ok :: "choker \<Rightarrow> bool" where
  "table_ok ck \<longleftrightarrow> hm_inv (ck_peers ck) \<and> length (ck_peers ck) \<le> MAX_TRACKED_PEERS"

lemma evict_spec:
  assumes "hm_inv (ck_peers ck)"
  shows "hm_inv (ck_peers (evict now ck)) \<and> set (ck_peers (evict now ck)) \<subseteq> set (ck_peers ck) \<and>
    (\<forall>e \<in> set (ck_peers ck). 0 < conns (snd e) \<longrightarrow> e \<in> set (ck_peers (evict now ck))) \<and>
    (length (ck_peers (evict now ck)) < MAX_TRACKED_PEERS \<or> (\<forall>e \<in> set (ck_peers (evict now ck)). 0 < conns (snd e)))"
proof -
  let ?f = "filter (\<lambda>(pk, a). conns a > 0 \<or> now - last_seen a < PEER_IDLE_EVICT_SECS) (ck_peers ck)"
  have "hm_inv ?f" using assms by simp
  from evict_loop_spec [OF this] show ?thesis by (auto simp: evict_def)
qed

lemma connected_count_le:
  assumes "hm_inv (ck_peers ck)" "hm_inv (ck_peers ck')" "set (ck_peers ck') \<subseteq> set (ck_peers ck)"
    "\<forall>e \<in> set (ck_peers ck'). 0 < conns (snd e)"
  shows "length (ck_peers ck') \<le> connected_count ck"
proof -
  have d: "distinct (ck_peers ck)" "distinct (ck_peers ck')" using assms(1,2) by (auto simp: hm_inv_def distinct_map)
  have "length (ck_peers ck') = card (set (ck_peers ck'))" using d(2) by (simp add: distinct_card)
  also have "\<dots> \<le> card (set (filter (\<lambda>(pk, a). 0 < conns a) (ck_peers ck)))"
    using assms(3,4) by (intro card_mono) auto
  also have "\<dots> \<le> connected_count ck" unfolding connected_count_def by (rule card_length)
  finally show ?thesis .
qed

text \<open>What \<open>touch\<close> guarantees: a bounded table that holds the account and every connected one.\<close>

lemma touch_spec:
  assumes ok: "table_ok ck" and room: "connected_count ck < MAX_TRACKED_PEERS"
  shows "table_ok (touch pk now ck) \<and> hm_contains pk (ck_peers (touch pk now ck)) \<and>
    (\<forall>q a. q \<noteq> pk \<longrightarrow> map_of (ck_peers ck) q = Some a \<longrightarrow> 0 < conns a \<longrightarrow> map_of (ck_peers (touch pk now ck)) q = Some a) \<and>
    conns (account (touch pk now ck) pk) = conns (account ck pk)"
proof (cases "hm_contains pk (ck_peers ck)")
  case True
  then obtain a where a: "map_of (ck_peers ck) pk = Some a" by (auto simp: hm_contains_def)
  have "length (hm_insert pk b (ck_peers ck)) = length (ck_peers ck)" for b using True by (simp add: length_hm_insert)
  then show ?thesis
    using True ok a by (auto simp: touch_def touch_account_def table_ok_def account_def hm_contains_def)
next
  case False
  define ck1 where "ck1 = (if MAX_TRACKED_PEERS \<le> length (ck_peers ck) then evict now ck else ck)"
  have inv: "hm_inv (ck_peers ck)" using ok by (simp add: table_ok_def)
  note ev = evict_spec [OF inv, of now]
  have ck1: "hm_inv (ck_peers ck1)" "set (ck_peers ck1) \<subseteq> set (ck_peers ck)"
    "\<forall>e \<in> set (ck_peers ck). 0 < conns (snd e) \<longrightarrow> e \<in> set (ck_peers ck1)"
    using inv ev by (auto simp: ck1_def)
  have len: "length (ck_peers ck1) < MAX_TRACKED_PEERS"
    using ev connected_count_le [OF inv, of "evict now ck"] room by (auto simp: ck1_def)
  have new: "map_of (ck_peers ck1) pk = None"
    using False ck1(2) by (auto simp: hm_contains_iff map_of_eq_None_iff)
  have t: "ck_peers (touch pk now ck) = hm_insert pk (touch_account now None) (ck_peers ck1)"
    using False new by (simp add: touch_def ck1_def Let_def)
  have "map_of (ck_peers ck1) q = Some a" if "map_of (ck_peers ck) q = Some a" "0 < conns a" for q a
    using that ck1(1,3) inv by (force simp: hm_entry_iff)
  then show ?thesis
    using ck1(1) len new False unfolding table_ok_def account_def t
    by (auto simp: length_hm_insert hm_contains_def touch_account_def default_account_def split: if_splits)
qed

text \<open>The frame of an operation on one peer's account that leaves its connection count alone.\<close>

definition keeps :: "bytes \<Rightarrow> choker \<Rightarrow> choker \<Rightarrow> bool" where
  "keeps pk ck ck' \<longleftrightarrow> table_ok ck' \<and> hm_contains pk (ck_peers ck') \<and>
     (\<forall>q a. q \<noteq> pk \<longrightarrow> map_of (ck_peers ck) q = Some a \<longrightarrow> 0 < conns a \<longrightarrow> map_of (ck_peers ck') q = Some a) \<and>
     conns (account ck' pk) = conns (account ck pk)"

lemma keeps_trans: "keeps pk a b \<Longrightarrow> keeps pk b c \<Longrightarrow> keeps pk a c"
  by (simp add: keeps_def)

lemma keeps_touch: "table_ok ck \<Longrightarrow> connected_count ck < MAX_TRACKED_PEERS \<Longrightarrow> keeps pk ck (touch pk now ck)"
  unfolding keeps_def by (rule touch_spec)

lemma keeps_touch_again: "table_ok ck \<Longrightarrow> hm_contains pk (ck_peers ck) \<Longrightarrow> keeps pk ck (touch pk now ck)"
  by (auto simp: keeps_def touch_def touch_account_def table_ok_def account_def hm_contains_def length_hm_insert)

lemma keeps_set_account:
  "table_ok ck \<Longrightarrow> hm_contains pk (ck_peers ck) \<Longrightarrow> conns a = conns (account ck pk) \<Longrightarrow> keeps pk ck (set_account pk a ck)"
  by (auto simp: keeps_def set_account_def table_ok_def account_def hm_contains_def length_hm_insert)

lemma keeps_same_peers: "table_ok ck \<Longrightarrow> hm_contains pk (ck_peers ck) \<Longrightarrow> ck_peers ck' = ck_peers ck \<Longrightarrow> keeps pk ck ck'"
  by (simp add: keeps_def table_ok_def account_def)

lemma keepsD: "keeps pk ck ck' \<Longrightarrow> table_ok ck' \<and> hm_contains pk (ck_peers ck')"
  by (simp add: keeps_def)

lemma keeps_stamp:
  assumes "table_ok ck" "connected_count ck < MAX_TRACKED_PEERS"
  shows "keeps pk ck (stamp_activity pk now ck)"
proof -
  note t = keeps_touch [OF assms, of pk now]
  let ?a = "account (touch pk now ck) pk"
  have s: "keeps pk (touch pk now ck) (set_account pk (?a\<lparr>last_activity := Some now\<rparr>) (touch pk now ck))"
    using keepsD [OF t] by (intro keeps_set_account) auto
  have "keeps pk ck (set_account pk (?a\<lparr>last_activity := Some now\<rparr>) (touch pk now ck))"
    by (rule keeps_trans [OF t s])
  moreover have "keeps pk ck (c\<lparr>dirty := True\<rparr>)" if "keeps pk ck c" for c
    using that by (simp add: keeps_def table_ok_def account_def)
  ultimately show ?thesis by (simp add: stamp_activity_def Let_def)
qed

lemma is_unchoked_peers: "ck_peers (snd (is_unchoked pk now ck)) = ck_peers ck"
  by (simp add: is_unchoked_def rebuild_unchoked_def Let_def)

lemma keeps_decide_choke:
  assumes "table_ok ck" "hm_contains pk (ck_peers ck)"
  shows "keeps pk ck (snd (decide_choke pk n fp now ck))"
proof -
  obtain ok ck1 where u: "is_unchoked pk now ck = (ok, ck1)" by (cases "is_unchoked pk now ck")
  then have peers: "ck_peers ck1 = ck_peers ck" using is_unchoked_peers [of pk now ck] by simp
  let ?ck2 = "if fp then ck1\<lparr>second_bytes := u64_add (second_bytes ck1) n\<rparr> else ck1"
  have k2: "keeps pk ck ?ck2" using keeps_same_peers [OF assms, of ?ck2] peers by simp
  obtain a where a: "map_of (ck_peers ?ck2) pk = Some a" using assms(2) peers by (auto simp: hm_contains_def)
  then have "keeps pk ?ck2 (set_account pk (a\<lparr>served_by_us := u64_add (served_by_us a) n, last_seen := now\<rparr>) ?ck2)"
    using keepsD [OF k2] by (intro keeps_set_account) (auto simp: account_def)
  from keeps_trans [OF k2 this] show ?thesis
    using keeps_same_peers [OF assms peers] a u by (simp add: decide_choke_def Let_def)
qed

lemma keeps_decide:
  assumes "table_ok ck" "connected_count ck < MAX_TRACKED_PEERS" "\<not> paused ck"
  shows "keeps pk ck (snd (decide pk n fp fg now ck))"
proof -
  let ?c = "roll_second now (stamp_activity pk now ck)"
  note st = keeps_stamp [OF assms(1,2), of pk now]
  have c: "keeps pk ck ?c"
    using keeps_trans [OF st keeps_same_peers] keepsD [OF st] by (simp add: roll_second_def)
  note okc = keepsD [OF c]
  let ?t = "touch pk now ?c" and ?a = "free_account now (account (touch pk now ?c) pk)"
  have t: "keeps pk ck ?t" using keeps_trans [OF c keeps_touch_again] okc by blast
  have a: "conns ?a = conns (account ?t pk)" by (simp add: free_account_def)
  have s: "keeps pk ck (set_account pk b ?t)" if "conns b = conns ?a" for b
    using keeps_trans [OF t keeps_set_account] keepsD [OF t] that a by simp
  have s2: "keeps pk ck (x\<lparr>second_bytes := m\<rparr>)" if "keeps pk ck x" for x m
    using that by (simp add: keeps_def table_ok_def account_def)
  have d1: "keeps pk ck (snd (decide_choke pk n True now (set_account pk ?a ?t)))"
    using keeps_trans [OF s keeps_decide_choke] keepsD [OF s] by simp
  have d2: "keeps pk ck (snd (decide_choke pk n False now ?c))"
    using keeps_trans [OF c keeps_decide_choke] okc by simp
  show ?thesis using assms(3) c s s2 d1 d2 by (simp add: decide_def Let_def)
qed

lemma conns_update:
  assumes "table_ok ck" "hm_contains pk (ck_peers ck)"
  shows "table_ok ((set_account pk a ck)\<lparr>dirty := True\<rparr>) \<and>
    map_of (ck_peers ((set_account pk a ck)\<lparr>dirty := True\<rparr>)) = (map_of (ck_peers ck))(pk \<mapsto> a)"
  using assms by (auto simp: set_account_def table_ok_def length_hm_insert)

lemma keeps_lookup:
  assumes "keeps pk ck ck'" "map_of (ck_peers ck) q = Some a" "0 < conns a"
  shows "\<exists>a'. map_of (ck_peers ck') q = Some a' \<and> conns a' = conns a"
proof (cases "q = pk")
  case True
  obtain b where b: "map_of (ck_peers ck') pk = Some b" using assms(1) by (auto simp: keeps_def hm_contains_def)
  then have "conns b = conns a" using assms True by (auto simp: keeps_def account_def)
  with b True show ?thesis by blast
next
  case False
  then show ?thesis using assms by (auto simp: keeps_def)
qed

text \<open>
  The account table under a handshake flood: whatever operation arrives, keys stay unique and the
  table never exceeds 4096 accounts (live connections being fewer than that), and the account of a
  connected peer is never evicted: it is still there afterwards, with its connection count changed
  only by that peer's own connect or disconnect.
\<close>

theorem choker_table_bounded:
  assumes ok: "table_ok ck" and room: "connected_count ck < MAX_TRACKED_PEERS"
    and conn: "map_of (ck_peers ck) q = Some a" "0 < conns a"
  shows "table_ok (snd (choke_step op ck)) \<and>
    (\<exists>a'. map_of (ck_peers (snd (choke_step op ck))) q = Some a' \<and>
       ((\<forall>r now. op \<noteq> NoteConnected q r now) \<and> (\<forall>now. op \<noteq> NoteDisconnected q now) \<longrightarrow> conns a' = conns a))"
proof -
  have upd: "table_ok ((set_account pk b (touch pk now ck))\<lparr>dirty := True\<rparr>) \<and>
      (\<exists>a'. map_of (ck_peers ((set_account pk b (touch pk now ck))\<lparr>dirty := True\<rparr>)) q = Some a' \<and>
        (q \<noteq> pk \<or> conns b = conns (account (touch pk now ck) pk) \<longrightarrow> conns a' = conns a))" for pk b now
  proof -
    note t = keeps_touch [OF ok room, of pk now]
    note u = conns_update [OF conjunct1 [OF keepsD [OF t]] conjunct2 [OF keepsD [OF t]], of b]
    obtain a' where "map_of (ck_peers (touch pk now ck)) q = Some a'" "conns a' = conns a"
      using keeps_lookup [OF t conn] by blast
    with u show ?thesis by (cases "q = pk") (auto simp: account_def)
  qed
  show ?thesis
  proof (cases op)
    case (Decide pk n fp fg now)
    have "table_ok (snd (decide pk n fp fg now ck)) \<and>
        (\<exists>a'. map_of (ck_peers (snd (decide pk n fp fg now ck))) q = Some a' \<and> conns a' = conns a)"
    proof (cases "paused ck")
      case True
      then show ?thesis using ok conn by (simp add: decide_def)
    next
      case False
      then show ?thesis using keeps_decide [OF ok room] keepsD keeps_lookup [OF _ conn] by blast
    qed
    then show ?thesis using Decide by (auto simp: case_prod_unfold)
  next
    case (SetPaused p)
    then show ?thesis using ok conn by (simp add: set_paused_def table_ok_def)
  next
    case (NotePeer pk r now)
    then show ?thesis using upd [of pk "(account (touch pk now ck) pk)\<lparr>acct_reach := r\<rparr>" now]
      by (auto simp: note_peer_def Let_def)
  next
    case (NoteConnected pk r now)
    then show ?thesis using upd [of pk "(account (touch pk now ck) pk)\<lparr>acct_reach := r, conns := min (conns (account (touch pk now ck) pk) + 1) U32_MAX\<rparr>" now]
      by (auto simp: note_connected_def Let_def)
  next
    case (NoteDisconnected pk now)
    then show ?thesis using upd [of pk "(account (touch pk now ck) pk)\<lparr>conns := conns (account (touch pk now ck) pk) - 1\<rparr>" now]
      by (auto simp: note_disconnected_def Let_def)
  next
    case (CreditPeer pk n now)
    then show ?thesis using upd [of pk "(account (touch pk now ck) pk)\<lparr>served_to_us := u64_add (served_to_us (account (touch pk now ck) pk)) n, last_activity := Some now\<rparr>" now]
      by (auto simp: credit_peer_def Let_def)
  qed
qed

definition ex_choker :: choker where
  "ex_choker = (choker_new 1000)\<lparr>ck_peers := ex_accounts\<rparr>"

theorem choker_table_bounded_witness:
  "table_ok (snd (choke_step (NotePeer [9] Overlay 200) ex_choker))"
  using choker_table_bounded [of ex_choker "[1]" "default_account\<lparr>conns := 1, last_activity := Some 100\<rparr>" "NotePeer [9] Overlay 200"]
  by (simp add: ex_choker_def choker_new_def table_ok_def connected_count_def ex_accounts_def hm_inv_def
      MAX_TRACKED_PEERS_def default_account_def)

section \<open>The global budget\<close>

lemma touch_fields [simp]:
  "second_bytes (touch pk now ck) = second_bytes ck" "second_ts (touch pk now ck) = second_ts ck"
  "global_cap_bps (touch pk now ck) = global_cap_bps ck"
  "foreground_yield_num (touch pk now ck) = foreground_yield_num ck" "paused (touch pk now ck) = paused ck"
  by (simp_all add: touch_def evict_def Let_def)

lemma set_account_fields [simp]:
  "second_bytes (set_account pk a ck) = second_bytes ck" "second_ts (set_account pk a ck) = second_ts ck"
  "global_cap_bps (set_account pk a ck) = global_cap_bps ck"
  "foreground_yield_num (set_account pk a ck) = foreground_yield_num ck" "paused (set_account pk a ck) = paused ck"
  by (simp_all add: set_account_def)

lemma stamp_fields [simp]:
  "second_bytes (stamp_activity pk now ck) = second_bytes ck" "second_ts (stamp_activity pk now ck) = second_ts ck"
  "global_cap_bps (stamp_activity pk now ck) = global_cap_bps ck"
  "foreground_yield_num (stamp_activity pk now ck) = foreground_yield_num ck"
  by (simp_all add: stamp_activity_def Let_def)

lemma is_unchoked_fields [simp]:
  "second_bytes (snd (is_unchoked pk now ck)) = second_bytes ck" "second_ts (snd (is_unchoked pk now ck)) = second_ts ck"
  "global_cap_bps (snd (is_unchoked pk now ck)) = global_cap_bps ck"
  "foreground_yield_num (snd (is_unchoked pk now ck)) = foreground_yield_num ck"
  by (simp_all add: is_unchoked_def rebuild_unchoked_def Let_def)

text \<open>The bytes the bucket holds for second \<open>t\<close>, and the bytes a step grants on the priority lane.\<close>

definition bucket :: "nat \<Rightarrow> choker \<Rightarrow> nat" where
  "bucket t ck = (if second_ts ck = t then second_bytes ck else 0)"

fun granted :: "choke_op \<Rightarrow> serve_decision option \<Rightarrow> nat" where
  "granted (Decide pk n True fg now) (Some FirstPaint) = n"
| "granted (Decide pk n True fg now) (Some Serve) = n"
| "granted _ _ = 0"

fun priority_bytes :: "choke_op list \<Rightarrow> choker \<Rightarrow> nat" where
  "priority_bytes [] ck = 0"
| "priority_bytes (op # ops) ck =
     (case choke_step op ck of (d, ck') \<Rightarrow> granted op d + priority_bytes ops ck')"

definition same_config :: "choker \<Rightarrow> choker \<Rightarrow> bool" where
  "same_config ck ck' \<longleftrightarrow>
     global_cap_bps ck' = global_cap_bps ck \<and> foreground_yield_num ck' = foreground_yield_num ck"

lemma decide_choke_bucket:
  assumes "decide_choke pk n fp now ck = (d, ck')"
  shows "second_ts ck' = second_ts ck \<and> same_config ck ck' \<and>
    second_bytes ck' = (if fp \<and> d = Serve then u64_add (second_bytes ck) n else second_bytes ck) \<and> d \<in> {Choked, Serve}"
  using assms by (auto simp: decide_choke_def same_config_def Let_def case_prod_unfold split: if_splits option.splits)

lemma decide_bucket:
  assumes dec: "decide pk n fp fg t ck = (d, ck')"
    and fits: "bucket t ck \<le> 2 ^ 63" "n < 2 ^ 63"
  shows "same_config ck ck' \<and>
    bucket t ck' = bucket t ck + granted (Decide pk n fp fg t) (Some d) \<and>
    (granted (Decide pk n fp fg t) (Some d) > 0 \<longrightarrow> bucket t ck' \<le> effective_cap fg ck)"
proof (cases "paused ck")
  case True
  then show ?thesis using dec by (auto simp: decide_def same_config_def)
next
  case False
  let ?c = "roll_second t (stamp_activity pk t ck)"
  have c: "second_bytes ?c = bucket t ck" "second_ts ?c = t" "same_config ck ?c" "effective_cap fg ?c = effective_cap fg ck"
    by (auto simp: roll_second_def bucket_def same_config_def effective_cap_def)
  have add: "u64_add (bucket t ck) n = bucket t ck + n" using fits by (simp add: u64_add_def)
  consider (bulk) "\<not> fp" "decide_choke pk n False t ?c = (d, ck')"
    | (thr) "fp" "d = Throttled" "ck' = ?c"
    | (paint) a where "fp" "d = FirstPaint" "bucket t ck + n \<le> effective_cap fg ck"
        "ck' = (set_account pk a (touch pk t ?c))\<lparr>second_bytes := bucket t ck + n\<rparr>"
    | (over) a where "fp" "bucket t ck + n \<le> effective_cap fg ck"
        "decide_choke pk n True t (set_account pk a (touch pk t ?c)) = (d, ck')"
    using dec False c add by (auto simp: decide_def Let_def not_less split: if_splits)
  then show ?thesis
  proof cases
    case bulk
    from decide_choke_bucket [OF bulk(2)] c bulk(1) show ?thesis by (cases d) (auto simp: bucket_def same_config_def)
  next
    case thr
    then show ?thesis using c by (auto simp: bucket_def)
  next
    case paint
    then show ?thesis using c by (auto simp: bucket_def same_config_def)
  next
    case over
    from decide_choke_bucket [OF over(3)] c over(1,2) add show ?thesis
      by (cases d) (auto simp: bucket_def same_config_def)
  qed
qed

lemma other_step_bucket:
  assumes "\<And>pk n fp fg now. op \<noteq> Decide pk n fp fg now"
  shows "bucket t (snd (choke_step op ck)) = bucket t ck \<and> same_config ck (snd (choke_step op ck)) \<and>
    granted op (fst (choke_step op ck)) = 0"
proof (cases op)
  case (Decide pk n fp fg now)
  then show ?thesis using assms by blast
qed (auto simp: bucket_def same_config_def set_paused_def note_peer_def
      note_connected_def note_disconnected_def credit_peer_def Let_def)

lemma same_config_cap: "same_config ck ck' \<Longrightarrow> effective_cap fg ck' = effective_cap fg ck"
  by (simp add: same_config_def effective_cap_def)

lemma priority_bytes_bound:
  assumes "\<And>pk n fp fg now. Decide pk n fp fg now \<in> set ops \<Longrightarrow> now = t \<and> n < 2 ^ 63 \<and> effective_cap fg ck \<le> L"
    and "bucket t ck \<le> 2 ^ 63" "L \<le> 2 ^ 63"
  shows "bucket t ck + priority_bytes ops ck \<le> max (bucket t ck) L"
  using assms
proof (induction ops arbitrary: ck)
  case (Cons op ops)
  obtain d ck' where st: "choke_step op ck = (d, ck')" by (cases "choke_step op ck")
  have step: "same_config ck ck' \<and> bucket t ck' = bucket t ck + granted op d \<and>
      (granted op d > 0 \<longrightarrow> bucket t ck' \<le> L)"
  proof (cases "\<exists>pk n fp fg now. op = Decide pk n fp fg now")
    case True
    then obtain pk n fp fg now where op: "op = Decide pk n fp fg now" by blast
    then have "now = t" "n < 2 ^ 63" "effective_cap fg ck \<le> L" using Cons.prems(1) [of pk n fp fg now] by auto
    then show ?thesis
      using decide_bucket [of pk n fp fg t ck] st op Cons.prems(2) by (auto split: prod.splits)
  next
    case False
    then show ?thesis using other_step_bucket [of op t ck] st by auto
  qed
  have "bucket t ck' + priority_bytes ops ck' \<le> max (bucket t ck') L"
  proof (rule Cons.IH)
    show "now = t \<and> n < 2 ^ 63 \<and> effective_cap fg ck' \<le> L" if "Decide pk n fp fg now \<in> set ops" for pk n fp fg now
      using Cons.prems(1) [of pk n fp fg now] that step same_config_cap by auto
    show "bucket t ck' \<le> 2 ^ 63" using step Cons.prems(2,3) by (cases "granted op d") auto
  qed (rule Cons.prems(3))
  then show ?case using step st by (cases "granted op d") auto
qed simp

text \<open>
  Seeding stays invisible: in any second, whatever mixture of operations and requests from whatever
  peers arrives, the bytes granted on the unpaced priority lane never exceed the configured upload
  cap, and while the user's own traffic is in the foreground they never exceed a quarter of it.
\<close>

theorem choker_upload_cap:
  assumes "global_cap_bps ck \<le> 2 ^ 63" "foreground_yield_num ck = 64" "bucket t ck = 0"
    and "\<forall>op \<in> set ops. \<forall>pk n fp fg now. op = Decide pk n fp fg now \<longrightarrow> now = t \<and> n < 2 ^ 63"
  shows "priority_bytes ops ck \<le> global_cap_bps ck \<and>
    ((\<forall>op \<in> set ops. \<forall>pk n fp fg now. op = Decide pk n fp fg now \<longrightarrow> fg) \<longrightarrow>
       priority_bytes ops ck \<le> global_cap_bps ck div 4)"
proof -
  let ?cap = "global_cap_bps ck"
  have fg: "effective_cap True ck \<le> ?cap div 4"
  proof -
    have "min (?cap * 64) u64_max div 256 \<le> ?cap * 64 div 256" by (intro div_le_mono) simp
    also have "\<dots> = ?cap div 4" by simp
    finally show ?thesis using assms(2) by (simp add: effective_cap_def)
  qed
  have all: "effective_cap b ck \<le> ?cap" for b
    using fg by (cases b) (auto simp: effective_cap_def)
  have "bucket t ck + priority_bytes ops ck \<le> max (bucket t ck) ?cap"
    using assms(1,3,4) all by (intro priority_bytes_bound) auto
  moreover have "bucket t ck + priority_bytes ops ck \<le> max (bucket t ck) (?cap div 4)"
    if "\<forall>op \<in> set ops. \<forall>pk n fp fg now. op = Decide pk n fp fg now \<longrightarrow> fg"
    using assms(1,3,4) that fg by (intro priority_bytes_bound) auto
  ultimately show ?thesis using assms(3) by simp
qed

theorem choker_upload_cap_witness:
  "priority_bytes [NoteConnected [1] Clearnet 5, Decide [1] 300 True False 5, Decide [1] 800 True False 5] (choker_new 1000) \<le> 1000"
  using choker_upload_cap [of "choker_new 1000" 5
      "[NoteConnected [1] Clearnet 5, Decide [1] 300 True False 5, Decide [1] 800 True False 5]"]
  by (simp add: choker_new_def bucket_def)

end
