(* ===== verification/Json.thy ===== *)
theory Json
  imports Ordered_Map Rust_Std
begin

text \<open>
  JSON values as the sources hold them (\<open>serde_json::Value\<close>): objects are maps ordered by key, numbers
  are integers in the \<open>i64\<close>/\<open>u64\<close> range or floating-point texts.  The accessors are the documented
  ones: \<open>get\<close> on anything but an object, and an \<open>as_\<close> conversion of another kind of value, give \<open>None\<close>.
\<close>

datatype json =
    JNull
  | JBool bool
  | JInt int
  | JFloat string
  | JStr string
  | JArr "json list"
  | JObj "(string \<times> json) list"

fun j_get :: "json \<Rightarrow> string \<Rightarrow> json option" where
  "j_get (JObj m) k = map_of m k"
| "j_get _ k = None"

fun as_str :: "json \<Rightarrow> string option" where
  "as_str (JStr s) = Some s"
| "as_str _ = None"

fun j_as_u64 :: "json \<Rightarrow> nat option" where
  "j_as_u64 (JInt i) = (if 0 \<le> i \<and> i \<le> int u64_max then Some (nat i) else None)"
| "j_as_u64 _ = None"

fun j_as_i64 :: "json \<Rightarrow> int option" where
  "j_as_i64 (JInt i) = (if - (2 ^ 63) \<le> i \<and> i < 2 ^ 63 then Some i else None)"
| "j_as_i64 _ = None"

fun j_as_bool :: "json \<Rightarrow> bool option" where
  "j_as_bool (JBool b) = Some b"
| "j_as_bool _ = None"

fun as_array :: "json \<Rightarrow> json list option" where
  "as_array (JArr xs) = Some xs"
| "as_array _ = None"

fun as_object :: "json \<Rightarrow> (string \<times> json) list option" where
  "as_object (JObj m) = Some m"
| "as_object _ = None"

text \<open>The \<open>?\<close> chains of the sources.\<close>

abbreviation obind :: "'a option \<Rightarrow> ('a \<Rightarrow> 'b option) \<Rightarrow> 'b option" where
  "obind \<equiv> Option.bind"

definition get_str :: "json \<Rightarrow> string \<Rightarrow> string option" where
  "get_str v k = obind (j_get v k) as_str"

definition get_u64 :: "json \<Rightarrow> string \<Rightarrow> nat option" where
  "get_u64 v k = obind (j_get v k) j_as_u64"

definition get_i64 :: "json \<Rightarrow> string \<Rightarrow> int option" where
  "get_i64 v k = obind (j_get v k) j_as_i64"

definition get_bool :: "json \<Rightarrow> string \<Rightarrow> bool option" where
  "get_bool v k = obind (j_get v k) j_as_bool"

text \<open>\<open>unwrap_or(d)\<close>.\<close>

definition unwrap_or :: "'a option \<Rightarrow> 'a \<Rightarrow> 'a" where
  "unwrap_or x d = (case x of None \<Rightarrow> d | Some v \<Rightarrow> v)"

lemma unwrap_or_simps [simp]: "unwrap_or None d = d" "unwrap_or (Some v) d = v"
  by (simp_all add: unwrap_or_def)

text \<open>\<open>iter().filter_map(f).collect()\<close>.\<close>

fun filter_map :: "('a \<Rightarrow> 'b option) \<Rightarrow> 'a list \<Rightarrow> 'b list" where
  "filter_map f [] = []"
| "filter_map f (x # xs) = (case f x of None \<Rightarrow> filter_map f xs | Some y \<Rightarrow> y # filter_map f xs)"

lemma set_filter_map: "set (filter_map f xs) = {y. \<exists>x \<in> set xs. f x = Some y}"
  by (induction f xs rule: filter_map.induct) (auto split: option.splits)

lemma filter_map_append [simp]: "filter_map f (xs @ ys) = filter_map f xs @ filter_map f ys"
  by (induction f xs rule: filter_map.induct) (auto split: option.splits)

text \<open>Well-formed values: every object is an ordered map.\<close>

fun json_ok :: "json \<Rightarrow> bool" where
  "json_ok (JObj m) \<longleftrightarrow> sorted_wrt (<) (map fst m) \<and> (\<forall>e \<in> set m. json_ok (snd e))"
| "json_ok (JArr xs) \<longleftrightarrow> (\<forall>x \<in> set xs. json_ok x)"
| "json_ok _ \<longleftrightarrow> True"

lemma json_ok_get: "json_ok v \<Longrightarrow> j_get v k = Some w \<Longrightarrow> json_ok w"
  by (cases v) (auto dest!: map_of_SomeD)

end
