(* ===== verification/Blob_Policy.thy ===== *)
theory Blob_Policy
  imports Json Rust_Str
begin

text \<open>
  Owner-declared order and distribution policies of a xite, after \<^verbatim>\<open>epix-blob/src/policy.rs\<close>: which
  paths are fetched in which tier, and which paths a background pass may complete within the size
  limit.
\<close>

section \<open>Order policy\<close>

datatype feed_order = NewestFirst | OldestFirst | PinnedFirst | Custom

definition feed_order_parse :: "string \<Rightarrow> feed_order option" where
  "feed_order_parse s =
     (if s = ''newest-first'' then Some NewestFirst
      else if s = ''oldest-first'' then Some OldestFirst
      else if s = ''pinned-first'' then Some PinnedFirst
      else if s = ''custom'' then Some Custom
      else None)"

definition newest_first :: "feed_order \<Rightarrow> bool" where
  "newest_first f \<longleftrightarrow> f \<noteq> OldestFirst"

record order_policy =
  op_first_paint :: "string list"
  op_feed_order :: "feed_order option"
  op_prefetch :: "string list"

definition op_default :: order_policy where
  "op_default = \<lparr>op_first_paint = [], op_feed_order = None, op_prefetch = []\<rparr>"

definition str_list :: "json \<Rightarrow> string \<Rightarrow> string list" where
  "str_list p key =
     (case obind (j_get p key) as_array of None \<Rightarrow> [] | Some a \<Rightarrow> filter_map as_str a)"

definition op_from_content :: "json \<Rightarrow> order_policy" where
  "op_from_content content =
     (case j_get content ''order_policy'' of
        None \<Rightarrow> op_default
      | Some p \<Rightarrow>
          \<lparr>op_first_paint = str_list p ''first_paint'',
           op_feed_order = obind (get_str p ''feed_order'') feed_order_parse,
           op_prefetch = str_list p ''prefetch''\<rparr>)"

definition is_first_paint :: "order_policy \<Rightarrow> string \<Rightarrow> bool" where
  "is_first_paint p inner_path \<longleftrightarrow> inner_path \<in> set (op_first_paint p)"

definition is_prefetch :: "order_policy \<Rightarrow> string \<Rightarrow> bool" where
  "is_prefetch p inner_path \<longleftrightarrow> inner_path \<in> set (op_prefetch p)"

definition op_is_empty :: "order_policy \<Rightarrow> bool" where
  "op_is_empty p \<longleftrightarrow> op_first_paint p = [] \<and> op_prefetch p = [] \<and> op_feed_order p = None"

datatype fetch_tier = TierFirstPaint | TierDefault | TierPrefetch

text \<open>\<open>derive(Ord)\<close>: the declaration order.\<close>

fun tier_rank :: "fetch_tier \<Rightarrow> nat" where
  "tier_rank TierFirstPaint = 0"
| "tier_rank TierDefault = 1"
| "tier_rank TierPrefetch = 2"

instantiation fetch_tier :: linorder
begin

definition less_eq_fetch_tier :: "fetch_tier \<Rightarrow> fetch_tier \<Rightarrow> bool" where
  "less_eq_fetch_tier a b \<longleftrightarrow> tier_rank a \<le> tier_rank b"

definition less_fetch_tier :: "fetch_tier \<Rightarrow> fetch_tier \<Rightarrow> bool" where
  "less_fetch_tier a b \<longleftrightarrow> tier_rank a < tier_rank b"

instance
proof
  fix a b :: fetch_tier
  show "a \<le> b \<Longrightarrow> b \<le> a \<Longrightarrow> a = b" by (cases a; cases b) (auto simp: less_eq_fetch_tier_def)
qed (auto simp: less_eq_fetch_tier_def less_fetch_tier_def)

end

definition file_ext :: "string \<Rightarrow> string" where
  "file_ext inner_path =
     (let name = last (split_on CHR ''/'' inner_path) in
      case rsplit_once CHR ''.'' name of None \<Rightarrow> [] | Some (_, e) \<Rightarrow> to_lowercase e)"

definition render_exts :: "string list" where
  "render_exts = [''html'', ''htm'', ''css'', ''js'', ''mjs'', ''json'', ''wasm'', ''svg'', ''png'', ''jpg'',
     ''jpeg'', ''gif'', ''webp'', ''avif'', ''ico'', ''woff'', ''woff2'', ''ttf'', ''otf'']"

definition bulk_exts :: "string list" where
  "bulk_exts = [''mp4'', ''webm'', ''mkv'', ''avi'', ''mov'', ''wmv'', ''flv'', ''m4v'', ''mpg'', ''mpeg'',
     ''mp3'', ''m4a'', ''wav'', ''flac'', ''ogg'', ''opus'', ''oga'', ''pdf'', ''epub'', ''mobi'',
     ''zip'', ''rar'', ''7z'', ''gz'', ''bz2'', ''xz'', ''tar'', ''iso'', ''img'', ''dmg'', ''exe'',
     ''msi'', ''apk'', ''deb'', ''rpm'', ''bin'', ''torrent'', ''doc'', ''docx'', ''xls'', ''xlsx'',
     ''ppt'', ''pptx'', ''odt'', ''ods'', ''odp'', ''psd'', ''swf'', ''bak'']"

definition default_tier :: "string \<Rightarrow> fetch_tier" where
  "default_tier inner_path =
     (let ext = file_ext inner_path in
      if ext \<in> set render_exts then TierFirstPaint
      else if ext \<in> set bulk_exts then TierPrefetch
      else TierDefault)"

definition tier :: "order_policy \<Rightarrow> string \<Rightarrow> fetch_tier" where
  "tier p inner_path =
     (if is_first_paint p inner_path then TierFirstPaint
      else if is_prefetch p inner_path then TierPrefetch
      else if op_is_empty p then default_tier inner_path
      else TierDefault)"

section \<open>Distribution policy\<close>

datatype distribution_unit = Package | FileRefs | Feed

datatype retention = Complete | Partial

definition unit_parse :: "string \<Rightarrow> distribution_unit option" where
  "unit_parse s =
     (if s = ''package'' then Some Package
      else if s = ''file-refs'' then Some FileRefs
      else if s = ''feed'' then Some Feed
      else None)"

definition retention_parse :: "string \<Rightarrow> retention option" where
  "retention_parse s =
     (if s = ''complete'' then Some Complete else if s = ''partial'' then Some Partial else None)"

record path_policy =
  pp_unit :: distribution_unit
  pp_retention :: retention

record distribution_policy =
  dp_rules :: "(string \<times> path_policy) list"
  dp_default :: "path_policy option"

definition parse_policy :: "json \<Rightarrow> path_policy option" where
  "parse_policy v =
     obind (obind (get_str v ''unit'') unit_parse) (\<lambda>u.
     obind (obind (get_str v ''retention'') retention_parse) (\<lambda>r.
       Some \<lparr>pp_unit = u, pp_retention = r\<rparr>))"

definition path_rules :: "json \<Rightarrow> (string \<times> path_policy) list" where
  "path_rules d =
     (case j_get d ''paths'' of
        Some (JObj paths) \<Rightarrow> filter_map (\<lambda>(prefix, v). map_option (Pair prefix) (parse_policy v)) paths
      | _ \<Rightarrow> [])"

text \<open>The sort by falling prefix length is stable.\<close>

definition dp_from_content :: "json \<Rightarrow> distribution_policy" where
  "dp_from_content content =
     (case j_get content ''distribution'' of
        None \<Rightarrow> \<lparr>dp_rules = [], dp_default = None\<rparr>
      | Some d \<Rightarrow>
          \<lparr>dp_rules = sort_key (\<lambda>r. - int (length (fst r))) (path_rules d),
           dp_default = obind (j_get d ''default'') parse_policy\<rparr>)"

definition complete_everything :: distribution_policy where
  "complete_everything =
     \<lparr>dp_rules = [], dp_default = Some \<lparr>pp_unit = Package, pp_retention = Complete\<rparr>\<rparr>"

fun first_rule :: "(string \<times> path_policy) list \<Rightarrow> string \<Rightarrow> path_policy option" where
  "first_rule [] p = None"
| "first_rule ((prefix, policy) # rules) p =
     (if starts_with prefix p then Some policy else first_rule rules p)"

definition resolve :: "distribution_policy \<Rightarrow> string \<Rightarrow> path_policy" where
  "resolve dp inner_path =
     (case first_rule (dp_rules dp) inner_path of
        Some policy \<Rightarrow> policy
      | None \<Rightarrow> (case dp_default dp of
                   Some d \<Rightarrow> d
                 | None \<Rightarrow> \<lparr>pp_unit = Package, pp_retention = Complete\<rparr>))"

definition wants_complete :: "distribution_policy \<Rightarrow> string \<Rightarrow> bool" where
  "wants_complete dp inner_path \<longleftrightarrow> pp_retention (resolve dp inner_path) = Complete"

record completion_plan =
  cp_paths :: "string list"
  cp_bytes :: nat
  cp_needs_consent :: bool

definition plan_step :: "distribution_policy \<Rightarrow> string list \<times> nat \<Rightarrow> string \<times> nat \<Rightarrow> string list \<times> nat" where
  "plan_step dp st e =
     (case (st, e) of ((paths, bytes), (path, sz)) \<Rightarrow>
        if wants_complete dp path then (paths @ [path], saturating_add bytes sz) else (paths, bytes))"

definition make_plan :: "distribution_policy \<Rightarrow> (string \<times> nat) list \<Rightarrow> nat \<Rightarrow> completion_plan" where
  "make_plan dp missing limit_bytes =
     (case foldl (plan_step dp) ([], 0) missing of
        (paths, bytes) \<Rightarrow> \<lparr>cp_paths = sort paths, cp_bytes = bytes, cp_needs_consent = limit_bytes < bytes\<rparr>)"

section \<open>The longest declared prefix decides\<close>

lemma first_rule_Some: "first_rule rules p = Some pol \<Longrightarrow> \<exists>pre. (pre, pol) \<in> set rules \<and> starts_with pre p"
  by (induction rules p rule: first_rule.induct) (auto split: if_splits)

lemma first_rule_None: "first_rule rules p = None \<longleftrightarrow> (\<forall>(pre, pol) \<in> set rules. \<not> starts_with pre p)"
  by (induction rules p rule: first_rule.induct) auto

lemma first_rule_longest:
  assumes "sorted (map (\<lambda>r. - int (length (fst r))) rules)" "first_rule rules p = Some pol"
  shows "\<exists>pre. (pre, pol) \<in> set rules \<and> starts_with pre p \<and>
    (\<forall>r \<in> set rules. starts_with (fst r) p \<longrightarrow> length (fst r) \<le> length pre)"
  using assms
proof (induction rules)
  case (Cons r rules)
  show ?case
  proof (cases "starts_with (fst r) p")
    case True
    then have "snd r = pol" using Cons.prems(2) by (cases r) auto
    moreover have "length (fst r') \<le> length (fst r)" if "r' \<in> set rules" for r' using Cons.prems(1) that by simp
    ultimately show ?thesis using True by (intro exI [of _ "fst r"]) auto
  next
    case False
    then have "first_rule rules p = Some pol" using Cons.prems(2) by (cases r) auto
    then obtain pre where "(pre, pol) \<in> set rules" "starts_with pre p"
      "\<forall>r \<in> set rules. starts_with (fst r) p \<longrightarrow> length (fst r) \<le> length pre"
      using Cons.IH Cons.prems(1) by auto
    then show ?thesis using False by (intro exI [of _ pre]) auto
  qed
qed simp

lemma starts_with_same_length: "starts_with a p \<Longrightarrow> starts_with b p \<Longrightarrow> length a = length b \<Longrightarrow> a = b"
  by (metis starts_with_def)

lemma path_rules_iff:
  "(pre, pol) \<in> set (path_rules d) \<longleftrightarrow>
     (\<exists>paths v. j_get d ''paths'' = Some (JObj paths) \<and> (pre, v) \<in> set paths \<and> parse_policy v = Some pol)"
proof -
  have "(pre, pol) \<in> set (filter_map (\<lambda>(prefix, v). map_option (Pair prefix) (parse_policy v)) paths) \<longleftrightarrow>
      (\<exists>v. (pre, v) \<in> set paths \<and> parse_policy v = Some pol)" for paths
    unfolding set_filter_map by (auto intro!: bexI [of _ "(pre, _)"])
  then show ?thesis by (cases "j_get d ''paths''") (auto simp: path_rules_def split: json.split)
qed

lemma plan_fold:
  "b \<le> u64_max \<Longrightarrow> foldl (plan_step dp) (ps, b) missing =
     (ps @ map fst (filter (\<lambda>e. wants_complete dp (fst e)) missing),
      min (b + sum_list (map snd (filter (\<lambda>e. wants_complete dp (fst e)) missing))) u64_max)"
proof (induction missing arbitrary: ps b)
  case (Cons e missing)
  have le: "saturating_add b (snd e) \<le> u64_max" by (simp add: saturating_add_def)
  show ?case
  proof (cases "wants_complete dp (fst e)")
    case True
    then have "plan_step dp (ps, b) e = (ps @ [fst e], saturating_add b (snd e))"
      by (simp add: plan_step_def case_prod_unfold)
    then show ?thesis
      using True Cons.IH [OF le, of "ps @ [fst e]"] by (auto simp: saturating_add_def min_def)
  next
    case False
    then have "plan_step dp (ps, b) e = (ps, b)" by (simp add: plan_step_def case_prod_unfold)
    then show ?thesis using False Cons by simp
  qed
qed simp

text \<open>The rules that match a path, as declared in the manifest.\<close>

definition declared_rule :: "json \<Rightarrow> string \<Rightarrow> string \<Rightarrow> path_policy \<Rightarrow> bool" where
  "declared_rule content p pre pol \<longleftrightarrow>
     (\<exists>d paths v. j_get content ''distribution'' = Some d \<and> j_get d ''paths'' = Some (JObj paths) \<and>
        (pre, v) \<in> set paths \<and> parse_policy v = Some pol \<and> starts_with pre p)"

lemma dp_rules_iff:
  "(pre, pol) \<in> set (dp_rules (dp_from_content content)) \<and> starts_with pre p \<longleftrightarrow> declared_rule content p pre pol"
  by (auto simp: dp_from_content_def declared_rule_def path_rules_iff split: option.split)

lemma resolve_longest:
  assumes uniq: "\<And>pre pol pol'. declared_rule content p pre pol \<Longrightarrow> declared_rule content p pre pol' \<Longrightarrow> pol = pol'"
    and r: "declared_rule content p pre pol"
    and longest: "\<And>pre' pol'. declared_rule content p pre' pol' \<Longrightarrow> length pre' \<le> length pre"
  shows "resolve (dp_from_content content) p = pol"
proof -
  let ?rules = "dp_rules (dp_from_content content)"
  have sorted: "sorted (map (\<lambda>r. - int (length (fst r))) ?rules)"
    by (simp add: dp_from_content_def split: option.split)
  have "first_rule ?rules p \<noteq> None" using r dp_rules_iff [of pre pol content p] by (auto simp: first_rule_None)
  then obtain pol' where f: "first_rule ?rules p = Some pol'" by blast
  obtain pre' where pre': "(pre', pol') \<in> set ?rules" "starts_with pre' p"
    "\<forall>r \<in> set ?rules. starts_with (fst r) p \<longrightarrow> length (fst r) \<le> length pre'"
    using first_rule_longest [OF sorted f] by blast
  then have d: "declared_rule content p pre' pol'" using dp_rules_iff by blast
  have "length pre \<le> length pre'" using pre'(3) r dp_rules_iff [of pre pol content p] by force
  with longest [OF d] pre'(2) r have "pre' = pre"
    by (intro starts_with_same_length [of _ p]) (auto simp: declared_rule_def)
  with uniq [OF d] r f show ?thesis by (simp add: resolve_def)
qed

text \<open>
  Distribution policy: of the rules the owner declares, the one with the longest matching prefix
  decides a path, whatever order the manifest lists them in; with none matching, the declared default
  decides, and failing that the path is completed.  The completion plan holds exactly the missing paths
  so marked, sorted, with their total size, and asks for consent exactly when that total exceeds the
  byte budget left.
\<close>

theorem distribution_policy_decides:
  assumes ok: "json_ok content"
  shows "(declared_rule content p pre pol \<and>
      (\<forall>pre' pol'. declared_rule content p pre' pol' \<longrightarrow> length pre' \<le> length pre) \<longrightarrow>
        resolve (dp_from_content content) p = pol) \<and>
    ((\<forall>pre' pol'. \<not> declared_rule content p pre' pol') \<longrightarrow>
        resolve (dp_from_content content) p =
          (case obind (obind (j_get content ''distribution'') (\<lambda>d. j_get d ''default'')) parse_policy of
             Some d \<Rightarrow> d | None \<Rightarrow> \<lparr>pp_unit = Package, pp_retention = Complete\<rparr>)) \<and>
    sorted (cp_paths (make_plan dp missing limit)) \<and>
    mset (cp_paths (make_plan dp missing limit)) =
      mset (map fst (filter (\<lambda>e. pp_retention (resolve dp (fst e)) = Complete) missing)) \<and>
    (limit < u64_max \<longrightarrow> (cp_needs_consent (make_plan dp missing limit) \<longleftrightarrow>
      limit < sum_list (map snd (filter (\<lambda>e. pp_retention (resolve dp (fst e)) = Complete) missing))))"
proof -
  have uniq: "q = q'" if "declared_rule content p pre0 q" "declared_rule content p pre0 q'" for pre0 q q'
  proof -
    have "distinct (map fst paths)"
      if "j_get content ''distribution'' = Some d" "j_get d ''paths'' = Some (JObj paths)" for d paths
      using json_ok_get [OF json_ok_get [OF ok that(1)] that(2)] by (simp add: strict_sorted_iff)
    with that show ?thesis unfolding declared_rule_def by (metis eq_key_imp_eq_value json.inject(6) option.inject)
  qed
  have none: "resolve (dp_from_content content) p =
      (case obind (obind (j_get content ''distribution'') (\<lambda>d. j_get d ''default'')) parse_policy of
         Some d \<Rightarrow> d | None \<Rightarrow> \<lparr>pp_unit = Package, pp_retention = Complete\<rparr>)"
    if "\<forall>pre' pol'. \<not> declared_rule content p pre' pol'"
  proof -
    have "first_rule (dp_rules (dp_from_content content)) p = None"
      using that dp_rules_iff [of _ _ content p] by (auto simp: first_rule_None)
    then show ?thesis by (auto simp: resolve_def dp_from_content_def split: option.split)
  qed
  have longest: "resolve (dp_from_content content) p = pol"
    if "declared_rule content p pre pol" "\<forall>pre' pol'. declared_rule content p pre' pol' \<longrightarrow> length pre' \<le> length pre"
    by (rule resolve_longest [OF _ that(1)]) (use uniq that(2) in blast)+
  have plan: "make_plan dp missing limit =
      (let w = filter (\<lambda>e. pp_retention (resolve dp (fst e)) = Complete) missing;
           b = min (sum_list (map snd w)) u64_max
       in \<lparr>cp_paths = sort (map fst w), cp_bytes = b, cp_needs_consent = limit < b\<rparr>)"
    using plan_fold [of 0 dp "[]" missing] by (simp add: make_plan_def wants_complete_def Let_def)
  show ?thesis
    by (intro conjI impI longest none) (auto simp: plan Let_def)
qed

definition ex_content :: json where
  "ex_content = JObj [(''distribution'', JObj [(''paths'', JObj
     [(''data/'', JObj [(''retention'', JStr ''complete''), (''unit'', JStr ''package'')]),
      (''data/feed/'', JObj [(''retention'', JStr ''partial''), (''unit'', JStr ''feed'')])])])]"

theorem distribution_policy_decides_witness:
  "resolve (dp_from_content ex_content) ''data/feed/a.json'' = \<lparr>pp_unit = Feed, pp_retention = Partial\<rparr>"
proof -
  have ok: "json_ok ex_content" by (simp add: ex_content_def)
  have r: "declared_rule ex_content ''data/feed/a.json'' pre pol \<longleftrightarrow>
      pre = ''data/'' \<and> pol = \<lparr>pp_unit = Package, pp_retention = Complete\<rparr> \<or>
      pre = ''data/feed/'' \<and> pol = \<lparr>pp_unit = Feed, pp_retention = Partial\<rparr>" for pre pol
    by (auto simp: declared_rule_def ex_content_def parse_policy_def get_str_def unit_parse_def retention_parse_def
        starts_with_def)
  show ?thesis
    using distribution_policy_decides [OF ok, of "''data/feed/a.json''" "''data/feed/''"
        "\<lparr>pp_unit = Feed, pp_retention = Partial\<rparr>"]
    by (auto simp: r)
qed

end
