(* ===== verification/Merkle.thy ===== *)
theory Merkle
  imports Prelude
begin

text \<open>
  Binary hash trees built level by level, an odd node promoted unhashed, as the manifest root
  (\<^verbatim>\<open>epix-blob/src/manifest.rs\<close>) and the piece map (\<^verbatim>\<open>epix-xite/src/piecemap.rs\<close>) build them.  The
  loop is generic in the combining function; run on symbolic trees it yields the tree whose hash
  the loop on hashes computes, which is what commitment is proved with.
\<close>

fun merkle_level :: "('a \<Rightarrow> 'a \<Rightarrow> 'a) \<Rightarrow> 'a list \<Rightarrow> 'a list" where
  "merkle_level f (a # b # xs) = f a b # merkle_level f xs"
| "merkle_level f xs = xs"

lemma length_merkle_level: "length (merkle_level f xs) = (length xs + 1) div 2"
  by (induction f xs rule: merkle_level.induct) auto

function merkle_top :: "('a \<Rightarrow> 'a \<Rightarrow> 'a) \<Rightarrow> 'a list \<Rightarrow> 'a list" where
  "merkle_top f xs = (if 1 < length xs then merkle_top f (merkle_level f xs) else xs)"
  by pat_completeness auto
termination
  by (relation "measure (\<lambda>(f, xs). length xs)") (auto simp: length_merkle_level)

declare merkle_top.simps [simp del]

datatype 'l mtree = MLeaf 'l | MNode "'l mtree" "'l mtree"

fun fringe :: "'l mtree \<Rightarrow> 'l list" where
  "fringe (MLeaf l) = [l]"
| "fringe (MNode t u) = fringe t @ fringe u"

fun subtrees :: "'l mtree \<Rightarrow> 'l mtree set" where
  "subtrees (MLeaf l) = {MLeaf l}"
| "subtrees (MNode t u) = insert (MNode t u) (subtrees t \<union> subtrees u)"

lemma subtrees_refl [simp]: "t \<in> subtrees t"
  by (cases t) auto

lemma map_merkle_level:
  "(\<And>a b. h (f a b) = g (h a) (h b)) \<Longrightarrow> map h (merkle_level f xs) = merkle_level g (map h xs)"
  by (induction f xs rule: merkle_level.induct) auto

lemma map_merkle_top:
  assumes "\<And>a b. h (f a b) = g (h a) (h b)"
  shows "map h (merkle_top f xs) = merkle_top g (map h xs)"
proof (induction xs rule: length_induct)
  case (1 xs)
  show ?case
  proof (cases "1 < length xs")
    case True
    then have "length (merkle_level f xs) < length xs" by (simp add: length_merkle_level)
    then have "map h (merkle_top f (merkle_level f xs)) = merkle_top g (map h (merkle_level f xs))"
      using 1 by blast
    then show ?thesis
      using True by (simp add: merkle_top.simps [of f xs] merkle_top.simps [of g "map h xs"] map_merkle_level [where f = f and g = g and h = h, OF assms])
  next
    case False
    then show ?thesis by (simp add: merkle_top.simps [of f xs] merkle_top.simps [of g "map h xs"])
  qed
qed

lemma fringe_merkle_level: "concat (map fringe (merkle_level MNode ts)) = concat (map fringe ts)"
proof -
  have "concat (map fringe (merkle_level f ts)) = concat (map fringe ts)" if "f = MNode" for f
    using that by (induction f ts rule: merkle_level.induct) auto
  then show ?thesis by simp
qed

lemma fringe_merkle_top: "concat (map fringe (merkle_top MNode ts)) = concat (map fringe ts)"
proof (induction ts rule: length_induct)
  case (1 ts)
  show ?case
  proof (cases "1 < length ts")
    case True
    then have "length (merkle_level MNode ts) < length ts" by (simp add: length_merkle_level)
    then show ?thesis
      using 1 True by (simp add: merkle_top.simps [of MNode ts] fringe_merkle_level)
  qed (simp add: merkle_top.simps [of MNode ts])
qed

lemma length_merkle_top: "xs \<noteq> [] \<Longrightarrow> length (merkle_top f xs) = 1"
proof (induction xs rule: length_induct)
  case (1 xs)
  show ?case
  proof (cases "1 < length xs")
    case True
    then have "length (merkle_level f xs) < length xs" "merkle_level f xs \<noteq> []"
      by (auto simp: length_merkle_level simp flip: length_0_conv)
    then show ?thesis using 1 True by (simp add: merkle_top.simps [of f xs])
  next
    case False
    with "1.prems" have "length xs = 1" by (cases xs) auto
    then show ?thesis by (simp add: merkle_top.simps [of f xs])
  qed
qed

text \<open>The tree over a non-empty list of leaves.\<close>

definition mtree_of :: "'l list \<Rightarrow> 'l mtree" where
  "mtree_of ls = hd (merkle_top MNode (map MLeaf ls))"

lemma merkle_top_mtree: "ls \<noteq> [] \<Longrightarrow> merkle_top MNode (map MLeaf ls) = [mtree_of ls]"
  using length_merkle_top [of "map MLeaf ls" MNode]
  by (cases "merkle_top MNode (map MLeaf ls)") (auto simp: mtree_of_def)

lemma fringe_mtree: "ls \<noteq> [] \<Longrightarrow> fringe (mtree_of ls) = ls"
  using fringe_merkle_top [of "map MLeaf ls"] by (simp add: merkle_top_mtree comp_def)

section \<open>Commitment\<close>

text \<open>
  A hash tree is given by the strings hashed for a leaf and for an inner node.  What the format must
  provide: both determine their parts, and no leaf string is a node string.  Then equal roots mean
  equal leaves, unless two different strings among those hashed collide.
\<close>

locale merkle_hash =
  fixes leaf_material :: "'l \<Rightarrow> bytes"
    and node_material :: "bytes \<Rightarrow> bytes \<Rightarrow> bytes"
    and ok_leaf :: "'l \<Rightarrow> bool"
  assumes leaf_inject: "ok_leaf a \<Longrightarrow> ok_leaf b \<Longrightarrow> leaf_material a = leaf_material b \<Longrightarrow> a = b"
    and node_inject: "length l = 32 \<Longrightarrow> length l' = 32 \<Longrightarrow> node_material l r = node_material l' r' \<Longrightarrow> l = l' \<and> r = r'"
    and separate: "leaf_material a \<noteq> node_material l r"
begin

primrec tree_material :: "(bytes \<Rightarrow> bytes) \<Rightarrow> 'l mtree \<Rightarrow> bytes" where
  "tree_material H (MLeaf a) = leaf_material a"
| "tree_material H (MNode t u) = node_material (H (tree_material H t)) (H (tree_material H u))"

definition tree_hash :: "(bytes \<Rightarrow> bytes) \<Rightarrow> 'l mtree \<Rightarrow> bytes" where
  "tree_hash H t = H (tree_material H t)"

definition hashed_strings :: "(bytes \<Rightarrow> bytes) \<Rightarrow> 'l mtree \<Rightarrow> bytes set" where
  "hashed_strings H t = tree_material H ` subtrees t"

lemma tree_hash_inject:
  assumes "inj_on H (hashed_strings H t \<union> hashed_strings H u)" "\<And>x. length (H x) = 32"
    and "\<forall>l \<in> set (fringe t @ fringe u). ok_leaf l" "tree_hash H t = tree_hash H u"
  shows "t = u"
  using assms
proof (induction t arbitrary: u)
  case (MLeaf a)
  have "tree_material H (MLeaf a) = tree_material H u"
    using MLeaf.prems(1,4) by (auto simp: tree_hash_def hashed_strings_def dest: inj_onD)
  then show ?case using MLeaf.prems(3) leaf_inject separate by (cases u) auto
next
  case (MNode t1 t2)
  have m: "tree_material H (MNode t1 t2) = tree_material H u"
    using MNode.prems(1,4) by (auto simp: tree_hash_def hashed_strings_def dest: inj_onD)
  then obtain u1 u2 where u: "u = MNode u1 u2" using separate by (cases u) (auto dest: sym)
  have h: "tree_hash H t1 = tree_hash H u1" "tree_hash H t2 = tree_hash H u2"
    using m u node_inject [OF MNode.prems(2) MNode.prems(2)] by (auto simp: tree_hash_def)
  have "inj_on H (hashed_strings H t1 \<union> hashed_strings H u1)" "inj_on H (hashed_strings H t2 \<union> hashed_strings H u2)"
    using MNode.prems(1) u by (auto simp: hashed_strings_def elim!: inj_on_subset)
  then show ?case using MNode.IH(1) [of u1] MNode.IH(2) [of u2] MNode.prems(2,3) h u by auto
qed

lemma root_computed:
  assumes "ls \<noteq> []"
  shows "merkle_top (\<lambda>l r. H (node_material l r)) (map (\<lambda>a. H (leaf_material a)) ls) = [tree_hash H (mtree_of ls)]"
proof -
  have "map (tree_hash H) (merkle_top MNode (map MLeaf ls)) =
      merkle_top (\<lambda>l r. H (node_material l r)) (map (tree_hash H) (map MLeaf ls))"
    by (rule map_merkle_top) (simp add: tree_hash_def)
  then show ?thesis using assms by (simp add: merkle_top_mtree comp_def tree_hash_def)
qed

lemma root_commits:
  assumes "inj_on H (hashed_strings H (mtree_of ls) \<union> hashed_strings H (mtree_of ms))" "\<And>x. length (H x) = 32"
    and "\<forall>l \<in> set (ls @ ms). ok_leaf l" "ls \<noteq> []" "ms \<noteq> []"
    and "merkle_top (\<lambda>l r. H (node_material l r)) (map (\<lambda>a. H (leaf_material a)) ls) =
         merkle_top (\<lambda>l r. H (node_material l r)) (map (\<lambda>a. H (leaf_material a)) ms)"
  shows "ls = ms"
proof -
  have "tree_hash H (mtree_of ls) = tree_hash H (mtree_of ms)"
    using assms(4-6) by (simp add: root_computed)
  with tree_hash_inject [OF assms(1,2)] assms(3-5) have "mtree_of ls = mtree_of ms"
    by (simp add: fringe_mtree)
  then show ?thesis using assms(4,5) by (metis fringe_mtree)
qed

end

end
