(* ===== verification/Bundles.thy ===== *)
theory Bundles
  imports Ordered_Map Obj_Id
begin

text \<open>
  Small-file bundles with stable assignment, after \<^verbatim>\<open>epix-blob/src/bundle.rs\<close>: membership is carried
  forward from the previous manifest, new files go to the tail, and a full repack happens only when
  enough bundles have decayed.  \<open>files\<close> is a \<open>BTreeMap\<close> from path to content; the object hash is the
  parameter \<open>H\<close>.  Sizes are sums of lengths of in-memory contents, far below \<open>u64\<close>.
\<close>

definition BUNDLE_FILE_MAX :: nat where "BUNDLE_FILE_MAX = 128 * 1024"
definition BUNDLE_TARGET :: nat where "BUNDLE_TARGET = 256 * 1024"

record blob_bundle =
  bd_id :: obj_id
  bd_bytes :: bytes
  bd_members :: "string list"

record bundle_result =
  br_bundles :: "blob_bundle list"
  br_members :: "(string, nat \<times> nat \<times> nat) btree_map"

definition is_bundleable :: "nat \<Rightarrow> bool" where
  "is_bundleable sz \<longleftrightarrow> sz < BUNDLE_FILE_MAX"

type_synonym files = "(string, bytes) btree_map"

text \<open>\<open>files[p]\<close>, which the code only evaluates for present paths.\<close>

definition file_bytes :: "files \<Rightarrow> string \<Rightarrow> bytes" where
  "file_bytes files p = (case map_of files p of None \<Rightarrow> [] | Some c \<Rightarrow> c)"

definition has_file :: "files \<Rightarrow> string \<Rightarrow> bool" where
  "has_file files p \<longleftrightarrow> map_of files p \<noteq> None"

definition carry_forward :: "files \<Rightarrow> string list list \<Rightarrow> string list list" where
  "carry_forward files prev = filter (\<lambda>b. b \<noteq> []) (map (filter (has_file files)) prev)"

definition bundle_size :: "files \<Rightarrow> string list \<Rightarrow> nat" where
  "bundle_size files b = sum_list (map (\<lambda>p. length (file_bytes files p)) b)"

definition place_new :: "files \<Rightarrow> string list list \<Rightarrow> string \<Rightarrow> string list list" where
  "place_new files ms path =
     (if ms \<noteq> [] \<and> bundle_size files (last ms) < BUNDLE_TARGET
      then butlast ms @ [last ms @ [path]]
      else ms @ [[path]])"

definition new_files :: "files \<Rightarrow> string list list \<Rightarrow> string list" where
  "new_files files ms = filter (\<lambda>p. p \<notin> set (concat ms)) (map fst files)"

definition fragmented :: "files \<Rightarrow> string list list \<Rightarrow> nat" where
  "fragmented files ms = length (filter (\<lambda>b. bundle_size files b < BUNDLE_TARGET div 2) (butlast ms))"

definition needs_repack :: "files \<Rightarrow> string list list \<Rightarrow> bool" where
  "needs_repack files ms \<longleftrightarrow> 1 < length ms \<and> max (length ms div 4) 2 < fragmented files ms"

fun repack_loop :: "string list list \<Rightarrow> string list \<Rightarrow> nat \<Rightarrow> files \<Rightarrow> string list list" where
  "repack_loop out current sz [] = (if current = [] then out else out @ [current])"
| "repack_loop out current sz ((path, c) # files) =
     (if BUNDLE_TARGET \<le> sz \<and> current \<noteq> []
      then repack_loop (out @ [current]) [path] (length c) files
      else repack_loop out (current @ [path]) (sz + length c) files)"

definition repack :: "files \<Rightarrow> string list list" where
  "repack files = repack_loop [] [] 0 files"

definition memberships :: "files \<Rightarrow> string list list \<Rightarrow> string list list" where
  "memberships files prev =
     (let ms0 = carry_forward files prev;
          ms = foldl (place_new files) ms0 (new_files files ms0)
      in if needs_repack files ms then repack files else ms)"

text \<open>The member loop of \<open>build\<close>: inserts the extents and concatenates the contents.\<close>

definition build_member ::
    "files \<Rightarrow> nat \<Rightarrow> (string, nat \<times> nat \<times> nat) btree_map \<times> bytes \<Rightarrow> string \<Rightarrow>
     (string, nat \<times> nat \<times> nat) btree_map \<times> bytes" where
  "build_member files idx st path =
     (case st of (mm, bytes) \<Rightarrow>
        let content = file_bytes files path
        in (bt_insert path (idx, length bytes, length content) mm, bytes @ content))"

definition build_bundle :: "hash_fn \<Rightarrow> files \<Rightarrow> bundle_result \<Rightarrow> string list \<Rightarrow> bundle_result" where
  "build_bundle H files r members =
     (case foldl (build_member files (length (br_bundles r))) (br_members r, []) members of
        (mm, bytes) \<Rightarrow>
          \<lparr>br_bundles = br_bundles r @ [\<lparr>bd_id = ObjId_of H bytes, bd_bytes = bytes, bd_members = members\<rparr>],
           br_members = mm\<rparr>)"

definition build :: "hash_fn \<Rightarrow> files \<Rightarrow> string list list \<Rightarrow> bundle_result" where
  "build H files ms = foldl (build_bundle H files) \<lparr>br_bundles = [], br_members = []\<rparr> ms"

definition assign :: "hash_fn \<Rightarrow> files \<Rightarrow> string list list \<Rightarrow> bundle_result" where
  "assign H files prev = build H files (memberships files prev)"

section \<open>Membership\<close>

lemma concat_place_new: "concat (place_new files ms p) = concat ms @ [p]"
proof (cases "ms = []")
  case False
  then have "concat ms = concat (butlast ms) @ last ms" by (metis append_butlast_last_id concat.simps concat_append append_Nil2)
  then show ?thesis using False by (simp add: place_new_def)
qed (simp add: place_new_def)

lemma concat_place_all: "concat (foldl (place_new files) ms ps) = concat ms @ ps"
  by (induction ps arbitrary: ms) (auto simp: concat_place_new)

lemma place_new_nonempty: "[] \<notin> set ms \<Longrightarrow> [] \<notin> set (place_new files ms p)"
  by (auto simp: place_new_def dest: in_set_butlastD)

lemma place_all_nonempty: "[] \<notin> set ms \<Longrightarrow> [] \<notin> set (foldl (place_new files) ms ps)"
  by (induction ps arbitrary: ms) (auto simp: place_new_nonempty)

text \<open>New files leave every bundle but the tail as it is.\<close>

lemma place_new_prefix:
  "n < length ms \<Longrightarrow> take n (place_new files ms p) = take n ms"
  by (auto simp: place_new_def take_butlast)

lemma place_new_longer: "length ms \<le> length (place_new files ms p)"
  by (cases ms) (auto simp: place_new_def)

lemma place_all_prefix:
  "n < length ms \<Longrightarrow> take n (foldl (place_new files) ms ps) = take n ms"
proof (induction ps arbitrary: ms)
  case (Cons p ps)
  then show ?case
    using place_new_prefix [of n ms files p] place_new_longer [of ms files p] by (simp add: order_less_le_trans)
qed simp

lemma concat_carry: "concat (carry_forward files prev) = filter (has_file files) (concat prev)"
  by (induction prev) (auto simp: carry_forward_def)

lemma concat_repack_loop:
  "concat (repack_loop out cur sz fs) = concat out @ cur @ map fst fs"
  by (induction out cur sz fs rule: repack_loop.induct) auto

lemma repack_loop_nonempty: "[] \<notin> set out \<Longrightarrow> [] \<notin> set (repack_loop out cur sz fs)"
  by (induction out cur sz fs rule: repack_loop.induct) auto

lemma memberships_partition:
  assumes "bt_inv files" "distinct (concat prev)"
  shows "distinct (concat (memberships files prev)) \<and>
    set (concat (memberships files prev)) = fst ` set files \<and> [] \<notin> set (memberships files prev)"
proof -
  let ?c = "carry_forward files prev"
  let ?n = "new_files files ?c"
  have keys: "distinct (map fst files)" using assms(1) by (rule bt_inv_distinct)
  have carry: "distinct (concat ?c)" "set (concat ?c) \<subseteq> fst ` set files" "[] \<notin> set ?c"
    using assms(2) by (auto simp: concat_carry has_file_def map_of_eq_None_iff) (auto simp: carry_forward_def)
  have new: "distinct ?n" "set ?n = fst ` set files - set (concat ?c)" using keys by (auto simp: new_files_def)
  have "distinct (concat (foldl (place_new files) ?c ?n))"
    "set (concat (foldl (place_new files) ?c ?n)) = fst ` set files"
    "[] \<notin> set (foldl (place_new files) ?c ?n)"
    using carry new place_all_nonempty by (auto simp: concat_place_all)
  moreover have "distinct (concat (repack files))" "set (concat (repack files)) = fst ` set files" "[] \<notin> set (repack files)"
    using keys repack_loop_nonempty [of "[]"] by (auto simp: repack_def concat_repack_loop)
  ultimately show ?thesis by (simp add: memberships_def Let_def)
qed

section \<open>Building\<close>

definition members_bytes :: "files \<Rightarrow> string list \<Rightarrow> bytes" where
  "members_bytes files ms = concat (map (file_bytes files) ms)"

definition mk_bundle :: "hash_fn \<Rightarrow> files \<Rightarrow> string list \<Rightarrow> blob_bundle" where
  "mk_bundle H files ms =
     \<lparr>bd_id = ObjId_of H (members_bytes files ms), bd_bytes = members_bytes files ms, bd_members = ms\<rparr>"

definition member_offset :: "files \<Rightarrow> string list \<Rightarrow> string \<Rightarrow> nat" where
  "member_offset files ms p = length (members_bytes files (takeWhile (\<lambda>q. q \<noteq> p) ms))"

lemma build_member_pair:
  "build_member files idx (mm, acc) q =
     (bt_insert q (idx, length acc, length (file_bytes files q)) mm, acc @ file_bytes files q)"
  by (simp add: build_member_def Let_def)

lemma build_member_fold:
  "distinct ms \<Longrightarrow> foldl (build_member files idx) (mm, acc) ms = (mm', bs) \<Longrightarrow>
   bs = acc @ members_bytes files ms \<and>
   (\<forall>p. map_of mm' p = (if p \<in> set ms
      then Some (idx, length acc + member_offset files ms p, length (file_bytes files p)) else map_of mm p))"
proof (induction ms arbitrary: mm acc)
  case (Cons q ms)
  let ?mm = "bt_insert q (idx, length acc, length (file_bytes files q)) mm"
  have "foldl (build_member files idx) (?mm, acc @ file_bytes files q) ms = (mm', bs)"
    using Cons.prems(2) by (simp add: build_member_pair)
  with Cons.IH [of ?mm "acc @ file_bytes files q"] Cons.prems(1) show ?case
    by (auto simp: members_bytes_def member_offset_def)
qed (simp add: members_bytes_def)

lemma build_bundle_eq:
  assumes "distinct ms"
  shows "br_bundles (build_bundle H files r ms) = br_bundles r @ [mk_bundle H files ms]"
    and "map_of (br_members (build_bundle H files r ms)) p =
      (if p \<in> set ms then Some (length (br_bundles r), member_offset files ms p, length (file_bytes files p))
       else map_of (br_members r) p)"
proof -
  obtain mm bs where f: "foldl (build_member files (length (br_bundles r))) (br_members r, []) ms = (mm, bs)"
    by (metis surj_pair)
  note m = build_member_fold [OF assms f]
  show "br_bundles (build_bundle H files r ms) = br_bundles r @ [mk_bundle H files ms]"
    using f m by (simp add: build_bundle_def mk_bundle_def)
  show "map_of (br_members (build_bundle H files r ms)) p =
      (if p \<in> set ms then Some (length (br_bundles r), member_offset files ms p, length (file_bytes files p))
       else map_of (br_members r) p)"
    using f m by (simp add: build_bundle_def)
qed

lemma build_bundles:
  "distinct (concat ms) \<Longrightarrow> br_bundles (build H files ms) = map (mk_bundle H files) ms"
proof (induction ms rule: rev_induct)
  case (snoc m ms)
  then show ?case using build_bundle_eq(1) [of m H files "build H files ms"] by (simp add: build_def)
qed (simp add: build_def)

lemma build_members:
  "distinct (concat ms) \<Longrightarrow> i < length ms \<Longrightarrow> p \<in> set (ms ! i) \<Longrightarrow>
   map_of (br_members (build H files ms)) p = Some (i, member_offset files (ms ! i) p, length (file_bytes files p))"
proof (induction ms rule: rev_induct)
  case (snoc m ms)
  have eq: "build H files (ms @ [m]) = build_bundle H files (build H files ms) m" by (simp add: build_def)
  have len: "length (br_bundles (build H files ms)) = length ms" using snoc.prems(1) by (simp add: build_bundles)
  show ?case
  proof (cases "i = length ms")
    case True
    then show ?thesis using snoc.prems len by (simp add: eq build_bundle_eq(2))
  next
    case False
    then have i: "i < length ms" using snoc.prems(2) by simp
    then have p: "p \<in> set (ms ! i)" using snoc.prems(3) by (simp add: nth_append)
    then have "p \<notin> set m" using snoc.prems(1) i by (auto dest: nth_mem)
    then show ?thesis using snoc.IH i p snoc.prems(1) by (simp add: eq build_bundle_eq(2) nth_append)
  qed
qed simp

lemma split_at_first: "p \<in> set ms \<Longrightarrow> takeWhile (\<lambda>q. q \<noteq> p) ms @ p # tl (dropWhile (\<lambda>q. q \<noteq> p) ms) = ms"
  by (induction ms) auto

lemma member_slice:
  assumes "p \<in> set ms"
  shows "take (length (file_bytes files p)) (drop (member_offset files ms p) (members_bytes files ms)) = file_bytes files p"
proof -
  have "members_bytes files ms = members_bytes files (takeWhile (\<lambda>q. q \<noteq> p) ms) @ file_bytes files p @
      members_bytes files (tl (dropWhile (\<lambda>q. q \<noteq> p) ms))"
    by (subst (1) split_at_first [OF assms, symmetric]) (simp add: members_bytes_def)
  then show ?thesis by (simp add: member_offset_def)
qed

lemma bundle_assign_holds:
  assumes inv: "bt_inv files" and prev: "distinct (concat prev)"
  shows "distinct (concat (map bd_members (br_bundles (assign H files prev)))) \<and>
    set (concat (map bd_members (br_bundles (assign H files prev)))) = fst ` set files \<and>
    (\<forall>b \<in> set (br_bundles (assign H files prev)). bd_members b \<noteq> [] \<and> bd_id b = ObjId_of H (bd_bytes b)) \<and>
    (map_of files p = Some content \<longrightarrow>
       (\<exists>i off. map_of (br_members (assign H files prev)) p = Some (i, off, length content) \<and>
          i < length (br_bundles (assign H files prev)) \<and>
          p \<in> set (bd_members (br_bundles (assign H files prev) ! i)) \<and>
          take (length content) (drop off (bd_bytes (br_bundles (assign H files prev) ! i))) = content))"
proof -
  let ?ms = "memberships files prev"
  note part = memberships_partition [OF inv prev]
  have b: "br_bundles (assign H files prev) = map (mk_bundle H files) ?ms"
    using part by (simp add: assign_def build_bundles)
  have ms: "map bd_members (br_bundles (assign H files prev)) = ?ms"
    unfolding b by (simp add: mk_bundle_def comp_def)
  have "\<exists>i off. map_of (br_members (assign H files prev)) p = Some (i, off, length content) \<and>
      i < length ?ms \<and> p \<in> set (?ms ! i) \<and> take (length content) (drop off (members_bytes files (?ms ! i))) = content"
    if p: "map_of files p = Some content"
  proof -
    have "p \<in> set (concat ?ms)" using part p by (metis domI dom_map_of_conv_image_fst)
    then obtain m where "m \<in> set ?ms" "p \<in> set m" by auto
    then obtain i where i: "i < length ?ms" "p \<in> set (?ms ! i)" by (metis in_set_conv_nth)
    have c: "file_bytes files p = content" using p by (simp add: file_bytes_def)
    show ?thesis
      using build_members [OF _ i, of H files] part i member_slice [OF i(2), of files] c
      by (simp add: assign_def)
  qed
  moreover have "\<forall>b \<in> set (br_bundles (assign H files prev)). bd_members b \<noteq> [] \<and> bd_id b = ObjId_of H (bd_bytes b)"
    using part unfolding b by (auto simp: mk_bundle_def)
  ultimately show ?thesis using part unfolding ms by (auto simp: b mk_bundle_def)
qed

lemma build_members_None:
  "distinct (concat ms) \<Longrightarrow> p \<notin> set (concat ms) \<Longrightarrow> map_of (br_members (build H files ms)) p = None"
proof (induction ms rule: rev_induct)
  case (snoc m ms)
  then show ?case using build_bundle_eq(2) [of m H files "build H files ms" p] by (simp add: build_def)
qed (simp add: build_def)

text \<open>
  C40. Bundling loses and duplicates nothing: for any previous assignment without repetitions, the
  bundles are non-empty, every file is in exactly one of them, each bundle is content-addressed, and
  the extent recorded for a file (bundle index, offset, length) cuts exactly that file's bytes out of
  that bundle.
\<close>

theorem bundles_hold_files:
  assumes inv: "bt_inv files" and prev: "distinct (concat prev)"
  shows "distinct (concat (map bd_members (br_bundles (assign H files prev)))) \<and>
    set (concat (map bd_members (br_bundles (assign H files prev)))) = fst ` set files \<and>
    (\<forall>b \<in> set (br_bundles (assign H files prev)). bd_members b \<noteq> [] \<and> bd_id b = ObjId_of H (bd_bytes b)) \<and>
    (map_of files p = Some content \<longrightarrow>
       (\<exists>i off. map_of (br_members (assign H files prev)) p = Some (i, off, length content) \<and>
          i < length (br_bundles (assign H files prev)) \<and>
          p \<in> set (bd_members (br_bundles (assign H files prev) ! i)) \<and>
          take (length content) (drop off (bd_bytes (br_bundles (assign H files prev) ! i))) = content))"
  by (rule bundle_assign_holds [OF inv prev])

definition ex_files :: files where
  "ex_files = [(''a.css'', [1, 2]), (''b.js'', [3])]"

theorem bundles_hold_files_witness:
  "bt_inv ex_files \<and>
   (\<exists>i off. map_of (br_members (assign (\<lambda>b. b) ex_files [[''b.js'']])) ''a.css'' = Some (i, off, 2))"
  using bundles_hold_files [of ex_files "[[''b.js'']]" "\<lambda>b. b" "''a.css''" "[1, 2]"]
  by (auto simp: ex_files_def bt_inv_def)

section \<open>Stability\<close>

lemma mk_bundle_cong:
  "(\<And>p. p \<in> set ms \<Longrightarrow> map_of files' p = map_of files p) \<Longrightarrow> mk_bundle H files' ms = mk_bundle H files ms"
proof -
  assume "\<And>p. p \<in> set ms \<Longrightarrow> map_of files' p = map_of files p"
  then have "map (file_bytes files') ms = map (file_bytes files) ms" by (simp add: file_bytes_def)
  then show ?thesis unfolding mk_bundle_def members_bytes_def by (simp only:)
qed

lemma carry_forward_all:
  "[] \<notin> set prev \<Longrightarrow> (\<And>p. p \<in> set (concat prev) \<Longrightarrow> has_file files p) \<Longrightarrow> carry_forward files prev = prev"
proof (induction prev)
  case (Cons b prev)
  then have "filter (has_file files) b = b" by (auto simp: filter_id_conv)
  with Cons show ?case by (auto simp: carry_forward_def)
qed (simp add: carry_forward_def)

text \<open>
  Stable assignment: signing again after only adding files, with the previous run's membership and
  no repack due, leaves every bundle but the last one untouched: same members, bytes and identifier,
  so only the tail and new bundles are fetched again.
\<close>

theorem bundles_stable:
  assumes inv: "bt_inv files" "bt_inv files'" and prev: "distinct (concat prev)"
    and ext: "map_of files \<subseteq>\<^sub>m map_of files'"
    and no_repack: "\<not> needs_repack files'
      (foldl (place_new files') (memberships files prev) (new_files files' (memberships files prev)))"
    and n: "n < length (br_bundles (assign H files prev))"
  shows "take n (br_bundles (assign H files' (map bd_members (br_bundles (assign H files prev))))) =
    take n (br_bundles (assign H files prev))"
proof -
  let ?ms = "memberships files prev"
  note part = memberships_partition [OF inv(1) prev]
  have b: "br_bundles (assign H files prev) = map (mk_bundle H files) ?ms"
    using part by (simp add: assign_def build_bundles)
  have ms: "map bd_members (br_bundles (assign H files prev)) = ?ms"
    unfolding b by (simp add: mk_bundle_def comp_def)
  have known: "map_of files p \<noteq> None" if "p \<in> set (concat ?ms)" for p
    using part that by (metis map_of_eq_None_iff)
  then have same: "map_of files' p = map_of files p" if "p \<in> set (concat ?ms)" for p
    using ext that by (metis domIff map_le_def)
  have carry: "carry_forward files' ?ms = ?ms"
    using part known same by (intro carry_forward_all) (auto simp: has_file_def)
  let ?ms' = "foldl (place_new files') ?ms (new_files files' ?ms)"
  have ms': "memberships files' ?ms = ?ms'" using carry no_repack by (simp add: memberships_def Let_def)
  have b': "br_bundles (assign H files' ?ms) = map (mk_bundle H files') ?ms'"
    using memberships_partition [OF inv(2), of ?ms] part ms' by (simp add: assign_def build_bundles)
  have "take n ?ms' = take n ?ms" using n b by (intro place_all_prefix) simp
  then have "take n (br_bundles (assign H files' ?ms)) = map (mk_bundle H files') (take n ?ms)"
    by (simp add: b' take_map)
  also have "\<dots> = map (mk_bundle H files) (take n ?ms)"
    using same by (intro map_cong refl mk_bundle_cong) (auto dest!: in_set_takeD)
  finally show ?thesis unfolding ms by (simp add: b take_map)
qed

definition ex_files2 :: files where
  "ex_files2 = [(''a.css'', [1, 2]), (''b.js'', [3]), (''c.png'', [9])]"

theorem bundles_stable_witness:
  "take 1 (br_bundles (assign (\<lambda>b. b) ex_files2 [[''a.css''], [''b.js'']])) =
   take 1 (br_bundles (assign (\<lambda>b. b) ex_files [[''a.css''], [''b.js'']]))"
proof -
  let ?prev = "[[''a.css''], [''b.js'']]"
  have ms: "memberships ex_files ?prev = ?prev"
    by (simp add: memberships_def carry_forward_def new_files_def needs_repack_def fragmented_def has_file_def ex_files_def)
  have b: "br_bundles (assign (\<lambda>b. b) ex_files ?prev) = map (mk_bundle (\<lambda>b. b) ex_files) ?prev"
    using ms by (simp add: assign_def build_bundles)
  have eq: "map bd_members (br_bundles (assign (\<lambda>b. b) ex_files ?prev)) = ?prev"
    unfolding b by (simp add: mk_bundle_def)
  have le: "map_of ex_files \<subseteq>\<^sub>m map_of ex_files2" by (auto simp: map_le_def ex_files_def ex_files2_def)
  have inv: "bt_inv ex_files" "bt_inv ex_files2" by (auto simp: bt_inv_def ex_files_def ex_files2_def)
  have "\<not> needs_repack ex_files2 (foldl (place_new ex_files2) ?prev (new_files ex_files2 ?prev))"
    by (simp add: needs_repack_def fragmented_def new_files_def place_new_def ex_files2_def bundle_size_def
        file_bytes_def BUNDLE_TARGET_def)
  then show ?thesis
    using bundles_stable [of ex_files ex_files2 ?prev 1 "\<lambda>b. b"] inv le ms unfolding eq by (simp add: b)
qed

end
