(* ===== verification/Blob_Manifest.thy ===== *)
theory Blob_Manifest
  imports Json Merkle Bundles Prefix_Code
begin

text \<open>
  The \<open>edx: 1\<close> fields of a content manifest, after \<^verbatim>\<open>epix-blob/src/manifest.rs\<close>: per-file roots, bundle
  references, encrypted-shard entries and the files Merkle root, written at signing time and read at
  fetch time.  The object hash is the parameter \<open>H\<close>.
\<close>

definition EDX_VERSION :: nat where "EDX_VERSION = 1"

record bundle_ref =
  ref_id :: obj_id
  ref_off :: nat

record edx_entry =
  en_size :: nat
  en_b3 :: obj_id
  en_bundle :: "bundle_ref option"

definition edx_version :: "json \<Rightarrow> nat option" where
  "edx_version content = get_u64 content ''edx''"

definition parse_entry :: "json \<Rightarrow> json \<Rightarrow> edx_entry option" where
  "parse_entry entry content =
     obind (get_u64 entry ''size'') (\<lambda>sz.
     obind (obind (get_str entry ''b3'') ObjId_from_hex) (\<lambda>b3.
     case j_get entry ''bundle'' of
       None \<Rightarrow> Some \<lparr>en_size = sz, en_b3 = b3, en_bundle = None\<rparr>
     | Some b \<Rightarrow>
         obind (obind (as_str b) ObjId_from_hex) (\<lambda>i.
         obind (obind (j_get content ''bundles'') (\<lambda>bs. obind (as_str b) (j_get bs))) (\<lambda>_.
         obind (get_u64 entry ''off'') (\<lambda>off.
           Some \<lparr>en_size = sz, en_b3 = b3, en_bundle = Some \<lparr>ref_id = i, ref_off = off\<rparr>\<rparr>)))))"

text \<open>\<open>find_map\<close> over the two sections.\<close>

definition edx_entry_of :: "json \<Rightarrow> string \<Rightarrow> edx_entry option" where
  "edx_entry_of content inner_path =
     (let look = (\<lambda>k. obind (j_get content k) (\<lambda>f. j_get f inner_path)) in
      case look ''files'' of
        Some entry \<Rightarrow> parse_entry entry content
      | None \<Rightarrow> (case look ''files_optional'' of
                   Some entry \<Rightarrow> parse_entry entry content
                 | None \<Rightarrow> None))"

section \<open>Encrypted shards\<close>

record shard_chunk =
  ch_plain_hash :: bytes
  ch_cipher_addr :: obj_id
  ch_len :: u32
  ch_csize :: u32

record shard_entry =
  sh_size :: nat
  sh_mode :: u8
  sh_chunks :: "shard_chunk list"

text \<open>\<open>hex.get(i..i + 2)\<close> for every even \<open>i\<close>, each parsed as a byte.\<close>

definition edx_salt :: "json \<Rightarrow> bytes option" where
  "edx_salt content =
     obind (get_str content ''edx_salt'') (\<lambda>hex.
       if length hex mod 2 \<noteq> 0 then None else from_hex_loop hex)"

fun hex_prefix :: "nat \<Rightarrow> string \<Rightarrow> bytes option" where
  "hex_prefix 0 s = Some []"
| "hex_prefix (Suc n) (a # b # s) =
     obind (u8_from_str_radix16 [a, b]) (\<lambda>x. obind (hex_prefix n s) (\<lambda>xs. Some (x # xs)))"
| "hex_prefix (Suc n) _ = None"

definition parse_chunk :: "json \<Rightarrow> shard_chunk option" where
  "parse_chunk c =
     obind (obind (get_str c ''ph'') (hex_prefix 32)) (\<lambda>ph.
     obind (obind (get_str c ''ca'') ObjId_from_hex) (\<lambda>ca.
     obind (get_u64 c ''len'') (\<lambda>len.
     obind (get_u64 c ''cs'') (\<lambda>cs.
       Some \<lparr>ch_plain_hash = ph, ch_cipher_addr = ca, ch_len = as_u32 len, ch_csize = as_u32 cs\<rparr>))))"

fun parse_chunks :: "json list \<Rightarrow> shard_chunk list option" where
  "parse_chunks [] = Some []"
| "parse_chunks (c # cs) = obind (parse_chunk c) (\<lambda>x. obind (parse_chunks cs) (\<lambda>xs. Some (x # xs)))"

definition edx_shard_entry :: "json \<Rightarrow> string \<Rightarrow> shard_entry option" where
  "edx_shard_entry content inner_path =
     obind (obind (j_get content ''files_shard'') (\<lambda>f. j_get f inner_path)) (\<lambda>e.
     obind (get_u64 e ''size'') (\<lambda>sz.
     obind (obind (j_get e ''chunks'') as_array) (\<lambda>arr.
     obind (parse_chunks arr) (\<lambda>chunks.
       Some \<lparr>sh_size = sz,
             sh_mode = (case get_u64 e ''mode'' of None \<Rightarrow> 0 | Some m \<Rightarrow> word_of_nat m),
             sh_chunks = chunks\<rparr>))))"

text \<open>\<open>json!({...})\<close>: an object literal collected into the ordered map.\<close>

definition j_object :: "(string \<times> json) list \<Rightarrow> json" where
  "j_object kvs = JObj (foldl (\<lambda>m (k, v). bt_insert k v m) [] kvs)"

definition hex_of :: "bytes \<Rightarrow> string" where
  "hex_of bs = concat (map byte_hex bs)"

definition chunk_json :: "shard_chunk \<Rightarrow> json" where
  "chunk_json c = j_object
     [(''ph'', JStr (hex_of (ch_plain_hash c))), (''ca'', JStr (ObjId_to_string (ch_cipher_addr c))),
      (''len'', JInt (int (unat (ch_len c)))), (''cs'', JInt (int (unat (ch_csize c))))]"

text \<open>\<open>None\<close> is the panic of \<open>expect\<close> and \<open>unwrap\<close> on a value that is not an object.\<close>

definition set_shard_entry :: "json \<Rightarrow> string \<Rightarrow> shard_entry \<Rightarrow> json option" where
  "set_shard_entry content inner_path entry =
     obind (as_object content) (\<lambda>obj.
     let obj1 = (case map_of obj ''files_shard'' of
                   None \<Rightarrow> bt_insert ''files_shard'' (JObj []) obj
                 | Some _ \<Rightarrow> obj) in
     obind (obind (map_of obj1 ''files_shard'') as_object) (\<lambda>fs.
       Some (JObj (bt_insert ''files_shard'' (JObj (bt_insert inner_path
         (j_object [(''size'', JInt (int (sh_size entry))), (''mode'', JInt (int (unat (sh_mode entry)))),
                    (''chunks'', JArr (map chunk_json (sh_chunks entry)))]) fs)) obj1))))"

section \<open>Bundles of a manifest\<close>

definition manifest_bundles :: "json \<Rightarrow> (obj_id, nat) btree_map" where
  "manifest_bundles content =
     (case j_get content ''bundles'' of
        Some (JObj m) \<Rightarrow>
          foldl (\<lambda>out (hex, meta).
            case (ObjId_from_hex hex, get_u64 meta ''size'') of
              (Some i, Some sz) \<Rightarrow> bt_insert i sz out
            | _ \<Rightarrow> out) [] m
      | _ \<Rightarrow> [])"

definition bundle_order :: "json \<Rightarrow> string list" where
  "bundle_order content =
     (case j_get content ''bundles'' of
        Some (JObj m) \<Rightarrow>
          map (\<lambda>(_, _, hex). hex)
            (sort (map (\<lambda>(i, hex, meta). ((case get_u64 meta ''seq'' of Some q \<Rightarrow> q | None \<Rightarrow> i), i, hex))
              (zip [0..<length m] m)))
      | _ \<Rightarrow> [])"

definition add_member ::
    "(string, (nat \<times> string) list) btree_map \<Rightarrow> string \<times> json \<Rightarrow> (string, (nat \<times> string) list) btree_map" where
  "add_member by_bundle e =
     (case e of (path, entry) \<Rightarrow>
        (case (get_str entry ''bundle'', get_u64 entry ''off'') of
           (Some b, Some off) \<Rightarrow> bt_upsert b (\<lambda>l. l @ [(off, path)]) [(off, path)] by_bundle
         | _ \<Rightarrow> by_bundle))"

definition section_members ::
    "json \<Rightarrow> (string, (nat \<times> string) list) btree_map \<Rightarrow> string \<Rightarrow> (string, (nat \<times> string) list) btree_map" where
  "section_members content by_bundle key =
     (case j_get content key of Some (JObj files) \<Rightarrow> foldl add_member by_bundle files | _ \<Rightarrow> by_bundle)"

fun take_members :: "string list \<Rightarrow> (string, (nat \<times> string) list) btree_map \<Rightarrow> string list list" where
  "take_members [] by_bundle = []"
| "take_members (b # bs) by_bundle =
     (case map_of by_bundle b of
        None \<Rightarrow> take_members bs by_bundle
      | Some members \<Rightarrow> map snd (sort members) # take_members bs (bt_remove b by_bundle))"

definition prev_memberships :: "json \<Rightarrow> string list list" where
  "prev_memberships content =
     take_members (bundle_order content)
       (foldl (section_members content) [] [''files'', ''files_optional''])"

section \<open>Files Merkle root\<close>

type_synonym merkle_entries = "(string, obj_id \<times> nat) btree_map"

definition leaf_material :: "string \<times> obj_id \<times> nat \<Rightarrow> bytes" where
  "leaf_material e =
     (case e of (path, b3, sz) \<Rightarrow>
        0 # le32 (as_u32 (length path)) @ as_bytes path @ id_bytes b3 @ le64 (as_u64 sz))"

definition node_material :: "bytes \<Rightarrow> bytes \<Rightarrow> bytes" where
  "node_material l r = 1 # l @ r"

definition files_merkle_root :: "hash_fn \<Rightarrow> merkle_entries \<Rightarrow> obj_id" where
  "files_merkle_root H entries =
     (let level = map (\<lambda>e. H (leaf_material e)) entries in
      if level = [] then ObjId (replicate 32 0)
      else ObjId (hd (merkle_top (\<lambda>l r. H (node_material l r)) level)))"

section \<open>Applying the fields\<close>

definition apply_bundle_fields ::
    "bundle_result \<Rightarrow> string \<Rightarrow> (string \<times> json) list \<Rightarrow> (string \<times> json) list" where
  "apply_bundle_fields asg path e =
     (case map_of (br_members asg) path of
        Some (idx, off, len) \<Rightarrow>
          bt_insert ''off'' (JInt (int off))
            (bt_insert ''bundle'' (JStr (ObjId_to_string (bd_id (br_bundles asg ! idx)))) e)
      | None \<Rightarrow> bt_remove ''off'' (bt_remove ''bundle'' e))"

fun apply_files ::
    "(string, obj_id) btree_map \<Rightarrow> bundle_result \<Rightarrow> (string \<times> json) list \<Rightarrow> merkle_entries \<Rightarrow>
     (string \<times> json) list \<times> merkle_entries" where
  "apply_files roots asg [] me = ([], me)"
| "apply_files roots asg ((path, entry) # files) me =
     (case (entry, map_of roots path) of
        (JObj e, Some root) \<Rightarrow>
          (let sz = (case get_u64 (JObj e) ''size'' of None \<Rightarrow> 0 | Some n \<Rightarrow> n);
               e1 = bt_insert ''b3'' (JStr (ObjId_to_string root)) e;
               e2 = apply_bundle_fields asg path e1;
               (files', me') = apply_files roots asg files (bt_insert path (root, sz) me)
           in ((path, JObj e2) # files', me'))
      | _ \<Rightarrow> (let (files', me') = apply_files roots asg files me in ((path, entry) # files', me')))"

definition apply_section ::
    "(string, obj_id) btree_map \<Rightarrow> bundle_result \<Rightarrow> (string \<times> json) list \<times> merkle_entries \<Rightarrow> string \<Rightarrow>
     (string \<times> json) list \<times> merkle_entries" where
  "apply_section roots asg st key =
     (case st of (obj, me) \<Rightarrow>
        (case map_of obj key of
           Some (JObj files) \<Rightarrow>
             (case apply_files roots asg files me of (files', me') \<Rightarrow> (bt_insert key (JObj files') obj, me'))
         | _ \<Rightarrow> (obj, me)))"

definition bundles_json :: "bundle_result \<Rightarrow> (string \<times> json) list" where
  "bundles_json asg =
     foldl (\<lambda>m (i, b). bt_insert (ObjId_to_string (bd_id b))
         (j_object [(''size'', JInt (int (length (bd_bytes b)))), (''seq'', JInt (int i))]) m) []
       (zip [0..<length (br_bundles asg)] (br_bundles asg))"

definition apply_edx ::
    "hash_fn \<Rightarrow> (string, obj_id) btree_map \<Rightarrow> bundle_result \<Rightarrow> json \<Rightarrow> (json \<times> obj_id) option" where
  "apply_edx H roots asg content =
     obind (as_object content) (\<lambda>obj.
       case foldl (apply_section roots asg) (obj, []) [''files'', ''files_optional''] of
         (obj1, me) \<Rightarrow>
           (let bj = bundles_json asg;
                obj2 = (if bj = [] then bt_remove ''bundles'' obj1 else bt_insert ''bundles'' (JObj bj) obj1);
                root = files_merkle_root H me;
                obj3 = bt_insert ''files_merkle_root'' (JStr (ObjId_to_string root)) obj2;
                obj4 = bt_insert ''edx'' (JInt (int EDX_VERSION)) obj3
            in Some (JObj obj4, root)))"

section \<open>The root commits to the files\<close>

definition entry_ok :: "string \<times> obj_id \<times> nat \<Rightarrow> bool" where
  "entry_ok e \<longleftrightarrow> length (fst e) < 2 ^ 32 \<and> length (id_bytes (fst (snd e))) = 32 \<and> snd (snd e) < 2 ^ 64"

interpretation mroot: merkle_hash leaf_material node_material entry_ok
proof
  fix a b :: "string \<times> obj_id \<times> nat"
  assume ok: "entry_ok a" "entry_ok b" and eq: "leaf_material a = leaf_material b"
  obtain p x n where a: "a = (p, x, n)" by (cases a)
  obtain q y m where b: "b = (q, y, m)" by (cases b)
  have "enc_str p @ (id_bytes x @ le64 (as_u64 n)) = enc_str q @ (id_bytes y @ le64 (as_u64 m))"
    using eq a b by (simp add: leaf_material_def enc_str_def)
  moreover have "ok_len p" "ok_len q" using ok a b by (auto simp: entry_ok_def ok_len_def)
  ultimately have pq: "p = q" and tl: "id_bytes x @ le64 (as_u64 n) = id_bytes y @ le64 (as_u64 m)"
    using cstr.enc_inject by blast+
  have "length (id_bytes x) = length (id_bytes y)" using ok a b by (simp add: entry_ok_def)
  with tl have "id_bytes x = id_bytes y" "as_u64 n = as_u64 m" by auto
  moreover have "n < 2 ^ 64" "m < 2 ^ 64" using ok a b by (simp_all add: entry_ok_def)
  ultimately show "a = b" using pq a b by (simp add: as_u64_inject obj_id.expand)
next
  fix l l' r r' :: bytes
  assume "length l = 32" "length l' = 32" "node_material l r = node_material l' r'"
  then show "l = l' \<and> r = r'" by (simp add: node_material_def)
next
  fix a :: "string \<times> obj_id \<times> nat" and l r
  show "leaf_material a \<noteq> node_material l r" by (cases a) (simp add: leaf_material_def node_material_def)
qed

definition merkle_strings :: "hash_fn \<Rightarrow> merkle_entries \<Rightarrow> bytes set" where
  "merkle_strings H entries = (if entries = [] then {} else mroot.hashed_strings H (mtree_of entries))"

lemma files_merkle_root_eq:
  "entries \<noteq> [] \<Longrightarrow> files_merkle_root H entries = ObjId (mroot.tree_hash H (mtree_of entries))"
  by (simp add: files_merkle_root_def mroot.root_computed)

text \<open>
  The files root commits to the whole file list: two manifests whose entries have the same root list
  the same paths with the same object identifiers and sizes, unless two different strings hashed for
  them collide.  Promoting an odd node unhashed loses nothing, leaf and node strings being told apart
  by their first byte.  Assumed of the hash: 32-byte outputs, none of them all zero, the root of the
  empty list.
\<close>

theorem files_root_commits:
  assumes "inj_on H (merkle_strings H e1 \<union> merkle_strings H e2)"
    and len: "\<And>x. length (H x) = 32" and nz: "\<And>x. H x \<noteq> replicate 32 0"
    and ok: "\<forall>e \<in> set (e1 @ e2). entry_ok e"
    and eq: "files_merkle_root H e1 = files_merkle_root H e2"
  shows "e1 = e2"
proof -
  have zero: "e = []" if "files_merkle_root H e = ObjId (replicate 32 0)" for e
    using that nz files_merkle_root_eq [of e H] by (metis mroot.tree_hash_def obj_id.inject)
  show ?thesis
  proof (cases "e1 = [] \<or> e2 = []")
    case True
    moreover have "files_merkle_root H [] = ObjId (replicate 32 0)" by (simp add: files_merkle_root_def)
    ultimately show ?thesis using eq zero by metis
  next
    case False
    have "merkle_top (\<lambda>l r. H (node_material l r)) (map (\<lambda>a. H (leaf_material a)) e1) =
        merkle_top (\<lambda>l r. H (node_material l r)) (map (\<lambda>a. H (leaf_material a)) e2)"
      using eq False by (simp add: files_merkle_root_eq mroot.root_computed)
    then show ?thesis
      using mroot.root_commits [where H = H and ls = e1 and ms = e2] len assms(1) ok False
      by (simp add: merkle_strings_def)
  qed
qed

definition ex_root_hash :: hash_fn where
  "ex_root_hash x = 1 # replicate 31 (sum_list x)"

lemma ex_root_hash_ok: "length (ex_root_hash x) = 32" "ex_root_hash x \<noteq> replicate 32 0"
proof -
  show "length (ex_root_hash x) = 32" by (simp add: ex_root_hash_def)
  have "hd (ex_root_hash x) \<noteq> hd (replicate 32 0)" by (simp add: ex_root_hash_def)
  then show "ex_root_hash x \<noteq> replicate 32 0" by metis
qed

theorem files_root_commits_witness:
  "files_merkle_root ex_root_hash [(''a'', ObjId (replicate 32 5), 3)] \<noteq>
   files_merkle_root ex_root_hash [(''a'', ObjId (replicate 32 5), 4)]"
proof
  let ?e = "(''a'', ObjId (replicate 32 5), 3 :: nat)" and ?f = "(''a'', ObjId (replicate 32 5), 4 :: nat)"
  assume eq: "files_merkle_root ex_root_hash [?e] = files_merkle_root ex_root_hash [?f]"
  have "merkle_strings ex_root_hash [x] = {leaf_material x}" for x
    by (simp add: merkle_strings_def mroot.hashed_strings_def mtree_of_def merkle_top.simps [of MNode "[MLeaf x]"])
  moreover have "sum_list (leaf_material ?e) \<noteq> sum_list (leaf_material ?f)" by code_simp
  ultimately have "inj_on ex_root_hash (merkle_strings ex_root_hash [?e] \<union> merkle_strings ex_root_hash [?f])"
    by (auto simp: ex_root_hash_def)
  moreover have "\<forall>e \<in> set ([?e] @ [?f]). entry_ok e" by (simp add: entry_ok_def)
  ultimately have "[?e] = [?f]"
    using files_root_commits [of ex_root_hash "[?e]" "[?f]", OF _ ex_root_hash_ok _ eq] by blast
  then show False by simp
qed

section \<open>Reading back what signing wrote\<close>

lemma ObjId_hex: "length (id_bytes i) = 32 \<Longrightarrow> ObjId_from_hex (ObjId_to_string i) = Some i"
  by (cases i) (auto simp: ObjId_from_hex_def ObjId_to_string_def length_concat_hex from_hex_loop_hex)

lemma hex_prefix_hex_of: "hex_prefix (length bs) (hex_of bs) = Some bs"
proof (induction bs)
  case (Cons b bs)
  then show ?case using u8_from_byte_hex [of b] by (simp add: hex_of_def byte_hex_def)
qed (simp add: hex_of_def)

definition chunk_ok :: "shard_chunk \<Rightarrow> bool" where
  "chunk_ok c \<longleftrightarrow> length (ch_plain_hash c) = 32 \<and> length (id_bytes (ch_cipher_addr c)) = 32"

lemma uint_u32_le: "uint (w :: u32) \<le> int u64_max"
  using unsigned_less [of w, where ?'a = int] by (simp add: u64_max_def)

lemma parse_chunk_json: "chunk_ok c \<Longrightarrow> parse_chunk (chunk_json c) = Some c"
  using hex_prefix_hex_of [of "ch_plain_hash c"] uint_u32_le [of "ch_len c"] uint_u32_le [of "ch_csize c"]
  by (simp add: parse_chunk_def chunk_json_def j_object_def get_str_def get_u64_def chunk_ok_def ObjId_hex as_u32_def)

lemma parse_chunks_json: "\<forall>c \<in> set cs. chunk_ok c \<Longrightarrow> parse_chunks (map chunk_json cs) = Some cs"
  by (induction cs) (auto simp: parse_chunk_json)

lemma uint_u8_le: "uint (w :: u8) \<le> int u64_max"
  using unsigned_less [of w, where ?'a = int] by (simp add: u64_max_def)

text \<open>
  Encrypted-shard entries survive the manifest: what signing writes for a path under
  \<open>files_shard\<close>, fetching reads back unchanged (size, mode and the ordered data map), and the entries
  of other paths are untouched.
\<close>

theorem shard_entry_roundtrip:
  assumes "set_shard_entry content p e = Some content'"
    and "sh_size e \<le> u64_max" "\<forall>c \<in> set (sh_chunks e). chunk_ok c"
  shows "edx_shard_entry content' p = Some e \<and>
    (q \<noteq> p \<longrightarrow> edx_shard_entry content' q = edx_shard_entry content q)"
proof -
  obtain obj where obj: "content = JObj obj" using assms(1) by (cases content) (auto simp: set_shard_entry_def)
  have other: "edx_shard_entry (JObj (bt_insert ''files_shard'' (JObj (bt_insert p v fs)) m)) q = edx_shard_entry (JObj m') q"
    if "map_of m' ''files_shard'' = Some (JObj fs) \<or> (map_of m' ''files_shard'' = None \<and> fs = [])" "q \<noteq> p" for v fs m m'
    using that by (auto simp: edx_shard_entry_def)
  have read: "edx_shard_entry (JObj (bt_insert ''files_shard'' (JObj (bt_insert p
      (j_object [(''size'', JInt (int (sh_size e))), (''mode'', JInt (int (unat (sh_mode e)))),
        (''chunks'', JArr (map chunk_json (sh_chunks e)))]) fs)) m)) p = Some e" for fs m
    using assms(2) parse_chunks_json [OF assms(3)] uint_u8_le [of "sh_mode e"]
    by (simp add: edx_shard_entry_def j_object_def get_u64_def)
  show ?thesis
  proof (cases "map_of obj ''files_shard''")
    case None
    then show ?thesis
      using assms(1) read [of "[]"] other [of obj "[]"] unfolding obj set_shard_entry_def Let_def by auto
  next
    case (Some v)
    then obtain fs where "v = JObj fs" using assms(1) obj by (cases v) (auto simp: set_shard_entry_def Let_def)
    then show ?thesis
      using assms(1) Some read other [of obj fs] unfolding obj set_shard_entry_def Let_def by auto
  qed
qed

definition ex_shard :: shard_entry where
  "ex_shard = \<lparr>sh_size = 5, sh_mode = 1, sh_chunks = [\<lparr>ch_plain_hash = replicate 32 1,
     ch_cipher_addr = ObjId (replicate 32 2), ch_len = 5, ch_csize = 21\<rparr>]\<rparr>"

theorem shard_entry_roundtrip_witness:
  "\<exists>c. set_shard_entry (JObj []) ''private.dat'' ex_shard = Some c \<and> edx_shard_entry c ''private.dat'' = Some ex_shard"
proof -
  obtain c where c: "set_shard_entry (JObj []) ''private.dat'' ex_shard = Some c"
    by (simp add: set_shard_entry_def Let_def)
  then show ?thesis
    using shard_entry_roundtrip [OF c] by (auto simp: ex_shard_def chunk_ok_def u64_max_def)
qed

section \<open>File entries\<close>

definition updated_entry :: "(string, obj_id) btree_map \<Rightarrow> bundle_result \<Rightarrow> string \<Rightarrow> json \<Rightarrow> json" where
  "updated_entry roots asg p entry =
     (case (entry, map_of roots p) of
        (JObj e, Some root) \<Rightarrow> JObj (apply_bundle_fields asg p (bt_insert ''b3'' (JStr (ObjId_to_string root)) e))
      | _ \<Rightarrow> entry)"

lemma apply_files_fst:
  "fst (apply_files roots asg files me) = map (\<lambda>(p, e). (p, updated_entry roots asg p e)) files"
  by (induction roots asg files me rule: apply_files.induct)
    (auto simp: updated_entry_def Let_def case_prod_unfold split: option.splits json.splits)

lemma map_of_updated:
  "map_of (map (\<lambda>(p, e). (p, updated_entry roots asg p e)) files) p = map_option (updated_entry roots asg p) (map_of files p)"
  by (induction files) auto

lemma apply_section_get:
  "map_of (fst (apply_section roots asg (obj, me) key)) k =
     (case map_of obj key of
        Some (JObj files) \<Rightarrow>
          if k = key then Some (JObj (map (\<lambda>(p, e). (p, updated_entry roots asg p e)) files)) else map_of obj k
      | _ \<Rightarrow> map_of obj k)"
  using apply_files_fst [of roots asg _ me]
  by (auto simp: apply_section_def case_prod_unfold split: option.split json.split)

lemma apply_section_lookup:
  assumes "obind (map_of obj ''files'') (\<lambda>f. j_get f p) = Some (JObj e)"
    and "foldl (apply_section roots asg) (obj, me) [''files'', ''files_optional''] = (obj1, me1)"
  shows "obind (map_of obj1 ''files'') (\<lambda>f. j_get f p) = Some (updated_entry roots asg p (JObj e))"
proof -
  obtain files where files: "map_of obj ''files'' = Some (JObj files)" "map_of files p = Some (JObj e)"
    using assms(1) by (cases "map_of obj ''files''"; cases "the (map_of obj ''files'')") auto
  obtain obj0 me0 where s: "apply_section roots asg (obj, me) ''files'' = (obj0, me0)" by (metis surj_pair)
  have "map_of obj0 ''files'' = Some (JObj (map (\<lambda>(p, e). (p, updated_entry roots asg p e)) files))"
    using apply_section_get [of roots asg obj me "''files''" "''files''"] s files by simp
  moreover have "map_of obj1 ''files'' = map_of obj0 ''files''"
    using apply_section_get [of roots asg obj0 me0 "''files_optional''" "''files''"] s assms(2)
    by (auto split: option.splits json.splits)
  ultimately show ?thesis using files(2) by (simp add: map_of_updated)
qed

lemma bundles_json_declares:
  assumes "b \<in> set (br_bundles asg)"
  shows "map_of (bundles_json asg) (ObjId_to_string (bd_id b)) \<noteq> None"
proof -
  have "map_of (foldl (\<lambda>m (i, b). bt_insert (ObjId_to_string (bd_id b)) (f i b) m) m xs) k \<noteq> None \<longleftrightarrow>
      k \<in> (\<lambda>(i, b). ObjId_to_string (bd_id b)) ` set xs \<or> map_of m k \<noteq> None"
    for f :: "nat \<Rightarrow> blob_bundle \<Rightarrow> json" and m xs k
    by (induction xs arbitrary: m) (auto split: if_splits)
  moreover obtain i where "(i, b) \<in> set (zip [0..<length (br_bundles asg)] (br_bundles asg))"
    using assms by (metis in_set_impl_in_set_zip2 length_upt minus_nat.diff_0)
  ultimately show ?thesis unfolding bundles_json_def by force
qed

lemma parse_updated:
  assumes sz: "get_u64 (JObj e) ''size'' = Some sz" and r: "map_of roots p = Some r" "length (id_bytes r) = 32"
    and m: "\<And>idx off len. map_of (br_members asg) p = Some (idx, off, len) \<Longrightarrow>
      idx < length (br_bundles asg) \<and> off \<le> u64_max \<and> length (id_bytes (bd_id (br_bundles asg ! idx))) = 32"
    and bj: "\<And>b. b \<in> set (br_bundles asg) \<Longrightarrow>
      obind (j_get content ''bundles'') (\<lambda>bs. j_get bs (ObjId_to_string (bd_id b))) \<noteq> None"
  shows "parse_entry (updated_entry roots asg p (JObj e)) content =
    Some \<lparr>en_size = sz, en_b3 = r,
      en_bundle = map_option (\<lambda>(idx, off, len). \<lparr>ref_id = bd_id (br_bundles asg ! idx), ref_off = off\<rparr>)
        (map_of (br_members asg) p)\<rparr>"
proof (cases "map_of (br_members asg) p")
  case None
  then show ?thesis
    using sz r by (simp add: updated_entry_def apply_bundle_fields_def parse_entry_def get_u64_def get_str_def ObjId_hex)
next
  case (Some t)
  obtain idx off len where t: "t = (idx, off, len)" by (cases t)
  note mm = m [OF Some [unfolded t]]
  have "obind (j_get content ''bundles'') (\<lambda>bs. j_get bs (ObjId_to_string (bd_id (br_bundles asg ! idx)))) \<noteq> None"
    using bj mm by (meson nth_mem)
  then obtain bs y where "j_get content ''bundles'' = Some bs" "j_get bs (ObjId_to_string (bd_id (br_bundles asg ! idx))) = Some y"
    by (auto simp: bind_eq_Some_conv)
  then show ?thesis
    using sz r Some t mm
    by (auto simp: updated_entry_def apply_bundle_fields_def parse_entry_def get_u64_def get_str_def ObjId_hex)
qed

lemma manifest_readback:
  assumes app: "apply_edx H roots asg content = Some (content', root)"
    and entry: "obind (j_get content ''files'') (\<lambda>f. j_get f p) = Some (JObj e)"
    and sz: "get_u64 (JObj e) ''size'' = Some sz" and r: "map_of roots p = Some r" "length (id_bytes r) = 32"
    and m: "\<And>idx off len. map_of (br_members asg) p = Some (idx, off, len) \<Longrightarrow>
      idx < length (br_bundles asg) \<and> off \<le> u64_max \<and> length (id_bytes (bd_id (br_bundles asg ! idx))) = 32"
  shows "edx_entry_of content' p =
    Some \<lparr>en_size = sz, en_b3 = r,
      en_bundle = map_option (\<lambda>(idx, off, len). \<lparr>ref_id = bd_id (br_bundles asg ! idx), ref_off = off\<rparr>)
        (map_of (br_members asg) p)\<rparr>"
proof -
  obtain obj where obj: "content = JObj obj" using app by (cases content) (auto simp: apply_edx_def)
  obtain obj1 me where f: "foldl (apply_section roots asg) (obj, []) [''files'', ''files_optional''] = (obj1, me)"
    by (metis surj_pair)
  note look = apply_section_lookup [OF entry [unfolded obj j_get.simps] f]
  have c': "content' = JObj (bt_insert ''edx'' (JInt (int EDX_VERSION))
      (bt_insert ''files_merkle_root'' (JStr (ObjId_to_string root))
        (if bundles_json asg = [] then bt_remove ''bundles'' obj1 else bt_insert ''bundles'' (JObj (bundles_json asg)) obj1)))"
    using app obj f by (auto simp: apply_edx_def Let_def)
  have "j_get content' ''files'' = map_of obj1 ''files''" by (simp add: c')
  then have e: "edx_entry_of content' p = parse_entry (updated_entry roots asg p (JObj e)) content'"
    using look by (simp add: edx_entry_of_def Let_def)
  have "obind (j_get content' ''bundles'') (\<lambda>bs. j_get bs (ObjId_to_string (bd_id b))) \<noteq> None"
    if "b \<in> set (br_bundles asg)" for b
    using bundles_json_declares [OF that] by (auto simp: c')
  then show ?thesis unfolding e by (intro parse_updated) (use sz r m in blast)+
qed

end
