(* ===== verification/Peer_Registry.thy ===== *)
theory Peer_Registry
  imports Peer_Addr Hash_Map Rust_Std "HOL-Library.Product_Lexorder"
begin

text \<open>
  The per-xite peer registry of \<^verbatim>\<open>epix-peer/src/lib.rs\<close>: the health record kept per peer, the dial backoff
  and probe cooldown, eviction, and the three selections (sync pass, data fetch, health prober).

  Times are \<open>i64\<close> unix seconds, kept as \<open>int\<close> with the wrap-around of a release build written out.
  \<open>txt\<close> is the address's text form (\<open>PeerAddr_to_string\<close> with its parameters fixed) and \<open>hash\<close> the
  \<open>DefaultHasher\<close> of that text and the attempt number, whose algorithm the standard library leaves
  unspecified.  \<open>via\<close> is the process-wide flag \<open>route_all_via_overlay()\<close>.
\<close>

section \<open>Networks, cooldowns and the peer record\<close>

record dialable_nets =
  clearnet :: bool
  onion :: bool
  i2p :: bool
  rns :: bool

definition all_nets :: dialable_nets where
  "all_nets = \<lparr>clearnet = True, onion = True, i2p = True, rns = True\<rparr>"

fun can_dial :: "dialable_nets \<Rightarrow> peer_addr \<Rightarrow> bool" where
  "can_dial nets (Ip _) = clearnet nets"
| "can_dial nets (Onion _ _) = onion nets"
| "can_dial nets (I2p _ _) = i2p nets"
| "can_dial nets (Rns _) = rns nets"

definition BENCHED_FANOUT :: nat where "BENCHED_FANOUT = 2"

definition DATA_HISTORY_SECS :: int where "DATA_HISTORY_SECS = 6 * 3600"

fun is_onion_addr :: "peer_addr \<Rightarrow> bool" where
  "is_onion_addr (Onion _ _) = True"
| "is_onion_addr _ = False"

definition cooldown_base :: "peer_addr \<Rightarrow> nat \<Rightarrow> int" where
  "cooldown_base a failures =
     (let (cap, max_shift) = (if is_onion_addr a then (7200, 8) else (600, 5));
          shift = min (failures - 1) max_shift
      in min (30 * 2 ^ shift) cap)"

definition probe_cooldown_secs ::
    "(peer_addr \<Rightarrow> string) \<Rightarrow> (string \<Rightarrow> nat \<Rightarrow> nat) \<Rightarrow> peer_addr \<Rightarrow> nat \<Rightarrow> int" where
  "probe_cooldown_secs txt hash a failures =
     (let base = cooldown_base a failures
      in base + int (hash (txt a) failures mod (nat base div 4 + 1)))"

record probe_candidate =
  c_addr :: peer_addr
  c_failures :: nat
  c_benched_secs :: int
  c_probe_after :: int

record peer =
  p_addr :: peer_addr
  reputation :: int
  time_found :: int
  time_response :: int
  time_data :: int
  connection_errors :: nat
  retry_after :: int
  probe_after :: int
  benched_since :: int
  probe_failures :: nat
  p_connected :: bool
  bytes_recv :: nat
  bytes_sent :: nat

definition DAY :: int where "DAY = 24 * 3600"

definition durability_bucket :: "int \<Rightarrow> peer \<Rightarrow> nat" where
  "durability_bucket now p =
     (if time_found p \<le> 0 then 0
      else let d = i64_saturating_sub now (time_found p)
           in if d \<ge> 30 * DAY then 3 else if d \<ge> 7 * DAY then 2 else if d \<ge> DAY then 1 else 0)"

definition soonest_due :: "peer list \<Rightarrow> peer list" where
  "soonest_due ps = take BENCHED_FANOUT (sort_key retry_after ps)"

definition peer_new :: "peer_addr \<Rightarrow> int \<Rightarrow> peer" where
  "peer_new a now = \<lparr>p_addr = a, reputation = 0, time_found = now, time_response = 0, time_data = 0,
     connection_errors = 0, retry_after = 0, probe_after = 0, benched_since = 0, probe_failures = 0,
     p_connected = False, bytes_recv = 0, bytes_sent = 0\<rparr>"

definition peer_key :: "(peer_addr \<Rightarrow> string) \<Rightarrow> peer \<Rightarrow> string" where
  "peer_key txt p = txt (p_addr p)"

definition note_connect_ok :: "int \<Rightarrow> peer \<Rightarrow> peer" where
  "note_connect_ok now p = p\<lparr>p_connected := True, time_response := now, connection_errors := 0,
     retry_after := 0, probe_after := 0, benched_since := 0, probe_failures := 0,
     reputation := i32_wrap (reputation p + 1)\<rparr>"

definition failure_streak :: "peer \<Rightarrow> nat" where
  "failure_streak p = u32_saturating_add (connection_errors p) (probe_failures p)"

text \<open>\<open>(15i64 << n.min(8)).min(3600)\<close>.\<close>

definition dial_backoff :: "nat \<Rightarrow> int" where
  "dial_backoff n = min (15 * 2 ^ min n 8) 3600"

definition note_connect_fail ::
    "(peer_addr \<Rightarrow> string) \<Rightarrow> (string \<Rightarrow> nat \<Rightarrow> nat) \<Rightarrow> int \<Rightarrow> peer \<Rightarrow> peer" where
  "note_connect_fail txt hash now p =
     (let p1 = p\<lparr>p_connected := False, connection_errors := u32_add (connection_errors p) 1,
                 reputation := i32_wrap (reputation p - 1)\<rparr>;
          p2 = p1\<lparr>retry_after := i64_wrap (now + dial_backoff (connection_errors p1))\<rparr>;
          p3 = (if benched_since p2 = 0 then p2\<lparr>benched_since := now\<rparr> else p2)
      in p3\<lparr>probe_after := i64_wrap (now + probe_cooldown_secs txt hash (p_addr p3) (failure_streak p3))\<rparr>)"

definition note_probe_ok ::
    "(peer_addr \<Rightarrow> string) \<Rightarrow> (string \<Rightarrow> nat \<Rightarrow> nat) \<Rightarrow> int \<Rightarrow> peer \<Rightarrow> peer" where
  "note_probe_ok txt hash now p = p\<lparr>retry_after := 0, probe_failures := 0,
     probe_after := i64_wrap (now + probe_cooldown_secs txt hash (p_addr p) (connection_errors p))\<rparr>"

definition note_probe_fail ::
    "(peer_addr \<Rightarrow> string) \<Rightarrow> (string \<Rightarrow> nat \<Rightarrow> nat) \<Rightarrow> int \<Rightarrow> peer \<Rightarrow> peer" where
  "note_probe_fail txt hash now p =
     (let p1 = p\<lparr>probe_failures := u32_saturating_add (probe_failures p) 1\<rparr>;
          streak = failure_streak p1;
          p2 = p1\<lparr>retry_after := i64_wrap (now + dial_backoff streak),
                 probe_after := i64_wrap (now + probe_cooldown_secs txt hash (p_addr p1) streak)\<rparr>
      in if benched_since p2 = 0 then p2\<lparr>benched_since := now\<rparr> else p2)"

definition note_file_ok :: "int \<Rightarrow> peer \<Rightarrow> peer" where
  "note_file_ok now p = p\<lparr>time_response := now, reputation := i32_wrap (reputation p + 1)\<rparr>"

definition note_data_served :: "int \<Rightarrow> peer \<Rightarrow> peer" where
  "note_data_served now p = p\<lparr>time_data := now\<rparr>"

definition has_recent_data :: "int \<Rightarrow> peer \<Rightarrow> bool" where
  "has_recent_data now p \<longleftrightarrow>
     time_data p \<noteq> 0 \<and> i64_saturating_sub now (time_data p) < DATA_HISTORY_SECS"

definition note_file_fail :: "peer \<Rightarrow> peer" where
  "note_file_fail p = p\<lparr>reputation := i32_wrap (reputation p - 1)\<rparr>"

definition is_onion :: "peer \<Rightarrow> bool" where
  "is_onion p = is_onion_addr (p_addr p)"

fun connectable_addr :: "peer_addr \<Rightarrow> bool" where
  "connectable_addr (Ip sa) \<longleftrightarrow> sa_port sa \<noteq> 0"
| "connectable_addr (Onion _ port) \<longleftrightarrow> port \<noteq> 0"
| "connectable_addr (I2p _ _) \<longleftrightarrow> True"
| "connectable_addr (Rns _) \<longleftrightarrow> True"

definition is_connectable :: "peer \<Rightarrow> bool" where
  "is_connectable p = connectable_addr (p_addr p)"

fun local_addr :: "peer_addr \<Rightarrow> bool" where
  "local_addr (Ip (V4 ip _)) \<longleftrightarrow> v4_private ip \<or> ip ! 0 = 127 \<or> (ip ! 0 = 169 \<and> ip ! 1 = 254)"
| "local_addr (Ip (V6 ip _ _ _)) \<longleftrightarrow> ip = replicate 15 0 @ [1]"
| "local_addr _ \<longleftrightarrow> False"

definition is_local :: "peer \<Rightarrow> bool" where
  "is_local p = local_addr (p_addr p)"

section \<open>The registry\<close>

type_synonym peers = "(string, peer) hash_map"

abbreviation peer_values :: "peers \<Rightarrow> peer list" where
  "peer_values m \<equiv> map snd m"

definition peers_restore :: "(peer_addr \<Rightarrow> string) \<Rightarrow> peer \<Rightarrow> peers \<Rightarrow> bool \<times> peers" where
  "peers_restore txt p m =
     (if hm_contains (peer_key txt p) m then (False, m) else (True, hm_insert (peer_key txt p) p m))"

definition peers_add :: "(peer_addr \<Rightarrow> string) \<Rightarrow> peer_addr \<Rightarrow> int \<Rightarrow> peers \<Rightarrow> bool \<times> peers" where
  "peers_add txt a now m = peers_restore txt (peer_new a now) m"

fun add_many :: "(peer_addr \<Rightarrow> string) \<Rightarrow> peer_addr list \<Rightarrow> int \<Rightarrow> peers \<Rightarrow> nat \<times> peers" where
  "add_many txt [] now m = (0, m)"
| "add_many txt (a # as) now m =
     (let (new, m1) = peers_add txt a now m; (n, m2) = add_many txt as now m1
      in (if new then n + 1 else n, m2))"

definition peers_get :: "(peer_addr \<Rightarrow> string) \<Rightarrow> peer_addr \<Rightarrow> peers \<Rightarrow> peer option" where
  "peers_get txt a m = map_of m (txt a)"

text \<open>\<open>get_mut\<close>, with the update the caller then performs on the entry.\<close>

definition peers_update :: "(peer_addr \<Rightarrow> string) \<Rightarrow> peer_addr \<Rightarrow> (peer \<Rightarrow> peer) \<Rightarrow> peers \<Rightarrow> peers" where
  "peers_update txt a f m =
     (case map_of m (txt a) of None \<Rightarrow> m | Some p \<Rightarrow> hm_insert (txt a) (f p) m)"

definition mark_connected :: "int \<Rightarrow> peer \<Rightarrow> peer" where
  "mark_connected now p = p\<lparr>p_connected := True, time_response := now, connection_errors := 0\<rparr>"

definition set_connected ::
    "(peer_addr \<Rightarrow> string) \<Rightarrow> peer_addr \<Rightarrow> bool \<Rightarrow> int \<Rightarrow> peers \<Rightarrow> peers" where
  "set_connected txt a connected now m = peers_update txt a
     (\<lambda>p. if connected then mark_connected now p else p\<lparr>p_connected := False\<rparr>) m"

definition sync_connected :: "(peer_addr \<Rightarrow> string) \<Rightarrow> string set \<Rightarrow> int \<Rightarrow> peers \<Rightarrow> peers" where
  "sync_connected txt live now m = map (\<lambda>(k, p).
     (k, if txt (p_addr p) \<in> live then mark_connected now p else p\<lparr>p_connected := False\<rparr>)) m"

definition peers_retain :: "(peer \<Rightarrow> bool) \<Rightarrow> peers \<Rightarrow> nat \<times> peers" where
  "peers_retain keep m = (let m' = filter (\<lambda>e. keep (snd e)) m in (length m - length m', m'))"

definition MAX_ERRORS :: nat where "MAX_ERRORS = 6"
definition RESPONSE_GRACE_SECS :: int where "RESPONSE_GRACE_SECS = 4 * 3600"

definition keeps_alive :: "int \<Rightarrow> peer \<Rightarrow> bool" where
  "keeps_alive now p \<longleftrightarrow>
     (if p_connected p \<or> connection_errors p < MAX_ERRORS then True
      else time_response p \<noteq> 0 \<and> i64_wrap (now - time_response p) < RESPONSE_GRACE_SECS)"

definition evict_dead :: "int \<Rightarrow> peers \<Rightarrow> nat \<times> peers" where
  "evict_dead now m = peers_retain (keeps_alive now) m"

definition record_transfer ::
    "(peer_addr \<Rightarrow> string) \<Rightarrow> peer_addr \<Rightarrow> nat \<Rightarrow> nat \<Rightarrow> peers \<Rightarrow> peers" where
  "record_transfer txt a recv sent m = peers_update txt a
     (\<lambda>p. p\<lparr>bytes_recv := u64_add (bytes_recv p) recv, bytes_sent := u64_add (bytes_sent p) sent\<rparr>) m"

definition connectable :: "nat \<Rightarrow> peers \<Rightarrow> peer_addr list" where
  "connectable limit m = map p_addr (take limit
     (sort_key (\<lambda>p. - reputation p) (filter is_connectable (peer_values m))))"

section \<open>Selection\<close>

definition is_due :: "dialable_nets \<Rightarrow> int \<Rightarrow> peer \<Rightarrow> bool" where
  "is_due nets now p \<longleftrightarrow> can_dial nets (p_addr p) \<and> retry_after p \<le> now"

definition dial_pool :: "dialable_nets \<Rightarrow> int \<Rightarrow> peers \<Rightarrow> peer list" where
  "dial_pool nets now m =
     (let connectable = filter is_connectable (peer_values m);
          due = filter (is_due nets now) connectable;
          benched = (if due = [] then soonest_due (filter (\<lambda>p. can_dial nets (p_addr p)) connectable) else due)
      in if benched = [] then soonest_due connectable else benched)"

definition net_rank :: "bool \<Rightarrow> peer \<Rightarrow> nat" where
  "net_rank via p = (if is_overlay (p_addr p) = via then 0 else 1)"

definition data_rank :: "bool \<Rightarrow> int \<Rightarrow> peer \<Rightarrow> nat" where
  "data_rank prefer_data now p = (if prefer_data \<and> has_recent_data now p then 0 else 1)"

definition dial_key :: "bool \<Rightarrow> bool \<Rightarrow> int \<Rightarrow> peer \<Rightarrow> nat \<times> int \<times> nat \<times> nat \<times> int \<times> int" where
  "dial_key via prefer_data now p =
     (data_rank prefer_data now p, - reputation p, net_rank via p, connection_errors p,
      - int (durability_bucket now p), - time_response p)"

definition dial_ranking :: "bool \<Rightarrow> bool \<Rightarrow> dialable_nets \<Rightarrow> int \<Rightarrow> peers \<Rightarrow> peer list" where
  "dial_ranking via prefer_data nets now m =
     sort_key (dial_key via prefer_data now) (dial_pool nets now m)"

text \<open>
  The exploit part is \<open>take keep\<close>, the explore part a window that advances with the minutes.  The
  remainder by \<open>rest.len()\<close> panics on an empty rest, the value \<open>None\<close>.
\<close>

definition explore :: "nat \<Rightarrow> int \<Rightarrow> peer list \<Rightarrow> peer list" where
  "explore window now rest =
     (let offset = u64_mul (nat (max now 0) div 60) window mod length rest
      in map (\<lambda>i. rest ! ((offset + i) mod length rest)) [0..<window])"

definition select_dialable ::
    "bool \<Rightarrow> nat \<Rightarrow> dialable_nets \<Rightarrow> int \<Rightarrow> bool \<Rightarrow> peers \<Rightarrow> peer_addr list option" where
  "select_dialable via limit nets now prefer_data m =
     (let peers = dial_ranking via prefer_data nets now m in
      if length peers \<le> limit then Some (map p_addr peers)
      else let keep = max (limit div 2) 1;
               rest = drop keep peers;
               window = max (min (usize_sub limit keep) (length rest)) 1
           in if rest = [] then None
              else Some (map p_addr (take keep peers @ explore window now rest)))"

definition connectable_dialable :: "bool \<Rightarrow> nat \<Rightarrow> dialable_nets \<Rightarrow> int \<Rightarrow> peers \<Rightarrow> peer_addr list option" where
  "connectable_dialable via limit nets now m = select_dialable via limit nets now False m"

definition connectable_for_data :: "bool \<Rightarrow> nat \<Rightarrow> dialable_nets \<Rightarrow> int \<Rightarrow> peers \<Rightarrow> peer_addr list option" where
  "connectable_for_data via limit nets now m = select_dialable via limit nets now True m"

definition probe_due :: "dialable_nets \<Rightarrow> int \<Rightarrow> peer \<Rightarrow> bool" where
  "probe_due nets now p \<longleftrightarrow>
     \<not> p_connected p \<and> connection_errors p > 0 \<and> is_connectable p \<and> can_dial nets (p_addr p) \<and>
     probe_after p \<le> now"

definition candidate_of :: "int \<Rightarrow> peer \<Rightarrow> probe_candidate" where
  "candidate_of now p = \<lparr>c_addr = p_addr p, c_failures = failure_streak p,
     c_benched_secs = max (i64_wrap (now - benched_since p)) 0, c_probe_after = probe_after p\<rparr>"

definition peers_probe_candidates :: "dialable_nets \<Rightarrow> int \<Rightarrow> nat \<Rightarrow> peers \<Rightarrow> probe_candidate list" where
  "peers_probe_candidates nets now limit m =
     map (candidate_of now) (take limit (sort_key probe_after (filter (probe_due nets now) (peer_values m))))"

record peer_counts =
  pc_total :: nat
  pc_connected :: nat
  pc_connectable :: nat
  pc_onion :: nat
  pc_local :: nat

definition count_peer :: "peer \<Rightarrow> peer_counts \<Rightarrow> peer_counts" where
  "count_peer p c = \<lparr>pc_total = pc_total c,
     pc_connected = pc_connected c + (if p_connected p then 1 else 0),
     pc_connectable = pc_connectable c + (if is_connectable p then 1 else 0),
     pc_onion = pc_onion c + (if is_onion p then 1 else 0),
     pc_local = pc_local c + (if is_local p then 1 else 0)\<rparr>"

definition peers_counts :: "peers \<Rightarrow> peer_counts" where
  "peers_counts m = fold count_peer (peer_values m)
     \<lparr>pc_total = length m, pc_connected = 0, pc_connectable = 0, pc_onion = 0, pc_local = 0\<rparr>"

section \<open>Backoff and cooldown\<close>

definition time_ok :: "int \<Rightarrow> bool" where
  "time_ok now \<longleftrightarrow> 0 < now \<and> now < 2 ^ 62"

definition max_cooldown :: "peer_addr \<Rightarrow> int" where
  "max_cooldown a = (if is_onion_addr a then 9000 else 750)"

lemma dial_backoff_bounds: "15 \<le> dial_backoff n" "dial_backoff n \<le> 3600"
  by (simp_all add: dial_backoff_def)

lemma dial_backoff_mono: "m \<le> n \<Longrightarrow> dial_backoff m \<le> dial_backoff n"
  unfolding dial_backoff_def by (intro min.mono mult_left_mono power_increasing) auto

lemma cooldown_base_mono: "m \<le> n \<Longrightarrow> cooldown_base a m \<le> cooldown_base a n"
  unfolding cooldown_base_def Let_def case_prod_beta by (intro min.mono mult_left_mono power_increasing) auto

lemma cooldown_base_bounds:
  "30 \<le> cooldown_base a n" "cooldown_base a n \<le> (if is_onion_addr a then 7200 else 600)"
  by (simp_all add: cooldown_base_def)

lemma probe_cooldown_bounds:
  "30 \<le> probe_cooldown_secs txt hash a n" "probe_cooldown_secs txt hash a n \<le> max_cooldown a"
proof -
  let ?b = "cooldown_base a n"
  let ?j = "hash (txt a) n mod (nat ?b div 4 + 1)"
  have e: "probe_cooldown_secs txt hash a n = ?b + int ?j"
    by (simp add: probe_cooldown_secs_def Let_def)
  show "30 \<le> probe_cooldown_secs txt hash a n"
    using cooldown_base_bounds(1) [of a n] by (simp only: e)
  have "?j < nat ?b div 4 + 1" by (rule mod_less_divisor) simp
  then have "?j \<le> nat ?b div 4" by simp
  then have "4 * int ?j \<le> ?b" using cooldown_base_bounds(1) [of a n] by linarith
  then show "probe_cooldown_secs txt hash a n \<le> max_cooldown a"
    using cooldown_base_bounds(2) [of a n] unfolding e max_cooldown_def by (simp split: if_splits)
qed

lemma i64_wrap_time: "time_ok now \<Longrightarrow> 0 \<le> d \<Longrightarrow> d \<le> 9000 \<Longrightarrow> i64_wrap (now + d) = now + d"
  by (rule i64_wrap_id) (simp_all add: time_ok_def)

lemma wrap_backoff [simp]: "time_ok now \<Longrightarrow> i64_wrap (now + dial_backoff n) = now + dial_backoff n"
  using dial_backoff_bounds [of n] by (intro i64_wrap_time) auto

lemma wrap_cooldown [simp]:
  "time_ok now \<Longrightarrow>
     i64_wrap (now + probe_cooldown_secs txt hash a n) = now + probe_cooldown_secs txt hash a n"
  using probe_cooldown_bounds [of "txt" hash a n]
  by (intro i64_wrap_time) (auto simp: max_cooldown_def split: if_splits)

lemmas peer_notes = note_connect_ok_def note_connect_fail_def note_probe_ok_def note_probe_fail_def
  note_file_ok_def note_file_fail_def note_data_served_def

lemma note_addr [simp]:
  "p_addr (note_connect_ok now p) = p_addr p" "p_addr (note_connect_fail txt hash now p) = p_addr p"
  "p_addr (note_probe_ok txt hash now p) = p_addr p" "p_addr (note_probe_fail txt hash now p) = p_addr p"
  "p_addr (note_file_ok now p) = p_addr p" "p_addr (note_file_fail p) = p_addr p"
  "p_addr (note_data_served now p) = p_addr p"
  by (simp_all add: peer_notes Let_def)

lemma note_probe_keeps [simp]:
  "connection_errors (note_probe_ok txt hash now p) = connection_errors p"
  "connection_errors (note_probe_fail txt hash now p) = connection_errors p"
  "p_connected (note_probe_ok txt hash now p) = p_connected p"
  "p_connected (note_probe_fail txt hash now p) = p_connected p"
  "reputation (note_probe_ok txt hash now p) = reputation p"
  "reputation (note_probe_fail txt hash now p) = reputation p"
  by (simp_all add: peer_notes Let_def)

lemma note_probe_stamps:
  assumes "time_ok now"
  shows "now + 30 \<le> probe_after (note_probe_ok txt hash now p)"
    and "now + 30 \<le> probe_after (note_probe_fail txt hash now p)"
    and "probe_after (note_probe_ok txt hash now p) \<le> now + max_cooldown (p_addr p)"
    and "probe_after (note_probe_fail txt hash now p) \<le> now + max_cooldown (p_addr p)"
  using assms probe_cooldown_bounds by (simp_all add: peer_notes Let_def)

lemma peer_backoff_facts:
  assumes now: "time_ok now" and errs: "connection_errors p < 2 ^ 32 - 1"
  shows "retry_after (note_connect_fail txt hash now p) = now + dial_backoff (connection_errors p + 1)"
    and "now < retry_after (note_connect_fail txt hash now p)"
    and "retry_after (note_connect_fail txt hash now p) \<le> now + 3600"
    and "dial_backoff (connection_errors p) \<le> dial_backoff (connection_errors p + 1)"
    and "now + 30 \<le> probe_after (note_connect_fail txt hash now p)"
    and "probe_after (note_connect_fail txt hash now p) \<le> now + max_cooldown (p_addr p)"
    and "benched_since (note_connect_fail txt hash now p) \<noteq> 0"
    and "now < retry_after (note_probe_fail txt hash now p)"
    and "retry_after (note_probe_fail txt hash now p) \<le> now + 3600"
    and "now + 30 \<le> probe_after (note_probe_fail txt hash now p)"
    and "probe_after (note_probe_fail txt hash now p) \<le> now + max_cooldown (p_addr p)"
    and "connection_errors (note_probe_fail txt hash now p) = connection_errors p"
    and "reputation (note_probe_fail txt hash now p) = reputation p"
    and "retry_after (note_probe_ok txt hash now p) \<le> now"
    and "now + 30 \<le> probe_after (note_probe_ok txt hash now p)"
    and "connection_errors (note_probe_ok txt hash now p) = connection_errors p"
    and "reputation (note_probe_ok txt hash now p) = reputation p"
    and "retry_after (note_connect_ok now p) \<le> now \<and> failure_streak (note_connect_ok now p) = 0"
proof -
  have "u32_add (connection_errors p) 1 = connection_errors p + 1"
    using errs by (simp add: u32_add_def)
  then have f: "retry_after (note_connect_fail txt hash now p) = now + dial_backoff (connection_errors p + 1)"
    using now by (simp add: note_connect_fail_def Let_def)
  note b = dial_backoff_bounds [of "connection_errors p + 1"]
  show "retry_after (note_connect_fail txt hash now p) = now + dial_backoff (connection_errors p + 1)"
    by (rule f)
  show "now < retry_after (note_connect_fail txt hash now p)"
    "retry_after (note_connect_fail txt hash now p) \<le> now + 3600"
    using f b by auto
  show "dial_backoff (connection_errors p) \<le> dial_backoff (connection_errors p + 1)"
    by (rule dial_backoff_mono) simp
  show "now + 30 \<le> probe_after (note_connect_fail txt hash now p)"
    "probe_after (note_connect_fail txt hash now p) \<le> now + max_cooldown (p_addr p)"
    using now probe_cooldown_bounds by (simp_all add: note_connect_fail_def Let_def)
  show "benched_since (note_connect_fail txt hash now p) \<noteq> 0"
    using now by (simp add: note_connect_fail_def Let_def time_ok_def)
  show "now < retry_after (note_probe_fail txt hash now p)"
    "retry_after (note_probe_fail txt hash now p) \<le> now + 3600"
    using now dial_backoff_bounds [of "failure_streak (p\<lparr>probe_failures := u32_saturating_add (probe_failures p) 1\<rparr>)"]
    by (auto simp: note_probe_fail_def Let_def)
  show "retry_after (note_probe_ok txt hash now p) \<le> now"
    using now by (simp add: note_probe_ok_def time_ok_def)
  show "retry_after (note_connect_ok now p) \<le> now \<and> failure_streak (note_connect_ok now p) = 0"
    using now by (simp add: note_connect_ok_def time_ok_def failure_streak_def u32_saturating_add_def)
qed (use note_probe_stamps [OF now] in simp_all)

text \<open>
  What every recorded outcome does to a peer's schedule.  A failed dial benches the peer for
  exactly \<open>min(3600, 15 * 2^min(errors, 8))\<close> seconds, which never shrinks along a failure streak, and
  arms the prober between 30 seconds and 750 (onion: 9000) seconds ahead.  A failed probe re-arms both
  clocks within the same bounds and an answered probe lifts the dial backoff; neither touches the dial
  streak or the reputation.  A successful dial clears the whole streak, so the peer is due at once.
\<close>

theorem peer_backoff:
  assumes "time_ok now" "connection_errors p < 2 ^ 32 - 1"
  shows "retry_after (note_connect_fail txt hash now p) = now + dial_backoff (connection_errors p + 1) \<and>
    now < retry_after (note_connect_fail txt hash now p) \<and>
    retry_after (note_connect_fail txt hash now p) \<le> now + 3600 \<and>
    dial_backoff (connection_errors p) \<le> dial_backoff (connection_errors p + 1) \<and>
    now + 30 \<le> probe_after (note_connect_fail txt hash now p) \<and>
    probe_after (note_connect_fail txt hash now p) \<le> now + max_cooldown (p_addr p) \<and>
    benched_since (note_connect_fail txt hash now p) \<noteq> 0 \<and>
    now < retry_after (note_probe_fail txt hash now p) \<and>
    retry_after (note_probe_fail txt hash now p) \<le> now + 3600 \<and>
    now + 30 \<le> probe_after (note_probe_fail txt hash now p) \<and>
    probe_after (note_probe_fail txt hash now p) \<le> now + max_cooldown (p_addr p) \<and>
    connection_errors (note_probe_fail txt hash now p) = connection_errors p \<and>
    reputation (note_probe_fail txt hash now p) = reputation p \<and>
    retry_after (note_probe_ok txt hash now p) \<le> now \<and>
    now + 30 \<le> probe_after (note_probe_ok txt hash now p) \<and>
    connection_errors (note_probe_ok txt hash now p) = connection_errors p \<and>
    reputation (note_probe_ok txt hash now p) = reputation p \<and>
    retry_after (note_connect_ok now p) \<le> now \<and> failure_streak (note_connect_ok now p) = 0"
  by (intro conjI peer_backoff_facts [OF assms] peer_backoff_facts(18) [OF assms, THEN conjunct1]
      peer_backoff_facts(18) [OF assms, THEN conjunct2])

definition ex_peer :: peer where
  "ex_peer = peer_new (Onion ''abcdef'' 80) 1700000000"

theorem peer_backoff_witness:
  "retry_after (note_connect_fail (PeerAddr_to_string (\<lambda>_. []) (\<lambda>_. [])) (\<lambda>s n. length s + n) 1700000600 ex_peer)
     = 1700000630"
  using peer_backoff [of 1700000600 ex_peer "PeerAddr_to_string (\<lambda>_. []) (\<lambda>_. [])" "\<lambda>s n. length s + n"]
  by (simp add: time_ok_def ex_peer_def peer_new_def dial_backoff_def)

section \<open>The registry invariant\<close>

definition peers_ok :: "(peer_addr \<Rightarrow> string) \<Rightarrow> peers \<Rightarrow> bool" where
  "peers_ok txt m \<longleftrightarrow> hm_inv m \<and> (\<forall>(k, p) \<in> set m. k = txt (p_addr p))"

lemma peers_ok_empty: "peers_ok txt []"
  by (simp add: peers_ok_def)

lemma peers_ok_filter: "peers_ok txt m \<Longrightarrow> peers_ok txt (filter P m)"
  by (auto simp: peers_ok_def)

lemma peers_ok_insert: "peers_ok txt m \<Longrightarrow> txt (p_addr p) = k \<Longrightarrow> peers_ok txt (hm_insert k p m)"
  by (auto simp: peers_ok_def set_hm_insert)

lemma peers_ok_update:
  "peers_ok txt m \<Longrightarrow> (\<And>p. p_addr (f p) = p_addr p) \<Longrightarrow> peers_ok txt (peers_update txt a f m)"
  unfolding peers_update_def
  by (auto simp: peers_ok_def set_hm_insert dest: map_of_SomeD split: option.splits)

lemma peers_ok_restore: "peers_ok txt m \<Longrightarrow> peers_ok txt (snd (peers_restore txt p m))"
  by (simp add: peers_restore_def peer_key_def peers_ok_insert)

lemma peers_ok_sync: "peers_ok txt m \<Longrightarrow> peers_ok txt (sync_connected txt live now m)"
  by (auto simp: peers_ok_def hm_inv_def sync_connected_def mark_connected_def comp_def case_prod_beta)

lemma peers_ok_add_many: "peers_ok txt m \<Longrightarrow> peers_ok txt (snd (add_many txt as now m))"
  by (induction as arbitrary: m)
    (auto simp: Let_def case_prod_beta peers_add_def peers_ok_restore)

lemma peers_ok_distinct: "peers_ok txt m \<Longrightarrow> distinct (map p_addr (peer_values m))"
proof -
  assume ok: "peers_ok txt m"
  then have "map fst m = map txt (map p_addr (peer_values m))"
    by (auto simp: peers_ok_def)
  then show ?thesis using ok by (metis distinct_map hm_inv_def peers_ok_def)
qed

section \<open>Selection\<close>

lemma set_soonest_due: "set (soonest_due ps) \<subseteq> set ps"
  unfolding soonest_due_def using set_take_sort_key by fastforce

lemma soonest_due_length: "length (soonest_due ps) \<le> BENCHED_FANOUT"
  by (simp add: soonest_due_def)

lemma soonest_due_Nil [simp]: "soonest_due ps = [] \<longleftrightarrow> ps = []"
  unfolding soonest_due_def by (metis BENCHED_FANOUT_def length_0_conv length_sort take_eq_Nil zero_neq_numeral)

lemma distinct_soonest_due: "distinct (map f ps) \<Longrightarrow> distinct (map f (soonest_due ps))"
  unfolding soonest_due_def
  by (metis distinct_map distinct_sort distinct_take set_sort set_take_subset inj_on_subset)

lemma dial_pool_subset:
  "p \<in> set (dial_pool nets now m) \<Longrightarrow> p \<in> set (peer_values m) \<and> is_connectable p"
  unfolding dial_pool_def Let_def by (auto split: if_splits dest!: set_soonest_due [THEN subsetD])

lemma dial_pool_due:
  "\<exists>p \<in> set (peer_values m). is_connectable p \<and> is_due nets now p \<Longrightarrow>
     dial_pool nets now m = filter (is_due nets now) (filter is_connectable (peer_values m))"
  unfolding dial_pool_def Let_def by (auto simp: filter_empty_conv)

lemma dial_pool_benched:
  "\<not> (\<exists>p \<in> set (peer_values m). is_connectable p \<and> is_due nets now p) \<Longrightarrow>
     length (dial_pool nets now m) \<le> BENCHED_FANOUT"
  unfolding dial_pool_def Let_def using soonest_due_length by (auto simp: filter_empty_conv)

lemma dial_pool_dialable:
  "\<exists>p \<in> set (peer_values m). is_connectable p \<and> can_dial nets (p_addr p) \<Longrightarrow>
     p \<in> set (dial_pool nets now m) \<Longrightarrow> can_dial nets (p_addr p)"
  unfolding dial_pool_def Let_def
  by (auto simp: filter_empty_conv is_due_def split: if_splits dest!: set_soonest_due [THEN subsetD])

lemma dial_pool_Nil:
  "dial_pool nets now m = [] \<longleftrightarrow> \<not> (\<exists>p \<in> set (peer_values m). is_connectable p)"
  unfolding dial_pool_def Let_def by (auto simp: filter_empty_conv)

lemma dial_pool_distinct:
  assumes "distinct (map p_addr (peer_values m))"
  shows "distinct (map p_addr (dial_pool nets now m))"
  unfolding dial_pool_def Let_def
  using assms by (auto intro!: distinct_soonest_due distinct_map_filter)

lemma dial_ranking_set [simp]: "set (dial_ranking via d nets now m) = set (dial_pool nets now m)"
  by (simp add: dial_ranking_def)

lemma dial_ranking_length [simp]: "length (dial_ranking via d nets now m) = length (dial_pool nets now m)"
  by (simp add: dial_ranking_def)

lemma dial_ranking_distinct:
  "distinct (map p_addr (peer_values m)) \<Longrightarrow> distinct (map p_addr (dial_ranking via d nets now m))"
  using dial_pool_distinct [of m nets now] by (simp add: dial_ranking_def distinct_map)

lemma explore_set: "rest \<noteq> [] \<Longrightarrow> set (explore w now rest) \<subseteq> set rest"
  unfolding explore_def Let_def by auto

lemma explore_length [simp]: "length (explore w now rest) = w"
  by (simp add: explore_def Let_def)

lemma window_inj: "w \<le> n \<Longrightarrow> inj_on (\<lambda>i. (off + i) mod n) {0..<w}" for n :: nat
proof (rule inj_onI)
  fix x y assume w: "w \<le> n" and "x \<in> {0..<w}" "y \<in> {0..<w}" and e: "(off + x) mod n = (off + y) mod n"
  then have "x < n" "y < n" by auto
  moreover obtain q r where "off + x + n * q = off + y + n * r"
    using e nat_mod_eq_iff [of "off + x" n "off + y"] by auto
  then have "x + n * q = y + n * r" by simp
  then have "x mod n = y mod n" by (metis mod_mult_self2)
  ultimately show "x = y" by simp
qed

lemma explore_distinct:
  assumes "distinct (map f rest)" "w \<le> length rest" "rest \<noteq> []"
  shows "distinct (map f (explore w now rest))"
proof -
  let ?off = "u64_mul (nat (max now 0) div 60) w mod length rest"
  have "distinct (map (\<lambda>i. map f rest ! ((?off + i) mod length rest)) [0..<w])"
    unfolding distinct_map
  proof (intro conjI inj_onI)
    fix x y assume xy: "x \<in> set [0..<w]" "y \<in> set [0..<w]"
      and e: "map f rest ! ((?off + x) mod length rest) = map f rest ! ((?off + y) mod length rest)"
    have "(?off + x) mod length rest = (?off + y) mod length rest"
      using e assms(1,3) by (subst (asm) nth_eq_iff_index_eq) auto
    then show "x = y" using window_inj [OF assms(2), of ?off] xy by (auto dest: inj_onD)
  qed simp
  moreover have "map f rest ! ((?off + i) mod length rest) = f (rest ! ((?off + i) mod length rest))" for i
    using assms(3) by (intro nth_map mod_less_divisor) simp
  ultimately show ?thesis by (simp add: explore_def Let_def comp_def)
qed

definition keep_of :: "nat \<Rightarrow> nat" where
  "keep_of limit = max (limit div 2) 1"

definition window_of :: "nat \<Rightarrow> nat" where
  "window_of limit = max (limit - keep_of limit) 1"

lemma keep_of_bounds: "0 < limit \<Longrightarrow> 0 < keep_of limit \<and> keep_of limit \<le> limit"
  by (auto simp: keep_of_def)

lemma keep_window: "2 \<le> limit \<Longrightarrow> keep_of limit + window_of limit = limit"
  by (auto simp: keep_of_def window_of_def)

lemma select_long:
  fixes via d nets now m
  defines "ps \<equiv> dial_ranking via d nets now m"
  assumes "0 < limit" "limit < 2 ^ 64" "limit < length ps"
  shows "select_dialable via limit nets now d m =
      Some (map p_addr (take (keep_of limit) ps @ explore (window_of limit) now (drop (keep_of limit) ps)))"
    and "window_of limit \<le> length (drop (keep_of limit) ps)" "drop (keep_of limit) ps \<noteq> []"
proof -
  have k: "keep_of limit \<le> limit" using assms(2) keep_of_bounds by blast
  show ne: "drop (keep_of limit) ps \<noteq> []" using k assms(4) by simp
  show "window_of limit \<le> length (drop (keep_of limit) ps)"
    using k assms(4) by (auto simp: window_of_def)
  have "min (usize_sub limit (keep_of limit)) (length (drop (keep_of limit) ps)) = limit - keep_of limit"
    using k assms(3,4) by (simp add: usize_sub_eq)
  then have "max (min (usize_sub limit (keep_of limit)) (length (drop (keep_of limit) ps))) 1 = window_of limit"
    by (simp only: window_of_def)
  then show "select_dialable via limit nets now d m =
      Some (map p_addr (take (keep_of limit) ps @ explore (window_of limit) now (drop (keep_of limit) ps)))"
    using assms(4) ne
    by (simp add: select_dialable_def Let_def ps_def [symmetric] keep_of_def [symmetric] del: One_nat_def)
qed

lemma select_short:
  "length (dial_ranking via d nets now m) \<le> limit \<Longrightarrow>
     select_dialable via limit nets now d m = Some (map p_addr (dial_ranking via d nets now m))"
  by (simp add: select_dialable_def Let_def)

lemma select_members:
  assumes "0 < limit" "limit < 2 ^ 64"
  obtains ps where "select_dialable via limit nets now d m = Some (map p_addr ps)"
    "set ps \<subseteq> set (dial_pool nets now m)"
    "take (keep_of limit) ps = take (keep_of limit) (dial_ranking via d nets now m)"
    "length ps = (if length (dial_pool nets now m) \<le> limit then length (dial_pool nets now m)
                  else keep_of limit + window_of limit)"
    "peers_ok txt m \<Longrightarrow> distinct (map p_addr ps)"
proof (cases "length (dial_ranking via d nets now m) \<le> limit")
  case True
  then show ?thesis
    using that [OF select_short [OF True]] dial_ranking_distinct peers_ok_distinct by auto
next
  case False
  let ?ps = "dial_ranking via d nets now m"
  let ?k = "keep_of limit" and ?w = "window_of limit"
  note sel = select_long [OF assms, of via d nets now m]
  have lt: "limit < length ?ps" using False by simp
  have "set (explore ?w now (drop ?k ?ps)) \<subseteq> set (drop ?k ?ps)" by (rule explore_set [OF sel(3) [OF lt]])
  then have sub: "set (take ?k ?ps @ explore ?w now (drop ?k ?ps)) \<subseteq> set (dial_pool nets now m)"
    by (metis Un_subset_iff dial_ranking_set order_trans set_append set_drop_subset set_take_subset)
  have kl: "?k \<le> length ?ps" using keep_of_bounds assms(1) lt by (meson less_imp_le order_trans)
  show ?thesis
  proof (rule that [OF sel(1) [OF lt] sub])
    assume "peers_ok txt m"
    then have d: "distinct (map p_addr ?ps)" by (rule dial_ranking_distinct [OF peers_ok_distinct])
    then have sp: "distinct (map p_addr (take ?k ?ps @ drop ?k ?ps))" by simp
    then have e: "distinct (map p_addr (explore ?w now (drop ?k ?ps)))"
      by (intro explore_distinct sel(2) [OF lt] sel(3) [OF lt]) (metis distinct_append map_append)
    show "distinct (map p_addr (take ?k ?ps @ explore ?w now (drop ?k ?ps)))"
      using sp e explore_set [OF sel(3) [OF lt], of ?w now] unfolding map_append distinct_append set_map by blast
  qed (use kl lt in auto)
qed

lemma selection_facts:
  assumes ok: "peers_ok txt m" and lim: "2 \<le> limit" "limit < 2 ^ 64"
  obtains as where "select_dialable via limit nets now prefer m = Some as"
    and "distinct as" "length as = min limit (length (dial_pool nets now m))"
    and "\<forall>a \<in> set as. \<exists>p \<in> set (peer_values m). p_addr p = a \<and> is_connectable p"
    and "as = [] \<longleftrightarrow> \<not> (\<exists>p \<in> set (peer_values m). is_connectable p)"
    and "\<exists>p \<in> set (peer_values m). is_connectable p \<and> is_due nets now p \<Longrightarrow>
           \<forall>a \<in> set as. \<exists>p \<in> set (peer_values m). p_addr p = a \<and> is_due nets now p"
    and "\<not> (\<exists>p \<in> set (peer_values m). is_connectable p \<and> is_due nets now p) \<Longrightarrow> length as \<le> 2"
    and "\<exists>p \<in> set (peer_values m). is_connectable p \<and> can_dial nets (p_addr p) \<Longrightarrow>
           \<forall>a \<in> set as. can_dial nets a"
proof -
  have pos: "0 < limit" using lim by simp
  obtain ps where sel: "select_dialable via limit nets now prefer m = Some (map p_addr ps)"
      and sub: "set ps \<subseteq> set (dial_pool nets now m)"
      and len: "length ps = (if length (dial_pool nets now m) \<le> limit then length (dial_pool nets now m)
                  else keep_of limit + window_of limit)"
      and dist: "distinct (map p_addr ps)"
    using select_members [OF pos lim(2), where m = m] ok by metis
  have l: "length ps = min limit (length (dial_pool nets now m))"
    using len keep_window [OF lim(1)] by simp
  show ?thesis
  proof (rule that [OF sel dist])
    show "length (map p_addr ps) = min limit (length (dial_pool nets now m))" using l by simp
    show "\<forall>a \<in> set (map p_addr ps). \<exists>p \<in> set (peer_values m). p_addr p = a \<and> is_connectable p"
      using sub dial_pool_subset by fastforce
    have "ps = [] \<longleftrightarrow> dial_pool nets now m = []" using l pos by (metis length_0_conv min_0R min_def neq0_conv)
    then show "map p_addr ps = [] \<longleftrightarrow> \<not> (\<exists>p \<in> set (peer_values m). is_connectable p)"
      by (simp only: dial_pool_Nil map_is_Nil_conv)
  next
    assume "\<exists>p \<in> set (peer_values m). is_connectable p \<and> is_due nets now p"
    note pool = dial_pool_due [OF this]
    have "p \<in> set (peer_values m) \<and> is_due nets now p" if "p \<in> set ps" for p
      using sub that unfolding pool by auto
    then show "\<forall>a \<in> set (map p_addr ps). \<exists>p \<in> set (peer_values m). p_addr p = a \<and> is_due nets now p"
      by auto
  next
    assume "\<not> (\<exists>p \<in> set (peer_values m). is_connectable p \<and> is_due nets now p)"
    from dial_pool_benched [OF this] show "length (map p_addr ps) \<le> 2"
      using l by (simp add: BENCHED_FANOUT_def)
  next
    assume "\<exists>p \<in> set (peer_values m). is_connectable p \<and> can_dial nets (p_addr p)"
    from dial_pool_dialable [OF this] show "\<forall>a \<in> set (map p_addr ps). can_dial nets a"
      using sub by auto
  qed
qed

text \<open>
  Peer selection for a sync or fetch pass.  The addresses handed to the worker are distinct
  addresses of connectable registered peers; whenever a connectable peer is registered the list is not
  empty.  While some connectable peer is dialable and out of backoff, only such peers are returned; when
  none is, at most two benched peers are, and dialable ones if there are any.  A limit of two or more is
  never exceeded and is filled when enough candidates exist.
\<close>

theorem selection_sound:
  assumes "peers_ok txt m" "2 \<le> limit" "limit < 2 ^ 64"
  shows "\<exists>as. select_dialable via limit nets now prefer m = Some as \<and> distinct as \<and>
    length as = min limit (length (dial_pool nets now m)) \<and>
    (\<forall>a \<in> set as. \<exists>p \<in> set (peer_values m). p_addr p = a \<and> is_connectable p) \<and>
    (as = [] \<longleftrightarrow> \<not> (\<exists>p \<in> set (peer_values m). is_connectable p)) \<and>
    ((\<exists>p \<in> set (peer_values m). is_connectable p \<and> is_due nets now p) \<longrightarrow>
       (\<forall>a \<in> set as. \<exists>p \<in> set (peer_values m). p_addr p = a \<and> is_due nets now p)) \<and>
    (\<not> (\<exists>p \<in> set (peer_values m). is_connectable p \<and> is_due nets now p) \<longrightarrow> length as \<le> 2) \<and>
    ((\<exists>p \<in> set (peer_values m). is_connectable p \<and> can_dial nets (p_addr p)) \<longrightarrow>
       (\<forall>a \<in> set as. can_dial nets a))"
  by (rule selection_facts [OF assms]) (intro exI conjI impI; assumption)

definition ex_txt :: "peer_addr \<Rightarrow> string" where
  "ex_txt = PeerAddr_to_string (\<lambda>sa. ''ip'') (\<lambda>h. ''hex'')"

definition ex_addr :: "nat \<Rightarrow> peer_addr" where
  "ex_addr n = Onion (replicate n CHR ''a'') 80"

definition ex_peers :: peers where
  "ex_peers = snd (add_many ex_txt (map ex_addr [1, 2, 3]) 100 [])"

lemma ex_peers_ok: "peers_ok ex_txt ex_peers"
  unfolding ex_peers_def by (rule peers_ok_add_many [OF peers_ok_empty])

theorem selection_sound_witness:
  "peers_ok ex_txt ex_peers \<and> (\<exists>as. select_dialable False 2 all_nets 100000 False ex_peers = Some as \<and> distinct as)"
  using selection_sound [of ex_txt ex_peers 2 False all_nets 100000 False] ex_peers_ok by auto

text \<open>With a limit of one the explore window still takes a slot, so two addresses come back.\<close>

lemma selection_limit_one:
  assumes "1 < length (dial_pool nets now m)"
  shows "\<exists>as. select_dialable via 1 nets now prefer m = Some as \<and> length as = 2"
proof -
  obtain ps :: "peer list" where "select_dialable via 1 nets now prefer m = Some (map p_addr ps)"
      "length ps = (if length (dial_pool nets now m) \<le> 1 then length (dial_pool nets now m)
                    else keep_of 1 + window_of 1)"
    by (rule select_members [of 1 via nets now "prefer" m ex_txt], simp, simp) blast
  then show ?thesis using assms by (simp add: keep_of_def window_of_def)
qed

text \<open>A limit of zero with exactly one candidate divides by an empty rest.\<close>

lemma selection_limit_zero:
  assumes "length (dial_pool nets now m) = 1"
  shows "select_dialable via 0 nets now prefer m = None"
  using assms dial_ranking_length [of via "prefer" nets now m]
  by (auto simp: select_dialable_def Let_def simp del: dial_ranking_length)

section \<open>The explore window reaches every candidate\<close>

lemma window_covers:
  fixes t w n j :: nat
  assumes "0 < w" "0 < n" "j < n"
  shows "\<exists>i < div_ceil n w. \<exists>r < w. (((t + i) * w) mod n + r) mod n = j"
proof -
  define s where "s = (j + n * (t * w) - t * w) mod n"
  have s: "s < n" using assms(2) by (simp add: s_def)
  have le: "t * w \<le> j + n * (t * w)" using assms(2) by (cases n) auto
  have e: "(t * w + s) mod n = j"
    using le assms(3) by (simp add: s_def mod_simps)
  have "s div w < div_ceil n w"
    using s assms(1) by (simp add: less_div_ceil_iff) (metis div_times_less_eq_dividend order_le_less_trans)
  moreover have "s mod w < w" using assms(1) by simp
  moreover have "(((t + s div w) * w) mod n + s mod w) mod n = j"
  proof -
    have "(t + s div w) * w + s mod w = t * w + s" by (simp add: algebra_simps)
    then show ?thesis using e by (metis mod_add_left_eq)
  qed
  ultimately show ?thesis by blast
qed

lemma explore_nth:
  assumes "r < w" "rest \<noteq> []"
  shows "rest ! ((u64_mul (nat (max now 0) div 60) w mod length rest + r) mod length rest) \<in> set (explore w now rest)"
  using assms by (auto simp: explore_def Let_def)

lemma minute_advance: "0 \<le> now \<Longrightarrow> nat (max (now + 60 * int i) 0) div 60 = nat now div 60 + i"
  by (simp add: nat_add_distrib nat_mult_distrib)

lemma window_of_le: "0 < limit \<Longrightarrow> window_of limit \<le> limit"
  by (auto simp: window_of_def)

lemma explore_covers:
  fixes now :: int
  assumes p: "p \<in> set rest" and w: "0 < w" "w < 2 ^ 20" and r: "length rest < 2 ^ 20"
    and now: "0 \<le> now" "now < 2 ^ 40"
  shows "\<exists>i < div_ceil (length rest) w. p \<in> set (explore w (now + 60 * int i) rest)"
proof -
  obtain j where j: "j < length rest" "p = rest ! j" using p by (metis in_set_conv_nth)
  then have ne: "0 < length rest" "rest \<noteq> []" by auto
  obtain i r' where i: "i < div_ceil (length rest) w" "r' < w"
      and e: "((((nat now div 60) + i) * w) mod length rest + r') mod length rest = j"
    using window_covers [OF w(1) ne(1) j(1), of "nat now div 60"] by metis
  have "i * w < length rest" using i(1) w(1) by (simp add: less_div_ceil_iff)
  moreover have "i * 1 \<le> i * w" using w(1) by (intro mult_le_mono2) simp
  ultimately have "i < 2 ^ 20" using r by linarith
  moreover have "nat now < 2 ^ 40" using now by (simp add: nat_less_iff)
  ultimately have "nat now div 60 + i < 2 ^ 41"
    using div_le_dividend [of "nat now" 60] by simp
  then have "(nat now div 60 + i) * w < 2 ^ 41 * 2 ^ 20" using w by (intro mult_strict_mono) auto
  then have "u64_mul (nat (max (now + 60 * int i) 0) div 60) w = (nat now div 60 + i) * w"
    unfolding minute_advance [OF now(1)] u64_mul_def by (intro mod_less) simp
  then show ?thesis
    using explore_nth [OF i(2) ne(2), of "now + 60 * int i"] e i(1) j(2) by metis
qed

text \<open>
  No candidate is starved.  With more candidates than slots, as long as the candidates and their
  ranking stay the same, successive minutes hand out every candidate within
  \<open>ceil(rest / window)\<close> passes: the top ranks in each pass, every other one in one of them.
\<close>

theorem selection_covers:
  fixes now :: int
  defines "passes limit ps \<equiv> div_ceil (length ps - keep_of limit) (window_of limit)"
  assumes "0 < limit" "limit < length ps" "length ps < 2 ^ 20" "0 \<le> now" "now < 2 ^ 40"
    and stable: "\<forall>i < passes limit ps. dial_ranking via prefer nets (now + 60 * int i) m = ps"
    and p: "p \<in> set ps"
  shows "\<exists>i < passes limit ps. \<exists>as.
    select_dialable via limit nets (now + 60 * int i) prefer m = Some as \<and> p_addr p \<in> set as"
proof -
  let ?k = "keep_of limit" and ?w = "window_of limit"
  let ?rest = "drop ?k ps"
  have k: "0 < ?k" "?k \<le> limit" using keep_of_bounds assms(2) by auto
  have w: "0 < ?w" "?w < 2 ^ 20"
    using window_of_le [OF assms(2)] assms(3,4) by (auto simp: window_of_def)
  have "0 < length ps - ?k" using k assms(3) by simp
  then have pos: "0 < passes limit ps" using w by (simp add: passes_def less_div_ceil_iff)
  have "\<exists>i < passes limit ps. p \<in> set (take ?k ps @ explore ?w (now + 60 * int i) ?rest)"
  proof (cases "p \<in> set (take ?k ps)")
    case True
    then show ?thesis using pos by auto
  next
    case False
    then have "p \<in> set ?rest" using p by (metis UnE append_take_drop_id set_append)
    moreover have "length ?rest < 2 ^ 20" using assms(4) by simp
    ultimately have "\<exists>i < passes limit ps. p \<in> set (explore ?w (now + 60 * int i) ?rest)"
      using explore_covers [OF _ w _ assms(5,6)] by (metis length_drop passes_def)
    then show ?thesis by (metis UnI2 set_append)
  qed
  then obtain i where i: "i < passes limit ps" "p \<in> set (take ?k ps @ explore ?w (now + 60 * int i) ?rest)"
    by blast
  have "limit < 2 ^ 64" using assms(3,4) by simp
  then have "select_dialable via limit nets (now + 60 * int i) prefer m =
      Some (map p_addr (take ?k ps @ explore ?w (now + 60 * int i) ?rest))"
    using select_long(1) [OF assms(2), of via "prefer" nets "now + 60 * int i" m] stable i(1) assms(3) by simp
  then show ?thesis using i by (intro exI conjI) auto
qed

definition ex_ranking :: "peer list" where
  "ex_ranking = map (\<lambda>n. peer_new (ex_addr n) 100) [1, 2, 3]"

lemma ex_ranking_stable: "dial_ranking False False all_nets 100000 ex_peers = ex_ranking"
  "dial_ranking False False all_nets 100060 ex_peers = ex_ranking"
  by code_simp+

theorem selection_covers_witness:
  "\<exists>i < 2. \<exists>as. select_dialable False 2 all_nets (100000 + 60 * int i) False ex_peers = Some as \<and>
     Onion ''aaa'' 80 \<in> set as"
proof -
  have n: "div_ceil (length ex_ranking - keep_of 2) (window_of 2) = 2" by code_simp
  have s: "\<forall>i < 2. dial_ranking False False all_nets (100000 + 60 * int i) ex_peers = ex_ranking"
    using ex_ranking_stable by (auto simp: less_2_cases_iff)
  have "peer_new (ex_addr 3) 100 \<in> set ex_ranking" "length ex_ranking = 3"
    by (simp_all add: ex_ranking_def)
  then show ?thesis
    using selection_covers [of 2 ex_ranking 100000 False False all_nets ex_peers "peer_new (ex_addr 3) 100"]
    unfolding n using s by (simp add: peer_new_def ex_addr_def numeral_3_eq_3)
qed

end
