(* ===== verification/Peer_Prober.thy ===== *)
theory Peer_Prober
  imports Peer_Registry "HOL-Library.Multiset"
begin

text \<open>
  The background health prober: \<open>AppState::probe_candidates\<close> and \<open>AppState::note_probe_outcome\<close> of
  \<^verbatim>\<open>epix-ui/src/state.rs\<close>, which merge the probe queues of all served xites, and one pass of the prober,
  \<open>probe_pass\<close> of \<^verbatim>\<open>epix-runtime/src/lib.rs\<close>.

  What the pass gets from outside is its environment: the clock, the iteration order of the merge map
  (unspecified in Rust), the answer of each probe, the order in which the probes finish and the time at
  which each outcome is recorded.
\<close>

section \<open>The merged probe queue\<close>

text \<open>The served xites, each with its registry.\<close>

type_synonym xite_peers = "(string, peers) hash_map"

definition PROBE_CONCURRENCY :: nat where "PROBE_CONCURRENCY = 2"

definition connected_anywhere :: "(peer_addr \<Rightarrow> string) \<Rightarrow> xite_peers \<Rightarrow> string set" where
  "connected_anywhere txt xs =
     set (concat (map (\<lambda>(x, m). map (peer_key txt) (filter p_connected (peer_values m))) xs))"

definition merge_candidate ::
    "(peer_addr \<Rightarrow> string) \<Rightarrow> string set \<Rightarrow> probe_candidate \<Rightarrow> (string, probe_candidate) hash_map \<Rightarrow>
       (string, probe_candidate) hash_map" where
  "merge_candidate txt connected c merged =
     (let k = txt (c_addr c) in
      if k \<in> connected then merged
      else case map_of merged k of
        None \<Rightarrow> hm_insert k c merged
      | Some e \<Rightarrow> if c_probe_after c < c_probe_after e then hm_insert k c merged else merged)"

definition all_candidates :: "dialable_nets \<Rightarrow> int \<Rightarrow> xite_peers \<Rightarrow> probe_candidate list" where
  "all_candidates nets now xs = concat (map (\<lambda>(x, m). peers_probe_candidates nets now (2 ^ 64 - 1) m) xs)"

definition merged_candidates ::
    "(peer_addr \<Rightarrow> string) \<Rightarrow> dialable_nets \<Rightarrow> int \<Rightarrow> xite_peers \<Rightarrow> (string, probe_candidate) hash_map" where
  "merged_candidates txt nets now xs =
     fold (merge_candidate txt (connected_anywhere txt xs)) (all_candidates nets now xs) []"

type_synonym iteration = "(string, probe_candidate) hash_map \<Rightarrow> (string, probe_candidate) hash_map"

definition probe_candidates ::
    "iteration \<Rightarrow> (peer_addr \<Rightarrow> string) \<Rightarrow> dialable_nets \<Rightarrow> int \<Rightarrow> nat \<Rightarrow> xite_peers \<Rightarrow> probe_candidate list" where
  "probe_candidates iter txt nets now limit xs =
     take limit (sort_key c_probe_after (map snd (iter (merged_candidates txt nets now xs))))"

definition probe_outcome ::
    "(peer_addr \<Rightarrow> string) \<Rightarrow> (string \<Rightarrow> nat \<Rightarrow> nat) \<Rightarrow> bool \<Rightarrow> int \<Rightarrow> peer \<Rightarrow> peer" where
  "probe_outcome txt hash ok now p =
     (if connection_errors p = 0 then p
      else if ok then note_probe_ok txt hash now p
      else if \<not> p_connected p then note_probe_fail txt hash now p
      else p)"

definition note_probe_outcome ::
    "(peer_addr \<Rightarrow> string) \<Rightarrow> (string \<Rightarrow> nat \<Rightarrow> nat) \<Rightarrow> peer_addr \<Rightarrow> bool \<Rightarrow> int \<Rightarrow> xite_peers \<Rightarrow> xite_peers" where
  "note_probe_outcome txt hash a ok now xs =
     map (\<lambda>(x, m). (x, peers_update txt a (probe_outcome txt hash ok now) m)) xs"

record probe_env =
  env_now :: int
  env_iter :: iteration
  env_join :: "probe_candidate list \<Rightarrow> probe_candidate list"
  env_answer :: "peer_addr \<Rightarrow> bool"
  env_done :: "peer_addr \<Rightarrow> int"

definition pass_candidates ::
    "(peer_addr \<Rightarrow> string) \<Rightarrow> dialable_nets \<Rightarrow> nat \<Rightarrow> probe_env \<Rightarrow> xite_peers \<Rightarrow> probe_candidate list" where
  "pass_candidates txt nets limit e xs = probe_candidates (env_iter e) txt nets (env_now e) limit xs"

text \<open>
  One pass.  The join set hands the outcomes back in any order (\<open>env_join\<close>).  A probe task that panics is
  skipped by the Rust loop without an outcome; panics are not modelled.
\<close>

definition probe_pass ::
    "(peer_addr \<Rightarrow> string) \<Rightarrow> (string \<Rightarrow> nat \<Rightarrow> nat) \<Rightarrow> dialable_nets \<Rightarrow> nat \<Rightarrow> probe_env \<Rightarrow> xite_peers \<Rightarrow> xite_peers" where
  "probe_pass txt hash nets limit e xs =
     fold (\<lambda>c. note_probe_outcome txt hash (c_addr c) (env_answer e (c_addr c)) (env_done e (c_addr c)))
       (env_join e (pass_candidates txt nets limit e xs)) xs"

section \<open>Addresses due for a probe\<close>

definition xites_ok :: "(peer_addr \<Rightarrow> string) \<Rightarrow> xite_peers \<Rightarrow> bool" where
  "xites_ok txt xs \<longleftrightarrow> (\<forall>m \<in> snd ` set xs. peers_ok txt m \<and> length m < 2 ^ 64)"

text \<open>The address texts benched and past their cooldown in some registry and connected in none.\<close>

definition due_keys :: "(peer_addr \<Rightarrow> string) \<Rightarrow> dialable_nets \<Rightarrow> int \<Rightarrow> xite_peers \<Rightarrow> string set" where
  "due_keys txt nets now xs =
     {k. k \<notin> connected_anywhere txt xs \<and>
         (\<exists>m \<in> snd ` set xs. \<exists>p. map_of m k = Some p \<and> probe_due nets now p)}"

lemma peers_ok_entry: "peers_ok txt m \<Longrightarrow> map_of m k = Some p \<longleftrightarrow> p \<in> set (peer_values m) \<and> txt (p_addr p) = k"
  unfolding peers_ok_def by (auto simp: hm_entry_iff image_iff) force+

lemma connected_anywhere_iff:
  "xites_ok txt xs \<Longrightarrow> k \<in> connected_anywhere txt xs \<longleftrightarrow>
     (\<exists>m \<in> snd ` set xs. \<exists>p. map_of m k = Some p \<and> p_connected p)"
proof -
  assume ok: "xites_ok txt xs"
  have "k \<in> connected_anywhere txt xs \<longleftrightarrow>
      (\<exists>m \<in> snd ` set xs. \<exists>p \<in> set (peer_values m). txt (p_addr p) = k \<and> p_connected p)"
    unfolding connected_anywhere_def peer_key_def by (force simp: split_beta)
  also have "\<dots> \<longleftrightarrow> (\<exists>m \<in> snd ` set xs. \<exists>p. map_of m k = Some p \<and> p_connected p)"
    using ok peers_ok_entry unfolding xites_ok_def by (intro bex_cong refl) blast
  finally show ?thesis .
qed

lemma candidate_of_sel [simp]:
  "c_addr (candidate_of now p) = p_addr p" "c_probe_after (candidate_of now p) = probe_after p"
  by (simp_all add: candidate_of_def)

lemma set_all_candidates:
  assumes "xites_ok txt xs"
  shows "c \<in> set (all_candidates nets now xs) \<longleftrightarrow>
     (\<exists>m \<in> snd ` set xs. \<exists>p. map_of m (txt (c_addr c)) = Some p \<and> probe_due nets now p \<and> c = candidate_of now p)"
proof -
  have "c \<in> set (peers_probe_candidates nets now (2 ^ 64 - 1) m) \<longleftrightarrow>
     (\<exists>p. map_of m (txt (c_addr c)) = Some p \<and> probe_due nets now p \<and> c = candidate_of now p)"
    if "m \<in> snd ` set xs" for m
  proof -
    have ok: "peers_ok txt m" and "length m < 2 ^ 64" using assms that by (auto simp: xites_ok_def)
    moreover have "length (filter (probe_due nets now) (peer_values m)) \<le> length m"
      using length_filter_le [of "probe_due nets now" "peer_values m"] by simp
    ultimately have "length (sort_key probe_after (filter (probe_due nets now) (peer_values m))) \<le> 2 ^ 64 - 1"
      unfolding length_sort by linarith
    then show ?thesis
      using ok by (force simp: peers_probe_candidates_def peers_ok_entry)
  qed
  moreover have "c \<in> set (all_candidates nets now xs) \<longleftrightarrow>
      (\<exists>m \<in> snd ` set xs. c \<in> set (peers_probe_candidates nets now (2 ^ 64 - 1) m))"
    by (force simp: all_candidates_def)
  ultimately show ?thesis by blast
qed

definition merge_inv ::
    "(peer_addr \<Rightarrow> string) \<Rightarrow> string set \<Rightarrow> probe_candidate set \<Rightarrow> (string, probe_candidate) hash_map \<Rightarrow> bool" where
  "merge_inv txt connected cs merged \<longleftrightarrow> hm_inv merged \<and>
     (\<forall>k. map_of merged k \<noteq> None \<longleftrightarrow> k \<notin> connected \<and> k \<in> (\<lambda>c. txt (c_addr c)) ` cs) \<and>
     (\<forall>k c. map_of merged k = Some c \<longrightarrow> c \<in> cs \<and> txt (c_addr c) = k \<and>
        (\<forall>c' \<in> cs. txt (c_addr c') = k \<longrightarrow> c_probe_after c \<le> c_probe_after c'))"

lemma map_of_merge_candidate:
  "map_of (merge_candidate txt connected c merged) =
     (if txt (c_addr c) \<in> connected then map_of merged
      else (map_of merged)(txt (c_addr c) \<mapsto>
        (case map_of merged (txt (c_addr c)) of None \<Rightarrow> c
         | Some e \<Rightarrow> if c_probe_after c < c_probe_after e then c else e)))"
  unfolding merge_candidate_def Let_def by (auto simp: fun_eq_iff split: option.splits)

lemma merge_candidate_inv:
  assumes "merge_inv txt connected cs merged"
  shows "merge_inv txt connected (insert c cs) (merge_candidate txt connected c merged)"
proof -
  let ?r = "merge_candidate txt connected c merged"
  let ?k = "txt (c_addr c)"
  have hm: "hm_inv ?r"
    using assms unfolding merge_inv_def merge_candidate_def Let_def by (auto split: option.splits)
  have dom: "map_of ?r k \<noteq> None \<longleftrightarrow> k \<notin> connected \<and> k \<in> (\<lambda>c. txt (c_addr c)) ` insert c cs" for k
    using assms unfolding merge_inv_def map_of_merge_candidate by auto
  have best: "d \<in> insert c cs \<and> txt (c_addr d) = k \<and>
      (\<forall>c' \<in> insert c cs. txt (c_addr c') = k \<longrightarrow> c_probe_after d \<le> c_probe_after c')"
    if "map_of ?r k = Some d" for k d
  proof (cases "k = ?k \<and> ?k \<notin> connected")
    case False
    then have "map_of merged k = Some d" and "k \<noteq> ?k \<or> ?k \<in> connected"
      using that by (auto simp: map_of_merge_candidate split: if_splits)
    moreover from this have "k \<noteq> ?k" using assms unfolding merge_inv_def by (metis option.distinct(1))
    ultimately show ?thesis using assms unfolding merge_inv_def by auto
  next
    case True
    show ?thesis
    proof (cases "map_of merged k")
      case None
      then have "d = c" using that True by (simp add: map_of_merge_candidate)
      moreover have "k \<notin> (\<lambda>c. txt (c_addr c)) ` cs"
        using None True assms unfolding merge_inv_def by metis
      ultimately show ?thesis using True by blast
    next
      case (Some e)
      then have "d = (if c_probe_after c < c_probe_after e then c else e)"
        using that True by (auto simp: map_of_merge_candidate)
      moreover have "e \<in> cs" "txt (c_addr e) = k" "\<forall>c' \<in> cs. txt (c_addr c') = k \<longrightarrow> c_probe_after e \<le> c_probe_after c'"
        using Some assms unfolding merge_inv_def by auto
      ultimately show ?thesis using True by (auto intro: order_trans less_imp_le)
    qed
  qed
  show ?thesis unfolding merge_inv_def using hm dom best by blast
qed

lemma merge_fold_inv:
  "merge_inv txt connected cs0 merged \<Longrightarrow>
     merge_inv txt connected (cs0 \<union> set cs) (fold (merge_candidate txt connected) cs merged)"
proof (induction cs arbitrary: cs0 merged)
  case (Cons c cs)
  from Cons.IH [OF merge_candidate_inv [OF Cons.prems]] show ?case by simp
qed simp

lemma merged_candidates_inv:
  "merge_inv txt (connected_anywhere txt xs) (set (all_candidates nets now xs)) (merged_candidates txt nets now xs)"
  unfolding merged_candidates_def
  using merge_fold_inv [of "txt" "connected_anywhere txt xs" "{}" "[]"] by (simp add: merge_inv_def)

lemma merged_facts:
  fixes nets now
  assumes "xites_ok txt xs"
  defines "M \<equiv> merged_candidates txt nets now xs"
  shows "hm_inv M" "fst ` set M = due_keys txt nets now xs"
    "(k, c) \<in> set M \<Longrightarrow> txt (c_addr c) = k"
    "(k, c) \<in> set M \<Longrightarrow> m \<in> snd ` set xs \<Longrightarrow> map_of m k = Some p \<Longrightarrow> probe_due nets now p \<Longrightarrow>
       c_probe_after c \<le> probe_after p"
    "(k, c) \<in> set M \<Longrightarrow>
       \<exists>m \<in> snd ` set xs. \<exists>p. map_of m k = Some p \<and> probe_due nets now p \<and> c_probe_after c = probe_after p"
proof -
  note inv = merged_candidates_inv [of "txt" xs nets now, folded M_def, unfolded merge_inv_def]
  note cand = set_all_candidates [OF assms(1), where nets = nets and now = now]
  show hm: "hm_inv M" using inv by blast
  have key: "txt (p_addr p) = k" if "m \<in> snd ` set xs" "map_of m k = Some p" for m k p
    using that assms(1) peers_ok_entry unfolding xites_ok_def by blast
  have in_M: "k \<in> fst ` set M \<longleftrightarrow> k \<notin> connected_anywhere txt xs \<and>
      k \<in> (\<lambda>c. txt (c_addr c)) ` set (all_candidates nets now xs)" for k
  proof -
    have "k \<in> fst ` set M \<longleftrightarrow> map_of M k \<noteq> None" by (simp add: map_of_eq_None_iff)
    then show ?thesis using inv by blast
  qed
  have in_all: "k \<in> (\<lambda>c. txt (c_addr c)) ` set (all_candidates nets now xs) \<longleftrightarrow>
      (\<exists>m \<in> snd ` set xs. \<exists>p. map_of m k = Some p \<and> probe_due nets now p)" for k
  proof
    assume "k \<in> (\<lambda>c. txt (c_addr c)) ` set (all_candidates nets now xs)"
    then obtain c where "c \<in> set (all_candidates nets now xs)" "k = txt (c_addr c)" by blast
    then show "\<exists>m \<in> snd ` set xs. \<exists>p. map_of m k = Some p \<and> probe_due nets now p"
      using cand [of c] by blast
  next
    assume "\<exists>m \<in> snd ` set xs. \<exists>p. map_of m k = Some p \<and> probe_due nets now p"
    then obtain m p where mp: "m \<in> snd ` set xs" "map_of m k = Some p" "probe_due nets now p" by blast
    then have "candidate_of now p \<in> set (all_candidates nets now xs)"
      using key [OF mp(1,2)] cand [of "candidate_of now p"] by auto
    then show "k \<in> (\<lambda>c. txt (c_addr c)) ` set (all_candidates nets now xs)"
      using key [OF mp(1,2)] by force
  qed
  show "fst ` set M = due_keys txt nets now xs"
    unfolding set_eq_iff in_M in_all due_keys_def mem_Collect_eq by blast
  have some: "map_of M k = Some c" if "(k, c) \<in> set M" for k c
    using that hm_entry_iff [OF hm] by blast
  show "txt (c_addr c) = k" if "(k, c) \<in> set M"
    using inv some [OF that] by blast
  show "c_probe_after c \<le> probe_after p"
    if "(k, c) \<in> set M" "m \<in> snd ` set xs" "map_of m k = Some p" "probe_due nets now p"
  proof -
    have "candidate_of now p \<in> set (all_candidates nets now xs)" "txt (c_addr (candidate_of now p)) = k"
      using key [OF that(2,3)] that cand [of "candidate_of now p"] by auto
    moreover have "map_of M k = Some c" by (rule some [OF that(1)])
    ultimately show ?thesis using inv by (metis candidate_of_sel(2))
  qed
  show "\<exists>m \<in> snd ` set xs. \<exists>p. map_of m k = Some p \<and> probe_due nets now p \<and> c_probe_after c = probe_after p"
    if "(k, c) \<in> set M"
  proof -
    have "map_of M k = Some c" by (rule some [OF that])
    then have "c \<in> set (all_candidates nets now xs)" "txt (c_addr c) = k" using inv by blast+
    then obtain m p where "m \<in> snd ` set xs" "map_of m k = Some p" "probe_due nets now p" "c = candidate_of now p"
      using cand [of c] by blast
    then show ?thesis by (metis candidate_of_sel(2))
  qed
qed

section \<open>Recording the outcomes\<close>

lemma map_of_peers_update:
  "map_of (peers_update txt a f m) k =
     (if k = txt a then map_option f (map_of m k) else map_of m k)"
  by (auto simp: peers_update_def split: option.splits)

lemma length_peers_update: "length (peers_update txt a f m) = length m"
  by (auto simp: peers_update_def length_hm_insert hm_contains_def split: option.splits)

lemma probe_outcome_keeps [simp]:
  "p_addr (probe_outcome txt hash ok now p) = p_addr p"
  "p_connected (probe_outcome txt hash ok now p) = p_connected p"
  by (simp_all add: probe_outcome_def)

lemma outcome_registries:
  "snd ` set (note_probe_outcome txt hash a ok t xs) = peers_update txt a (probe_outcome txt hash ok t) ` snd ` set xs"
  unfolding note_probe_outcome_def by force

lemma outcome_xites_ok: "xites_ok txt xs \<Longrightarrow> xites_ok txt (note_probe_outcome txt hash a ok t xs)"
  unfolding xites_ok_def outcome_registries by (auto simp: length_peers_update intro!: peers_ok_update)

lemma outcome_connected:
  assumes "xites_ok txt xs"
  shows "connected_anywhere txt (note_probe_outcome txt hash a ok t xs) = connected_anywhere txt xs"
proof -
  have "(\<exists>p. map_of (peers_update txt a (probe_outcome txt hash ok t) m) k = Some p \<and> p_connected p) \<longleftrightarrow>
      (\<exists>p. map_of m k = Some p \<and> p_connected p)" for m k
    by (auto simp: map_of_peers_update)
  then show ?thesis
    unfolding set_eq_iff connected_anywhere_iff [OF assms]
      connected_anywhere_iff [OF outcome_xites_ok [OF assms]] outcome_registries bex_simps(7)
    by simp
qed

lemma outcome_not_due:
  "time_ok t \<Longrightarrow> s \<le> t \<Longrightarrow> \<not> p_connected p \<Longrightarrow> \<not> probe_due nets s (probe_outcome txt hash ok t p)"
  using note_probe_stamps(1,2) [of t "txt" hash p] by (auto simp: probe_outcome_def probe_due_def)

lemma outcome_due_keys:
  assumes ok: "xites_ok txt xs" and t: "time_ok t" "s \<le> t"
  shows "due_keys txt nets s (note_probe_outcome txt hash a answer t xs) = due_keys txt nets s xs - {txt a}"
proof -
  have "k \<noteq> txt a" if k: "k \<in> due_keys txt nets s (note_probe_outcome txt hash a answer t xs)" for k
  proof
    assume "k = txt a"
    then obtain m p where m: "m \<in> snd ` set xs" "map_of m k = Some p"
        "probe_due nets s (probe_outcome txt hash answer t p)"
      using k unfolding due_keys_def outcome_registries by (auto simp: map_of_peers_update)
    moreover have "\<not> p_connected p"
      using k m(1,2) connected_anywhere_iff [OF ok] unfolding due_keys_def outcome_connected [OF ok] by blast
    ultimately show False using outcome_not_due [OF t] by blast
  qed
  moreover have "k \<in> due_keys txt nets s (note_probe_outcome txt hash a answer t xs) \<longleftrightarrow> k \<in> due_keys txt nets s xs"
    if "k \<noteq> txt a" for k
    using that unfolding due_keys_def outcome_connected [OF ok] outcome_registries
    by (auto simp: map_of_peers_update)
  ultimately show ?thesis by blast
qed

section \<open>Every due address is probed in turn\<close>

definition env_ok :: "probe_env \<Rightarrow> bool" where
  "env_ok e \<longleftrightarrow> (\<forall>m. mset (env_iter e m) = mset m) \<and> (\<forall>cs. mset (env_join e cs) = mset cs) \<and>
     time_ok (env_now e) \<and> (\<forall>a. time_ok (env_done e a) \<and> env_now e \<le> env_done e a)"

definition pass_keys :: "(peer_addr \<Rightarrow> string) \<Rightarrow> dialable_nets \<Rightarrow> nat \<Rightarrow> probe_env \<Rightarrow> xite_peers \<Rightarrow> string set" where
  "pass_keys txt nets limit e xs = (\<lambda>c. txt (c_addr c)) ` set (pass_candidates txt nets limit e xs)"

lemma fold_outcomes:
  assumes "xites_ok txt xs" "\<And>c. c \<in> set cs \<Longrightarrow> time_ok (t c) \<and> s \<le> t c"
  shows "xites_ok txt (fold (\<lambda>c. note_probe_outcome txt hash (c_addr c) (ans c) (t c)) cs xs) \<and>
    due_keys txt nets s (fold (\<lambda>c. note_probe_outcome txt hash (c_addr c) (ans c) (t c)) cs xs) =
      due_keys txt nets s xs - (\<lambda>c. txt (c_addr c)) ` set cs"
  using assms
proof (induction cs arbitrary: xs)
  case (Cons c cs)
  have c: "time_ok (t c)" "s \<le> t c" using Cons.prems(2) by auto
  have "xites_ok txt (note_probe_outcome txt hash (c_addr c) (ans c) (t c) xs)"
    by (rule outcome_xites_ok [OF Cons.prems(1)])
  from Cons.IH [OF this] Cons.prems(2) outcome_due_keys [OF Cons.prems(1) c] show ?case by auto
qed simp

lemma probe_pass_due:
  assumes "xites_ok txt xs" "env_ok e" "s \<le> env_now e"
  shows "xites_ok txt (probe_pass txt hash nets limit e xs)"
    "due_keys txt nets s (probe_pass txt hash nets limit e xs) =
       due_keys txt nets s xs - pass_keys txt nets limit e xs"
proof -
  have "set (env_join e cs) = set cs" for cs using assms(2) by (metis env_ok_def set_mset_mset)
  moreover have "time_ok (env_done e a) \<and> s \<le> env_done e a" for a
    using assms(2,3) unfolding env_ok_def by (meson order_trans)
  ultimately show "xites_ok txt (probe_pass txt hash nets limit e xs)"
    "due_keys txt nets s (probe_pass txt hash nets limit e xs) =
       due_keys txt nets s xs - pass_keys txt nets limit e xs"
    using fold_outcomes [OF assms(1), of "env_join e (pass_candidates txt nets limit e xs)"
        "\<lambda>c. env_done e (c_addr c)" s hash "\<lambda>c. env_answer e (c_addr c)" nets]
    unfolding probe_pass_def pass_keys_def by simp_all
qed

lemma probe_due_mono: "probe_due nets s p \<Longrightarrow> s \<le> now \<Longrightarrow> probe_due nets now p"
  by (auto simp: probe_due_def)

lemma due_keys_mono: "s \<le> now \<Longrightarrow> due_keys txt nets s xs \<subseteq> due_keys txt nets now xs"
  unfolding due_keys_def using probe_due_mono by blast

lemma finite_due_keys: "xites_ok txt xs \<Longrightarrow> finite (due_keys txt nets now xs)"
  using merged_facts(2) by (metis List.finite_set finite_imageI)

lemma pass_serves:
  assumes ok: "xites_ok txt xs" and e: "env_ok e" and s: "s \<le> env_now e"
    and k: "k \<in> due_keys txt nets s xs" "k \<notin> pass_keys txt nets limit e xs"
  shows "pass_keys txt nets limit e xs \<subseteq> due_keys txt nets s xs" "card (pass_keys txt nets limit e xs) = limit"
proof -
  let ?now = "env_now e"
  let ?M = "merged_candidates txt nets ?now xs"
  let ?L = "map snd (env_iter e ?M)"
  note mf = merged_facts [OF ok, where nets = nets and now = ?now]
  have iter: "set (env_iter e ?M) = set ?M" "distinct (map fst (env_iter e ?M))"
    using e mf(1) unfolding env_ok_def hm_inv_def
    by (metis set_mset_mset, metis mset_eq_imp_distinct_iff mset_map)
  have mk: "txt (c_addr c) = j" if "(j, c) \<in> set (env_iter e ?M)" for j c using mf(3) that iter(1) by blast
  have keys: "map (\<lambda>c. txt (c_addr c)) ?L = map fst (env_iter e ?M)"
    using mk by (auto simp: map_eq_conv)
  have pk: "pass_keys txt nets limit e xs = (\<lambda>c. txt (c_addr c)) ` set (take limit (sort_key c_probe_after ?L))"
    by (simp add: pass_keys_def pass_candidates_def probe_candidates_def)
  have dist: "distinct (map (\<lambda>c. txt (c_addr c)) (sort_key c_probe_after ?L))"
    unfolding distinct_map set_sort distinct_sort using iter(2) unfolding keys [symmetric] distinct_map by blast
  have "k \<in> due_keys txt nets ?now xs" using k(1) due_keys_mono [OF s] by blast
  then obtain d where d: "(k, d) \<in> set ?M" unfolding mf(2) [symmetric] by auto
  then have dk: "txt (c_addr d) = k" by (rule mf(3))
  have dL: "d \<in> set ?L" using d unfolding set_map iter(1) by (metis image_eqI snd_conv)
  have dn: "d \<notin> set (take limit (sort_key c_probe_after ?L))" using k(2) dk unfolding pk by blast
  obtain m p where mp: "m \<in> snd ` set xs" "map_of m k = Some p" "probe_due nets s p"
    using k(1) unfolding due_keys_def by blast
  then have "c_probe_after d \<le> s"
    using mf(4) [OF d mp(1,2) probe_due_mono [OF mp(3) s]] unfolding probe_due_def by linarith
  then have le: "c_probe_after c \<le> s" if "c \<in> set (take limit (sort_key c_probe_after ?L))" for c
    using take_sort_key_least [OF that dL dn] by linarith
  show "pass_keys txt nets limit e xs \<subseteq> due_keys txt nets s xs"
  proof
    fix j assume "j \<in> pass_keys txt nets limit e xs"
    then obtain c where c: "c \<in> set (take limit (sort_key c_probe_after ?L))" "txt (c_addr c) = j"
      unfolding pk by blast
    then have "c \<in> set ?L" using set_take_sort_key by fast
    then obtain i where "(i, c) \<in> set ?M" unfolding set_map iter(1) by auto
    then have jc: "(j, c) \<in> set ?M" using mf(3) c(2) by blast
    obtain m' q where q: "m' \<in> snd ` set xs" "map_of m' j = Some q" "probe_due nets ?now q"
        "c_probe_after c = probe_after q"
      using mf(5) [OF jc] by blast
    have "probe_due nets s q" using q(3,4) le [OF c(1)] unfolding probe_due_def by simp
    moreover have "j \<notin> connected_anywhere txt xs" using imageI [OF jc, of fst] unfolding mf(2) due_keys_def by simp
    ultimately show "j \<in> due_keys txt nets s xs" using q(1,2) unfolding due_keys_def by blast
  qed
  have "limit < length (sort_key c_probe_after ?L)"
  proof (rule ccontr)
    assume "\<not> ?thesis"
    then show False using dn dL by simp
  qed
  then have "length (take limit (sort_key c_probe_after ?L)) = limit" by simp
  moreover have "distinct (map (\<lambda>c. txt (c_addr c)) (take limit (sort_key c_probe_after ?L)))"
    using dist by (metis distinct_take take_map)
  ultimately show "card (pass_keys txt nets limit e xs) = limit"
    unfolding pk by (metis distinct_card length_map set_map)
qed

fun probed_within ::
    "(peer_addr \<Rightarrow> string) \<Rightarrow> (string \<Rightarrow> nat \<Rightarrow> nat) \<Rightarrow> dialable_nets \<Rightarrow> nat \<Rightarrow> string \<Rightarrow> probe_env list \<Rightarrow> xite_peers \<Rightarrow> bool" where
  "probed_within txt hash nets limit k [] xs = False"
| "probed_within txt hash nets limit k (e # es) xs \<longleftrightarrow>
     k \<in> pass_keys txt nets limit e xs \<or>
     probed_within txt hash nets limit k es (probe_pass txt hash nets limit e xs)"

lemma prober_reaches:
  assumes "xites_ok txt xs" "\<forall>e \<in> set es. env_ok e \<and> s \<le> env_now e" "k \<in> due_keys txt nets s xs"
    "card (due_keys txt nets s xs) \<le> limit * length es"
  shows "probed_within txt hash nets limit k es xs"
  using assms
proof (induction es arbitrary: xs)
  case Nil
  then have "card (due_keys txt nets s xs) = 0" "finite (due_keys txt nets s xs)"
    using finite_due_keys by auto
  then show ?case using Nil.prems(3) by auto
next
  case (Cons e es)
  show ?case
  proof (cases "k \<in> pass_keys txt nets limit e xs")
    case False
    let ?xs = "probe_pass txt hash nets limit e xs"
    have e: "env_ok e" "s \<le> env_now e" using Cons.prems(2) by auto
    note serve = pass_serves [OF Cons.prems(1) e Cons.prems(3) False]
    note after = probe_pass_due [OF Cons.prems(1) e, where hash = hash and nets = nets and limit = limit]
    have "card (due_keys txt nets s ?xs) = card (due_keys txt nets s xs) - limit"
      unfolding after(2) using serve finite_due_keys [OF Cons.prems(1)]
      by (metis card_Diff_subset finite_subset)
    then have "card (due_keys txt nets s ?xs) \<le> limit * length es" using Cons.prems(4) by simp
    moreover have "k \<in> due_keys txt nets s ?xs" using False Cons.prems(3) unfolding after(2) by blast
    ultimately show ?thesis using Cons.IH [OF after(1)] Cons.prems(2) by auto
  qed simp
qed

text \<open>
  C36. The health prober is fair.  Whatever the probes answer, in whatever order they finish and however
  the merge map iterates: an address that is due for a probe when a run of passes starts, and is
  connected nowhere, is probed within the first \<open>n\<close> passes as soon as \<open>limit * n\<close> reaches the number of
  addresses due at the start.  A probed address moves behind every waiting one, so none is starved.
\<close>

theorem prober_fair:
  assumes "xites_ok txt xs" "\<forall>e \<in> set es. env_ok e \<and> s \<le> env_now e"
    and "k \<in> due_keys txt nets s xs" "card (due_keys txt nets s xs) \<le> limit * length es"
  shows "probed_within txt hash nets limit k es xs"
  using assms by (rule prober_reaches)

definition ex_benched :: xite_peers where
  "ex_benched = [(''site'', map (\<lambda>n. (ex_txt (ex_addr n),
     (peer_new (ex_addr n) 100)\<lparr>connection_errors := 1, probe_after := 130\<rparr>)) [1, 2, 3])]"

definition ex_env :: "int \<Rightarrow> probe_env" where
  "ex_env now = \<lparr>env_now = now, env_iter = id, env_join = rev, env_answer = (\<lambda>_. False), env_done = (\<lambda>_. now + 10)\<rparr>"

lemma ex_benched_ok: "xites_ok ex_txt ex_benched"
proof -
  have "ex_txt (ex_addr m) = ex_txt (ex_addr n) \<longleftrightarrow> m = n" for m n
    by (simp add: ex_txt_def ex_addr_def)
  then show ?thesis
    by (auto simp: xites_ok_def ex_benched_def peers_ok_def hm_inv_def peer_new_def)
qed

lemma ex_env_ok: "0 < now \<Longrightarrow> now < 2 ^ 61 \<Longrightarrow> env_ok (ex_env now)"
  by (simp add: env_ok_def ex_env_def time_ok_def)

theorem prober_fair_witness:
  "probed_within ex_txt (\<lambda>_ _. 0) all_nets PROBE_CONCURRENCY ''aaa.onion:80'' [ex_env 200, ex_env 240] ex_benched"
proof -
  have "due_keys ex_txt all_nets 200 ex_benched \<subseteq> fst ` set (snd (hd ex_benched))"
    unfolding due_keys_def ex_benched_def by (auto dest: map_of_SomeD intro: rev_image_eqI)
  then have "card (due_keys ex_txt all_nets 200 ex_benched) \<le> card (fst ` set (snd (hd ex_benched)))"
    by (intro card_mono) auto
  also have "\<dots> \<le> 3" by code_simp
  finally have c: "card (due_keys ex_txt all_nets 200 ex_benched) \<le> PROBE_CONCURRENCY * length [ex_env 200, ex_env 240]"
    by (simp add: PROBE_CONCURRENCY_def)
  have "connected_anywhere ex_txt ex_benched = {}" by code_simp
  moreover have "\<exists>p. map_of (snd (hd ex_benched)) ''aaa.onion:80'' = Some p \<and> probe_due all_nets 200 p"
  proof -
    have "case map_of (snd (hd ex_benched)) ''aaa.onion:80'' of None \<Rightarrow> False | Some p \<Rightarrow> probe_due all_nets 200 p"
      by code_simp
    then show ?thesis by (auto split: option.splits)
  qed
  ultimately have k: "''aaa.onion:80'' \<in> due_keys ex_txt all_nets 200 ex_benched"
    unfolding due_keys_def ex_benched_def by simp
  show ?thesis
    by (rule prober_fair [OF ex_benched_ok _ k c]) (simp add: ex_env_ok, simp add: ex_env_def)
qed

end
