(* ===== verification/Bencode.thy ===== *)
theory Bencode
  imports Ordered_Map Decimal Rust_Str
begin

text \<open>
  Bencode, after \<^verbatim>\<open>epix-bt/src/bencode.rs\<close>: the value type, the recursive-descent parser over a buffer
  and a position (with the byte span of the top-level \<open>info\<close> value that the info-hash is taken over),
  and the canonical encoder.

  The parser's mutual recursion is bounded by fuel.  \<open>Out_of_fuel\<close> is a value of the result type, and
  the entry points start with the input length plus one, which is always enough (\<open>p_value_total\<close>).
  The Rust parser recurses on the call stack; its depth is not modelled.
\<close>

section \<open>Values and errors\<close>

datatype ben = BInt int | BBytes bytes | BList "ben list" | BDict "(bytes \<times> ben) list"

datatype bencode_error = Eof | BadInt | BadLen | Unexpected u8 nat | Trailing | BadDictKey

datatype 'a parsed = Ok 'a | Err bencode_error | Out_of_fuel

fun ben_as_int :: "ben \<Rightarrow> int option" where
  "ben_as_int (BInt i) = Some i"
| "ben_as_int _ = None"

fun ben_as_bytes :: "ben \<Rightarrow> bytes option" where
  "ben_as_bytes (BBytes b) = Some b"
| "ben_as_bytes _ = None"

fun ben_as_list :: "ben \<Rightarrow> ben list option" where
  "ben_as_list (BList l) = Some l"
| "ben_as_list _ = None"

fun ben_as_dict :: "ben \<Rightarrow> (bytes \<times> ben) list option" where
  "ben_as_dict (BDict d) = Some d"
| "ben_as_dict _ = None"

definition ben_get :: "string \<Rightarrow> ben \<Rightarrow> ben option" where
  "ben_get key v = (case ben_as_dict v of None \<Rightarrow> None | Some d \<Rightarrow> map_of d (as_bytes key))"

text \<open>\<open>s.parse::<i64>()\<close>: an optional sign, then digits, checked against the range.\<close>

definition parse_i64 :: "string \<Rightarrow> int option" where
  "parse_i64 s =
     (case s of
        [] \<Rightarrow> None
      | c # cs \<Rightarrow>
          if c = CHR ''-'' then (if cs = [] then None else map_option (\<lambda>n. - int n) (parse_digits (2 ^ 63) 0 cs))
          else map_option int (parse_uint (2 ^ 63 - 1) s))"

section \<open>The parser\<close>

text \<open>The bytes \<open>i l d e :\<close>.\<close>

abbreviation b_i :: u8 where "b_i \<equiv> 105"
abbreviation b_l :: u8 where "b_l \<equiv> 108"
abbreviation b_d :: u8 where "b_d \<equiv> 100"
abbreviation b_e :: u8 where "b_e \<equiv> 101"
abbreviation b_colon :: u8 where "b_colon \<equiv> 58"

definition is_digit_byte :: "u8 \<Rightarrow> bool" where
  "is_digit_byte b \<longleftrightarrow> 48 \<le> b \<and> b \<le> 57"

definition peek :: "bytes \<Rightarrow> nat \<Rightarrow> u8 option" where
  "peek buf pos = (if pos < length buf then Some (buf ! pos) else None)"

text \<open>\<open>while self.peek()? != b'e'\<close> is the \<open>takeWhile\<close>; running off the buffer is \<open>Eof\<close>.\<close>

definition bad_int_text :: "string \<Rightarrow> bool" where
  "bad_int_text s \<longleftrightarrow> s = [] \<or> s = ''-0'' \<or> (take 1 s = ''0'' \<and> length s > 1) \<or>
     (take 2 s = ''-0'' \<and> length s > 2)"

definition p_integer :: "bytes \<Rightarrow> nat \<Rightarrow> (ben \<times> nat) parsed" where
  "p_integer buf pos =
     (let start = pos + 1;
          ds = takeWhile (\<lambda>b. b \<noteq> b_e) (drop start buf);
          stop = start + length ds in
      if stop \<ge> length buf then Err Eof
      else let s = str_of_bytes ds in
        if bad_int_text s then Err BadInt
        else case parse_i64 s of None \<Rightarrow> Err BadInt | Some n \<Rightarrow> Ok (BInt n, stop + 1))"

definition byte_string :: "bytes \<Rightarrow> nat \<Rightarrow> (bytes \<times> nat) parsed" where
  "byte_string buf pos =
     (let ds = takeWhile is_digit_byte (drop pos buf);
          colon = pos + length ds in
      case peek buf colon of
        None \<Rightarrow> Err Eof
      | Some c \<Rightarrow>
          if c \<noteq> b_colon then Err BadLen
          else case parse_uint (2 ^ 64 - 1) (str_of_bytes ds) of
            None \<Rightarrow> Err BadLen
          | Some len \<Rightarrow>
              if colon + 1 + len > 2 ^ 64 - 1 then Err BadLen
              else if colon + 1 + len > length buf then Err Eof
              else Ok (take len (drop (colon + 1) buf), colon + 1 + len))"

definition info_key :: bytes where
  "info_key = as_bytes ''info''"

type_synonym span = "(nat \<times> nat) option"

text \<open>
  The two loops take the value parser of the next nesting level (\<open>val\<close>) as an argument; \<open>p_value\<close> ties
  the knot, one unit of fuel per nesting level.
\<close>

fun p_list :: "(nat \<Rightarrow> (ben \<times> nat) parsed) \<Rightarrow> nat \<Rightarrow> bytes \<Rightarrow> ben list \<Rightarrow> nat \<Rightarrow> (ben \<times> nat) parsed" where
  "p_list val 0 buf out pos = Out_of_fuel"
| "p_list val (Suc n) buf out pos =
     (case peek buf pos of
        None \<Rightarrow> Err Eof
      | Some c \<Rightarrow>
          if c = b_e then Ok (BList out, pos + 1)
          else (case val pos of
                  Ok (v, pos') \<Rightarrow> p_list val n buf (out @ [v]) pos'
                | Err e \<Rightarrow> Err e | Out_of_fuel \<Rightarrow> Out_of_fuel))"

definition key_order_bad :: "bytes option \<Rightarrow> bytes \<Rightarrow> bool" where
  "key_order_bad last_key key = (case last_key of None \<Rightarrow> False | Some prev \<Rightarrow> key \<le> prev)"

fun p_dict ::
    "(nat \<Rightarrow> (ben \<times> nat) parsed) \<Rightarrow> nat \<Rightarrow> bytes \<Rightarrow> bool \<Rightarrow> span \<Rightarrow> bytes option \<Rightarrow> (bytes \<times> ben) list \<Rightarrow> nat \<Rightarrow>
       (ben \<times> nat \<times> span) parsed" where
  "p_dict val 0 buf track sp last_key out pos = Out_of_fuel"
| "p_dict val (Suc n) buf track sp last_key out pos =
     (case peek buf pos of
        None \<Rightarrow> Err Eof
      | Some c \<Rightarrow>
          if c = b_e then Ok (BDict out, pos + 1, sp)
          else if \<not> is_digit_byte c then Err BadDictKey
          else case byte_string buf pos of
            Err e \<Rightarrow> Err e
          | Out_of_fuel \<Rightarrow> Out_of_fuel
          | Ok (key, val_start) \<Rightarrow>
              if key_order_bad last_key key then Err BadDictKey
              else case val val_start of
                Err e \<Rightarrow> Err e
              | Out_of_fuel \<Rightarrow> Out_of_fuel
              | Ok (v, val_end) \<Rightarrow>
                  p_dict val n buf track
                    (if track \<and> key = info_key then Some (val_start, val_end) else sp)
                    (Some key) (bt_insert key v out) val_end)"

primrec p_value :: "nat \<Rightarrow> bytes \<Rightarrow> nat \<Rightarrow> (ben \<times> nat) parsed" where
  "p_value 0 buf pos = Out_of_fuel"
| "p_value (Suc n) buf pos =
     (case peek buf pos of
        None \<Rightarrow> Err Eof
      | Some c \<Rightarrow>
          if c = b_i then p_integer buf pos
          else if c = b_l then p_list (p_value n buf) n buf [] (pos + 1)
          else if c = b_d then
            (case p_dict (p_value n buf) n buf False None None [] (pos + 1) of
               Ok (v, pos', s) \<Rightarrow> Ok (v, pos') | Err e \<Rightarrow> Err e | Out_of_fuel \<Rightarrow> Out_of_fuel)
          else if is_digit_byte c then
            (case byte_string buf pos of
               Ok (b, pos') \<Rightarrow> Ok (BBytes b, pos') | Err e \<Rightarrow> Err e | Out_of_fuel \<Rightarrow> Out_of_fuel)
          else Err (Unexpected c pos))"

definition fuel_for :: "bytes \<Rightarrow> nat" where
  "fuel_for buf = length buf + 1"

definition value_tracking_info :: "bytes \<Rightarrow> (ben \<times> nat \<times> span) parsed" where
  "value_tracking_info buf =
     (case peek buf 0 of
        None \<Rightarrow> Err Eof
      | Some c \<Rightarrow>
          if c = b_d then p_dict (p_value (length buf) buf) (length buf) buf True None None [] 1
          else case p_value (fuel_for buf) buf 0 of
            Ok (v, pos') \<Rightarrow> Ok (v, pos', None) | Err e \<Rightarrow> Err e | Out_of_fuel \<Rightarrow> Out_of_fuel)"

definition decode :: "bytes \<Rightarrow> ben parsed" where
  "decode buf =
     (case p_value (fuel_for buf) buf 0 of
        Ok (v, pos) \<Rightarrow> if pos \<noteq> length buf then Err Trailing else Ok v
      | Err e \<Rightarrow> Err e | Out_of_fuel \<Rightarrow> Out_of_fuel)"

definition decode_prefix :: "bytes \<Rightarrow> (ben \<times> nat) parsed" where
  "decode_prefix buf = p_value (fuel_for buf) buf 0"

definition decode_torrent :: "bytes \<Rightarrow> (ben \<times> span) parsed" where
  "decode_torrent buf =
     (case value_tracking_info buf of
        Ok (v, pos, sp) \<Rightarrow> Ok (v, sp) | Err e \<Rightarrow> Err e | Out_of_fuel \<Rightarrow> Out_of_fuel)"

section \<open>The encoder\<close>

definition encode_bytes :: "bytes \<Rightarrow> bytes" where
  "encode_bytes b = as_bytes (show_nat (length b)) @ b_colon # b"

fun encode :: "ben \<Rightarrow> bytes" where
  "encode (BInt i) = b_i # as_bytes (show_int i) @ [b_e]"
| "encode (BBytes b) = encode_bytes b"
| "encode (BList l) = b_l # concat (map encode l) @ [b_e]"
| "encode (BDict d) = b_d # concat (map (\<lambda>(k, v). encode_bytes k @ encode v) d) @ [b_e]"

text \<open>Values of the Rust type: integers in range, byte strings addressable, dictionaries sorted.\<close>

fun ben_ok :: "ben \<Rightarrow> bool" where
  "ben_ok (BInt i) \<longleftrightarrow> - (2 ^ 63) \<le> i \<and> i < 2 ^ 63"
| "ben_ok (BBytes b) \<longleftrightarrow> length b < 2 ^ 64"
| "ben_ok (BList l) \<longleftrightarrow> (\<forall>v \<in> set l. ben_ok v)"
| "ben_ok (BDict d) \<longleftrightarrow> bt_inv d \<and> (\<forall>(k, v) \<in> set d. length k < 2 ^ 64 \<and> ben_ok v)"

section \<open>The grammar\<close>

text \<open>
  The texts of a value, independent of any buffer or position and of the parser's own number reading:
  what the parser accepts is stated against this relation.  Numbers are decimal, most significant digit
  first.  An integer is \<open>0\<close>, or digits without a leading zero and below \<open>2 ^ 63\<close>, or a minus sign and
  such digits up to \<open>2 ^ 63\<close>; so \<open>-0\<close>, \<open>03\<close> and \<open>-03\<close> are no integers.  Beyond the bencode specification
  the grammar has the two forms the code tolerates: a plus sign before the digits of an integer
  (then with leading zeros too), and leading zeros in the length of a byte string.
\<close>

definition dec_value :: "bytes \<Rightarrow> nat" where
  "dec_value ds = foldl (\<lambda>n d. 10 * n + (unat d - 48)) 0 ds"

definition digits_text :: "bytes \<Rightarrow> bool" where
  "digits_text ds \<longleftrightarrow> ds \<noteq> [] \<and> (\<forall>d \<in> set ds. 48 \<le> d \<and> d \<le> 57)"

inductive int_digits :: "int \<Rightarrow> bytes \<Rightarrow> bool" where
  digits_zero: "int_digits 0 [48]"
| digits_pos: "digits_text ds \<Longrightarrow> hd ds \<noteq> 48 \<Longrightarrow> dec_value ds < 2 ^ 63 \<Longrightarrow> int_digits (int (dec_value ds)) ds"
| digits_neg: "digits_text ds \<Longrightarrow> hd ds \<noteq> 48 \<Longrightarrow> dec_value ds \<le> 2 ^ 63 \<Longrightarrow> int_digits (- int (dec_value ds)) (45 # ds)"
| digits_plus: "digits_text ds \<Longrightarrow> dec_value ds < 2 ^ 63 \<Longrightarrow> int_digits (int (dec_value ds)) (43 # ds)"

definition key_text :: "bytes \<Rightarrow> bytes \<Rightarrow> bool" where
  "key_text b x \<longleftrightarrow> (\<exists>ds. digits_text ds \<and> dec_value ds = length b \<and> length b < 2 ^ 64 \<and> x = ds @ b_colon # b)"

inductive ben_text :: "ben \<Rightarrow> bytes \<Rightarrow> bool"
and list_text :: "ben list \<Rightarrow> bytes \<Rightarrow> bool"
and dict_text :: "(bytes \<times> ben) list \<Rightarrow> bytes \<Rightarrow> bool"
where
  int_text: "int_digits i ds \<Longrightarrow> ben_text (BInt i) (b_i # ds @ [b_e])"
| bytes_text: "key_text b x \<Longrightarrow> ben_text (BBytes b) x"
| list_value: "list_text l x \<Longrightarrow> ben_text (BList l) (b_l # x @ [b_e])"
| dict_value: "dict_text d x \<Longrightarrow> bt_inv d \<Longrightarrow> ben_text (BDict d) (b_d # x @ [b_e])"
| list_nil: "list_text [] []"
| list_cons: "ben_text v x \<Longrightarrow> list_text l y \<Longrightarrow> list_text (v # l) (x @ y)"
| dict_nil: "dict_text [] []"
| dict_cons: "key_text k kx \<Longrightarrow> ben_text v x \<Longrightarrow> dict_text d y \<Longrightarrow> dict_text ((k, v) # d) (kx @ x @ y)"

inductive_cases list_text_NilE: "list_text [] x"
inductive_cases list_text_ConsE: "list_text (v # l) x"

text \<open>The code's number reading agrees with the grammar's.\<close>

lemma foldl_digits_ge: "acc \<le> foldl (\<lambda>n d. 10 * n + (unat (d :: u8) - 48)) acc ds"
proof (induction ds arbitrary: acc)
  case (Cons d ds)
  have "acc \<le> 10 * acc + (unat d - 48)" by simp
  also have "\<dots> \<le> foldl (\<lambda>n d. 10 * n + (unat (d :: u8) - 48)) (10 * acc + (unat d - 48)) ds" by (rule Cons.IH)
  finally show ?case by simp
qed simp

lemma byte_mod [simp]: "unat (d :: u8) mod 256 = unat d"
proof -
  have "unat d < 2 ^ LENGTH(8)" by (rule unsigned_less)
  then show ?thesis by simp
qed

lemma char_byte_eq: "char_of (unat (d :: u8)) = c \<longleftrightarrow> d = word_of_nat (of_char c)"
proof
  assume "char_of (unat d) = c"
  then have "of_char c = unat d" by (metis byte_mod of_char_of)
  then show "d = word_of_nat (of_char c)" by simp
qed (simp add: unsigned_of_nat take_bit_nat_def)

lemma digit_byte_char_iff: "is_digit (char_of (unat (d :: u8))) \<longleftrightarrow> 48 \<le> d \<and> d \<le> 57"
  by (simp add: is_digit_def word_le_nat_alt)

lemma parse_digits_bytes:
  "acc \<le> mx \<Longrightarrow> parse_digits mx acc (str_of_bytes ds) = Some n \<longleftrightarrow>
     (\<forall>d \<in> set ds. 48 \<le> d \<and> d \<le> 57) \<and> n = foldl (\<lambda>n d. 10 * n + (unat d - 48)) acc ds \<and> n \<le> mx"
proof (induction ds arbitrary: acc)
  case Nil
  then show ?case by (auto simp: str_of_bytes_def)
next
  case (Cons d ds)
  have v: "digit_val (char_of (unat d)) = unat d - 48" by (simp add: digit_val_def)
  show ?case
  proof (cases "10 * acc + (unat d - 48) \<le> mx")
    case True
    then show ?thesis using Cons.IH [OF True] by (auto simp: str_of_bytes_def digit_byte_char_iff v)
  next
    case False
    then have "\<not> foldl (\<lambda>n d. 10 * n + (unat (d :: u8) - 48)) (10 * acc + (unat d - 48)) ds \<le> mx"
      using foldl_digits_ge [of "10 * acc + (unat d - 48)" ds] by linarith
    then show ?thesis using False by (auto simp: str_of_bytes_def v)
  qed
qed

lemma parse_digits_text:
  "ds \<noteq> [] \<Longrightarrow> parse_digits mx 0 (str_of_bytes ds) = Some n \<longleftrightarrow> digits_text ds \<and> n = dec_value ds \<and> dec_value ds \<le> mx"
  using parse_digits_bytes [of 0 mx ds n] by (auto simp: digits_text_def dec_value_def)

lemma parse_uint_text:
  assumes "\<forall>d \<in> set ds. is_digit_byte d"
  shows "parse_uint mx (str_of_bytes ds) = Some n \<longleftrightarrow> digits_text ds \<and> n = dec_value ds \<and> dec_value ds \<le> mx"
proof (cases ds)
  case Nil
  then show ?thesis by (simp add: parse_uint_def str_of_bytes_def digits_text_def)
next
  case (Cons d t)
  then have "d \<noteq> 43" using assms by (auto simp: is_digit_byte_def)
  then have "char_of (unat d) \<noteq> CHR ''+''" by (simp add: char_byte_eq)
  then have "parse_uint mx (str_of_bytes ds) = parse_digits mx 0 (str_of_bytes ds)"
    by (simp add: Cons parse_uint_def str_of_bytes_def)
  then show ?thesis using parse_digits_text [of ds] Cons by simp
qed

lemma bad_int_bytes:
  "bad_int_text (str_of_bytes (c # t)) \<longleftrightarrow> c = 45 \<and> t \<noteq> [] \<and> hd t = 48 \<or> c = 48 \<and> t \<noteq> []"
  by (cases t) (auto simp: bad_int_text_def str_of_bytes_def char_byte_eq)

lemma parse_i64_bytes:
  "parse_i64 (str_of_bytes (c # t)) = Some i \<longleftrightarrow>
     (if c = 45 then digits_text t \<and> dec_value t \<le> 2 ^ 63 \<and> i = - int (dec_value t)
      else if c = 43 then digits_text t \<and> dec_value t < 2 ^ 63 \<and> i = int (dec_value t)
      else digits_text (c # t) \<and> dec_value (c # t) < 2 ^ 63 \<and> i = int (dec_value (c # t)))"
proof -
  have t: "parse_digits mx 0 (str_of_bytes t) = Some n \<longleftrightarrow> digits_text t \<and> n = dec_value t \<and> dec_value t \<le> mx" if "t \<noteq> []" for mx n
    using that by (rule parse_digits_text)
  have ct: "parse_digits mx 0 (str_of_bytes (c # t)) = Some n \<longleftrightarrow> digits_text (c # t) \<and> n = dec_value (c # t) \<and> dec_value (c # t) \<le> mx" for mx n
    by (rule parse_digits_text) simp
  have emp: "str_of_bytes t = [] \<longleftrightarrow> t = []" "\<not> digits_text []" by (simp_all add: str_of_bytes_def digits_text_def)
  consider "c = 45" | "c = 43" | "c \<noteq> 45" "c \<noteq> 43" by blast
  then show ?thesis
  proof cases
    case 1
    have "char_of (unat c) = CHR ''-''" using 1 by (subst char_byte_eq) simp
    then have "parse_i64 (str_of_bytes (c # t)) =
        (if t = [] then None else map_option (\<lambda>n. - int n) (parse_digits (2 ^ 63) 0 (str_of_bytes t)))"
      using emp by (simp add: parse_i64_def str_of_bytes_def)
    then show ?thesis using 1 t emp by (cases "t = []") auto
  next
    case 2
    have "char_of (unat c) = CHR ''+''" using 2 by (subst char_byte_eq) simp
    then have "parse_i64 (str_of_bytes (c # t)) =
        (if t = [] then None else map_option int (parse_digits (2 ^ 63 - 1) 0 (str_of_bytes t)))"
      using emp by (simp add: parse_i64_def parse_uint_def str_of_bytes_def)
    then show ?thesis using 2 t emp by (cases "t = []") auto
  next
    case 3
    have "char_of (unat c) \<noteq> CHR ''+''" "char_of (unat c) \<noteq> CHR ''-''" using 3 by (simp_all add: char_byte_eq)
    then have "parse_i64 (str_of_bytes (c # t)) = map_option int (parse_digits (2 ^ 63 - 1) 0 (str_of_bytes (c # t)))"
      by (simp add: parse_i64_def parse_uint_def str_of_bytes_def)
    then show ?thesis using 3 ct by auto
  qed
qed

lemma int_digits_alt: "int_digits i ds \<longleftrightarrow> \<not> bad_int_text (str_of_bytes ds) \<and> parse_i64 (str_of_bytes ds) = Some i"
proof
  assume "int_digits i ds"
  then show "\<not> bad_int_text (str_of_bytes ds) \<and> parse_i64 (str_of_bytes ds) = Some i"
  proof cases
    case digits_zero
    then show ?thesis by (simp add: bad_int_bytes parse_i64_bytes digits_text_def dec_value_def)
  next
    case digits_pos
    moreover obtain c t where ct: "ds = c # t" using digits_pos(2) by (cases ds) (auto simp: digits_text_def)
    moreover have "c \<noteq> 45 \<and> c \<noteq> 43" using digits_pos(2) by (auto simp: ct digits_text_def)
    ultimately show ?thesis by (simp add: ct bad_int_bytes parse_i64_bytes)
  next
    case (digits_neg t)
    then show ?thesis by (simp add: bad_int_bytes parse_i64_bytes)
  next
    case (digits_plus t)
    then show ?thesis by (simp add: bad_int_bytes parse_i64_bytes)
  qed
next
  assume a: "\<not> bad_int_text (str_of_bytes ds) \<and> parse_i64 (str_of_bytes ds) = Some i"
  then obtain c t where ct: "ds = c # t" by (cases ds) (auto simp: bad_int_text_def str_of_bytes_def)
  note r = a [unfolded ct bad_int_bytes parse_i64_bytes]
  consider "c = 45" | "c = 43" | "c = 48" | "c \<noteq> 45" "c \<noteq> 43" "c \<noteq> 48" by blast
  then show "int_digits i ds"
  proof cases
    case 1
    then have "hd t \<noteq> 48" using r by (auto simp: digits_text_def)
    then show ?thesis using r 1 int_digits.digits_neg [of t] by (simp add: ct)
  next
    case 2
    then show ?thesis using r int_digits.digits_plus [of t] by (simp add: ct)
  next
    case 3
    then show ?thesis using r int_digits.digits_zero by (simp add: ct dec_value_def)
  next
    case 4
    then show ?thesis using r int_digits.digits_pos [of "c # t"] by (simp add: ct)
  qed
qed

lemma int_digits_no_end: "int_digits i ds \<Longrightarrow> b_e \<notin> set ds"
  by (induction rule: int_digits.induct) (auto simp: digits_text_def)

lemma int_digits_bound: "int_digits i ds \<Longrightarrow> - (2 ^ 63) \<le> i \<and> i < 2 ^ 63"
  by (induction rule: int_digits.induct) auto

lemma key_text_alt:
  "key_text b x \<longleftrightarrow> (\<exists>ds. (\<forall>d \<in> set ds. is_digit_byte d) \<and>
     parse_uint (2 ^ 64 - 1) (str_of_bytes ds) = Some (length b) \<and> x = ds @ b_colon # b)"
proof -
  have "digits_text ds \<and> dec_value ds = length b \<and> length b < 2 ^ 64 \<longleftrightarrow>
      (\<forall>d \<in> set ds. is_digit_byte d) \<and> parse_uint (2 ^ 64 - 1) (str_of_bytes ds) = Some (length b)" for ds
  proof (cases "\<forall>d \<in> set ds. is_digit_byte d")
    case True
    then show ?thesis using parse_uint_text [OF True] by auto
  qed (auto simp: digits_text_def is_digit_byte_def)
  then show ?thesis unfolding key_text_def by blast
qed

lemma peek_drop: "peek buf pos = Some c \<longleftrightarrow> (\<exists>t. drop pos buf = c # t)"
proof
  assume "peek buf pos = Some c"
  then show "\<exists>t. drop pos buf = c # t"
    by (auto simp: peek_def Cons_nth_drop_Suc [symmetric] split: if_splits)
next
  assume "\<exists>t. drop pos buf = c # t"
  then obtain t where t: "drop pos buf = c # t" by blast
  then have "pos < length buf" by (metis drop_all linorder_not_le list.distinct(1))
  then show "peek buf pos = Some c" using t by (simp add: peek_def) (metis nth_via_drop)
qed

lemma drop_append_shift: "drop pos buf = x @ r \<Longrightarrow> drop (pos + length x) buf = r"
  by (metis add.commute append_eq_conv_conj drop_drop)

lemma drop_Cons_shift: "drop pos buf = c # r \<Longrightarrow> drop (Suc pos) buf = r"
  by (metis drop_Suc list.sel(3) tl_drop)

lemma digits_first:
  assumes "parse_uint mx (str_of_bytes ds) = Some n"
  obtains d t where "ds = d # t"
  using assms by (cases ds) (auto simp: parse_uint_def str_of_bytes_def)

lemma key_text_first:
  assumes "key_text b x"
  obtains c t where "x = c # t" "is_digit_byte c"
  using assms unfolding key_text_alt by (metis append_Cons digits_first list.set_intros(1))

lemma key_text_length: "key_text b x \<Longrightarrow> length b < length x"
  by (auto simp: key_text_def)

text \<open>The tokens.\<close>

lemma colon_not_digit [simp]: "\<not> is_digit_byte b_colon"
  by (simp add: is_digit_byte_def)

lemma takeWhile_digits:
  "(\<forall>d \<in> set ds. is_digit_byte d) \<Longrightarrow> takeWhile is_digit_byte (ds @ b_colon # r) = ds"
  by (simp add: takeWhile_tail)

lemma byte_string_run:
  assumes "key_text b x" "drop pos buf = x @ r" "length buf < 2 ^ 64"
  shows "byte_string buf pos = Ok (b, pos + length x)"
proof -
  obtain ds where ds: "\<forall>d \<in> set ds. is_digit_byte d" "parse_uint (2 ^ 64 - 1) (str_of_bytes ds) = Some (length b)"
    and x: "x = ds @ b_colon # b" using assms(1) unfolding key_text_alt by blast
  have d: "drop pos buf = ds @ b_colon # (b @ r)" using assms(2) x by simp
  then have tw: "takeWhile is_digit_byte (drop pos buf) = ds" by (simp only: takeWhile_digits [OF ds(1)])
  have dc: "drop (pos + length ds) buf = b_colon # (b @ r)" using drop_append_shift [OF d] .
  then have pk: "peek buf (pos + length ds) = Some b_colon" by (auto simp: peek_drop)
  have db: "drop (pos + length ds + 1) buf = b @ r" using drop_Cons_shift [OF dc] by simp
  have ne: "b_colon # b @ r = drop (pos + length ds) buf" using dc by simp
  have "length (drop (pos + length ds) buf) = 1 + length b + length r" using dc by simp
  then have le: "pos + length ds + 1 + length b \<le> length buf" by simp
  then have "\<not> 2 ^ 64 - 1 < pos + length ds + 1 + length b" using assms(3) by simp
  then show ?thesis
    unfolding byte_string_def Let_def tw pk using ds(2) le db x by (simp del: One_nat_def)
qed

lemma byte_string_sound:
  assumes "byte_string buf pos = Ok (b, pos')"
  shows "\<exists>x r. key_text b x \<and> drop pos buf = x @ r \<and> pos' = pos + length x"
proof -
  define ds where "ds = takeWhile is_digit_byte (drop pos buf)"
  obtain len where len: "peek buf (pos + length ds) = Some b_colon"
      "parse_uint (2 ^ 64 - 1) (str_of_bytes ds) = Some len"
      "pos + length ds + 1 + len \<le> length buf"
      "b = take len (drop (pos + length ds + 1) buf)" "pos' = pos + length ds + 1 + len"
    using assms unfolding byte_string_def Let_def ds_def [symmetric]
    by (auto split: option.splits if_splits)
  have split: "drop pos buf = ds @ drop (pos + length ds) buf"
    unfolding ds_def by (metis add.commute append_eq_conv_conj drop_drop takeWhile_dropWhile_id)
  obtain t where t: "drop (pos + length ds) buf = b_colon # t" using len(1) by (auto simp: peek_drop)
  have t': "t = drop (pos + length ds + 1) buf" using drop_Cons_shift [OF t] by simp
  then have "t = b @ drop len t" using len(4) by (metis append_take_drop_id)
  then have "drop pos buf = (ds @ b_colon # b) @ drop len t" using split t by (metis append.assoc append_Cons)
  moreover have "length b = len" using len(3,4) by simp
  moreover have "\<forall>d \<in> set ds. is_digit_byte d" unfolding ds_def by (meson set_takeWhileD)
  ultimately show ?thesis
    using len(2,5) unfolding key_text_alt
    by (intro exI [of _ "ds @ b_colon # b"] exI [of _ "drop len t"] conjI exI [of _ ds]) auto
qed

lemma p_integer_run:
  assumes "int_digits i ds" "drop pos buf = (b_i # ds @ [b_e]) @ r"
  shows "p_integer buf pos = Ok (BInt i, pos + length (b_i # ds @ [b_e]))"
proof -
  have d: "drop (pos + 1) buf = ds @ b_e # r" using drop_Cons_shift assms(2) by fastforce
  have tw: "takeWhile (\<lambda>b. b \<noteq> b_e) (drop (pos + 1) buf) = ds"
    unfolding d using int_digits_no_end [OF assms(1)] by (subst takeWhile_tail) auto
  have "length (drop pos buf) = length ds + 2 + length r" using assms(2) by simp
  then have "\<not> length buf \<le> pos + 1 + length ds" by simp
  then show ?thesis unfolding p_integer_def Let_def tw using assms(1) by (simp add: int_digits_alt)
qed

lemma p_integer_sound:
  assumes "p_integer buf pos = Ok (v, pos')" "drop pos buf = b_i # t"
  shows "\<exists>x r. ben_text v x \<and> drop pos buf = x @ r \<and> pos' = pos + length x"
proof -
  define ds where "ds = takeWhile (\<lambda>b. b \<noteq> b_e) (drop (pos + 1) buf)"
  obtain i where i: "pos + 1 + length ds < length buf" "\<not> bad_int_text (str_of_bytes ds)"
      "parse_i64 (str_of_bytes ds) = Some i" "v = BInt i" "pos' = pos + 1 + length ds + 1"
    using assms(1) unfolding p_integer_def Let_def ds_def [symmetric]
    by (auto split: option.splits if_splits simp: not_le)
  have t: "t = drop (pos + 1) buf" using drop_Cons_shift [OF assms(2)] by simp
  define rest where "rest = dropWhile (\<lambda>b. b \<noteq> b_e) t"
  have split: "t = ds @ rest" unfolding ds_def rest_def t by simp
  then have "length t = length ds + length rest" by simp
  then have "rest \<noteq> []" using i(1) unfolding t by auto
  then have "rest = b_e # tl rest" unfolding rest_def by (metis (mono_tags) hd_dropWhile list.collapse)
  then have "drop pos buf = (b_i # ds @ [b_e]) @ tl rest" using assms(2) split by simp
  moreover have "int_digits i ds" using i(2,3) by (simp add: int_digits_alt)
  ultimately show ?thesis using i(4,5) int_text [of i ds] by fastforce
qed

text \<open>Completeness: the parser reads every text of the grammar, whatever follows it.\<close>

lemma text_first:
  assumes "ben_text v x"
  obtains c t where "x = c # t" "c \<noteq> b_e" "c = b_i \<or> c = b_l \<or> c = b_d \<or> is_digit_byte c"
proof -
  have "\<exists>c t. x = c # t \<and> c \<noteq> b_e \<and> (c = b_i \<or> c = b_l \<or> c = b_d \<or> is_digit_byte c)"
    using assms by cases (auto elim!: key_text_first simp: is_digit_byte_def)
  then show ?thesis using that by blast
qed

lemma bt_insert_last: "bt_inv (out @ (k, v) # d) \<Longrightarrow> bt_insert k v out = out @ [(k, v)]"
  by (induction k v out rule: bt_insert.induct) (auto simp: bt_inv_def)

definition last_of :: "(bytes \<times> ben) list \<Rightarrow> bytes option" where
  "last_of out = (if out = [] then None else Some (fst (last out)))"

lemma key_order_ok: "bt_inv (out @ (k, v) # d) \<Longrightarrow> \<not> key_order_bad (last_of out) k"
  by (cases out rule: rev_cases) (auto simp: key_order_bad_def last_of_def bt_inv_def sorted_wrt_append)

lemma last_of_snoc [simp]: "last_of (out @ [(k, v)]) = Some k"
  by (simp add: last_of_def)

lemma digit_not_tag: "is_digit_byte c \<Longrightarrow> c \<noteq> b_i \<and> c \<noteq> b_l \<and> c \<noteq> b_d \<and> c \<noteq> b_e"
  by (auto simp: is_digit_byte_def)

lemma parser_complete:
  assumes len: "length buf < 2 ^ 64"
  shows "ben_text v x \<Longrightarrow> drop pos buf = x @ r \<Longrightarrow> length x \<le> n \<Longrightarrow>
      p_value n buf pos = Ok (v, pos + length x)"
    and "list_text l x \<Longrightarrow> drop pos buf = x @ b_e # r \<Longrightarrow> length x < n \<Longrightarrow> length x \<le> m \<Longrightarrow>
      p_list (p_value m buf) n buf out pos = Ok (BList (out @ l), pos + length x + 1)"
    and "dict_text d x \<Longrightarrow> drop pos buf = x @ b_e # r \<Longrightarrow> length x < n \<Longrightarrow> length x \<le> m \<Longrightarrow>
      bt_inv (dout @ d) \<Longrightarrow>
      \<exists>sp'. p_dict (p_value m buf) n buf track sp (last_of dout) dout pos = Ok (BDict (dout @ d), pos + length x + 1, sp')"
proof (induction arbitrary: pos r n and pos r n m out and pos r n m dout sp track
    rule: ben_text_list_text_dict_text.inducts)
  case (int_text i ds)
  then obtain n' where n: "n = Suc n'" by (cases n) auto
  have "peek buf pos = Some b_i" using int_text.prems(1) by (auto simp: peek_drop)
  then show ?case using p_integer_run [OF int_text.hyps int_text.prems(1)] by (simp add: n)
next
  case (bytes_text b x)
  obtain c t where c: "x = c # t" "is_digit_byte c" using key_text_first [OF bytes_text.hyps] by blast
  then obtain n' where n: "n = Suc n'" using bytes_text.prems by (cases n) auto
  have "peek buf pos = Some c" using bytes_text.prems(1) c by (auto simp: peek_drop)
  then show ?case
    using byte_string_run [OF bytes_text.hyps bytes_text.prems(1) len] c(2) digit_not_tag [OF c(2)] by (simp add: n)
next
  case (list_value l x)
  then obtain n' where n: "n = Suc n'" by (cases n) auto
  have "peek buf pos = Some b_l" using list_value.prems(1) by (auto simp: peek_drop)
  moreover have "drop (pos + 1) buf = x @ b_e # r" using drop_Cons_shift list_value.prems(1) by fastforce
  from list_value.IH [OF this, of n' n' "[]"]
  have "p_list (p_value n' buf) n' buf [] (pos + 1) = Ok (BList l, pos + 1 + length x + 1)"
    using list_value.prems(2) by (simp add: n)
  ultimately show ?case by (simp add: n)
next
  case (dict_value d x)
  then obtain n' where n: "n = Suc n'" by (cases n) auto
  have "peek buf pos = Some b_d" using dict_value.prems(1) by (auto simp: peek_drop)
  moreover have "drop (pos + 1) buf = x @ b_e # r" using drop_Cons_shift dict_value.prems(1) by fastforce
  from dict_value.IH [OF this, of n' n' "[]" False None]
  obtain sp' where "p_dict (p_value n' buf) n' buf False None None [] (pos + 1) = Ok (BDict d, pos + 1 + length x + 1, sp')"
    using dict_value.prems(2) dict_value.hyps by (auto simp: n last_of_def)
  ultimately show ?case by (simp add: n)
next
  case list_nil
  then obtain n' where n: "n = Suc n'" by (cases n) auto
  have "peek buf pos = Some b_e" using list_nil.prems(1) by (auto simp: peek_drop)
  then show ?case by (simp add: n)
next
  case (list_cons v x l y)
  obtain c t where c: "x = c # t" "c \<noteq> b_e" using text_first [OF list_cons.hyps(1)] by blast
  obtain n' where n: "n = Suc n'" using list_cons.prems by (cases n) auto
  have d: "drop pos buf = x @ (y @ b_e # r)" using list_cons.prems(1) by simp
  have v: "p_value m buf pos = Ok (v, pos + length x)"
    using list_cons.IH(1) [OF d, of m] list_cons.prems(3) by simp
  have "p_list (p_value m buf) n' buf (out @ [v]) (pos + length x) = Ok (BList ((out @ [v]) @ l), pos + length x + length y + 1)"
    using list_cons.IH(2) [OF drop_append_shift [OF d], of n' m "out @ [v]"] list_cons.prems(2,3) c(1) by (simp add: n)
  moreover have "peek buf pos = Some c" using d c(1) by (auto simp: peek_drop)
  ultimately show ?case using c(2) v by (simp add: n add.assoc)
next
  case dict_nil
  then obtain n' where n: "n = Suc n'" by (cases n) auto
  have "peek buf pos = Some b_e" using dict_nil.prems(1) by (auto simp: peek_drop)
  then show ?case by (simp add: n)
next
  case (dict_cons k kx v x d y)
  obtain c t where c: "kx = c # t" "is_digit_byte c" using key_text_first [OF dict_cons.hyps(1)] by blast
  obtain n' where n: "n = Suc n'" using dict_cons.prems by (cases n) auto
  have d1: "drop pos buf = kx @ (x @ y @ b_e # r)" using dict_cons.prems(1) by simp
  have d2: "drop (pos + length kx) buf = x @ (y @ b_e # r)" by (rule drop_append_shift [OF d1])
  have k: "byte_string buf pos = Ok (k, pos + length kx)" by (rule byte_string_run [OF dict_cons.hyps(1) d1 len])
  have v: "p_value m buf (pos + length kx) = Ok (v, pos + length kx + length x)"
    using dict_cons.IH(1) [OF d2, of m] dict_cons.prems(3) by simp
  define sp1 where "sp1 = (if track \<and> k = info_key then Some (pos + length kx, pos + length kx + length x) else sp)"
  have "bt_inv ((dout @ [(k, v)]) @ d)" using dict_cons.prems(4) by simp
  from dict_cons.IH(2) [OF drop_append_shift [OF d2] _ _ this, of n' m track sp1]
  obtain sp' where "p_dict (p_value m buf) n' buf track sp1 (Some k) (dout @ [(k, v)]) (pos + length kx + length x) =
      Ok (BDict (dout @ (k, v) # d), pos + length kx + length x + length y + 1, sp')"
    using dict_cons.prems(2,3) c(1) by (auto simp: n)
  moreover have "peek buf pos = Some c" using d1 c(1) by (auto simp: peek_drop)
  ultimately show ?case
    using c(2) digit_not_tag [OF c(2)] k v key_order_ok [OF dict_cons.prems(4)] bt_insert_last [OF dict_cons.prems(4)]
    by (simp add: n sp1_def [symmetric] add.assoc [symmetric])
qed

text \<open>Soundness: what the parser returns is the value of the text it consumed.\<close>

definition val_sound :: "bytes \<Rightarrow> (nat \<Rightarrow> (ben \<times> nat) parsed) \<Rightarrow> bool" where
  "val_sound buf val \<longleftrightarrow> (\<forall>pos v pos'. val pos = Ok (v, pos') \<longrightarrow>
     (\<exists>x r. ben_text v x \<and> drop pos buf = x @ r \<and> pos' = pos + length x))"

lemma p_list_sound:
  "val_sound buf val \<Longrightarrow> p_list val n buf out pos = Ok (v, pos') \<Longrightarrow>
     \<exists>l x r. v = BList (out @ l) \<and> list_text l x \<and> drop pos buf = x @ b_e # r \<and> pos' = pos + length x + 1"
proof (induction val n buf out pos rule: p_list.induct)
  case (2 val n buf out pos)
  from "2.prems"(2) obtain c where c: "peek buf pos = Some c" by (auto split: option.splits)
  then obtain t where t: "drop pos buf = c # t" by (auto simp: peek_drop)
  show ?case
  proof (cases "c = b_e")
    case True
    then show ?thesis using "2.prems"(2) c t list_nil
      by (intro exI [of _ "[]"] exI [of _ "[]"] exI [of _ t]) auto
  next
    case False
    then obtain w q where w: "val pos = Ok (w, q)" and rest: "p_list val n buf (out @ [w]) q = Ok (v, pos')"
      using "2.prems"(2) c by (auto split: parsed.splits)
    obtain x r where x: "ben_text w x" "drop pos buf = x @ r" "q = pos + length x"
      using "2.prems"(1) w unfolding val_sound_def by blast
    obtain l y r' where l: "v = BList ((out @ [w]) @ l)" "list_text l y" "drop q buf = y @ b_e # r'" "pos' = q + length y + 1"
      using "2.IH" [OF c False w refl "2.prems"(1) rest] by blast
    have "drop pos buf = (x @ y) @ b_e # r'" using x(2,3) l(3) drop_append_shift [OF x(2)] by simp
    then show ?thesis using l x list_cons [OF x(1) l(2)]
      by (intro exI [of _ "w # l"] exI [of _ "x @ y"] exI [of _ r']) auto
  qed
qed simp

definition span_text :: "bytes \<Rightarrow> (bytes \<times> ben) list \<Rightarrow> bool \<Rightarrow> span \<Rightarrow> span \<Rightarrow> bool" where
  "span_text buf d track sp sp' \<longleftrightarrow>
     (if track \<and> info_key \<in> fst ` set d
      then \<exists>a b v. sp' = Some (a, b) \<and> (info_key, v) \<in> set d \<and> a \<le> b \<and> b \<le> length buf \<and>
             ben_text v (take (b - a) (drop a buf))
      else sp' = sp)"

lemma key_order_bad_iff: "bt_inv out \<Longrightarrow> \<not> key_order_bad (last_of out) k \<Longrightarrow> bt_inv (out @ [(k, v)])"
  by (cases out rule: rev_cases)
    (auto simp: key_order_bad_def last_of_def bt_inv_def sorted_wrt_append not_le intro: less_trans)

lemma p_dict_sound:
  "val_sound buf val \<Longrightarrow> bt_inv out \<Longrightarrow> last_key = last_of out \<Longrightarrow>
   p_dict val n buf track sp last_key out pos = Ok (v, pos', sp') \<Longrightarrow>
     \<exists>d x r. v = BDict (out @ d) \<and> bt_inv (out @ d) \<and> dict_text d x \<and> drop pos buf = x @ b_e # r \<and>
       pos' = pos + length x + 1 \<and> span_text buf d track sp sp'"
proof (induction val n buf track sp last_key out pos rule: p_dict.induct)
  case (2 val n buf track sp last_key out pos)
  from "2.prems"(4) obtain c where c: "peek buf pos = Some c" by (auto split: option.splits)
  then obtain t where t: "drop pos buf = c # t" by (auto simp: peek_drop)
  show ?case
  proof (cases "c = b_e")
    case True
    then have "v = BDict out" "pos' = pos + 1" "sp' = sp" using "2.prems"(4) c by simp_all
    then show ?thesis using True t "2.prems"(2) dict_nil
      by (intro exI [of _ "[]"] exI [of _ "[]"] exI [of _ t]) (auto simp: span_text_def)
  next
    case False
    then obtain k q w q' where dig: "is_digit_byte c" and k: "byte_string buf pos = Ok (k, q)"
        and ord: "\<not> key_order_bad last_key k" and w: "val q = Ok (w, q')"
        and rest: "p_dict val n buf track (if track \<and> k = info_key then Some (q, q') else sp) (Some k)
          (bt_insert k w out) q' = Ok (v, pos', sp')"
      using "2.prems"(4) c by (auto split: parsed.splits if_splits simp del: if_split)
    obtain kx r0 where kx: "key_text k kx" "drop pos buf = kx @ r0" "q = pos + length kx"
      using byte_string_sound [OF k] by blast
    obtain x r where x: "ben_text w x" "drop q buf = x @ r" "q' = q + length x"
      using "2.prems"(1) w unfolding val_sound_def by blast
    have inv: "bt_inv (out @ [(k, w)])"
      using key_order_bad_iff [OF "2.prems"(2)] ord "2.prems"(3) by simp
    have ins: "bt_insert k w out = out @ [(k, w)]" using inv by (intro bt_insert_last [where d = "[]"])
    define sp1 where "sp1 = (if track \<and> k = info_key then Some (q, q') else sp)"
    have "\<exists>d y r. v = BDict (bt_insert k w out @ d) \<and> bt_inv (bt_insert k w out @ d) \<and> dict_text d y \<and>
        drop q' buf = y @ b_e # r \<and> pos' = q' + length y + 1 \<and> span_text buf d track sp1 sp'"
      unfolding sp1_def
      by (rule "2.IH" [OF c False _ k refl ord w refl "2.prems"(1) _ _ rest]) (use dig inv ins in auto)
    then obtain d y r' where d: "v = BDict ((out @ [(k, w)]) @ d)" "bt_inv ((out @ [(k, w)]) @ d)" "dict_text d y"
        "drop q' buf = y @ b_e # r'" "pos' = q' + length y + 1" "span_text buf d track sp1 sp'"
      unfolding ins by blast
    have r0: "r0 = x @ r" using drop_append_shift [OF kx(2)] x(2) kx(3) by simp
    have r: "r = y @ b_e # r'" using drop_append_shift [OF x(2)] d(4) x(3) by simp
    have all: "drop pos buf = (kx @ x @ y) @ b_e # r'" using kx(2) r0 r by simp
    have "x \<noteq> []" using text_first [OF x(1)] by blast
    moreover have "length buf - q = length x + length r" using x(2) by (metis length_append length_drop)
    ultimately have le: "q' \<le> length buf" using x(3) by (cases x) auto
    have slice: "take (q' - q) (drop q buf) = x" using x(2,3) by simp
    have notin: "info_key \<notin> fst ` set d" if "k = info_key"
      using d(2) that by (auto simp: bt_inv_def sorted_wrt_append)
    have "span_text buf ((k, w) # d) track sp sp'"
    proof (cases "track \<and> info_key \<in> fst ` set d")
      case True
      then show ?thesis using d(6) by (auto simp: span_text_def)
    next
      case False
      then have "sp' = sp1" using d(6) by (simp add: span_text_def)
      then show ?thesis
        using False slice x(1,3) le by (auto simp: span_text_def sp1_def)
    qed
    then show ?thesis
      using d all kx(3) x(3) dict_cons [OF kx(1) x(1) d(3)]
      by (intro exI [of _ "(k, w) # d"] exI [of _ "kx @ x @ y"] exI [of _ r']) auto
  qed
qed simp

lemma p_value_sound: "val_sound buf (p_value n buf)"
proof (induction n)
  case (Suc n)
  show ?case unfolding val_sound_def
  proof (intro allI impI)
    fix pos v pos' assume ok: "p_value (Suc n) buf pos = Ok (v, pos')"
    then obtain c where c: "peek buf pos = Some c" by (auto split: option.splits)
    then obtain t where t: "drop pos buf = c # t" by (auto simp: peek_drop)
    then have t': "drop (pos + 1) buf = t" using drop_Cons_shift by fastforce
    consider "c = b_i" | "c = b_l" | "c = b_d" | "c \<noteq> b_i" "c \<noteq> b_l" "c \<noteq> b_d" by blast
    then show "\<exists>x r. ben_text v x \<and> drop pos buf = x @ r \<and> pos' = pos + length x"
    proof cases
      case 1
      then show ?thesis using ok c t p_integer_sound [of buf pos v pos' t] by simp
    next
      case 2
      then have "p_list (p_value n buf) n buf [] (pos + 1) = Ok (v, pos')" using ok c by simp
      from p_list_sound [OF Suc this] obtain l x r where
        "v = BList l" "list_text l x" "drop (pos + 1) buf = x @ b_e # r" "pos' = pos + 1 + length x + 1" by auto
      then show ?thesis using 2 t t' list_value [of l x]
        by (intro exI [of _ "b_l # x @ [b_e]"] exI [of _ r]) auto
    next
      case 3
      then obtain sp where "p_dict (p_value n buf) n buf False None None [] (pos + 1) = Ok (v, pos', sp)"
        using ok c by (auto split: parsed.splits)
      from p_dict_sound [OF Suc _ _ this] obtain d x r where
        "v = BDict d" "bt_inv d" "dict_text d x" "drop (pos + 1) buf = x @ b_e # r" "pos' = pos + 1 + length x + 1"
        by (auto simp: last_of_def)
      then show ?thesis using 3 t t' dict_value [of d x]
        by (intro exI [of _ "b_d # x @ [b_e]"] exI [of _ r]) auto
    next
      case 4
      then obtain b where "byte_string buf pos = Ok (b, pos')" "v = BBytes b"
        using ok c by (auto split: parsed.splits if_splits)
      then show ?thesis using byte_string_sound [of buf pos b pos'] bytes_text by blast
    qed
  qed
qed (simp add: val_sound_def)

text \<open>Termination: fuel beyond the bytes that remain is never used up.\<close>

definition val_total :: "bytes \<Rightarrow> nat \<Rightarrow> (nat \<Rightarrow> (ben \<times> nat) parsed) \<Rightarrow> bool" where
  "val_total buf m val \<longleftrightarrow> (\<forall>pos. length buf - pos < m \<longrightarrow> val pos \<noteq> Out_of_fuel)"

lemma text_shrinks: "ben_text v x \<Longrightarrow> drop pos buf = x @ r \<Longrightarrow> length buf - (pos + length x) < length buf - pos"
  by (erule text_first) (auto dest: arg_cong [where f = length])

lemma p_list_total:
  "val_sound buf val \<Longrightarrow> val_total buf m val \<Longrightarrow> length buf - pos < m \<Longrightarrow> length buf - pos < n \<Longrightarrow>
     p_list val n buf out pos \<noteq> Out_of_fuel"
proof (induction val n buf out pos rule: p_list.induct)
  case (2 val n buf out pos)
  show ?case
  proof (cases "peek buf pos")
    case (Some c)
    show ?thesis
    proof (cases "c = b_e")
      case False
      show ?thesis
      proof (cases "val pos")
        case (Ok a)
        obtain w q where a: "a = (w, q)" by (cases a)
        have "length buf - q < length buf - pos"
          using "2.prems"(1) Ok text_shrinks unfolding val_sound_def a by blast
        then have "p_list val n buf (out @ [w]) q \<noteq> Out_of_fuel"
          using "2.IH" [OF Some False] Ok a "2.prems" by auto
        then show ?thesis using Some False Ok a by simp
      qed (use Some False "2.prems" in \<open>auto simp: val_total_def\<close>)
    qed (simp add: Some)
  qed simp
qed simp

lemma byte_string_total [simp]: "byte_string buf pos \<noteq> Out_of_fuel"
  by (auto simp: byte_string_def Let_def split: option.splits)

lemma p_integer_total [simp]: "p_integer buf pos \<noteq> Out_of_fuel"
  by (auto simp: p_integer_def Let_def split: option.splits)

lemma p_dict_total:
  "val_sound buf val \<Longrightarrow> val_total buf m val \<Longrightarrow> length buf - pos < m \<Longrightarrow> length buf - pos < n \<Longrightarrow>
     p_dict val n buf track sp last_key out pos \<noteq> Out_of_fuel"
proof (induction val n buf track sp last_key out pos rule: p_dict.induct)
  case (2 val n buf track sp last_key out pos)
  show ?case
  proof (cases "p_dict val (Suc n) buf track sp last_key out pos = Out_of_fuel")
    case True
    then obtain c k q where c: "peek buf pos = Some c" "c \<noteq> b_e" "is_digit_byte c"
        and k: "byte_string buf pos = Ok (k, q)" "\<not> key_order_bad last_key k"
        and nv: "val q = Out_of_fuel \<or> (\<exists>w q'. val q = Ok (w, q'))"
      by (auto split: option.splits if_splits parsed.splits)
    obtain kx r where kx: "key_text k kx" "drop pos buf = kx @ r" "q = pos + length kx"
      using byte_string_sound [OF k(1)] by blast
    then have q: "length buf - q < length buf - pos" using bytes_text text_shrinks by blast
    then have "val q \<noteq> Out_of_fuel" using "2.prems"(2,3) unfolding val_total_def by auto
    then obtain w q' where w: "val q = Ok (w, q')" using nv by blast
    have "length buf - q' < length buf - q" using "2.prems"(1) w text_shrinks unfolding val_sound_def by blast
    then have "p_dict val n buf track (if track \<and> k = info_key then Some (q, q') else sp) (Some k)
        (bt_insert k w out) q' \<noteq> Out_of_fuel"
      using "2.IH" [OF c(1,2) _ k(1) refl k(2) w refl] "2.prems" q c(3) by auto
    then have False using True c k w by (simp del: not_None_eq if_split)
    then show ?thesis by blast
  qed
qed simp

lemma p_value_total: "val_total buf n (p_value n buf)"
proof (induction n)
  case (Suc n)
  show ?case unfolding val_total_def
  proof (intro allI impI)
    fix pos assume n: "length buf - pos < Suc n"
    show "p_value (Suc n) buf pos \<noteq> Out_of_fuel"
    proof (cases "peek buf pos")
      case (Some c)
      then have "length buf - (pos + 1) < n" using n by (auto simp: peek_def split: if_splits)
      note inner = p_list_total [OF p_value_sound Suc this this, of "[]"]
        p_dict_total [OF p_value_sound Suc this this, of False None None "[]"]
      then show ?thesis using Some by (auto split: parsed.splits)
    qed simp
  qed
qed (simp add: val_total_def)

section \<open>The decoder accepts exactly the grammar\<close>

lemma p_value_entry:
  assumes "length buf < 2 ^ 64"
  shows "p_value (fuel_for buf) buf 0 = Ok (v, n) \<longleftrightarrow> (\<exists>x r. ben_text v x \<and> buf = x @ r \<and> n = length x)"
proof
  assume "p_value (fuel_for buf) buf 0 = Ok (v, n)"
  then show "\<exists>x r. ben_text v x \<and> buf = x @ r \<and> n = length x"
    using p_value_sound [of buf "fuel_for buf"] unfolding val_sound_def by fastforce
next
  assume "\<exists>x r. ben_text v x \<and> buf = x @ r \<and> n = length x"
  then obtain x r where x: "ben_text v x" "buf = x @ r" "n = length x" by blast
  then show "p_value (fuel_for buf) buf 0 = Ok (v, n)"
    using parser_complete(1) [OF assms x(1), of 0 r "fuel_for buf"] by (simp add: fuel_for_def)
qed

lemma p_value_no_fuel: "p_value (fuel_for buf) buf 0 \<noteq> Out_of_fuel"
  using p_value_total [of buf "fuel_for buf"] by (simp add: val_total_def fuel_for_def)

lemma decode_iff: "length buf < 2 ^ 64 \<Longrightarrow> decode buf = Ok v \<longleftrightarrow> ben_text v buf"
proof
  assume "length buf < 2 ^ 64" "decode buf = Ok v"
  then show "ben_text v buf"
    using p_value_entry [of buf v "length buf"] by (auto simp: decode_def split: parsed.splits if_splits)
next
  assume "length buf < 2 ^ 64" "ben_text v buf"
  then have "p_value (fuel_for buf) buf 0 = Ok (v, length buf)"
    using p_value_entry [of buf v "length buf"] by auto
  then show "decode buf = Ok v" by (simp add: decode_def)
qed

text \<open>
  C37. The decoder returns on every input, and what it accepts is the grammar above, that is bencode (no
  leading zeros and no negative zero in integers, keys in strict order) with two tolerated number forms:
  a buffer decodes to a value exactly when it is a text of that value, and a prefix decodes exactly when
  it is such a text followed by anything, with the number of bytes consumed.
\<close>

theorem bencode_decodes_grammar:
  assumes "length buf < 2 ^ 64"
  shows "decode buf \<noteq> Out_of_fuel \<and> (\<forall>v. decode buf = Ok v \<longleftrightarrow> ben_text v buf) \<and>
    decode_prefix buf \<noteq> Out_of_fuel \<and>
    (\<forall>v n. decode_prefix buf = Ok (v, n) \<longleftrightarrow> (\<exists>x r. ben_text v x \<and> buf = x @ r \<and> n = length x))"
  using p_value_entry [OF assms] p_value_no_fuel [of buf] decode_iff [OF assms]
  by (auto simp: decode_prefix_def decode_def split: parsed.splits)

section \<open>Round trip\<close>

lemma str_of_as_bytes [simp]: "str_of_bytes (as_bytes s) = s"
  by (induction s) (simp_all add: str_of_bytes_def as_bytes_def unsigned_of_nat take_bit_nat_def)

lemma digit_byte_char: "is_digit c \<Longrightarrow> is_digit_byte (word_of_nat (of_char c))"
  by (simp add: is_digit_def is_digit_byte_def word_le_nat_alt unsigned_of_nat take_bit_nat_def)

lemma key_text_encode: "length b < 2 ^ 64 \<Longrightarrow> key_text b (encode_bytes b)"
  unfolding key_text_alt encode_bytes_def
proof (intro exI [of _ "as_bytes (show_nat (length b))"] conjI refl)
  show "\<forall>d \<in> set (as_bytes (show_nat (length b))). is_digit_byte d"
    by (auto simp: as_bytes_def dest: show_nat_digits digit_byte_char)
qed (simp add: parse_uint_show)

lemma digit_char_zero: "digit_char 0 = CHR ''0''"
  by code_simp

lemma digit_char_zero_iff: "d < 10 \<Longrightarrow> digit_char d = CHR ''0'' \<longleftrightarrow> d = 0"
  by (metis digit_char_zero digit_val_digit_char zero_less_numeral)

lemma show_nat_first: "take 1 (show_nat n) = ''0'' \<longleftrightarrow> n = 0"
proof (induction n rule: show_nat.induct)
  case (1 n)
  show ?case
  proof (cases "n < 10")
    case True
    then show ?thesis by (simp add: show_nat.simps [of n] digit_char_zero_iff)
  next
    case False
    then have "take 1 (show_nat n) = take 1 (show_nat (n div 10))"
      by (simp add: show_nat.simps [of n]) (metis Suc_leI diff_is_0_eq length_greater_0_conv show_nat_nonempty take0)
    then show ?thesis using 1 False by simp
  qed
qed

lemma show_nat_zero: "show_nat 0 = ''0''"
  by (simp add: show_nat.simps digit_char_zero)

lemma show_nat_no_sign: "show_nat n = c # cs \<Longrightarrow> c \<noteq> CHR ''-''"
  using show_nat_digits [of c n] by (auto simp: is_digit_def)

lemma parse_show_int:
  assumes "- (2 ^ 63) \<le> i" "i < 2 ^ 63"
  shows "parse_i64 (show_int i) = Some i \<and> \<not> bad_int_text (show_int i) \<and> b_e \<notin> set (as_bytes (show_int i))"
proof (intro conjI)
  show "parse_i64 (show_int i) = Some i"
  proof (cases "i < 0")
    case True
    then have "nat (- i) \<le> 2 ^ 63" using assms by simp
    then show ?thesis using True by (simp add: parse_i64_def show_int_def parse_digits_show)
  next
    case False
    then have n: "nat i \<le> 2 ^ 63 - 1" using assms by simp
    obtain c cs where c: "show_nat (nat i) = c # cs" by (meson show_nat_nonempty neq_Nil_conv)
    then show ?thesis
      using False parse_uint_show [OF n] show_nat_no_sign [OF c] by (simp add: parse_i64_def show_int_def)
  qed
  show "\<not> bad_int_text (show_int i)"
  proof (cases "i < 0")
    case True
    then have "take 1 (show_nat (nat (- i))) \<noteq> ''0''" unfolding show_nat_first by simp
    then show ?thesis using True
      by (cases "show_nat (nat (- i))") (auto simp: bad_int_text_def show_int_def)
  next
    case False
    obtain c cs where c: "show_nat (nat i) = c # cs" by (meson show_nat_nonempty neq_Nil_conv)
    then show ?thesis
      using False show_nat_first [of "nat i"] show_nat_no_sign [OF c] show_nat_zero
      by (auto simp: bad_int_text_def show_int_def)
  qed
  have "CHR ''e'' \<notin> set (show_nat n)" for n
    using show_nat_digits [of "CHR ''e''" n] by (auto simp: is_digit_def)
  then have "c \<noteq> CHR ''e''" if "c \<in> set (show_int i)" for c
    using that by (auto simp: show_int_def split: if_splits)
  moreover have "word_of_nat (of_char c) = b_e \<longleftrightarrow> c = CHR ''e''" for c
  proof
    assume "word_of_nat (of_char c) = b_e"
    then have "unat (word_of_nat (of_char c) :: u8) = 101" by simp
    then have "(of_char c :: nat) = of_char (CHR ''e'')" by (simp add: unsigned_of_nat take_bit_nat_def)
    then show "c = CHR ''e''" by (metis char_of_char)
  qed simp
  ultimately show "b_e \<notin> set (as_bytes (show_int i))"
    unfolding as_bytes_def set_map image_iff by metis
qed

lemma dict_text_encode:
  "\<forall>(k, v) \<in> set d. length k < 2 ^ 64 \<and> ben_text v (encode v) \<Longrightarrow>
     dict_text d (concat (map (\<lambda>(k, v). encode_bytes k @ encode v) d))"
proof (induction d)
  case (Cons e d)
  obtain k v where e: "e = (k, v)" by (cases e)
  then show ?case using Cons dict_cons [OF key_text_encode, of k v "encode v"] by simp
qed (simp add: dict_nil)

lemma encode_text: "ben_ok v \<Longrightarrow> ben_text v (encode v)"
proof (induction v rule: encode.induct)
  case (1 i)
  then show ?case using parse_show_int [of i] int_text [of i "as_bytes (show_int i)"] by (simp add: int_digits_alt)
next
  case (2 b)
  then show ?case by (simp add: bytes_text key_text_encode)
next
  case (3 l)
  have "list_text l (concat (map encode l))" using 3 by (induction l) (auto intro: list_nil list_cons)
  then show ?case by (simp add: list_value)
next
  case (4 d)
  have "dict_text d (concat (map (\<lambda>(k, v). encode_bytes k @ encode v) d))"
    using 4 by (intro dict_text_encode) auto
  then show ?case using 4 by (simp add: dict_value)
qed

lemma text_ok:
  "ben_text v x \<Longrightarrow> length x < 2 ^ 64 \<Longrightarrow> ben_ok v"
  "list_text l x \<Longrightarrow> length x < 2 ^ 64 \<Longrightarrow> \<forall>v \<in> set l. ben_ok v"
  "dict_text d x \<Longrightarrow> length x < 2 ^ 64 \<Longrightarrow> \<forall>(k, v) \<in> set d. length k < 2 ^ 64 \<and> ben_ok v"
proof (induction rule: ben_text_list_text_dict_text.inducts)
  case (int_text i ds)
  then show ?case using int_digits_bound [of i ds] by simp
next
  case (bytes_text b x)
  then show ?case using key_text_length by fastforce
next
  case (dict_cons k kx v x d y)
  then show ?case using key_text_length [of k kx] by auto
qed auto

text \<open>
  C38. Encoding and decoding are inverse: every value of the Rust type decodes back from its canonical
  encoding, also when other bytes follow it (the shape of a \<open>ut_metadata\<close> message), and the decoder only
  produces such values: integers in the \<open>i64\<close> range and dictionaries in strict key order.
\<close>

theorem bencode_roundtrip:
  assumes "ben_ok v" "length (encode v @ rest) < 2 ^ 64"
  shows "decode (encode v) = Ok v \<and> decode_prefix (encode v @ rest) = Ok (v, length (encode v)) \<and>
    (\<forall>w. decode rest = Ok w \<longrightarrow> ben_ok w)"
proof -
  have t: "ben_text v (encode v)" by (rule encode_text [OF assms(1)])
  have "length (encode v) < 2 ^ 64" "length rest < 2 ^ 64" using assms(2) by auto
  then show ?thesis
    using t p_value_entry [OF assms(2)] decode_iff text_ok(1) unfolding decode_prefix_def by blast
qed

definition ex_ben :: ben where
  "ex_ben = BDict [(as_bytes ''a'', BInt (-7)), (as_bytes ''b'', BList [BBytes [1, 2], BInt 0])]"

theorem bencode_roundtrip_witness:
  "ben_ok ex_ben \<and> decode (encode ex_ben) = Ok ex_ben"
proof -
  have ok: "ben_ok ex_ben" by (simp add: ex_ben_def as_bytes_def bt_inv_def)
  have "length (encode ex_ben @ []) < 100" by code_simp
  then have "length (encode ex_ben @ []) < 2 ^ 64" by simp
  from bencode_roundtrip [OF ok this] ok show ?thesis by blast
qed

section \<open>The info span\<close>

lemma span_in_range: "ben_text v (take (b - a) (drop a buf)) \<Longrightarrow> length buf < 2 ^ 64 \<Longrightarrow>
    decode (take (b - a) (drop a buf)) = Ok v"
  by (subst decode_iff) auto

lemma torrent_info_span_lemma:
  assumes len: "length buf < 2 ^ 64" and ok: "decode_torrent buf = Ok (v, sp)"
  shows "case sp of
      None \<Rightarrow> ben_get ''info'' v = None
    | Some (a, b) \<Rightarrow> a \<le> b \<and> b \<le> length buf \<and>
        (\<exists>w. ben_get ''info'' v = Some w \<and> decode (take (b - a) (drop a buf)) = Ok w)"
proof -
  obtain pos where t: "value_tracking_info buf = Ok (v, pos, sp)"
    using ok by (auto simp: decode_torrent_def split: parsed.splits)
  then obtain c where c: "peek buf 0 = Some c" by (auto simp: value_tracking_info_def split: option.splits)
  show ?thesis
  proof (cases "c = b_d")
    case True
    then have "p_dict (p_value (length buf) buf) (length buf) buf True None None [] 1 = Ok (v, pos, sp)"
      using t c by (simp add: value_tracking_info_def)
    from p_dict_sound [OF p_value_sound _ _ this] obtain d where
      d: "v = BDict d" "bt_inv d" "span_text buf d True None sp" by (auto simp: last_of_def)
    have get: "ben_get ''info'' v = map_of d info_key" by (simp add: ben_get_def d(1) info_key_def)
    show ?thesis
    proof (cases "info_key \<in> fst ` set d")
      case True
      then obtain a b w where "sp = Some (a, b)" "(info_key, w) \<in> set d" "a \<le> b" "b \<le> length buf"
          "ben_text w (take (b - a) (drop a buf))"
        using d(3) by (auto simp: span_text_def)
      then show ?thesis using get span_in_range [OF _ len] bt_entry_iff [OF d(2)] by auto
    next
      case False
      then show ?thesis using d(3) get by (auto simp: span_text_def map_of_eq_None_iff)
    qed
  next
    case False
    then have pv: "p_value (fuel_for buf) buf 0 = Ok (v, pos)" and sp: "sp = None"
      using t c by (auto simp: value_tracking_info_def split: parsed.splits)
    have "ben_as_dict v = None"
    proof (cases v)
      case (BDict d)
      then obtain x r where "ben_text (BDict d) x" "buf = x @ r" using pv p_value_entry [OF len] by blast
      then have "peek buf 0 = Some b_d" by (auto elim: ben_text.cases simp: peek_drop)
      then show ?thesis using c False by simp
    qed auto
    then show ?thesis by (simp add: sp ben_get_def)
  qed
qed

text \<open>
  The info-hash is taken over the right bytes: when a torrent decodes, the recorded span is present
  exactly when the top dictionary has an \<open>info\<close> entry, lies inside the input, and its bytes are, alone, a
  complete text of exactly the \<open>info\<close> value that the rest of the code reads its fields from.
\<close>

theorem torrent_info_span:
  assumes "length buf < 2 ^ 64" "decode_torrent buf = Ok (v, sp)"
  shows "case sp of
      None \<Rightarrow> ben_get ''info'' v = None
    | Some (a, b) \<Rightarrow> a \<le> b \<and> b \<le> length buf \<and>
        (\<exists>w. ben_get ''info'' v = Some w \<and> decode (take (b - a) (drop a buf)) = Ok w)"
  using assms by (rule torrent_info_span_lemma)

lemma char_codes:
  "char_of (43::nat) = CHR ''+''" "char_of (45::nat) = CHR ''-''" "char_of (48::nat) = CHR ''0''" "char_of (49::nat) = CHR ''1''"
  "char_of (50::nat) = CHR ''2''" "char_of (51::nat) = CHR ''3''" "char_of (52::nat) = CHR ''4''"
  "char_of (53::nat) = CHR ''5''" "char_of (54::nat) = CHR ''6''" "char_of (55::nat) = CHR ''7''"
  "char_of (56::nat) = CHR ''8''" "char_of (57::nat) = CHR ''9''"
  by code_simp+

lemmas run_simps = char_codes decode_def decode_torrent_def value_tracking_info_def fuel_for_def as_bytes_def peek_def
  p_integer_def Let_def str_of_bytes_def bad_int_text_def parse_i64_def parse_uint_def is_digit_def digit_val_def
  byte_string_def is_digit_byte_def key_order_bad_def info_key_def

theorem bencode_decodes_grammar_witness:
  "ben_text (BInt (-7)) (as_bytes ''i-7e'') \<and> \<not> ben_text (BInt 3) (as_bytes ''i03e'') \<and> \<not> ben_text (BInt 0) (as_bytes ''i-0e'')"
proof -
  have "decode (as_bytes ''i-7e'') = Ok (BInt (-7))" "decode (as_bytes ''i03e'') = Err BadInt" "decode (as_bytes ''i-0e'') = Err BadInt"
    by (simp_all add: run_simps)
  moreover have "length (as_bytes ''i-7e'') < 2 ^ 64" "length (as_bytes ''i03e'') < 2 ^ 64" "length (as_bytes ''i-0e'') < 2 ^ 64"
    by simp_all
  ultimately show ?thesis
    using bencode_decodes_grammar [of "as_bytes ''i-7e''"] bencode_decodes_grammar [of "as_bytes ''i03e''"]
      bencode_decodes_grammar [of "as_bytes ''i-0e''"] by auto
qed

theorem torrent_info_span_witness:
  "decode_torrent (as_bytes ''d4:infoi7ee'') = Ok (BDict [(as_bytes ''info'', BInt 7)], Some (7, 10)) \<and>
   decode (take 3 (drop 7 (as_bytes ''d4:infoi7ee''))) = Ok (BInt 7)"
proof -
  have d: "decode_torrent (as_bytes ''d4:infoi7ee'') = Ok (BDict [(as_bytes ''info'', BInt 7)], Some (7, 10))"
    by (simp add: run_simps)
  have "length (as_bytes ''d4:infoi7ee'') < 2 ^ 64" by simp
  from torrent_info_span [OF this d] have
    "decode (take 3 (drop 7 (as_bytes ''d4:infoi7ee''))) = Ok (BInt 7)"
    by (simp add: ben_get_def)
  with d show ?thesis by blast
qed

text \<open>
  The integer texts accepted include a leading plus sign (\<open>i+5e\<close>), which no encoder writes: \<open>str::parse\<close>
  takes it, and the checks before it only reject leading zeros.
\<close>

lemma decode_accepts_plus: "decode (as_bytes ''i+5e'') = Ok (BInt 5) \<and> encode (BInt 5) \<noteq> as_bytes ''i+5e''"
  by (simp add: run_simps show_int_def show_nat.simps digit_char_def)

end
