(* ===== verification/Torrent_Meta.thy ===== *)
theory Torrent_Meta
  imports Bencode Rust_Std Rust_Str
begin

text \<open>
  Torrent metainfo and magnet links, after \<^verbatim>\<open>epix-bt/src/metainfo.rs\<close> and \<^verbatim>\<open>epix-bt/src/magnet.rs\<close>.
  SHA-1 (\<open>sha1\<close>), hex (\<open>hexdec\<close>) and percent decoding (\<open>pct\<close>) come from third-party crates and are
  parameters.
\<close>

section \<open>Text in bencode\<close>

definition ben_as_str :: "ben \<Rightarrow> string option" where
  "ben_as_str v = (case ben_as_bytes v of None \<Rightarrow> None | Some b \<Rightarrow> if utf8_ok b then Some (str_of_bytes b) else None)"

section \<open>Metainfo\<close>

record file_entry =
  fe_path :: "string list"
  fe_length :: nat

record meta_info =
  mi_info_hash :: bytes
  mi_name :: string
  mi_piece_length :: nat
  mi_piece_hashes :: "bytes list"
  mi_files :: "file_entry list"
  mi_total_length :: nat
  mi_multi_file :: bool

datatype meta_error = MBencode bencode_error | NoInfo | Missing string | BadPieces | HashMismatch | MEmpty

fun join_with :: "char \<Rightarrow> string list \<Rightarrow> string" where
  "join_with c [] = []"
| "join_with c [s] = s"
| "join_with c (s # t # ss) = s @ c # join_with c (t # ss)"

definition display_path :: "file_entry \<Rightarrow> string" where
  "display_path f = join_with CHR ''/'' (fe_path f)"

definition piece_count :: "meta_info \<Rightarrow> nat" where
  "piece_count m = length (mi_piece_hashes m)"

definition HEX :: string where "HEX = ''0123456789abcdef''"

definition cache_dir_name :: "meta_info \<Rightarrow> string" where
  "cache_dir_name m =
     concat (map (\<lambda>b. [HEX ! (unat b div 16), HEX ! (unat b mod 16)]) (mi_info_hash m))"

definition piece_size :: "nat \<Rightarrow> meta_info \<Rightarrow> nat" where
  "piece_size i m =
     (if i + 1 < piece_count m then mi_piece_length m
      else usize_sub (mi_total_length m) (u64_mul (mi_piece_length m) (usize_sub (piece_count m) 1)))"

definition verify_piece :: "(bytes \<Rightarrow> bytes) \<Rightarrow> nat \<Rightarrow> bytes \<Rightarrow> meta_info \<Rightarrow> bool" where
  "verify_piece sha1 i d m =
     (if i < length (mi_piece_hashes m) then sha1 d = mi_piece_hashes m ! i else False)"

definition sanitize :: "string \<Rightarrow> string" where
  "sanitize component =
     (let c = map (\<lambda>x. if x = CHR ''/'' \<or> x = CHR 0x5C then CHR ''_'' else x) component
      in if c = [] \<or> c = ''.'' \<or> c = ''..'' then ''_'' else c)"

fun chunks20 :: "bytes \<Rightarrow> bytes list" where
  "chunks20 b = (if length b < 20 then [] else take 20 b # chunks20 (drop 20 b))"

declare chunks20.simps [simp del]

text \<open>\<open>Iterator::filter_map\<close> over a list and \<open>Option::filter\<close>.\<close>

definition parse_path :: "ben \<Rightarrow> string list option" where
  "parse_path f =
     (case ben_get ''path'' f of
        None \<Rightarrow> None
      | Some p \<Rightarrow> map_option (\<lambda>cs. List.map_filter (\<lambda>c. map_option sanitize (ben_as_str c)) cs) (ben_as_list p))"

definition int_field :: "string \<Rightarrow> ben \<Rightarrow> int option" where
  "int_field k v = (case ben_get k v of None \<Rightarrow> None | Some x \<Rightarrow> ben_as_int x)"

fun parse_files :: "ben list \<Rightarrow> meta_error + file_entry list" where
  "parse_files [] = Inr []"
| "parse_files (f # fs) =
     (case int_field ''length'' f of
        None \<Rightarrow> Inl (Missing ''length'')
      | Some len \<Rightarrow>
          (case parse_path f of
             None \<Rightarrow> Inl (Missing ''path'')
           | Some path \<Rightarrow>
               if path = [] then Inl (Missing ''path'')
               else case parse_files fs of
                 Inl e \<Rightarrow> Inl e
               | Inr out \<Rightarrow> Inr (\<lparr>fe_path = path, fe_length = nat (max len 0)\<rparr> # out)))"

definition list_files :: "ben \<Rightarrow> string \<Rightarrow> meta_error + file_entry list" where
  "list_files info name =
     (case int_field ''length'' info of
        Some len \<Rightarrow> Inr [\<lparr>fe_path = [sanitize name], fe_length = nat (max len 0)\<rparr>]
      | None \<Rightarrow>
          (case ben_get ''files'' info of
             None \<Rightarrow> Inl (Missing ''length/files'')
           | Some fs \<Rightarrow>
               (case ben_as_list fs of
                  None \<Rightarrow> Inl (Missing ''length/files'')
                | Some l \<Rightarrow> parse_files l)))"

definition sum_u64 :: "nat list \<Rightarrow> nat" where
  "sum_u64 xs = foldl u64_add 0 xs"

text \<open>The fields of the \<open>info\<close> dictionary, after the hash check.\<close>

definition info_name :: "ben \<Rightarrow> string" where
  "info_name info =
     (case ben_get ''name'' info of
        None \<Rightarrow> ''download''
      | Some n \<Rightarrow> (case ben_as_str n of None \<Rightarrow> ''download'' | Some s \<Rightarrow> s))"

definition parse_info :: "bytes \<Rightarrow> ben \<Rightarrow> meta_error + meta_info" where
  "parse_info info_hash info =
     (case int_field ''piece length'' info of
        None \<Rightarrow> Inl (Missing ''piece length'')
      | Some pl \<Rightarrow>
        if \<not> pl > 0 then Inl (Missing ''piece length'')
        else case ben_get ''pieces'' info of
          None \<Rightarrow> Inl (Missing ''pieces'')
        | Some pv \<Rightarrow>
          (case ben_as_bytes pv of
             None \<Rightarrow> Inl (Missing ''pieces'')
           | Some pieces \<Rightarrow>
             if length pieces mod 20 \<noteq> 0 then Inl BadPieces
             else case list_files info (info_name info) of
               Inl e \<Rightarrow> Inl e
             | Inr files \<Rightarrow>
                 let total = sum_u64 (map fe_length files) in
                 if total = 0 \<or> chunks20 pieces = [] then Inl MEmpty
                 else Inr \<lparr>mi_info_hash = info_hash, mi_name = info_name info, mi_piece_length = nat pl,
                       mi_piece_hashes = chunks20 pieces, mi_files = files, mi_total_length = total,
                       mi_multi_file = (int_field ''length'' info = None)\<rparr>))"

text \<open>\<open>Out_of_fuel\<close> is never returned (\<open>decode_torrent_total\<close>); the branch only completes the function.\<close>

definition meta_parse :: "(bytes \<Rightarrow> bytes) \<Rightarrow> bytes \<Rightarrow> bytes option \<Rightarrow> meta_error + meta_info" where
  "meta_parse sha1 bs expected =
     (case decode_torrent bs of
        Err e \<Rightarrow> Inl (MBencode e)
      | Out_of_fuel \<Rightarrow> Inl (MBencode Eof)
      | Ok (root, None) \<Rightarrow> Inl NoInfo
      | Ok (root, Some (a, b)) \<Rightarrow>
          let info_hash = sha1 (take (b - a) (drop a bs)) in
          if (case expected of None \<Rightarrow> False | Some e \<Rightarrow> e \<noteq> info_hash) then Inl HashMismatch
          else case ben_get ''info'' root of
            None \<Rightarrow> Inl NoInfo
          | Some info \<Rightarrow> if ben_as_dict info = None then Inl NoInfo else parse_info info_hash info)"

definition from_info_dict :: "(bytes \<Rightarrow> bytes) \<Rightarrow> bytes \<Rightarrow> bytes \<Rightarrow> meta_error + meta_info" where
  "from_info_dict sha1 info expected = meta_parse sha1 (as_bytes ''d4:info'' @ info @ [b_e]) (Some expected)"

definition file_span :: "nat \<Rightarrow> meta_info \<Rightarrow> (nat \<times> nat) option" where
  "file_span i m =
     (if i < length (mi_files m)
      then Some (sum_u64 (map fe_length (take i (mi_files m))), fe_length (mi_files m ! i)) else None)"

text \<open>\<open>max_by_key\<close>: of several largest elements the last one; \<open>expect\<close> panics on an empty list.\<close>

fun max_by_key_last :: "('a \<Rightarrow> nat) \<Rightarrow> nat \<Rightarrow> 'a list \<Rightarrow> (nat \<times> 'a) option" where
  "max_by_key_last f i [] = None"
| "max_by_key_last f i (x # xs) =
     (case max_by_key_last f (i + 1) xs of
        None \<Rightarrow> Some (i, x)
      | Some (j, y) \<Rightarrow> if f x > f y then Some (i, x) else Some (j, y))"

definition primary_file :: "meta_info \<Rightarrow> (nat \<times> file_entry) option" where
  "primary_file m = max_by_key_last fe_length 0 (mi_files m)"

definition webseeds_from_torrent :: "bytes \<Rightarrow> string list" where
  "webseeds_from_torrent bs =
     (case decode bs of
        Ok root \<Rightarrow>
          (case ben_get ''url-list'' root of
             None \<Rightarrow> []
           | Some v \<Rightarrow>
               (case v of
                  BBytes _ \<Rightarrow> (case ben_as_str v of None \<Rightarrow> [] | Some s \<Rightarrow> [s])
                | BList items \<Rightarrow> List.map_filter ben_as_str items
                | _ \<Rightarrow> []))
      | _ \<Rightarrow> [])"

section \<open>Magnet links\<close>

record magnet_link =
  ml_info_hash :: bytes
  ml_name :: "string option"
  ml_trackers :: "string list"
  ml_web_seeds :: "string list"
  ml_sources :: "string list"

datatype magnet_error = NotMagnet | NoInfoHash | BadInfoHash

definition ALPHABET :: string where
  "ALPHABET = ''ABCDEFGHIJKLMNOPQRSTUVWXYZ234567''"

fun position :: "'a \<Rightarrow> 'a list \<Rightarrow> nat option" where
  "position x [] = None"
| "position x (y # ys) = (if x = y then Some 0 else map_option Suc (position x ys))"

text \<open>
  The bit accumulator: \<open>buffer\<close> is a \<open>u32\<close>, so \<open>buffer << 5\<close> drops the high bits, and \<open>as u8\<close> keeps the
  low eight of the shifted value.
\<close>

definition push_bits :: "nat \<times> nat \<times> bytes \<Rightarrow> nat \<Rightarrow> nat \<times> nat \<times> bytes" where
  "push_bits s idx =
     (let (buffer, bits, out) = s;
          buffer = (buffer * 32 + idx) mod 2 ^ 32; bits = bits + 5
      in if bits \<ge> 8 then (buffer, bits - 8, out @ [word_of_nat (buffer div 2 ^ (bits - 8))])
         else (buffer, bits, out))"

fun base32_loop :: "nat \<times> nat \<times> bytes \<Rightarrow> string \<Rightarrow> bytes option" where
  "base32_loop s [] = Some (snd (snd s))"
| "base32_loop s (c # cs) =
     (case position (upper_char c) ALPHABET of
        None \<Rightarrow> None
      | Some idx \<Rightarrow> base32_loop (push_bits s idx) cs)"

definition base32_decode :: "string \<Rightarrow> bytes option" where
  "base32_decode s =
     (case base32_loop (0, 0, []) s of
        None \<Rightarrow> None
      | Some out \<Rightarrow> if length out = 20 then Some out else None)"

definition parse_btih :: "(string \<Rightarrow> bytes option) \<Rightarrow> string \<Rightarrow> magnet_error + bytes" where
  "parse_btih hexdec s0 =
     (let s = trim s0 in
      if length s = 40 then
        (case hexdec s of
           None \<Rightarrow> Inl BadInfoHash
         | Some b \<Rightarrow> if length b = 20 then Inr b else Inl BadInfoHash)
      else if length s = 32 then
        (case base32_decode s of None \<Rightarrow> Inl BadInfoHash | Some b \<Rightarrow> Inr b)
      else Inl BadInfoHash)"

text \<open>The locals of \<open>parse\<close> while it walks the query.\<close>

record magnet_state =
  ms_hash :: "bytes option"
  ms_name :: "string option"
  ms_trackers :: "string list"
  ms_web_seeds :: "string list"
  ms_sources :: "string list"

definition magnet_param ::
    "(string \<Rightarrow> bytes option) \<Rightarrow> string \<Rightarrow> string \<Rightarrow> magnet_state \<Rightarrow> magnet_error + magnet_state" where
  "magnet_param hexdec base v st =
     (if base = ''xt'' then
        (case strip_prefix ''urn:btih:'' v of
           None \<Rightarrow> Inr st
         | Some h \<Rightarrow> (case parse_btih hexdec h of Inl e \<Rightarrow> Inl e | Inr b \<Rightarrow> Inr (st\<lparr>ms_hash := Some b\<rparr>)))
      else if base = ''dn'' then Inr (st\<lparr>ms_name := Some v\<rparr>)
      else if base = ''tr'' then Inr (st\<lparr>ms_trackers := ms_trackers st @ [v]\<rparr>)
      else if base = ''ws'' then Inr (st\<lparr>ms_web_seeds := ms_web_seeds st @ [v]\<rparr>)
      else if base = ''xs'' \<or> base = ''as'' then Inr (st\<lparr>ms_sources := ms_sources st @ [v]\<rparr>)
      else Inr st)"

fun magnet_pairs ::
    "(string \<Rightarrow> bytes option) \<Rightarrow> (string \<Rightarrow> string) \<Rightarrow> string list \<Rightarrow> magnet_state \<Rightarrow> magnet_error + magnet_state" where
  "magnet_pairs hexdec pct [] st = Inr st"
| "magnet_pairs hexdec pct (p # ps) st =
     (case split_once CHR ''='' p of
        None \<Rightarrow> magnet_pairs hexdec pct ps st
      | Some (key, raw) \<Rightarrow>
          (case magnet_param hexdec (hd (split_on CHR ''.'' key)) (pct raw) st of
             Inl e \<Rightarrow> Inl e
           | Inr st' \<Rightarrow> magnet_pairs hexdec pct ps st'))"

definition magnet_parse ::
    "(string \<Rightarrow> bytes option) \<Rightarrow> (string \<Rightarrow> string) \<Rightarrow> string \<Rightarrow> magnet_error + magnet_link" where
  "magnet_parse hexdec pct uri =
     (case strip_prefix ''magnet:?'' uri of
        None \<Rightarrow> Inl NotMagnet
      | Some query \<Rightarrow>
          (case magnet_pairs hexdec pct (split_on CHR ''&'' query)
                  \<lparr>ms_hash = None, ms_name = None, ms_trackers = [], ms_web_seeds = [], ms_sources = []\<rparr> of
             Inl e \<Rightarrow> Inl e
           | Inr st \<Rightarrow>
               (case ms_hash st of
                  None \<Rightarrow> Inl NoInfoHash
                | Some h \<Rightarrow> Inr \<lparr>ml_info_hash = h, ml_name = ms_name st, ml_trackers = ms_trackers st,
                     ml_web_seeds = ms_web_seeds st, ml_sources = ms_sources st\<rparr>)))"

section \<open>What an accepted torrent guarantees\<close>

definition safe_component :: "string \<Rightarrow> bool" where
  "safe_component c \<longleftrightarrow> c \<noteq> [] \<and> c \<noteq> ''.'' \<and> c \<noteq> ''..'' \<and> CHR ''/'' \<notin> set c \<and> CHR 0x5C \<notin> set c"

lemma sanitize_safe: "safe_component (sanitize c)"
  unfolding safe_component_def sanitize_def Let_def by (auto split: if_splits)

lemma chunks20_length:
  "length b mod 20 = 0 \<Longrightarrow> concat (chunks20 b) = b \<and> (\<forall>c \<in> set (chunks20 b). length c = 20)"
proof (induction b rule: chunks20.induct)
  case (1 b)
  show ?case
  proof (cases "length b < 20")
    case True
    then show ?thesis using "1.prems" by (auto simp: chunks20.simps [of b] chunks20.simps [of "[]"])
  next
    case False
    then have "(length b - 20) mod 20 = 0" using "1.prems" le_mod_geq [of 20 "length b"] by linarith
    then have "length (drop 20 b) mod 20 = 0" unfolding length_drop .
    note ih = "1.IH" [OF False this]
    have e: "chunks20 b = take 20 b # chunks20 (drop 20 b)" by (subst chunks20.simps) (simp only: False if_False)
    have "length (take 20 b) = 20" using False by simp
    then show ?thesis unfolding e concat.simps set_simps
      using conjunct1 [OF ih] conjunct2 [OF ih] append_take_drop_id [of 20 b] by (metis insertE)
  qed
qed

lemma set_map_filter: "y \<in> set (List.map_filter f xs) \<longleftrightarrow> (\<exists>x \<in> set xs. f x = Some y)"
  by (induction xs) (auto simp: List.map_filter_simps split: option.splits)

lemma parse_files_safe:
  "parse_files fs = Inr out \<Longrightarrow> \<forall>f \<in> set out. fe_path f \<noteq> [] \<and> (\<forall>c \<in> set (fe_path f). safe_component c)"
proof (induction fs arbitrary: out)
  case (Cons f fs)
  then show ?case
    by (auto simp: parse_path_def set_map_filter sanitize_safe split: option.splits sum.splits if_splits)
qed simp

lemma list_files_safe:
  "list_files info name = Inr out \<Longrightarrow> \<forall>f \<in> set out. fe_path f \<noteq> [] \<and> (\<forall>c \<in> set (fe_path f). safe_component c)"
  unfolding list_files_def by (auto simp: sanitize_safe split: option.splits dest: parse_files_safe)

lemma parse_info_facts:
  assumes "parse_info h info = Inr m"
  shows "mi_info_hash m = h \<and> 0 < mi_piece_length m \<and> 0 < mi_total_length m \<and> mi_piece_hashes m \<noteq> [] \<and>
    (\<forall>c \<in> set (mi_piece_hashes m). length c = 20) \<and>
    (\<exists>p. ben_get ''pieces'' info = Some (BBytes p) \<and> concat (mi_piece_hashes m) = p) \<and>
    mi_total_length m = sum_u64 (map fe_length (mi_files m)) \<and> mi_files m \<noteq> [] \<and>
    (\<forall>f \<in> set (mi_files m). fe_path f \<noteq> [] \<and> (\<forall>c \<in> set (fe_path f). safe_component c))"
proof -
  obtain pl pv p files where
      s: "int_field ''piece length'' info = Some pl" "pl > 0" "ben_get ''pieces'' info = Some pv"
        "ben_as_bytes pv = Some p" "length p mod 20 = 0" "list_files info (info_name info) = Inr files"
        "sum_u64 (map fe_length files) \<noteq> 0" "chunks20 p \<noteq> []"
    and m: "m = \<lparr>mi_info_hash = h, mi_name = info_name info, mi_piece_length = nat pl,
        mi_piece_hashes = chunks20 p, mi_files = files, mi_total_length = sum_u64 (map fe_length files),
        mi_multi_file = (int_field ''length'' info = None)\<rparr>"
    using assms unfolding parse_info_def Let_def by (auto split: option.splits sum.splits if_splits)
  have "pv = BBytes p" using s(4) by (cases pv) auto
  moreover have "files \<noteq> []" using s(7) by (auto simp: sum_u64_def)
  ultimately show ?thesis using s m chunks20_length [OF s(5)] list_files_safe [OF s(6)] by simp
qed

lemma decode_torrent_total: "decode_torrent buf \<noteq> Out_of_fuel"
proof -
  have "p_dict (p_value (length buf) buf) (length buf) buf True None None [] 1 \<noteq> Out_of_fuel" if "buf \<noteq> []"
    using that by (intro p_dict_total [OF p_value_sound p_value_total]) (cases buf; simp)+
  then show ?thesis
    using p_value_no_fuel [of buf]
    by (auto simp: decode_torrent_def value_tracking_info_def peek_def split: parsed.splits if_splits)
qed

text \<open>
  What an accepted torrent guarantees.  Its info-hash is the SHA-1 of exactly the input bytes of the
  \<open>info\<close> value whose fields were read, and equals the magnet's hash when one was given; the piece hashes
  are the 20-byte slices of \<open>pieces\<close>, not empty; the piece length and the total are positive; and no
  path component of any file can leave the download directory.
\<close>

theorem metainfo_sound:
  assumes len: "length bs < 2 ^ 64" and ok: "meta_parse sha1 bs expected = Inr m"
  shows "\<exists>a b info p. a \<le> b \<and> b \<le> length bs \<and> decode (take (b - a) (drop a bs)) = Ok info \<and>
    mi_info_hash m = sha1 (take (b - a) (drop a bs)) \<and> (\<forall>e. expected = Some e \<longrightarrow> mi_info_hash m = e) \<and>
    ben_get ''pieces'' info = Some (BBytes p) \<and> concat (mi_piece_hashes m) = p \<and>
    mi_piece_hashes m \<noteq> [] \<and> (\<forall>c \<in> set (mi_piece_hashes m). length c = 20) \<and>
    0 < mi_piece_length m \<and> 0 < mi_total_length m \<and>
    (\<forall>f \<in> set (mi_files m). fe_path f \<noteq> [] \<and> (\<forall>c \<in> set (fe_path f). safe_component c))"
proof -
  obtain root a b info where
      d: "decode_torrent bs = Ok (root, Some (a, b))"
    and e: "\<not> (case expected of None \<Rightarrow> False | Some e \<Rightarrow> e \<noteq> sha1 (take (b - a) (drop a bs)))"
    and i: "ben_get ''info'' root = Some info" "parse_info (sha1 (take (b - a) (drop a bs))) info = Inr m"
    using ok unfolding meta_parse_def Let_def
    by (auto split: parsed.splits option.splits if_splits)
  have "a \<le> b \<and> b \<le> length bs \<and> decode (take (b - a) (drop a bs)) = Ok info"
    using torrent_info_span_lemma [OF len d] i(1) by auto
  then show ?thesis
    using parse_info_facts [OF i(2)] e
    by (intro exI [of _ a] exI [of _ b] exI [of _ info]) (auto split: option.splits)
qed

definition ex_torrent :: bytes where
  "ex_torrent = as_bytes ''d4:infod6:lengthi5e12:piece lengthi8e6:pieces20:abcdefghijklmnopqrstee''"

lemma ex_torrent_decode:
  "decode_torrent ex_torrent = Ok (BDict [(as_bytes ''info'', BDict [(as_bytes ''length'', BInt 5),
     (as_bytes ''piece length'', BInt 8), (as_bytes ''pieces'', BBytes (as_bytes ''abcdefghijklmnopqrst''))])], Some (7, 69))"
  by (simp add: ex_torrent_def run_simps)

theorem metainfo_sound_witness:
  "\<exists>m. meta_parse (\<lambda>_. replicate 20 7) ex_torrent (Some (replicate 20 7)) = Inr m \<and>
     mi_info_hash m = replicate 20 7 \<and> 0 < mi_total_length m"
proof -
  have "length ex_torrent < 2 ^ 64" by (simp add: ex_torrent_def)
  moreover have "\<exists>m. meta_parse (\<lambda>_. replicate 20 7) ex_torrent (Some (replicate 20 7)) = Inr m"
    by (simp add: meta_parse_def ex_torrent_decode ben_get_def parse_info_def int_field_def list_files_def as_bytes_def
        sum_u64_def u64_add_def chunks20.simps)
  ultimately show ?thesis using metainfo_sound by blast
qed

section \<open>Geometry\<close>

lemma sum_u64_eq: "sum_list xs < 2 ^ 64 \<Longrightarrow> sum_u64 xs = sum_list xs"
proof (induction xs rule: rev_induct)
  case (snoc x xs)
  then show ?case by (simp add: sum_u64_def u64_add_def)
qed (simp add: sum_u64_def)

lemma tile_unique:
  fixes f :: "nat \<Rightarrow> nat"
  assumes "mono f" "f 0 = 0" "j < f n"
  shows "\<exists>!i. i < n \<and> f i \<le> j \<and> j < f (Suc i)"
proof -
  define i where "i = (LEAST k. j < f (Suc k))"
  have ex: "\<exists>k < n. j < f (Suc k)"
    using assms(2,3) by (cases n) auto
  then have P: "j < f (Suc i)" unfolding i_def by (metis (mono_tags, lifting) LeastI)
  have "i < n" using ex unfolding i_def by (metis (mono_tags, lifting) Least_le order_le_less_trans)
  moreover have "f i \<le> j"
  proof (cases i)
    case (Suc k)
    then have "\<not> j < f (Suc k)" using not_less_Least [of k "\<lambda>k. j < f (Suc k)"] unfolding i_def by simp
    then show ?thesis using Suc by simp
  qed (simp add: assms(2))
  ultimately have good: "i < n \<and> f i \<le> j \<and> j < f (Suc i)" using P by blast
  show ?thesis
  proof (rule ex1I [of _ i])
    show "i < n \<and> f i \<le> j \<and> j < f (Suc i)" by (rule good)
  next
    fix k assume k: "k < n \<and> f k \<le> j \<and> j < f (Suc k)"
    show "k = i"
    proof (rule ccontr)
      assume "k \<noteq> i"
      then consider "Suc k \<le> i" | "Suc i \<le> k" by linarith
      then show False
      proof cases
        case 1
        then show ?thesis using monoD [OF assms(1) 1] k good by linarith
      next
        case 2
        then show ?thesis using monoD [OF assms(1) 2] k good by linarith
      qed
    qed
  qed
qed

lemma mono_prefix_sum: "mono (\<lambda>i. sum_list (take i (xs :: nat list)))"
proof (rule monoI)
  fix i j :: nat assume "i \<le> j"
  then have "take j xs = take i xs @ take (j - i) (drop i xs)" by (metis le_add_diff_inverse take_add)
  then show "sum_list (take i xs) \<le> sum_list (take j xs)" by simp
qed

lemma hex_in: "n < 16 \<Longrightarrow> HEX ! n \<in> set HEX"
  by (rule nth_mem) (simp add: HEX_def)

lemma cache_dir_name_hex:
  "length (cache_dir_name m) = 2 * length (mi_info_hash m) \<and> set (cache_dir_name m) \<subseteq> set HEX"
proof
  show "length (cache_dir_name m) = 2 * length (mi_info_hash m)"
    unfolding cache_dir_name_def by (simp add: length_concat comp_def sum_list_triv)
  have "HEX ! (unat b div 16) \<in> set HEX" "HEX ! (unat b mod 16) \<in> set HEX" for b :: u8
    using hex_in unat_u8_bound [of b] by auto
  then show "set (cache_dir_name m) \<subseteq> set HEX" unfolding cache_dir_name_def by auto
qed

lemma torrent_files_tile:
  assumes files: "sum_list (map fe_length (mi_files m)) < 2 ^ 64"
      "mi_total_length m = sum_u64 (map fe_length (mi_files m))"
  shows "\<forall>j < mi_total_length m. \<exists>!i. \<exists>off len. file_span i m = Some (off, len) \<and> off \<le> j \<and> j < off + len"
proof -
  let ?ls = "map fe_length (mi_files m)"
  let ?T = "mi_total_length m"
  have T: "?T = sum_list ?ls" using files sum_u64_eq by simp
  have pre: "sum_list (take i ?ls) \<le> sum_list ?ls" for i
    using monoD [OF mono_prefix_sum [of ?ls], of i "max i (length ?ls)"] by simp
  have span: "file_span i m = Some (off, len) \<longleftrightarrow> i < length ?ls \<and> off = sum_list (take i ?ls) \<and> len = ?ls ! i" for i off len
  proof -
    have "sum_list (take i ?ls) < 2 ^ 64" using pre [of i] files(1) by linarith
    from sum_u64_eq [OF this] show ?thesis by (auto simp: file_span_def take_map)
  qed
  have step: "i < length ?ls \<Longrightarrow> sum_list (take (Suc i) ?ls) = sum_list (take i ?ls) + ?ls ! i" for i
    by (simp add: take_Suc_conv_app_nth)
  show "\<forall>j < ?T. \<exists>!i. \<exists>off len. file_span i m = Some (off, len) \<and> off \<le> j \<and> j < off + len"
  proof (intro allI impI)
    fix j assume "j < ?T"
    then have "\<exists>!i. i < length ?ls \<and> sum_list (take i ?ls) \<le> j \<and> j < sum_list (take (Suc i) ?ls)"
      using tile_unique [OF mono_prefix_sum [of ?ls], of j "length ?ls"] T by simp
    moreover have "(\<exists>off len. file_span i m = Some (off, len) \<and> off \<le> j \<and> j < off + len) \<longleftrightarrow>
        i < length ?ls \<and> sum_list (take i ?ls) \<le> j \<and> j < sum_list (take (Suc i) ?ls)" for i
      using span step by auto
    ultimately show "\<exists>!i. \<exists>off len. file_span i m = Some (off, len) \<and> off \<le> j \<and> j < off + len" by simp
  qed
qed

lemma torrent_pieces_tile:
  assumes Tb: "mi_total_length m < 2 ^ 64"
    and pieces: "0 < piece_count m" "mi_piece_length m * (piece_count m - 1) < mi_total_length m"
      "mi_total_length m \<le> mi_piece_length m * piece_count m"
    and count: "piece_count m < 2 ^ 64"
  shows "\<forall>j < mi_total_length m. \<exists>!i. i < piece_count m \<and> mi_piece_length m * i \<le> j \<and>
           j < mi_piece_length m * i + piece_size i m"
    and "\<forall>i < piece_count m. 0 < piece_size i m \<and> piece_size i m \<le> mi_piece_length m"
proof -
  let ?L = "mi_piece_length m" and ?n = "piece_count m" and ?T = "mi_total_length m"
  have last: "piece_size (?n - 1) m = ?T - ?L * (?n - 1)"
    using pieces count Tb by (simp add: piece_size_def usize_sub_eq u64_mul_def)
  have inner: "piece_size i m = ?L" if "i + 1 < ?n" for i using that by (simp add: piece_size_def)
  define f where "f i = (if i < ?n then ?L * i else ?T)" for i
  have bound: "?L * i \<le> ?T" if "i < ?n" for i
  proof -
    have "?L * i \<le> ?L * (?n - 1)" using that by (intro mult_le_mono2) simp
    then show ?thesis using pieces(2) by linarith
  qed
  have fmono: "mono f"
    unfolding mono_def f_def using bound by (auto intro: mult_le_mono2)
  have size: "f (Suc i) = ?L * i + piece_size i m" if "i < ?n" for i
  proof (cases "i + 1 < ?n")
    case False
    then have "i = ?n - 1" using that by simp
    then show ?thesis using last pieces that by (simp add: f_def)
  qed (simp add: f_def inner)
  show "\<forall>j < ?T. \<exists>!i. i < ?n \<and> ?L * i \<le> j \<and> j < ?L * i + piece_size i m"
  proof (intro allI impI)
    fix j assume "j < ?T"
    then have "\<exists>!i. i < ?n \<and> f i \<le> j \<and> j < f (Suc i)"
      using tile_unique [OF fmono, of j ?n] pieces(1) by (simp add: f_def)
    moreover have "i < ?n \<and> f i \<le> j \<and> j < f (Suc i) \<longleftrightarrow> i < ?n \<and> ?L * i \<le> j \<and> j < ?L * i + piece_size i m" for i
      using size [of i] by (cases "i < ?n") (simp_all add: f_def)
    ultimately show "\<exists>!i. i < ?n \<and> ?L * i \<le> j \<and> j < ?L * i + piece_size i m" by simp
  qed
  show "\<forall>i < ?n. 0 < piece_size i m \<and> piece_size i m \<le> ?L"
  proof (intro allI impI)
    fix i assume i: "i < ?n"
    have "0 < ?L" using pieces by (cases "?L = 0") auto
    moreover have "?T - ?L * (?n - 1) \<le> ?L"
      using pieces(1,3) by (cases ?n) (auto simp: algebra_simps)
    ultimately show "0 < piece_size i m \<and> piece_size i m \<le> ?L"
      using inner [of i] last pieces(2) i by (cases "i + 1 < ?n") (auto dest!: less_imp_Suc_add simp: not_less)
  qed
qed

text \<open>
  The files tile the torrent's data: when the lengths add up within 64 bits, every byte offset below
  the total lies in the span of exactly one file.  When the number of piece hashes fits the total, every
  offset also lies in exactly one piece, a piece is never empty and no longer than the piece length.  The
  cache directory name is forty hex digits.
\<close>

theorem torrent_geometry:
  assumes files: "sum_list (map fe_length (mi_files m)) < 2 ^ 64"
      "mi_total_length m = sum_u64 (map fe_length (mi_files m))"
    and pieces: "0 < piece_count m" "mi_piece_length m * (piece_count m - 1) < mi_total_length m"
      "mi_total_length m \<le> mi_piece_length m * piece_count m"
    and count: "piece_count m < 2 ^ 64" and hash: "length (mi_info_hash m) = 20"
  shows "(\<forall>j < mi_total_length m. \<exists>!i. \<exists>off len. file_span i m = Some (off, len) \<and> off \<le> j \<and> j < off + len) \<and>
    (\<forall>j < mi_total_length m. \<exists>!i. i < piece_count m \<and> mi_piece_length m * i \<le> j \<and>
           j < mi_piece_length m * i + piece_size i m) \<and>
    (\<forall>i < piece_count m. 0 < piece_size i m \<and> piece_size i m \<le> mi_piece_length m) \<and>
    (length (cache_dir_name m) = 40 \<and> set (cache_dir_name m) \<subseteq> set HEX)"
  using torrent_files_tile [OF files] torrent_pieces_tile [OF _ pieces count] files sum_u64_eq [OF files(1)]
    cache_dir_name_hex [of m] hash by (intro conjI) simp_all

definition ex_meta :: meta_info where
  "ex_meta = \<lparr>mi_info_hash = replicate 20 171, mi_name = ''n'', mi_piece_length = 8, mi_piece_hashes = [[], []],
     mi_files = [\<lparr>fe_path = [''a''], fe_length = 4\<rparr>, \<lparr>fe_path = [''b''], fe_length = 6\<rparr>],
     mi_total_length = 10, mi_multi_file = True\<rparr>"

theorem torrent_geometry_witness:
  "\<exists>!i. \<exists>off len. file_span i ex_meta = Some (off, len) \<and> off \<le> 5 \<and> 5 < off + len"
  using torrent_geometry [of ex_meta]
  by (simp add: ex_meta_def piece_count_def sum_u64_def u64_add_def)

text \<open>
  The parser does not compare the number of piece hashes with the total length, and with too many hashes
  the size of the last piece wraps around.
\<close>

lemma piece_size_wraps:
  "piece_size 1 (ex_meta\<lparr>mi_total_length := 5\<rparr>) = 2 ^ 64 - 3"
  by (simp add: piece_size_def piece_count_def ex_meta_def usize_sub_def u64_mul_def)

text \<open>Of equally long files the last one is the primary file.\<close>

lemma primary_file_last_of_ties:
  "map_option fst (primary_file (ex_meta\<lparr>mi_files := [\<lparr>fe_path = [''a''], fe_length = 4\<rparr>, \<lparr>fe_path = [''b''], fe_length = 4\<rparr>]\<rparr>))
     = Some 1"
  by (simp add: primary_file_def)

section \<open>Base32\<close>

text \<open>The accumulator: after \<open>k\<close> characters the output holds the top bits of the number read so far.\<close>

fun digits_value :: "nat list \<Rightarrow> nat" where
  "digits_value [] = 0"
| "digits_value (d # ds) = d * 32 ^ length ds + digits_value ds"

fun bytes_value :: "bytes \<Rightarrow> nat" where
  "bytes_value [] = 0"
| "bytes_value (b # bs) = unat b * 256 ^ length bs + bytes_value bs"

lemma digits_value_snoc: "digits_value (ds @ [d]) = 32 * digits_value ds + d"
  by (induction ds) (simp_all add: algebra_simps)

lemma bytes_value_snoc: "bytes_value (bs @ [b]) = 256 * bytes_value bs + unat b"
  by (induction bs) (simp_all add: algebra_simps)

definition b32_inv :: "nat list \<Rightarrow> nat \<times> nat \<times> bytes \<Rightarrow> bool" where
  "b32_inv ds s \<longleftrightarrow> (case s of (buffer, bits, out) \<Rightarrow>
     buffer = digits_value ds mod 2 ^ 32 \<and> bits < 8 \<and> 5 * length ds = 8 * length out + bits \<and>
     digits_value ds div 2 ^ bits = bytes_value out)"

lemma push_bits_inv:
  assumes inv: "b32_inv ds s" and d: "d < 32"
  shows "b32_inv (ds @ [d]) (push_bits s d)"
proof -
  obtain buffer bits out where s: "s = (buffer, bits, out)" by (cases s)
  let ?D = "digits_value ds" and ?D' = "digits_value (ds @ [d])"
  have D': "?D' = 32 * ?D + d" by (rule digits_value_snoc)
  have i: "buffer = ?D mod 2 ^ 32" "bits < 8" "5 * length ds = 8 * length out + bits" "?D div 2 ^ bits = bytes_value out"
    using inv by (simp_all add: b32_inv_def s)
  have buf: "(buffer * 32 + d) mod 2 ^ 32 = ?D' mod 2 ^ 32"
    unfolding i(1) D' by (metis mod_add_left_eq mod_mult_left_eq mult.commute)
  have "?D' div 32 = ?D" unfolding D' using d by simp
  moreover have "?D' div 2 ^ (bits + 5) = ?D' div 32 div 2 ^ bits"
    by (simp add: power_add div_mult2_eq [symmetric] mult.commute)
  ultimately have top: "?D' div 2 ^ (bits + 5) = bytes_value out" using i(4) by simp
  show ?thesis
  proof (cases "bits + 5 \<ge> 8")
    case False
    then show ?thesis using top i buf by (simp add: b32_inv_def push_bits_def s Let_def)
  next
    case True
    let ?b = "bits + 5 - 8"
    have b: "?b < 8" "bits + 5 = ?b + 8" using True i(2) by auto
    have "(?D' mod 2 ^ 32) div 2 ^ ?b mod 256 = ?D' div 2 ^ ?b mod 256"
    proof -
      have "(?D' mod 2 ^ 32) div 2 ^ ?b = ?D' div 2 ^ ?b mod 2 ^ (32 - ?b)"
        using drop_bit_take_bit [of ?b 32 ?D'] by (simp only: drop_bit_eq_div take_bit_eq_mod)
      moreover have "256 dvd (2 ^ (32 - ?b) :: nat)"
      proof -
        have "8 \<le> 32 - ?b" using b(1) by simp
        then have "(2 ^ 8 :: nat) dvd 2 ^ (32 - ?b)" by (rule le_imp_power_dvd)
        then show ?thesis by simp
      qed
      ultimately show ?thesis by (simp add: mod_mod_cancel)
    qed
    then have byte: "unat (word_of_nat (?D' mod 2 ^ 32 div 2 ^ ?b) :: u8) = ?D' div 2 ^ ?b mod 256"
      by (simp add: unsigned_of_nat take_bit_nat_def)
    have "?D' div 2 ^ (?b + 8) = bytes_value out" using top by (simp only: b(2) [symmetric])
    moreover have "?D' div 2 ^ (?b + 8) = ?D' div 2 ^ ?b div 256"
      unfolding power_add div_mult2_eq by simp
    ultimately have "?D' div 2 ^ ?b div 256 = bytes_value out" by simp
    then have "?D' div 2 ^ ?b = 256 * bytes_value out + ?D' div 2 ^ ?b mod 256"
      using div_mult_mod_eq [of "?D' div 2 ^ ?b" 256] by simp
    then show ?thesis
      using True i b(1) buf byte by (simp add: b32_inv_def push_bits_def s Let_def bytes_value_snoc)
  qed
qed

lemma position_bound: "position x ys = Some i \<Longrightarrow> i < length ys"
  by (induction ys arbitrary: i) (auto split: if_splits)

lemma base32_loop_value:
  "b32_inv ds s \<Longrightarrow> map (\<lambda>c. position (upper_char c) ALPHABET) cs = map Some is \<Longrightarrow>
     \<exists>out bits. base32_loop s cs = Some out \<and> b32_inv (ds @ is) ((digits_value (ds @ is) mod 2 ^ 32), bits, out)"
proof (induction cs arbitrary: ds s "is")
  case Nil
  then show ?case by (cases s) (auto simp: b32_inv_def)
next
  case (Cons c cs)
  then obtain i is' where i: "is = i # is'" "position (upper_char c) ALPHABET = Some i" by (cases "is") auto
  have "i < 32" using position_bound [OF i(2)] by (simp add: ALPHABET_def)
  from Cons.IH [OF push_bits_inv [OF Cons.prems(1) this], of is'] Cons.prems(2) i show ?case by simp
qed

lemma base32_loop_bad: "\<exists>c \<in> set s. position (upper_char c) ALPHABET = None \<Longrightarrow> base32_loop st s = None"
proof (induction s arbitrary: st)
  case (Cons c s)
  then show ?case by (cases "position (upper_char c) ALPHABET") (simp_all del: split_paired_All)
qed simp

text \<open>
  A base32 info-hash of 32 alphabet characters, in either case, decodes to exactly the 20 bytes of
  the same 160-bit number, although the accumulator only keeps 32 bits; any other character is refused.
\<close>

theorem base32_info_hash:
  assumes "length s = 32"
  shows "case base32_decode s of
      Some b \<Rightarrow> length b = 20 \<and> (\<exists>is. map (\<lambda>c. position (upper_char c) ALPHABET) s = map Some is \<and>
                 bytes_value b = digits_value is)
    | None \<Rightarrow> \<exists>c \<in> set s. position (upper_char c) ALPHABET = None"
proof (cases "\<exists>c \<in> set s. position (upper_char c) ALPHABET = None")
  case True
  then show ?thesis using base32_loop_bad [OF True] by (simp add: base32_decode_def)
next
  case False
  define ds where "ds = map (\<lambda>c. the (position (upper_char c) ALPHABET)) s"
  have m: "map (\<lambda>c. position (upper_char c) ALPHABET) s = map Some ds"
    unfolding ds_def map_map comp_def by (rule map_cong [OF refl]) (use False in force)
  have "b32_inv [] (0, 0, [])" by (simp add: b32_inv_def)
  from base32_loop_value [OF this m] obtain out bits where
    o: "base32_loop (0, 0, []) s = Some out" "b32_inv ds (digits_value ds mod 2 ^ 32, bits, out)" by auto
  have "length ds = 32" using assms by (simp add: ds_def)
  then have "8 * length out + bits = 160" "bits < 8" using o(2) by (simp_all add: b32_inv_def)
  then have "length out = 20" "bits = 0" by presburger+
  then show ?thesis using o m by (simp add: base32_decode_def b32_inv_def)
qed

theorem base32_info_hash_witness:
  "\<exists>b. base32_decode (replicate 32 CHR ''b'') = Some b \<and> length b = 20 \<and>
     bytes_value b = digits_value (replicate 32 1)"
proof -
  have p: "position (upper_char CHR ''b'') ALPHABET = Some 1" by code_simp
  have "length (replicate 32 CHR ''b'') = 32" by simp
  from base32_info_hash [OF this] show ?thesis
    by (auto simp: p map_replicate_const [symmetric] split: option.splits)
      (metis (no_types, lifting) inj_Some list.inj_map_strong map_replicate option.inject)
qed

end
