(* ===== verification/Swarm_Order.thy ===== *)
theory Swarm_Order
  imports Group_Bits Peer_Addr Hash_Map
begin

text \<open>
  The decision functions of the multi-peer fetch scheduler, \<^verbatim>\<open>epix-edx/src/sched.rs\<close>, and the link
  classes of \<^verbatim>\<open>sim.rs\<close>: request sizes and pipeline depths per class, the stall window, the smoothed
  class and peer latencies, the two scheduling orders, the cutting of an order into byte-range batches,
  the splitting of a batch by holder, and the slice of unassigned groups the window is refilled from.

  A \<open>Duration\<close> is its number of nanoseconds; the durations built here stay far below the \<open>u64\<close> second
  count at which Rust's arithmetic panics.  A connection is an index into the link table of the caller,
  since several handles may share one (\<open>Conn\<close> is a shared handle).
\<close>

section \<open>Classes, sizes and windows\<close>

datatype link_class = CClearnet | CI2p | CTor

record link_spec =
  latency :: nat
  bandwidth :: nat

definition millis :: "nat \<Rightarrow> nat" where "millis n = n * 1000000"
definition secs :: "nat \<Rightarrow> nat" where "secs n = millis (n * 1000)"

fun class_spec :: "link_class \<Rightarrow> link_spec" where
  "class_spec CClearnet = \<lparr>latency = millis 30, bandwidth = 12000000\<rparr>"
| "class_spec CI2p = \<lparr>latency = millis 300, bandwidth = 4000000\<rparr>"
| "class_spec CTor = \<lparr>latency = millis 500, bandwidth = 2000000\<rparr>"

fun of_addr_routed :: "peer_addr \<Rightarrow> bool \<Rightarrow> link_class" where
  "of_addr_routed (Ip a) route_all =
     (if is_private (Ip a) then CClearnet else if route_all then CTor else CClearnet)"
| "of_addr_routed (I2p _ _) route_all = CI2p"
| "of_addr_routed (Onion _ _) route_all = CTor"
| "of_addr_routed (Rns _) route_all = CTor"

definition MAX_DUPLICATES :: nat where "MAX_DUPLICATES = 2"
definition PRIMARY_BUDGET_DIVISOR :: nat where "PRIMARY_BUDGET_DIVISOR = 2"
definition GROUPS_PER_REQUEST :: nat where "GROUPS_PER_REQUEST = 64"
definition GROUPS_PER_REQUEST_OVERLAY :: nat where "GROUPS_PER_REQUEST_OVERLAY = 32"
definition STALL_CLEARNET :: nat where "STALL_CLEARNET = secs 4"
definition STALL_OVERLAY :: nat where "STALL_OVERLAY = secs 12"
definition MAX_BATCH_WAIT :: nat where "MAX_BATCH_WAIT = secs 90"
definition PIPELINE_DEPTH :: nat where "PIPELINE_DEPTH = 2"
definition PIPELINE_DEPTH_OVERLAY :: nat where "PIPELINE_DEPTH_OVERLAY = 6"
definition PEER_FAIL_LIMIT :: nat where "PEER_FAIL_LIMIT = 3"
definition BUSY_COOLDOWN :: nat where "BUSY_COOLDOWN = secs 15"
definition BUSY_RETRY_MIN :: nat where "BUSY_RETRY_MIN = secs 1"
definition BUSY_RETRY_MAX :: nat where "BUSY_RETRY_MAX = secs 120"
definition BUSY_LIMIT :: nat where "BUSY_LIMIT = 8"
definition MAX_CONCURRENT_SERVES :: nat where "MAX_CONCURRENT_SERVES = 8"
definition LINK_REQUEST_LIMIT :: nat where "LINK_REQUEST_LIMIT = MAX_CONCURRENT_SERVES + 2"
definition LINK_SATURATION_RETRY :: nat where "LINK_SATURATION_RETRY = millis 250"
definition LINK_SATURATION_PATIENCE :: nat where "LINK_SATURATION_PATIENCE = 240"

fun groups_per_request :: "link_class \<Rightarrow> nat" where
  "groups_per_request CClearnet = GROUPS_PER_REQUEST"
| "groups_per_request CI2p = GROUPS_PER_REQUEST_OVERLAY"
| "groups_per_request CTor = GROUPS_PER_REQUEST_OVERLAY"

fun pipeline_depth :: "link_class \<Rightarrow> nat" where
  "pipeline_depth CClearnet = PIPELINE_DEPTH"
| "pipeline_depth CI2p = PIPELINE_DEPTH_OVERLAY"
| "pipeline_depth CTor = PIPELINE_DEPTH_OVERLAY"

text \<open>A peer to fetch from; \<open>ph_conn\<close> names its connection.\<close>

record peer_handle =
  ph_conn :: nat
  ph_class :: link_class
  ph_bits :: group_bits
  ph_label :: string

definition batch_groups_for :: "peer_handle list \<Rightarrow> nat" where
  "batch_groups_for peers =
     (if peers = [] then GROUPS_PER_REQUEST else Max (set (map (\<lambda>p. groups_per_request (ph_class p)) peers)))"

fun stall_timeout :: "link_class \<Rightarrow> nat" where
  "stall_timeout CClearnet = STALL_CLEARNET"
| "stall_timeout CI2p = STALL_OVERLAY"
| "stall_timeout CTor = STALL_OVERLAY"

definition stall_window :: "link_class \<Rightarrow> nat \<Rightarrow> nat" where
  "stall_window c inflight = stall_timeout c * max inflight 1"

definition link_queue_depth :: "link_class \<Rightarrow> nat \<Rightarrow> nat" where
  "link_queue_depth c queued_bytes =
     min (div_ceil queued_bytes (groups_per_request c * GROUP_BYTES)) (2 ^ 32 - 1)"

text \<open>A fetch deadline tier.\<close>

record deadline =
  dl_ms :: nat
  max_wait :: nat

definition dl_tight :: deadline where "dl_tight = \<lparr>dl_ms = 250, max_wait = secs 60\<rparr>"
definition dl_background :: deadline where "dl_background = \<lparr>dl_ms = 0, max_wait = secs 120\<rparr>"
definition dl_prefetch :: deadline where "dl_prefetch = \<lparr>dl_ms = 500, max_wait = secs 120\<rparr>"

definition is_streaming :: "deadline \<Rightarrow> bool" where
  "is_streaming d \<longleftrightarrow> dl_ms d > 0"

definition window_queue_depth :: "deadline \<Rightarrow> nat \<Rightarrow> link_class \<Rightarrow> nat \<Rightarrow> nat" where
  "window_queue_depth d own_load c link_bytes =
     (if is_streaming d then own_load else max own_load (link_queue_depth c link_bytes))"

text \<open>The counters of the connections: queued bytes and requests, over all swarms that share one.\<close>

record link_load =
  queued_fetch :: nat
  queued_fetch_reqs :: nat

type_synonym links = "nat \<Rightarrow> link_load"

definition queued_fetch_requests :: "links \<Rightarrow> peer_handle \<Rightarrow> nat" where
  "queued_fetch_requests L p = min (queued_fetch_reqs (L (ph_conn p))) (2 ^ 32 - 1)"

definition charge_fetch :: "nat \<Rightarrow> peer_handle \<Rightarrow> links \<Rightarrow> links" where
  "charge_fetch n p L =
     L(ph_conn p := \<lparr>queued_fetch = u64_add (queued_fetch (L (ph_conn p))) n,
                     queued_fetch_reqs = u64_add (queued_fetch_reqs (L (ph_conn p))) 1\<rparr>)"

definition link_full :: "links \<Rightarrow> peer_handle \<Rightarrow> bool" where
  "link_full L p \<longleftrightarrow> queued_fetch_requests L p \<ge> LINK_REQUEST_LIMIT"

section \<open>Smoothed latencies\<close>

type_synonym class_stats = "(link_class, nat) hash_map"
type_synonym peer_stats = "(string, nat) hash_map"

definition class_stats_default :: class_stats where
  "class_stats_default = map (\<lambda>c. (c, latency (class_spec c) * 2)) [CClearnet, CI2p, CTor]"

definition class_rtt :: "class_stats \<Rightarrow> link_class \<Rightarrow> nat" where
  "class_rtt st c = (case map_of st c of Some d \<Rightarrow> d | None \<Rightarrow> secs 1)"

definition class_observe :: "link_class \<Rightarrow> nat \<Rightarrow> class_stats \<Rightarrow> class_stats" where
  "class_observe c sample st = hm_insert c ((class_rtt st c * 3 + sample) div 4) st"

definition faster_or_equal :: "class_stats \<Rightarrow> link_class \<Rightarrow> link_class list" where
  "faster_or_equal st c =
     sort_key (class_rtt st) (filter (\<lambda>d. class_rtt st d \<le> class_rtt st c) [CClearnet, CI2p, CTor])"

text \<open>
  \<open>PeerStats::observe\<close>.  The group count is cast to \<open>u32\<close> before the division, which panics on zero:
  \<open>None\<close> is that panic.
\<close>

definition peer_observe :: "string \<Rightarrow> nat \<Rightarrow> nat \<Rightarrow> peer_stats \<Rightarrow> peer_stats option" where
  "peer_observe label elapsed groups ps =
     (if groups = 0 then Some ps
      else if groups mod 2 ^ 32 = 0 then None
      else let sample = elapsed div (groups mod 2 ^ 32);
               next = (case map_of ps label of Some prior \<Rightarrow> (prior * 3 + sample) div 4 | None \<Rightarrow> sample)
           in Some (hm_insert label next ps))"

definition per_group :: "peer_stats \<Rightarrow> string \<Rightarrow> nat option" where
  "per_group ps label = map_of ps label"

section \<open>Orders\<close>

definition run_groups :: "group_bits \<Rightarrow> nat list" where
  "run_groups b = concat (map (\<lambda>r. [fst r..<snd r]) (runs b))"

definition holders :: "peer_handle list \<Rightarrow> nat \<Rightarrow> nat" where
  "holders peers g = length (filter (\<lambda>p. gb_contains (ph_bits p) g) peers)"

definition rarest_first_order :: "group_bits \<Rightarrow> peer_handle list \<Rightarrow> nat list" where
  "rarest_first_order needed peers =
     map snd (sort (map (\<lambda>g. (holders peers g, g)) (filter (\<lambda>g. holders peers g > 0) (run_groups needed))))"

definition sequential_order :: "group_bits \<Rightarrow> peer_handle list \<Rightarrow> nat list" where
  "sequential_order needed peers =
     sort (filter (\<lambda>g. list_ex (\<lambda>p. gb_contains (ph_bits p) g) peers) (run_groups needed))"

definition initial_order :: "deadline \<Rightarrow> group_bits \<Rightarrow> peer_handle list \<Rightarrow> nat list" where
  "initial_order d needed peers =
     (if is_streaming d then sequential_order needed peers else rarest_first_order needed peers)"

section \<open>Batches\<close>

text \<open>
  The inner loop of \<open>batch_into_ranges\<close>: from a run that started at \<open>start\<close> and ends at \<open>end_group\<close>, the
  end it is extended to and the groups left over.
\<close>

fun extend_run :: "nat \<Rightarrow> nat \<Rightarrow> nat \<Rightarrow> nat list \<Rightarrow> nat \<times> nat list" where
  "extend_run max_groups start end_group [] = (end_group, [])"
| "extend_run max_groups start end_group (g # gs) =
     (if g = end_group + 1 \<and> end_group + 1 - start < max_groups
      then extend_run max_groups start g gs else (end_group, g # gs))"

lemma extend_run_shorter: "length (snd (extend_run m s e gs)) \<le> length gs"
  by (induction m s e gs rule: extend_run.induct) auto

definition byte_range :: "nat \<Rightarrow> nat \<Rightarrow> nat \<Rightarrow> range" where
  "byte_range sz start_group end_group =
     (fst (bytes_of_group start_group sz), snd (bytes_of_group end_group sz))"

function batch_into_ranges :: "nat list \<Rightarrow> nat \<Rightarrow> nat \<Rightarrow> range list" where
  "batch_into_ranges [] sz max_groups = []"
| "batch_into_ranges (g # gs) sz max_groups =
     (case extend_run max_groups g g gs of
        (e, rest) \<Rightarrow> byte_range sz g e # batch_into_ranges rest sz max_groups)"
  by pat_completeness auto
termination
proof (relation "measure (\<lambda>(gs, sz, m). length gs)", goal_cases)
  case (2 g gs sz m e rest)
  then show ?case using extend_run_shorter [of m g g gs] by (cases "extend_run m g g gs") simp
qed simp

text \<open>The inner loop of \<open>split_by_holder\<close>, which also narrows the common holders of the run.\<close>

definition narrow :: "peer_handle list \<Rightarrow> nat \<Rightarrow> nat list \<Rightarrow> nat list" where
  "narrow peers g hs = filter (\<lambda>k. gb_contains (ph_bits (peers ! k)) g) hs"

fun extend_held :: "peer_handle list \<Rightarrow> nat \<Rightarrow> nat \<Rightarrow> nat \<Rightarrow> nat list \<Rightarrow> nat list \<Rightarrow> nat \<times> nat list" where
  "extend_held peers max_groups start end_group hs [] = (end_group, [])"
| "extend_held peers max_groups start end_group hs (g # gs) =
     (if g = end_group + 1 \<and> end_group + 1 - start < max_groups \<and> narrow peers g hs \<noteq> []
      then extend_held peers max_groups start g (narrow peers g hs) gs else (end_group, g # gs))"

lemma extend_held_shorter: "length (snd (extend_held ps m s e hs gs)) \<le> length gs"
  by (induction ps m s e hs gs rule: extend_held.induct) auto

function split_by_holder :: "nat list \<Rightarrow> peer_handle list \<Rightarrow> nat \<Rightarrow> nat \<Rightarrow> range list" where
  "split_by_holder [] peers sz max_groups = []"
| "split_by_holder (g # gs) peers sz max_groups =
     (case narrow peers g [0..<length peers] of
        [] \<Rightarrow> split_by_holder gs peers sz max_groups
      | h # hs \<Rightarrow> (case extend_held peers max_groups g g (h # hs) gs of
          (e, rest) \<Rightarrow> byte_range sz g e # split_by_holder rest peers sz max_groups))"
  by pat_completeness auto
termination
proof (relation "measure (\<lambda>(gs, ps, sz, m). length gs)", goal_cases)
  case (3 g gs ps sz m h hs e rest)
  then show ?case using extend_held_shorter [of ps m g g "h # hs" gs] by (cases "extend_held ps m g g (h # hs) gs") simp
qed simp_all

text \<open>\<open>Swarm::groups_of\<close> and \<open>Swarm::bytes_of\<close>.\<close>

definition groups_of_batch :: "range \<Rightarrow> nat list" where
  "groups_of_batch r = (case groups_for_bytes r of (a, b) \<Rightarrow> [a..<b])"

definition bytes_of :: "nat \<Rightarrow> nat list \<Rightarrow> nat" where
  "bytes_of sz groups = foldl u64_add 0 (map (\<lambda>g. let r = bytes_of_group g sz in usize_sub (snd r) (fst r)) groups)"

section \<open>The slice of unassigned groups\<close>

function skip_fetched :: "nat list \<Rightarrow> group_bits \<Rightarrow> nat \<Rightarrow> nat" where
  "skip_fetched order remaining cursor =
     (if cursor < length order \<and> \<not> gb_contains remaining (order ! cursor)
      then skip_fetched order remaining (cursor + 1) else cursor)"
  by pat_completeness auto
termination
  by (relation "measure (\<lambda>(order, remaining, cursor). length order - cursor)") auto

declare skip_fetched.simps [simp del]

fun collect_unassigned :: "group_bits \<Rightarrow> group_bits \<Rightarrow> nat \<Rightarrow> nat list \<Rightarrow> nat list" where
  "collect_unassigned remaining inflight window [] = []"
| "collect_unassigned remaining inflight window (g # gs) =
     (if window = 0 then []
      else if gb_contains remaining g \<and> \<not> gb_contains inflight g
           then g # collect_unassigned remaining inflight (window - 1) gs
           else collect_unassigned remaining inflight window gs)"

definition next_unassigned ::
  "nat list \<Rightarrow> nat \<Rightarrow> group_bits \<Rightarrow> group_bits \<Rightarrow> nat \<Rightarrow> nat \<times> nat list" where
  "next_unassigned order cursor remaining inflight window =
     (let c = skip_fetched order remaining cursor
      in (c, collect_unassigned remaining inflight window (drop c order)))"

text \<open>\<open>needed_groups\<close>, with the present groups the store reports.\<close>

definition needed_groups :: "group_bits \<Rightarrow> nat \<Rightarrow> group_bits" where
  "needed_groups have_bits sz =
     (let n = group_count sz; all = (if n > 0 then gb_add gb_new (0, n) else gb_new)
      in gb_added_in have_bits all)"

section \<open>The orders list what can be fetched\<close>

definition held_by :: "peer_handle list \<Rightarrow> nat \<Rightarrow> bool" where
  "held_by peers g \<longleftrightarrow> (\<exists>p \<in> set peers. gb_contains (ph_bits p) g)"

lemma set_run_groups: "set (run_groups b) = groups_of b"
  by (fastforce simp: run_groups_def groups_of_def mem_run_set)

lemma sorted_run_groups: "gb_inv b \<Longrightarrow> sorted_wrt (<) (run_groups b)"
proof -
  have "sorted_wrt (<) (concat (map (\<lambda>r. [fst r..<snd r]) rs))" if "runs_ok rs" for rs
    using that by (induction rs) (fastforce simp: sorted_wrt_append)+
  then show "gb_inv b \<Longrightarrow> ?thesis" by (simp add: run_groups_def gb_inv_def)
qed

lemma distinct_run_groups: "gb_inv b \<Longrightarrow> distinct (run_groups b)"
  using sorted_run_groups strict_sorted_iff by blast

lemma holders_pos_iff: "0 < holders peers g \<longleftrightarrow> held_by peers g"
  by (auto simp: holders_def held_by_def filter_empty_conv)

lemma rarest_first_order_props:
  assumes "gb_inv needed"
  shows "set (rarest_first_order needed peers) = {g \<in> groups_of needed. held_by peers g}"
    and "distinct (rarest_first_order needed peers)"
    and "sorted_wrt (\<lambda>a b. (holders peers a, a) < (holders peers b, b)) (rarest_first_order needed peers)"
proof -
  let ?ps = "map (\<lambda>g. (holders peers g, g)) (filter (\<lambda>g. holders peers g > 0) (run_groups needed))"
  have d: "distinct ?ps"
    using distinct_run_groups [OF assms] by (auto simp: distinct_map inj_on_def)
  have key: "\<forall>x \<in> set (sort ?ps). fst x = holders peers (snd x)" by auto
  have "sorted_wrt (<) (sort ?ps)" using d strict_sorted_iff by (simp add: strict_sorted_iff)
  then show "sorted_wrt (\<lambda>a b. (holders peers a, a) < (holders peers b, b)) (rarest_first_order needed peers)"
    unfolding rarest_first_order_def sorted_wrt_map
    by (rule sorted_wrt_mono_rel [rotated]) (use key in \<open>metis prod.collapse\<close>)
  have "inj_on snd (set (sort ?ps))" using key by (intro inj_onI) (metis prod.collapse)
  then show "distinct (rarest_first_order needed peers)"
    using d by (simp add: rarest_first_order_def distinct_map)
  show "set (rarest_first_order needed peers) = {g \<in> groups_of needed. held_by peers g}"
    by (simp add: rarest_first_order_def set_run_groups holders_pos_iff image_image)
qed

lemma sequential_order_props:
  assumes "gb_inv needed"
  shows "set (sequential_order needed peers) = {g \<in> groups_of needed. held_by peers g}"
    and "sorted_wrt (<) (sequential_order needed peers)"
  using distinct_run_groups [OF assms]
  by (auto simp: sequential_order_def set_run_groups held_by_def list_ex_iff strict_sorted_iff)

lemma initial_order_props:
  assumes "gb_inv needed"
  shows "set (initial_order d needed peers) = {g \<in> groups_of needed. held_by peers g} \<and>
    distinct (initial_order d needed peers)"
  using rarest_first_order_props(1,2) [OF assms, of peers] sequential_order_props [OF assms, of peers]
  by (simp add: initial_order_def strict_sorted_iff)

section \<open>Byte ranges and groups\<close>

lemma byte_range_groups:
  assumes "s \<le> e" "e < group_count sz" "sz \<le> 2 ^ 64 - GROUP_BYTES"
  shows "groups_for_bytes (byte_range sz s e) = (s, Suc e)"
proof -
  have lt: "e * GROUP_BYTES < sz" using assms(2) by (simp add: group_count_def less_div_ceil_iff)
  have s: "s * GROUP_BYTES \<le> e * GROUP_BYTES" using assms(1) by simp
  have u: "u64_mul s GROUP_BYTES = s * GROUP_BYTES" "u64_mul (u64_add e 1) GROUP_BYTES = (e + 1) * GROUP_BYTES"
    using lt s assms(3) by (simp_all add: u64_mul_def u64_add_def GROUP_BYTES_def)
  have r: "byte_range sz s e = (s * GROUP_BYTES, min ((e + 1) * GROUP_BYTES) sz)"
    using lt u order_le_less_trans [OF s lt] by (simp add: byte_range_def bytes_of_group_def Let_def min_absorb1)
  have "div_ceil (min ((e + 1) * GROUP_BYTES) sz) GROUP_BYTES = Suc e"
  proof (rule antisym)
    show "div_ceil (min ((e + 1) * GROUP_BYTES) sz) GROUP_BYTES \<le> Suc e"
      by (subst div_ceil_le_iff) simp_all
    have "e < div_ceil (min ((e + 1) * GROUP_BYTES) sz) GROUP_BYTES"
      by (subst less_div_ceil_iff) (use lt in \<open>simp_all add: GROUP_BYTES_def\<close>)
    then show "Suc e \<le> div_ceil (min ((e + 1) * GROUP_BYTES) sz) GROUP_BYTES" by simp
  qed
  moreover have "s * GROUP_BYTES < min ((e + 1) * GROUP_BYTES) sz"
    using lt s by (auto simp: GROUP_BYTES_def)
  ultimately show ?thesis by (simp add: groups_for_bytes_def r GROUP_BYTES_def not_le)
qed

lemma groups_of_byte_range:
  "s \<le> e \<Longrightarrow> e < group_count sz \<Longrightarrow> sz \<le> 2 ^ 64 - GROUP_BYTES \<Longrightarrow>
     groups_of_batch (byte_range sz s e) = [s..<Suc e]"
  by (simp add: groups_of_batch_def byte_range_groups)

section \<open>Cutting an order into batches\<close>

text \<open>
  The contract both cutters share: the pieces, read back as groups, are the groups of the input that the
  cutter keeps, in order and without loss; each piece is one contiguous run of at most the requested
  number of groups and is acceptable as a batch.
\<close>

locale batch_cutter =
  fixes cut :: "nat list \<Rightarrow> nat \<Rightarrow> nat \<Rightarrow> range list"
    and keep :: "nat \<Rightarrow> bool"
    and fits :: "nat list \<Rightarrow> bool"
  assumes cut_groups: "\<lbrakk>\<forall>g \<in> set gs. g < group_count sz; sz \<le> 2 ^ 64 - GROUP_BYTES\<rbrakk> \<Longrightarrow>
      concat (map groups_of_batch (cut gs sz m)) = filter keep gs"
    and cut_pieces: "\<lbrakk>\<forall>g \<in> set gs. g < group_count sz; sz \<le> 2 ^ 64 - GROUP_BYTES; r \<in> set (cut gs sz m)\<rbrakk> \<Longrightarrow>
      \<exists>s e. s \<le> e \<and> e < group_count sz \<and> r = byte_range sz s e \<and> Suc e - s \<le> max m 1 \<and> fits [s..<Suc e]"
begin

lemma piece_groups:
  assumes "\<forall>g \<in> set gs. g < group_count sz" "sz \<le> 2 ^ 64 - GROUP_BYTES" "r \<in> set (cut gs sz m)"
  shows "groups_of_batch r \<noteq> []" "length (groups_of_batch r) \<le> max m 1" "fits (groups_of_batch r)"
    "set (groups_of_batch r) \<subseteq> set gs"
proof -
  obtain s e where r: "s \<le> e" "e < group_count sz" "r = byte_range sz s e" "Suc e - s \<le> max m 1" "fits [s..<Suc e]"
    using cut_pieces [OF assms] by auto
  note g = groups_of_byte_range [OF r(1,2) assms(2)]
  show "groups_of_batch r \<noteq> []" "length (groups_of_batch r) \<le> max m 1" "fits (groups_of_batch r)"
    using r g by simp_all
  have "set (groups_of_batch r) \<subseteq> set (concat (map groups_of_batch (cut gs sz m)))"
    using assms(3) by auto
  then show "set (groups_of_batch r) \<subseteq> set gs" using cut_groups [OF assms(1,2)] by auto
qed

lemma pieces_disjoint:
  assumes "\<forall>g \<in> set gs. g < group_count sz" "sz \<le> 2 ^ 64 - GROUP_BYTES" "distinct gs"
  shows "distinct (concat (map groups_of_batch (cut gs sz m)))"
  using cut_groups [OF assms(1,2)] assms(3) by simp

lemma cut_nonempty:
  assumes "\<forall>g \<in> set gs. g < group_count sz" "sz \<le> 2 ^ 64 - GROUP_BYTES" "g \<in> set gs" "keep g"
  shows "\<exists>r \<in> set (cut gs sz m). g \<in> set (groups_of_batch r)"
proof -
  have "g \<in> set (concat (map groups_of_batch (cut gs sz m)))"
    using cut_groups [OF assms(1,2)] assms(3,4) by simp
  then show ?thesis by auto
qed

end

lemma extend_run_split:
  assumes "extend_run m s e gs = (e', rest)" "s \<le> e"
  shows "e \<le> e' \<and> gs = [Suc e..<Suc e'] @ rest \<and> Suc e' - s \<le> max m (Suc e - s)"
  using assms
proof (induction m s e gs arbitrary: e' rest rule: extend_run.induct)
  case (2 m s e g gs)
  show ?case
  proof (cases "g = e + 1 \<and> e + 1 - s < m")
    case True
    then have "Suc e \<le> e' \<and> gs = [Suc (Suc e)..<Suc e'] @ rest \<and> Suc e' - s \<le> max m (Suc (Suc e) - s)"
      using 2 by auto
    moreover from this have "[Suc e..<Suc e'] = Suc e # [Suc (Suc e)..<Suc e']" by (simp add: upt_conv_Cons)
    ultimately show ?thesis using True by auto
  next
    case False
    then show ?thesis using 2(2,3) by (simp split: if_splits)
  qed
qed auto

lemma batch_into_ranges_groups:
  assumes "\<forall>g \<in> set gs. g < group_count sz" "sz \<le> 2 ^ 64 - GROUP_BYTES"
  shows "concat (map groups_of_batch (batch_into_ranges gs sz m)) = gs \<and>
    (\<forall>r \<in> set (batch_into_ranges gs sz m).
       \<exists>s e. s \<le> e \<and> e < group_count sz \<and> r = byte_range sz s e \<and> Suc e - s \<le> max m 1)"
  using assms
proof (induction gs sz m rule: batch_into_ranges.induct)
  case (2 g gs sz m)
  obtain e rest where er: "extend_run m g g gs = (e, rest)" by fastforce
  from extend_run_split [OF er] have sp: "g \<le> e" "gs = [Suc g..<Suc e] @ rest" "Suc e - g \<le> max m 1" by auto
  have "e \<in> set (g # gs)" using sp by (cases "e = g") auto
  then have e: "e < group_count sz" using 2(2) by blast
  have "concat (map groups_of_batch (batch_into_ranges rest sz m)) = rest \<and>
    (\<forall>r \<in> set (batch_into_ranges rest sz m).
       \<exists>s e. s \<le> e \<and> e < group_count sz \<and> r = byte_range sz s e \<and> Suc e - s \<le> max m 1)"
    using 2(1) [OF er [symmetric]] 2(2,3) sp by auto
  moreover have "[g..<Suc e] = g # [Suc g..<Suc e]" using sp by (simp add: upt_conv_Cons)
  ultimately show ?case
    using er sp e groups_of_byte_range [OF sp(1) e 2(3)] by fastforce
qed auto

interpretation ranges: batch_cutter batch_into_ranges "\<lambda>_. True" "\<lambda>_. True"
  by unfold_locales (use batch_into_ranges_groups in auto)

text \<open>Splitting by holder keeps every held group, and each piece has a common holder.\<close>

definition common_holder :: "peer_handle list \<Rightarrow> nat list \<Rightarrow> bool" where
  "common_holder peers gs \<longleftrightarrow> (\<exists>k < length peers. \<forall>g \<in> set gs. gb_contains (ph_bits (peers ! k)) g)"

lemma held_by_nth: "held_by peers g \<longleftrightarrow> (\<exists>k < length peers. gb_contains (ph_bits (peers ! k)) g)"
  unfolding held_by_def by (metis in_set_conv_nth)

lemma set_narrow: "set (narrow peers g hs) = {k \<in> set hs. gb_contains (ph_bits (peers ! k)) g}"
  by (auto simp: narrow_def)

lemma extend_held_split:
  assumes "extend_held ps m s e hs gs = (e', rest)" "s \<le> e" "hs \<noteq> []"
  shows "e \<le> e' \<and> gs = [Suc e..<Suc e'] @ rest \<and> Suc e' - s \<le> max m (Suc e - s) \<and>
    (\<exists>k \<in> set hs. \<forall>g \<in> {Suc e..e'}. gb_contains (ph_bits (ps ! k)) g)"
  using assms
proof (induction ps m s e hs gs arbitrary: e' rest rule: extend_held.induct)
  case (1 ps m s e hs)
  then show ?case by (cases hs) auto
next
  case (2 ps m s e hs g gs)
  show ?case
  proof (cases "g = e + 1 \<and> e + 1 - s < m \<and> narrow ps g hs \<noteq> []")
    case True
    then have "extend_held ps m s g (narrow ps g hs) gs = (e', rest)" using 2(2) by auto
    from 2(1) [OF True this] have ih: "Suc e \<le> e'" "gs = [Suc (Suc e)..<Suc e'] @ rest"
        "Suc e' - s \<le> max m (Suc (Suc e) - s)"
        "\<exists>k \<in> set (narrow ps g hs). \<forall>g \<in> {Suc (Suc e)..e'}. gb_contains (ph_bits (ps ! k)) g"
      using True 2(3) by auto
    from ih(4) True obtain k where k: "k \<in> set hs" "gb_contains (ph_bits (ps ! k)) (Suc e)"
        "\<forall>g \<in> {Suc (Suc e)..e'}. gb_contains (ph_bits (ps ! k)) g"
      by (auto simp: set_narrow)
    have "\<forall>g \<in> {Suc e..e'}. gb_contains (ph_bits (ps ! k)) g"
      using k(2,3) by (metis Suc_leI atLeastAtMost_iff le_neq_implies_less)
    moreover have "[Suc e..<Suc e'] = Suc e # [Suc (Suc e)..<Suc e']" using ih(1) by (simp add: upt_conv_Cons)
    ultimately show ?thesis using ih True k(1) by auto
  next
    case False
    then have "e' = e" "rest = g # gs" using 2(2) by (auto split: if_splits)
    then show ?thesis using 2(4) by (cases hs) auto
  qed
qed

lemma split_by_holder_groups:
  assumes "\<forall>g \<in> set gs. g < group_count sz" "sz \<le> 2 ^ 64 - GROUP_BYTES"
  shows "concat (map groups_of_batch (split_by_holder gs ps sz m)) = filter (held_by ps) gs \<and>
    (\<forall>r \<in> set (split_by_holder gs ps sz m).
       \<exists>s e. s \<le> e \<and> e < group_count sz \<and> r = byte_range sz s e \<and> Suc e - s \<le> max m 1 \<and>
             common_holder ps [s..<Suc e])"
  using assms
proof (induction gs ps sz m rule: split_by_holder.induct)
  case (2 g gs ps sz m)
  have held: "held_by ps g \<longleftrightarrow> narrow ps g [0..<length ps] \<noteq> []"
    unfolding held_by_nth narrow_def filter_empty_conv by auto
  show ?case
  proof (cases "narrow ps g [0..<length ps]")
    case Nil
    then show ?thesis using 2 held by auto
  next
    case (Cons h hs)
    obtain e rest where er: "extend_held ps m g g (h # hs) gs = (e, rest)" by fastforce
    from extend_held_split [OF er] have sp: "g \<le> e" "gs = [Suc g..<Suc e] @ rest" "Suc e - g \<le> max m 1"
        "\<exists>k \<in> set (h # hs). \<forall>g \<in> {Suc g..e}. gb_contains (ph_bits (ps ! k)) g"
      by auto
    then obtain k where k: "k \<in> set (narrow ps g [0..<length ps])" "\<forall>g \<in> {Suc g..e}. gb_contains (ph_bits (ps ! k)) g"
      using Cons by auto
    then have k': "k < length ps" "gb_contains (ph_bits (ps ! k)) g" by (auto simp: set_narrow)
    have all: "gb_contains (ph_bits (ps ! k)) x" if "x \<in> {g..e}" for x
      using that k(2) k'(2) by (cases "x = g") auto
    then have ch: "common_holder ps [g..<Suc e]" unfolding common_holder_def using k'(1) by auto
    have hb: "filter (held_by ps) [g..<Suc e] = [g..<Suc e]"
      using all k'(1) by (auto simp: filter_id_conv held_by_nth)
    have "e \<in> set (g # gs)" using sp by (cases "e = g") auto
    then have e: "e < group_count sz" using 2(3) by blast
    have ih: "concat (map groups_of_batch (split_by_holder rest ps sz m)) = filter (held_by ps) rest \<and>
      (\<forall>r \<in> set (split_by_holder rest ps sz m).
         \<exists>s e. s \<le> e \<and> e < group_count sz \<and> r = byte_range sz s e \<and> Suc e - s \<le> max m 1 \<and>
               common_holder ps [s..<Suc e])"
      using 2(2) [OF Cons er [symmetric]] 2(3,4) sp(2) by auto
    have gg: "g # gs = [g..<Suc e] @ rest" using sp by (simp add: upt_conv_Cons)
    have "filter (held_by ps) (g # gs) = [g..<Suc e] @ filter (held_by ps) rest"
      unfolding gg filter_append hb ..
    then show ?thesis
      using er sp e Cons ih ch groups_of_byte_range [OF sp(1) e 2(4)] by fastforce
  qed
qed auto

interpretation split: batch_cutter "\<lambda>gs. split_by_holder gs ps" "held_by ps" "common_holder ps"
  by unfold_locales (use split_by_holder_groups [where ps = ps] in auto)

section \<open>The slice\<close>

lemma skip_fetched_props:
  assumes "c \<le> length order"
  shows "c \<le> skip_fetched order remaining c \<and> skip_fetched order remaining c \<le> length order \<and>
    (\<forall>i. c \<le> i \<and> i < skip_fetched order remaining c \<longrightarrow> \<not> gb_contains remaining (order ! i))"
  using assms
proof (induction order remaining c rule: skip_fetched.induct)
  case (1 order remaining c)
  show ?case
  proof (cases "c < length order \<and> \<not> gb_contains remaining (order ! c)")
    case True
    then have eq: "skip_fetched order remaining c = skip_fetched order remaining (c + 1)"
      by (subst skip_fetched.simps) simp
    from True 1 have "c + 1 \<le> skip_fetched order remaining (c + 1) \<and> skip_fetched order remaining (c + 1) \<le> length order \<and>
      (\<forall>i. c + 1 \<le> i \<and> i < skip_fetched order remaining (c + 1) \<longrightarrow> \<not> gb_contains remaining (order ! i))"
      by simp
    moreover have "\<not> gb_contains remaining (order ! i)" if "c \<le> i" "i < skip_fetched order remaining (c + 1)"
        "\<forall>i. c + 1 \<le> i \<and> i < skip_fetched order remaining (c + 1) \<longrightarrow> \<not> gb_contains remaining (order ! i)" for i
      using that True by (cases "i = c") auto
    ultimately show ?thesis unfolding eq by simp
  next
    case False
    then have "skip_fetched order remaining c = c" by (subst skip_fetched.simps) auto
    then show ?thesis using 1(2) by auto
  qed
qed

lemma drop_skip_fetched:
  assumes "c \<le> length order"
  shows "filter (gb_contains remaining) (drop (skip_fetched order remaining c) order) =
    filter (gb_contains remaining) (drop c order)"
proof -
  let ?c = "skip_fetched order remaining c"
  have p: "c \<le> ?c" "?c \<le> length order" "\<forall>i. c \<le> i \<and> i < ?c \<longrightarrow> \<not> gb_contains remaining (order ! i)"
    using skip_fetched_props [OF assms] by auto
  have "drop c order = take (?c - c) (drop c order) @ drop ?c order"
    using p(1) by (metis append_take_drop_id drop_drop le_add_diff_inverse2)
  moreover have "filter (gb_contains remaining) (take (?c - c) (drop c order)) = []"
    using p by (auto simp: filter_empty_conv in_set_conv_nth)
  ultimately show ?thesis by (metis append_Nil filter_append)
qed

lemma collect_unassigned_eq:
  "collect_unassigned remaining inflight w gs =
     take w (filter (\<lambda>g. gb_contains remaining g \<and> \<not> gb_contains inflight g) gs)"
proof (induction gs arbitrary: w)
  case (Cons g gs)
  then show ?case by (cases w) auto
qed simp

text \<open>The slice is the first groups of the unfetched part of the order that no batch covers.\<close>

lemma next_unassigned_eq:
  assumes "c \<le> length order"
  shows "snd (next_unassigned order c remaining inflight w) =
    take w (filter (\<lambda>g. gb_contains remaining g \<and> \<not> gb_contains inflight g) (drop c order))"
proof -
  have "filter (\<lambda>g. gb_contains remaining g \<and> \<not> gb_contains inflight g) xs =
      filter (\<lambda>g. \<not> gb_contains inflight g) (filter (gb_contains remaining) xs)" for xs
    by simp
  then show ?thesis
    using drop_skip_fetched [OF assms, of remaining]
    unfolding next_unassigned_def Let_def snd_conv collect_unassigned_eq by metis
qed

lemma needed_groups_ok:
  "gb_inv (needed_groups present sz) \<and>
   groups_of (needed_groups present sz) = {g. g < group_count sz} - groups_of present"
proof -
  have "gb_inv gb_new" "groups_of gb_new = {}" by (simp_all add: gb_inv_def gb_new_def groups_of_def)
  then show ?thesis
    using gb_add_ok [of gb_new "(0, group_count sz)"] gb_added_in_ok
    by (auto simp: needed_groups_def Let_def range_set_def)
qed

end
