(* ===== verification/Swarm_Window.thy ===== *)
theory Swarm_Window
  imports Swarm_Order "HOL-Library.Monad_Syntax"
begin

text \<open>
  The sliding window of the fetch scheduler (\<open>Window\<close>, \<open>Swarm::pick_peer\<close>, \<open>Swarm::race_batch\<close> and
  \<open>Swarm::apply_outcome\<close> of \<^verbatim>\<open>epix-edx/src/sched.rs\<close>): the per-peer ledgers, booking batches onto peers,
  the race of a stalled batch, and what each outcome does to the ledgers.

  An in-flight batch future is the value \<open>flight\<close>: what it captured, and how far its race has come.  Its
  two await points are the two functions \<open>race_primary\<close> and \<open>race_finish\<close>; what the network, the timers and
  the store answer there are their arguments.  The link counters are shared with other swarms, so they
  are an argument too, changed by the charge each booking makes.  All clock reads between two awaits see
  the same instant \<open>t\<close>.
\<close>

section \<open>State\<close>

datatype race_phase = OnPrimary | Racing "nat list" bool bool "nat option"

record flight =
  fl_batch :: range
  fl_groups :: "nat list"
  fl_primary :: nat
  fl_queued :: nat
  fl_phase :: race_phase

record window =
  w_load :: "nat list"
  w_fails :: "nat list"
  w_depth :: "nat list"
  w_inflight :: group_bits
  w_busy :: "nat list"
  w_cooldown :: "nat option list"
  w_probed :: "bool list"
  w_futs :: "flight list"

record fetch_report =
  groups_fetched :: nat
  requests_issued :: nat
  duplicates_issued :: nat
  by_peer :: "(string, nat) hash_map"

definition report_default :: fetch_report where
  "report_default = \<lparr>groups_fetched = 0, requests_issued = 0, duplicates_issued = 0, by_peer = []\<rparr>"

text \<open>The parts of \<open>Swarm\<close> the decisions read: the object size and the two latency tables.\<close>

record swarm =
  sw_size :: nat
  sw_stats :: class_stats
  sw_peer_stats :: peer_stats

record batch_outcome =
  bo_groups :: "nat list"
  bo_landed :: "nat list"
  bo_primary :: nat
  bo_winner :: "nat option"
  bo_winner_label :: "string option"
  bo_duplicates :: nat
  bo_winner_class :: "link_class option"
  bo_elapsed :: "nat option"
  bo_failed_peer :: "nat option"
  bo_busy_peer :: "nat option"
  bo_retry_after :: "nat option"

definition window_new :: "peer_handle list \<Rightarrow> window" where
  "window_new peers =
     \<lparr>w_load = replicate (length peers) 0, w_fails = replicate (length peers) 0,
      w_depth = map (\<lambda>p. pipeline_depth (ph_class p)) peers, w_inflight = gb_new,
      w_busy = replicate (length peers) 0, w_cooldown = replicate (length peers) None,
      w_probed = replicate (length peers) False, w_futs = []\<rparr>"

definition grow :: "link_class \<Rightarrow> window \<Rightarrow> window" where
  "grow c w =
     w\<lparr>w_load := w_load w @ [0], w_fails := w_fails w @ [0], w_depth := w_depth w @ [pipeline_depth c],
       w_busy := w_busy w @ [0], w_cooldown := w_cooldown w @ [None], w_probed := w_probed w @ [False]\<rparr>"

text \<open>\<open>cooldown[i].is_none_or(|t| t <= now)\<close>.\<close>

definition cool :: "nat option \<Rightarrow> nat \<Rightarrow> bool" where
  "cool c t \<longleftrightarrow> (case c of None \<Rightarrow> True | Some u \<Rightarrow> u \<le> t)"

definition schedulable :: "window \<Rightarrow> nat \<Rightarrow> nat \<Rightarrow> bool" where
  "schedulable w i t \<longleftrightarrow> w_fails w ! i < PEER_FAIL_LIMIT \<and> cool (w_cooldown w ! i) t"

definition free_slots :: "nat \<Rightarrow> window \<Rightarrow> nat" where
  "free_slots t w =
     sum_list (map (\<lambda>i. w_depth w ! i - w_load w ! i) (filter (\<lambda>i. schedulable w i t) [0..<length (w_load w)]))"

definition awaiting_link_room :: "nat \<Rightarrow> links \<Rightarrow> peer_handle list \<Rightarrow> window \<Rightarrow> bool" where
  "awaiting_link_room t L peers w \<longleftrightarrow>
     list_ex (\<lambda>i. schedulable w i t \<and> w_load w ! i < w_depth w ! i \<and> link_full L (peers ! i)) [0..<length (w_load w)]"

definition next_retry :: "nat \<Rightarrow> window \<Rightarrow> nat option" where
  "next_retry t w =
     (let ts = filter (\<lambda>u. u > t) (List.map_filter fst (filter (\<lambda>e. snd e < PEER_FAIL_LIMIT) (zip (w_cooldown w) (w_fails w))))
      in if ts = [] then None else Some (Min (set ts)))"

section \<open>Picking a peer\<close>

definition eligible ::
  "deadline \<Rightarrow> nat \<Rightarrow> links \<Rightarrow> nat list \<Rightarrow> peer_handle list \<Rightarrow> nat list \<Rightarrow> nat list \<Rightarrow> nat option list \<Rightarrow> nat \<Rightarrow> bool" where
  "eligible dl t L groups peers load fails cooldown i \<longleftrightarrow>
     fails ! i < PEER_FAIL_LIMIT \<and> cool (cooldown ! i) t \<and> load ! i < pipeline_depth (ph_class (peers ! i)) \<and>
     (is_streaming dl \<or> \<not> link_full L (peers ! i)) \<and> list_all (gb_contains (ph_bits (peers ! i))) groups"

definition pick_key ::
  "deadline \<Rightarrow> swarm \<Rightarrow> peer_handle list \<Rightarrow> nat list \<Rightarrow> nat list \<Rightarrow> nat \<Rightarrow> nat \<times> nat \<times> nat" where
  "pick_key dl sw peers load fails i =
     (let p = peers ! i
      in if is_streaming dl
         then (fails ! i,
               (case per_group (sw_peer_stats sw) (ph_label p) of
                  Some d \<Rightarrow> d | None \<Rightarrow> class_rtt (sw_stats sw) (ph_class p)),
               load ! i)
         else (fails ! i, load ! i, class_rtt (sw_stats sw) (ph_class p)))"

definition pick_peer ::
  "deadline \<Rightarrow> swarm \<Rightarrow> nat \<Rightarrow> links \<Rightarrow> nat list \<Rightarrow> peer_handle list \<Rightarrow> nat list \<Rightarrow> nat list \<Rightarrow> nat option list
     \<Rightarrow> nat option" where
  "pick_peer dl sw t L groups peers load fails cooldown =
     (case filter (eligible dl t L groups peers load fails cooldown) [0..<length peers] of
        [] \<Rightarrow> None
      | i # is \<Rightarrow> Some (arg_min_list (pick_key dl sw peers load fails) (i # is)))"

section \<open>Booking\<close>

record sched =
  sc_window :: window
  sc_links :: links
  sc_report :: fetch_report

definition trim_batch :: "nat \<Rightarrow> nat \<Rightarrow> range \<Rightarrow> nat list \<Rightarrow> range \<times> nat list" where
  "trim_batch sz max_groups batch groups =
     (if length groups > max_groups
      then ((fst batch, snd (bytes_of_group (last (take max_groups groups)) sz)), take max_groups groups)
      else (batch, groups))"

definition schedule ::
  "deadline \<Rightarrow> swarm \<Rightarrow> range \<Rightarrow> nat list \<Rightarrow> nat \<Rightarrow> peer_handle list \<Rightarrow> sched \<Rightarrow> sched" where
  "schedule dl sw batch groups idx peers sc =
     (let p = peers ! idx; w = sc_window sc;
          (batch', groups') = trim_batch (sw_size sw) (groups_per_request (ph_class p)) batch groups;
          load' = (w_load w)[idx := w_load w ! idx + 1];
          inflight' = foldl (\<lambda>b g. gb_add b (g, g + 1)) (w_inflight w) groups';
          links' = charge_fetch (bytes_of (sw_size sw) groups') p (sc_links sc);
          queued = window_queue_depth dl (load' ! idx) (ph_class p) (queued_fetch (links' (ph_conn p)))
      in \<lparr>sc_window = w\<lparr>w_load := load', w_inflight := inflight',
            w_futs := w_futs w @ [\<lparr>fl_batch = batch', fl_groups = groups', fl_primary = idx,
                                     fl_queued = queued, fl_phase = OnPrimary\<rparr>]\<rparr>,
          sc_links = links',
          sc_report = (sc_report sc)\<lparr>requests_issued := requests_issued (sc_report sc) + 1\<rparr>\<rparr>)"

definition pick_now ::
  "deadline \<Rightarrow> swarm \<Rightarrow> nat \<Rightarrow> nat list \<Rightarrow> peer_handle list \<Rightarrow> sched \<Rightarrow> nat option" where
  "pick_now dl sw t groups peers sc =
     pick_peer dl sw t (sc_links sc) groups peers (w_load (sc_window sc)) (w_fails (sc_window sc))
       (w_cooldown (sc_window sc))"

definition assign_sub ::
  "deadline \<Rightarrow> swarm \<Rightarrow> nat \<Rightarrow> peer_handle list \<Rightarrow> bool \<times> sched \<Rightarrow> range \<Rightarrow> bool \<times> sched" where
  "assign_sub dl sw t peers st sub =
     (case pick_now dl sw t (groups_of_batch sub) peers (snd st) of
        None \<Rightarrow> st
      | Some idx \<Rightarrow> (True, schedule dl sw sub (groups_of_batch sub) idx peers (snd st)))"

definition assign_split ::
  "deadline \<Rightarrow> swarm \<Rightarrow> nat \<Rightarrow> nat list \<Rightarrow> peer_handle list \<Rightarrow> nat \<Rightarrow> sched \<Rightarrow> bool \<times> sched" where
  "assign_split dl sw t bgroups peers bg sc =
     foldl (assign_sub dl sw t peers) (False, sc) (split_by_holder bgroups peers (sw_size sw) bg)"

definition assign_batch ::
  "deadline \<Rightarrow> swarm \<Rightarrow> nat \<Rightarrow> peer_handle list \<Rightarrow> nat \<Rightarrow> range \<Rightarrow> sched \<Rightarrow> bool \<times> sched" where
  "assign_batch dl sw t peers bg batch sc =
     (let bgroups = groups_of_batch batch
      in case pick_now dl sw t bgroups peers sc of
           Some idx \<Rightarrow> (True, schedule dl sw batch bgroups idx peers sc)
         | None \<Rightarrow> assign_split dl sw t bgroups peers bg sc)"

definition assign_step ::
  "deadline \<Rightarrow> swarm \<Rightarrow> nat \<Rightarrow> peer_handle list \<Rightarrow> nat \<Rightarrow> bool \<times> sched \<Rightarrow> range \<Rightarrow> bool \<times> sched" where
  "assign_step dl sw t peers bg st batch =
     (case assign_batch dl sw t peers bg batch (snd st) of (a, sc) \<Rightarrow> (fst st \<or> a, sc))"

definition assign_slice ::
  "deadline \<Rightarrow> swarm \<Rightarrow> nat \<Rightarrow> peer_handle list \<Rightarrow> nat \<Rightarrow> nat list \<Rightarrow> sched \<Rightarrow> bool \<times> sched" where
  "assign_slice dl sw t peers bg gs sc =
     foldl (assign_step dl sw t peers bg) (False, sc) (batch_into_ranges gs (sw_size sw) bg)"

text \<open>The refill loop may in principle run on; \<open>None\<close> would be that.\<close>

partial_function (option) refill ::
  "deadline \<Rightarrow> swarm \<Rightarrow> nat \<Rightarrow> nat list \<Rightarrow> group_bits \<Rightarrow> peer_handle list \<Rightarrow> nat \<Rightarrow> nat \<Rightarrow> sched \<Rightarrow> (nat \<times> sched) option" where
  "refill dl sw t order remaining peers bg cursor sc =
     (if free_slots t (sc_window sc) = 0 then Some (cursor, sc)
      else (case next_unassigned order cursor remaining (w_inflight (sc_window sc)) (free_slots t (sc_window sc) * bg) of
              (c, gs) \<Rightarrow>
                if gs = [] then Some (c, sc)
                else (case assign_slice dl sw t peers bg gs sc of
                        (assigned, sc') \<Rightarrow>
                          if assigned then refill dl sw t order remaining peers bg c sc' else Some (c, sc'))))"

section \<open>Racing a batch\<close>

definition batch_cap :: "deadline \<Rightarrow> nat \<Rightarrow> nat" where
  "batch_cap dl queued = min (max_wait dl) MAX_BATCH_WAIT * max queued 1"

definition batch_stall :: "deadline \<Rightarrow> link_class \<Rightarrow> nat \<Rightarrow> nat" where
  "batch_stall dl c queued = min (stall_window c queued) (batch_cap dl queued div PRIMARY_BUDGET_DIVISOR)"

definition won :: "nat list \<Rightarrow> nat \<Rightarrow> nat \<Rightarrow> string \<Rightarrow> nat \<Rightarrow> link_class \<Rightarrow> nat \<Rightarrow> batch_outcome" where
  "won groups primary winner label duplicates c elapsed =
     \<lparr>bo_groups = groups, bo_landed = groups, bo_primary = primary, bo_winner = Some winner,
      bo_winner_label = Some label, bo_duplicates = duplicates, bo_winner_class = Some c,
      bo_elapsed = Some elapsed, bo_failed_peer = None, bo_busy_peer = None, bo_retry_after = None\<rparr>"

definition batch_failed :: "group_bits \<Rightarrow> nat list \<Rightarrow> nat \<Rightarrow> nat \<Rightarrow> batch_outcome" where
  "batch_failed present groups primary duplicates =
     \<lparr>bo_groups = groups, bo_landed = filter (gb_contains present) groups, bo_primary = primary,
      bo_winner = None, bo_winner_label = None, bo_duplicates = duplicates, bo_winner_class = None,
      bo_elapsed = None, bo_failed_peer = Some primary, bo_busy_peer = None, bo_retry_after = None\<rparr>"

definition batch_busy :: "group_bits \<Rightarrow> nat list \<Rightarrow> nat \<Rightarrow> nat \<Rightarrow> nat option \<Rightarrow> batch_outcome" where
  "batch_busy present groups primary duplicates retry_after =
     (batch_failed present groups primary duplicates)
       \<lparr>bo_failed_peer := None, bo_busy_peer := Some primary, bo_retry_after := retry_after\<rparr>"

definition race_targets :: "class_stats \<Rightarrow> nat list \<Rightarrow> nat \<Rightarrow> peer_handle list \<Rightarrow> nat list" where
  "race_targets st groups primary peers =
     take MAX_DUPLICATES
       (filter (\<lambda>i. i \<noteq> primary \<and> ph_label (peers ! i) \<noteq> ph_label (peers ! primary) \<and>
                    ph_class (peers ! i) \<in> set (faster_or_equal st (ph_class (peers ! primary))) \<and>
                    list_all (gb_contains (ph_bits (peers ! i))) groups)
          [0..<length peers])"

text \<open>
  The first await: the primary answers, stalls, or uses up the cap.  \<open>PrimaryErr busy retry\<close> is an error,
  marked as a refusal with the comeback hint it carried.
\<close>

datatype primary_event = PrimaryOk | PrimaryErr bool "nat option" | PrimaryStalled | PrimaryCapped

definition start_race ::
  "deadline \<Rightarrow> class_stats \<Rightarrow> group_bits \<Rightarrow> nat \<Rightarrow> peer_handle list \<Rightarrow> bool \<Rightarrow> bool \<Rightarrow> nat option \<Rightarrow> flight
     \<Rightarrow> flight + batch_outcome" where
  "start_race dl st present elapsed peers errored busy retry fl =
     (let targets = race_targets st (fl_groups fl) (fl_primary fl) peers;
          left = batch_cap dl (fl_queued fl) - elapsed
      in if targets = [] \<or> left = 0
         then Inr (if busy then batch_busy present (fl_groups fl) (fl_primary fl) 0 retry
                   else batch_failed present (fl_groups fl) (fl_primary fl) 0)
         else Inl (fl\<lparr>fl_phase := Racing targets errored busy retry\<rparr>))"

fun race_primary ::
  "deadline \<Rightarrow> class_stats \<Rightarrow> group_bits \<Rightarrow> primary_event \<Rightarrow> nat \<Rightarrow> peer_handle list \<Rightarrow> flight \<Rightarrow> flight + batch_outcome" where
  "race_primary dl st present PrimaryOk elapsed peers fl =
     Inr (won (fl_groups fl) (fl_primary fl) (fl_primary fl) (ph_label (peers ! fl_primary fl)) 0
            (ph_class (peers ! fl_primary fl)) elapsed)"
| "race_primary dl st present (PrimaryErr busy retry) elapsed peers fl =
     start_race dl st present elapsed peers True busy retry fl"
| "race_primary dl st present PrimaryStalled elapsed peers fl =
     start_race dl st present elapsed peers False False None fl"
| "race_primary dl st present PrimaryCapped elapsed peers fl =
     Inr (batch_failed present (fl_groups fl) (fl_primary fl) 0)"

definition race_stall :: "deadline \<Rightarrow> peer_handle list \<Rightarrow> flight \<Rightarrow> nat" where
  "race_stall dl peers fl =
     (case fl_phase fl of
        OnPrimary \<Rightarrow> batch_stall dl (ph_class (peers ! fl_primary fl)) (fl_queued fl)
      | Racing targets errored busy retry \<Rightarrow>
          (let ws = map (\<lambda>i. stall_timeout (ph_class (peers ! i))) targets @
                    (if errored then [] else [stall_timeout (ph_class (peers ! fl_primary fl))])
           in if ws = [] then batch_stall dl (ph_class (peers ! fl_primary fl)) (fl_queued fl) else Max (set ws)))"

text \<open>
  The second await: the first racer to succeed, or none (all failed, nobody moved a byte for the stall
  window, or the rest of the cap ran out).
\<close>

definition racers :: "flight \<Rightarrow> nat list" where
  "racers fl =
     (case fl_phase fl of
        OnPrimary \<Rightarrow> []
      | Racing targets errored busy retry \<Rightarrow> targets @ (if errored then [] else [fl_primary fl]))"

fun race_finish ::
  "group_bits \<Rightarrow> nat option \<Rightarrow> nat \<Rightarrow> peer_handle list \<Rightarrow> flight \<Rightarrow> nat list \<Rightarrow> bool \<Rightarrow> nat option \<Rightarrow> batch_outcome" where
  "race_finish present (Some w) elapsed peers fl targets busy retry =
     (let out = won (fl_groups fl) (fl_primary fl) w (ph_label (peers ! w)) (length targets) (ph_class (peers ! w)) elapsed
      in if w \<noteq> fl_primary fl
         then (if busy then out\<lparr>bo_busy_peer := Some (fl_primary fl), bo_retry_after := retry\<rparr>
               else out\<lparr>bo_failed_peer := Some (fl_primary fl)\<rparr>)
         else out)"
| "race_finish present None elapsed peers fl targets busy retry =
     (if busy then batch_busy present (fl_groups fl) (fl_primary fl) (length targets) retry
      else batch_failed present (fl_groups fl) (fl_primary fl) (length targets))"

section \<open>Outcomes\<close>

definition release :: "batch_outcome \<Rightarrow> window \<Rightarrow> window" where
  "release out w =
     w\<lparr>w_load := (w_load w)[bo_primary out := w_load w ! bo_primary out - 1],
       w_inflight := foldl (\<lambda>b g. gb_remove b (g, g + 1)) (w_inflight w) (bo_groups out)\<rparr>"

definition note_busy :: "nat \<Rightarrow> nat option \<Rightarrow> nat \<Rightarrow> window \<Rightarrow> window" where
  "note_busy p retry_after t w =
     (let b = u32_saturating_add (w_busy w ! p) 1; w1 = w\<lparr>w_busy := (w_busy w)[p := b]\<rparr>
      in if b \<ge> BUSY_LIMIT then w1\<lparr>w_fails := (w_fails w)[p := PEER_FAIL_LIMIT]\<rparr>
         else let wait = (case retry_after of Some d \<Rightarrow> min (max d BUSY_RETRY_MIN) BUSY_RETRY_MAX | None \<Rightarrow> BUSY_COOLDOWN)
              in w1\<lparr>w_cooldown := (w_cooldown w)[p := Some (t + wait)]\<rparr>)"

definition note_failed :: "nat \<Rightarrow> peer_handle list \<Rightarrow> nat \<Rightarrow> window \<Rightarrow> window" where
  "note_failed p peers t w =
     (let fails = (w_fails w)[p := u32_saturating_add (w_fails w ! p) 1]
      in if fails ! p \<ge> PEER_FAIL_LIMIT \<and> \<not> w_probed w ! p \<and>
            list_all (\<lambda>j. j = p \<or> fails ! j \<ge> PEER_FAIL_LIMIT) [0..<length fails]
         then w\<lparr>w_probed := (w_probed w)[p := True], w_fails := fails[p := PEER_FAIL_LIMIT - 1],
                w_cooldown := (w_cooldown w)[p := Some (t + stall_timeout (ph_class (peers ! p)))]\<rparr>
         else w\<lparr>w_fails := fails\<rparr>)"

definition note_delivered :: "nat \<Rightarrow> window \<Rightarrow> window" where
  "note_delivered p w =
     w\<lparr>w_fails := (w_fails w)[p := 0], w_busy := (w_busy w)[p := 0], w_cooldown := (w_cooldown w)[p := None]\<rparr>"

text \<open>\<open>apply_outcome\<close>; \<open>None\<close> is the division panic of the peer statistics.\<close>

definition observe_outcome :: "batch_outcome \<Rightarrow> swarm \<Rightarrow> swarm option" where
  "observe_outcome out sw =
     (case (bo_winner_class out, bo_elapsed out) of
        (Some c, Some el) \<Rightarrow>
          (let sw1 = sw\<lparr>sw_stats := class_observe c el (sw_stats sw)\<rparr>
           in case bo_winner_label out of
                None \<Rightarrow> Some sw1
              | Some label \<Rightarrow>
                  do { ps \<leftarrow> peer_observe label el (length (bo_landed out)) (sw_peer_stats sw);
                       Some (sw1\<lparr>sw_peer_stats := ps\<rparr>) })
      | _ \<Rightarrow> Some sw)"

definition note_outcome :: "batch_outcome \<Rightarrow> peer_handle list \<Rightarrow> nat \<Rightarrow> window \<Rightarrow> window" where
  "note_outcome out peers t w =
     (let w1 = (case bo_busy_peer out of Some p \<Rightarrow> note_busy p (bo_retry_after out) t w | None \<Rightarrow> w);
          w2 = (case bo_failed_peer out of Some p \<Rightarrow> note_failed p peers t w1 | None \<Rightarrow> w1)
      in case bo_winner out of Some p \<Rightarrow> note_delivered p w2 | None \<Rightarrow> w2)"

definition report_outcome :: "batch_outcome \<Rightarrow> fetch_report \<Rightarrow> fetch_report" where
  "report_outcome out r =
     (let r1 = r\<lparr>duplicates_issued := duplicates_issued r + bo_duplicates out,
                 groups_fetched := groups_fetched r + length (bo_landed out)\<rparr>
      in case bo_winner_label out of
           None \<Rightarrow> r1
         | Some label \<Rightarrow>
             r1\<lparr>by_peer := hm_insert label
                  ((case map_of (by_peer r1) label of Some n \<Rightarrow> n | None \<Rightarrow> 0) + length (bo_landed out)) (by_peer r1)\<rparr>)"

definition apply_outcome ::
  "batch_outcome \<Rightarrow> peer_handle list \<Rightarrow> nat \<Rightarrow> swarm \<Rightarrow> group_bits \<Rightarrow> window \<Rightarrow> fetch_report
     \<Rightarrow> (swarm \<times> group_bits \<times> window \<times> fetch_report) option" where
  "apply_outcome out peers t sw remaining w report =
     do { sw' \<leftarrow> observe_outcome out sw;
          Some (sw', foldl (\<lambda>b g. gb_remove b (g, g + 1)) remaining (bo_landed out),
                note_outcome out peers t w, report_outcome out report) }"

section \<open>Picking: sound, complete and cheapest\<close>

lemma pick_peer_Some:
  assumes "pick_peer dl sw t L gs ps load fails cd = Some i"
  shows "i < length ps" "eligible dl t L gs ps load fails cd i"
    "\<forall>j < length ps. eligible dl t L gs ps load fails cd j \<longrightarrow> pick_key dl sw ps load fails i \<le> pick_key dl sw ps load fails j"
proof -
  let ?xs = "filter (eligible dl t L gs ps load fails cd) [0..<length ps]"
  let ?k = "pick_key dl sw ps load fails"
  have ne: "?xs \<noteq> []" and i: "i = arg_min_list ?k ?xs"
    using assms by (auto simp: pick_peer_def split: list.splits)
  have "i \<in> set ?xs" using ne i arg_min_list_in by blast
  then show "i < length ps" "eligible dl t L gs ps load fails cd i" by auto
  have "?k i = Min (?k ` set ?xs)" using f_arg_min_list_f [OF ne] i by simp
  then show "\<forall>j < length ps. eligible dl t L gs ps load fails cd j \<longrightarrow> ?k i \<le> ?k j" by auto
qed

lemma pick_peer_None:
  "pick_peer dl sw t L gs ps load fails cd = None \<longleftrightarrow>
     (\<forall>i < length ps. \<not> eligible dl t L gs ps load fails cd i)"
proof -
  have "pick_peer dl sw t L gs ps load fails cd = None \<longleftrightarrow>
      filter (eligible dl t L gs ps load fails cd) [0..<length ps] = []"
    by (simp add: pick_peer_def split: list.split)
  then show ?thesis by (auto simp: filter_empty_conv)
qed

section \<open>The window invariant\<close>

text \<open>One slot per roster peer in every ledger, the load of a slot being its batches in flight.\<close>

definition ledgers_ok :: "peer_handle list \<Rightarrow> window \<Rightarrow> bool" where
  "ledgers_ok ps w \<longleftrightarrow>
     length (w_load w) = length ps \<and> length (w_fails w) = length ps \<and> length (w_depth w) = length ps \<and>
     length (w_busy w) = length ps \<and> length (w_cooldown w) = length ps \<and> length (w_probed w) = length ps \<and>
     (\<forall>i < length ps. w_depth w ! i = pipeline_depth (ph_class (ps ! i)) \<and> w_load w ! i \<le> w_depth w ! i \<and>
        w_load w ! i = length (filter (\<lambda>f. fl_primary f = i) (w_futs w)))"

definition flight_ok :: "peer_handle list \<Rightarrow> flight \<Rightarrow> bool" where
  "flight_ok ps f \<longleftrightarrow>
     fl_primary f < length ps \<and> fl_groups f \<noteq> [] \<and>
     length (fl_groups f) \<le> groups_per_request (ph_class (ps ! fl_primary f)) \<and>
     list_all (gb_contains (ph_bits (ps ! fl_primary f))) (fl_groups f) \<and>
     set (racers f) \<subseteq> {..<length ps} \<and> length (racers f) \<le> MAX_DUPLICATES + 1"

text \<open>
  The batches in flight are disjoint and cover still-remaining groups, and the reservation field is
  exactly their union.
\<close>

definition flights_ok :: "peer_handle list \<Rightarrow> nat set \<Rightarrow> window \<Rightarrow> bool" where
  "flights_ok ps rem w \<longleftrightarrow>
     gb_inv (w_inflight w) \<and> groups_of (w_inflight w) = set (concat (map fl_groups (w_futs w))) \<and>
     distinct (concat (map fl_groups (w_futs w))) \<and> set (concat (map fl_groups (w_futs w))) \<subseteq> rem \<and>
     list_all (flight_ok ps) (w_futs w)"

definition window_ok :: "peer_handle list \<Rightarrow> nat set \<Rightarrow> window \<Rightarrow> bool" where
  "window_ok ps rem w \<longleftrightarrow> ledgers_ok ps w \<and> flights_ok ps rem w"

lemma window_new_ok: "window_ok ps rem (window_new ps)"
  by (simp add: window_ok_def ledgers_ok_def flights_ok_def window_new_def gb_new_def gb_inv_def groups_of_def)

section \<open>Bookings\<close>

text \<open>
  One booking of the refill: some unreserved groups of \<open>A\<close>, contiguous and not empty, are handed to the
  peer picked for them.  Everything the refill does is a sequence of these.
\<close>

definition books ::
  "deadline \<Rightarrow> swarm \<Rightarrow> nat \<Rightarrow> peer_handle list \<Rightarrow> nat set \<Rightarrow> sched \<Rightarrow> sched \<Rightarrow> bool" where
  "books dl sw t ps A sc sc' \<longleftrightarrow>
     (\<exists>batch idx. pick_now dl sw t (groups_of_batch batch) ps sc = Some idx \<and>
        sc' = schedule dl sw batch (groups_of_batch batch) idx ps sc \<and>
        groups_of_batch batch \<noteq> [] \<and> distinct (groups_of_batch batch) \<and>
        set (groups_of_batch batch) \<subseteq> A - groups_of (w_inflight (sc_window sc)))"

abbreviation bookings ::
  "deadline \<Rightarrow> swarm \<Rightarrow> nat \<Rightarrow> peer_handle list \<Rightarrow> nat set \<Rightarrow> sched \<Rightarrow> sched \<Rightarrow> bool" where
  "bookings dl sw t ps A \<equiv> (books dl sw t ps A)\<^sup>*\<^sup>*"

lemma books_mono: "books dl sw t ps A sc sc' \<Longrightarrow> A \<subseteq> B \<Longrightarrow> books dl sw t ps B sc sc'"
  unfolding books_def by blast

lemma bookings_mono: "bookings dl sw t ps A sc sc' \<Longrightarrow> A \<subseteq> B \<Longrightarrow> bookings dl sw t ps B sc sc'"
  using books_mono by (metis mono_rtranclp)

lemma groups_per_request_pos [simp]: "0 < groups_per_request c"
  by (cases c) (simp_all add: GROUPS_PER_REQUEST_def GROUPS_PER_REQUEST_OVERLAY_def)

lemma foldl_add_groups:
  assumes "gb_inv b"
  shows "gb_inv (foldl (\<lambda>b g. gb_add b (g, g + 1)) b gs) \<and>
    groups_of (foldl (\<lambda>b g. gb_add b (g, g + 1)) b gs) = groups_of b \<union> set gs"
  using assms by (induction gs arbitrary: b) (auto simp: gb_add_ok range_set_def)

lemma foldl_remove_groups:
  assumes "gb_inv b"
  shows "gb_inv (foldl (\<lambda>b g. gb_remove b (g, g + 1)) b gs) \<and>
    groups_of (foldl (\<lambda>b g. gb_remove b (g, g + 1)) b gs) = groups_of b - set gs"
  using assms by (induction gs arbitrary: b) (auto simp: gb_remove_ok range_set_def)

text \<open>What a booking changes: one slot's load, the reservations and one new flight.\<close>

lemma schedule_effect:
  fixes dl sw batch gs idx ps sc
  defines "sc' \<equiv> schedule dl sw batch gs idx ps sc"
  defines "kept \<equiv> take (groups_per_request (ph_class (ps ! idx))) gs"
  shows "w_load (sc_window sc') = (w_load (sc_window sc))[idx := w_load (sc_window sc) ! idx + 1]"
    "w_inflight (sc_window sc') = foldl (\<lambda>b g. gb_add b (g, g + 1)) (w_inflight (sc_window sc)) kept"
    "\<exists>f. w_futs (sc_window sc') = w_futs (sc_window sc) @ [f] \<and> fl_groups f = kept \<and> fl_primary f = idx \<and>
       fl_phase f = OnPrimary"
    "w_fails (sc_window sc') = w_fails (sc_window sc)" "w_busy (sc_window sc') = w_busy (sc_window sc)"
    "w_cooldown (sc_window sc') = w_cooldown (sc_window sc)" "w_probed (sc_window sc') = w_probed (sc_window sc)"
    "w_depth (sc_window sc') = w_depth (sc_window sc)"
    "groups_fetched (sc_report sc') = groups_fetched (sc_report sc)"
  unfolding sc'_def kept_def by (auto simp: schedule_def Let_def trim_batch_def split: prod.splits)

lemma books_frame:
  assumes "books dl sw t ps A sc sc'"
  shows "w_fails (sc_window sc') = w_fails (sc_window sc) \<and> w_busy (sc_window sc') = w_busy (sc_window sc) \<and>
    w_cooldown (sc_window sc') = w_cooldown (sc_window sc) \<and> w_probed (sc_window sc') = w_probed (sc_window sc) \<and>
    w_depth (sc_window sc') = w_depth (sc_window sc) \<and>
    groups_fetched (sc_report sc') = groups_fetched (sc_report sc)"
  using assms by (auto simp: books_def schedule_effect(4-))

lemma bookings_frame:
  "bookings dl sw t ps A sc sc' \<Longrightarrow>
    w_fails (sc_window sc') = w_fails (sc_window sc) \<and> w_busy (sc_window sc') = w_busy (sc_window sc) \<and>
    w_cooldown (sc_window sc') = w_cooldown (sc_window sc) \<and> w_probed (sc_window sc') = w_probed (sc_window sc) \<and>
    w_depth (sc_window sc') = w_depth (sc_window sc) \<and>
    groups_fetched (sc_report sc') = groups_fetched (sc_report sc)"
  by (induction rule: rtranclp_induct) (auto dest: books_frame)

lemma books_ok:
  assumes "books dl sw t ps A sc sc'" "window_ok ps rem (sc_window sc)" "A \<subseteq> rem"
  shows "window_ok ps rem (sc_window sc')"
    "groups_of (w_inflight (sc_window sc')) \<subseteq> groups_of (w_inflight (sc_window sc)) \<union> A"
    "free_slots t (sc_window sc') < free_slots t (sc_window sc)"
proof -
  let ?w = "sc_window sc" and ?w' = "sc_window sc'"
  obtain batch idx where pick: "pick_now dl sw t (groups_of_batch batch) ps sc = Some idx"
      and sc': "sc' = schedule dl sw batch (groups_of_batch batch) idx ps sc"
      and gs: "groups_of_batch batch \<noteq> []" "distinct (groups_of_batch batch)"
        "set (groups_of_batch batch) \<subseteq> A - groups_of (w_inflight ?w)"
    using assms(1) unfolding books_def by blast
  let ?kept = "take (groups_per_request (ph_class (ps ! idx))) (groups_of_batch batch)"
  note idx = pick_peer_Some(1,2) [OF pick [unfolded pick_now_def]]
  have el: "w_fails ?w ! idx < PEER_FAIL_LIMIT" "cool (w_cooldown ?w ! idx) t"
      "w_load ?w ! idx < pipeline_depth (ph_class (ps ! idx))"
      "list_all (gb_contains (ph_bits (ps ! idx))) (groups_of_batch batch)"
    using idx(2) by (auto simp: eligible_def)
  note eff = schedule_effect [of dl sw batch "groups_of_batch batch" idx ps sc, folded sc']
  obtain f where f: "w_futs ?w' = w_futs ?w @ [f]" "fl_groups f = ?kept" "fl_primary f = idx" "fl_phase f = OnPrimary"
    using eff(3) by blast
  have lw: "ledgers_ok ps ?w" and fw: "flights_ok ps rem ?w" using assms(2) by (auto simp: window_ok_def)
  have kept: "?kept \<noteq> []" "distinct ?kept" "set ?kept \<subseteq> A - groups_of (w_inflight ?w)"
      "list_all (gb_contains (ph_bits (ps ! idx))) ?kept"
    using gs el(4) set_take_subset [of "groups_per_request (ph_class (ps ! idx))" "groups_of_batch batch"]
    by (auto simp: list_all_iff)
  have inf: "gb_inv (w_inflight ?w')" "groups_of (w_inflight ?w') = groups_of (w_inflight ?w) \<union> set ?kept"
    using foldl_add_groups [of "w_inflight ?w" ?kept] fw eff(2) by (auto simp: flights_ok_def)
  show "groups_of (w_inflight ?w') \<subseteq> groups_of (w_inflight ?w) \<union> A" using inf(2) kept(3) by auto
  have "flight_ok ps f"
    using kept f idx(1) by (simp add: flight_ok_def racers_def)
  then have "flights_ok ps rem ?w'"
    using fw inf kept f assms(3) unfolding flights_ok_def by auto
  moreover have "ledgers_ok ps ?w'"
    using lw idx(1) el(3) f(1,3) unfolding ledgers_ok_def eff(1,4-8)
    by (auto simp: nth_list_update)
  ultimately show "window_ok ps rem ?w'" by (simp add: window_ok_def)
  show "free_slots t ?w' < free_slots t ?w"
  proof -
    let ?P = "\<lambda>i. schedulable ?w i t"
    have sch: "schedulable ?w' i t = ?P i" for i by (simp add: schedulable_def eff)
    have "free_slots t ?w = (\<Sum>i | i < length ps \<and> ?P i. w_depth ?w ! i - w_load ?w ! i)"
      using lw by (simp add: free_slots_def sum_list_distinct_conv_sum_set ledgers_ok_def)
    moreover have "free_slots t ?w' = (\<Sum>i | i < length ps \<and> ?P i. w_depth ?w ! i - w_load ?w' ! i)"
      using lw by (simp add: free_slots_def sum_list_distinct_conv_sum_set ledgers_ok_def sch eff(1,8))
    moreover have "(\<Sum>i | i < length ps \<and> ?P i. w_depth ?w ! i - w_load ?w' ! i) <
        (\<Sum>i | i < length ps \<and> ?P i. w_depth ?w ! i - w_load ?w ! i)"
    proof (rule sum_strict_mono_ex1)
      show "\<exists>i \<in> {i. i < length ps \<and> ?P i}. w_depth ?w ! i - w_load ?w' ! i < w_depth ?w ! i - w_load ?w ! i"
        using idx(1) el lw by (intro bexI [of _ idx]) (auto simp: schedulable_def eff(1) ledgers_ok_def)
    qed (use idx(1) lw in \<open>auto simp: eff(1) nth_list_update ledgers_ok_def\<close>)
    ultimately show ?thesis by simp
  qed
qed

lemma bookings_ok:
  assumes "bookings dl sw t ps A sc sc'" "window_ok ps rem (sc_window sc)" "A \<subseteq> rem"
  shows "window_ok ps rem (sc_window sc') \<and>
    groups_of (w_inflight (sc_window sc')) \<subseteq> groups_of (w_inflight (sc_window sc)) \<union> A \<and>
    free_slots t (sc_window sc') \<le> free_slots t (sc_window sc) \<and>
    (sc' \<noteq> sc \<longrightarrow> free_slots t (sc_window sc') < free_slots t (sc_window sc))"
  using assms
proof (induction rule: rtranclp_induct)
  case (step y z)
  then have y: "window_ok ps rem (sc_window y)" "groups_of (w_inflight (sc_window y)) \<subseteq> groups_of (w_inflight (sc_window sc)) \<union> A"
      "free_slots t (sc_window y) \<le> free_slots t (sc_window sc)"
    by auto
  show ?case using books_ok [OF step(2) y(1) step(5)] y by auto
qed simp

text \<open>New flights are on their primary, and their primary was schedulable.\<close>

lemma bookings_flights:
  assumes "bookings dl sw t ps A sc sc'"
  shows "\<exists>new. w_futs (sc_window sc') = w_futs (sc_window sc) @ new \<and>
    (\<forall>f \<in> set new. w_fails (sc_window sc) ! fl_primary f < PEER_FAIL_LIMIT \<and> fl_phase f = OnPrimary) \<and>
    (sc' \<noteq> sc \<longrightarrow> new \<noteq> [])"
  using assms
proof (induction rule: rtranclp_induct)
  case (step y z)
  then obtain new where new: "w_futs (sc_window y) = w_futs (sc_window sc) @ new"
      "\<forall>f \<in> set new. w_fails (sc_window sc) ! fl_primary f < PEER_FAIL_LIMIT \<and> fl_phase f = OnPrimary" by blast
  obtain batch idx where pick: "pick_now dl sw t (groups_of_batch batch) ps y = Some idx"
      and z: "z = schedule dl sw batch (groups_of_batch batch) idx ps y"
    using step(2) unfolding books_def by blast
  obtain f where f: "w_futs (sc_window z) = w_futs (sc_window y) @ [f]" "fl_primary f = idx" "fl_phase f = OnPrimary"
    using schedule_effect(3) [of dl sw batch "groups_of_batch batch" idx ps y] z by blast
  have "w_fails (sc_window y) ! idx < PEER_FAIL_LIMIT"
    using pick_peer_Some(2) [OF pick [unfolded pick_now_def]] by (simp add: eligible_def)
  then have "w_fails (sc_window sc) ! idx < PEER_FAIL_LIMIT" using bookings_frame [OF step(1)] by simp
  then show ?case using new f by (intro exI [of _ "new @ [f]"]) auto
qed simp

section \<open>The refill is a sequence of bookings\<close>

text \<open>
  A fold over batches that either books a batch or leaves the state alone, for batches that are disjoint
  and unreserved.
\<close>

lemma foldl_bookings:
  assumes step: "\<And>st r. r \<in> set rs \<Longrightarrow> window_ok ps rem (sc_window (snd st)) \<Longrightarrow>
      set (groups_of_batch r) \<inter> groups_of (w_inflight (sc_window (snd st))) = {} \<Longrightarrow>
      bookings dl sw t ps (set (groups_of_batch r)) (snd st) (snd (F st r)) \<and>
      fst (F st r) = (fst st \<or> snd (F st r) \<noteq> snd st)"
    and rs: "distinct (concat (map groups_of_batch rs))" "set (concat (map groups_of_batch rs)) \<subseteq> rem"
      "set (concat (map groups_of_batch rs)) \<inter> groups_of (w_inflight (sc_window (snd st))) = {}"
    and ok: "window_ok ps rem (sc_window (snd st))"
  shows "bookings dl sw t ps (set (concat (map groups_of_batch rs))) (snd st) (snd (foldl F st rs)) \<and>
    fst (foldl F st rs) = (fst st \<or> snd (foldl F st rs) \<noteq> snd st)"
  using assms
proof (induction rs arbitrary: st)
  case (Cons r rs)
  let ?A = "set (groups_of_batch r)" and ?B = "set (concat (map groups_of_batch rs))"
  have r: "bookings dl sw t ps ?A (snd st) (snd (F st r))" "fst (F st r) = (fst st \<or> snd (F st r) \<noteq> snd st)"
    using Cons(2) [of r st] Cons(5,6) by auto
  have ok: "window_ok ps rem (sc_window (snd (F st r)))"
      "groups_of (w_inflight (sc_window (snd (F st r)))) \<subseteq> groups_of (w_inflight (sc_window (snd st))) \<union> ?A"
      "free_slots t (sc_window (snd (F st r))) \<le> free_slots t (sc_window (snd st))"
      "snd (F st r) \<noteq> snd st \<longrightarrow> free_slots t (sc_window (snd (F st r))) < free_slots t (sc_window (snd st))"
    using bookings_ok [OF r(1) Cons(6)] Cons(4) by auto
  have "?A \<inter> ?B = {}" using Cons(3) by simp
  moreover have "(?A \<union> ?B) \<inter> groups_of (w_inflight (sc_window (snd st))) = {}" using Cons(5) by simp
  ultimately have free: "?B \<inter> groups_of (w_inflight (sc_window (snd (F st r)))) = {}" using ok(2) by blast
  have ih: "bookings dl sw t ps ?B (snd (F st r)) (snd (foldl F (F st r) rs)) \<and>
      fst (foldl F (F st r) rs) = (fst (F st r) \<or> snd (foldl F (F st r) rs) \<noteq> snd (F st r))"
    by (rule Cons(1) [OF Cons(2) _ _ free ok(1)]) (use Cons(3,4) in auto)
  then have "free_slots t (sc_window (snd (foldl F (F st r) rs))) \<le> free_slots t (sc_window (snd (F st r)))"
      "snd (foldl F (F st r) rs) \<noteq> snd (F st r) \<longrightarrow>
         free_slots t (sc_window (snd (foldl F (F st r) rs))) < free_slots t (sc_window (snd (F st r)))"
    using bookings_ok [OF _ ok(1), of dl sw t ?B] Cons(4) by auto
  then have "fst (foldl F st (r # rs)) = (fst st \<or> snd (foldl F st (r # rs)) \<noteq> snd st)"
    using ih r(2) ok(3,4) by (auto simp: not_less dest: leD)
  moreover have "bookings dl sw t ps (?A \<union> ?B) (snd st) (snd (foldl F st (r # rs)))"
    using rtranclp_trans [OF bookings_mono [OF r(1)] bookings_mono [OF ih [THEN conjunct1]], of "?A \<union> ?B"] by simp
  ultimately show ?case by simp
qed simp

lemma schedule_changes: "schedule dl sw batch gs idx ps sc \<noteq> sc"
proof
  assume "schedule dl sw batch gs idx ps sc = sc"
  then have "w_futs (sc_window (schedule dl sw batch gs idx ps sc)) = w_futs (sc_window sc)" by simp
  then show False using schedule_effect(3) [of dl sw batch gs idx ps sc] by auto
qed

lemma assign_sub_books:
  assumes "groups_of_batch r \<noteq> []" "distinct (groups_of_batch r)"
    "set (groups_of_batch r) \<inter> groups_of (w_inflight (sc_window (snd st))) = {}"
  shows "bookings dl sw t ps (set (groups_of_batch r)) (snd st) (snd (assign_sub dl sw t ps st r)) \<and>
    fst (assign_sub dl sw t ps st r) = (fst st \<or> snd (assign_sub dl sw t ps st r) \<noteq> snd st)"
proof (cases "pick_now dl sw t (groups_of_batch r) ps (snd st)")
  case (Some idx)
  then have "books dl sw t ps (set (groups_of_batch r)) (snd st)
      (schedule dl sw r (groups_of_batch r) idx ps (snd st))"
    using assms unfolding books_def by blast
  then show ?thesis using Some schedule_changes by (auto simp: assign_sub_def)
qed (simp add: assign_sub_def)

text \<open>The batches a slice of groups is cut into, and the sub-batches of one of them.\<close>

lemma assign_split_books:
  assumes "\<forall>g \<in> set gs. g < group_count (sw_size sw)" "sw_size sw \<le> 2 ^ 64 - GROUP_BYTES" "distinct gs"
    "set gs \<subseteq> rem" "set gs \<inter> groups_of (w_inflight (sc_window sc)) = {}" "window_ok ps rem (sc_window sc)"
  shows "bookings dl sw t ps (set gs) sc (snd (assign_split dl sw t gs ps bg sc)) \<and>
    fst (assign_split dl sw t gs ps bg sc) = (snd (assign_split dl sw t gs ps bg sc) \<noteq> sc)"
proof -
  let ?rs = "split_by_holder gs ps (sw_size sw) bg"
  have pieces: "groups_of_batch r \<noteq> [] \<and> distinct (groups_of_batch r)" if "r \<in> set ?rs" for r
    using split.piece_groups [OF assms(1,2) that] split.cut_pieces [OF assms(1,2) that]
      groups_of_byte_range [OF _ _ assms(2)] by auto
  have sub: "set (concat (map groups_of_batch ?rs)) \<subseteq> set gs"
    using split.cut_groups [OF assms(1,2), of ps bg] by auto
  have "bookings dl sw t ps (set (concat (map groups_of_batch ?rs))) (snd (False, sc))
        (snd (foldl (assign_sub dl sw t ps) (False, sc) ?rs)) \<and>
      fst (foldl (assign_sub dl sw t ps) (False, sc) ?rs) =
        (fst (False, sc) \<or> snd (foldl (assign_sub dl sw t ps) (False, sc) ?rs) \<noteq> snd (False, sc))"
  proof (rule foldl_bookings [where rem = rem])
    show "distinct (concat (map groups_of_batch ?rs))" by (rule split.pieces_disjoint [OF assms(1-3)])
    show "set (concat (map groups_of_batch ?rs)) \<subseteq> rem" using sub assms(4) by blast
    show "set (concat (map groups_of_batch ?rs)) \<inter> groups_of (w_inflight (sc_window (snd (False, sc)))) = {}"
      using sub assms(5) by fastforce
    show "window_ok ps rem (sc_window (snd (False, sc)))" using assms(6) by simp
  qed (use assign_sub_books pieces in blast)
  then show ?thesis using bookings_mono [OF _ sub] by (simp add: assign_split_def)
qed

lemma assign_step_books:
  assumes "groups_of_batch r \<noteq> []" "distinct (groups_of_batch r)"
    "\<forall>g \<in> set (groups_of_batch r). g < group_count (sw_size sw)" "sw_size sw \<le> 2 ^ 64 - GROUP_BYTES"
    "set (groups_of_batch r) \<subseteq> rem" "set (groups_of_batch r) \<inter> groups_of (w_inflight (sc_window (snd st))) = {}"
    "window_ok ps rem (sc_window (snd st))"
  shows "bookings dl sw t ps (set (groups_of_batch r)) (snd st) (snd (assign_step dl sw t ps bg st r)) \<and>
    fst (assign_step dl sw t ps bg st r) = (fst st \<or> snd (assign_step dl sw t ps bg st r) \<noteq> snd st)"
proof (cases "pick_now dl sw t (groups_of_batch r) ps (snd st)")
  case None
  then show ?thesis
    using assign_split_books [OF assms(3,4,2,5-), of dl t bg]
    by (auto simp: assign_step_def assign_batch_def Let_def split: prod.splits)
next
  case (Some idx)
  then have "assign_step dl sw t ps bg st r = (fst st \<or> True, snd (assign_sub dl sw t ps st r))"
    by (simp add: assign_step_def assign_batch_def assign_sub_def)
  then show ?thesis
    using assign_sub_books [OF assms(1,2,6), of dl sw t ps] Some schedule_changes by (auto simp: assign_sub_def)
qed

lemma assign_slice_books:
  assumes "\<forall>g \<in> set gs. g < group_count (sw_size sw)" "sw_size sw \<le> 2 ^ 64 - GROUP_BYTES" "distinct gs"
    "set gs \<subseteq> rem" "set gs \<inter> groups_of (w_inflight (sc_window sc)) = {}" "window_ok ps rem (sc_window sc)"
  shows "bookings dl sw t ps (set gs) sc (snd (assign_slice dl sw t ps bg gs sc)) \<and>
    fst (assign_slice dl sw t ps bg gs sc) = (snd (assign_slice dl sw t ps bg gs sc) \<noteq> sc)"
proof -
  let ?rs = "batch_into_ranges gs (sw_size sw) bg"
  note cut = ranges.cut_groups [OF assms(1,2), of bg]
  have pieces: "groups_of_batch r \<noteq> [] \<and> distinct (groups_of_batch r) \<and> set (groups_of_batch r) \<subseteq> set gs"
    if "r \<in> set ?rs" for r
    using ranges.piece_groups [OF assms(1,2) that] ranges.cut_pieces [OF assms(1,2) that]
      groups_of_byte_range [OF _ _ assms(2)] by auto
  have "bookings dl sw t ps (set (concat (map groups_of_batch ?rs))) (snd (False, sc))
        (snd (foldl (assign_step dl sw t ps bg) (False, sc) ?rs)) \<and>
      fst (foldl (assign_step dl sw t ps bg) (False, sc) ?rs) =
        (fst (False, sc) \<or> snd (foldl (assign_step dl sw t ps bg) (False, sc) ?rs) \<noteq> snd (False, sc))"
  proof (rule foldl_bookings [where rem = rem])
    fix st :: "bool \<times> sched" and r
    assume r: "r \<in> set ?rs" "window_ok ps rem (sc_window (snd st))"
      "set (groups_of_batch r) \<inter> groups_of (w_inflight (sc_window (snd st))) = {}"
    show "bookings dl sw t ps (set (groups_of_batch r)) (snd st) (snd (assign_step dl sw t ps bg st r)) \<and>
      fst (assign_step dl sw t ps bg st r) = (fst st \<or> snd (assign_step dl sw t ps bg st r) \<noteq> snd st)"
      using pieces [OF r(1)] assms(1,4) by (intro assign_step_books [OF _ _ _ assms(2) _ r(3,2)]) auto
  qed (use assms cut in simp_all)
  then show ?thesis using cut by (simp add: assign_slice_def)
qed

text \<open>
  The refill loop returns, having only booked; it stops because no slot is free, because every group of
  the order that is still missing is reserved, or because no batch of the slice could be placed.
\<close>

definition slice_of :: "nat \<Rightarrow> nat list \<Rightarrow> group_bits \<Rightarrow> nat \<Rightarrow> nat \<Rightarrow> window \<Rightarrow> nat list" where
  "slice_of t order remaining bg c w = snd (next_unassigned order c remaining (w_inflight w) (free_slots t w * bg))"

definition refill_stuck ::
  "deadline \<Rightarrow> swarm \<Rightarrow> nat \<Rightarrow> nat list \<Rightarrow> group_bits \<Rightarrow> peer_handle list \<Rightarrow> nat \<Rightarrow> nat \<Rightarrow> sched \<Rightarrow> bool" where
  "refill_stuck dl sw t order remaining ps bg c sc \<longleftrightarrow>
     free_slots t (sc_window sc) = 0 \<or> slice_of t order remaining bg c (sc_window sc) = [] \<or>
     snd (assign_slice dl sw t ps bg (slice_of t order remaining bg c (sc_window sc)) sc) = sc"

lemma slice_of_props:
  assumes "gb_inv remaining" "gb_inv (w_inflight w)" "c \<le> length order" "distinct order"
  shows "set (slice_of t order remaining bg c w) \<subseteq> groups_of remaining \<inter> set (drop c order)"
    "set (slice_of t order remaining bg c w) \<inter> groups_of (w_inflight w) = {}"
    "distinct (slice_of t order remaining bg c w)"
proof -
  let ?xs = "filter (\<lambda>g. gb_contains remaining g \<and> \<not> gb_contains (w_inflight w) g) (drop c order)"
  have eq: "slice_of t order remaining bg c w = take (free_slots t w * bg) ?xs"
    unfolding slice_of_def next_unassigned_eq [OF assms(3)] ..
  show "distinct (slice_of t order remaining bg c w)" unfolding eq using assms(4) by simp
  show "set (slice_of t order remaining bg c w) \<subseteq> groups_of remaining \<inter> set (drop c order)"
    "set (slice_of t order remaining bg c w) \<inter> groups_of (w_inflight w) = {}"
    unfolding eq using set_take_subset [of "free_slots t w * bg" ?xs] assms(1,2) by (auto simp: gb_contains_iff)
qed

lemma refill_returns:
  assumes "window_ok ps (groups_of remaining) (sc_window sc)" "gb_inv remaining" "distinct order"
    "\<forall>g \<in> set order. g < group_count (sw_size sw)" "sw_size sw \<le> 2 ^ 64 - GROUP_BYTES" "c \<le> length order"
  shows "\<exists>c' sc'. refill dl sw t order remaining ps bg c sc = Some (c', sc') \<and>
    bookings dl sw t ps (groups_of remaining) sc sc' \<and> c \<le> c' \<and> c' \<le> length order \<and>
    filter (gb_contains remaining) (drop c' order) = filter (gb_contains remaining) (drop c order) \<and>
    refill_stuck dl sw t order remaining ps bg c' sc'"
  using assms(1,6)
proof (induction "free_slots t (sc_window sc)" arbitrary: c sc rule: less_induct)
  case less
  let ?w = "sc_window sc"
  let ?c = "skip_fetched order remaining c" and ?gs = "slice_of t order remaining bg c ?w"
  have nu: "next_unassigned order c remaining (w_inflight ?w) (free_slots t ?w * bg) = (?c, ?gs)"
    by (simp add: slice_of_def next_unassigned_def Let_def)
  have c: "c \<le> ?c" "?c \<le> length order" using skip_fetched_props [OF less(3)] by auto
  have same: "filter (gb_contains remaining) (drop ?c order) = filter (gb_contains remaining) (drop c order)"
    by (rule drop_skip_fetched [OF less(3)])
  have inf: "gb_inv (w_inflight ?w)" using less(2) by (simp add: window_ok_def flights_ok_def)
  have gs': "slice_of t order remaining bg ?c ?w = ?gs"
    unfolding slice_of_def next_unassigned_eq [OF less(3)] next_unassigned_eq [OF c(2)]
    by (metis (no_types) filter_filter same)
  note sl = slice_of_props [OF assms(2) inf less(3) assms(3), of t bg]
  show ?case
  proof (cases "free_slots t ?w = 0 \<or> ?gs = []")
    case True
    then have "\<exists>c'. refill dl sw t order remaining ps bg c sc = Some (c', sc) \<and> (c' = c \<or> c' = ?c)"
      by (subst refill.simps) (auto simp: nu)
    then show ?thesis using True c less(3) same gs' by (auto simp: refill_stuck_def)
  next
    case False
    have "\<forall>g \<in> set ?gs. g < group_count (sw_size sw)" using sl(1) assms(4) by (auto dest: in_set_dropD)
    from assign_slice_books [OF this assms(5) sl(3) _ sl(2) less(2)]
    have bk: "bookings dl sw t ps (set ?gs) sc (snd (assign_slice dl sw t ps bg ?gs sc))"
        "fst (assign_slice dl sw t ps bg ?gs sc) = (snd (assign_slice dl sw t ps bg ?gs sc) \<noteq> sc)"
      using sl(1) by auto
    obtain a sc1 where as: "assign_slice dl sw t ps bg ?gs sc = (a, sc1)" by fastforce
    have bk': "bookings dl sw t ps (groups_of remaining) sc sc1"
      using bookings_mono [OF bk(1)] sl(1) as by auto
    have ref: "refill dl sw t order remaining ps bg c sc =
        (if a then refill dl sw t order remaining ps bg ?c sc1 else Some (?c, sc1))"
      using False by (subst refill.simps) (simp add: nu as)
    show ?thesis
    proof (cases a)
      case True
      then have "free_slots t (sc_window sc1) < free_slots t ?w" "window_ok ps (groups_of remaining) (sc_window sc1)"
        using bookings_ok [OF bk' less(2)] bk(2) as by auto
      from less(1) [OF this c(2)] obtain c' sc' where
        r: "refill dl sw t order remaining ps bg ?c sc1 = Some (c', sc')" "bookings dl sw t ps (groups_of remaining) sc1 sc'"
          "?c \<le> c'" "c' \<le> length order"
          "filter (gb_contains remaining) (drop c' order) = filter (gb_contains remaining) (drop ?c order)"
          "refill_stuck dl sw t order remaining ps bg c' sc'" by blast
      show ?thesis using r ref True c same rtranclp_trans [OF bk' r(2)] by (intro exI [of _ c'] exI [of _ sc']) simp
    next
      case False
      then have "sc1 = sc" using bk(2) as by simp
      moreover from this False as gs' have "refill_stuck dl sw t order remaining ps bg ?c sc"
        by (simp add: refill_stuck_def)
      ultimately show ?thesis using ref False c same bk' by (intro exI [of _ ?c] exI [of _ sc]) simp
    qed
  qed
qed

text \<open>What a stuck refill means for a peer that holds the whole slice: it cannot take a batch.\<close>

lemma foldl_unchanged:
  assumes "\<And>st r. F st r = st \<or> fst (F st r)" "\<And>st r. fst st \<Longrightarrow> fst (F st r)"
  shows "foldl F st rs = st \<or> fst (foldl F st rs)"
proof -
  have keep: "fst st' \<Longrightarrow> fst (foldl F st' xs)" for st' xs
    using assms(2) by (induction xs arbitrary: st') auto
  show ?thesis
  proof (induction rs)
    case (Cons r rs)
    then show ?case using assms(1) [of st r] keep by (cases "fst (F st r)") simp_all
  qed simp
qed

lemma assign_step_unchanged:
  "assign_step dl sw t ps bg st r = st \<or> fst (assign_step dl sw t ps bg st r)"
proof -
  have "assign_sub dl sw t ps st' r' = st' \<or> fst (assign_sub dl sw t ps st' r')" for st' r'
    by (simp add: assign_sub_def split: option.split)
  moreover have "fst st' \<Longrightarrow> fst (assign_sub dl sw t ps st' r')" for st' r'
    by (simp add: assign_sub_def split: option.split)
  ultimately have "assign_split dl sw t gs ps bg sc = (False, sc) \<or> fst (assign_split dl sw t gs ps bg sc)" for gs sc
    unfolding assign_split_def by (rule foldl_unchanged)
  then have "assign_batch dl sw t ps bg r (snd st) = (False, snd st) \<or> fst (assign_batch dl sw t ps bg r (snd st))"
    by (simp add: assign_batch_def Let_def split: option.split)
  then show ?thesis by (auto simp: assign_step_def split: prod.splits)
qed

lemma foldl_first_change:
  assumes "fst (F st r)" "\<And>st r. fst st \<Longrightarrow> fst (F st r)" "r \<in> set rs"
    "\<And>st' r'. r' \<in> set rs \<Longrightarrow> \<not> fst (F st' r') \<Longrightarrow> F st' r' = st'"
  shows "fst (foldl F st rs)"
proof -
  have keep: "fst st' \<Longrightarrow> fst (foldl F st' xs)" for st' xs
    using assms(2) by (induction xs arbitrary: st') auto
  show ?thesis
    using assms(3,4)
  proof (induction rs)
    case (Cons x rs)
    show ?case
    proof (cases "fst (F st x)")
      case False
      then have x: "F st x = st" using Cons(3) by simp
      have "r \<noteq> x" using False assms(1) by blast
      then have "fst (foldl F st rs)" using Cons by simp
      then show ?thesis by (simp add: x)
    qed (simp add: keep)
  qed simp
qed

lemma assign_slice_takes:
  assumes "\<forall>g \<in> set gs. g < group_count (sw_size sw)" "sw_size sw \<le> 2 ^ 64 - GROUP_BYTES" "distinct gs"
    "set gs \<subseteq> rem" "set gs \<inter> groups_of (w_inflight (sc_window sc)) = {}" "window_ok ps rem (sc_window sc)"
    and "g \<in> set gs" "i < length ps" "\<forall>x \<in> set gs. gb_contains (ph_bits (ps ! i)) x"
      "schedulable (sc_window sc) i t" "w_load (sc_window sc) ! i < pipeline_depth (ph_class (ps ! i))"
      "is_streaming dl \<or> \<not> link_full (sc_links sc) (ps ! i)"
  shows "snd (assign_slice dl sw t ps bg gs sc) \<noteq> sc"
proof -
  let ?rs = "batch_into_ranges gs (sw_size sw) bg"
  obtain r where r: "r \<in> set ?rs" using ranges.cut_nonempty [OF assms(1,2,7)] by blast
  have "\<forall>x \<in> set (groups_of_batch r). gb_contains (ph_bits (ps ! i)) x"
    using ranges.piece_groups(4) [OF assms(1,2) r] assms(9) by blast
  then have "pick_now dl sw t (groups_of_batch r) ps sc \<noteq> None"
    using assms(8,10-) unfolding pick_now_def pick_peer_None
    by (auto simp: eligible_def schedulable_def list_all_iff)
  then have "fst (assign_step dl sw t ps bg (False, sc) r)"
    by (auto simp: assign_step_def assign_batch_def)
  then have "fst (foldl (assign_step dl sw t ps bg) (False, sc) ?rs)"
  proof (rule foldl_first_change [OF _ _ r])
    show "fst (assign_step dl sw t ps bg st x)" if "fst st" for st x
      using that by (simp add: assign_step_def split: prod.split)
  qed (use assign_step_unchanged in blast)
  then show ?thesis using assign_slice_books [OF assms(1-6), of dl t bg] by (simp add: assign_slice_def)
qed

section \<open>Outcomes keep the window invariant\<close>

text \<open>
  What a completed flight reports: its own groups and primary; all groups landed if some racer won, and
  otherwise those the store holds, with the primary marked refused or failed.
\<close>

definition outcome_ok :: "peer_handle list \<Rightarrow> flight \<Rightarrow> batch_outcome \<Rightarrow> bool" where
  "outcome_ok ps f out \<longleftrightarrow>
     bo_groups out = fl_groups f \<and> bo_primary out = fl_primary f \<and>
     (\<exists>P. bo_landed out = filter P (fl_groups f)) \<and>
     bo_busy_peer out \<in> {None, Some (fl_primary f)} \<and> bo_failed_peer out \<in> {None, Some (fl_primary f)} \<and>
     (case bo_winner out of
        Some p \<Rightarrow> p < length ps \<and> bo_landed out = fl_groups f
      | None \<Rightarrow> (bo_busy_peer out = None) \<noteq> (bo_failed_peer out = None))"

lemma batch_failed_ok: "outcome_ok ps f (batch_failed present (fl_groups f) (fl_primary f) d)"
  by (auto simp: outcome_ok_def batch_failed_def)

lemma batch_busy_ok: "outcome_ok ps f (batch_busy present (fl_groups f) (fl_primary f) d retry)"
  by (auto simp: outcome_ok_def batch_failed_def batch_busy_def)

lemma won_ok: "i < length ps \<Longrightarrow> outcome_ok ps f (won (fl_groups f) (fl_primary f) i label d c el)"
  by (auto simp: outcome_ok_def won_def intro: exI [of _ "\<lambda>_. True"])

lemma race_targets_ok:
  "set (race_targets st gs p ps) \<subseteq> {..<length ps} \<and> length (race_targets st gs p ps) \<le> MAX_DUPLICATES"
  unfolding race_targets_def by (auto dest!: in_set_takeD)

lemma race_primary_ok:
  assumes "flight_ok ps f"
  shows "case race_primary dl st present ev el ps f of
      Inr out \<Rightarrow> outcome_ok ps f out
    | Inl f' \<Rightarrow> flight_ok ps f' \<and> fl_groups f' = fl_groups f \<and> fl_primary f' = fl_primary f \<and> fl_phase f' \<noteq> OnPrimary"
proof -
  have start: "case start_race dl st present el ps errored busy retry f of
      Inr out \<Rightarrow> outcome_ok ps f out
    | Inl f' \<Rightarrow> flight_ok ps f' \<and> fl_groups f' = fl_groups f \<and> fl_primary f' = fl_primary f \<and> fl_phase f' \<noteq> OnPrimary"
    for errored busy retry
    using assms race_targets_ok [of st "fl_groups f" "fl_primary f" ps] batch_failed_ok batch_busy_ok
    by (auto simp: start_race_def Let_def flight_ok_def racers_def)
  show ?thesis
  proof (cases ev)
    case PrimaryOk
    then show ?thesis using assms by (simp add: won_ok flight_ok_def)
  qed (simp_all add: start batch_failed_ok)
qed

lemma race_finish_ok:
  assumes "flight_ok ps f" "fl_phase f = Racing targets errored busy retry"
    "case winner of Some i \<Rightarrow> i \<in> set (racers f) | None \<Rightarrow> True"
  shows "outcome_ok ps f (race_finish present winner el ps f targets busy retry)"
proof (cases winner)
  case None
  then show ?thesis by (simp add: batch_failed_ok batch_busy_ok)
next
  case (Some i)
  then have "i < length ps" using assms by (auto simp: flight_ok_def)
  from won_ok [OF this, of f] show ?thesis
    by (auto simp: Some outcome_ok_def won_def Let_def)
qed

text \<open>The notes touch the health ledgers only.\<close>

lemma note_frame:
  "w_load (note_outcome out ps t w) = w_load w" "w_depth (note_outcome out ps t w) = w_depth w"
  "w_inflight (note_outcome out ps t w) = w_inflight w" "w_futs (note_outcome out ps t w) = w_futs w"
  "length (w_fails (note_outcome out ps t w)) = length (w_fails w)"
  "length (w_busy (note_outcome out ps t w)) = length (w_busy w)"
  "length (w_cooldown (note_outcome out ps t w)) = length (w_cooldown w)"
  "length (w_probed (note_outcome out ps t w)) = length (w_probed w)"
  by (simp_all add: note_outcome_def note_busy_def note_failed_def note_delivered_def Let_def split: option.split)

lemma window_ok_note: "window_ok ps rem (note_outcome out ps t w) \<longleftrightarrow> window_ok ps rem w"
  by (simp add: window_ok_def ledgers_ok_def flights_ok_def note_frame)

lemma release_ok:
  assumes "window_ok ps rem w" "w_futs w = xs @ f # ys" "outcome_ok ps f out"
  shows "window_ok ps (rem - set (bo_landed out)) (release out (w\<lparr>w_futs := xs @ ys\<rparr>))"
proof -
  let ?w = "release out (w\<lparr>w_futs := xs @ ys\<rparr>)"
  have out: "bo_groups out = fl_groups f" "bo_primary out = fl_primary f" "set (bo_landed out) \<subseteq> set (fl_groups f)"
    using assms(3) by (auto simp: outcome_ok_def)
  have f: "fl_primary f < length ps" using assms(1,2) by (simp add: window_ok_def flights_ok_def flight_ok_def)
  have lw: "ledgers_ok ps w" and fw: "flights_ok ps rem w" using assms(1) by (auto simp: window_ok_def)
  have "w_load ?w ! i = length (filter (\<lambda>f. fl_primary f = i) (w_futs ?w)) \<and> w_load ?w ! i \<le> w_depth ?w ! i"
    if "i < length ps" for i
  proof -
    have "w_load w ! i \<le> w_depth w ! i"
      "w_load w ! i = length (filter (\<lambda>f. fl_primary f = i) (xs @ f # ys))" "length (w_load w) = length ps"
      using lw that assms(2) by (auto simp: ledgers_ok_def)
    then show ?thesis using f out(2) by (auto simp: release_def nth_list_update split: if_splits)
  qed
  moreover have "length (w_load ?w) = length (w_load w)" "w_fails ?w = w_fails w" "w_depth ?w = w_depth w"
      "w_busy ?w = w_busy w" "w_cooldown ?w = w_cooldown w" "w_probed ?w = w_probed w"
    by (simp_all add: release_def)
  ultimately have "ledgers_ok ps ?w" using lw unfolding ledgers_ok_def by metis
  moreover have "flights_ok ps (rem - set (bo_landed out)) ?w"
  proof -
    have d: "set (fl_groups f) \<inter> set (concat (map fl_groups (xs @ ys))) = {}"
      using fw assms(2) by (auto simp: flights_ok_def)
    have "groups_of (w_inflight ?w) = groups_of (w_inflight w) - set (fl_groups f)" "gb_inv (w_inflight ?w)"
      using foldl_remove_groups [of "w_inflight w" "fl_groups f"] fw out(1) by (auto simp: release_def flights_ok_def)
    moreover have "groups_of (w_inflight w) - set (fl_groups f) = set (concat (map fl_groups (xs @ ys)))"
      using d fw assms(2) by (auto simp: flights_ok_def)
    ultimately show ?thesis
      using fw assms(2) d out(3) by (auto simp: flights_ok_def release_def)
  qed
  ultimately show ?thesis by (simp add: window_ok_def)
qed

text \<open>A race that starts replaces its flight; a peer that joins gets empty ledger slots.\<close>

lemma window_ok_race:
  assumes "window_ok ps rem w" "w_futs w = xs @ f # ys" "flight_ok ps f'"
    "fl_groups f' = fl_groups f" "fl_primary f' = fl_primary f"
  shows "window_ok ps rem (w\<lparr>w_futs := xs @ f' # ys\<rparr>)"
  using assms by (auto simp: window_ok_def ledgers_ok_def flights_ok_def)

lemma window_ok_mono: "window_ok ps rem w \<Longrightarrow> set (concat (map fl_groups (w_futs w))) \<subseteq> rem' \<Longrightarrow> window_ok ps rem' w"
  by (auto simp: window_ok_def flights_ok_def)

lemma flight_ok_grow: "flight_ok ps f \<Longrightarrow> flight_ok (ps @ [h]) f"
  by (auto simp: flight_ok_def nth_append)

lemma grow_ok:
  assumes "window_ok ps rem w"
  shows "window_ok (ps @ [h]) rem (grow (ph_class h) w)"
proof -
  have "list_all (flight_ok ps) (w_futs w)" using assms by (simp add: window_ok_def flights_ok_def)
  then have fl: "list_all (flight_ok (ps @ [h])) (w_futs w)" "\<forall>f \<in> set (w_futs w). fl_primary f \<noteq> length ps"
    by (auto simp: list_all_iff flight_ok_grow) (auto simp: flight_ok_def)
  then have "filter (\<lambda>f. fl_primary f = length ps) (w_futs w) = []" by (simp add: filter_empty_conv)
  then show ?thesis
    using assms fl(1) by (auto simp: window_ok_def ledgers_ok_def flights_ok_def grow_def nth_append less_Suc_eq)
qed

end
