(* ===== verification/Swarm_Fetch.thy ===== *)
theory Swarm_Fetch
  imports Swarm_Window
begin

text \<open>
  The fetch loop of the scheduler (\<open>Swarm::fetch_growable\<close>, \<open>admit_joiner\<close> and \<open>idle_step\<close> of
  \<^verbatim>\<open>epix-edx/src/sched.rs\<close>) as a step relation.  The state is the loop's locals and the place the loop is
  at: its head, the \<open>select\<close> over the batches in flight, the sleep of an idle wait, or returned.  A step is one
  pass from the head, or one event at a wait: a timer, a joiner or the close of the join channel, a batch
  whose race starts, or a batch that completes.  The clock only moves forward, and the link counters, what
  the store holds, and every answer of the network are free in each step.

  \<open>ft_joiners\<close> is what will still be sent on the join channel, each handle with whether its connection is
  closed by the time it is received; the channel may close once it is empty, or never.
\<close>

section \<open>The loop\<close>

definition JOIN_WAIT_TICK :: nat where "JOIN_WAIT_TICK = secs 2"
definition JOIN_WAIT_PATIENCE :: nat where "JOIN_WAIT_PATIENCE = 60"

datatype fetch_pc = AtLoop | AtSelect | Asleep nat | Returned

record fetch =
  ft_pc :: fetch_pc
  ft_now :: nat
  ft_swarm :: swarm
  ft_roster :: "peer_handle list"
  ft_order :: "nat list"
  ft_cursor :: nat
  ft_cut :: nat
  ft_remaining :: group_bits
  ft_window :: window
  ft_joining :: bool
  ft_joiners :: "(peer_handle \<times> bool) list"
  ft_sat_waits :: nat
  ft_join_waits :: nat
  ft_report :: fetch_report

text \<open>
  The entry of \<open>fetch_growable\<close>, after \<open>ensure_sparse\<close> has made the sparse object: its I/O error, which
  returns before anything is scheduled, is not modelled.
\<close>

definition fetch_start ::
  "deadline \<Rightarrow> bool \<Rightarrow> swarm \<Rightarrow> group_bits \<Rightarrow> peer_handle list \<Rightarrow> (peer_handle \<times> bool) list \<Rightarrow> nat \<Rightarrow> fetch" where
  "fetch_start dl frozen sw needed peers joiners t =
     \<lparr>ft_pc = (if gb_is_empty needed then Returned else AtLoop), ft_now = t, ft_swarm = sw,
      ft_roster = peers, ft_order = initial_order dl needed peers, ft_cursor = 0,
      ft_cut = batch_groups_for peers, ft_remaining = needed, ft_window = window_new peers,
      ft_joining = (\<not> frozen), ft_joiners = joiners, ft_sat_waits = 0, ft_join_waits = 0,
      ft_report = report_default\<rparr>"

text \<open>\<open>frozen_env\<close>: the environment variable freezes the peer set when it is exactly \<open>1\<close>.\<close>

definition frozen_env :: "string option \<Rightarrow> bool" where
  "frozen_env v \<longleftrightarrow> v = Some ''1''"

definition joiner_groups :: "peer_handle \<Rightarrow> peer_handle list \<Rightarrow> group_bits \<Rightarrow> nat list" where
  "joiner_groups h peers remaining =
     filter (\<lambda>g. gb_contains (ph_bits h) g \<and> \<not> list_ex (\<lambda>p. gb_contains (ph_bits p) g) peers) (run_groups remaining)"

definition admit_joiner :: "peer_handle \<times> bool \<Rightarrow> fetch \<Rightarrow> fetch" where
  "admit_joiner j s =
     (if snd j then s
      else s\<lparr>ft_order := ft_order s @ joiner_groups (fst j) (ft_roster s) (ft_remaining s),
             ft_cut := max (ft_cut s) (groups_per_request (ph_class (fst j))),
             ft_window := grow (ph_class (fst j)) (ft_window s),
             ft_roster := ft_roster s @ [fst j]\<rparr>)"

definition idle_saturated :: "links \<Rightarrow> fetch \<Rightarrow> bool" where
  "idle_saturated L s \<longleftrightarrow>
     ft_sat_waits s < LINK_SATURATION_PATIENCE \<and> awaiting_link_room (ft_now s) L (ft_roster s) (ft_window s)"

definition idle_until :: "links \<Rightarrow> fetch \<Rightarrow> nat option" where
  "idle_until L s =
     (case (next_retry (ft_now s) (ft_window s),
            if idle_saturated L s then Some (ft_now s + LINK_SATURATION_RETRY) else None) of
        (Some a, Some b) \<Rightarrow> Some (min a b)
      | (Some a, None) \<Rightarrow> Some a
      | (None, b) \<Rightarrow> b)"

definition idle_step :: "deadline \<Rightarrow> links \<Rightarrow> fetch \<Rightarrow> fetch" where
  "idle_step dl L s =
     (if is_streaming dl then s\<lparr>ft_pc := Returned\<rparr>
      else let s1 = (if idle_saturated L s then s\<lparr>ft_sat_waits := ft_sat_waits s + 1\<rparr> else s)
           in case idle_until L s of
                Some u \<Rightarrow> s1\<lparr>ft_pc := Asleep u\<rparr>
              | None \<Rightarrow>
                  if \<not> ft_joining s then s1\<lparr>ft_pc := Returned\<rparr>
                  else if ft_join_waits s \<ge> JOIN_WAIT_PATIENCE then s1\<lparr>ft_pc := Returned\<rparr>
                  else s1\<lparr>ft_join_waits := ft_join_waits s + 1, ft_pc := Asleep (ft_now s + JOIN_WAIT_TICK)\<rparr>)"

definition loop_pass :: "deadline \<Rightarrow> links \<Rightarrow> fetch \<Rightarrow> fetch option" where
  "loop_pass dl L s =
     do { (c, sc) \<leftarrow> refill dl (ft_swarm s) (ft_now s) (ft_order s) (ft_remaining s) (ft_roster s) (ft_cut s)
            (ft_cursor s) \<lparr>sc_window = ft_window s, sc_links = L, sc_report = ft_report s\<rparr>;
          let s1 = s\<lparr>ft_cursor := c, ft_window := sc_window sc, ft_report := sc_report sc\<rparr>;
          Some (if w_futs (sc_window sc) = [] then idle_step dl (sc_links sc) s1
                else s1\<lparr>ft_sat_waits := 0, ft_join_waits := 0, ft_pc := AtSelect\<rparr>) }"

definition batch_done :: "batch_outcome \<Rightarrow> flight list \<Rightarrow> fetch \<Rightarrow> fetch option" where
  "batch_done out rest s =
     do { (sw, rem, w, rep) \<leftarrow> apply_outcome out (ft_roster s) (ft_now s) (ft_swarm s) (ft_remaining s)
            (release out ((ft_window s)\<lparr>w_futs := rest\<rparr>)) (ft_report s);
          Some (s\<lparr>ft_swarm := sw, ft_remaining := rem, ft_window := w, ft_report := rep,
                  ft_pc := (if gb_is_empty rem then Returned else AtLoop)\<rparr>) }"

inductive fetch_step :: "deadline \<Rightarrow> fetch \<Rightarrow> fetch \<Rightarrow> bool" for dl where
  pass: "\<lbrakk>ft_pc s = AtLoop; ft_now s \<le> t; loop_pass dl L (s\<lparr>ft_now := t\<rparr>) = Some s'\<rbrakk> \<Longrightarrow> fetch_step dl s s'"
| timer: "\<lbrakk>ft_pc s = Asleep u; ft_now s \<le> t; u \<le> t\<rbrakk> \<Longrightarrow> fetch_step dl s (s\<lparr>ft_now := t, ft_pc := AtLoop\<rparr>)"
| idle_join: "\<lbrakk>ft_pc s = Asleep u; ft_now s \<le> t; ft_joining s; ft_joiners s = j # js\<rbrakk> \<Longrightarrow>
    fetch_step dl s (admit_joiner j (s\<lparr>ft_now := t, ft_joiners := js, ft_join_waits := 0, ft_pc := AtLoop\<rparr>))"
| idle_closed: "\<lbrakk>ft_pc s = Asleep u; ft_now s \<le> t; ft_joining s; ft_joiners s = []\<rbrakk> \<Longrightarrow>
    fetch_step dl s (s\<lparr>ft_now := t, ft_joining := False, ft_pc := AtLoop\<rparr>)"
| select_join: "\<lbrakk>ft_pc s = AtSelect; ft_now s \<le> t; ft_joining s; ft_joiners s = j # js\<rbrakk> \<Longrightarrow>
    fetch_step dl s (admit_joiner j (s\<lparr>ft_now := t, ft_joiners := js, ft_pc := AtLoop\<rparr>))"
| select_closed: "\<lbrakk>ft_pc s = AtSelect; ft_now s \<le> t; ft_joining s; ft_joiners s = []\<rbrakk> \<Longrightarrow>
    fetch_step dl s (s\<lparr>ft_now := t, ft_joining := False, ft_pc := AtLoop\<rparr>)"
| race: "\<lbrakk>ft_pc s = AtSelect; ft_now s \<le> t; w_futs (ft_window s) = xs @ f # ys; fl_phase f = OnPrimary;
    race_primary dl (sw_stats (ft_swarm s)) present ev el (ft_roster s) f = Inl f'\<rbrakk> \<Longrightarrow>
    fetch_step dl s (s\<lparr>ft_now := t, ft_window := (ft_window s)\<lparr>w_futs := xs @ f' # ys\<rparr>\<rparr>)"
| primary_done: "\<lbrakk>ft_pc s = AtSelect; ft_now s \<le> t; w_futs (ft_window s) = xs @ f # ys; fl_phase f = OnPrimary;
    race_primary dl (sw_stats (ft_swarm s)) present ev el (ft_roster s) f = Inr out;
    batch_done out (xs @ ys) (s\<lparr>ft_now := t\<rparr>) = Some s'\<rbrakk> \<Longrightarrow> fetch_step dl s s'"
| race_done: "\<lbrakk>ft_pc s = AtSelect; ft_now s \<le> t; w_futs (ft_window s) = xs @ f # ys;
    fl_phase f = Racing targets errored busy retry;
    case winner of Some i \<Rightarrow> i \<in> set (racers f) | None \<Rightarrow> True;
    batch_done (race_finish present winner el (ft_roster s) f targets busy retry) (xs @ ys) (s\<lparr>ft_now := t\<rparr>) = Some s'\<rbrakk>
    \<Longrightarrow> fetch_step dl s s'"

inductive fetch_run :: "deadline \<Rightarrow> fetch \<Rightarrow> fetch \<Rightarrow> bool" for dl s0 where
  start: "fetch_run dl s0 s0"
| step: "fetch_run dl s0 s \<Longrightarrow> fetch_step dl s s' \<Longrightarrow> fetch_run dl s0 s'"

section \<open>The invariant\<close>

definition order_ok :: "nat set \<Rightarrow> fetch \<Rightarrow> bool" where
  "order_ok needed s \<longleftrightarrow>
     distinct (ft_order s) \<and> set (ft_order s) \<subseteq> {g \<in> needed. held_by (ft_roster s) g} \<and>
     ft_cursor s \<le> length (ft_order s) \<and>
     {g \<in> groups_of (ft_remaining s). held_by (ft_roster s) g} \<subseteq> set (drop (ft_cursor s) (ft_order s))"

definition fetch_ok :: "nat set \<Rightarrow> fetch \<Rightarrow> bool" where
  "fetch_ok needed s \<longleftrightarrow>
     sw_size (ft_swarm s) \<le> 2 ^ 64 - GROUP_BYTES \<and> needed \<subseteq> {g. g < group_count (sw_size (ft_swarm s))} \<and>
     gb_inv (ft_remaining s) \<and> groups_of (ft_remaining s) \<subseteq> needed \<and> 0 < ft_cut s \<and>
     window_ok (ft_roster s) (groups_of (ft_remaining s)) (ft_window s) \<and> order_ok needed s \<and>
     groups_fetched (ft_report s) + card (groups_of (ft_remaining s)) = card needed \<and>
     (ft_pc s \<noteq> Returned \<longrightarrow> groups_of (ft_remaining s) \<noteq> {}) \<and>
     (ft_pc s = AtSelect \<longrightarrow> w_futs (ft_window s) \<noteq> []) \<and>
     (\<forall>u. ft_pc s = Asleep u \<longrightarrow> w_futs (ft_window s) = [])"

lemma gb_is_empty_iff: "gb_inv b \<Longrightarrow> gb_is_empty b \<longleftrightarrow> groups_of b = {}"
proof -
  have "runs_ok rs \<Longrightarrow> run_set rs = {} \<longleftrightarrow> rs = []" for rs
    by (cases rs) (auto simp: range_set_def)
  then show "gb_inv b \<Longrightarrow> ?thesis" by (simp add: gb_is_empty_def gb_inv_def groups_of_def)
qed

lemma batch_groups_for_pos: "0 < batch_groups_for ps"
proof (cases "ps = []")
  case False
  then have "batch_groups_for ps \<in> (\<lambda>p. groups_per_request (ph_class p)) ` set ps"
    unfolding batch_groups_for_def using Max_in [of "(\<lambda>p. groups_per_request (ph_class p)) ` set ps"] by simp
  then show ?thesis by auto
qed (simp add: batch_groups_for_def GROUPS_PER_REQUEST_def)

lemma fetch_start_ok:
  assumes "gb_inv needed" "sw_size sw \<le> 2 ^ 64 - GROUP_BYTES" "groups_of needed \<subseteq> {g. g < group_count (sw_size sw)}"
  shows "fetch_ok (groups_of needed) (fetch_start dl frozen sw needed ps js t)"
  using assms initial_order_props [OF assms(1), of dl ps] batch_groups_for_pos window_new_ok
  by (auto simp: fetch_ok_def fetch_start_def order_ok_def report_default_def gb_is_empty_iff)

lemma held_by_append: "held_by (ps @ [h]) g \<longleftrightarrow> held_by ps g \<or> gb_contains (ph_bits h) g"
  by (auto simp: held_by_def)

lemma joiner_groups_props:
  assumes "gb_inv rem"
  shows "distinct (joiner_groups h ps rem)"
    "set (joiner_groups h ps rem) = {g \<in> groups_of rem. gb_contains (ph_bits h) g \<and> \<not> held_by ps g}"
  using distinct_run_groups [OF assms]
  by (auto simp: joiner_groups_def set_run_groups held_by_def list_ex_iff)

lemma admit_joiner_ok:
  assumes "fetch_ok needed s" "ft_pc s = AtLoop"
  shows "fetch_ok needed (admit_joiner j s)"
proof (cases "snd j")
  case False
  have inv: "gb_inv (ft_remaining s)" "order_ok needed s" "groups_of (ft_remaining s) \<subseteq> needed"
    using assms(1) by (auto simp: fetch_ok_def)
  have "order_ok needed (admit_joiner j s)"
    using inv False joiner_groups_props [OF inv(1), of "fst j" "ft_roster s"]
    by (auto simp: order_ok_def admit_joiner_def held_by_append)
  then show ?thesis
    using assms False grow_ok [of "ft_roster s" _ "ft_window s" "fst j"]
    by (auto simp: fetch_ok_def admit_joiner_def)
qed (use assms in \<open>simp add: admit_joiner_def\<close>)

text \<open>A pass from the head of the loop: it returns, it has only booked, and then it waits or selects.\<close>

lemma loop_pass_cases:
  assumes "fetch_ok needed s"
  obtains c sc where
    "loop_pass dl L s = Some (let s1 = s\<lparr>ft_cursor := c, ft_window := sc_window sc, ft_report := sc_report sc\<rparr>
       in if w_futs (sc_window sc) = [] then idle_step dl (sc_links sc) s1
          else s1\<lparr>ft_sat_waits := 0, ft_join_waits := 0, ft_pc := AtSelect\<rparr>)"
    "bookings dl (ft_swarm s) (ft_now s) (ft_roster s) (groups_of (ft_remaining s))
       \<lparr>sc_window = ft_window s, sc_links = L, sc_report = ft_report s\<rparr> sc"
    "c \<le> length (ft_order s)"
    "filter (gb_contains (ft_remaining s)) (drop c (ft_order s)) =
       filter (gb_contains (ft_remaining s)) (drop (ft_cursor s) (ft_order s))"
    "refill_stuck dl (ft_swarm s) (ft_now s) (ft_order s) (ft_remaining s) (ft_roster s) (ft_cut s) c sc"
    "window_ok (ft_roster s) (groups_of (ft_remaining s)) (sc_window sc)"
proof -
  let ?sc = "\<lparr>sc_window = ft_window s, sc_links = L, sc_report = ft_report s\<rparr>"
  have inv: "window_ok (ft_roster s) (groups_of (ft_remaining s)) (sc_window ?sc)" "gb_inv (ft_remaining s)"
      "distinct (ft_order s)" "\<forall>g \<in> set (ft_order s). g < group_count (sw_size (ft_swarm s))"
      "sw_size (ft_swarm s) \<le> 2 ^ 64 - GROUP_BYTES" "ft_cursor s \<le> length (ft_order s)"
    using assms by (auto simp: fetch_ok_def order_ok_def)
  obtain c sc where r: "refill dl (ft_swarm s) (ft_now s) (ft_order s) (ft_remaining s) (ft_roster s) (ft_cut s)
        (ft_cursor s) ?sc = Some (c, sc)"
      "bookings dl (ft_swarm s) (ft_now s) (ft_roster s) (groups_of (ft_remaining s)) ?sc sc" "c \<le> length (ft_order s)"
      "filter (gb_contains (ft_remaining s)) (drop c (ft_order s)) =
         filter (gb_contains (ft_remaining s)) (drop (ft_cursor s) (ft_order s))"
      "refill_stuck dl (ft_swarm s) (ft_now s) (ft_order s) (ft_remaining s) (ft_roster s) (ft_cut s) c sc"
    using refill_returns [OF inv, of dl "ft_now s" "ft_cut s"] by blast
  show ?thesis
    by (rule that [OF _ r(2-5)])
      (use r(1) bookings_ok [OF r(2) inv(1)] in \<open>auto simp: loop_pass_def Let_def\<close>)
qed

lemma idle_step_frame:
  "ft_now (idle_step dl L s) = ft_now s" "ft_swarm (idle_step dl L s) = ft_swarm s"
  "ft_roster (idle_step dl L s) = ft_roster s" "ft_order (idle_step dl L s) = ft_order s"
  "ft_cursor (idle_step dl L s) = ft_cursor s" "ft_cut (idle_step dl L s) = ft_cut s"
  "ft_remaining (idle_step dl L s) = ft_remaining s" "ft_window (idle_step dl L s) = ft_window s"
  "ft_joining (idle_step dl L s) = ft_joining s" "ft_joiners (idle_step dl L s) = ft_joiners s"
  "ft_report (idle_step dl L s) = ft_report s" "ft_pc (idle_step dl L s) \<notin> {AtLoop, AtSelect}"
  by (auto simp: idle_step_def Let_def split: option.split)

lemma loop_pass_ok:
  assumes ok: "fetch_ok needed s" and pc: "ft_pc s = AtLoop" and s': "loop_pass dl L s = Some s'"
  shows "fetch_ok needed s'"
proof -
  obtain c sc where
    p: "loop_pass dl L s = Some (let s1 = s\<lparr>ft_cursor := c, ft_window := sc_window sc, ft_report := sc_report sc\<rparr>
       in if w_futs (sc_window sc) = [] then idle_step dl (sc_links sc) s1
          else s1\<lparr>ft_sat_waits := 0, ft_join_waits := 0, ft_pc := AtSelect\<rparr>)"
      "bookings dl (ft_swarm s) (ft_now s) (ft_roster s) (groups_of (ft_remaining s))
         \<lparr>sc_window = ft_window s, sc_links = L, sc_report = ft_report s\<rparr> sc"
      "c \<le> length (ft_order s)"
      "filter (gb_contains (ft_remaining s)) (drop c (ft_order s)) =
         filter (gb_contains (ft_remaining s)) (drop (ft_cursor s) (ft_order s))"
      "window_ok (ft_roster s) (groups_of (ft_remaining s)) (sc_window sc)"
    by (rule loop_pass_cases [OF ok])
  let ?s1 = "s\<lparr>ft_cursor := c, ft_window := sc_window sc, ft_report := sc_report sc\<rparr>"
  have inv: "gb_inv (ft_remaining s)" "order_ok needed s" using ok by (auto simp: fetch_ok_def)
  have "{g \<in> groups_of (ft_remaining s). held_by (ft_roster s) g} \<subseteq> set (drop c (ft_order s))"
  proof
    fix g assume "g \<in> {g \<in> groups_of (ft_remaining s). held_by (ft_roster s) g}"
    then have "g \<in> set (filter (gb_contains (ft_remaining s)) (drop (ft_cursor s) (ft_order s)))"
      using inv by (auto simp: order_ok_def gb_contains_iff)
    then show "g \<in> set (drop c (ft_order s))" by (simp flip: p(4))
  qed
  then have ord: "order_ok needed ?s1" using inv(2) p(3) by (simp add: order_ok_def)
  have rep: "groups_fetched (sc_report sc) = groups_fetched (ft_report s)" using bookings_frame [OF p(2)] by simp
  have "order_ok needed (idle_step dl (sc_links sc) ?s1)"
    using ord by (simp add: order_ok_def idle_step_frame)
  moreover have "order_ok needed (?s1\<lparr>ft_sat_waits := 0, ft_join_waits := 0, ft_pc := AtSelect\<rparr>)"
    using ord by (simp add: order_ok_def)
  ultimately show ?thesis
    using s' p(1,5) rep ok pc idle_step_frame(12) [of dl "sc_links sc" ?s1]
    by (cases "w_futs (sc_window sc) = []") (auto simp: fetch_ok_def Let_def idle_step_frame)
qed

text \<open>A completed batch.\<close>

lemma flight_in_window:
  assumes "window_ok ps rem w" "w_futs w = xs @ f # ys"
  shows "flight_ok ps f" "set (fl_groups f) \<subseteq> rem" "distinct (fl_groups f)"
  using assms by (auto simp: window_ok_def flights_ok_def)

lemma apply_outcome_returns:
  assumes "outcome_ok ps f out" "flight_ok ps f"
  shows "\<exists>sw'. apply_outcome out ps t sw rem w rep =
    Some (sw', foldl (\<lambda>b g. gb_remove b (g, g + 1)) rem (bo_landed out), note_outcome out ps t w, report_outcome out rep) \<and>
    sw_size sw' = sw_size sw"
proof -
  have "length (bo_landed out) \<le> length (fl_groups f)" using assms(1) by (auto simp: outcome_ok_def)
  also have "\<dots> \<le> 64"
    using assms(2) by (cases "ph_class (ps ! fl_primary f)")
      (auto simp: flight_ok_def GROUPS_PER_REQUEST_def GROUPS_PER_REQUEST_OVERLAY_def)
  finally have "length (bo_landed out) mod 2 ^ 32 = length (bo_landed out)" by simp
  then show ?thesis
    by (auto simp: apply_outcome_def observe_outcome_def peer_observe_def Let_def split: option.split)
qed

lemma batch_done_cases:
  assumes ok: "fetch_ok needed s" and futs: "w_futs (ft_window s) = xs @ f # ys" and out: "outcome_ok (ft_roster s) f out"
  obtains sw where "sw_size sw = sw_size (ft_swarm s)"
    "batch_done out (xs @ ys) s = Some (s\<lparr>ft_swarm := sw,
       ft_remaining := foldl (\<lambda>b g. gb_remove b (g, g + 1)) (ft_remaining s) (bo_landed out),
       ft_window := note_outcome out (ft_roster s) (ft_now s) (release out ((ft_window s)\<lparr>w_futs := xs @ ys\<rparr>)),
       ft_report := report_outcome out (ft_report s),
       ft_pc := (if gb_is_empty (foldl (\<lambda>b g. gb_remove b (g, g + 1)) (ft_remaining s) (bo_landed out))
                 then Returned else AtLoop)\<rparr>)"
proof -
  have "flight_ok (ft_roster s) f" using ok futs flight_in_window(1) by (auto simp: fetch_ok_def)
  from apply_outcome_returns [OF out this, of "ft_now s" "ft_swarm s" "ft_remaining s"
      "release out ((ft_window s)\<lparr>w_futs := xs @ ys\<rparr>)" "ft_report s"]
  obtain sw where "apply_outcome out (ft_roster s) (ft_now s) (ft_swarm s) (ft_remaining s)
        (release out ((ft_window s)\<lparr>w_futs := xs @ ys\<rparr>)) (ft_report s) =
      Some (sw, foldl (\<lambda>b g. gb_remove b (g, g + 1)) (ft_remaining s) (bo_landed out),
        note_outcome out (ft_roster s) (ft_now s) (release out ((ft_window s)\<lparr>w_futs := xs @ ys\<rparr>)),
        report_outcome out (ft_report s))" "sw_size sw = sw_size (ft_swarm s)"
    by blast
  then show ?thesis by (intro that [of sw]) (simp_all add: batch_done_def)
qed

lemma report_outcome_fetched: "groups_fetched (report_outcome out r) = groups_fetched r + length (bo_landed out)"
  by (simp add: report_outcome_def Let_def split: option.split)

lemma batch_done_ok:
  assumes ok: "fetch_ok needed s" and pc: "ft_pc s = AtSelect"
    and futs: "w_futs (ft_window s) = xs @ f # ys" and out: "outcome_ok (ft_roster s) f out"
    and s': "batch_done out (xs @ ys) s = Some s'"
  shows "fetch_ok needed s'"
proof -
  let ?rem = "foldl (\<lambda>b g. gb_remove b (g, g + 1)) (ft_remaining s) (bo_landed out)"
  obtain sw where sw: "sw_size sw = sw_size (ft_swarm s)" and
    eq: "s' = s\<lparr>ft_swarm := sw, ft_remaining := ?rem,
       ft_window := note_outcome out (ft_roster s) (ft_now s) (release out ((ft_window s)\<lparr>w_futs := xs @ ys\<rparr>)),
       ft_report := report_outcome out (ft_report s), ft_pc := (if gb_is_empty ?rem then Returned else AtLoop)\<rparr>"
    using s' by (rule_tac batch_done_cases [OF ok futs out]) simp
  have inv: "gb_inv (ft_remaining s)" "window_ok (ft_roster s) (groups_of (ft_remaining s)) (ft_window s)"
      "order_ok needed s" "groups_of (ft_remaining s) \<subseteq> needed"
    using ok by (auto simp: fetch_ok_def)
  have rem: "gb_inv ?rem" "groups_of ?rem = groups_of (ft_remaining s) - set (bo_landed out)"
    using foldl_remove_groups [OF inv(1), of "bo_landed out"] by auto
  have landed: "set (bo_landed out) \<subseteq> groups_of (ft_remaining s)" "distinct (bo_landed out)"
    using out flight_in_window [OF inv(2) futs] by (auto simp: outcome_ok_def)
  have "finite (groups_of (ft_remaining s))" by (simp add: groups_of_def)
  then have "card (groups_of ?rem) + length (bo_landed out) = card (groups_of (ft_remaining s))"
    using card_Diff_subset [OF _ landed(1)] card_mono [OF _ landed(1)] distinct_card [OF landed(2)] unfolding rem(2) by simp
  moreover have "window_ok (ft_roster s) (groups_of ?rem)
      (note_outcome out (ft_roster s) (ft_now s) (release out ((ft_window s)\<lparr>w_futs := xs @ ys\<rparr>)))"
    unfolding window_ok_note rem(2) by (rule release_ok [OF inv(2) futs out])
  moreover have "order_ok needed s'" using inv(3) rem(2) unfolding eq by (auto simp: order_ok_def)
  ultimately show ?thesis
    using ok rem inv(4) sw by (auto simp: fetch_ok_def eq report_outcome_fetched gb_is_empty_iff)
qed

lemma fetch_ok_now [simp]: "fetch_ok needed (s\<lparr>ft_now := t\<rparr>) = fetch_ok needed s"
  by (simp add: fetch_ok_def order_ok_def)

text \<open>Leaving a wait for the head of the loop changes nothing the invariant speaks of.\<close>

lemma fetch_ok_wake:
  assumes "fetch_ok needed s" "ft_pc s \<noteq> Returned" "ft_pc s' = AtLoop" "ft_swarm s' = ft_swarm s"
    "ft_roster s' = ft_roster s" "ft_order s' = ft_order s" "ft_cursor s' = ft_cursor s" "ft_cut s' = ft_cut s"
    "ft_remaining s' = ft_remaining s" "ft_window s' = ft_window s" "ft_report s' = ft_report s"
  shows "fetch_ok needed s'"
  using assms by (simp add: fetch_ok_def order_ok_def)

lemma fetch_step_ok:
  assumes "fetch_step dl s s'" "fetch_ok needed s"
  shows "fetch_ok needed s'"
  using assms(1)
proof cases
  case (pass t L)
  then show ?thesis using loop_pass_ok [of needed "s\<lparr>ft_now := t\<rparr>" dl L s'] assms(2) by simp
next
  case (timer u t)
  then show ?thesis using fetch_ok_wake [OF assms(2), of s'] by simp
next
  case (idle_join u t j js)
  then show ?thesis
    by (simp only:) (rule admit_joiner_ok [OF fetch_ok_wake [OF assms(2)]]; simp)
next
  case (idle_closed u t)
  then show ?thesis using fetch_ok_wake [OF assms(2), of s'] by simp
next
  case (select_join t j js)
  then show ?thesis
    by (simp only:) (rule admit_joiner_ok [OF fetch_ok_wake [OF assms(2)]]; simp)
next
  case (select_closed t)
  then show ?thesis using fetch_ok_wake [OF assms(2), of s'] by simp
next
  case (race t xs f ys present ev el f')
  have w: "window_ok (ft_roster s) (groups_of (ft_remaining s)) (ft_window s)" using assms(2) by (simp add: fetch_ok_def)
  have "flight_ok (ft_roster s) f' \<and> fl_groups f' = fl_groups f \<and> fl_primary f' = fl_primary f"
    using race_primary_ok [OF flight_in_window(1) [OF w race(4)], of dl "sw_stats (ft_swarm s)" present ev el] race(6)
    by simp
  then show ?thesis
    using window_ok_race [OF w race(4)] assms(2) race(1,2) by (auto simp: fetch_ok_def order_ok_def)
next
  case (primary_done t xs f ys present ev el out)
  have w: "window_ok (ft_roster s) (groups_of (ft_remaining s)) (ft_window s)" using assms(2) by (simp add: fetch_ok_def)
  have "outcome_ok (ft_roster s) f out"
    using race_primary_ok [OF flight_in_window(1) [OF w primary_done(3)], of dl "sw_stats (ft_swarm s)" present ev el]
      primary_done(5) by simp
  then show ?thesis
    using batch_done_ok [of needed "s\<lparr>ft_now := t\<rparr>" xs f ys out s'] assms(2) primary_done by simp
next
  case (race_done t xs f ys targets errored busy retry winner present el)
  have w: "window_ok (ft_roster s) (groups_of (ft_remaining s)) (ft_window s)" using assms(2) by (simp add: fetch_ok_def)
  show ?thesis
    using batch_done_ok [of needed "s\<lparr>ft_now := t\<rparr>" xs f ys
        "race_finish present winner el (ft_roster s) f targets busy retry" s'] assms(2) race_done
      race_finish_ok [OF flight_in_window(1) [OF w race_done(3)] race_done(4,5)] by simp
qed

lemma fetch_run_ok: "fetch_run dl s0 s \<Longrightarrow> fetch_ok needed s0 \<Longrightarrow> fetch_ok needed s"
  by (induction rule: fetch_run.induct) (auto intro: fetch_step_ok)

section \<open>Every run ends\<close>

text \<open>
  What bounds a run, most significant first: joiners still to come, groups missing, peers with their
  probe unspent, the strikes and refusals peers have left, the batches in flight on exhausted peers, the
  place in the loop, and within a place the races that can still start, or the cooldowns and the patience
  of an idle wait.
\<close>

definition patience_left :: "window \<Rightarrow> nat" where
  "patience_left w =
     sum_list (map (\<lambda>b. BUSY_LIMIT - b) (w_busy w)) + sum_list (map (\<lambda>f. PEER_FAIL_LIMIT - f) (w_fails w))"

definition doomed :: "window \<Rightarrow> nat" where
  "doomed w = length (filter (\<lambda>f. w_fails w ! fl_primary f \<ge> PEER_FAIL_LIMIT) (w_futs w))"

definition unprobed :: "window \<Rightarrow> nat" where
  "unprobed w = length (filter Not (w_probed w))"

definition cooling :: "nat \<Rightarrow> window \<Rightarrow> nat" where
  "cooling t w = card {i. i < length (w_cooldown w) \<and> w_fails w ! i < PEER_FAIL_LIMIT \<and> \<not> cool (w_cooldown w ! i) t}"

definition waits_left :: "fetch \<Rightarrow> nat" where
  "waits_left s = 2 * (LINK_SATURATION_PATIENCE - ft_sat_waits s) + 2 * (JOIN_WAIT_PATIENCE - ft_join_waits s)"

definition place :: "fetch \<Rightarrow> nat \<times> nat" where
  "place s =
     (case ft_pc s of
        AtLoop \<Rightarrow> (2, 2 * cooling (ft_now s) (ft_window s) + waits_left s)
      | Asleep u \<Rightarrow> (2, 2 * cooling (max u (ft_now s)) (ft_window s) + waits_left s + 1)
      | AtSelect \<Rightarrow> (1, length (filter (\<lambda>f. fl_phase f = OnPrimary) (w_futs (ft_window s))))
      | Returned \<Rightarrow> (0, 0))"

definition fetch_rank :: "fetch \<Rightarrow> nat \<times> nat \<times> nat \<times> nat \<times> nat \<times> nat \<times> nat" where
  "fetch_rank s =
     (length (ft_joiners s) + (if ft_joining s then 1 else 0), card (groups_of (ft_remaining s)),
      unprobed (ft_window s), patience_left (ft_window s), doomed (ft_window s), place s)"

definition rank_less :: "(nat \<times> nat \<times> nat \<times> nat \<times> nat \<times> nat \<times> nat) rel" where
  "rank_less = less_than <*lex*> less_than <*lex*> less_than <*lex*> less_than <*lex*> less_than <*lex*> less_than <*lex*> less_than"

lemma wf_rank_less: "wf rank_less"
  by (simp add: rank_less_def wf_lex_prod)

lemma cooling_mono: "t \<le> u \<Longrightarrow> cooling u w \<le> cooling t w"
  unfolding cooling_def by (rule card_mono) (auto simp: cool_def split: option.splits)

text \<open>The retry instant is that of the first cooling peer to come back.\<close>

lemma next_retry_Some:
  assumes "next_retry t w = Some u" "length (w_fails w) = length (w_cooldown w)"
  shows "t < u" "u \<le> v \<Longrightarrow> cooling v w < cooling t w"
proof -
  let ?ts = "filter (\<lambda>u. u > t) (List.map_filter fst (filter (\<lambda>e. snd e < PEER_FAIL_LIMIT) (zip (w_cooldown w) (w_fails w))))"
  have ts: "?ts \<noteq> []" "u = Min (set ?ts)" using assms(1) by (auto simp: next_retry_def Let_def split: if_splits)
  have "u \<in> set ?ts" unfolding ts(2) by (rule Min_in) (use ts(1) in \<open>simp_all only: finite_set set_empty not_False_eq_True\<close>)
  then obtain i where i: "i < length (w_cooldown w)" "w_cooldown w ! i = Some u" "w_fails w ! i < PEER_FAIL_LIMIT" "t < u"
    using assms(2) by (force simp: List.map_filter_def in_set_zip)
  then show "t < u" by simp
  show "cooling v w < cooling t w" if "u \<le> v"
    unfolding cooling_def
  proof (rule psubset_card_mono)
    let ?C = "\<lambda>t. {i. i < length (w_cooldown w) \<and> w_fails w ! i < PEER_FAIL_LIMIT \<and> \<not> cool (w_cooldown w ! i) t}"
    have "i \<in> ?C t" "i \<notin> ?C v" using i that by (auto simp: cool_def)
    moreover have "?C v \<subseteq> ?C t" using that i(4) by (auto simp: cool_def split: option.splits)
    ultimately show "?C v \<subset> ?C t" by blast
  qed simp
qed

lemma next_retry_None:
  assumes "next_retry t w = None" "length (w_fails w) = length (w_cooldown w)" "i < length (w_cooldown w)"
    "w_fails w ! i < PEER_FAIL_LIMIT"
  shows "cool (w_cooldown w ! i) t"
proof (rule ccontr)
  assume "\<not> cool (w_cooldown w ! i) t"
  then obtain u where u: "w_cooldown w ! i = Some u" "t < u" by (auto simp: cool_def not_le split: option.splits)
  let ?ts = "filter (\<lambda>u. u > t) (List.map_filter fst (filter (\<lambda>e. snd e < PEER_FAIL_LIMIT) (zip (w_cooldown w) (w_fails w))))"
  have "(w_cooldown w ! i, w_fails w ! i) \<in> set (zip (w_cooldown w) (w_fails w))"
    using assms(2,3) by (auto simp: in_set_zip)
  then have "u \<in> set ?ts" using u assms(4) by (force simp: List.map_filter_def)
  then have "?ts \<noteq> []" by (metis empty_iff list.set(1))
  then show False using assms(1) by (simp add: next_retry_def Let_def)
qed

text \<open>An idle wait uses up patience, or a cooldown.\<close>

lemma idle_step_place:
  assumes "ledgers_ok ps (ft_window s)" "ft_pc s = AtLoop"
  shows "(place (idle_step dl L s), place s) \<in> less_than <*lex*> less_than"
proof -
  let ?w = "ft_window s" and ?t = "ft_now s"
  have len: "length (w_fails ?w) = length (w_cooldown ?w)" using assms(1) by (simp add: ledgers_ok_def)
  have sat: "2 * (LINK_SATURATION_PATIENCE - (ft_sat_waits s + 1)) + 2 = 2 * (LINK_SATURATION_PATIENCE - ft_sat_waits s)"
    if "idle_saturated L s" using that by (auto simp: idle_saturated_def)
  have cd: "cooling (max u ?t) ?w < cooling ?t ?w" if "next_retry ?t ?w = Some a" "a \<le> u" for a u
    using next_retry_Some(2) [OF that(1) len, of "max u ?t"] that(2) by simp
  have cm: "cooling (max u ?t) ?w \<le> cooling ?t ?w" for u by (rule cooling_mono) simp
  have until: "u = a" if "idle_until L s = Some u" "\<not> idle_saturated L s" "next_retry ?t ?w = Some a" for u a
    using that by (simp add: idle_until_def)
  consider "is_streaming dl" | u where "\<not> is_streaming dl" "idle_until L s = Some u" "idle_saturated L s"
    | u where "\<not> is_streaming dl" "idle_until L s = Some u" "\<not> idle_saturated L s"
    | "\<not> is_streaming dl" "idle_until L s = None" by fastforce
  then show ?thesis
  proof cases
    case 1
    then show ?thesis using assms(2) by (simp add: idle_step_def place_def)
  next
    case (2 u)
    then have "idle_step dl L s = s\<lparr>ft_sat_waits := ft_sat_waits s + 1, ft_pc := Asleep u\<rparr>" by (simp add: idle_step_def)
    then show ?thesis using sat [OF 2(3)] cm [of u] assms(2) by (simp add: place_def waits_left_def)
  next
    case (3 u)
    then obtain a where a: "next_retry ?t ?w = Some a" by (auto simp: idle_until_def split: option.splits)
    then have "cooling (max u ?t) ?w < cooling ?t ?w" using cd [OF a] until [OF 3(2,3) a] by simp
    then show ?thesis using 3 assms(2) by (simp add: idle_step_def place_def waits_left_def)
  next
    case 4
    then have "\<not> idle_saturated L s" by (auto simp: idle_until_def split: option.splits)
    then show ?thesis
      using 4 assms(2) cm [of "?t + JOIN_WAIT_TICK"] by (auto simp: idle_step_def place_def waits_left_def)
  qed
qed

text \<open>A completed batch that landed nothing costs its peer a probe, a strike, a refusal, or is one less in flight.\<close>

lemma sum_list_map_update:
  fixes f :: "'a \<Rightarrow> nat"
  assumes "i < length xs"
  shows "sum_list (map f (xs[i := y])) + f (xs ! i) = sum_list (map f xs) + f y"
  using sum_list_update [of i "map f xs" "f y"] elem_le_sum_list [of i "map f xs"] assms
  by (simp add: map_update)

lemma doomed_remove:
  assumes "\<forall>j. fails ! j \<ge> PEER_FAIL_LIMIT \<longleftrightarrow> fails' ! j \<ge> PEER_FAIL_LIMIT" "fails ! fl_primary f \<ge> PEER_FAIL_LIMIT"
  shows "length (filter (\<lambda>g. fails' ! fl_primary g \<ge> PEER_FAIL_LIMIT) (xs @ ys)) <
    length (filter (\<lambda>g. fails ! fl_primary g \<ge> PEER_FAIL_LIMIT) (xs @ f # ys))"
  using assms by simp

lemma note_busy_rank:
  assumes "p < length (w_busy w)" "p < length (w_fails w)" "w_futs w = xs @ f # ys" "fl_primary f = p"
  shows "let w' = note_busy p ra t (w\<lparr>w_futs := xs @ ys\<rparr>)
    in unprobed w' = unprobed w \<and> (patience_left w' < patience_left w \<or> patience_left w' = patience_left w \<and> doomed w' < doomed w)"
proof -
  let ?b = "u32_saturating_add (w_busy w ! p) 1"
  have b: "BUSY_LIMIT - ?b = BUSY_LIMIT - (w_busy w ! p + 1)"
    by (auto simp: u32_saturating_add_def BUSY_LIMIT_def)
  note sb = sum_list_map_update [OF assms(1), of "\<lambda>b. BUSY_LIMIT - b" ?b]
  note sf = sum_list_map_update [OF assms(2), of "\<lambda>f. PEER_FAIL_LIMIT - f" PEER_FAIL_LIMIT]
  show ?thesis
  proof (cases "?b \<ge> BUSY_LIMIT")
    case False
    then have "w_busy w ! p + 1 < BUSY_LIMIT" using b by (auto simp: u32_saturating_add_def BUSY_LIMIT_def)
    then have "sum_list (map (\<lambda>b. BUSY_LIMIT - b) ((w_busy w)[p := ?b])) < sum_list (map (\<lambda>b. BUSY_LIMIT - b) (w_busy w))"
      using sb b by linarith
    then show ?thesis using False by (simp add: note_busy_def Let_def unprobed_def patience_left_def)
  next
    case True
    let ?w' = "note_busy p ra t (w\<lparr>w_futs := xs @ ys\<rparr>)"
    have w': "w_fails ?w' = (w_fails w)[p := PEER_FAIL_LIMIT]" "w_busy ?w' = (w_busy w)[p := ?b]" "w_futs ?w' = xs @ ys"
        "w_probed ?w' = w_probed w"
      using True by (simp_all add: note_busy_def Let_def)
    have le: "patience_left ?w' \<le> patience_left w" using sb sf b by (simp add: patience_left_def w')
    have "patience_left ?w' < patience_left w" if "w_fails w ! p < PEER_FAIL_LIMIT"
      using sb sf b that by (simp add: patience_left_def w')
    moreover have "doomed ?w' < doomed w" if "w_fails w ! p \<ge> PEER_FAIL_LIMIT"
    proof -
      have "\<forall>j. w_fails w ! j \<ge> PEER_FAIL_LIMIT \<longleftrightarrow> w_fails ?w' ! j \<ge> PEER_FAIL_LIMIT"
        using that assms(2) by (auto simp: w' nth_list_update)
      from doomed_remove [OF this, of f xs ys] show ?thesis using that assms(3,4) by (simp add: doomed_def w')
    qed
    ultimately show ?thesis using le by (cases "w_fails w ! p < PEER_FAIL_LIMIT") (auto simp: Let_def unprobed_def w')
  qed
qed

lemma note_failed_rank:
  assumes "p < length (w_probed w)" "p < length (w_fails w)" "w_futs w = xs @ f # ys" "fl_primary f = p"
  shows "let w' = note_failed p ps t (w\<lparr>w_futs := xs @ ys\<rparr>)
    in unprobed w' < unprobed w \<or>
       unprobed w' = unprobed w \<and> (patience_left w' < patience_left w \<or> patience_left w' = patience_left w \<and> doomed w' < doomed w)"
proof -
  let ?f = "u32_saturating_add (w_fails w ! p) 1"
  let ?fails = "(w_fails w)[p := ?f]"
  let ?probe = "?fails ! p \<ge> PEER_FAIL_LIMIT \<and> \<not> w_probed w ! p \<and>
    list_all (\<lambda>j. j = p \<or> ?fails ! j \<ge> PEER_FAIL_LIMIT) [0..<length ?fails]"
  let ?w' = "note_failed p ps t (w\<lparr>w_futs := xs @ ys\<rparr>)"
  have f: "PEER_FAIL_LIMIT - ?f = PEER_FAIL_LIMIT - (w_fails w ! p + 1)"
      "w_fails w ! p \<ge> PEER_FAIL_LIMIT \<Longrightarrow> ?f \<ge> PEER_FAIL_LIMIT"
    by (auto simp: u32_saturating_add_def PEER_FAIL_LIMIT_def)
  note sf = sum_list_map_update [OF assms(2), of "\<lambda>f. PEER_FAIL_LIMIT - f" ?f]
  show ?thesis
  proof (cases ?probe)
    case True
    then have w': "w_probed ?w' = (w_probed w)[p := True]" by (simp add: note_failed_def Let_def)
    have cnt: "length (filter P xs) = sum_list (map (\<lambda>x. if P x then 1 else 0) xs)" for P and xs :: "bool list"
      by (induction xs) auto
    have "unprobed ?w' < unprobed w"
      using sum_list_map_update [OF assms(1), of "\<lambda>b. if \<not> b then 1 else 0" True] True
      unfolding unprobed_def w' cnt by simp
    then show ?thesis by (simp add: Let_def)
  next
    case False
    then have "?w' = w\<lparr>w_futs := xs @ ys, w_fails := ?fails\<rparr>"
      by (auto simp: note_failed_def Let_def)
    then have w': "w_fails ?w' = ?fails" "w_futs ?w' = xs @ ys" "w_probed ?w' = w_probed w" "w_busy ?w' = w_busy w"
      by simp_all
    have le: "patience_left ?w' \<le> patience_left w" using sf f(1) by (simp add: patience_left_def w')
    have "patience_left ?w' < patience_left w" if "w_fails w ! p < PEER_FAIL_LIMIT"
    proof -
      have "sum_list (map (\<lambda>f. PEER_FAIL_LIMIT - f) ?fails) < sum_list (map (\<lambda>f. PEER_FAIL_LIMIT - f) (w_fails w))"
        using sf f(1) that by linarith
      then show ?thesis by (simp add: patience_left_def w')
    qed
    moreover have "doomed ?w' < doomed w" if "w_fails w ! p \<ge> PEER_FAIL_LIMIT"
    proof -
      have "\<forall>j. w_fails w ! j \<ge> PEER_FAIL_LIMIT \<longleftrightarrow> w_fails ?w' ! j \<ge> PEER_FAIL_LIMIT"
        using that assms(2) f(2) by (auto simp: w' nth_list_update)
      from doomed_remove [OF this, of f xs ys] show ?thesis using that assms(3,4) by (simp add: doomed_def w')
    qed
    ultimately show ?thesis using le by (cases "w_fails w ! p < PEER_FAIL_LIMIT") (auto simp: Let_def unprobed_def w')
  qed
qed

text \<open>The ledgers other than load and reservations, which releasing a batch changes, decide the rank.\<close>

lemma note_commutes:
  "note_busy p ra t (w\<lparr>w_load := a, w_inflight := b\<rparr>) = (note_busy p ra t w)\<lparr>w_load := a, w_inflight := b\<rparr>"
  "note_failed p ps t (w\<lparr>w_load := a, w_inflight := b\<rparr>) = (note_failed p ps t w)\<lparr>w_load := a, w_inflight := b\<rparr>"
  "note_delivered p (w\<lparr>w_load := a, w_inflight := b\<rparr>) = (note_delivered p w)\<lparr>w_load := a, w_inflight := b\<rparr>"
  by (simp_all add: note_busy_def note_failed_def note_delivered_def Let_def)

lemma rank_parts_release:
  "unprobed (note_outcome out ps t (release out w)) = unprobed (note_outcome out ps t w)"
  "patience_left (note_outcome out ps t (release out w)) = patience_left (note_outcome out ps t w)"
  "doomed (note_outcome out ps t (release out w)) = doomed (note_outcome out ps t w)"
proof -
  obtain a b where "release out w = w\<lparr>w_load := a, w_inflight := b\<rparr>" unfolding release_def by blast
  then have "note_outcome out ps t (release out w) = (note_outcome out ps t w)\<lparr>w_load := a, w_inflight := b\<rparr>"
    by (simp only: note_outcome_def Let_def note_commutes split: option.split) simp
  then show "unprobed (note_outcome out ps t (release out w)) = unprobed (note_outcome out ps t w)"
    "patience_left (note_outcome out ps t (release out w)) = patience_left (note_outcome out ps t w)"
    "doomed (note_outcome out ps t (release out w)) = doomed (note_outcome out ps t w)"
    by (simp_all add: unprobed_def patience_left_def doomed_def)
qed

lemma outcome_rank:
  assumes ok: "window_ok ps rem w" and futs: "w_futs w = xs @ f # ys" and out: "outcome_ok ps f out"
    and none: "bo_landed out = []"
  shows "let w' = note_outcome out ps t (release out (w\<lparr>w_futs := xs @ ys\<rparr>))
    in unprobed w' < unprobed w \<or>
       unprobed w' = unprobed w \<and> (patience_left w' < patience_left w \<or> patience_left w' = patience_left w \<and> doomed w' < doomed w)"
proof -
  let ?p = "fl_primary f" and ?w = "w\<lparr>w_futs := xs @ ys\<rparr>"
  have f: "flight_ok ps f" using flight_in_window(1) [OF ok futs] .
  then have nw: "bo_winner out = None" using out none by (auto simp: outcome_ok_def flight_ok_def split: option.splits)
  have len: "?p < length (w_probed w)" "?p < length (w_fails w)" "?p < length (w_busy w)"
    using f ok by (auto simp: flight_ok_def window_ok_def ledgers_ok_def)
  consider "bo_busy_peer out = Some ?p" "bo_failed_peer out = None" | "bo_busy_peer out = None" "bo_failed_peer out = Some ?p"
    using out nw by (auto simp: outcome_ok_def)
  then have "let w' = note_outcome out ps t ?w
    in unprobed w' < unprobed w \<or>
       unprobed w' = unprobed w \<and> (patience_left w' < patience_left w \<or> patience_left w' = patience_left w \<and> doomed w' < doomed w)"
  proof cases
    case 1
    then have "note_outcome out ps t ?w = note_busy ?p (bo_retry_after out) t ?w" using nw by (simp add: note_outcome_def)
    then show ?thesis using note_busy_rank [OF len(3,2) futs refl, of "bo_retry_after out" t] by (simp add: Let_def)
  next
    case 2
    then have "note_outcome out ps t ?w = note_failed ?p ps t ?w" using nw by (simp add: note_outcome_def)
    then show ?thesis using note_failed_rank [OF len(1,2) futs refl, of ps t] by (simp add: Let_def)
  qed
  then show ?thesis by (simp add: Let_def rank_parts_release)
qed

lemma rank_lessI:
  "fetch_rank s = (a, b, c, d, e, g) \<Longrightarrow> fetch_rank s' = (a', b', c', d', e', g') \<Longrightarrow>
   a' < a \<or> a' = a \<and> (b' < b \<or> b' = b \<and> (c' < c \<or> c' = c \<and> (d' < d \<or> d' = d \<and> (e' < e \<or> e' = e \<and>
     (g', g) \<in> less_than <*lex*> less_than)))) \<Longrightarrow>
   (fetch_rank s', fetch_rank s) \<in> rank_less"
  by (cases g; cases g') (auto simp: rank_less_def)

lemma batch_done_rank:
  assumes ok: "fetch_ok needed s" and futs: "w_futs (ft_window s) = xs @ f # ys"
    and out: "outcome_ok (ft_roster s) f out" and s': "batch_done out (xs @ ys) s = Some s'"
  shows "(fetch_rank s', fetch_rank s) \<in> rank_less"
proof -
  let ?rem = "foldl (\<lambda>b g. gb_remove b (g, g + 1)) (ft_remaining s) (bo_landed out)"
  let ?w = "note_outcome out (ft_roster s) (ft_now s) (release out ((ft_window s)\<lparr>w_futs := xs @ ys\<rparr>))"
  obtain sw where "batch_done out (xs @ ys) s = Some (s\<lparr>ft_swarm := sw, ft_remaining := ?rem, ft_window := ?w,
       ft_report := report_outcome out (ft_report s), ft_pc := (if gb_is_empty ?rem then Returned else AtLoop)\<rparr>)"
    by (rule batch_done_cases [OF ok futs out])
  with s' have eq: "s' = s\<lparr>ft_swarm := sw, ft_remaining := ?rem, ft_window := ?w,
       ft_report := report_outcome out (ft_report s), ft_pc := (if gb_is_empty ?rem then Returned else AtLoop)\<rparr>"
    by simp
  have core: "ft_joiners s' = ft_joiners s" "ft_joining s' = ft_joining s" "ft_remaining s' = ?rem" "ft_window s' = ?w"
    unfolding eq by simp_all
  have inv: "gb_inv (ft_remaining s)" "window_ok (ft_roster s) (groups_of (ft_remaining s)) (ft_window s)"
    using ok by (auto simp: fetch_ok_def)
  have rem: "groups_of ?rem = groups_of (ft_remaining s) - set (bo_landed out)"
    using foldl_remove_groups [OF inv(1), of "bo_landed out"] by auto
  show ?thesis
  proof (cases "bo_landed out = []")
    case True
    note r = outcome_rank [OF inv(2) futs out True, of "ft_now s", unfolded Let_def]
    then show ?thesis
      by (intro rank_lessI [OF fetch_rank_def fetch_rank_def]) (auto simp: core rem True)
  next
    case False
    then obtain g where "g \<in> set (bo_landed out)" by (cases "bo_landed out") auto
    moreover from this have "g \<in> groups_of (ft_remaining s)"
      using out flight_in_window(2) [OF inv(2) futs] by (auto simp: outcome_ok_def)
    ultimately have "card (groups_of ?rem) < card (groups_of (ft_remaining s))"
      unfolding rem by (intro psubset_card_mono) (auto simp: groups_of_def)
    then show ?thesis by (intro rank_lessI [OF fetch_rank_def fetch_rank_def]) (simp add: core)
  qed
qed

lemma loop_pass_rank:
  assumes ok: "fetch_ok needed s" and pc: "ft_pc s = AtLoop" and s': "loop_pass dl L s = Some s'"
  shows "(fetch_rank s', fetch_rank s) \<in> rank_less"
proof -
  let ?sc = "\<lparr>sc_window = ft_window s, sc_links = L, sc_report = ft_report s\<rparr>"
  obtain c sc where
    p: "loop_pass dl L s = Some (let s1 = s\<lparr>ft_cursor := c, ft_window := sc_window sc, ft_report := sc_report sc\<rparr>
       in if w_futs (sc_window sc) = [] then idle_step dl (sc_links sc) s1
          else s1\<lparr>ft_sat_waits := 0, ft_join_waits := 0, ft_pc := AtSelect\<rparr>)"
      "bookings dl (ft_swarm s) (ft_now s) (ft_roster s) (groups_of (ft_remaining s)) ?sc sc"
      "window_ok (ft_roster s) (groups_of (ft_remaining s)) (sc_window sc)"
    by (rule loop_pass_cases [OF ok])
  let ?s1 = "s\<lparr>ft_cursor := c, ft_window := sc_window sc, ft_report := sc_report sc\<rparr>"
  obtain new where new: "w_futs (sc_window sc) = w_futs (ft_window s) @ new"
      "\<forall>f \<in> set new. w_fails (ft_window s) ! fl_primary f < PEER_FAIL_LIMIT" "sc \<noteq> ?sc \<longrightarrow> new \<noteq> []"
    using bookings_flights [OF p(2)] by auto
  have w: "unprobed (sc_window sc) = unprobed (ft_window s)" "patience_left (sc_window sc) = patience_left (ft_window s)"
      "doomed (sc_window sc) = doomed (ft_window s)"
    using bookings_frame [OF p(2)] new(1,2) by (auto simp: unprobed_def patience_left_def doomed_def filter_empty_conv not_le)
  show ?thesis
  proof (cases "w_futs (sc_window sc) = []")
    case True
    then have s'_eq: "s' = idle_step dl (sc_links sc) ?s1" using p(1) s' by (simp add: Let_def)
    have "sc_window sc = ft_window s" using new True by auto
    moreover from this have "place ?s1 = place s" by (simp add: place_def waits_left_def split: fetch_pc.split)
    moreover have "(place s', place ?s1) \<in> less_than <*lex*> less_than"
      unfolding s'_eq by (rule idle_step_place [of "ft_roster s"]) (use p(3) pc in \<open>simp_all add: window_ok_def\<close>)
    ultimately show ?thesis
      by (intro rank_lessI [OF fetch_rank_def fetch_rank_def]) (simp add: s'_eq idle_step_frame)
  next
    case False
    then have s'_eq: "s' = ?s1\<lparr>ft_sat_waits := 0, ft_join_waits := 0, ft_pc := AtSelect\<rparr>" using p(1) s' by (simp add: Let_def)
    have "(place s', place s) \<in> less_than <*lex*> less_than" using pc by (simp add: s'_eq place_def)
    then show ?thesis by (intro rank_lessI [OF fetch_rank_def fetch_rank_def]) (simp add: s'_eq w)
  qed
qed

lemma now_rank:
  assumes "ft_now s \<le> t"
  shows "fetch_rank (s\<lparr>ft_now := t\<rparr>) = fetch_rank s \<or> (fetch_rank (s\<lparr>ft_now := t\<rparr>), fetch_rank s) \<in> rank_less"
proof -
  have "place (s\<lparr>ft_now := t\<rparr>) = place s \<or> (place (s\<lparr>ft_now := t\<rparr>), place s) \<in> less_than <*lex*> less_than"
  proof (cases "ft_pc s")
    case AtLoop
    then show ?thesis using cooling_mono [OF assms, of "ft_window s"] by (auto simp: place_def waits_left_def)
  next
    case (Asleep u)
    then show ?thesis
      using cooling_mono [of "max u (ft_now s)" "max u t" "ft_window s"] assms by (auto simp: place_def waits_left_def)
  qed (simp_all add: place_def)
  then show ?thesis by (cases "place s"; cases "place (s\<lparr>ft_now := t\<rparr>)") (auto simp: fetch_rank_def rank_less_def)
qed

lemma trans_rank_less: "trans rank_less"
  by (simp add: rank_less_def trans_lex_prod)

lemma rank_after_now:
  assumes "ft_now s \<le> t" "(fetch_rank s', fetch_rank (s\<lparr>ft_now := t\<rparr>)) \<in> rank_less"
  shows "(fetch_rank s', fetch_rank s) \<in> rank_less"
  using now_rank [OF assms(1)] assms(2) transD [OF trans_rank_less] by metis

lemma join_rank:
  assumes "length (ft_joiners s') + (if ft_joining s' then 1 else 0) < length (ft_joiners s) + (if ft_joining s then 1 else 0)"
  shows "(fetch_rank s', fetch_rank s) \<in> rank_less"
  using assms by (simp add: fetch_rank_def rank_less_def)

lemma admit_joiner_channel [simp]:
  "ft_joiners (admit_joiner j s) = ft_joiners s" "ft_joining (admit_joiner j s) = ft_joining s"
  by (simp_all add: admit_joiner_def)

lemma fetch_step_rank:
  assumes "fetch_step dl s s'" "fetch_ok needed s"
  shows "(fetch_rank s', fetch_rank s) \<in> rank_less"
  using assms(1)
proof cases
  case (pass t L)
  then show ?thesis using rank_after_now loop_pass_rank [of needed "s\<lparr>ft_now := t\<rparr>" dl L s'] assms(2) by simp
next
  case (timer u t)
  have "cooling t (ft_window s) \<le> cooling (max u (ft_now s)) (ft_window s)" by (rule cooling_mono) (use timer in simp)
  then have "(place s', place s) \<in> less_than <*lex*> less_than" using timer by (simp add: place_def waits_left_def)
  then show ?thesis by (intro rank_lessI [OF fetch_rank_def fetch_rank_def]) (simp add: timer(1))
next
  case (race t xs f ys present ev el f')
  have w: "window_ok (ft_roster s) (groups_of (ft_remaining s)) (ft_window s)" using assms(2) by (simp add: fetch_ok_def)
  have f': "fl_primary f' = fl_primary f" "fl_phase f' \<noteq> OnPrimary"
    using race_primary_ok [OF flight_in_window(1) [OF w race(4)], of dl "sw_stats (ft_swarm s)" present ev el] race(6)
    by auto
  have "(place s', place s) \<in> less_than <*lex*> less_than" using race f' by (simp add: place_def)
  moreover have "doomed (ft_window s') = doomed (ft_window s)" using race(1,4) f' by (simp add: doomed_def)
  moreover have "unprobed (ft_window s') = unprobed (ft_window s)" "patience_left (ft_window s') = patience_left (ft_window s)"
    by (simp_all add: race(1) unprobed_def patience_left_def)
  ultimately show ?thesis by (intro rank_lessI [OF fetch_rank_def fetch_rank_def]) (simp add: race(1))
next
  case (primary_done t xs f ys present ev el out)
  have w: "window_ok (ft_roster s) (groups_of (ft_remaining s)) (ft_window s)" using assms(2) by (simp add: fetch_ok_def)
  have "outcome_ok (ft_roster s) f out"
    using race_primary_ok [OF flight_in_window(1) [OF w primary_done(3)], of dl "sw_stats (ft_swarm s)" present ev el]
      primary_done(5) by simp
  then show ?thesis
    using rank_after_now batch_done_rank [of needed "s\<lparr>ft_now := t\<rparr>" xs f ys out s'] assms(2) primary_done by simp
next
  case (race_done t xs f ys targets errored busy retry winner present el)
  have w: "window_ok (ft_roster s) (groups_of (ft_remaining s)) (ft_window s)" using assms(2) by (simp add: fetch_ok_def)
  show ?thesis
    using rank_after_now batch_done_rank [of needed "s\<lparr>ft_now := t\<rparr>" xs f ys
        "race_finish present winner el (ft_roster s) f targets busy retry" s'] assms(2) race_done
      race_finish_ok [OF flight_in_window(1) [OF w race_done(3)] race_done(4,5)] by simp
qed (auto intro: join_rank)

lemma fetch_not_stuck:
  assumes "fetch_ok needed s" "ft_pc s \<noteq> Returned"
  shows "\<exists>s'. fetch_step dl s s'"
proof (cases "ft_pc s")
  case AtLoop
  obtain s' where "loop_pass dl (\<lambda>_. \<lparr>queued_fetch = 0, queued_fetch_reqs = 0\<rparr>) (s\<lparr>ft_now := ft_now s\<rparr>) = Some s'"
    by (rule loop_pass_cases [of needed "s\<lparr>ft_now := ft_now s\<rparr>"]) (use assms(1) in auto)
  then show ?thesis using fetch_step.pass [OF AtLoop order_refl] by blast
next
  case AtSelect
  then obtain f ys where futs: "w_futs (ft_window s) = [] @ f # ys"
    using assms(1) by (cases "w_futs (ft_window s)") (auto simp: fetch_ok_def)
  let ?s = "s\<lparr>ft_now := ft_now s\<rparr>"
  have ok: "fetch_ok needed ?s" using assms(1) by simp
  have futs': "w_futs (ft_window ?s) = [] @ f # ys" using futs by simp
  have failed: "\<exists>s'. batch_done out ([] @ ys) ?s = Some s'" if "outcome_ok (ft_roster ?s) f out" for out
    by (rule batch_done_cases [OF ok futs' that]) blast
  show ?thesis
  proof (cases "fl_phase f")
    case OnPrimary
    obtain s' where "batch_done (batch_failed gb_new (fl_groups f) (fl_primary f) 0) ([] @ ys) ?s = Some s'"
      using failed batch_failed_ok by blast
    then show ?thesis
      using fetch_step.primary_done [OF AtSelect order_refl futs OnPrimary, of dl gb_new PrimaryCapped 0] by auto
  next
    case (Racing targets errored busy retry)
    have "\<exists>s'. batch_done (race_finish gb_new None 0 (ft_roster s) f targets busy retry) ([] @ ys) ?s = Some s'"
      by (rule failed) (simp add: batch_failed_ok batch_busy_ok)
    then show ?thesis
      using fetch_step.race_done [OF AtSelect order_refl futs Racing, of None gb_new 0] by auto
  qed
next
  case (Asleep u)
  then show ?thesis using fetch_step.timer [OF Asleep, of "max u (ft_now s)"] by auto
qed (use assms in simp)

lemma no_infinite_fetch:
  assumes "fetch_ok needed (\<sigma> 0)" "\<And>n. fetch_step dl (\<sigma> n) (\<sigma> (Suc n))"
  shows False
proof -
  have "fetch_ok needed (\<sigma> n)" for n
    by (induction n) (use assms fetch_step_ok in blast)+
  then have "(fetch_rank (\<sigma> (Suc n)), fetch_rank (\<sigma> n)) \<in> rank_less" for n
    using fetch_step_rank assms(2) by blast
  then have "\<exists>r. \<forall>n. (r (Suc n), r n) \<in> rank_less" by (intro exI [of _ "\<lambda>n. fetch_rank (\<sigma> n)"]) simp
  then show False using wf_rank_less unfolding wf_iff_no_infinite_down_chain by simp
qed

section \<open>What a fetch guarantees\<close>

definition fetchable :: "swarm \<Rightarrow> group_bits \<Rightarrow> bool" where
  "fetchable sw needed \<longleftrightarrow>
     gb_inv needed \<and> sw_size sw \<le> 2 ^ 64 - GROUP_BYTES \<and> groups_of needed \<subseteq> {g. g < group_count (sw_size sw)}"

text \<open>
  C6. At every moment of a fetch, whatever the peers, the timers, the store and the other swarms do:  the
  batches in flight are disjoint and ask only for groups still missing, so nothing is booked twice; a batch
  is held by the peer it was booked on and no larger than that peer's request size; a peer never has more
  batches than its pipeline depth; at most two duplicates race; every missing group that some peer holds is
  still ahead of the cursor; and the report counts each landed group exactly once.
\<close>

theorem fetch_window_safe:
  assumes "fetchable sw needed" "fetch_run dl (fetch_start dl frozen sw needed ps js t) s"
  shows "distinct (concat (map fl_groups (w_futs (ft_window s)))) \<and>
    set (concat (map fl_groups (w_futs (ft_window s)))) = groups_of (w_inflight (ft_window s)) \<and>
    groups_of (w_inflight (ft_window s)) \<subseteq> groups_of (ft_remaining s) \<and>
    (\<forall>f \<in> set (w_futs (ft_window s)). fl_primary f < length (ft_roster s) \<and>
       list_all (gb_contains (ph_bits (ft_roster s ! fl_primary f))) (fl_groups f) \<and>
       length (fl_groups f) \<le> groups_per_request (ph_class (ft_roster s ! fl_primary f)) \<and> length (racers f) \<le> 3) \<and>
    (\<forall>i < length (ft_roster s). length (filter (\<lambda>f. fl_primary f = i) (w_futs (ft_window s)))
       \<le> pipeline_depth (ph_class (ft_roster s ! i))) \<and>
    {g \<in> groups_of (ft_remaining s). held_by (ft_roster s) g} \<subseteq> set (drop (ft_cursor s) (ft_order s)) \<and>
    groups_fetched (ft_report s) + card (groups_of (ft_remaining s)) = card (groups_of needed)"
proof -
  have ok: "fetch_ok (groups_of needed) s"
    using fetch_run_ok [OF assms(2)] fetch_start_ok assms(1) by (simp add: fetchable_def)
  then have l: "ledgers_ok (ft_roster s) (ft_window s)"
    and f: "flights_ok (ft_roster s) (groups_of (ft_remaining s)) (ft_window s)" and o: "order_ok (groups_of needed) s"
    by (auto simp: fetch_ok_def window_ok_def)
  have "length (filter (\<lambda>f. fl_primary f = i) (w_futs (ft_window s))) \<le> pipeline_depth (ph_class (ft_roster s ! i))"
    if "i < length (ft_roster s)" for i
    using l that unfolding ledgers_ok_def by metis
  then show ?thesis
    using f o ok by (auto simp: flights_ok_def list_all_iff flight_ok_def order_ok_def fetch_ok_def MAX_DUPLICATES_def)
qed

text \<open>
  C7. A fetch ends: with finitely many joiners there is no infinite run, and a run that has not returned can
  always take a step, so the fetch returns whatever happens, a join channel that never closes included.
\<close>

theorem fetch_terminates:
  assumes "fetchable sw needed"
  shows "(\<nexists>\<sigma>. \<sigma> 0 = fetch_start dl frozen sw needed ps js t \<and> (\<forall>n. fetch_step dl (\<sigma> n) (\<sigma> (Suc n)))) \<and>
    (\<forall>s. fetch_run dl (fetch_start dl frozen sw needed ps js t) s \<and> ft_pc s \<noteq> Returned \<longrightarrow> (\<exists>s'. fetch_step dl s s'))"
proof -
  have ok: "fetch_ok (groups_of needed) (fetch_start dl frozen sw needed ps js t)"
    using fetch_start_ok assms by (simp add: fetchable_def)
  then show ?thesis using no_infinite_fetch fetch_run_ok fetch_not_stuck by metis
qed

text \<open>A refill with nothing in flight takes on a schedulable peer that holds every missing group.\<close>

lemma stuck_refill_full_holder:
  assumes ok: "fetch_ok needed s" and futs: "w_futs (ft_window s) = []" and c: "c \<le> length (ft_order s)"
    "filter (gb_contains (ft_remaining s)) (drop c (ft_order s)) =
       filter (gb_contains (ft_remaining s)) (drop (ft_cursor s) (ft_order s))"
    and i: "i < length (ft_roster s)" "\<forall>g \<in> groups_of (ft_remaining s). gb_contains (ph_bits (ft_roster s ! i)) g"
      "schedulable (ft_window s) i t" "\<not> link_full L (ft_roster s ! i)"
    and missing: "groups_of (ft_remaining s) \<noteq> {}"
  shows "\<not> refill_stuck dl (ft_swarm s) t (ft_order s) (ft_remaining s) (ft_roster s) (ft_cut s) c
    \<lparr>sc_window = ft_window s, sc_links = L, sc_report = rep\<rparr>"
proof -
  let ?w = "ft_window s" and ?ps = "ft_roster s" and ?rem = "groups_of (ft_remaining s)"
  let ?sc = "\<lparr>sc_window = ?w, sc_links = L, sc_report = rep\<rparr>"
  have inv: "gb_inv (ft_remaining s)" "window_ok ?ps ?rem ?w" "order_ok needed s" "0 < ft_cut s"
      "sw_size (ft_swarm s) \<le> 2 ^ 64 - GROUP_BYTES" "\<forall>g \<in> set (ft_order s). g < group_count (sw_size (ft_swarm s))"
    using ok by (auto simp: fetch_ok_def order_ok_def)
  have load: "w_load ?w ! i = 0" "w_depth ?w ! i = pipeline_depth (ph_class (?ps ! i))" "length (w_load ?w) = length ?ps"
    using inv(2) i(1) futs by (auto simp: window_ok_def ledgers_ok_def)
  have dep: "0 < pipeline_depth (ph_class (?ps ! i))"
    by (cases "ph_class (?ps ! i)") (simp_all add: PIPELINE_DEPTH_def PIPELINE_DEPTH_OVERLAY_def)
  have free: "0 < free_slots t ?w"
    unfolding free_slots_def using i(1,3) load dep
    by (auto simp: sum_list_eq_0_iff simp flip: neq0_conv intro!: bexI [of _ i])
  have inf: "gb_inv (w_inflight ?w)" "groups_of (w_inflight ?w) = {}"
    using inv(2) futs by (auto simp: window_ok_def flights_ok_def)
  obtain g where g: "g \<in> ?rem" using missing by blast
  then have "g \<in> set (filter (gb_contains (ft_remaining s)) (drop (ft_cursor s) (ft_order s)))"
    using inv(1,3) i(1,2) by (auto simp: order_ok_def held_by_nth gb_contains_iff)
  then have "g \<in> set (filter (\<lambda>g. gb_contains (ft_remaining s) g \<and> \<not> gb_contains (w_inflight ?w) g) (drop c (ft_order s)))"
    using inf by (auto simp: gb_contains_iff simp flip: c(2))
  then have ne: "slice_of t (ft_order s) (ft_remaining s) (ft_cut s) c ?w \<noteq> []"
    unfolding slice_of_def next_unassigned_eq [OF c(1)] using free inv(4) by (auto simp: filter_empty_conv)
  let ?gs = "slice_of t (ft_order s) (ft_remaining s) (ft_cut s) c ?w"
  have od: "distinct (ft_order s)" using inv(3) by (simp add: order_ok_def)
  note sl = slice_of_props [OF inv(1) inf(1) c(1) od, of t "ft_cut s"]
  have sub: "set ?gs \<subseteq> set (ft_order s)" using sl(1) set_drop_subset [of c "ft_order s"] by blast
  obtain x where "x \<in> set ?gs" using ne last_in_set by blast
  then have "snd (assign_slice dl (ft_swarm s) t ?ps (ft_cut s) ?gs ?sc) \<noteq> ?sc"
    using sl(1,2) i inv load dep sub
    by (intro assign_slice_takes [OF _ inv(5) sl(3), where rem = ?rem and i = i]) auto
  then show ?thesis using free ne by (simp add: refill_stuck_def)
qed

text \<open>
  C8. A patient (not streaming) fetch gives up only for a reason: when a pass of the loop returns, every peer that holds
  all the missing groups has been exhausted by strikes or refusals, or its link is at its request limit at that pass and
  the loop has, since its last request in flight, already idled \<open>LINK_SATURATION_PATIENCE\<close> times for a full link (of that
  peer or of another: the counter is one for the whole fetch).  A complete seeder that is not exhausted and whose link
  has room therefore always keeps the fetch going.
\<close>

theorem fetch_gives_up_only:
  assumes "fetchable sw needed" "fetch_run dl (fetch_start dl frozen sw needed ps js t0) s" "\<not> is_streaming dl"
    "ft_pc s = AtLoop" "loop_pass dl L (s\<lparr>ft_now := t\<rparr>) = Some s'" "ft_pc s' = Returned"
    "i < length (ft_roster s)" "\<forall>g \<in> groups_of (ft_remaining s). gb_contains (ph_bits (ft_roster s ! i)) g"
  shows "w_fails (ft_window s) ! i \<ge> PEER_FAIL_LIMIT \<or>
    link_full L (ft_roster s ! i) \<and> ft_sat_waits s \<ge> LINK_SATURATION_PATIENCE"
proof (rule ccontr)
  assume "\<not> ?thesis"
  then have neg: "w_fails (ft_window s) ! i < PEER_FAIL_LIMIT"
      "\<not> link_full L (ft_roster s ! i) \<or> ft_sat_waits s < LINK_SATURATION_PATIENCE" by auto
  let ?s = "s\<lparr>ft_now := t\<rparr>" and ?sc = "\<lparr>sc_window = ft_window s, sc_links = L, sc_report = ft_report s\<rparr>"
  have ok: "fetch_ok (groups_of needed) s"
    using fetch_run_ok [OF assms(2)] fetch_start_ok assms(1) by (simp add: fetchable_def)
  then have ok': "fetch_ok (groups_of needed) ?s" by simp
  obtain c sc where
    p: "loop_pass dl L ?s = Some (let s1 = ?s\<lparr>ft_cursor := c, ft_window := sc_window sc, ft_report := sc_report sc\<rparr>
       in if w_futs (sc_window sc) = [] then idle_step dl (sc_links sc) s1
          else s1\<lparr>ft_sat_waits := 0, ft_join_waits := 0, ft_pc := AtSelect\<rparr>)"
      "bookings dl (ft_swarm ?s) (ft_now ?s) (ft_roster ?s) (groups_of (ft_remaining ?s))
        \<lparr>sc_window = ft_window ?s, sc_links = L, sc_report = ft_report ?s\<rparr> sc"
      "c \<le> length (ft_order ?s)"
      "filter (gb_contains (ft_remaining ?s)) (drop c (ft_order ?s)) =
         filter (gb_contains (ft_remaining ?s)) (drop (ft_cursor ?s) (ft_order ?s))"
      "refill_stuck dl (ft_swarm ?s) (ft_now ?s) (ft_order ?s) (ft_remaining ?s) (ft_roster ?s) (ft_cut ?s) c sc"
    by (rule loop_pass_cases [OF ok'])
  let ?s1 = "?s\<lparr>ft_cursor := c, ft_window := sc_window sc, ft_report := sc_report sc\<rparr>"
  have futs: "w_futs (sc_window sc) = []" using p(1) assms(5,6) by (auto simp: Let_def split: if_splits)
  have sc: "sc = ?sc" using bookings_flights [OF p(2)] futs by auto
  have w: "w_futs (ft_window s) = []" "length (w_fails (ft_window s)) = length (w_cooldown (ft_window s))"
      "length (w_cooldown (ft_window s)) = length (ft_roster s)" "length (w_load (ft_window s)) = length (ft_roster s)"
      "w_load (ft_window s) ! i = 0" "w_depth (ft_window s) ! i = pipeline_depth (ph_class (ft_roster s ! i))"
    using futs sc ok assms(7) by (auto simp: fetch_ok_def window_ok_def ledgers_ok_def)
  have "ft_pc (idle_step dl L ?s1) = Returned" using p(1) assms(5,6) futs sc by (simp add: Let_def)
  then have "idle_until L ?s1 = None" using assms(3) by (auto simp: idle_step_def Let_def split: option.splits)
  then have idle: "next_retry t (ft_window s) = None" "\<not> idle_saturated L ?s1"
    using sc by (auto simp: idle_until_def split: option.splits if_splits)
  have sch: "schedulable (ft_window s) i t"
    using next_retry_None [OF idle(1) w(2)] neg(1) assms(7) w(3) by (simp add: schedulable_def)
  have dep: "0 < pipeline_depth (ph_class (ft_roster s ! i))"
    by (cases "ph_class (ft_roster s ! i)") (simp_all add: PIPELINE_DEPTH_def PIPELINE_DEPTH_OVERLAY_def)
  have "\<not> link_full L (ft_roster s ! i)"
  proof
    assume "link_full L (ft_roster s ! i)"
    then have "awaiting_link_room t L (ft_roster s) (ft_window s)"
      using sch w dep assms(7) by (auto simp: awaiting_link_room_def list_ex_iff intro!: bexI [of _ i])
    then show False using idle(2) neg(2) \<open>link_full L (ft_roster s ! i)\<close> sc by (simp add: idle_saturated_def)
  qed
  moreover have "groups_of (ft_remaining s) \<noteq> {}" using ok assms(4) by (simp add: fetch_ok_def)
  ultimately show False
    using stuck_refill_full_holder [OF ok w(1), of c i t L dl "ft_report s"] p(3-5) assms(7,8) sch sc by simp
qed

section \<open>A run\<close>

text \<open>
  A run in which a piece is lost to an exhausted peer.  Peer 0 holds groups 2 and 3, peer 1 holds 2 and
  peer 2 holds 3.
\<close>

definition ex_handle :: "nat \<Rightarrow> range \<Rightarrow> peer_handle" where
  "ex_handle i r = \<lparr>ph_conn = i, ph_class = CClearnet, ph_bits = \<lparr>runs = [r]\<rparr>, ph_label = replicate i CHR ''p''\<rparr>"

definition ex_roster :: "peer_handle list" where
  "ex_roster = [ex_handle 0 (2, 4), ex_handle 1 (2, 3), ex_handle 2 (3, 4)]"

definition ex_swarm :: swarm where
  "ex_swarm = \<lparr>sw_size = 65536, sw_stats = class_stats_default, sw_peer_stats = []\<rparr>"

definition ex_needed :: group_bits where "ex_needed = \<lparr>runs = [(2, 4)]\<rparr>"

definition idle_links :: links where "idle_links = (\<lambda>_. \<lparr>queued_fetch = 0, queued_fetch_reqs = 0\<rparr>)"

definition ex_window :: "nat \<Rightarrow> window" where
  "ex_window k = (window_new ex_roster)\<lparr>w_fails := [k, 0, 0]\<rparr>"

definition ex_fetch :: "nat \<Rightarrow> fetch" where
  "ex_fetch k = (fetch_start dl_background True ex_swarm ex_needed ex_roster [] 0)
     \<lparr>ft_window := ex_window k, ft_report := report_default\<lparr>requests_issued := k\<rparr>\<rparr>"

definition ex_sched :: "nat \<Rightarrow> sched" where
  "ex_sched k = \<lparr>sc_window = ex_window k, sc_links = idle_links, sc_report = ft_report (ex_fetch k)\<rparr>"

lemma gb_contains_single: "gb_contains \<lparr>runs = [(a, b)]\<rparr> g \<longleftrightarrow> a \<le> g \<and> g < b"
  by (simp add: gb_contains_def binary_search_by_def bsearch_loop.simps gb_cmp_def)

lemma gb_contains_empty: "\<not> gb_contains \<lparr>runs = []\<rparr> g"
  by (simp add: gb_contains_def binary_search_by_def)

lemmas ex_peer_simps = ex_roster_def ex_handle_def gb_contains_single gb_contains_empty upt_rec

lemma ex_order: "initial_order dl_background ex_needed ex_roster = [2, 3]"
  by (simp add: initial_order_def is_streaming_def dl_background_def rarest_first_order_def run_groups_def holders_def
     ex_peer_simps ex_needed_def)

lemma ex_cut: "batch_groups_for ex_roster = 64"
  by (simp add: batch_groups_for_def ex_peer_simps GROUPS_PER_REQUEST_def)

lemmas byte_simps = byte_range_def bytes_of_group_def GROUP_BYTES_def u64_mul_def u64_add_def

lemma ex_ranges: "batch_into_ranges [2, 3] 65536 64 = [(32768, 65536)]"
  by (simp add: byte_simps)

lemma ex_groups: "groups_of_batch (32768, 65536) = [2, 3]"
  by (simp add: groups_of_batch_def groups_for_bytes_def GROUP_BYTES_def div_ceil_def upt_rec)

lemma ex_split: "split_by_holder [2, 3] ex_roster 65536 64 = [(32768, 65536)]"
  by (simp add: byte_simps narrow_def ex_peer_simps)

lemma ex_slice: "next_unassigned [2, 3] 0 ex_needed gb_new (n * 64) = (0, if n = 0 then [] else [2, 3])"
  by (cases n) (simp_all add: next_unassigned_def skip_fetched.simps gb_contains_single gb_new_def gb_contains_empty ex_needed_def)

lemma ex_free: "free_slots 0 (ex_window k) = (if k < 3 then 6 else 4)"
  by (simp add: free_slots_def ex_window_def window_new_def ex_peer_simps schedulable_def PEER_FAIL_LIMIT_def
    cool_def PIPELINE_DEPTH_def)

lemma ex_pick: "pick_now dl_background ex_swarm 0 [2, 3] ex_roster (ex_sched k) = (if k < 3 then Some 0 else None)"
  by (simp add: pick_now_def pick_peer_def eligible_def ex_sched_def ex_window_def window_new_def ex_peer_simps
    PEER_FAIL_LIMIT_def cool_def PIPELINE_DEPTH_def dl_background_def is_streaming_def
    link_full_def queued_fetch_requests_def idle_links_def LINK_REQUEST_LIMIT_def MAX_CONCURRENT_SERVES_def)

lemma ex_sizes: "sw_size ex_swarm = 65536" "w_inflight (ex_window k) = gb_new" "sc_window (ex_sched k) = ex_window k"
  by (simp_all add: ex_swarm_def ex_window_def window_new_def ex_sched_def)

lemma ex_assign: "assign_slice dl_background ex_swarm 0 ex_roster 64 [2, 3] (ex_sched k) =
    (if k < 3 then (True, schedule dl_background ex_swarm (32768, 65536) [2, 3] 0 ex_roster (ex_sched k)) else (False, ex_sched k))"
proof -
  have "assign_split dl_background ex_swarm 0 [2, 3] ex_roster 64 (ex_sched k) = (False, ex_sched k)" if "\<not> k < 3"
    using that unfolding assign_split_def ex_sizes ex_split by (simp add: assign_sub_def ex_groups ex_pick)
  then show ?thesis
    unfolding assign_slice_def ex_sizes ex_ranges by (simp add: assign_step_def assign_batch_def ex_groups ex_pick)
qed

definition ex_flight :: flight where
  "ex_flight = \<lparr>fl_batch = (32768, 65536), fl_groups = [2, 3], fl_primary = 0, fl_queued = 1, fl_phase = OnPrimary\<rparr>"

definition ex_booked :: "nat \<Rightarrow> sched" where
  "ex_booked k = schedule dl_background ex_swarm (32768, 65536) [2, 3] 0 ex_roster (ex_sched k)"

lemma ex_bytes: "bytes_of 65536 [2, 3] = 32768"
  by (simp add: bytes_of_def byte_simps usize_sub_def)

lemma ex_trim: "trim_batch 65536 (groups_per_request (ph_class (ex_roster ! 0))) (32768, 65536) [2, 3] = ((32768, 65536), [2, 3])"
  by (simp add: trim_batch_def ex_roster_def ex_handle_def GROUPS_PER_REQUEST_def)

lemma ex_reserve: "foldl (\<lambda>b g. gb_add b (g, g + 1)) gb_new [2, 3] = ex_needed"
  by (simp add: gb_add_def gb_new_def ex_needed_def)

lemma ex_queued: "window_queue_depth dl_background 1 (ph_class (ex_roster ! 0))
    (queued_fetch (charge_fetch 32768 (ex_roster ! 0) idle_links (ph_conn (ex_roster ! 0)))) = 1"
  by (simp add: window_queue_depth_def dl_background_def is_streaming_def link_queue_depth_def charge_fetch_def
    idle_links_def ex_roster_def ex_handle_def GROUPS_PER_REQUEST_def GROUP_BYTES_def u64_add_def div_ceil_def)

lemma ex_booked_window: "sc_window (ex_booked k) =
  (ex_window k)\<lparr>w_load := [1, 0, 0], w_inflight := ex_needed, w_futs := [ex_flight]\<rparr>"
proof -
  have l: "w_load (ex_window k) = [0, 0, 0]" "w_futs (ex_window k) = []" "sc_links (ex_sched k) = idle_links"
    by (simp_all add: ex_window_def window_new_def ex_roster_def ex_sched_def)
  show ?thesis
    unfolding ex_booked_def schedule_def ex_sizes Let_def ex_trim prod.case ex_reserve ex_bytes l sched.select_convs
    using ex_queued by (simp add: ex_flight_def)
qed

lemma ex_booked_free: "0 < free_slots 0 (sc_window (ex_booked k))"
   "next_unassigned [2, 3] 0 ex_needed ex_needed n = (0, [])"
  by (simp_all add: ex_booked_window free_slots_def ex_window_def window_new_def ex_peer_simps schedulable_def PEER_FAIL_LIMIT_def
    cool_def PIPELINE_DEPTH_def next_unassigned_def skip_fetched.simps ex_needed_def)

lemma ex_refill: "refill dl_background ex_swarm 0 [2, 3] ex_needed ex_roster 64 0 (ex_sched k) =
   Some (0, if k < 3 then ex_booked k else ex_sched k)"
proof -
  have stop: "refill dl_background ex_swarm 0 [2, 3] ex_needed ex_roster 64 0 (ex_booked k) = Some (0, ex_booked k)"
    using ex_booked_free(1) [of k] by (subst refill.simps) (simp add: ex_booked_free ex_booked_window)
  show ?thesis
    using ex_slice [of 6] ex_slice [of 4] stop
    by (subst refill.simps) (auto simp: ex_free ex_assign ex_sizes ex_booked_def)
qed


definition ex_select :: "nat \<Rightarrow> fetch" where
  "ex_select k = (ex_fetch k)\<lparr>ft_window := sc_window (ex_booked k), ft_report := report_default\<lparr>requests_issued := Suc k\<rparr>,
     ft_pc := AtSelect\<rparr>"

lemma ex_fetch_fields:
  "ft_now (ex_fetch k) = 0" "ft_swarm (ex_fetch k) = ex_swarm" "ft_roster (ex_fetch k) = ex_roster"
  "ft_order (ex_fetch k) = [2, 3]" "ft_cursor (ex_fetch k) = 0" "ft_cut (ex_fetch k) = 64"
  "ft_remaining (ex_fetch k) = ex_needed" "ft_window (ex_fetch k) = ex_window k" "ft_joining (ex_fetch k) = False"
  "ft_sat_waits (ex_fetch k) = 0" "ft_join_waits (ex_fetch k) = 0" "ft_pc (ex_fetch k) = AtLoop"
  "ft_report (ex_fetch k) = report_default\<lparr>requests_issued := k\<rparr>"
  "(ex_fetch k)\<lparr>ft_now := 0\<rparr> = ex_fetch k"
  by (simp_all add: ex_fetch_def fetch_start_def ex_order ex_cut gb_is_empty_def ex_needed_def [THEN arg_cong, of runs])

lemma ex_booked_report: "sc_report (ex_booked k) = report_default\<lparr>requests_issued := Suc k\<rparr>"
  by (simp add: ex_booked_def schedule_def ex_sched_def ex_fetch_fields Let_def split: prod.split)

lemma ex_pass: "k < 3 \<Longrightarrow> loop_pass dl_background idle_links (ex_fetch k) = Some (ex_select k)"
  unfolding loop_pass_def ex_fetch_fields ex_refill [unfolded ex_sched_def ex_fetch_fields]
  by (simp add: ex_booked_window ex_booked_report ex_select_def ex_fetch_def fetch_start_def)

lemma ex_pass_step: "k < 3 \<Longrightarrow> fetch_step dl_background (ex_fetch k) (ex_select k)"
  using fetch_step.pass [of "ex_fetch k" 0 dl_background idle_links "ex_select k"] ex_pass [of k]
  by (simp add: ex_fetch_fields)

lemma ex_race:
  "race_primary dl_background (sw_stats ex_swarm) gb_new (PrimaryErr False None) 0 ex_roster ex_flight =
     Inr (batch_failed gb_new [2, 3] 0 0)"
  by (simp add: start_race_def race_targets_def ex_flight_def ex_peer_simps)

lemma ex_failed: "k < 3 \<Longrightarrow> batch_done (batch_failed gb_new [2, 3] 0 0) [] (ex_select k) = Some (ex_fetch (Suc k))"
  by (simp add: batch_done_def apply_outcome_def batch_failed_def gb_new_def gb_contains_empty observe_outcome_def ex_select_def
    ex_fetch_fields ex_booked_window note_outcome_def note_failed_def release_def ex_window_def window_new_def ex_roster_def
    u32_saturating_add_def PEER_FAIL_LIMIT_def upt_rec report_outcome_def report_default_def ex_fetch_def fetch_start_def
    gb_remove_def remove_run_def ex_needed_def gb_is_empty_def)

lemma ex_gives_up: "loop_pass dl_background idle_links (ex_fetch 3) = Some ((ex_fetch 3)\<lparr>ft_pc := Returned\<rparr>)"
proof -
  have w: "w_futs (ex_window 3) = []" "next_retry 0 (ex_window 3) = None" "\<not> awaiting_link_room 0 idle_links ex_roster (ex_window 3)"
    by (simp_all add: ex_window_def window_new_def next_retry_def ex_roster_def map_filter_simps awaiting_link_room_def upt_rec
      schedulable_def PEER_FAIL_LIMIT_def link_full_def queued_fetch_requests_def idle_links_def LINK_REQUEST_LIMIT_def
      MAX_CONCURRENT_SERVES_def)
  show ?thesis
    unfolding loop_pass_def ex_fetch_fields ex_refill [unfolded ex_sched_def ex_fetch_fields]
    using w by (simp add: ex_sched_def idle_step_def idle_until_def idle_saturated_def is_streaming_def dl_background_def
      ex_fetch_def fetch_start_def)
qed

lemma ex_round:
  assumes "k < 3" "fetch_run dl_background s0 (ex_fetch k)"
  shows "fetch_run dl_background s0 (ex_fetch (Suc k))"
proof -
  have "fetch_step dl_background (ex_fetch k) (ex_select k)" by (rule ex_pass_step [OF assms(1)])
  moreover have "fetch_step dl_background (ex_select k) (ex_fetch (Suc k))"
  proof (rule fetch_step.primary_done [where xs = "[]" and f = ex_flight and ys = "[]" and t = 0])
    show "race_primary dl_background (sw_stats (ft_swarm (ex_select k))) gb_new (PrimaryErr False None) 0 (ft_roster (ex_select k)) ex_flight
        = Inr (batch_failed gb_new [2, 3] 0 0)"
      using ex_race by (simp add: ex_select_def ex_fetch_fields)
    show "batch_done (batch_failed gb_new [2, 3] 0 0) ([] @ []) ((ex_select k)\<lparr>ft_now := 0\<rparr>) = Some (ex_fetch (Suc k))"
      using ex_failed [OF assms(1)] by (simp add: ex_select_def ex_fetch_def fetch_start_def)
  qed (simp_all add: ex_select_def ex_fetch_fields ex_booked_window ex_flight_def)
  ultimately show ?thesis using assms(2) fetch_run.step by blast
qed

lemma ex_run: "k \<le> 3 \<Longrightarrow> fetch_run dl_background (fetch_start dl_background True ex_swarm ex_needed ex_roster [] 0) (ex_fetch k)"
proof (induction k)
  case 0
  have "ex_fetch 0 = fetch_start dl_background True ex_swarm ex_needed ex_roster [] 0"
    by (simp add: ex_fetch_def ex_window_def fetch_start_def window_new_def ex_roster_def report_default_def)
  then show ?case using fetch_run.start by simp
qed (use ex_round in simp)

lemma ex_fetchable: "fetchable ex_swarm ex_needed"
  by (auto simp: fetchable_def ex_swarm_def ex_needed_def gb_inv_def groups_of_def group_count_def div_ceil_def GROUP_BYTES_def)

theorem fetch_window_safe_witness:
  "w_futs (ft_window (ex_select 0)) \<noteq> [] \<and> distinct (concat (map fl_groups (w_futs (ft_window (ex_select 0)))))"
proof -
  have "fetch_run dl_background (fetch_start dl_background True ex_swarm ex_needed ex_roster [] 0) (ex_select 0)"
    using fetch_run.step [OF ex_run [of 0] ex_pass_step] by simp
  from fetch_window_safe [OF ex_fetchable this] show ?thesis by (simp add: ex_select_def ex_booked_window)
qed

theorem fetch_terminates_witness:
  "\<nexists>\<sigma>. \<sigma> 0 = fetch_start dl_background True ex_swarm ex_needed ex_roster [] 0 \<and>
     (\<forall>n. fetch_step dl_background (\<sigma> n) (\<sigma> (Suc n)))"
  using fetch_terminates [OF ex_fetchable] by blast

theorem fetch_gives_up_only_witness: "w_fails (ft_window (ex_fetch 3)) ! 0 \<ge> PEER_FAIL_LIMIT"
proof -
  have "w_fails (ft_window (ex_fetch 3)) ! 0 \<ge> PEER_FAIL_LIMIT \<or>
      link_full idle_links (ft_roster (ex_fetch 3) ! 0) \<and> ft_sat_waits (ex_fetch 3) \<ge> LINK_SATURATION_PATIENCE"
    by (rule fetch_gives_up_only [OF ex_fetchable ex_run [OF order_refl],
          where t = 0 and s' = "(ex_fetch 3)\<lparr>ft_pc := Returned\<rparr>"])
      (use ex_gives_up in \<open>simp_all add: ex_fetch_fields is_streaming_def dl_background_def ex_peer_simps ex_needed_def groups_of_def\<close>)
  then show ?thesis by (simp add: ex_fetch_fields LINK_SATURATION_PATIENCE_def)
qed

text \<open>
  C9. A limit of the scheduler: a patient fetch with a closed join channel returns although groups 2 and 3 are
  missing and two idle, unfailed peers hold one each.  Peer 0, which holds both, took the merged batch three
  times and is exhausted; the split of the batch by holder still counts the exhausted peer as the common
  holder of both groups, so it never cuts the batch down to what the other peers hold.
\<close>

theorem fetch_strands_held_groups:
  "\<exists>s. fetch_run dl_background (fetch_start dl_background True ex_swarm ex_needed ex_roster [] 0) s \<and>
     ft_pc s = Returned \<and> w_futs (ft_window s) = [] \<and> 2 \<in> groups_of (ft_remaining s) \<and>
     gb_contains (ph_bits (ft_roster s ! 1)) 2 \<and> schedulable (ft_window s) 1 (ft_now s) \<and>
     w_load (ft_window s) ! 1 = 0 \<and> \<not> link_full idle_links (ft_roster s ! 1)"
proof -
  have "fetch_step dl_background (ex_fetch 3) ((ex_fetch 3)\<lparr>ft_pc := Returned\<rparr>)"
    using fetch_step.pass [of "ex_fetch 3" 0 dl_background idle_links] ex_gives_up by (simp add: ex_fetch_fields)
  from fetch_run.step [OF ex_run [OF order_refl] this] show ?thesis
    by (intro exI [of _ "(ex_fetch 3)\<lparr>ft_pc := Returned\<rparr>"])
      (simp add: ex_fetch_fields ex_window_def window_new_def ex_needed_def groups_of_def ex_peer_simps schedulable_def
        PEER_FAIL_LIMIT_def cool_def link_full_def queued_fetch_requests_def idle_links_def LINK_REQUEST_LIMIT_def
        MAX_CONCURRENT_SERVES_def)
qed

end
