(* ===== verification/Canonical_Json.thy ===== *)
theory Canonical_Json
  imports Json Decimal Obj_Id Rust_Str
begin

text \<open>
  The canonical text that content and record signatures cover, after \<open>dumps_sorted\<close> of
  \<^verbatim>\<open>epix-content/src/canonical.rs\<close> and the payloads of \<^verbatim>\<open>epix-content/src/lib.rs\<close> and
  \<^verbatim>\<open>epix-content/src/record.rs\<close>.  A \<open>String\<close> is the list of its UTF-8 bytes, so \<open>chars\<close> decodes it.
  The theory shows that the text determines the value: two documents with the same signed payload
  differ at most in their signature fields.
\<close>

section \<open>Characters\<close>

text \<open>\<open>str::chars\<close>: the code points of a well-formed UTF-8 string.\<close>

fun utf8_chars :: "bytes \<Rightarrow> nat list" where
  "utf8_chars [] = []"
| "utf8_chars (a # r) =
     (if a < 0x80 then unat a # utf8_chars r
      else case r of
        [] \<Rightarrow> []
      | b # r1 \<Rightarrow>
          if a < 0xE0 then ((unat a - 0xC0) * 64 + (unat b - 0x80)) # utf8_chars r1
          else case r1 of
            [] \<Rightarrow> []
          | c # r2 \<Rightarrow>
              if a < 0xF0 then ((unat a - 0xE0) * 4096 + (unat b - 0x80) * 64 + (unat c - 0x80)) # utf8_chars r2
              else case r2 of
                [] \<Rightarrow> []
              | d # r3 \<Rightarrow>
                  ((unat a - 0xF0) * 262144 + (unat b - 0x80) * 4096 + (unat c - 0x80) * 64 + (unat d - 0x80))
                  # utf8_chars r3)"

definition chars :: "string \<Rightarrow> nat list" where
  "chars s = utf8_chars (as_bytes s)"

section \<open>Writing\<close>

text \<open>\<open>{n:04x}\<close> for a number of at most 16 bits.\<close>

definition hex4 :: "nat \<Rightarrow> string" where
  "hex4 n = [hex_char (n div 4096), hex_char (n div 256 mod 16), hex_char (n div 16 mod 16), hex_char (n mod 16)]"

definition bslash :: char where
  "bslash = CHR 0x5C"

definition dquote :: char where
  "dquote = CHR 0x22"

definition py_escape :: "nat \<Rightarrow> string" where
  "py_escape c =
     (if c = 34 then [bslash, dquote]
      else if c = 92 then [bslash, bslash]
      else if c = 10 then bslash # ''n''
      else if c = 13 then bslash # ''r''
      else if c = 9 then bslash # ''t''
      else if c = 8 then bslash # ''b''
      else if c = 12 then bslash # ''f''
      else if c < 0x20 \<or> c > 0x7E then
        (if c > 0xFFFF then
           (let v = c - 0x10000; hi = 0xD800 + v div 1024; lo = 0xDC00 + v mod 1024
            in bslash # ''u'' @ hex4 hi @ bslash # ''u'' @ hex4 lo)
         else bslash # ''u'' @ hex4 c)
      else [char_of c])"

definition write_py_string :: "string \<Rightarrow> string" where
  "write_py_string s = dquote # concat (map py_escape (chars s)) @ [dquote]"

text \<open>The items of an array or object, separated by a comma and a blank.\<close>

fun join_items :: "string list \<Rightarrow> string" where
  "join_items [] = []"
| "join_items [x] = x"
| "join_items (x # xs) = x @ '', '' @ join_items xs"

lemma size_snd_entry: "e \<in> set m \<Longrightarrow> size (snd e) < Suc (size_list (size_prod (\<lambda>_. 0) size) m)"
  by (induction m) (auto simp: less_Suc_eq_le intro: le_add1 le_trans)

function write_value :: "json \<Rightarrow> string" where
  "write_value JNull = ''null''"
| "write_value (JBool b) = (if b then ''true'' else ''false'')"
| "write_value (JInt i) = show_int i"
| "write_value (JFloat t) = t"
| "write_value (JStr s) = write_py_string s"
| "write_value (JArr items) = ''['' @ join_items (map write_value items) @ '']''"
| "write_value (JObj m) =
     ''{'' @ join_items (map (\<lambda>e. write_py_string (fst e) @ '': '' @ write_value (snd e)) (sort_key fst m)) @ ''}''"
  by pat_completeness auto
termination
proof (relation "measure size")
  fix items :: "json list" and x
  assume "x \<in> set items"
  then show "(x, JArr items) \<in> measure size" by (simp add: less_Suc_eq_le size_list_estimation')
next
  fix m :: "(string \<times> json) list" and e
  assume "e \<in> set (sort_key fst m)"
  then have "e \<in> set m" by simp
  then show "(snd e, JObj m) \<in> measure size" using size_snd_entry [of e m] by simp
qed simp

declare write_value.simps(7) [simp del]

definition dumps_sorted :: "json \<Rightarrow> string" where
  "dumps_sorted v = write_value v"

section \<open>Signed payloads\<close>

fun without_keys :: "string list \<Rightarrow> json \<Rightarrow> json" where
  "without_keys ks (JObj m) = JObj (fold bt_remove ks m)"
| "without_keys ks v = v"

definition signed_data :: "json \<Rightarrow> string" where
  "signed_data content = dumps_sorted (without_keys [''sign'', ''signs''] content)"

definition record_signed_data :: "json \<Rightarrow> string" where
  "record_signed_data rec = dumps_sorted (without_keys [''sign''] rec)"

section \<open>Decoding is injective\<close>

text \<open>\<open>char::encode_utf8\<close>, the inverse of the decoding.\<close>

definition utf8_enc :: "nat \<Rightarrow> nat list" where
  "utf8_enc c =
     (if c < 0x80 then [c]
      else if c < 0x800 then [0xC0 + c div 64, 0x80 + c mod 64]
      else if c < 0x10000 then [0xE0 + c div 4096, 0x80 + c div 64 mod 64, 0x80 + c mod 64]
      else [0xF0 + c div 262144, 0x80 + c div 4096 mod 64, 0x80 + c div 64 mod 64, 0x80 + c mod 64])"

text \<open>The scalar values: below 0x110000 and not a surrogate.\<close>

definition scalar :: "nat \<Rightarrow> bool" where
  "scalar c \<longleftrightarrow> c < 0xD800 \<or> (0xE000 \<le> c \<and> c < 0x110000)"

lemma base64_digits:
  assumes "j < (64 :: nat)"
  shows "(i * 64 + j) div 64 = i" "(i * 64 + j) mod 64 = j"
  using assms by auto

lemma utf8_enc2:
  assumes "0xC2 \<le> x" "x \<le> 0xDF" "0x80 \<le> y" "y \<le> 0xBF"
  shows "utf8_enc ((x - 0xC0) * 64 + (y - 0x80)) = [x, y] \<and> scalar ((x - 0xC0) * 64 + (y - 0x80))"
proof -
  define i j where "i = x - 0xC0" and "j = y - 0x80"
  have ij: "x = 0xC0 + i" "y = 0x80 + j" "2 \<le> i" "i < 32" "j < 64"
    unfolding i_def j_def using assms by auto
  have "0x80 \<le> i * 64 + j" "i * 64 + j < 0x800" using ij(3-5) by linarith+
  then show ?thesis using ij base64_digits [OF ij(5), of i] by (simp add: utf8_enc_def scalar_def)
qed

lemma utf8_enc3:
  assumes "0xE0 \<le> x" "x \<le> 0xEF" "0x80 \<le> y" "y \<le> 0xBF" "0x80 \<le> z" "z \<le> 0xBF"
    and "x = 0xE0 \<longrightarrow> 0xA0 \<le> y" "x = 0xED \<longrightarrow> y \<le> 0x9F"
  shows "utf8_enc ((x - 0xE0) * 4096 + (y - 0x80) * 64 + (z - 0x80)) = [x, y, z] \<and>
    scalar ((x - 0xE0) * 4096 + (y - 0x80) * 64 + (z - 0x80))"
proof -
  define i j k where "i = x - 0xE0" and "j = y - 0x80" and "k = z - 0x80"
  have ij: "x = 0xE0 + i" "y = 0x80 + j" "z = 0x80 + k" "i < 16" "j < 64" "k < 64"
    and lo: "i = 0 \<longrightarrow> 32 \<le> j" and hi: "i = 13 \<longrightarrow> j < 32"
    unfolding i_def j_def k_def using assms by auto
  define c where "c = (i * 64 + j) * 64 + k"
  have c: "i * 4096 + j * 64 + k = c" by (simp add: c_def)
  have d: "c div 64 = i * 64 + j" "c mod 64 = k" unfolding c_def by (rule base64_digits [OF ij(6)])+
  have "c div 4096 = (c div 64) div 64" by (simp add: div_mult2_eq [symmetric])
  then have dd: "c div 4096 = i" using d base64_digits [OF ij(5)] by simp
  have c': "c = 4096 * i + 64 * j + k" by (simp add: c_def)
  have "i = 0 \<or> 1 \<le> i" "i \<le> 12 \<or> i = 13 \<or> 14 \<le> i" by auto
  then have r: "0x800 \<le> c" "c < 0xD800 \<or> 0xE000 \<le> c"
    using lo hi ij(5,6) unfolding c' by linarith+
  have r': "c < 0x10000" using ij(4-6) unfolding c' by linarith
  have "utf8_enc c = [x, y, z]"
    using r(1) r' d dd ij base64_digits [OF ij(5), of i] by (simp add: utf8_enc_def)
  moreover have "scalar c" using r(2) r' by (auto simp: scalar_def)
  ultimately show ?thesis unfolding i_def [symmetric] j_def [symmetric] k_def [symmetric] c by simp
qed

lemma utf8_enc4:
  assumes "0xF0 \<le> x" "x \<le> 0xF4" "0x80 \<le> y" "y \<le> 0xBF" "0x80 \<le> z" "z \<le> 0xBF" "0x80 \<le> w" "w \<le> 0xBF"
    and "x = 0xF0 \<longrightarrow> 0x90 \<le> y" "x = 0xF4 \<longrightarrow> y \<le> 0x8F"
  shows "utf8_enc ((x - 0xF0) * 262144 + (y - 0x80) * 4096 + (z - 0x80) * 64 + (w - 0x80)) = [x, y, z, w] \<and>
    scalar ((x - 0xF0) * 262144 + (y - 0x80) * 4096 + (z - 0x80) * 64 + (w - 0x80))"
proof -
  define i j k l where "i = x - 0xF0" and "j = y - 0x80" and "k = z - 0x80" and "l = w - 0x80"
  have ij: "x = 0xF0 + i" "y = 0x80 + j" "z = 0x80 + k" "w = 0x80 + l" "i < 5" "j < 64" "k < 64" "l < 64"
    and lo: "i = 0 \<longrightarrow> 16 \<le> j" and hi: "i = 4 \<longrightarrow> j < 16"
    unfolding i_def j_def k_def l_def using assms by auto
  define c where "c = ((i * 64 + j) * 64 + k) * 64 + l"
  have c: "i * 262144 + j * 4096 + k * 64 + l = c" by (simp add: c_def)
  have d: "c div 64 = (i * 64 + j) * 64 + k" "c mod 64 = l" unfolding c_def by (rule base64_digits [OF ij(8)])+
  have "c div 4096 = (c div 64) div 64" by (simp add: div_mult2_eq [symmetric])
  then have e: "c div 4096 = i * 64 + j" using d base64_digits [OF ij(7)] by simp
  have "c div 262144 = (c div 4096) div 64" by (simp add: div_mult2_eq [symmetric])
  then have f: "c div 262144 = i" using e base64_digits [OF ij(6)] by simp
  have c': "c = 262144 * i + 4096 * j + 64 * k + l" by (simp add: c_def)
  have "i = 0 \<or> 1 \<le> i" "i = 4 \<or> i \<le> 3" using ij(5) by auto
  then have r: "0x10000 \<le> c" "c < 0x110000" using lo hi ij(6-8) unfolding c' by linarith+
  have "utf8_enc c = [x, y, z, w]"
    using r(1) d e f ij base64_digits [OF ij(6), of i] base64_digits [OF ij(7), of "i * 64 + j"]
    by (simp add: utf8_enc_def)
  moreover have "scalar c" using r by (simp add: scalar_def)
  ultimately show ?thesis
    unfolding i_def [symmetric] j_def [symmetric] k_def [symmetric] l_def [symmetric] c by simp
qed

lemma utf8_chars_enc:
  "utf8_ok s \<Longrightarrow> concat (map utf8_enc (utf8_chars s)) = map unat s \<and> (\<forall>c \<in> set (utf8_chars s). scalar c)"
proof (induction s rule: utf8_ok.induct)
  case 1
  then show ?case by simp
next
  case (2 a r)
  note w = word_le_nat_alt word_less_nat_alt
  consider "a < 0x80" | "\<not> a < 0x80" "0xC2 \<le> a" "a \<le> 0xDF"
    | b r1 where "\<not> a < 0x80" "\<not> (0xC2 \<le> a \<and> a \<le> 0xDF)" "r = b # r1" "lead3_ok a b"
    | b r1 where "\<not> a < 0x80" "\<not> (0xC2 \<le> a \<and> a \<le> 0xDF)" "r = b # r1" "\<not> lead3_ok a b"
    using 2(5) by (cases r; cases "a < 0x80") auto
  then show ?case
  proof cases
    case 1
    then show ?thesis using "2.IH"(1) "2.prems" by (simp add: utf8_enc_def scalar_def w)
  next
    case c: 2
    then obtain b r1 where r: "r = b # r1" "cont_byte b" "utf8_ok r1"
      using "2.prems" by (auto split: list.splits)
    then show ?thesis
      using c "2.IH"(2) [OF c(1) r(1)] utf8_enc2 [of "unat a" "unat b"] by (simp add: cont_byte_def w)
  next
    case c: 3
    then obtain d r2 where r: "r1 = d # r2" "cont_byte d" "utf8_ok r2"
      using "2.prems" by (auto split: list.splits)
    have b: "0xE0 \<le> unat a" "unat a \<le> 0xEF" "0x80 \<le> unat b" "unat b \<le> 0xBF"
      "unat a = 0xE0 \<longrightarrow> 0xA0 \<le> unat b" "unat a = 0xED \<longrightarrow> unat b \<le> 0x9F"
      using c(4) unfolding lead3_ok_def cont_byte_def by (auto simp: w)
    then show ?thesis
      using c r "2.IH"(3) [OF c(1,3,2) r(1) c(4)] utf8_enc3 [of "unat a" "unat b" "unat d"]
      by (simp add: cont_byte_def w)
  next
    case c: 4
    then obtain d e r3 where r: "r1 = d # e # r3" "cont_byte d" "cont_byte e" "utf8_ok r3" "lead4_ok a b"
      using "2.prems" by (auto split: list.splits)
    have b: "0xF0 \<le> unat a" "unat a \<le> 0xF4" "0x80 \<le> unat b" "unat b \<le> 0xBF"
      "unat a = 0xF0 \<longrightarrow> 0x90 \<le> unat b" "unat a = 0xF4 \<longrightarrow> unat b \<le> 0x8F"
      using r(5) unfolding lead4_ok_def cont_byte_def by (auto simp: w)
    then show ?thesis
      using c r "2.IH"(4) [OF c(1,3,2) r(1) c(4) refl] utf8_enc4 [of "unat a" "unat b" "unat d" "unat e"]
      by (simp add: cont_byte_def w)
  qed
qed

definition str_ok :: "string \<Rightarrow> bool" where
  "str_ok s \<longleftrightarrow> utf8_ok (as_bytes s)"

lemma chars_inject: "str_ok s \<Longrightarrow> str_ok t \<Longrightarrow> chars s = chars t \<Longrightarrow> s = t"
proof -
  assume s: "str_ok s" "str_ok t" and eq: "chars s = chars t"
  have "map unat (as_bytes u) = concat (map utf8_enc (chars u))" if "str_ok u" for u
    unfolding chars_def by (rule conjunct1 [OF utf8_chars_enc, symmetric]) (use that in \<open>simp add: str_ok_def\<close>)
  with s eq have "map unat (as_bytes s) = map unat (as_bytes t)" by metis
  then have "as_bytes s = as_bytes t"
    by (rule map_injective) (simp add: inj_def word_unat_eq_iff)
  then show "s = t" by simp
qed

lemma chars_scalar: "str_ok s \<Longrightarrow> c \<in> set (chars s) \<Longrightarrow> scalar c"
  using utf8_chars_enc [of "as_bytes s"] by (simp add: str_ok_def chars_def)

section \<open>Escaping is a prefix code\<close>

text \<open>A reader of one escaped character.\<close>

definition of_hex4 :: "string \<Rightarrow> nat" where
  "of_hex4 s = the (hex_digit (s ! 0)) * 4096 + the (hex_digit (s ! 1)) * 256 +
     the (hex_digit (s ! 2)) * 16 + the (hex_digit (s ! 3))"

lemma of_hex4_hex4: "n < 65536 \<Longrightarrow> of_hex4 (hex4 n @ r) = n"
proof -
  assume n: "n < 65536"
  have d: "n div 256 = n div 16 div 16" "n div 4096 = n div 256 div 16"
    by (simp_all add: div_mult2_eq [symmetric])
  have "of_hex4 (hex4 n @ r) = (n div 4096) * 4096 + (n div 256 mod 16) * 256 + (n div 16 mod 16) * 16 + n mod 16"
    using n by (simp add: of_hex4_def hex4_def hex_digit_hex_char)
  also have "\<dots> = n"
    using div_mult_mod_eq [of n 16] div_mult_mod_eq [of "n div 16" 16] div_mult_mod_eq [of "n div 256" 16] d
    by linarith
  finally show ?thesis .
qed

lemma length_hex4 [simp]: "length (hex4 n) = 4"
  by (simp add: hex4_def)

definition read_escape :: "string \<Rightarrow> nat \<times> string" where
  "read_escape s =
     (if s ! 0 \<noteq> bslash then (of_char (s ! 0), drop 1 s)
      else if s ! 1 = dquote then (34, drop 2 s)
      else if s ! 1 = bslash then (92, drop 2 s)
      else if s ! 1 = CHR ''n'' then (10, drop 2 s)
      else if s ! 1 = CHR ''r'' then (13, drop 2 s)
      else if s ! 1 = CHR ''t'' then (9, drop 2 s)
      else if s ! 1 = CHR ''b'' then (8, drop 2 s)
      else if s ! 1 = CHR ''f'' then (12, drop 2 s)
      else (let u = of_hex4 (drop 2 s)
            in if 0xD800 \<le> u \<and> u < 0xDC00
               then (0x10000 + (u - 0xD800) * 1024 + (of_hex4 (drop 8 s) - 0xDC00), drop 12 s)
               else (u, drop 6 s)))"

lemma read_escape_escape:
  assumes "scalar c"
  shows "read_escape (py_escape c @ r) = (c, r)"
proof -
  have c: "c < 0x110000" using assms by (auto simp: scalar_def)
  consider "c \<in> {34, 92, 10, 13, 9, 8, 12}" | "c \<notin> {34, 92, 10, 13, 9, 8, 12}" "0x20 \<le> c" "c \<le> 0x7E"
    | "c \<notin> {34, 92, 10, 13, 9, 8, 12}" "c < 0x20 \<or> c > 0x7E" "c \<le> 0xFFFF"
    | "c \<notin> {34, 92, 10, 13, 9, 8, 12}" "c > 0xFFFF"
    by fastforce
  then show ?thesis
  proof cases
    case 1
    have "\<forall>d \<in> {34, 92, 10, 13, 9, 8, 12}. read_escape (py_escape d @ r) = (d, r)"
      by (simp add: read_escape_def py_escape_def bslash_def dquote_def)
    with 1 show ?thesis by blast
  next
    case 2
    then have "char_of c \<noteq> bslash" by (auto simp: bslash_def char_of_eq_iff take_bit_eq_mod)
    with 2 show ?thesis by (simp add: read_escape_def py_escape_def)
  next
    case 3
    then have "\<not> (0xD800 \<le> c \<and> c < 0xDC00)" using assms by (auto simp: scalar_def)
    with 3 show ?thesis by (auto simp: read_escape_def py_escape_def Let_def of_hex4_hex4 bslash_def dquote_def)
  next
    case 4
    define v where "v = c - 0x10000"
    have v: "v < 0x100000" "c = 0x10000 + v" using 4 c by (auto simp: v_def)
    have hi: "0xD800 + v div 1024 < 0xDC00" using v(1) by simp
    have "v div 1024 * 1024 + v mod 1024 = v" by simp
    then show ?thesis
      using 4 hi v(2) by (simp add: read_escape_def py_escape_def Let_def of_hex4_hex4 bslash_def dquote_def
          flip: v_def)
  qed
qed

lemma py_escape_start: "py_escape c \<noteq> [] \<and> (c < 0x110000 \<longrightarrow> hd (py_escape c) \<noteq> dquote)"
proof -
  have "char_of c \<noteq> dquote" if "c \<noteq> 34" "\<not> c < 0x20" "\<not> c > 0x7E"
    using that by (auto simp: dquote_def char_of_eq_iff take_bit_eq_mod)
  then show ?thesis by (simp add: py_escape_def Let_def bslash_def dquote_def)
qed

lemma escapes_inject:
  assumes "\<forall>c \<in> set cs. scalar c" "\<forall>d \<in> set ds. scalar d"
    and "concat (map py_escape cs) @ dquote # r = concat (map py_escape ds) @ dquote # s"
  shows "cs = ds \<and> r = s"
  using assms
proof (induction cs arbitrary: ds)
  case Nil
  show ?case
  proof (cases ds)
    case (Cons d ds')
    then have "hd (py_escape d) = dquote"
      using Nil.prems(3) py_escape_start [of d] by (auto simp: hd_append dest: arg_cong [where f = hd])
    then show ?thesis using py_escape_start [of d] Nil.prems(2) Cons by (auto simp: scalar_def)
  qed (use Nil in simp)
next
  case (Cons c cs)
  show ?case
  proof (cases ds)
    case Nil
    then have "hd (py_escape c) = dquote"
      using Cons.prems(3) py_escape_start [of c] by (auto simp: hd_append dest: arg_cong [where f = hd])
    then show ?thesis using py_escape_start [of c] Cons.prems(1) by (auto simp: scalar_def)
  next
    case ds: (Cons d ds')
    let ?x = "concat (map py_escape cs) @ dquote # r" and ?y = "concat (map py_escape ds') @ dquote # s"
    have "py_escape c @ ?x = py_escape d @ ?y" using Cons.prems(3) ds by simp
    moreover have "scalar c" "scalar d" using Cons.prems(1,2) ds by auto
    ultimately have "c = d \<and> ?x = ?y"
      using read_escape_escape [of c ?x] read_escape_escape [of d ?y] by (metis prod.inject)
    then show ?thesis using Cons.IH [of ds'] Cons.prems(1,2) ds by auto
  qed
qed

lemma write_py_string_inject:
  assumes "str_ok s" "str_ok t" "write_py_string s @ x = write_py_string t @ y"
  shows "s = t \<and> x = y"
  using escapes_inject [of "chars s" "chars t" x y] assms chars_scalar chars_inject
  by (auto simp: write_py_string_def)

section \<open>The canonical text determines the value\<close>

definition int_char :: "char \<Rightarrow> bool" where
  "int_char c \<longleftrightarrow> is_digit c \<or> c = CHR ''-''"

definition num_char :: "char \<Rightarrow> bool" where
  "num_char c \<longleftrightarrow> int_char c \<or> c = CHR ''+'' \<or> c = CHR ''.'' \<or> c = CHR ''e'' \<or> c = CHR ''E''"

text \<open>The text of a floating-point number: it has a point or an exponent, which no integer has.\<close>

definition float_text :: "string \<Rightarrow> bool" where
  "float_text t \<longleftrightarrow> t \<noteq> [] \<and> list_all num_char t \<and> \<not> list_all int_char t"

fun canon :: "json \<Rightarrow> bool" where
  "canon (JFloat t) \<longleftrightarrow> float_text t"
| "canon (JStr s) \<longleftrightarrow> str_ok s"
| "canon (JArr xs) \<longleftrightarrow> (\<forall>x \<in> set xs. canon x)"
| "canon (JObj m) \<longleftrightarrow> sorted_wrt (<) (map fst m) \<and> (\<forall>e \<in> set m. str_ok (fst e) \<and> canon (snd e))"
| "canon _ \<longleftrightarrow> True"

definition delimited :: "string \<Rightarrow> bool" where
  "delimited r \<longleftrightarrow> (case r of [] \<Rightarrow> True | c # _ \<Rightarrow> c \<in> {CHR '','', CHR '']'', CHR ''}''})"

text \<open>\<open>separates f x y\<close>: what \<open>f\<close> writes for \<open>x\<close> cannot be read as \<open>f y\<close> or as the start of it.\<close>

definition separates :: "('a \<Rightarrow> string) \<Rightarrow> 'a \<Rightarrow> 'a \<Rightarrow> bool" where
  "separates f x y \<longleftrightarrow>
     (\<forall>r s. f x @ r = f y @ s \<longrightarrow> delimited r \<longrightarrow> delimited s \<longrightarrow> x = y \<and> r = s)"

definition opens :: "string \<Rightarrow> bool" where
  "opens s \<longleftrightarrow> s \<noteq> [] \<and> hd s \<notin> {CHR '','', CHR '']'', CHR ''}''}"

lemma join_items_Cons: "join_items (x # xs) = x @ (if xs = [] then [] else '', '' @ join_items xs)"
  by (cases xs) auto

lemma join_inject:
  assumes "\<forall>x \<in> set xs. \<forall>y \<in> set ys. separates f x y"
    and "\<forall>x \<in> set xs. opens (f x)" "\<forall>y \<in> set ys. opens (f y)" "c = CHR '']'' \<or> c = CHR ''}''"
    and "join_items (map f xs) @ c # r = join_items (map f ys) @ c # s"
  shows "xs = ys \<and> r = s"
  using assms
proof (induction xs arbitrary: ys)
  case Nil
  then show ?case by (cases ys) (auto simp: join_items_Cons opens_def neq_Nil_conv)
next
  case (Cons x xs)
  show ?case
  proof (cases ys)
    case Nil
    then show ?thesis using Cons.prems by (auto simp: join_items_Cons opens_def neq_Nil_conv)
  next
    case ys: (Cons y ys')
    let ?t = "\<lambda>zs r. (if zs = [] then [] else '', '' @ join_items (map f zs)) @ c # r"
    have "f x @ ?t xs r = f y @ ?t ys' s"
      using Cons.prems(5) ys by (simp add: join_items_Cons)
    moreover have "delimited (?t zs r)" for zs r using Cons.prems(4) by (auto simp: delimited_def)
    moreover have "separates f x y" using Cons.prems(1) ys by simp
    ultimately have eq: "x = y \<and> ?t xs r = ?t ys' s" unfolding separates_def by blast
    then have "join_items (map f xs) @ c # r = join_items (map f ys') @ c # s"
      using Cons.prems(4) by (auto split: if_splits)
    with Cons.IH [of ys'] Cons.prems ys eq show ?thesis by simp
  qed
qed

lemma num_char_not:
  "\<not> num_char (CHR ''n'')" "\<not> num_char (CHR ''t'')" "\<not> num_char (CHR ''f'')" "\<not> num_char dquote"
  "\<not> num_char (CHR ''['')" "\<not> num_char (CHR ''{'')" "\<not> num_char (CHR '','')" "\<not> num_char (CHR '']'')"
  "\<not> num_char (CHR ''}'')"
  by (simp_all add: num_char_def int_char_def is_digit_def dquote_def)

lemma show_int_chars: "list_all int_char (show_int i)"
  using show_nat_digits by (auto simp: show_int_def int_char_def list_all_iff)

lemma show_int_nonempty [simp]: "show_int i \<noteq> []"
  by (simp add: show_int_def)

lemma int_char_num: "list_all int_char t \<Longrightarrow> list_all num_char t"
  by (auto simp: list_all_iff num_char_def)

lemma show_nat_inject: "show_nat m = show_nat n \<Longrightarrow> m = n"
  by (metis max.cobounded1 max.cobounded2 option.inject parse_uint_show)

lemma show_int_inject: "show_int i = show_int j \<Longrightarrow> i = j"
proof -
  have minus: "CHR ''-'' # x \<noteq> show_nat n" for x n
  proof
    assume "CHR ''-'' # x = show_nat n"
    then have "is_digit (CHR ''-'')" using show_nat_digits [of "CHR ''-''" n] by (metis list.set_intros(1))
    then show False by (simp add: is_digit_def)
  qed
  assume eq: "show_int i = show_int j"
  show "i = j"
  proof (cases "(i < 0) = (j < 0)")
    case True
    with eq have "nat (- i) = nat (- j) \<and> i < 0 \<and> j < 0 \<or> nat i = nat j \<and> 0 \<le> i \<and> 0 \<le> j"
      by (auto simp: show_int_def dest: show_nat_inject split: if_splits)
    then show ?thesis by auto
  next
    case False
    with eq minus minus [symmetric] show ?thesis by (auto simp: show_int_def split: if_splits)
  qed
qed

lemma delim_split:
  assumes "a @ r = b @ s" "list_all num_char a" "list_all num_char b" "delimited r" "delimited s"
  shows "a = b \<and> r = s"
proof -
  have tw: "takeWhile num_char (x @ y) = x" if "list_all num_char x" "delimited y" for x y
  proof -
    have "takeWhile num_char y = []"
      using that(2) by (cases y) (auto simp: delimited_def num_char_not)
    then show ?thesis using that(1) by (simp add: takeWhile_append2 list_all_iff)
  qed
  from assms tw [of a r] tw [of b s] show ?thesis by simp
qed

fun json_kind :: "json \<Rightarrow> nat" where
  "json_kind JNull = 0"
| "json_kind (JBool _) = 1"
| "json_kind (JInt _) = 2"
| "json_kind (JFloat _) = 2"
| "json_kind (JStr _) = 3"
| "json_kind (JArr _) = 4"
| "json_kind (JObj _) = 5"

definition char_kind :: "char \<Rightarrow> nat" where
  "char_kind c =
     (if c = CHR ''n'' then 0 else if c = CHR ''t'' \<or> c = CHR ''f'' then 1 else if num_char c then 2
      else if c = dquote then 3 else if c = CHR ''['' then 4 else if c = CHR ''{'' then 5 else 6)"

lemma num_kind: "list_all num_char t \<Longrightarrow> t \<noteq> [] \<Longrightarrow> char_kind (hd t) = 2"
  using num_char_not by (cases t) (auto simp: char_kind_def)

lemma write_value_kind: "canon v \<Longrightarrow> write_value v \<noteq> [] \<and> char_kind (hd (write_value v)) = json_kind v"
proof (cases v)
  case (JInt i)
  then show ?thesis using num_kind [OF int_char_num [OF show_int_chars]] by simp
next
  case (JFloat t)
  assume "canon v"
  then show ?thesis using JFloat num_kind [of t] by (simp add: float_text_def)
qed (auto simp: char_kind_def num_char_not write_py_string_def write_value.simps(7) dquote_def
      num_char_not(4) [unfolded dquote_def])

lemma char_kind_delim:
  "char_kind (CHR '','') = 6" "char_kind (CHR '']'') = 6" "char_kind (CHR ''}'') = 6"
  by (simp_all add: char_kind_def num_char_not dquote_def)

lemma write_value_opens: "canon v \<Longrightarrow> opens (write_value v)"
proof -
  assume "canon v"
  moreover have "json_kind v \<noteq> 6" by (cases v) auto
  ultimately show ?thesis using write_value_kind [of v] char_kind_delim by (auto simp: opens_def)
qed

lemma number_chars: "json_kind x = 2 \<Longrightarrow> canon x \<Longrightarrow> list_all num_char (write_value x)"
  by (cases x) (simp_all add: float_text_def int_char_num show_int_chars)

lemma numbers_separate:
  assumes "json_kind v = 2" "json_kind w = 2" "canon v" "canon w" "write_value v @ r = write_value w @ s"
    and "delimited r" "delimited s"
  shows "v = w \<and> r = s"
proof -
  have eq: "write_value v = write_value w \<and> r = s"
    using assms number_chars by (intro delim_split) auto
  consider i j where "v = JInt i" "w = JInt j" | i t where "v = JInt i" "w = JFloat t"
    | i t where "v = JFloat t" "w = JInt i" | t u where "v = JFloat t" "w = JFloat u"
    using assms(1,2) by (cases v; cases w) auto
  then show ?thesis
  proof cases
    case 1
    then show ?thesis using eq show_int_inject by simp
  next
    case 2
    then show ?thesis using eq assms(4) show_int_chars [of i] by (simp add: float_text_def)
  next
    case 3
    then show ?thesis using eq assms(3) show_int_chars [of i] by (simp add: float_text_def)
  next
    case 4
    then show ?thesis using eq by simp
  qed
qed

lemma kinds_separate: "canon v \<Longrightarrow> canon w \<Longrightarrow> json_kind v \<noteq> json_kind w \<Longrightarrow> separates write_value v w"
  unfolding separates_def by (metis write_value_kind hd_append2)

lemma scalars_separate:
  assumes "canon v" "canon w" "json_kind v = json_kind w" "json_kind v < 4"
  shows "separates write_value v w"
proof (cases "json_kind v = 2")
  case True
  then show ?thesis using assms numbers_separate [of v w] by (simp add: separates_def)
next
  case False
  then consider "v = JNull" "w = JNull" | a b where "v = JBool a" "w = JBool b"
    | s t where "v = JStr s" "w = JStr t" using assms(3,4) by (cases v; cases w) auto
  then show ?thesis
  proof cases
    case 1
    then show ?thesis by (simp add: separates_def)
  next
    case 2
    then show ?thesis by (cases a; cases b) (simp_all add: separates_def)
  next
    case 3
    show ?thesis unfolding separates_def
    proof (intro allI impI)
      fix x y
      assume "write_value v @ x = write_value w @ y"
      then have "s = t \<and> x = y"
        using 3 assms(1,2) write_py_string_inject [of s t x y] by simp
      then show "v = w \<and> x = y" using 3 by simp
    qed
  qed
qed

lemma arrays_separate:
  assumes "\<forall>x \<in> set xs. \<forall>y \<in> set ys. separates write_value x y" "\<forall>x \<in> set xs. canon x" "\<forall>y \<in> set ys. canon y"
  shows "separates write_value (JArr xs) (JArr ys)"
  unfolding separates_def
proof (intro allI impI)
  fix r s
  assume "write_value (JArr xs) @ r = write_value (JArr ys) @ s"
  then have "join_items (map write_value xs) @ CHR '']'' # r = join_items (map write_value ys) @ CHR '']'' # s"
    by simp
  then have "xs = ys \<and> r = s"
    by (intro join_inject [of xs ys write_value "CHR '']''"]) (use assms write_value_opens in auto)
  then show "JArr xs = JArr ys \<and> r = s" by simp
qed

definition write_entry :: "string \<times> json \<Rightarrow> string" where
  "write_entry e = write_py_string (fst e) @ '': '' @ write_value (snd e)"

lemma entry_separates:
  assumes "str_ok (fst e)" "str_ok (fst d)" "separates write_value (snd e) (snd d)"
  shows "separates write_entry e d"
  unfolding separates_def write_entry_def
proof (intro allI impI)
  fix r s
  assume eq: "(write_py_string (fst e) @ '': '' @ write_value (snd e)) @ r =
      (write_py_string (fst d) @ '': '' @ write_value (snd d)) @ s" and rs: "delimited r" "delimited s"
  have "fst e = fst d \<and> '': '' @ write_value (snd e) @ r = '': '' @ write_value (snd d) @ s"
    by (rule write_py_string_inject [OF assms(1,2)]) (use eq in simp)
  with assms(3) rs show "e = d \<and> r = s" by (auto simp: separates_def prod_eq_iff)
qed

lemma objects_separate:
  assumes "\<forall>e \<in> set m. \<forall>d \<in> set n. separates write_value (snd e) (snd d)" "canon (JObj m)" "canon (JObj n)"
  shows "separates write_value (JObj m) (JObj n)"
  unfolding separates_def
proof (intro allI impI)
  fix r s
  assume eq: "write_value (JObj m) @ r = write_value (JObj n) @ s"
  have sorted: "sort_key fst x = x" if "canon (JObj x)" for x :: "(string \<times> json) list"
    using that by (simp add: sort_key_id_if_sorted strict_sorted_iff)
  have "join_items (map write_entry m) @ CHR ''}'' # r = join_items (map write_entry n) @ CHR ''}'' # s"
    using eq assms(2,3) by (simp add: write_value.simps(7) sorted write_entry_def [abs_def] del: canon.simps)
  then have "m = n \<and> r = s"
    by (intro join_inject [of m n write_entry "CHR ''}''"])
      (use assms entry_separates in \<open>auto simp: write_entry_def opens_def write_py_string_def dquote_def\<close>)
  then show "JObj m = JObj n \<and> r = s" by simp
qed

lemma write_value_separates: "canon v \<Longrightarrow> canon w \<Longrightarrow> separates write_value v w"
proof (induction v arbitrary: w rule: write_value.induct)
  case (6 xs)
  show ?case
  proof (cases "json_kind w = 4")
    case True
    then obtain ys where "w = JArr ys" by (cases w) auto
    then show ?thesis using 6 arrays_separate by simp
  qed (use 6 kinds_separate in simp)
next
  case (7 m)
  show ?case
  proof (cases "json_kind w = 5")
    case True
    then obtain n where w: "w = JObj n" by (cases w) auto
    have "separates write_value (snd e) (snd d)" if "e \<in> set m" "d \<in> set n" for e d
      using 7 w that by simp
    then show ?thesis using objects_separate 7 w by blast
  qed (use 7 kinds_separate in simp)
next
  case (1 w) show ?case using 1 kinds_separate scalars_separate [of JNull w] by fastforce
next
  case (2 b w) show ?case using 2 kinds_separate scalars_separate [of "JBool b" w] by fastforce
next
  case (3 i w) show ?case using 3 kinds_separate scalars_separate [of "JInt i" w] by fastforce
next
  case (4 t w) show ?case using 4 kinds_separate scalars_separate [of "JFloat t" w] by fastforce
next
  case (5 s w) show ?case using 5 kinds_separate scalars_separate [of "JStr s" w] by fastforce
qed

lemma dumps_sorted_inject: "canon v \<Longrightarrow> canon w \<Longrightarrow> dumps_sorted v = dumps_sorted w \<Longrightarrow> v = w"
  using write_value_separates [of v w] unfolding separates_def dumps_sorted_def
  by (metis append_Nil2 delimited_def list.simps(4))

section \<open>What a signature covers\<close>

lemma canon_without_keys: "canon v \<Longrightarrow> canon (without_keys ks v)"
proof (cases v)
  case (JObj m)
  assume "canon v"
  have "sorted_wrt (<) (map fst (fold bt_remove ks m)) \<and> set (fold bt_remove ks m) \<subseteq> set m"
    if "sorted_wrt (<) (map fst m)" for m :: "(string \<times> json) list"
    using that
  proof (induction ks arbitrary: m)
    case (Cons k ks)
    have "sorted_wrt (<) (map fst (bt_remove k m))"
      using bt_inv_remove [of m k] Cons.prems by (simp add: bt_inv_def)
    then show ?case using Cons.IH [of "bt_remove k m"] by (auto simp: bt_remove_def)
  qed simp
  then show ?thesis using JObj \<open>canon v\<close> by fastforce
qed auto

lemma get_without_keys: "k \<notin> set ks \<Longrightarrow> j_get (without_keys ks v) k = j_get v k"
proof (cases v)
  case (JObj m)
  assume "k \<notin> set ks"
  then have "map_of (fold bt_remove ks m) k = map_of m k" for m :: "(string \<times> json) list"
    by (induction ks arbitrary: m) auto
  then show ?thesis using JObj by simp
qed auto

text \<open>
  The signed payload of a content.json determines everything in it but its \<open>sign\<close> and \<open>signs\<close> fields: two
  documents with the same payload agree on every other field.
\<close>

theorem signed_data_binds:
  assumes "canon v" "canon w" "signed_data v = signed_data w" "k \<noteq> ''sign''" "k \<noteq> ''signs''"
  shows "j_get v k = j_get w k"
proof -
  let ?ks = "[''sign'', ''signs'']"
  have "without_keys ?ks v = without_keys ?ks w"
    using assms(1-3) canon_without_keys dumps_sorted_inject unfolding signed_data_def by blast
  then have "j_get (without_keys ?ks v) k = j_get (without_keys ?ks w) k" by simp
  then show ?thesis using assms(4,5) get_without_keys [of k ?ks] by simp
qed

theorem signed_data_binds_witness:
  "signed_data (JObj [(''modified'', JInt 2), (''sign'', JNull)]) =
     signed_data (JObj [(''modified'', JInt 2), (''signs'', JBool True)]) \<and>
   j_get (JObj [(''modified'', JInt 2), (''sign'', JNull)]) ''modified'' =
     j_get (JObj [(''modified'', JInt 2), (''signs'', JBool True)]) ''modified''"
proof -
  let ?v = "JObj [(''modified'', JInt 2), (''sign'', JNull)]"
    and ?w = "JObj [(''modified'', JInt 2), (''signs'', JBool True)]"
  have c: "canon ?v" "canon ?w" by code_simp+
  have "signed_data ?v = signed_data ?w" by (simp add: signed_data_def bt_remove_def)
  then show ?thesis using signed_data_binds [OF c, of "''modified''"] by simp
qed

lemma record_payload_binds:
  assumes "canon v" "canon w" "record_signed_data v = record_signed_data w" "k \<noteq> ''sign''"
  shows "j_get v k = j_get w k"
  using assms canon_without_keys dumps_sorted_inject get_without_keys [of k "[''sign'']"]
  unfolding record_signed_data_def by (metis empty_iff empty_set set_ConsD)

end
