(* ===== verification/Content_Record.thy ===== *)
theory Content_Record
  imports Canonical_Json "HOL-Library.Option_ord"
begin

text \<open>
  Signed post records and their merge, after \<^verbatim>\<open>epix-content/src/record.rs\<close> and
  \<^verbatim>\<open>epix-content/src/merge.rs\<close>.  The two signature schemes of \<open>epix_crypt\<close> (\<open>ver\<close> for \<open>verify\<close>, \<open>kec\<close> for
  \<open>verify_keccak\<close>, each applied to payload, address and signature) and SHA-256 are parameters.  The
  theory shows what an accepted record is, that merging never drops a record and converges, and how
  the live view is computed from the versions of a post.
\<close>

section \<open>Records\<close>

type_synonym sig_check = "string \<Rightarrow> string \<Rightarrow> string \<Rightarrow> bool"

definition CLOCK_SKEW_BOUND_MS :: int where
  "CLOCK_SKEW_BOUND_MS = 5 * 60 * 1000"

datatype record_error =
    NotObject
  | MissingField string
  | TombstoneHasBody
  | NegativeClock
  | ClockTooFarFuture
  | UnauthorizedAuthor
  | BadSignature

text \<open>\<open>u64::from_be_bytes\<close> of the first eight bytes of the digest, shifted right by 11.\<close>

definition truncate53 :: "(bytes \<Rightarrow> bytes) \<Rightarrow> string \<Rightarrow> int" where
  "truncate53 sha256 input = int (of_le_bytes (rev (take 8 (sha256 (as_bytes input)))) div 2 ^ 11)"

definition derive_post_id :: "(bytes \<Rightarrow> bytes) \<Rightarrow> string \<Rightarrow> string \<Rightarrow> int \<Rightarrow> int" where
  "derive_post_id sha256 author nonce date_added =
     truncate53 sha256 (author @ '':'' @ nonce @ '':'' @ show_int date_added)"

definition derive_post_id_keyed :: "(bytes \<Rightarrow> bytes) \<Rightarrow> string \<Rightarrow> string \<Rightarrow> int" where
  "derive_post_id_keyed sha256 author key = truncate53 sha256 (author @ ''|'' @ key)"

definition record_sig_ok :: "sig_check \<Rightarrow> sig_check \<Rightarrow> json \<Rightarrow> string list \<Rightarrow> string \<Rightarrow> string \<Rightarrow> bool" where
  "record_sig_ok ver kec rec valid_signers author sigv =
     (let payload = record_signed_data rec;
          moderated = unwrap_or (get_bool rec ''moderated'') False;
          deleted = unwrap_or (get_bool rec ''deleted'') False
      in if moderated \<and> deleted
         then list_ex (\<lambda>s. ver payload s sigv \<or> kec payload s sigv) valid_signers
         else ver payload author sigv \<or> kec payload author sigv)"

definition verify_record :: "sig_check \<Rightarrow> sig_check \<Rightarrow> json \<Rightarrow> string list \<Rightarrow> int \<Rightarrow> record_error + unit" where
  "verify_record ver kec rec valid_signers now_ms =
     (if as_object rec = None then Inl NotObject
      else case get_str rec ''author'' of
        None \<Rightarrow> Inl (MissingField ''author'')
      | Some author \<Rightarrow> (case get_str rec ''sign'' of
        None \<Rightarrow> Inl (MissingField ''sign'')
      | Some sigv \<Rightarrow> (case get_i64 rec ''clock'' of
        None \<Rightarrow> Inl (MissingField ''clock'')
      | Some clock \<Rightarrow>
          if get_i64 rec ''post_id'' = None then Inl (MissingField ''post_id'')
          else if get_str rec ''nonce'' = None \<and> get_str rec ''key'' = None
          then Inl (MissingField ''nonce-or-key'')
          else if get_i64 rec ''date_added'' = None then Inl (MissingField ''date_added'')
          else if unwrap_or (get_bool rec ''deleted'') False \<and> unwrap_or (get_str rec ''body'') [] \<noteq> []
          then Inl TombstoneHasBody
          else if clock < 0 then Inl NegativeClock
          else if clock > i64_wrap (now_ms + CLOCK_SKEW_BOUND_MS) then Inl ClockTooFarFuture
          else if \<not> list_ex (\<lambda>s. s = author) valid_signers then Inl UnauthorizedAuthor
          else if record_sig_ok ver kec rec valid_signers author sigv then Inr ()
          else Inl BadSignature)))"

section \<open>Containers\<close>

definition RECORD_FORMAT :: string where
  "RECORD_FORMAT = ''epix-orset-1''"

definition records_of :: "json \<Rightarrow> json list" where
  "records_of container = unwrap_or (obind (j_get container ''post'') as_array) []"

definition declared_merge_files :: "json \<Rightarrow> string list" where
  "declared_merge_files content =
     unwrap_or (map_option (map fst) (obind (j_get content ''files_merged'') as_object)) []"

definition make_container :: "json list \<Rightarrow> json" where
  "make_container records = JObj [(''post'', JArr records), (''record_format'', JStr RECORD_FORMAT)]"

definition sign_of :: "json \<Rightarrow> string" where
  "sign_of r = unwrap_or (get_str r ''sign'') []"

definition post_id_of :: "json \<Rightarrow> int option" where
  "post_id_of r = get_i64 r ''post_id''"

definition clock_of :: "json \<Rightarrow> int" where
  "clock_of r = unwrap_or (get_i64 r ''clock'') 0"

definition supersedes_of :: "json \<Rightarrow> int" where
  "supersedes_of r = unwrap_or (get_i64 r ''supersedes'') 0"

definition is_deleted :: "json \<Rightarrow> bool" where
  "is_deleted r = unwrap_or (get_bool r ''deleted'') False"

definition sort_records :: "json list \<Rightarrow> json list" where
  "sort_records records = sort_key (\<lambda>r. (post_id_of r, clock_of r, sign_of r)) records"

section \<open>Merging\<close>

definition merge_orset_step :: "sig_check \<Rightarrow> sig_check \<Rightarrow> string list \<Rightarrow> int \<Rightarrow> json \<Rightarrow>
    (string \<times> json) list \<Rightarrow> (string \<times> json) list" where
  "merge_orset_step ver kec valid_signers now_ms r by_sign =
     (if \<not> is_ok (verify_record ver kec r valid_signers now_ms) then by_sign
      else if sign_of r = [] then by_sign
      else bt_upsert (sign_of r) id r by_sign)"

definition merge_orset :: "sig_check \<Rightarrow> sig_check \<Rightarrow> json \<Rightarrow> json \<Rightarrow> string list \<Rightarrow> int \<Rightarrow> json" where
  "merge_orset ver kec loc inbound valid_signers now_ms =
     make_container (sort_records (map snd
       (fold (merge_orset_step ver kec valid_signers now_ms) (records_of loc @ records_of inbound) [])))"

definition merge_local_step :: "json \<Rightarrow> (string \<times> json) list \<Rightarrow> (string \<times> json) list" where
  "merge_local_step r by_sign =
     (if sign_of r \<noteq> [] then bt_upsert (sign_of r) id r by_sign else by_sign)"

definition merge_local :: "json \<Rightarrow> json \<Rightarrow> json" where
  "merge_local loc incoming =
     make_container (sort_records (map snd
       (fold merge_local_step (records_of loc @ records_of incoming) [])))"

section \<open>The live view\<close>

definition dominates :: "json \<Rightarrow> json \<Rightarrow> bool" where
  "dominates b a \<longleftrightarrow> sign_of b \<noteq> sign_of a \<and> supersedes_of b \<ge> clock_of a"

definition frontier :: "json list \<Rightarrow> json list" where
  "frontier versions = filter (\<lambda>a. \<not> list_ex (\<lambda>b. dominates b a) versions) versions"

text \<open>\<open>Iterator::max_by\<close>: of several greatest elements the last one.\<close>

fun max_by_last :: "('a \<Rightarrow> 'k::linorder) \<Rightarrow> 'a list \<Rightarrow> 'a option" where
  "max_by_last key [] = None"
| "max_by_last key (x # xs) =
     (case max_by_last key xs of None \<Rightarrow> Some x | Some y \<Rightarrow> if key x > key y then Some x else Some y)"

definition display_key :: "json \<Rightarrow> bool \<times> int \<times> string" where
  "display_key r = (is_deleted r, clock_of r, sign_of r)"

definition display_winner :: "json list \<Rightarrow> json option" where
  "display_winner versions = max_by_last display_key (frontier versions)"

definition live_group :: "json \<Rightarrow> (int \<times> json list) list \<Rightarrow> (int \<times> json list) list" where
  "live_group r groups =
     (case post_id_of r of
        None \<Rightarrow> groups
      | Some pid \<Rightarrow> bt_upsert pid (\<lambda>vs. vs @ [r]) [r] groups)"

definition live_winner :: "json list \<Rightarrow> json list" where
  "live_winner versions =
     (case display_winner versions of
        None \<Rightarrow> []
      | Some w \<Rightarrow> if is_deleted w then [] else [w])"

definition merge_live_records :: "json \<Rightarrow> json list" where
  "merge_live_records container =
     concat (map (\<lambda>g. live_winner (snd g)) (fold live_group (records_of container) []))"

section \<open>What an accepted record is\<close>

lemma verify_record_iff:
  "verify_record ver kec rec valid_signers now_ms = Inr () \<longleftrightarrow>
     as_object rec \<noteq> None \<and>
     (\<exists>author sigv clock. get_str rec ''author'' = Some author \<and> get_str rec ''sign'' = Some sigv \<and>
        get_i64 rec ''clock'' = Some clock \<and> 0 \<le> clock \<and> clock \<le> i64_wrap (now_ms + CLOCK_SKEW_BOUND_MS) \<and>
        author \<in> set valid_signers \<and> record_sig_ok ver kec rec valid_signers author sigv) \<and>
     get_i64 rec ''post_id'' \<noteq> None \<and> get_i64 rec ''date_added'' \<noteq> None \<and>
     (get_str rec ''nonce'' \<noteq> None \<or> get_str rec ''key'' \<noteq> None) \<and>
     (is_deleted rec \<longrightarrow> unwrap_or (get_str rec ''body'') [] = [])"
proof (cases "get_str rec ''author''")
  case author: (Some author)
  show ?thesis
  proof (cases "get_str rec ''sign''")
    case sigv: (Some sigv)
    show ?thesis
      by (cases "get_i64 rec ''clock''")
        (simp_all add: verify_record_def author sigv is_deleted_def list_ex_iff not_less)
  qed (simp add: verify_record_def author)
qed (simp add: verify_record_def)

section \<open>The merge contract\<close>

lemma find_SomeD: "find P xs = Some x \<Longrightarrow> x \<in> set xs \<and> P x"
  by (auto simp: find_Some_iff)

lemma option_eqI: "(\<And>x. a = Some x \<longleftrightarrow> b = Some x) \<Longrightarrow> a = b"
  by (cases a; cases b) auto

lemma find_append: "find P (xs @ ys) = (case find P xs of None \<Rightarrow> find P ys | Some x \<Rightarrow> Some x)"
  by (induction xs) auto

lemma records_make_container [simp]: "records_of (make_container rs) = rs"
  by (simp add: records_of_def make_container_def)

lemma set_sort_records [simp]: "set (sort_records rs) = set rs"
  by (simp add: sort_records_def)

text \<open>
  Both merges of the program are instances of one contract: the records that pass \<open>keep\<close>, the first of
  each signature, in canonical order.
\<close>

locale record_union =
  fixes keep :: "json \<Rightarrow> bool"
    and merge :: "json \<Rightarrow> json \<Rightarrow> json"
    and step :: "json \<Rightarrow> (string \<times> json) list \<Rightarrow> (string \<times> json) list"
  assumes merge_eq: "merge A B = make_container (sort_records (map snd (fold step (records_of A @ records_of B) [])))"
    and step_eq: "step r m = (if keep r then bt_upsert (sign_of r) id r m else m)"
begin

definition kept :: "json \<Rightarrow> json set" where
  "kept C = {r \<in> set (records_of C). keep r}"

lemma step_inv: "bt_inv m \<Longrightarrow> bt_inv (fold step rs m)"
  by (induction rs arbitrary: m) (auto simp: step_eq)

lemma map_of_steps:
  "map_of (fold step rs m) k =
     (case map_of m k of Some v \<Rightarrow> Some v | None \<Rightarrow> find (\<lambda>r. keep r \<and> sign_of r = k) rs)"
  by (induction rs arbitrary: m) (auto simp: step_eq split: option.splits)

lemma merged_iff:
  "r \<in> set (records_of (merge A B)) \<longleftrightarrow>
     find (\<lambda>x. keep x \<and> sign_of x = sign_of r) (records_of A @ records_of B) = Some r"
proof -
  let ?m = "fold step (records_of A @ records_of B) []"
  have "r \<in> snd ` set ?m \<longleftrightarrow> (\<exists>k. map_of ?m k = Some r)"
    using bt_entry_iff [OF step_inv [OF bt_inv_Nil], of "records_of A @ records_of B"] by force
  also have "\<dots> \<longleftrightarrow> (\<exists>k. find (\<lambda>x. keep x \<and> sign_of x = k) (records_of A @ records_of B) = Some r)"
    by (simp only: map_of_steps map_of.simps option.case)
  also have "\<dots> \<longleftrightarrow> find (\<lambda>x. keep x \<and> sign_of x = sign_of r) (records_of A @ records_of B) = Some r"
    using find_SomeD by fastforce
  finally show ?thesis by (simp add: merge_eq)
qed

lemma merged_kept: "r \<in> set (records_of (merge A B)) \<Longrightarrow> r \<in> kept A \<union> kept B"
  unfolding merged_iff by (auto simp: kept_def dest!: find_SomeD)

lemma kept_merge: "kept (merge A B) = set (records_of (merge A B))"
  using merged_kept by (auto simp: kept_def)

lemma signs_distinct: "inj_on sign_of (kept (merge A B))"
  by (rule inj_onI) (simp add: kept_merge merged_iff)

lemma sign_present:
  assumes "r \<in> kept A \<union> kept B"
  shows "\<exists>x \<in> kept (merge A B). sign_of x = sign_of r"
proof -
  let ?P = "\<lambda>x. keep x \<and> sign_of x = sign_of r"
  have "find ?P (records_of A @ records_of B) \<noteq> None"
    using assms by (auto simp: find_None_iff kept_def)
  then obtain x where x: "find ?P (records_of A @ records_of B) = Some x" by blast
  then have "sign_of x = sign_of r" by (auto dest: find_SomeD)
  with x show ?thesis using merged_iff [of x A B] by (auto simp: kept_merge)
qed

lemma grow_only:
  assumes "inj_on sign_of (kept A)"
  shows "kept A \<subseteq> kept (merge A B)"
proof
  fix r
  assume r: "r \<in> kept A"
  let ?P = "\<lambda>x. keep x \<and> sign_of x = sign_of r"
  obtain x where x: "find ?P (records_of A) = Some x"
    using r by (cases "find ?P (records_of A)") (auto simp: find_None_iff kept_def)
  then have "x \<in> kept A" "sign_of x = sign_of r" by (auto simp: kept_def dest: find_SomeD)
  then have "x = r" using assms r by (auto dest: inj_onD)
  with x show "r \<in> kept (merge A B)" by (simp add: kept_merge merged_iff find_append)
qed

lemma union:
  assumes "inj_on sign_of (kept A \<union> kept B)"
  shows "kept (merge A B) = kept A \<union> kept B"
proof
  show "kept A \<union> kept B \<subseteq> kept (merge A B)"
  proof
    fix r
    assume r: "r \<in> kept A \<union> kept B"
    then obtain x where "x \<in> kept (merge A B)" "sign_of x = sign_of r" using sign_present by blast
    moreover have "x \<in> kept A \<union> kept B" using calculation(1) merged_kept kept_merge by auto
    ultimately show "r \<in> kept (merge A B)" using assms r by (auto dest: inj_onD)
  qed
qed (use merged_kept kept_merge in auto)

lemma canonical:
  assumes "inj_on sign_of (kept A \<union> kept B)" "kept A \<union> kept B = kept C \<union> kept D"
  shows "merge A B = merge C D"
proof -
  have found: "find (\<lambda>x. keep x \<and> sign_of x = k) (records_of X @ records_of Y) = Some r \<longleftrightarrow>
      r \<in> kept X \<union> kept Y \<and> sign_of r = k"
    if inj: "inj_on sign_of (kept X \<union> kept Y)" for X Y k r
  proof
    assume "find (\<lambda>x. keep x \<and> sign_of x = k) (records_of X @ records_of Y) = Some r"
    then show "r \<in> kept X \<union> kept Y \<and> sign_of r = k"
      by (auto simp: kept_def dest!: find_SomeD)
  next
    assume "r \<in> kept X \<union> kept Y \<and> sign_of r = k"
    then show "find (\<lambda>x. keep x \<and> sign_of x = k) (records_of X @ records_of Y) = Some r"
      using union [OF inj] kept_merge [of X Y] merged_iff [of r X Y] by auto
  qed
  have "fold step (records_of A @ records_of B) [] = fold step (records_of C @ records_of D) []"
  proof (rule bt_extensional)
    fix k
    have "find (\<lambda>x. keep x \<and> sign_of x = k) (records_of A @ records_of B) = Some r \<longleftrightarrow>
        find (\<lambda>x. keep x \<and> sign_of x = k) (records_of C @ records_of D) = Some r" for r
      unfolding found [OF assms(1)] found [OF assms(1) [unfolded assms(2)]] assms(2) ..
    then show "map_of (fold step (records_of A @ records_of B) []) k =
        map_of (fold step (records_of C @ records_of D) []) k"
      unfolding map_of_steps by (auto intro: option_eqI)
  qed (simp_all only: step_inv bt_inv_Nil)
  then show ?thesis by (simp add: merge_eq)
qed

end

text \<open>The instance for updates from peers keeps the verified records.\<close>

definition good_record :: "sig_check \<Rightarrow> sig_check \<Rightarrow> string list \<Rightarrow> int \<Rightarrow> json \<Rightarrow> bool" where
  "good_record ver kec valid_signers now_ms r \<longleftrightarrow>
     is_ok (verify_record ver kec r valid_signers now_ms) \<and> sign_of r \<noteq> []"

interpretation orset: record_union "good_record ver kec signers now_ms"
    "\<lambda>A B. merge_orset ver kec A B signers now_ms" "merge_orset_step ver kec signers now_ms"
  for ver kec signers now_ms
  by unfold_locales (simp_all add: merge_orset_def merge_orset_step_def good_record_def)

text \<open>The instance for the author's own writes keeps every signed record.\<close>

interpretation author: record_union "\<lambda>r. sign_of r \<noteq> []" merge_local merge_local_step
  by unfold_locales (simp_all add: merge_local_def merge_local_step_def)

definition verified_records :: "sig_check \<Rightarrow> sig_check \<Rightarrow> string list \<Rightarrow> int \<Rightarrow> json \<Rightarrow> json set" where
  "verified_records ver kec signers now_ms C = {r \<in> set (records_of C). good_record ver kec signers now_ms r}"

definition signed_records :: "json \<Rightarrow> json set" where
  "signed_records C = {r \<in> set (records_of C). sign_of r \<noteq> []}"

lemma verified_kept: "orset.kept ver kec signers now_ms C = verified_records ver kec signers now_ms C"
  by (simp add: orset.kept_def verified_records_def)

lemma signed_kept: "author.kept C = signed_records C"
  by (simp add: author.kept_def signed_records_def)

section \<open>What the merges promise\<close>

lemma foldl_merge_canonical:
  fixes merge :: "json \<Rightarrow> json \<Rightarrow> json" and kept :: "json \<Rightarrow> json set"
  assumes union: "\<And>A B. inj_on sign_of (kept A \<union> kept B) \<Longrightarrow> kept (merge A B) = kept A \<union> kept B"
    and inj: "inj_on sign_of (kept A \<union> (\<Union>C \<in> set cs. kept C))"
  shows "kept (foldl merge A cs) = kept A \<union> (\<Union>C \<in> set cs. kept C)"
  using inj
proof (induction cs arbitrary: A)
  case (Cons C cs)
  have "kept (merge A C) = kept A \<union> kept C"
    by (rule union) (rule inj_on_subset [OF Cons.prems], auto)
  then show ?case using Cons.IH [of "merge A C"] Cons.prems by (simp add: Un_assoc)
qed simp

text \<open>
  C3. Replicas converge: whatever containers two replicas start from and in whatever order and grouping
  updates reach them, if they have seen the same verified records (and a signature identifies its
  record), their merged files are identical.
\<close>

theorem merge_orset_converges:
  assumes "inj_on sign_of (\<Union>C \<in> set (A # cs). verified_records ver kec signers now_ms C)"
    and "(\<Union>C \<in> set (A # cs). verified_records ver kec signers now_ms C) =
         (\<Union>C \<in> set (B # ds). verified_records ver kec signers now_ms C)"
    and "cs \<noteq> []" "ds \<noteq> []"
  shows "foldl (\<lambda>X Y. merge_orset ver kec X Y signers now_ms) A cs =
     foldl (\<lambda>X Y. merge_orset ver kec X Y signers now_ms) B ds"
proof -
  let ?m = "\<lambda>X Y. merge_orset ver kec X Y signers now_ms"
  let ?k = "verified_records ver kec signers now_ms"
  have kept: "?k (foldl ?m X es) = ?k X \<union> (\<Union>C \<in> set es. ?k C)"
    if "inj_on sign_of (?k X \<union> (\<Union>C \<in> set es. ?k C))" for X es
    using foldl_merge_canonical [of ?k ?m X es] orset.union that by (simp add: verified_kept)
  obtain cs' C ds' D where snoc: "cs = cs' @ [C]" "ds = ds' @ [D]"
    using assms(3,4) by (metis append_butlast_last_id)
  let ?x = "foldl ?m A cs'" and ?y = "foldl ?m B ds'"
  have "?k ?x = ?k A \<union> (\<Union>C \<in> set cs'. ?k C)"
    by (intro kept inj_on_subset [OF assms(1)]) (simp add: snoc Un_upper1 sup.coboundedI2)
  then have x: "?k ?x \<union> ?k C = (\<Union>C \<in> set (A # cs). ?k C)"
    by (simp add: snoc Un_ac)
  have "?k ?y = ?k B \<union> (\<Union>C \<in> set ds'. ?k C)"
    by (intro kept inj_on_subset [OF assms(1) [unfolded assms(2)]]) (simp add: snoc Un_upper1 sup.coboundedI2)
  then have y: "?k ?y \<union> ?k D = (\<Union>C \<in> set (B # ds). ?k C)"
    by (simp add: snoc Un_ac)
  have "?m ?x C = ?m ?y D"
    by (rule orset.canonical) (use assms(1,2) x y in \<open>simp_all only: verified_kept\<close>)
  then show ?thesis by (simp add: snoc)
qed

text \<open>
  No update removes anything: once the local file has one record per signature (as every merge leaves
  it), each of its verified records is still there after merging any inbound container, and every
  verified signature on either side is represented.
\<close>

theorem merge_orset_grows:
  assumes "inj_on sign_of (verified_records ver kec signers now_ms A)"
  shows "verified_records ver kec signers now_ms A \<subseteq>
      verified_records ver kec signers now_ms (merge_orset ver kec A B signers now_ms) \<and>
    sign_of ` verified_records ver kec signers now_ms (merge_orset ver kec A B signers now_ms) =
      sign_of ` (verified_records ver kec signers now_ms A \<union> verified_records ver kec signers now_ms B) \<and>
    inj_on sign_of (verified_records ver kec signers now_ms (merge_orset ver kec A B signers now_ms))"
proof -
  let ?k = "verified_records ver kec signers now_ms"
  let ?M = "merge_orset ver kec A B signers now_ms"
  have grow: "?k A \<subseteq> ?k ?M"
    using orset.grow_only [of ver kec signers now_ms A B] assms by (simp only: verified_kept)
  have sub: "?k ?M \<subseteq> ?k A \<union> ?k B"
    using orset.merged_kept [where ver = ver and kec = kec and signers = signers and now_ms = now_ms and A = A and B = B]
      orset.kept_merge [of ver kec signers now_ms A B] by (auto simp: verified_kept)
  have "\<exists>x \<in> ?k ?M. sign_of x = sign_of r" if "r \<in> ?k A \<union> ?k B" for r
    using orset.sign_present [where ver = ver and kec = kec and signers = signers and now_ms = now_ms
        and A = A and B = B and r = r] that by (simp only: verified_kept)
  then have "sign_of ` (?k A \<union> ?k B) \<subseteq> sign_of ` ?k ?M" by (intro image_subsetI) (metis imageI)
  moreover have "inj_on sign_of (?k ?M)"
    using orset.signs_distinct [of ver kec signers now_ms A B] by (simp only: verified_kept)
  ultimately show ?thesis using grow sub by (simp add: subset_antisym image_mono)
qed

definition sample_record :: "int \<Rightarrow> string \<Rightarrow> json" where
  "sample_record c s = JObj [(''author'', JStr ''a''), (''clock'', JInt c), (''date_added'', JInt 2), (''nonce'', JStr ''n''),
     (''post_id'', JInt 7), (''sign'', JStr s)]"

lemma sample_good: "0 \<le> c \<Longrightarrow> c \<le> 9 \<Longrightarrow> s \<noteq> [] \<Longrightarrow>
   good_record (\<lambda>p a sg. sg = s) (\<lambda>_ _ _. False) [''a''] 9 (sample_record c s)"
  by (simp add: good_record_def is_ok_def verify_record_iff sample_record_def record_sig_ok_def get_str_def
      get_i64_def get_bool_def sign_of_def is_deleted_def CLOCK_SKEW_BOUND_MS_def i64_wrap_def)

theorem merge_orset_converges_witness:
  "foldl (\<lambda>X Y. merge_orset (\<lambda>p a sg. sg = ''s'') (\<lambda>_ _ _. False) X Y [''a''] 9) JNull
      [make_container [sample_record 3 ''s''], make_container []] =
   foldl (\<lambda>X Y. merge_orset (\<lambda>p a sg. sg = ''s'') (\<lambda>_ _ _. False) X Y [''a''] 9)
      (make_container [sample_record 3 ''s'']) [make_container [sample_record 3 ''s'']]"
proof -
  let ?v = "verified_records (\<lambda>p a sg. sg = ''s'') (\<lambda>_ _ _. False) [''a''] 9"
  let ?c = "make_container [sample_record 3 ''s'']"
  have v: "?v ?c = {sample_record 3 ''s''}" "?v JNull = {}" "?v (make_container []) = {}"
    using sample_good [of 3 "''s''"] by (auto simp: verified_records_def records_of_def [of JNull])
  show ?thesis by (rule merge_orset_converges) (simp_all add: v)
qed

theorem merge_orset_grows_witness:
  "sample_record 3 ''s'' \<in> verified_records (\<lambda>p a sg. sg = ''s'') (\<lambda>_ _ _. False) [''a''] 9
     (merge_orset (\<lambda>p a sg. sg = ''s'') (\<lambda>_ _ _. False) (make_container [sample_record 3 ''s'']) (make_container []) [''a''] 9)"
proof -
  let ?v = "verified_records (\<lambda>p a sg. sg = ''s'') (\<lambda>_ _ _. False) [''a''] 9"
  let ?c = "make_container [sample_record 3 ''s'']"
  have v: "?v ?c = {sample_record 3 ''s''}"
    using sample_good [of 3 "''s''"] by (auto simp: verified_records_def)
  then have "inj_on sign_of (?v ?c)" by simp
  from merge_orset_grows [OF this, of "make_container []"] v show ?thesis by simp
qed

text \<open>
  The author's own writes: merging a page's view of the file, even an empty one, into the file on disk
  loses no signed record of the disk file.
\<close>

theorem merge_local_grows:
  assumes "inj_on sign_of (signed_records A)"
  shows "signed_records A \<subseteq> signed_records (merge_local A B)"
  using author.grow_only [of A B] assms by (simp add: signed_kept)

theorem merge_local_grows_witness:
  "sample_record 3 ''s'' \<in> signed_records (merge_local (make_container [sample_record 3 ''s'']) JNull)"
proof -
  have s: "signed_records (make_container [sample_record 3 ''s'']) = {sample_record 3 ''s''}"
    by (auto simp: signed_records_def sign_of_def sample_record_def get_str_def)
  then have "inj_on sign_of (signed_records (make_container [sample_record 3 ''s'']))" by simp
  from merge_local_grows [OF this, of JNull] s show ?thesis by simp
qed

section \<open>The live view\<close>

lemma max_by_last_None: "max_by_last key xs = None \<longleftrightarrow> xs = []"
  by (cases xs) (auto split: option.splits)

lemma max_by_last_Some:
  "max_by_last key xs = Some y \<Longrightarrow> y \<in> set xs \<and> (\<forall>x \<in> set xs. key x \<le> key y)"
proof (induction xs arbitrary: y)
  case (Cons x xs)
  then show ?case
    by (cases "max_by_last key xs") (auto simp: max_by_last_None not_less split: if_splits intro: order_trans less_imp_le)
qed simp

lemma map_of_live_group:
  "map_of (fold live_group rs m) p =
     (let vs = filter (\<lambda>r. post_id_of r = Some p) rs
      in case map_of m p of None \<Rightarrow> if vs = [] then None else Some vs | Some v \<Rightarrow> Some (v @ vs))"
  by (induction rs arbitrary: m) (auto simp: live_group_def Let_def split: option.splits)

lemma live_group_inv: "bt_inv m \<Longrightarrow> bt_inv (fold live_group rs m)"
  by (induction rs arbitrary: m) (auto simp: live_group_def split: option.splits)

definition versions_of :: "json \<Rightarrow> int \<Rightarrow> json list" where
  "versions_of C p = filter (\<lambda>r. post_id_of r = Some p) (records_of C)"

text \<open>The versions of a post that no other version supersedes.\<close>

definition front_of :: "json \<Rightarrow> int \<Rightarrow> json set" where
  "front_of C p = {a \<in> set (versions_of C p). \<forall>b \<in> set (versions_of C p). \<not> dominates b a}"

lemma set_frontier: "set (frontier (versions_of C p)) = front_of C p"
  by (auto simp: frontier_def front_of_def list_ex_iff)

lemma live_group_entry:
  "(p, vs) \<in> set (fold live_group (records_of C) []) \<longleftrightarrow> vs = versions_of C p \<and> vs \<noteq> []"
  using bt_entry_iff [OF live_group_inv [OF bt_inv_Nil], of "records_of C" p vs]
  unfolding map_of_live_group by (auto simp: Let_def versions_of_def split: if_splits)

lemma live_winner_iff:
  assumes "inj_on sign_of (set (records_of C))"
  shows "w \<in> set (live_winner (versions_of C p)) \<longleftrightarrow>
     w \<in> front_of C p \<and> \<not> is_deleted w \<and> (\<forall>a \<in> front_of C p. display_key a \<le> display_key w)"
proof -
  have uniq: "a = b" if "a \<in> front_of C p" "b \<in> front_of C p" "display_key a = display_key b" for a b
    using that assms by (auto simp: front_of_def versions_of_def display_key_def dest: inj_onD)
  show ?thesis
  proof (cases "display_winner (versions_of C p)")
    case None
    then have "front_of C p = {}"
      unfolding display_winner_def max_by_last_None set_frontier [symmetric] by simp
    then show ?thesis using None by (simp add: live_winner_def)
  next
    case (Some y)
    then have "y \<in> front_of C p" "\<forall>a \<in> front_of C p. display_key a \<le> display_key y"
      using max_by_last_Some [of display_key] unfolding display_winner_def set_frontier [symmetric] by blast+
    moreover from this have "w = y" if "w \<in> front_of C p" "\<forall>a \<in> front_of C p. display_key a \<le> display_key w"
      using that uniq by (meson antisym)
    ultimately show ?thesis using Some by (auto simp: live_winner_def)
  qed
qed

lemma live_iff:
  "w \<in> set (merge_live_records C) \<longleftrightarrow> (\<exists>p. w \<in> set (live_winner (versions_of C p)) \<and> versions_of C p \<noteq> [])"
  using live_group_entry [of _ _ C] by (force simp: merge_live_records_def)

text \<open>
  The live view shows for each post exactly the greatest of its unsuperseded versions in the order
  tombstone, clock, signature, and nothing when that version is a tombstone.
\<close>

theorem live_records_spec:
  assumes "inj_on sign_of (set (records_of C))"
  shows "w \<in> set (merge_live_records C) \<longleftrightarrow>
     (\<exists>p. post_id_of w = Some p \<and> w \<in> front_of C p \<and> \<not> is_deleted w \<and>
        (\<forall>a \<in> front_of C p. display_key a \<le> display_key w))"
proof -
  have "post_id_of w = Some p" "versions_of C p \<noteq> []" if "w \<in> front_of C p" for p
    using that by (auto simp: front_of_def versions_of_def) (metis (mono_tags) empty_filter_conv)
  then show ?thesis unfolding live_iff live_winner_iff [OF assms] by blast
qed

theorem live_records_spec_witness:
  "sample_record 3 ''s'' \<in> set (merge_live_records (make_container [sample_record 3 ''s'']))"
proof -
  let ?C = "make_container [sample_record 3 ''s'']"
  have "inj_on sign_of (set (records_of ?C))" by simp
  moreover have "post_id_of (sample_record 3 ''s'') = Some 7" "\<not> is_deleted (sample_record 3 ''s'')"
    by (simp_all add: post_id_of_def is_deleted_def sample_record_def get_i64_def get_bool_def)
  moreover from this have "front_of ?C 7 = {sample_record 3 ''s''}"
    by (auto simp: front_of_def versions_of_def dominates_def)
  ultimately show ?thesis by (subst live_records_spec) auto
qed

text \<open>
  C30. What \<open>verify_record\<close> lets through: an authorized author, a clock that is not in the future by more than
  the skew, and a signature over the record by the author; only a tombstone without a body may instead
  be signed by another authorized signer, so moderation can delete and never edit.
\<close>

theorem verify_record_safe:
  assumes "verify_record ver kec rec valid_signers now_ms = Inr ()" "0 \<le> now_ms" "now_ms < 2 ^ 62"
  shows "\<exists>author sigv. get_str rec ''author'' = Some author \<and> get_str rec ''sign'' = Some sigv \<and>
     author \<in> set valid_signers \<and> 0 \<le> clock_of rec \<and> clock_of rec \<le> now_ms + 300000 \<and>
     (ver (record_signed_data rec) author sigv \<or> kec (record_signed_data rec) author sigv \<or>
      is_deleted rec \<and> unwrap_or (get_str rec ''body'') [] = [] \<and>
      (\<exists>s \<in> set valid_signers. ver (record_signed_data rec) s sigv \<or> kec (record_signed_data rec) s sigv))"
proof -
  obtain author sigv clock where r: "get_str rec ''author'' = Some author" "get_str rec ''sign'' = Some sigv"
      "get_i64 rec ''clock'' = Some clock" "0 \<le> clock" "clock \<le> i64_wrap (now_ms + CLOCK_SKEW_BOUND_MS)"
      "author \<in> set valid_signers" "record_sig_ok ver kec rec valid_signers author sigv"
      "is_deleted rec \<longrightarrow> unwrap_or (get_str rec ''body'') [] = []"
    using assms(1) unfolding verify_record_iff by blast
  have "clock \<le> now_ms + 300000"
    using r(5) assms(2,3) i64_wrap_id [of "now_ms + 300000"] by (simp add: CLOCK_SKEW_BOUND_MS_def)
  moreover have "clock_of rec = clock" using r(3) by (simp add: clock_of_def)
  ultimately show ?thesis
    using r by (auto simp: record_sig_ok_def Let_def list_ex_iff is_deleted_def split: if_splits)
qed

theorem verify_record_safe_witness:
  "\<exists>author sigv. get_str (sample_record 3 ''s'') ''author'' = Some author \<and> get_str (sample_record 3 ''s'') ''sign'' = Some sigv \<and>
     author \<in> set [''a''] \<and> clock_of (sample_record 3 ''s'') \<le> 9 + 300000"
proof -
  have "verify_record (\<lambda>p a sg. sg = ''s'') (\<lambda>_ _ _. False) (sample_record 3 ''s'') [''a''] 9 = Inr ()"
    using sample_good [of 3 "''s''"] by (auto simp: good_record_def is_ok_def)
  from verify_record_safe [OF this] show ?thesis by auto
qed

text \<open>
  Two versions that each claim to supersede the other hide the post: neither is on the frontier, so a
  post with two live versions has no winner.
\<close>

lemma mutual_supersede_hides:
  assumes "dominates a b" "dominates b a"
  shows "frontier [a, b] = [] \<and> display_winner [a, b] = None"
  using assms by (simp add: frontier_def display_winner_def)

definition sample_version :: "string \<Rightarrow> int \<Rightarrow> int \<Rightarrow> string \<Rightarrow> json" where
  "sample_version auth c sp s = JObj [(''author'', JStr auth), (''clock'', JInt c), (''date_added'', JInt 2),
     (''nonce'', JStr ''n''), (''post_id'', JInt 7), (''sign'', JStr s), (''supersedes'', JInt sp)]"

lemma mutual_supersede_example:
  "merge_live_records (make_container [sample_version ''a'' 3 9 ''s'', sample_version ''a'' 4 9 ''t'']) = []"
  by (simp add: merge_live_records_def live_group_def post_id_of_def sample_version_def get_i64_def bt_upsert_def
      live_winner_def display_winner_def frontier_def dominates_def sign_of_def get_str_def supersedes_of_def
      clock_of_def)

text \<open>
  Supersession does not look at authors: a version by another authorized author of the directory, with
  the same post id, replaces the original in the live view.
\<close>

lemma foreign_author_supersedes:
  "merge_live_records (make_container [sample_version ''a'' 3 0 ''s'', sample_version ''b'' 4 9 ''t'']) =
     [sample_version ''b'' 4 9 ''t'']"
  by (simp add: merge_live_records_def live_group_def post_id_of_def sample_version_def get_i64_def bt_upsert_def
      live_winner_def display_winner_def frontier_def dominates_def sign_of_def get_str_def supersedes_of_def
      clock_of_def is_deleted_def get_bool_def)

text \<open>Identifiers derived from a 32-byte digest are below \<open>2 ^ 53\<close>, so a JavaScript number holds them.\<close>

lemma truncate53_bound:
  assumes "\<And>b. length (sha256 b) = 32"
  shows "0 \<le> truncate53 sha256 s \<and> truncate53 sha256 s < 2 ^ 53"
proof -
  let ?n = "of_le_bytes (rev (take 8 (sha256 (as_bytes s))))"
  have "?n < 256 ^ 8" using of_le_bytes_bound [of "rev (take 8 (sha256 (as_bytes s)))"] assms by simp
  then have "?n div 2 ^ 11 < 2 ^ 53" by (simp add: less_mult_imp_div_less)
  then have "int (?n div 2 ^ 11) < int (2 ^ 53)" by (simp only: of_nat_less_iff)
  then show ?thesis by (simp add: truncate53_def)
qed

end
