(* ===== verification/Xite_Storage.thy ===== *)
theory Xite_Storage
  imports Rust_Str Rust_Std
begin

text \<open>
  The storage of one xite, after \<^verbatim>\<open>epix-xite/src/storage.rs\<close>: every file operation goes through
  \<open>path\<close>, which resolves an inner path under the xite's root and refuses one that could leave it.  A
  directory path is the list of its components.  The contents of the file system is a map from paths
  to bytes; writing and removing a file belong to the operating system and are parameters that return
  the new contents and whether the call succeeded.
\<close>

section \<open>Paths\<close>

text \<open>
  \<open>Path::components\<close> on Unix: repeated and trailing separators and inner \<open>.\<close> components are dropped, a
  leading \<open>.\<close> is kept as \<open>CurDir\<close>.
\<close>

datatype component = RootDir | CurDir | ParentDir | Normal string

definition piece_component :: "bool \<Rightarrow> string \<Rightarrow> component list" where
  "piece_component leading p =
     (if p = [] then []
      else if p = ''.'' then (if leading then [CurDir] else [])
      else if p = ''..'' then [ParentDir]
      else [Normal p])"

definition components :: "string \<Rightarrow> component list" where
  "components s =
     (let has_root = starts_with ''/'' s;
          pieces = split_on (CHR ''/'') s
      in (if has_root then [RootDir] else []) @
         piece_component (\<not> has_root) (hd pieces) @ concat (map (piece_component False) (tl pieces)))"

fun normal_name :: "component \<Rightarrow> string list" where
  "normal_name (Normal p) = [p]"
| "normal_name _ = []"

fun component_ok :: "component \<Rightarrow> bool" where
  "component_ok (Normal _) = True"
| "component_ok CurDir = True"
| "component_ok _ = False"

type_synonym dir_path = "string list"

definition path :: "dir_path \<Rightarrow> string \<Rightarrow> string + dir_path" where
  "path root inner_path =
     (if list_all component_ok (components inner_path)
      then Inr (root @ concat (map normal_name (components inner_path)))
      else Inl (''unsafe inner_path: '' @ inner_path))"

section \<open>Files\<close>

type_synonym disk_files = "dir_path \<rightharpoonup> bytes"

text \<open>What the operating system does for \<open>std::fs::write\<close> (with \<open>create_dir_all\<close>) and \<open>std::fs::remove_file\<close>.\<close>

record os =
  os_write :: "disk_files \<Rightarrow> dir_path \<Rightarrow> bytes \<Rightarrow> disk_files \<times> bool"
  os_remove :: "disk_files \<Rightarrow> dir_path \<Rightarrow> disk_files \<times> bool"

definition os_lawful :: "os \<Rightarrow> bool" where
  "os_lawful sys \<longleftrightarrow>
     (\<forall>fs p b. (snd (os_write sys fs p b) \<longrightarrow> fst (os_write sys fs p b) p = Some b) \<and>
        (\<forall>q. q \<noteq> p \<longrightarrow> fst (os_write sys fs p b) q = fs q)) \<and>
     (\<forall>fs p. (snd (os_remove sys fs p) \<longrightarrow> fst (os_remove sys fs p) p = None) \<and>
        (\<forall>q. q \<noteq> p \<longrightarrow> fst (os_remove sys fs p) q = fs q))"

definition st_exists :: "dir_path \<Rightarrow> disk_files \<Rightarrow> string \<Rightarrow> bool" where
  "st_exists root fs inner_path =
     (case path root inner_path of Inl _ \<Rightarrow> False | Inr p \<Rightarrow> fs p \<noteq> None)"

definition st_read :: "dir_path \<Rightarrow> disk_files \<Rightarrow> string \<Rightarrow> bytes option" where
  "st_read root fs inner_path = (case path root inner_path of Inl _ \<Rightarrow> None | Inr p \<Rightarrow> fs p)"

definition st_write :: "os \<Rightarrow> dir_path \<Rightarrow> disk_files \<Rightarrow> string \<Rightarrow> bytes \<Rightarrow> disk_files \<times> bool" where
  "st_write sys root fs inner_path b =
     (case path root inner_path of Inl _ \<Rightarrow> (fs, False) | Inr p \<Rightarrow> os_write sys fs p b)"

text \<open>\<open>delete\<close>; the emptied directories it prunes hold no files.\<close>

definition st_delete :: "os \<Rightarrow> dir_path \<Rightarrow> disk_files \<Rightarrow> string \<Rightarrow> disk_files \<times> bool" where
  "st_delete sys root fs inner_path =
     (case path root inner_path of Inl _ \<Rightarrow> (fs, False) | Inr p \<Rightarrow> os_remove sys fs p)"

text \<open>\<open>hash_bytes\<close>: the first 32 bytes of SHA-512, in hex; both functions are parameters.\<close>

definition hash_bytes :: "(bytes \<Rightarrow> bytes) \<Rightarrow> (bytes \<Rightarrow> string) \<Rightarrow> bytes \<Rightarrow> string" where
  "hash_bytes sha512 hex b = hex (take 32 (sha512 b))"

definition st_verify :: "(bytes \<Rightarrow> string) \<Rightarrow> dir_path \<Rightarrow> disk_files \<Rightarrow> string \<Rightarrow> string \<Rightarrow> bool" where
  "st_verify hb root fs inner_path expected =
     (case st_read root fs inner_path of None \<Rightarrow> False | Some b \<Rightarrow> hb b = expected)"

definition present_at_size :: "dir_path \<Rightarrow> disk_files \<Rightarrow> string \<Rightarrow> nat \<Rightarrow> bool" where
  "present_at_size root fs inner_path sz =
     (case st_read root fs inner_path of None \<Rightarrow> False | Some b \<Rightarrow> length b = sz)"

section \<open>No path leaves the root\<close>

definition plain_name :: "string \<Rightarrow> bool" where
  "plain_name n \<longleftrightarrow> n \<noteq> [] \<and> n \<noteq> ''.'' \<and> n \<noteq> ''..'' \<and> CHR ''/'' \<notin> set n"

lemma split_on_plain: "p \<in> set (split_on c s) \<Longrightarrow> c \<notin> set p"
proof (induction s arbitrary: p)
  case (Cons x xs)
  obtain q qs where q: "split_on c xs = q # qs" by (meson split_on_nonempty neq_Nil_conv)
  then show ?case using Cons.prems Cons.IH by (auto split: if_splits)
qed simp

lemma piece_names: "c \<in> set (piece_component b p) \<Longrightarrow> n \<in> set (normal_name c) \<Longrightarrow> CHR ''/'' \<notin> set p \<Longrightarrow> plain_name n"
  by (auto simp: piece_component_def plain_name_def split: if_splits)

lemma component_names:
  assumes "c \<in> set (components s)" "n \<in> set (normal_name c)"
  shows "plain_name n"
proof -
  have hd: "hd (split_on (CHR ''/'') s) \<in> set (split_on (CHR ''/'') s)" by simp
  from assms consider "c = RootDir" | "c \<in> set (piece_component (\<not> starts_with ''/'' s) (hd (split_on (CHR ''/'') s)))"
    | p where "p \<in> set (tl (split_on (CHR ''/'') s))" "c \<in> set (piece_component False p)"
    by (auto simp: components_def Let_def split: if_splits)
  then show ?thesis
  proof cases
    case 2
    then show ?thesis using piece_names assms(2) split_on_plain [OF hd] by blast
  next
    case 3
    then show ?thesis using piece_names assms(2) split_on_plain by (meson list.set_sel(2) split_on_nonempty)
  qed (use assms in simp)
qed

lemma path_under_root:
  assumes "path root inner_path = Inr p"
  shows "\<exists>ns. p = root @ ns \<and> list_all plain_name ns"
  using assms component_names by (auto simp: path_def list_all_iff split: if_splits)

lemma path_rejects_parent:
  assumes "''..'' \<in> set (split_on (CHR ''/'') s)"
  shows "\<exists>e. path root s = Inl e"
proof -
  have "ParentDir \<in> set (components s)"
    using assms by (cases "split_on (CHR ''/'') s") (auto simp: components_def Let_def piece_component_def)
  then show ?thesis by (force simp: path_def list_all_iff)
qed

lemma path_rejects_absolute: "starts_with ''/'' s \<Longrightarrow> \<exists>e. path root s = Inl e"
  by (auto simp: path_def components_def Let_def)

lemma path_accepts:
  assumes "\<not> starts_with ''/'' s" "''..'' \<notin> set (split_on (CHR ''/'') s)"
  shows "\<exists>p. path root s = Inr p"
proof -
  have "component_ok c" if "c \<in> set (components s)" for c
    using that assms by (cases "split_on (CHR ''/'') s")
      (auto simp: components_def Let_def piece_component_def split: if_splits)
  then show ?thesis by (auto simp: path_def list_all_iff)
qed

text \<open>
  The storage confines every access: an inner path resolves exactly when it is not absolute and has no
  parent component, and then to a path below the root whose components are plain names.
\<close>

theorem storage_path_confined:
  "case path root s of
     Inl _ \<Rightarrow> starts_with ''/'' s \<or> ''..'' \<in> set (split_on (CHR ''/'') s)
   | Inr p \<Rightarrow> \<not> starts_with ''/'' s \<and> ''..'' \<notin> set (split_on (CHR ''/'') s) \<and>
       (\<exists>ns. p = root @ ns \<and> list_all plain_name ns)"
proof (cases "path root s")
  case (Inl e)
  then show ?thesis using path_accepts [of s root] by auto
next
  case (Inr p)
  then show ?thesis
    using path_rejects_absolute [of s root] path_rejects_parent [of s root] path_under_root [OF Inr] by auto
qed

end
