(* ===== verification/Content_Verify.thy ===== *)
theory Content_Verify
  imports Content_Record Xite_Storage
begin

text \<open>
  Verification of a content.json, after \<^verbatim>\<open>epix-content/src/verify.rs\<close> and the signature helpers of
  \<^verbatim>\<open>epix-content/src/lib.rs\<close>: who may sign a file, the certificate of a user file, archived
  directories, and the rules on paths, sizes, file names and merge files.

  Third-party code is a parameter, collected in the record \<open>ext\<close>: the two signature schemes, the regex
  engine (\<open>Regex::new(p)\<close> and \<open>is_match\<close>, false for a pattern that does not compile), the JSON parser,
  and the exact value of a floating-point text.  The trait \<open>VerifyContext\<close> is the record \<open>ctx\<close>.
\<close>

section \<open>Environment\<close>

record ext =
  ex_verify :: sig_check
  ex_keccak :: sig_check
  ex_regex :: "string \<Rightarrow> string \<Rightarrow> bool"
  ex_parse :: "bytes \<Rightarrow> json option"
  ex_float :: "string \<Rightarrow> int"

record ctx =
  cx_address :: string
  cx_loaded :: "string \<Rightarrow> json option"
  cx_size_limit :: int
  cx_resolve_xid :: "string \<Rightarrow> string list"
  cx_read_file :: "string \<Rightarrow> bytes option"

text \<open>
  \<open>as_f64\<close>: every finite \<open>f64\<close> is a multiple of \<open>2 ^ -1074\<close> and is kept as that multiple.  An integer is
  rounded to 53 significant bits, ties to even.
\<close>

fun as_f64 :: "ext \<Rightarrow> json \<Rightarrow> int option" where
  "as_f64 E (JInt i) = Some (sgn i * int (round53 (nat \<bar>i\<bar>)) * 2 ^ 1074)"
| "as_f64 E (JFloat t) = Some (ex_float E t)"
| "as_f64 E _ = None"

definition get_f64 :: "ext \<Rightarrow> json \<Rightarrow> string \<Rightarrow> int option" where
  "get_f64 E v k = obind (j_get v k) (as_f64 E)"

definition get_obj :: "json \<Rightarrow> string \<Rightarrow> (string \<times> json) list option" where
  "get_obj v k = obind (j_get v k) as_object"

definition get_arr :: "json \<Rightarrow> string \<Rightarrow> json list option" where
  "get_arr v k = obind (j_get v k) as_array"

text \<open>The string entries of an array field; none when it is absent.\<close>

definition str_items :: "json \<Rightarrow> string \<Rightarrow> string list" where
  "str_items v k = (case get_arr v k of None \<Rightarrow> [] | Some xs \<Rightarrow> filter_map as_str xs)"

fun join_by :: "string \<Rightarrow> string list \<Rightarrow> string" where
  "join_by sp [] = []"
| "join_by sp [x] = x"
| "join_by sp (x # xs) = x @ sp @ join_by sp xs"

abbreviation slash :: char where
  "slash \<equiv> CHR ''/''"

section \<open>Regular expressions\<close>

definition regex_full_match :: "ext \<Rightarrow> string \<Rightarrow> string \<Rightarrow> bool" where
  "regex_full_match E pattern text = ex_regex E (''^(?:'' @ pattern @ '')$'') text"

definition regex_prefix_match :: "ext \<Rightarrow> string \<Rightarrow> string \<Rightarrow> bool" where
  "regex_prefix_match E pattern text = ex_regex E (''^(?:'' @ pattern @ '')'') text"

section \<open>Rules of a user file\<close>

text \<open>A larger number wins, a longer string wins, objects merge by key, lists append.\<close>

fun merge_rule_value :: "ext \<Rightarrow> json \<Rightarrow> json \<Rightarrow> json"
  and merge_rule_entries :: "ext \<Rightarrow> (string \<times> json) list \<Rightarrow> (string \<times> json) list \<Rightarrow> (string \<times> json) list" where
  "merge_rule_value E (JStr c) (JStr v) = (if length v > length c then JStr v else JStr c)"
| "merge_rule_value E (JObj c) (JObj v) = JObj (merge_rule_entries E c v)"
| "merge_rule_value E (JArr c) (JArr v) = JArr (c @ v)"
| "merge_rule_value E c v =
     (case (as_f64 E c, as_f64 E v) of
        (Some x, Some y) \<Rightarrow> if y > x then v else c
      | _ \<Rightarrow> c)"
| "merge_rule_entries E c [] = c"
| "merge_rule_entries E c ((k, vv) # v) =
     merge_rule_entries E
       (bt_insert k (case map_of c k of Some cv \<Rightarrow> merge_rule_value E cv vv | None \<Rightarrow> vv) c) v"

definition dirname :: "string \<Rightarrow> string" where
  "dirname p =
     (case rsplit_once slash p of
        None \<Rightarrow> []
      | Some (d, _) \<Rightarrow> dropWhile (\<lambda>c. c = slash) (d @ [slash]))"

definition user_dir_segment :: "json \<Rightarrow> string \<Rightarrow> string option" where
  "user_dir_segment parent inner_path =
     (let parent_dir = dirname (unwrap_or (get_str parent ''inner_path'') ''content.json'');
          rest = unwrap_or (strip_prefix parent_dir inner_path) inner_path;
          seg = hd (split_on slash (dropWhile (\<lambda>c. c = slash) rest))
      in if seg = [] then None else Some seg)"

definition parent_content_path :: "string \<Rightarrow> string" where
  "parent_content_path inner_path =
     (case rsplit_once slash (rev (dropWhile (\<lambda>c. c = slash) (rev (dirname inner_path)))) of
        Some (up, _) \<Rightarrow> up @ ''/content.json''
      | None \<Rightarrow> ''content.json'')"

text \<open>One entry of \<open>permission_rules\<close>; a null rule zeroes the sizes.\<close>

definition zeroed_rule :: json where
  "zeroed_rule = JObj [(''max_size'', JInt 0), (''max_size_optional'', JInt 0)]"

definition apply_permission_rule :: "ext \<Rightarrow> string \<Rightarrow> string \<times> json \<Rightarrow> (string \<times> json) list \<Rightarrow> (string \<times> json) list" where
  "apply_permission_rule E user_urn rule obj =
     (if \<not> regex_prefix_match E (fst rule) user_urn then obj
      else case as_object (if snd rule = JNull then zeroed_rule else snd rule) of
        None \<Rightarrow> obj
      | Some extra \<Rightarrow> merge_rule_entries E obj extra)"

definition user_content_rules :: "ext \<Rightarrow> json \<Rightarrow> string \<Rightarrow> json \<Rightarrow> json option" where
  "user_content_rules E parent inner_path content =
     obind (j_get parent ''user_contents'') (\<lambda>user_contents.
     obind (user_dir_segment parent inner_path) (\<lambda>user_address.
       let cert_user_id = unwrap_or (get_str content ''cert_user_id'') ''n-a'';
           cert_auth_type = unwrap_or (get_str content ''cert_auth_type'') ''n-a'';
           user_urn = cert_auth_type @ ''/'' @ cert_user_id;
           rules = (case get_obj user_contents ''permissions'' of
                      None \<Rightarrow> JObj []
                    | Some p \<Rightarrow> (case map_of p user_address of
                        Some r \<Rightarrow> r
                      | None \<Rightarrow> unwrap_or (map_of p cert_user_id) (JObj [])));
           banned = (rules = JBool False);
           obj0 = unwrap_or (as_object rules) [];
           obj1 = fold (apply_permission_rule E user_urn)
                    (unwrap_or (get_obj user_contents ''permission_rules'') []) obj0;
           obj2 = bt_insert ''cert_signers'' (unwrap_or (j_get user_contents ''cert_signers'') (JObj [])) obj1;
           obj3 = (case j_get user_contents ''cert_signers_pattern'' of
                     None \<Rightarrow> obj2
                   | Some pat \<Rightarrow> bt_insert ''cert_signers_pattern'' pat obj2);
           signers = unwrap_or (get_arr (JObj obj3) ''signers'') [];
           signers' = (if banned then signers else signers @ [JStr user_address])
       in Some (JObj (bt_insert ''includes_allowed'' (JBool False)
                  (bt_insert ''user_address'' (JStr user_address)
                    (bt_insert ''signers'' (JArr signers') obj3))))))"

section \<open>Signers\<close>

text \<open>Signer names with a dot are xID names and add the addresses they resolve to; the xite signs always.\<close>

definition complete_signers :: "ctx \<Rightarrow> string list \<Rightarrow> string list" where
  "complete_signers cx signers =
     (let all = signers @ concat (map (cx_resolve_xid cx) (filter (\<lambda>s. CHR ''.'' \<in> set s) signers))
      in if cx_address cx \<in> set all then all else all @ [cx_address cx])"

definition root_signers :: "json \<Rightarrow> ctx \<Rightarrow> string list" where
  "root_signers content cx =
     complete_signers cx (str_items (unwrap_or (cx_loaded cx ''content.json'') content) ''signers'')"

text \<open>The walk of \<open>get_rules\<close> from the file's own directory to the root.\<close>

fun rules_walk :: "ext \<Rightarrow> string \<Rightarrow> json \<Rightarrow> ctx \<Rightarrow> string list \<Rightarrow> nat list \<Rightarrow> json option" where
  "rules_walk E inner_path content cx parts [] = None"
| "rules_walk E inner_path content cx parts (depth # depths) =
     (let parent_dir = join_by ''/'' (take depth parts);
          content_inner_path = (if parent_dir = [] then ''content.json'' else parent_dir @ ''/content.json'')
      in case cx_loaded cx content_inner_path of
           None \<Rightarrow> rules_walk E inner_path content cx parts depths
         | Some parent \<Rightarrow>
             (case get_obj parent ''includes'' of
                Some includes \<Rightarrow> map_of includes (join_by ''/'' (drop depth parts))
              | None \<Rightarrow>
                  if j_get parent ''user_contents'' \<noteq> None
                  then user_content_rules E parent inner_path content
                  else rules_walk E inner_path content cx parts depths))"

definition get_rules :: "ext \<Rightarrow> string \<Rightarrow> json \<Rightarrow> ctx \<Rightarrow> json option" where
  "get_rules E inner_path content cx =
     (if inner_path = ''content.json''
      then Some (JObj [(''signers'', JArr (map JStr (root_signers content cx)))])
      else let parts = split_on slash inner_path
           in rules_walk E inner_path content cx parts (rev [0..<length parts - 1]))"

definition valid_signers :: "ext \<Rightarrow> string \<Rightarrow> json \<Rightarrow> ctx \<Rightarrow> string list" where
  "valid_signers E inner_path content cx =
     (if inner_path = ''content.json'' then root_signers content cx
      else complete_signers cx
             (case get_rules E inner_path content cx of
                None \<Rightarrow> []
              | Some rules \<Rightarrow> str_items rules ''signers''))"

definition signs_required :: "string \<Rightarrow> json \<Rightarrow> nat" where
  "signs_required inner_path content = 1"

section \<open>Certificates\<close>

definition verify_cert_sign :: "ext \<Rightarrow> string \<Rightarrow> string \<Rightarrow> string \<Rightarrow> string \<Rightarrow> string \<Rightarrow> bool" where
  "verify_cert_sign E user_address auth_type user_name issuer_address sigv =
     ex_verify E (user_address @ ''#'' @ auth_type @ ''/'' @ user_name) issuer_address sigv"

definition cert_issuers :: "ext \<Rightarrow> json \<Rightarrow> string \<Rightarrow> string list" where
  "cert_issuers E rules domain =
     (case obind (obind (j_get rules ''cert_signers'') (\<lambda>m. j_get m domain)) as_array of
        Some a \<Rightarrow> filter_map as_str a
      | None \<Rightarrow>
          (case get_str rules ''cert_signers_pattern'' of
             None \<Rightarrow> []
           | Some pat \<Rightarrow> if regex_full_match E pat domain then [domain] else []))"

definition verify_cert :: "ext \<Rightarrow> string \<Rightarrow> json \<Rightarrow> ctx \<Rightarrow> string + bool" where
  "verify_cert E inner_path content cx =
     (case get_rules E inner_path content cx of
        None \<Rightarrow> Inl ''No rules for this file''
      | Some rules \<Rightarrow>
          if unwrap_or (get_obj rules ''cert_signers'') [] = [] \<and> get_str rules ''cert_signers_pattern'' = None
          then Inr True
          else (case get_str content ''cert_user_id'' of
             None \<Rightarrow> Inl ''Missing cert_user_id''
           | Some cert_user_id \<Rightarrow>
               (if count_list cert_user_id (CHR ''@'') \<noteq> 1 then Inl ''Invalid domain in cert_user_id''
                else (case rsplit_once (CHR ''@'') cert_user_id of
                   None \<Rightarrow> Inl ''Invalid domain in cert_user_id''
                 | Some (name, domain) \<Rightarrow>
                     let issuers = cert_issuers E rules domain
                     in if issuers = [] then Inl (''Invalid cert signer: '' @ domain)
                        else if list_ex (\<lambda>i. i = ''chain'') issuers then Inr True
                        else Inr (verify_cert_sign E (unwrap_or (get_str rules ''user_address'') [])
                               (unwrap_or (get_str content ''cert_auth_type'') []) name (hd issuers)
                               (unwrap_or (get_str content ''cert_sign'') []))))))"

section \<open>Content rules\<close>

definition is_control :: "nat \<Rightarrow> bool" where
  "is_control c \<longleftrightarrow> c < 0x20 \<or> (0x7F \<le> c \<and> c < 0xA0)"

definition bad_path_char :: "nat \<Rightarrow> bool" where
  "bad_path_char c \<longleftrightarrow> is_control c \<or> c \<in> {92, 58, 42, 63, 34, 60, 62, 124}"

definition reserved_name :: "string \<Rightarrow> bool" where
  "reserved_name base \<longleftrightarrow>
     base \<in> {''CON'', ''PRN'', ''AUX'', ''NUL'', ''CONOUT$'', ''CONIN$''} \<or>
     (length base = 4 \<and> (starts_with ''COM'' base \<or> starts_with ''LPT'' base) \<and>
      is_digit (base ! 3) \<and> base ! 3 \<noteq> CHR ''0'')"

definition is_valid_relative_path :: "string \<Rightarrow> bool" where
  "is_valid_relative_path p \<longleftrightarrow>
     \<not> (p = [] \<or> starts_with ''/'' p) \<and>
     \<not> list_ex (\<lambda>segment. segment = ''..'' \<or> segment = ''.'') (split_on slash p) \<and>
     \<not> list_ex bad_path_char (chars p) \<and>
     \<not> list_ex (\<lambda>segment. reserved_name (hd (split_on (CHR ''.'') segment))) (split_on slash p)"

text \<open>The sum of the declared non-negative sizes; \<open>i64\<close> addition wraps in a release build.\<close>

definition sum_file_sizes :: "json \<Rightarrow> string \<Rightarrow> int" where
  "sum_file_sizes content node =
     (case get_obj content node of
        None \<Rightarrow> 0
      | Some files \<Rightarrow>
          foldl (\<lambda>acc s. i64_wrap (acc + s)) 0
            (filter (\<lambda>s. s \<ge> 0) (filter_map (\<lambda>e. get_i64 (snd e) ''size'') files)))"

definition obj_keys :: "json \<Rightarrow> string \<Rightarrow> string list" where
  "obj_keys v k = map fst (unwrap_or (get_obj v k) [])"

text \<open>The first error of a loop body that returns early.\<close>

fun first_err :: "('a \<Rightarrow> string option) \<Rightarrow> 'a list \<Rightarrow> string option" where
  "first_err f [] = None"
| "first_err f (x # xs) = (case f x of Some e \<Rightarrow> Some e | None \<Rightarrow> first_err f xs)"

definition fix_slashes :: "string \<Rightarrow> string" where
  "fix_slashes s = map (\<lambda>c. if c = bslash then slash else c) s"

definition check_paths :: "json \<Rightarrow> string option" where
  "check_paths content =
     first_err (\<lambda>node. first_err
       (\<lambda>p. if is_valid_relative_path p then None else Some (''Invalid relative path: '' @ p))
       (obj_keys content node)) [''files'', ''files_optional'', ''files_merged'']"

definition check_merged_not_hashed :: "json \<Rightarrow> string option" where
  "check_merged_not_hashed content =
     first_err (\<lambda>p. if list_ex (\<lambda>n. p \<in> set (obj_keys content n)) [''files'', ''files_optional'']
                     then Some (''Merge file also declared as a hashed file: '' @ p) else None)
       (obj_keys content ''files_merged'')"

definition check_allowed :: "ext \<Rightarrow> json \<Rightarrow> json \<Rightarrow> string \<Rightarrow> string \<Rightarrow> string \<Rightarrow> string option" where
  "check_allowed E rules content rule node msg =
     (case get_str rules rule of
        None \<Rightarrow> None
      | Some pat \<Rightarrow> first_err (\<lambda>p. if regex_full_match E pat p then None else Some (msg @ p))
                     (obj_keys content node))"

definition check_merge_allowed :: "json \<Rightarrow> json \<Rightarrow> string option" where
  "check_merge_allowed rules content =
     first_err (\<lambda>p. if p \<in> set (obj_keys rules ''merge_files'') then None
                     else Some (''Merge file not allowed: '' @ p))
       (obj_keys content ''files_merged'')"

definition check_item_limit :: "string \<Rightarrow> json \<Rightarrow> string \<times> json \<Rightarrow> string option" where
  "check_item_limit rel data lim =
     (case j_as_i64 (snd lim) of
        None \<Rightarrow> None
      | Some limit \<Rightarrow>
          let n = int (length (unwrap_or (get_arr data (fst lim)) []))
          in if n > limit
             then Some (''Too many items in '' @ rel @ ''.'' @ fst lim @ '': '' @ show_int n @ '' > '' @ show_int limit)
             else None)"

definition check_max_items :: "ext \<Rightarrow> string \<Rightarrow> json \<Rightarrow> json \<Rightarrow> ctx \<Rightarrow> string option" where
  "check_max_items E inner_path rules content cx =
     (case get_obj rules ''max_items'' of
        None \<Rightarrow> None
      | Some max_items \<Rightarrow>
          let dir = (case rsplit_once slash inner_path of None \<Rightarrow> [] | Some (d, _) \<Rightarrow> d @ ''/'')
          in first_err (\<lambda>rel.
               if \<not> ends_with ''data.json'' rel then None
               else case cx_read_file cx (dir @ rel) of
                 None \<Rightarrow> None
               | Some b \<Rightarrow> (case ex_parse E b of
                     None \<Rightarrow> None
                   | Some data \<Rightarrow> first_err (check_item_limit rel data) max_items))
             (obj_keys content ''files''))"

definition check_include_rules :: "ext \<Rightarrow> string \<Rightarrow> json \<Rightarrow> int \<Rightarrow> ctx \<Rightarrow> json \<Rightarrow> string option" where
  "check_include_rules E inner_path content raw_len cx rules =
     (let content_size = i64_wrap (raw_len + sum_file_sizes content ''files'');
          content_size_optional = sum_file_sizes content ''files_optional''
      in first_err id
        [case get_i64 rules ''max_size'' of
           Some mx \<Rightarrow> if content_size > mx
             then Some (''Include too large '' @ show_int content_size @ ''B > '' @ show_int mx @ ''B'') else None
         | None \<Rightarrow> None,
         case get_i64 rules ''max_size_optional'' of
           Some mx \<Rightarrow> if content_size_optional > mx
             then Some (''Include optional files too large '' @ show_int content_size_optional @ ''B > '' @ show_int mx @ ''B'')
             else None
         | None \<Rightarrow> None,
         check_allowed E rules content ''files_allowed'' ''files'' ''File not allowed: '',
         check_allowed E rules content ''files_allowed_optional'' ''files_optional'' ''Optional file not allowed: '',
         check_merge_allowed rules content,
         check_max_items E inner_path rules content cx,
         if j_get rules ''includes_allowed'' = Some (JBool False) \<and> obj_keys content ''includes'' \<noteq> []
         then Some ''Includes not allowed'' else None])"

definition verify_content_rules :: "ext \<Rightarrow> string \<Rightarrow> json \<Rightarrow> int \<Rightarrow> ctx \<Rightarrow> string + unit" where
  "verify_content_rules E inner_path content raw_len cx =
     (let bad = first_err id
        [case get_str content ''address'' of
           Some addr \<Rightarrow> if addr \<noteq> cx_address cx
             then Some (''Wrong xite address: '' @ addr @ '' != '' @ cx_address cx) else None
         | None \<Rightarrow> None,
         case get_str content ''inner_path'' of
           Some ip \<Rightarrow> if fix_slashes ip \<noteq> fix_slashes inner_path then Some (''Wrong inner_path: '' @ ip) else None
         | None \<Rightarrow> None,
         check_paths content,
         check_merged_not_hashed content]
      in case bad of
           Some e \<Rightarrow> Inl e
         | None \<Rightarrow>
             if inner_path = ''content.json'' then
               (if raw_len > cx_size_limit cx
                then Inl (''Content too large '' @ show_int raw_len @ '' B > '' @ show_int (cx_size_limit cx) @
                       '' B, aborting task...'')
                else Inr ())
             else (case get_rules E inner_path content cx of
                 None \<Rightarrow> Inl ''No rules''
               | Some rules \<Rightarrow>
                   (case check_include_rules E inner_path content raw_len cx rules of
                      Some e \<Rightarrow> Inl e
                    | None \<Rightarrow> Inr ())))"

section \<open>Archived files\<close>

definition is_archived :: "ext \<Rightarrow> string \<Rightarrow> json \<Rightarrow> ctx \<Rightarrow> bool" where
  "is_archived E inner_path content cx =
     (case obind (strip_suffix ''/content.json'' inner_path) (\<lambda>d. rsplit_once slash d) of
        None \<Rightarrow> False
      | Some (_, name) \<Rightarrow>
          (case obind (cx_loaded cx (parent_content_path inner_path)) (\<lambda>p. j_get p ''user_contents'') of
             None \<Rightarrow> False
           | Some uc \<Rightarrow>
               let modified = unwrap_or (get_f64 E content ''modified'') 0;
                   before = unwrap_or (get_f64 E uc ''archived_before'') 0;
                   dir_archived = unwrap_or (obind (obind (j_get uc ''archived'') (\<lambda>a. j_get a name)) (as_f64 E)) 0
               in modified \<le> before \<or> modified \<le> dir_archived))"

section \<open>The whole check\<close>

text \<open>The loop over the signers stops once enough signatures are valid.\<close>

fun count_signs :: "ext \<Rightarrow> string \<Rightarrow> (string \<times> json) list \<Rightarrow> nat \<Rightarrow> string list \<Rightarrow> nat \<Rightarrow> nat" where
  "count_signs E data signs required [] valid = valid"
| "count_signs E data signs required (address # rest) valid =
     (let valid' =
        (case obind (map_of signs address) as_str of
           Some sigv \<Rightarrow> if ex_verify E data address sigv \<or> ex_keccak E data address sigv then valid + 1 else valid
         | None \<Rightarrow> valid)
      in if valid' \<ge> required then valid' else count_signs E data signs required rest valid')"

definition verify_content_file :: "ext \<Rightarrow> string \<Rightarrow> json \<Rightarrow> int \<Rightarrow> ctx \<Rightarrow> string + unit" where
  "verify_content_file E inner_path content raw_len cx =
     (case get_obj content ''signs'' of
        None \<Rightarrow> Inl ''Invalid old-style sign''
      | Some signs \<Rightarrow>
          let signers = valid_signers E inner_path content cx;
              required = signs_required inner_path content
          in if inner_path = ''content.json'' \<and> length signers > 1 \<and>
                \<not> ex_verify E (show_nat required @ '':'' @ join_by '','' signers) (cx_address cx)
                     (unwrap_or (get_str content ''signers_sign'') [])
             then Inl ''Invalid signers_sign!''
             else (case (if inner_path \<noteq> ''content.json'' then verify_cert E inner_path content cx else Inr True) of
                 Inl e \<Rightarrow> Inl e
               | Inr cert_ok \<Rightarrow>
                   if \<not> cert_ok then Inl ''Invalid cert!''
                   else if inner_path \<noteq> ''content.json'' \<and> is_archived E inner_path content cx
                   then Inl ''This file is archived!''
                   else let valid = count_signs E (signed_data content) signs required signers 0
                        in if valid < required
                           then Inl (''Valid signs: '' @ show_nat valid @ ''/'' @ show_nat required)
                           else verify_content_rules E inner_path content raw_len cx))"

section \<open>Single signatures\<close>

definition verify_signer :: "ext \<Rightarrow> json \<Rightarrow> string \<Rightarrow> bool" where
  "verify_signer E content address =
     (case obind (obind (j_get content ''signs'') (\<lambda>s. j_get s address)) as_str of
        Some sigv \<Rightarrow> ex_verify E (signed_data content) address sigv
      | None \<Rightarrow> False)"

definition verify_all :: "ext \<Rightarrow> json \<Rightarrow> (string \<times> bool) list" where
  "verify_all E content =
     map (\<lambda>e. (fst e, case as_str (snd e) of Some s \<Rightarrow> ex_verify E (signed_data content) (fst e) s | None \<Rightarrow> False))
       (unwrap_or (get_obj content ''signs'') [])"

definition is_single_owner_signed :: "ext \<Rightarrow> json \<Rightarrow> string \<Rightarrow> bool" where
  "is_single_owner_signed E content xite_address \<longleftrightarrow>
     unwrap_or (get_arr content ''signers'') [] = [] \<and> verify_signer E content xite_address"

text \<open>
  \<open>sign\<close>: key derivation (\<open>addr_of\<close>, \<open>None\<close> for a malformed key) and the signing primitive are parameters.
\<close>

definition sign_content :: "(string \<Rightarrow> string option) \<Rightarrow> (string \<Rightarrow> string \<Rightarrow> string + string) \<Rightarrow> json \<Rightarrow> string \<Rightarrow>
    string + (json \<times> string)" where
  "sign_content addr_of sign_with content privatekey =
     (case addr_of privatekey of
        None \<Rightarrow> Inl ''that is not a valid private key''
      | Some address \<Rightarrow>
          (case sign_with (signed_data content) privatekey of
             Inl e \<Rightarrow> Inl e
           | Inr sigv \<Rightarrow>
               (case content of
                  JObj m \<Rightarrow> Inr (JObj (bt_insert ''signs'' (JObj [(address, JStr sigv)]) (bt_remove ''sign'' m)), sigv)
                | _ \<Rightarrow> Inl ''content is not a JSON object'')))"

section \<open>Names to resolve\<close>

definition looks_like_name :: "string \<Rightarrow> bool" where
  "looks_like_name s \<longleftrightarrow> CHR ''.'' \<in> set s \<and> CHR ''@'' \<notin> set s \<and> slash \<notin> set s"

definition rule_signer_names :: "json \<Rightarrow> string \<Rightarrow> string list" where
  "rule_signer_names uc node =
     concat (map (\<lambda>e. filter looks_like_name (str_items (snd e) ''signers'')) (unwrap_or (get_obj uc node) []))"

definition user_content_xid_names :: "json \<Rightarrow> string \<Rightarrow> string list" where
  "user_content_xid_names parent inner_path =
     remdups_adj (sort (
       (case user_dir_segment parent inner_path of
          Some dir \<Rightarrow> if looks_like_name dir then [dir] else []
        | None \<Rightarrow> []) @
       (case j_get parent ''user_contents'' of
          None \<Rightarrow> []
        | Some uc \<Rightarrow> rule_signer_names uc ''permissions'' @ rule_signer_names uc ''permission_rules'')))"

section \<open>Facts about the checks\<close>

lemma first_err_None: "first_err f xs = None \<longleftrightarrow> (\<forall>x \<in> set xs. f x = None)"
  by (induction xs) (auto split: option.splits)

lemma map_of_keys: "map_of m k \<noteq> None \<longleftrightarrow> k \<in> set (map fst m)"
  by (induction m) auto

definition signed_by :: "ext \<Rightarrow> json \<Rightarrow> string \<Rightarrow> bool" where
  "signed_by E content address \<longleftrightarrow>
     (\<exists>signs sigv. get_obj content ''signs'' = Some signs \<and> obind (map_of signs address) as_str = Some sigv \<and>
        (ex_verify E (signed_data content) address sigv \<or> ex_keccak E (signed_data content) address sigv))"

lemma count_signs_pos:
  assumes "get_obj content ''signs'' = Some signs" "0 < count_signs E (signed_data content) signs 1 xs 0"
  shows "\<exists>a \<in> set xs. signed_by E content a"
  using assms(2)
proof (induction xs)
  case (Cons a xs)
  then show ?case
  proof (cases "signed_by E content a")
    case False
    then have "(case obind (map_of signs a) as_str of
        Some sigv \<Rightarrow> if ex_verify E (signed_data content) a sigv \<or> ex_keccak E (signed_data content) a sigv
          then (0 :: nat) + 1 else 0
      | None \<Rightarrow> 0) = 0"
      using assms(1) by (auto simp: signed_by_def split: option.split)
    with Cons show ?thesis by (auto simp: Let_def)
  qed simp
qed simp

lemma verify_content_file_ok:
  assumes "verify_content_file E inner_path content raw_len cx = Inr ()"
  shows "\<exists>a \<in> set (valid_signers E inner_path content cx). signed_by E content a"
    and "verify_content_rules E inner_path content raw_len cx = Inr ()"
    and "inner_path = ''content.json'' \<Longrightarrow> length (root_signers content cx) > 1 \<Longrightarrow>
      ex_verify E (''1:'' @ join_by '','' (root_signers content cx)) (cx_address cx)
        (unwrap_or (get_str content ''signers_sign'') [])"
    and "inner_path \<noteq> ''content.json'' \<Longrightarrow> verify_cert E inner_path content cx = Inr True"
    and "inner_path \<noteq> ''content.json'' \<Longrightarrow> \<not> is_archived E inner_path content cx"
proof -
  obtain signs where s: "get_obj content ''signs'' = Some signs"
    using assms by (auto simp: verify_content_file_def split: option.splits)
  note v = assms [unfolded verify_content_file_def s, simplified]
  have one: "show_nat (Suc 0) = ''1''" by code_simp
  from v have c: "\<not> count_signs E (signed_data content) signs 1 (valid_signers E inner_path content cx) 0 < 1"
    "verify_content_rules E inner_path content raw_len cx = Inr ()"
    by (auto simp: Let_def signs_required_def split: if_splits sum.splits)
  then show "\<exists>a \<in> set (valid_signers E inner_path content cx). signed_by E content a"
    using count_signs_pos [OF s] by simp
  show "verify_content_rules E inner_path content raw_len cx = Inr ()" by (rule c(2))
  show "ex_verify E (''1:'' @ join_by '','' (root_signers content cx)) (cx_address cx)
        (unwrap_or (get_str content ''signers_sign'') [])"
    if "inner_path = ''content.json''" "length (root_signers content cx) > 1"
    using v that by (auto simp: Let_def signs_required_def valid_signers_def one split: if_splits)
  show "verify_cert E inner_path content cx = Inr True" if "inner_path \<noteq> ''content.json''"
    using v that by (auto simp: Let_def split: if_splits sum.splits)
  show "\<not> is_archived E inner_path content cx" if "inner_path \<noteq> ''content.json''"
    using v that by (auto simp: Let_def split: if_splits sum.splits)
qed

lemma verify_content_rules_ok:
  assumes "verify_content_rules E inner_path content raw_len cx = Inr ()"
  shows "check_paths content = None" "check_merged_not_hashed content = None"
    and "inner_path \<noteq> ''content.json'' \<Longrightarrow> \<exists>rules. get_rules E inner_path content cx = Some rules \<and>
      check_include_rules E inner_path content raw_len cx rules = None"
  using assms by (auto simp: verify_content_rules_def first_err_None split: option.splits if_splits)

lemma check_paths_None:
  "check_paths content = None \<longleftrightarrow>
     (\<forall>node \<in> {''files'', ''files_optional'', ''files_merged''}. \<forall>p \<in> set (obj_keys content node).
        is_valid_relative_path p)"
  unfolding check_paths_def first_err_None by auto

lemma check_include_rules_None:
  assumes "check_include_rules E inner_path content raw_len cx rules = None"
  shows "check_merge_allowed rules content = None"
    and "get_i64 rules ''max_size'' = Some mx \<Longrightarrow> i64_wrap (raw_len + sum_file_sizes content ''files'') \<le> mx"
    and "get_i64 rules ''max_size_optional'' = Some mo \<Longrightarrow> sum_file_sizes content ''files_optional'' \<le> mo"
  using assms unfolding check_include_rules_def Let_def first_err_None by (auto split: if_splits)

lemma complete_signers_cases:
  "a \<in> set (complete_signers cx xs) \<Longrightarrow>
     a = cx_address cx \<or> a \<in> set xs \<or> (\<exists>s \<in> set xs. CHR ''.'' \<in> set s \<and> a \<in> set (cx_resolve_xid cx s))"
  by (auto simp: complete_signers_def Let_def split: if_splits)

lemma complete_signers_single: "length (complete_signers cx xs) \<le> 1 \<Longrightarrow> complete_signers cx xs = [cx_address cx]"
  by (cases xs) (auto simp: complete_signers_def Let_def split: if_splits)

section \<open>What an accepted file is\<close>

text \<open>
  Authenticity of the root: an accepted root content.json is signed by the xite's own key, or by one of
  the signers of a list that the xite's key has signed.
\<close>

theorem root_content_authentic:
  assumes "verify_content_file E ''content.json'' content raw_len cx = Inr ()"
  shows "signed_by E content (cx_address cx) \<or>
    (\<exists>a \<in> set (root_signers content cx). signed_by E content a \<and>
       ex_verify E (''1:'' @ join_by '','' (root_signers content cx)) (cx_address cx)
         (unwrap_or (get_str content ''signers_sign'') []))"
proof (cases "length (root_signers content cx) > 1")
  case True
  then show ?thesis
    using verify_content_file_ok(1,3) [OF assms] by (auto simp: valid_signers_def)
next
  case False
  then have "root_signers content cx = [cx_address cx]"
    unfolding root_signers_def by (intro complete_signers_single) simp
  then show ?thesis using verify_content_file_ok(1) [OF assms] by (auto simp: valid_signers_def)
qed

definition sample_ext :: ext where
  "sample_ext = \<lparr>ex_verify = (\<lambda>d a s. s = ''ok '' @ a), ex_keccak = (\<lambda>_ _ _. False), ex_regex = (\<lambda>_ _. True),
     ex_parse = (\<lambda>_. None), ex_float = (\<lambda>_. 0)\<rparr>"

definition sample_ctx :: "(string \<Rightarrow> json option) \<Rightarrow> ctx" where
  "sample_ctx loaded = \<lparr>cx_address = ''x'', cx_loaded = loaded, cx_size_limit = 1000, cx_resolve_xid = (\<lambda>_. []),
     cx_read_file = (\<lambda>_. None)\<rparr>"

lemma sample_ctx_simps [simp]:
  "cx_address (sample_ctx l) = ''x''" "cx_loaded (sample_ctx l) = l" "cx_resolve_xid (sample_ctx l) n = []"
  by (simp_all add: sample_ctx_def)

definition sample_root :: json where
  "sample_root = JObj [(''files'', JObj [(''js/a.txt'', JObj [(''size'', JInt 5)])]), (''signs'', JObj [(''x'', JStr ''ok x'')])]"

lemma sample_root_ok: "verify_content_file sample_ext ''content.json'' sample_root 7 (sample_ctx (\<lambda>_. None)) = Inr ()"
  by code_simp

theorem root_content_authentic_witness: "signed_by sample_ext sample_root ''x''"
  using root_content_authentic [OF sample_root_ok]
  by (auto simp: sample_ctx_def root_signers_def str_items_def get_arr_def sample_root_def complete_signers_def)

text \<open>
  C10. Authenticity of every file: some valid signer has signed it; for a file below the root a valid
  signer is the xite itself, a signer its rules name, or an address the named xID resolves to.
\<close>

theorem content_authentic:
  assumes "verify_content_file E inner_path content raw_len cx = Inr ()" "inner_path \<noteq> ''content.json''"
  shows "\<exists>rules a. get_rules E inner_path content cx = Some rules \<and> signed_by E content a \<and>
     (a = cx_address cx \<or> a \<in> set (str_items rules ''signers'') \<or>
      (\<exists>s \<in> set (str_items rules ''signers''). CHR ''.'' \<in> set s \<and> a \<in> set (cx_resolve_xid cx s)))"
proof -
  obtain rules where "get_rules E inner_path content cx = Some rules"
    using verify_content_rules_ok(3) [OF verify_content_file_ok(2) [OF assms(1)] assms(2)] by blast
  moreover from this obtain a where "a \<in> set (complete_signers cx (str_items rules ''signers''))" "signed_by E content a"
    using verify_content_file_ok(1) [OF assms(1)] assms(2) by (auto simp: valid_signers_def)
  ultimately show ?thesis using complete_signers_cases by blast
qed

definition sample_users :: json where
  "sample_users = JObj [(''inner_path'', JStr ''users/content.json''), (''user_contents'', JObj [])]"

definition sample_loaded :: "string \<Rightarrow> json option" where
  "sample_loaded p = (if p = ''users/content.json'' then Some sample_users else None)"

definition sample_user :: json where
  "sample_user = JObj [(''modified'', JInt 9), (''signs'', JObj [(''bob'', JStr ''ok bob'')])]"

lemma sample_user_rules:
  "get_rules sample_ext ''users/bob/content.json'' sample_user (sample_ctx sample_loaded) =
     Some (JObj [(''cert_signers'', JObj []), (''includes_allowed'', JBool False), (''signers'', JArr [JStr ''bob'']),
       (''user_address'', JStr ''bob'')])"
  by code_simp

lemma sample_user_ok:
  "verify_content_file sample_ext ''users/bob/content.json'' sample_user 7 (sample_ctx sample_loaded) = Inr ()"
proof -
  let ?cx = "sample_ctx sample_loaded" and ?p = "''users/bob/content.json''"
  have cert: "verify_cert sample_ext ?p sample_user ?cx = Inr True"
    by (simp add: verify_cert_def sample_user_rules get_obj_def get_str_def)
  have signers: "valid_signers sample_ext ?p sample_user ?cx = [''bob'', ''x'']"
    by (simp add: valid_signers_def sample_user_rules str_items_def get_arr_def complete_signers_def)
  have d: "obind (strip_suffix ''/content.json'' ?p) (\<lambda>d. rsplit_once slash d) = Some (''users'', ''bob'')"
    "parent_content_path ?p = ''users/content.json''" by code_simp+
  have "round53 9 = 9" by (simp add: round53_def bit_len.simps)
  then have arch: "\<not> is_archived sample_ext ?p sample_user ?cx"
    by (simp add: is_archived_def d sample_loaded_def sample_users_def sample_user_def get_f64_def)
  have rules: "verify_content_rules sample_ext ?p sample_user 7 ?cx = Inr ()"
    by code_simp
  have n: "count_signs sample_ext (signed_data sample_user) [(''bob'', JStr ''ok bob'')] (Suc 0) [''bob'', ''x''] 0 = 1"
    by (simp add: sample_ext_def)
  have s: "get_obj sample_user ''signs'' = Some [(''bob'', JStr ''ok bob'')]"
    by (simp add: get_obj_def sample_user_def)
  show ?thesis
    by (simp add: verify_content_file_def s signers cert arch n rules signs_required_def del: count_signs.simps)
qed

theorem content_authentic_witness: "\<exists>a. signed_by sample_ext sample_user a"
  using content_authentic [OF sample_user_ok] by auto

section \<open>Paths of accepted files\<close>

lemma valid_relative_path_confined:
  assumes "is_valid_relative_path p"
  shows "\<exists>ns. path root p = Inr (root @ ns) \<and> list_all plain_name ns"
proof -
  have "\<not> starts_with ''/'' p" "''..'' \<notin> set (split_on slash p)"
    using assms by (auto simp: is_valid_relative_path_def list_ex_iff)
  then obtain q where "path root p = Inr q" using path_accepts by blast
  then show ?thesis using path_under_root by blast
qed

text \<open>
  C11. Every file an accepted content.json declares, in whichever section, is stored under the xite's root:
  its path resolves, and to plain names below the root.
\<close>

theorem accepted_paths_confined:
  assumes "verify_content_file E inner_path content raw_len cx = Inr ()"
    and "node \<in> {''files'', ''files_optional'', ''files_merged''}" "p \<in> set (obj_keys content node)"
  shows "\<exists>ns. path root p = Inr (root @ ns) \<and> list_all plain_name ns"
proof -
  have "check_paths content = None"
    by (rule verify_content_rules_ok(1) [OF verify_content_file_ok(2) [OF assms(1)]])
  then have "is_valid_relative_path p"
    using assms(2,3) unfolding check_paths_None by blast
  then show ?thesis by (rule valid_relative_path_confined)
qed

theorem accepted_paths_confined_witness:
  "\<exists>ns. path [''data''] ''js/a.txt'' = Inr ([''data''] @ ns) \<and> list_all plain_name ns"
  by (rule accepted_paths_confined [OF sample_root_ok, of "''files''"]) (simp_all add: obj_keys_def get_obj_def sample_root_def)

section \<open>Merge files\<close>

text \<open>
  The merge class cannot be bypassed: a merge file of an accepted content.json is nowhere declared
  with a hash, and below the root the owner's rules allow it by name.
\<close>

theorem merge_files_protected:
  assumes "verify_content_file E inner_path content raw_len cx = Inr ()" "p \<in> set (declared_merge_files content)"
  shows "p \<notin> set (obj_keys content ''files'') \<and> p \<notin> set (obj_keys content ''files_optional'') \<and>
    (inner_path = ''content.json'' \<or>
     (\<exists>rules. get_rules E inner_path content cx = Some rules \<and> p \<in> set (obj_keys rules ''merge_files'')))"
proof -
  note ok = verify_content_rules_ok [OF verify_content_file_ok(2) [OF assms(1)]]
  have p: "p \<in> set (obj_keys content ''files_merged'')"
    using assms(2) by (cases "get_obj content ''files_merged''")
      (auto simp: declared_merge_files_def obj_keys_def get_obj_def)
  have "p \<in> set (obj_keys rules ''merge_files'')"
    if "check_include_rules E inner_path content raw_len cx rules = None" for rules
    using check_include_rules_None(1) [OF that] p
    unfolding check_merge_allowed_def first_err_None by (auto split: if_splits)
  then show ?thesis
    using p ok(2,3) unfolding check_merged_not_hashed_def first_err_None by (auto split: if_splits)
qed

definition sample_merge_root :: json where
  "sample_merge_root = JObj [(''files_merged'', JObj [(''posts.json'', JNull)]), (''signs'', JObj [(''x'', JStr ''ok x'')])]"

theorem merge_files_protected_witness:
  "''posts.json'' \<notin> set (obj_keys sample_merge_root ''files'')"
proof -
  have "verify_content_file sample_ext ''content.json'' sample_merge_root 7 (sample_ctx (\<lambda>_. None)) = Inr ()"
    by code_simp
  from merge_files_protected [OF this, of "''posts.json''"] show ?thesis
    by (simp add: declared_merge_files_def sample_merge_root_def)
qed

section \<open>Rules come from above\<close>

lemma split_on_append: "split_on c (a @ c # b) = split_on c a @ split_on c b"
proof (induction a)
  case (Cons x a)
  then show ?case by (cases "split_on c a") auto
qed simp

lemma split_on_none: "c \<notin> set s \<Longrightarrow> split_on c s = [s]"
  by (induction s) auto

lemma split_join:
  assumes "\<forall>p \<in> set ps. slash \<notin> set p" "ps \<noteq> []"
  shows "split_on slash (join_by ''/'' ps) = ps"
  using assms
proof (induction ps rule: induct_list012)
  case (3 x y ps)
  then show ?case using split_on_append [of slash x "join_by ''/'' (y # ps)"] by (simp add: split_on_none)
qed (simp_all add: split_on_none)

lemma join_split: "join_by ''/'' (split_on slash s) = s"
proof (induction s)
  case (Cons x s)
  obtain p ps where "split_on slash s = p # ps" by (meson split_on_nonempty neq_Nil_conv)
  then show ?case using Cons by (cases ps) auto
qed simp

definition parent_at :: "string list \<Rightarrow> nat \<Rightarrow> string" where
  "parent_at parts k =
     (let d = join_by ''/'' (take k parts) in if d = [] then ''content.json'' else d @ ''/content.json'')"

lemma rules_walk_parent:
  "rules_walk E inner_path content cx parts (k # ks) =
     (case cx_loaded cx (parent_at parts k) of
        None \<Rightarrow> rules_walk E inner_path content cx parts ks
      | Some parent \<Rightarrow>
          (case get_obj parent ''includes'' of
             Some includes \<Rightarrow> map_of includes (join_by ''/'' (drop k parts))
           | None \<Rightarrow>
               if j_get parent ''user_contents'' \<noteq> None then user_content_rules E parent inner_path content
               else rules_walk E inner_path content cx parts ks))"
  by (simp add: parent_at_def Let_def)

lemma rules_walk_cong:
  assumes "\<And>k. k \<in> set ks \<Longrightarrow> cx_loaded cx (parent_at parts k) = cx_loaded cx' (parent_at parts k)"
  shows "rules_walk E inner_path content cx parts ks = rules_walk E inner_path content cx' parts ks"
  using assms
proof (induction ks)
  case (Cons k ks)
  have "cx_loaded cx (parent_at parts k) = cx_loaded cx' (parent_at parts k)" using Cons.prems by simp
  moreover have "rules_walk E inner_path content cx parts ks = rules_walk E inner_path content cx' parts ks"
    using Cons by simp
  ultimately show ?case unfolding rules_walk_parent by (simp only:)
qed simp

lemma parent_at_shorter:
  assumes "parts = split_on slash inner_path" "k < length parts - 1" "inner_path \<noteq> ''content.json''"
  shows "parent_at parts k \<noteq> inner_path"
proof (cases "join_by ''/'' (take k parts) = []")
  case False
  have plain: "\<forall>p \<in> set parts. slash \<notin> set p" unfolding assms(1) by (auto dest: split_on_plain)
  have "take k parts \<noteq> []" using False by (cases "take k parts") auto
  then have "split_on slash (join_by ''/'' (take k parts)) = take k parts"
    using plain by (intro split_join) (auto dest: in_set_takeD)
  then have "split_on slash (join_by ''/'' (take k parts) @ slash # ''content.json'') = take k parts @ [''content.json'']"
    by (simp add: split_on_append split_on_none)
  then have "length (split_on slash (parent_at parts k)) = Suc k"
    using False assms(2) by (simp add: parent_at_def)
  then show ?thesis using assms(1,2) by auto
qed (use assms in \<open>simp add: parent_at_def\<close>)

text \<open>
  A file cannot grant itself rules: the rules of a file below the root do not depend on a content.json
  stored under its own path.
\<close>

theorem rules_not_from_self:
  assumes "inner_path \<noteq> ''content.json''"
  shows "get_rules E inner_path content (cx\<lparr>cx_loaded := (cx_loaded cx)(inner_path := c)\<rparr>) =
    get_rules E inner_path content cx"
proof -
  let ?ps = "split_on slash inner_path"
  have "rules_walk E inner_path content (cx\<lparr>cx_loaded := (cx_loaded cx)(inner_path := c)\<rparr>) ?ps (rev [0..<length ?ps - 1]) =
    rules_walk E inner_path content cx ?ps (rev [0..<length ?ps - 1])"
    by (rule rules_walk_cong) (use parent_at_shorter [OF refl] assms in auto)
  then show ?thesis using assms by (simp add: get_rules_def Let_def)
qed

theorem rules_not_from_self_witness:
  "get_rules sample_ext ''users/bob/content.json'' sample_user
     ((sample_ctx sample_loaded)\<lparr>cx_loaded := (sample_loaded)(''users/bob/content.json'' := Some sample_users)\<rparr>) =
   get_rules sample_ext ''users/bob/content.json'' sample_user (sample_ctx sample_loaded)"
  using rules_not_from_self [of "''users/bob/content.json''" sample_ext sample_user "sample_ctx sample_loaded"] by simp

section \<open>Size limits\<close>

definition declared_sizes :: "json \<Rightarrow> string \<Rightarrow> int list" where
  "declared_sizes content node =
     filter (\<lambda>s. s \<ge> 0) (filter_map (\<lambda>e. get_i64 (snd e) ''size'') (unwrap_or (get_obj content node) []))"

lemma foldl_wrap_sum:
  assumes "\<forall>s \<in> set xs. 0 \<le> s" "0 \<le> a" "a + sum_list xs < 2 ^ 63"
  shows "foldl (\<lambda>acc s. i64_wrap (acc + s)) a xs = a + sum_list xs"
  using assms
proof (induction xs arbitrary: a)
  case (Cons x xs)
  have "0 \<le> sum_list xs" using Cons.prems(1) by (intro sum_list_nonneg) simp
  then have "i64_wrap (a + x) = a + x" using Cons.prems by (intro i64_wrap_id) auto
  then show ?case using Cons by simp
qed simp

lemma sum_file_sizes_exact:
  assumes "sum_list (declared_sizes content node) < 2 ^ 63"
  shows "sum_file_sizes content node = sum_list (declared_sizes content node)"
proof (cases "get_obj content node")
  case (Some files)
  then show ?thesis
    using foldl_wrap_sum [of "declared_sizes content node" 0] assms
    by (simp add: sum_file_sizes_def declared_sizes_def)
qed (simp add: sum_file_sizes_def declared_sizes_def)

text \<open>
  The quota holds when the declared sizes do not overflow: an accepted include is no larger than its
  \<open>max_size\<close>, its own length included.
\<close>

theorem include_size_bounded:
  assumes "verify_content_file E inner_path content raw_len cx = Inr ()" "inner_path \<noteq> ''content.json''"
    and "get_rules E inner_path content cx = Some rules" "get_i64 rules ''max_size'' = Some mx"
    and "0 \<le> raw_len" "raw_len + sum_list (declared_sizes content ''files'') < 2 ^ 63"
  shows "raw_len + sum_list (declared_sizes content ''files'') \<le> mx"
proof -
  have nn: "0 \<le> sum_list (declared_sizes content ''files'')"
    by (intro sum_list_nonneg) (simp add: declared_sizes_def)
  have "check_include_rules E inner_path content raw_len cx rules = None"
    using verify_content_rules_ok(3) [OF verify_content_file_ok(2) [OF assms(1)] assms(2)] assms(3) by auto
  from check_include_rules_None(2) [OF this assms(4)]
  have "i64_wrap (raw_len + sum_file_sizes content ''files'') \<le> mx" .
  then show ?thesis using sum_file_sizes_exact [of content "''files''"] assms(5,6) nn i64_wrap_id by simp
qed

text \<open>Sizes that overflow defeat the quota: two declared files of more than 9 exabytes pass a limit of 10 bytes.\<close>

lemma size_overflow:
  "sum_file_sizes (JObj [(''files'', JObj [(''a'', JObj [(''size'', JInt (2 ^ 63 - 1))]),
     (''b'', JObj [(''size'', JInt (2 ^ 63 - 1))])])]) ''files'' = - 2"
  by (simp add: sum_file_sizes_def get_obj_def get_i64_def i64_wrap_def)

definition quota_users :: json where
  "quota_users = JObj [(''inner_path'', JStr ''users/content.json''),
     (''user_contents'', JObj [(''permissions'', JObj [(''bob'', JObj [(''max_size'', JInt 90)])])])]"

definition quota_loaded :: "string \<Rightarrow> json option" where
  "quota_loaded p = (if p = ''users/content.json'' then Some quota_users else None)"

definition quota_file :: json where
  "quota_file = JObj [(''files'', JObj [(''a.txt'', JObj [(''size'', JInt 80)])]), (''modified'', JFloat ''9.5''),
     (''signs'', JObj [(''bob'', JStr ''ok bob'')])]"

definition quota_ext :: ext where
  "quota_ext = sample_ext\<lparr>ex_float := (\<lambda>_. 9)\<rparr>"

theorem include_size_bounded_witness: "7 + sum_list (declared_sizes quota_file ''files'') \<le> 90"
proof -
  let ?cx = "sample_ctx quota_loaded" and ?p = "''users/bob/content.json''"
  let ?rules = "JObj [(''cert_signers'', JObj []), (''includes_allowed'', JBool False), (''max_size'', JInt 90),
     (''signers'', JArr [JStr ''bob'']), (''user_address'', JStr ''bob'')]"
  have ok: "verify_content_file quota_ext ?p quota_file 7 ?cx = Inr ()" by code_simp
  have rules: "get_rules quota_ext ?p quota_file ?cx = Some ?rules" by code_simp
  have mx: "get_i64 ?rules ''max_size'' = Some 90" by (simp add: get_i64_def)
  show ?thesis
    by (rule include_size_bounded [OF ok _ rules mx])
      (simp_all add: declared_sizes_def get_obj_def get_i64_def quota_file_def)
qed

section \<open>Banned users\<close>

lemma get_bt_insert: "j_get (JObj (bt_insert k v m)) k' = (if k' = k then Some v else j_get (JObj m) k')"
  by simp

text \<open>
  A ban holds: for a user directory whose permission is \<open>false\<close>, with no permission rules, the rules name
  no signer, so only the xite's own key can sign there.
\<close>

theorem banned_user_rules:
  assumes "user_content_rules E parent inner_path content = Some rules"
    and "j_get parent ''user_contents'' = Some uc" "user_dir_segment parent inner_path = Some user"
    and "get_obj uc ''permissions'' = Some perms" "map_of perms user = Some (JBool False)"
    and "get_obj uc ''permission_rules'' = None"
  shows "complete_signers cx (str_items rules ''signers'') = [cx_address cx]"
proof -
  have "j_get rules ''signers'' = Some (JArr [])"
    using assms(1) unfolding user_content_rules_def
    by (auto simp: assms(2-6) Let_def get_arr_def split: option.splits)
  then show ?thesis by (simp add: str_items_def get_arr_def complete_signers_def)
qed

theorem banned_user_rules_witness:
  "complete_signers (sample_ctx (\<lambda>_. None)) (str_items (JObj [(''cert_signers'', JObj []), (''includes_allowed'', JBool False),
     (''signers'', JArr []), (''user_address'', JStr ''bob'')]) ''signers'') = [''x'']"
proof -
  let ?uc = "JObj [(''permissions'', JObj [(''bob'', JBool False)])]"
  let ?parent = "JObj [(''inner_path'', JStr ''users/content.json''), (''user_contents'', ?uc)]"
  have r: "user_content_rules sample_ext ?parent ''users/bob/content.json'' (JObj []) =
    Some (JObj [(''cert_signers'', JObj []), (''includes_allowed'', JBool False), (''signers'', JArr []),
      (''user_address'', JStr ''bob'')])" by code_simp
  have d: "user_dir_segment ?parent ''users/bob/content.json'' = Some ''bob''" by code_simp
  show ?thesis
    using banned_user_rules [OF r _ d, of ?uc "[(''bob'', JBool False)]" "sample_ctx (\<lambda>_. None)"]
    by (simp add: get_obj_def)
qed

section \<open>Signing\<close>

lemma bt_remove_twice: "bt_inv m \<Longrightarrow> bt_remove k (bt_remove l m) = bt_remove l (bt_remove k m)"
  by (rule bt_extensional) (auto simp: fun_eq_iff)

text \<open>
  What the owner signs verifies: for a signing primitive whose signatures its verifier accepts, the
  signed document keeps its payload and carries a valid signature of the key's address.
\<close>

theorem sign_content_verifies:
  assumes "\<And>d k a s. addr_of k = Some a \<Longrightarrow> sign_with d k = Inr s \<Longrightarrow> ex_verify E d a s"
    and "json_ok content" "sign_content addr_of sign_with content privatekey = Inr (content', s)"
  shows "signed_data content' = signed_data content \<and>
    (\<exists>a. addr_of privatekey = Some a \<and> verify_signer E content' a)"
proof -
  obtain a m where a: "addr_of privatekey = Some a" "sign_with (signed_data content) privatekey = Inr s"
    and m: "content = JObj m" "content' = JObj (bt_insert ''signs'' (JObj [(a, JStr s)]) (bt_remove ''sign'' m))"
    using assms(3) by (auto simp: sign_content_def split: option.splits sum.splits json.splits)
  have inv: "bt_inv m" using assms(2) m(1) by (simp add: bt_inv_def)
  have "bt_remove ''signs'' (bt_remove ''sign'' (bt_insert ''signs'' (JObj [(a, JStr s)]) (bt_remove ''sign'' m))) =
      bt_remove ''signs'' (bt_remove ''sign'' m)"
    by (rule bt_extensional) (use inv in auto)
  then have same: "signed_data content' = signed_data content" by (simp add: signed_data_def m)
  moreover have "verify_signer E content' a"
    using assms(1) [OF a] same by (simp add: verify_signer_def m(2))
  ultimately show ?thesis using a(1) by blast
qed

theorem sign_content_verifies_witness:
  "\<exists>a. Some ''x'' = Some a \<and> verify_signer sample_ext (JObj [(''modified'', JInt 9), (''signs'', JObj [(''x'', JStr ''ok x'')])]) a"
proof -
  have "sign_content (\<lambda>_. Some ''x'') (\<lambda>_ _. Inr ''ok x'') (JObj [(''modified'', JInt 9)]) ''key'' =
    Inr (JObj [(''modified'', JInt 9), (''signs'', JObj [(''x'', JStr ''ok x'')])], ''ok x'')"
    by (simp add: sign_content_def bt_remove_def)
  from sign_content_verifies [OF _ _ this, of sample_ext] show ?thesis by (simp add: sample_ext_def)
qed

end
