(* ===== verification/Content_Diff.thy ===== *)
theory Content_Diff
  imports Json Rust_Str "HOL-Library.Sublist"
begin

text \<open>
  Line diffs of published files, after \<^verbatim>\<open>epix-content/src/diff.rs\<close>, and the byte-exact encoding the
  update push carries them in (\<open>encode_actions\<close> and \<open>decode_actions\<close> of \<^verbatim>\<open>epix-runtime/src/edx.rs\<close>).
  Lines are kept with their line ends, so all lengths are byte counts of the file.  The theory shows
  that a diff always patches the old file to the new one, that it inserts as few lines as any line
  diff can, when the size limit refuses it, and that both wire forms give it back.
\<close>

section \<open>Actions and their JSON form\<close>

datatype diff_action =
    DEqual nat
  | DRemove nat
  | DInsert "bytes list"

definition lossy_str :: "bytes \<Rightarrow> string" where
  "lossy_str l = str_of_bytes (utf8_lossy l)"

fun action_to_value :: "diff_action \<Rightarrow> json" where
  "action_to_value (DEqual n) = JArr [JStr ''='', JInt (int n)]"
| "action_to_value (DRemove n) = JArr [JStr ''-'', JInt (int n)]"
| "action_to_value (DInsert lines) =
     JArr [JStr ''+'', JArr (map (\<lambda>l. JStr (lossy_str l)) lines)]"

definition arr_get :: "'a list \<Rightarrow> nat \<Rightarrow> 'a option" where
  "arr_get xs i = (if i < length xs then Some (xs ! i) else None)"

fun insert_line :: "json \<Rightarrow> bytes" where
  "insert_line (JStr s) = as_bytes s"
| "insert_line _ = []"

definition action_from_value :: "json \<Rightarrow> diff_action option" where
  "action_from_value v =
     obind (as_array v) (\<lambda>arr.
     obind (obind (arr_get arr 0) as_str) (\<lambda>tag.
       if tag = ''='' then obind (obind (arr_get arr 1) j_as_u64) (\<lambda>n. Some (DEqual n))
       else if tag = ''-'' then obind (obind (arr_get arr 1) j_as_u64) (\<lambda>n. Some (DRemove n))
       else if tag = ''+'' then
         obind (obind (arr_get arr 1) as_array) (\<lambda>ls. Some (DInsert (map insert_line ls)))
       else None))"

text \<open>\<open>iter().map(f).collect::<Option<Vec<_>>>()\<close>.\<close>

fun collect_opt :: "('a \<Rightarrow> 'b option) \<Rightarrow> 'a list \<Rightarrow> 'b list option" where
  "collect_opt f [] = Some []"
| "collect_opt f (x # xs) = obind (f x) (\<lambda>y. obind (collect_opt f xs) (\<lambda>ys. Some (y # ys)))"

definition actions_from_value :: "json \<Rightarrow> diff_action list option" where
  "actions_from_value v = obind (as_array v) (collect_opt action_from_value)"

definition actions_to_value :: "diff_action list \<Rightarrow> json" where
  "actions_to_value actions = JArr (map action_to_value actions)"

section \<open>Lines\<close>

definition newline :: u8 where
  "newline = 10"

definition split_step :: "bytes \<Rightarrow> nat \<Rightarrow> bytes list \<times> nat \<Rightarrow> bytes list \<times> nat" where
  "split_step data i st =
     (case st of (lines, start) \<Rightarrow>
        if data ! i = newline
        then (lines @ [take (Suc i - start) (drop start data)], i + 1)
        else (lines, start))"

definition split_keepends :: "bytes \<Rightarrow> bytes list" where
  "split_keepends data =
     (case fold (split_step data) [0..<length data] ([], 0) of
        (lines, start) \<Rightarrow>
          if start < length data then lines @ [drop start data] else lines)"

section \<open>The table of common subsequences\<close>

definition lcs_cell :: "bytes list \<Rightarrow> bytes list \<Rightarrow> nat list list \<Rightarrow> nat \<Rightarrow> nat \<Rightarrow> nat" where
  "lcs_cell old_lines new_lines t i j =
     (if old_lines ! i = new_lines ! j then u32_add (t ! (i + 1) ! (j + 1)) 1
      else max (t ! (i + 1) ! j) (t ! i ! (j + 1)))"

definition lcs_set :: "bytes list \<Rightarrow> bytes list \<Rightarrow> nat \<Rightarrow> nat \<Rightarrow> nat list list \<Rightarrow> nat list list" where
  "lcs_set old_lines new_lines i j t = t[i := (t ! i)[j := lcs_cell old_lines new_lines t i j]]"

definition lcs_row :: "bytes list \<Rightarrow> bytes list \<Rightarrow> nat \<Rightarrow> nat list list \<Rightarrow> nat list list" where
  "lcs_row old_lines new_lines i t =
     fold (lcs_set old_lines new_lines i) (rev [0..<length new_lines]) t"

definition lcs_table :: "bytes list \<Rightarrow> bytes list \<Rightarrow> nat list list" where
  "lcs_table old_lines new_lines =
     fold (lcs_row old_lines new_lines) (rev [0..<length old_lines])
       (replicate (length old_lines + 1) (replicate (length new_lines + 1) 0))"

section \<open>Emitting actions\<close>

definition push_equal :: "diff_action list \<Rightarrow> nat \<Rightarrow> diff_action list" where
  "push_equal actions b =
     (if b = 0 then actions
      else if actions = [] then [DEqual b]
      else case last actions of
        DEqual n \<Rightarrow> butlast actions @ [DEqual (n + b)]
      | _ \<Rightarrow> actions @ [DEqual b])"

definition push_remove :: "diff_action list \<Rightarrow> nat \<Rightarrow> diff_action list" where
  "push_remove actions b =
     (if b = 0 then actions
      else if actions = [] then [DRemove b]
      else case last actions of
        DRemove n \<Rightarrow> butlast actions @ [DRemove (n + b)]
      | _ \<Rightarrow> actions @ [DRemove b])"

definition push_insert :: "diff_action list \<Rightarrow> bytes \<Rightarrow> diff_action list" where
  "push_insert actions line =
     (if actions = [] then [DInsert [line]]
      else case last actions of
        DInsert lines \<Rightarrow> butlast actions @ [DInsert (lines @ [line])]
      | _ \<Rightarrow> actions @ [DInsert [line]])"

text \<open>\<open>limit.is_some_and(|l| inserted_size > l)\<close>.\<close>

definition over_limit :: "nat option \<Rightarrow> nat \<Rightarrow> bool" where
  "over_limit limit n \<longleftrightarrow> (case limit of None \<Rightarrow> False | Some l \<Rightarrow> n > l)"

section \<open>The walk\<close>

text \<open>The two closing loops: what is left of the old file is removed, what is left of the new is added.\<close>

fun diff_removes :: "bytes list \<Rightarrow> diff_action list \<Rightarrow> diff_action list" where
  "diff_removes [] actions = actions"
| "diff_removes (l # ls) actions = diff_removes ls (push_remove actions (length l))"

fun diff_inserts :: "nat option \<Rightarrow> bytes list \<Rightarrow> diff_action list \<Rightarrow> nat \<Rightarrow> diff_action list option" where
  "diff_inserts limit [] actions sz = Some actions"
| "diff_inserts limit (l # ls) actions sz =
     (let sz' = sz + length l
      in if over_limit limit sz' then None
         else diff_inserts limit ls (push_insert actions l) sz')"

function diff_walk :: "nat option \<Rightarrow> bytes list \<Rightarrow> bytes list \<Rightarrow> nat list list \<Rightarrow> nat \<Rightarrow> nat \<Rightarrow>
    diff_action list \<Rightarrow> nat \<Rightarrow> diff_action list option" where
  "diff_walk limit old_lines new_lines t i j actions sz =
     (if i < length old_lines \<and> j < length new_lines then
        if old_lines ! i = new_lines ! j then
          diff_walk limit old_lines new_lines t (i + 1) (j + 1)
            (push_equal actions (length (old_lines ! i))) sz
        else if t ! (i + 1) ! j \<ge> t ! i ! (j + 1) then
          diff_walk limit old_lines new_lines t (i + 1) j
            (push_remove actions (length (old_lines ! i))) sz
        else
          (let sz' = sz + length (new_lines ! j)
           in if over_limit limit sz' then None
              else diff_walk limit old_lines new_lines t i (j + 1)
                     (push_insert actions (new_lines ! j)) sz')
      else diff_inserts limit (drop j new_lines) (diff_removes (drop i old_lines) actions) sz)"
  by pat_completeness auto
termination
  by (relation "measure (\<lambda>(limit, old_lines, new_lines, t, i, j, actions, sz).
        (length old_lines - i) + (length new_lines - j))") auto

declare diff_walk.simps [simp del]

definition diff :: "bytes \<Rightarrow> bytes \<Rightarrow> nat option \<Rightarrow> diff_action list option" where
  "diff old new limit =
     (let old_lines = split_keepends old; new_lines = split_keepends new
      in diff_walk limit old_lines new_lines (lcs_table old_lines new_lines) 0 0 [] 0)"

section \<open>Patching\<close>

definition diff_end :: "bytes \<Rightarrow> nat \<Rightarrow> nat \<Rightarrow> nat option" where
  "diff_end old cursor n = obind (checked_add cursor n) (\<lambda>e. if e \<le> length old then Some e else None)"

fun patch_loop :: "bytes \<Rightarrow> diff_action list \<Rightarrow> nat \<Rightarrow> bytes \<Rightarrow> string + nat \<times> bytes" where
  "patch_loop old [] cursor out = Inr (cursor, out)"
| "patch_loop old (DEqual n # actions) cursor out =
     (case diff_end old cursor n of
        None \<Rightarrow> Inl ''diff: equal past end''
      | Some e \<Rightarrow> patch_loop old actions e (out @ take (e - cursor) (drop cursor old)))"
| "patch_loop old (DRemove n # actions) cursor out =
     (case diff_end old cursor n of
        None \<Rightarrow> Inl ''diff: remove past end''
      | Some e \<Rightarrow> patch_loop old actions e out)"
| "patch_loop old (DInsert lines # actions) cursor out = patch_loop old actions cursor (out @ concat lines)"

definition patch :: "bytes \<Rightarrow> diff_action list \<Rightarrow> string + bytes" where
  "patch old actions = map_sum id snd (patch_loop old actions 0 [])"

section \<open>The byte-exact wire form\<close>

fun encode_action :: "diff_action \<Rightarrow> bytes" where
  "encode_action (DEqual n) = 0 # le64 (as_u64 n)"
| "encode_action (DRemove n) = 1 # le64 (as_u64 n)"
| "encode_action (DInsert lines) =
     2 # le64 (as_u64 (length lines)) @ concat (map (\<lambda>l. le64 (as_u64 (length l)) @ l) lines)"

definition encode_actions :: "diff_action list \<Rightarrow> bytes" where
  "encode_actions actions = le64 (as_u64 (length actions)) @ concat (map encode_action actions)"

text \<open>\<open>b.get(i..e)\<close>: the bytes of the range, unless it is reversed or runs past the end.\<close>

definition get_range :: "bytes \<Rightarrow> nat \<Rightarrow> nat \<Rightarrow> bytes option" where
  "get_range b i e = (if i \<le> e \<and> e \<le> length b then Some (take (e - i) (drop i b)) else None)"

definition read_u64 :: "bytes \<Rightarrow> nat \<Rightarrow> (nat \<times> nat) option" where
  "read_u64 b i =
     obind (checked_add i 8) (\<lambda>e. obind (get_range b i e) (\<lambda>s. Some (of_le_bytes s, e)))"

text \<open>\<open>for _ in 0..k { xs.push(read(b, &mut i)?) }\<close>.\<close>

fun dec_many :: "(bytes \<Rightarrow> nat \<Rightarrow> ('a \<times> nat) option) \<Rightarrow> bytes \<Rightarrow> nat \<Rightarrow> nat \<Rightarrow> ('a list \<times> nat) option" where
  "dec_many rd b 0 i = Some ([], i)"
| "dec_many rd b (Suc k) i =
     obind (rd b i) (\<lambda>(x, i1). obind (dec_many rd b k i1) (\<lambda>(xs, i2). Some (x # xs, i2)))"

definition decode_line :: "bytes \<Rightarrow> nat \<Rightarrow> (bytes \<times> nat) option" where
  "decode_line b i =
     obind (read_u64 b i) (\<lambda>(len, i1).
     obind (checked_add i1 len) (\<lambda>e.
     obind (get_range b i1 e) (\<lambda>l. Some (l, e))))"

definition decode_action :: "bytes \<Rightarrow> nat \<Rightarrow> (diff_action \<times> nat) option" where
  "decode_action b i =
     obind (arr_get b i) (\<lambda>tag.
       let i1 = i + 1 in
       if tag = 0 then obind (read_u64 b i1) (\<lambda>(n, i2). Some (DEqual n, i2))
       else if tag = 1 then obind (read_u64 b i1) (\<lambda>(n, i2). Some (DRemove n, i2))
       else if tag = 2 then
         obind (read_u64 b i1) (\<lambda>(lines_n, i2).
         obind (dec_many decode_line b lines_n i2) (\<lambda>(ls, i3). Some (DInsert ls, i3)))
       else None)"

definition decode_actions :: "bytes \<Rightarrow> diff_action list option" where
  "decode_actions b =
     obind (read_u64 b 0) (\<lambda>(n, i). obind (dec_many decode_action b n i) (\<lambda>(as, _). Some as))"

section \<open>Splitting keeps the bytes\<close>

lemma split_fold:
  assumes "k \<le> length data"
  shows "case fold (split_step data) [0..<k] ([], 0) of (lines, start) \<Rightarrow>
    start \<le> k \<and> concat lines = take start data \<and> [] \<notin> set lines"
  using assms
proof (induction k)
  case 0
  then show ?case by simp
next
  case (Suc k)
  obtain lines start where st: "fold (split_step data) [0..<k] ([], 0) = (lines, start)" by fastforce
  then have inv: "start \<le> k" "concat lines = take start data" "[] \<notin> set lines" using Suc by auto
  have "take start data @ take (Suc k - start) (drop start data) = take (Suc k) data"
    using inv(1) by (metis le_SucI le_add_diff_inverse take_add)
  moreover have "fold (split_step data) [0..<Suc k] ([], 0) = split_step data k (lines, start)"
    using st by simp
  ultimately show ?case using inv Suc.prems unfolding split_step_def by auto
qed

lemma concat_split_keepends [simp]: "concat (split_keepends data) = data"
  using split_fold [of "length data" data] by (auto simp: split_keepends_def split: prod.splits)

lemma split_keepends_nonempty: "[] \<notin> set (split_keepends data)"
  using split_fold [of "length data" data] by (auto simp: split_keepends_def split: prod.splits)

section \<open>A diff patches the old file to the new one\<close>

lemma patch_loop_append:
  "patch_loop old (as @ bs) c out =
     (case patch_loop old as c out of Inl e \<Rightarrow> Inl e | Inr (c', out') \<Rightarrow> patch_loop old bs c' out')"
  by (induction old as c out rule: patch_loop.induct) (auto split: option.splits)

lemma diff_end_eq: "c + n \<le> length old \<Longrightarrow> length old \<le> u64_max \<Longrightarrow> diff_end old c n = Some (c + n)"
  by (simp add: diff_end_def checked_add_def)

lemma diff_end_Some: "diff_end old c n = Some e \<Longrightarrow> e = c + n \<and> c + n \<le> length old"
  by (auto simp: diff_end_def checked_add_def bind_eq_Some_conv split: if_splits)

text \<open>The last action, once it has been extended, does the work of both.\<close>

lemma patch_push_equal:
  assumes "patch_loop old as 0 [] = Inr (c, out)" "c + b \<le> length old" "length old \<le> u64_max"
  shows "patch_loop old (push_equal as b) 0 [] = Inr (c + b, out @ take b (drop c old))"
proof (cases "b = 0 \<or> as = [] \<or> (\<forall>n. last as \<noteq> DEqual n)")
  case True
  then show ?thesis using assms
    by (auto simp: push_equal_def patch_loop_append diff_end_eq split: diff_action.split)
next
  case False
  then obtain n where n: "b \<noteq> 0" "as = butlast as @ [DEqual n]" "last as = DEqual n"
    by (metis append_butlast_last_id)
  then obtain c0 out0 where p: "patch_loop old (butlast as) 0 [] = Inr (c0, out0)"
      and q: "patch_loop old [DEqual n] c0 out0 = Inr (c, out)"
    using assms(1) patch_loop_append [of old "butlast as" "[DEqual n]"] by (auto split: sum.splits)
  then have c: "c = c0 + n" "out = out0 @ take n (drop c0 old)"
    by (auto split: option.splits dest: diff_end_Some)
  have push: "push_equal as b = butlast as @ [DEqual (n + b)]"
    using n False by (auto simp: push_equal_def split: diff_action.split)
  have "take n (drop c0 old) @ take b (drop (c0 + n) old) = take (n + b) (drop c0 old)"
    unfolding take_add by (simp add: add.commute)
  then show ?thesis using assms p c by (simp add: push patch_loop_append diff_end_eq add.assoc)
qed

lemma patch_push_remove:
  assumes "patch_loop old as 0 [] = Inr (c, out)" "c + b \<le> length old" "length old \<le> u64_max"
  shows "patch_loop old (push_remove as b) 0 [] = Inr (c + b, out)"
proof (cases "b = 0 \<or> as = [] \<or> (\<forall>n. last as \<noteq> DRemove n)")
  case True
  then show ?thesis using assms
    by (auto simp: push_remove_def patch_loop_append diff_end_eq split: diff_action.split)
next
  case False
  then obtain n where n: "b \<noteq> 0" "as = butlast as @ [DRemove n]" "last as = DRemove n"
    by (metis append_butlast_last_id)
  then obtain c0 out0 where p: "patch_loop old (butlast as) 0 [] = Inr (c0, out0)"
      and q: "patch_loop old [DRemove n] c0 out0 = Inr (c, out)"
    using assms(1) patch_loop_append [of old "butlast as" "[DRemove n]"] by (auto split: sum.splits)
  then have c: "c = c0 + n" "out = out0"
    by (auto split: option.splits dest: diff_end_Some)
  have push: "push_remove as b = butlast as @ [DRemove (n + b)]"
    using n False by (auto simp: push_remove_def split: diff_action.split)
  show ?thesis using assms p c by (simp add: push patch_loop_append diff_end_eq add.assoc)
qed

lemma patch_push_insert:
  assumes "patch_loop old as 0 [] = Inr (c, out)"
  shows "patch_loop old (push_insert as l) 0 [] = Inr (c, out @ l)"
proof (cases "as = [] \<or> (\<forall>n. last as \<noteq> DInsert n)")
  case True
  then show ?thesis using assms
    by (auto simp: push_insert_def patch_loop_append split: diff_action.split)
next
  case False
  then obtain n where n: "as = butlast as @ [DInsert n]" "last as = DInsert n"
    by (metis append_butlast_last_id)
  then obtain c0 out0 where p: "patch_loop old (butlast as) 0 [] = Inr (c0, out0)"
      and q: "patch_loop old [DInsert n] c0 out0 = Inr (c, out)"
    using assms(1) patch_loop_append [of old "butlast as" "[DInsert n]"] by (auto split: sum.splits)
  have push: "push_insert as l = butlast as @ [DInsert (n @ [l])]"
    using n False by (auto simp: push_insert_def split: diff_action.split)
  show ?thesis using p q by (simp add: push patch_loop_append)
qed

text \<open>\<open>built old ols nls i j acts\<close>: the actions so far consume the first \<open>i\<close> old and give the first \<open>j\<close> new lines.\<close>

definition built :: "bytes list \<Rightarrow> bytes list \<Rightarrow> nat \<Rightarrow> nat \<Rightarrow> diff_action list \<Rightarrow> bool" where
  "built ols nls i j acts \<longleftrightarrow>
     patch_loop (concat ols) acts 0 [] = Inr (length (concat (take i ols)), concat (take j nls))"

lemma take_line: "i < length ls \<Longrightarrow> take (length (ls ! i)) (drop (length (concat (take i ls))) (concat ls)) = ls ! i"
proof -
  assume i: "i < length ls"
  have "concat ls = concat (take i ls) @ ls ! i @ concat (drop (Suc i) ls)"
    by (metis append_take_drop_id concat.simps(2) concat_append Cons_nth_drop_Suc i)
  then show ?thesis by (metis append_eq_conv_conj append.assoc)
qed

lemma line_end:
  assumes "i < length ls"
  shows "length (concat (take i ls)) + length (ls ! i) = length (concat (take (Suc i) ls))"
    and "length (concat (take i ls)) \<le> length (concat ls)"
proof -
  show "length (concat (take i ls)) + length (ls ! i) = length (concat (take (Suc i) ls))"
    using assms by (simp add: take_Suc_conv_app_nth)
  show "length (concat (take i ls)) \<le> length (concat ls)"
    by (metis append_take_drop_id concat_append le_add1 length_append)
qed

lemma line_prefix: "length (concat (take i ls)) \<le> length (concat ls)"
  by (metis append_take_drop_id concat_append le_add1 length_append)

lemma built_steps:
  assumes "built ols nls i j acts" "length (concat ols) \<le> u64_max"
  shows "i < length ols \<Longrightarrow> j < length nls \<Longrightarrow> ols ! i = nls ! j \<Longrightarrow>
      built ols nls (Suc i) (Suc j) (push_equal acts (length (ols ! i)))"
    and "i < length ols \<Longrightarrow> built ols nls (Suc i) j (push_remove acts (length (ols ! i)))"
    and "j < length nls \<Longrightarrow> built ols nls i (Suc j) (push_insert acts (nls ! j))"
proof -
  have le: "length (concat (take i ols)) + length (ols ! i) \<le> length (concat ols)" if "i < length ols"
    using line_end(1) [OF that] line_prefix [of "Suc i" ols] by simp
  show "built ols nls (Suc i) (Suc j) (push_equal acts (length (ols ! i)))"
    if "i < length ols" "j < length nls" "ols ! i = nls ! j"
    using patch_push_equal [OF assms(1) [unfolded built_def] le [OF that(1)] assms(2)] that
      take_line [OF that(1)]
    by (simp add: built_def take_Suc_conv_app_nth)
  show "built ols nls (Suc i) j (push_remove acts (length (ols ! i)))" if "i < length ols"
    using patch_push_remove [OF assms(1) [unfolded built_def] le [OF that] assms(2)] that
    by (simp add: built_def take_Suc_conv_app_nth)
  show "built ols nls i (Suc j) (push_insert acts (nls ! j))" if "j < length nls"
    using patch_push_insert [OF assms(1) [unfolded built_def]] that
    by (simp add: built_def take_Suc_conv_app_nth)
qed

lemma built_removes:
  assumes "built ols nls i j acts" "length (concat ols) \<le> u64_max" "i \<le> length ols"
  shows "built ols nls (length ols) j (diff_removes (drop i ols) acts)"
  using assms
proof (induction "drop i ols" acts arbitrary: i rule: diff_removes.induct)
  case (1 acts)
  then show ?case by simp
next
  case (2 l ls acts)
  then have i: "i < length ols" by (metis drop_eq_Nil2 list.distinct(1) not_le)
  then have "l = ols ! i" "ls = drop (Suc i) ols" using 2(2) by (metis Cons_nth_drop_Suc list.inject)+
  with 2 i built_steps(2) [OF 2(3,4) i] show ?case by (metis Suc_leI diff_removes.simps(2))
qed

lemma built_inserts:
  assumes "built ols nls i j acts" "length (concat ols) \<le> u64_max" "j \<le> length nls"
    and "diff_inserts limit (drop j nls) acts sz = Some acts'"
  shows "built ols nls i (length nls) acts'"
  using assms
proof (induction limit "drop j nls" acts sz arbitrary: j rule: diff_inserts.induct)
  case (1 limit acts sz)
  then show ?case by (metis diff_inserts.simps(1) drop_eq_Nil le_antisym option.inject)
next
  case (2 limit l ls acts sz)
  then have j: "j < length nls" by (metis drop_eq_Nil2 list.distinct(1) not_le)
  then have l: "l = nls ! j" "ls = drop (Suc j) nls" using 2(2) by (metis Cons_nth_drop_Suc list.inject)+
  from 2(6) have ins: "\<not> over_limit limit (sz + length l)"
    "diff_inserts limit (drop (Suc j) nls) (push_insert acts l) (sz + length l) = Some acts'"
    unfolding 2(2) [symmetric] l(2) [symmetric] by (auto simp: Let_def split: if_splits)
  show ?case
    using 2(1) [OF refl ins(1) l(2) _ 2(4) _ ins(2)] built_steps(3) [OF 2(3,4) j] j l by simp
qed

lemma built_walk:
  assumes "built ols nls i j acts" "length (concat ols) \<le> u64_max" "i \<le> length ols" "j \<le> length nls"
    and "diff_walk limit ols nls t i j acts sz = Some acts'"
  shows "built ols nls (length ols) (length nls) acts'"
  using assms
proof (induction limit ols nls t i j acts sz rule: diff_walk.induct)
  case (1 limit ols nls t i j acts sz)
  note steps = built_steps [OF "1.prems"(1,2)]
  show ?case
  proof (cases "i < length ols \<and> j < length nls")
    case False
    with "1.prems"(5) have "diff_inserts limit (drop j nls) (diff_removes (drop i ols) acts) sz = Some acts'"
      by (simp add: diff_walk.simps [of limit ols nls t i j])
    then show ?thesis
      using built_inserts [OF built_removes [OF "1.prems"(1-3)] "1.prems"(2,4)] by blast
  next
    case True
    then have ij: "i < length ols" "j < length nls" by auto
    note walk = "1.prems"(5) [unfolded diff_walk.simps [of limit ols nls t i j], simplified True, simplified]
    consider "ols ! i = nls ! j" | "ols ! i \<noteq> nls ! j" "t ! i ! Suc j \<le> t ! Suc i ! j"
      | "ols ! i \<noteq> nls ! j" "\<not> t ! i ! Suc j \<le> t ! Suc i ! j" by blast
    then show ?thesis
    proof cases
      case 1
      then show ?thesis using "1.IH"(1) [OF True] "1.prems"(2) ij walk steps(1) [OF ij 1] by simp
    next
      case 2
      then show ?thesis using "1.IH"(2) [OF True] "1.prems"(2,4) ij walk steps(2) [OF ij(1)] by simp
    next
      case 3
      then show ?thesis using "1.IH"(3) [OF True _ _ refl] "1.prems"(2,3) ij walk steps(3) [OF ij(2)]
        by (simp add: Let_def split: if_splits)
    qed
  qed
qed

lemma diff_patch:
  assumes "diff old new limit = Some acts" "length old \<le> u64_max"
  shows "patch old acts = Inr new"
proof -
  let ?o = "split_keepends old" and ?n = "split_keepends new"
  have "built ?o ?n 0 0 []" by (simp add: built_def)
  then have "built ?o ?n (length ?o) (length ?n) acts"
    by (rule built_walk) (use assms in \<open>auto simp: diff_def Let_def\<close>)
  then show ?thesis by (simp add: built_def patch_def)
qed

section \<open>The limit\<close>

fun lines_of :: "diff_action \<Rightarrow> bytes list" where
  "lines_of (DInsert ls) = ls"
| "lines_of _ = []"

definition inserted_lines :: "diff_action list \<Rightarrow> bytes list" where
  "inserted_lines acts = concat (map lines_of acts)"

abbreviation inserted_size :: "diff_action list \<Rightarrow> nat" where
  "inserted_size acts \<equiv> length (concat (inserted_lines acts))"

lemma inserted_snoc: "acts \<noteq> [] \<Longrightarrow> inserted_lines acts = inserted_lines (butlast acts) @ lines_of (last acts)"
  by (cases acts rule: rev_cases) (simp_all add: inserted_lines_def)

lemma inserted_append [simp]: "inserted_lines (xs @ ys) = inserted_lines xs @ inserted_lines ys"
  by (simp add: inserted_lines_def)

lemma inserted_Cons [simp]: "inserted_lines (x # xs) = lines_of x @ inserted_lines xs"
  by (simp add: inserted_lines_def)

lemma inserted_Nil [simp]: "inserted_lines [] = []"
  by (simp add: inserted_lines_def)

lemma inserted_push [simp]:
  "inserted_lines (push_equal acts b) = inserted_lines acts"
  "inserted_lines (push_remove acts b) = inserted_lines acts"
  "inserted_lines (push_insert acts l) = inserted_lines acts @ [l]"
  by (auto simp: push_equal_def push_remove_def push_insert_def inserted_snoc split: diff_action.split)

lemma inserted_removes [simp]: "inserted_lines (diff_removes ls acts) = inserted_lines acts"
  by (induction ls acts rule: diff_removes.induct) auto

lemma over_limit_mono: "over_limit limit n \<Longrightarrow> n \<le> k \<Longrightarrow> over_limit limit k"
  by (auto simp: over_limit_def split: option.splits)

lemma over_limit_None [simp]: "\<not> over_limit None n"
  by (simp add: over_limit_def)

text \<open>\<open>capped limit r\<close>: the outcome \<open>r\<close> of the unlimited run, refused when it inserts too much.\<close>

definition capped :: "nat option \<Rightarrow> diff_action list option \<Rightarrow> diff_action list option" where
  "capped limit r = obind r (\<lambda>acts. if over_limit limit (inserted_size acts) then None else Some acts)"

lemma inserts_total:
  "\<exists>acts'. diff_inserts None ls acts sz = Some acts' \<and> inserted_lines acts' = inserted_lines acts @ ls"
proof (induction ls arbitrary: acts sz)
  case (Cons l ls)
  then show ?case using Cons [of "push_insert acts l" "sz + length l"] by (simp add: Let_def)
qed simp

lemma inserts_capped:
  assumes "sz = inserted_size acts" "\<not> over_limit limit sz"
  shows "diff_inserts limit ls acts sz = capped limit (diff_inserts None ls acts sz)"
  using assms
proof (induction ls arbitrary: acts sz)
  case (Cons l ls)
  obtain acts' where a: "diff_inserts None ls (push_insert acts l) (sz + length l) = Some acts'"
      "inserted_lines acts' = inserted_lines (push_insert acts l) @ ls"
    using inserts_total by blast
  show ?case
  proof (cases "over_limit limit (sz + length l)")
    case True
    then have "over_limit limit (inserted_size acts')"
      by (rule over_limit_mono) (use a Cons.prems in simp)
    with True a show ?thesis by (simp add: Let_def capped_def)
  next
    case False
    then show ?thesis
      using Cons.IH [of "sz + length l" "push_insert acts l"] Cons.prems by (simp add: Let_def)
  qed
qed (simp add: capped_def)

lemma walk_total:
  "\<exists>acts'. diff_walk None ols nls t i j acts sz = Some acts' \<and> inserted_size acts \<le> inserted_size acts'"
proof (induction "None :: nat option" ols nls t i j acts sz rule: diff_walk.induct)
  case (1 ols nls t i j acts sz)
  show ?case
  proof (cases "i < length ols \<and> j < length nls")
    case False
    then show ?thesis
      using inserts_total [of "drop j nls" "diff_removes (drop i ols) acts" sz]
      by (auto simp: diff_walk.simps [of None ols nls t i j])
  next
    case True
    then show ?thesis using 1
      by (subst diff_walk.simps) (fastforce simp: Let_def)
  qed
qed

lemma walk_capped:
  assumes "sz = inserted_size acts" "\<not> over_limit limit sz"
  shows "diff_walk limit ols nls t i j acts sz = capped limit (diff_walk None ols nls t i j acts sz)"
  using assms
proof (induction limit ols nls t i j acts sz rule: diff_walk.induct)
  case (1 limit ols nls t i j acts sz)
  note unf = diff_walk.simps [of _ ols nls t i j acts sz]
  show ?case
  proof (cases "i < length ols \<and> j < length nls")
    case False
    then show ?thesis
      using inserts_capped [of sz "diff_removes (drop i ols) acts" limit "drop j nls"] "1.prems"
      by (subst (1 2) unf) (simp add: if_not_P [OF False])
  next
    case True
    let ?acts = "push_insert acts (nls ! j)" and ?sz = "sz + length (nls ! j)"
    obtain acts' where a: "diff_walk None ols nls t i (j + 1) ?acts ?sz = Some acts'"
        "inserted_size ?acts \<le> inserted_size acts'"
      using walk_total by blast
    have over: "over_limit limit (inserted_size acts')" if "over_limit limit ?sz"
      using that by (rule over_limit_mono) (use a 1 in simp)
    show ?thesis using True "1.IH" "1.prems" a over
      by (subst (1 2) unf) (auto simp: Let_def capped_def)
  qed
qed

lemma diff_capped: "diff old new limit = capped limit (diff old new None)"
  unfolding diff_def Let_def by (rule walk_capped) (auto simp: over_limit_def split: option.splits)

lemma diff_total: "\<exists>acts. diff old new None = Some acts"
  unfolding diff_def Let_def using walk_total by blast

section \<open>The diff keeps as many lines as possible\<close>

text \<open>The reference: the length of a longest common subsequence, by recursion on the two lists.\<close>

fun lcs_len :: "'a list \<Rightarrow> 'a list \<Rightarrow> nat" where
  "lcs_len [] ys = 0"
| "lcs_len (x # xs) [] = 0"
| "lcs_len (x # xs) (y # ys) =
     (if x = y then Suc (lcs_len xs ys) else max (lcs_len xs (y # ys)) (lcs_len (x # xs) ys))"

lemma lcs_len_Nil2 [simp]: "lcs_len xs [] = 0"
  by (cases xs) auto

lemma lcs_len_le: "lcs_len xs ys \<le> length xs" "lcs_len xs ys \<le> length ys"
  by (induction xs ys rule: lcs_len.induct) auto

lemma lcs_len_upper: "subseq zs xs \<Longrightarrow> subseq zs ys \<Longrightarrow> length zs \<le> lcs_len xs ys"
proof (induction xs ys arbitrary: zs rule: lcs_len.induct)
  case (3 x xs y ys)
  show ?case
  proof (cases zs)
    case (Cons z zs')
    show ?thesis
    proof (cases "x = y")
      case True
      have "subseq zs' xs" "subseq zs' ys"
        using "3.prems" Cons True by (metis subseq_Cons' subseq_Cons2_iff)+
      with "3.IH"(1) [OF True, of zs'] True Cons show ?thesis by simp
    next
      case False
      have "subseq zs xs \<or> subseq zs ys"
        using "3.prems" Cons False by (metis subseq_Cons2_iff)
      with "3.IH"(2,3) [OF False] "3.prems" False show ?thesis by fastforce
    qed
  qed simp
qed auto

text \<open>
  The table agrees with the reference on the cells already filled: rows below \<open>i\<close>, and row \<open>i\<close> from
  column \<open>j\<close> on.
\<close>

definition lcs_ok :: "bytes list \<Rightarrow> bytes list \<Rightarrow> nat list list \<Rightarrow> nat \<Rightarrow> nat \<Rightarrow> bool" where
  "lcs_ok ols nls t i j \<longleftrightarrow>
     length t = length ols + 1 \<and> (\<forall>r \<in> set t. length r = length nls + 1) \<and>
     (\<forall>a b. a \<le> length ols \<longrightarrow> b \<le> length nls \<longrightarrow> i < a \<or> i = a \<and> j \<le> b \<or> b = length nls \<longrightarrow>
        t ! a ! b = lcs_len (drop a ols) (drop b nls))"

lemma lcs_cell_eq:
  assumes "lcs_ok ols nls t i (Suc j)" "i < length ols" "j < length nls" "length ols < 2 ^ 32"
  shows "lcs_cell ols nls t i j = lcs_len (drop i ols) (drop j nls)"
proof -
  have cells: "t ! Suc i ! j = lcs_len (drop (Suc i) ols) (drop j nls)"
    "t ! i ! Suc j = lcs_len (drop i ols) (drop (Suc j) nls)"
    "t ! Suc i ! Suc j = lcs_len (drop (Suc i) ols) (drop (Suc j) nls)"
    using assms(1-3) by (auto simp: lcs_ok_def)
  have "lcs_len (drop (Suc i) ols) (drop (Suc j) nls) + 1 < 2 ^ 32"
    using lcs_len_le(1) [of "drop (Suc i) ols" "drop (Suc j) nls"] assms(2,4) by simp
  moreover have "drop i ols = ols ! i # drop (Suc i) ols" "drop j nls = nls ! j # drop (Suc j) nls"
    using assms by (simp_all add: Cons_nth_drop_Suc)
  ultimately show ?thesis using cells by (simp add: lcs_cell_def u32_add_def)
qed

lemma lcs_set_ok:
  assumes "lcs_ok ols nls t i (Suc j)" "i < length ols" "j < length nls" "length ols < 2 ^ 32"
  shows "lcs_ok ols nls (lcs_set ols nls i j t) i j"
proof -
  have len: "length t = length ols + 1" "length (t ! i) = length nls + 1" "\<forall>r \<in> set t. length r = length nls + 1"
    using assms(1,2) by (auto simp: lcs_ok_def)
  have "lcs_set ols nls i j t ! a ! b = lcs_len (drop a ols) (drop b nls)"
    if "a \<le> length ols" "b \<le> length nls" "i < a \<or> i = a \<and> j \<le> b \<or> b = length nls" for a b
  proof (cases "a = i \<and> b = j")
    case True
    then show ?thesis using lcs_cell_eq [OF assms] len assms by (simp add: lcs_set_def)
  next
    case False
    then have "lcs_set ols nls i j t ! a ! b = t ! a ! b"
      using len that assms(2) by (auto simp: lcs_set_def nth_list_update)
    moreover have "i < a \<or> i = a \<and> Suc j \<le> b \<or> b = length nls" using that False by auto
    ultimately show ?thesis using assms(1) that unfolding lcs_ok_def by metis
  qed
  then show ?thesis
    using len assms(2) by (auto simp: lcs_ok_def lcs_set_def dest!: set_update_subset_insert [THEN subsetD])
qed

lemma lcs_row_ok:
  assumes "lcs_ok ols nls t (Suc i) 0" "i < length ols" "length ols < 2 ^ 32"
  shows "lcs_ok ols nls (lcs_row ols nls i t) i 0"
proof -
  have "lcs_ok ols nls (fold (lcs_set ols nls i) (rev [k..<length nls]) t) i k" if "k \<le> length nls" for k
    using that
  proof (induction k rule: inc_induct)
    case base
    then show ?case using assms unfolding lcs_ok_def by (simp, metis Suc_lessI)
  next
    case (step k)
    then show ?case using lcs_set_ok [OF _ assms(2) _ assms(3)] by (simp add: upt_conv_Cons)
  qed
  from this [of 0] show ?thesis by (simp add: lcs_row_def)
qed

lemma lcs_table_ok:
  assumes "length ols < 2 ^ 32"
  shows "lcs_ok ols nls (lcs_table ols nls) 0 0"
proof -
  let ?t = "replicate (length ols + 1) (replicate (length nls + 1) 0)"
  have "lcs_ok ols nls (fold (lcs_row ols nls) (rev [k..<length ols]) ?t) k 0" if "k \<le> length ols" for k
    using that
  proof (induction k rule: inc_induct)
    case base
    then show ?case by (auto simp: lcs_ok_def nth_append simp del: replicate_Suc)
  next
    case (step k)
    then show ?case using lcs_row_ok [OF _ _ assms] by (simp add: upt_conv_Cons)
  qed
  from this [of 0] show ?thesis by (simp add: lcs_table_def)
qed

lemma lcs_ok_at:
  "lcs_ok ols nls t 0 0 \<Longrightarrow> a \<le> length ols \<Longrightarrow> b \<le> length nls \<Longrightarrow>
     t ! a ! b = lcs_len (drop a ols) (drop b nls)"
  unfolding lcs_ok_def by (metis gr0I le0)

lemma walk_inserts:
  assumes "lcs_ok ols nls t 0 0" "i \<le> length ols" "j \<le> length nls"
    and "diff_walk None ols nls t i j acts sz = Some acts'"
  shows "length (inserted_lines acts') + lcs_len (drop i ols) (drop j nls) =
     length (inserted_lines acts) + (length nls - j)"
  using assms
proof (induction "None :: nat option" ols nls t i j acts sz rule: diff_walk.induct)
  case (1 ols nls t i j acts sz)
  show ?case
  proof (cases "i < length ols \<and> j < length nls")
    case False
    then have "drop i ols = [] \<or> drop j nls = []" using "1.prems" by auto
    then show ?thesis
      using False "1.prems" inserts_total [of "drop j nls" "diff_removes (drop i ols) acts" sz]
      by (auto simp: diff_walk.simps [of None ols nls t i j])
  next
    case True
    then have d: "drop i ols = ols ! i # drop (Suc i) ols" "drop j nls = nls ! j # drop (Suc j) nls"
      by (simp_all add: Cons_nth_drop_Suc)
    have cells: "t ! Suc i ! j = lcs_len (drop (Suc i) ols) (drop j nls)"
      "t ! i ! Suc j = lcs_len (drop i ols) (drop (Suc j) nls)"
      using True "1.prems" lcs_ok_at [OF "1.prems"(1)] by simp_all
    note walk = "1.prems"(4) [unfolded diff_walk.simps [of None ols nls t i j], simplified True, simplified]
    consider "ols ! i = nls ! j" | "ols ! i \<noteq> nls ! j" "t ! i ! Suc j \<le> t ! Suc i ! j"
      | "ols ! i \<noteq> nls ! j" "\<not> t ! i ! Suc j \<le> t ! Suc i ! j" by blast
    then show ?thesis
    proof cases
      case 1
      then show ?thesis using "1.hyps"(1) [OF True 1] "1.prems"(1) True walk by (simp add: d) arith
    next
      case 2
      then have "lcs_len (drop i ols) (drop j nls) = lcs_len (drop (Suc i) ols) (drop j nls)"
        using cells by (simp add: d)
      then show ?thesis using 2 "1.hyps"(2) [OF True] "1.prems"(1,3) True walk by simp
    next
      case 3
      then have "lcs_len (drop i ols) (drop j nls) = lcs_len (drop i ols) (drop (Suc j) nls)"
        using cells by (simp add: d)
      then show ?thesis using 3 "1.hyps"(3) [OF True _ _ refl] "1.prems"(1,2) True walk
        by (simp add: Let_def) arith
    qed
  qed
qed

lemma diff_inserts_lcs:
  assumes "diff old new limit = Some acts" "length (split_keepends old) < 2 ^ 32"
  shows "length (inserted_lines acts) + lcs_len (split_keepends old) (split_keepends new) =
     length (split_keepends new)"
proof -
  have "diff old new None = Some acts"
    using assms(1) diff_total [of old new] unfolding diff_capped [of old new limit]
    by (auto simp: capped_def split: if_splits)
  then show ?thesis
    using walk_inserts [OF lcs_table_ok [OF assms(2)], where i = 0 and j = 0 and acts = "[]" and sz = 0 and acts' = acts]
    by (simp add: diff_def Let_def)
qed

section \<open>Reading back the byte-exact form\<close>

text \<open>\<open>reads b i s e\<close>: the bytes of \<open>b\<close> from \<open>i\<close> up to \<open>e\<close> are \<open>s\<close>.\<close>

definition reads :: "bytes \<Rightarrow> nat \<Rightarrow> bytes \<Rightarrow> nat \<Rightarrow> bool" where
  "reads b i s e \<longleftrightarrow> e = i + length s \<and> e \<le> length b \<and> take (length s) (drop i b) = s"

lemma reads_Nil [simp]: "reads b i [] e \<longleftrightarrow> e = i \<and> i \<le> length b"
  by (auto simp: reads_def)

lemma reads_append: "reads b i (s @ t) e \<longleftrightarrow> (\<exists>m. reads b i s m \<and> reads b m t e)"
  by (auto simp: reads_def take_add add.assoc add.commute [of i])

lemma reads_Cons: "reads b i (x # s) e \<longleftrightarrow> i < length b \<and> b ! i = x \<and> reads b (Suc i) s e"
proof -
  have "reads b i [x] m \<longleftrightarrow> i < length b \<and> b ! i = x \<and> m = Suc i" for m
    by (auto simp: reads_def take_Suc_conv_app_nth Cons_nth_drop_Suc [symmetric])
  then show ?thesis using reads_append [of b i "[x]" s e] by auto
qed

lemma reads_from_start: "(\<exists>e. reads b 0 s e) \<longleftrightarrow> (\<exists>rest. b = s @ rest)"
  by (auto simp: reads_def) (metis append_take_drop_id)+

lemma get_range_iff: "get_range b i e = Some s \<longleftrightarrow> reads b i s e \<and> i \<le> length b"
  by (auto simp: get_range_def reads_def)

text \<open>
  The interface of the readers: \<open>rd\<close> at a cursor returns a value and the cursor after it exactly when
  the buffer holds that value's encoding there.
\<close>

locale cursor_code =
  fixes rd :: "bytes \<Rightarrow> nat \<Rightarrow> ('a \<times> nat) option"
    and enc :: "'a \<Rightarrow> bytes"
    and ok :: "'a \<Rightarrow> bool"
  assumes rd_iff: "length b \<le> u64_max \<Longrightarrow> i \<le> length b \<Longrightarrow>
    rd b i = Some (x, e) \<longleftrightarrow> ok x \<and> reads b i (enc x) e"
begin

lemma many_iff:
  "length b \<le> u64_max \<Longrightarrow> i \<le> length b \<Longrightarrow>
   dec_many rd b k i = Some (xs, e) \<longleftrightarrow>
     length xs = k \<and> (\<forall>x \<in> set xs. ok x) \<and> reads b i (concat (map enc xs)) e"
proof (induction k arbitrary: i xs)
  case 0
  then show ?case by auto
next
  case (Suc k)
  have IH: "dec_many rd b k m = Some (ys, e) \<longleftrightarrow>
      length ys = k \<and> (\<forall>x \<in> set ys. ok x) \<and> reads b m (concat (map enc ys)) e"
    if "reads b i s m" for s m ys
    using that by (intro Suc.IH Suc.prems(1)) (simp add: reads_def)
  show ?case
    by (cases xs) (auto simp: bind_eq_Some_conv rd_iff [OF Suc.prems] reads_append IH cong: conj_cong)
qed

end

lemma le64_iff:
  assumes "length s = 8"
  shows "le64 (as_u64 n) = s \<and> n < 2 ^ 64 \<longleftrightarrow> of_le_bytes s = n"
proof -
  have "of_le_bytes s < 2 ^ 64" using of_le_bytes_bound [of s] assms by simp
  moreover have "le64 (as_u64 (of_le_bytes s)) = s"
    using calculation le_bytes_of_le_bytes [of s] assms by (simp add: le64_def unat_as_u64)
  ultimately show ?thesis
    by (metis of_le_bytes_le64 unat_as_u64)
qed

interpretation u64c: cursor_code read_u64 "\<lambda>n. le64 (as_u64 n)" "\<lambda>n. n < 2 ^ 64"
proof
  fix b :: bytes and i x e
  assume b: "length b \<le> u64_max" "i \<le> length b"
  have "read_u64 b i = Some (x, e) \<longleftrightarrow> (\<exists>s. length s = 8 \<and> reads b i s e \<and> of_le_bytes s = x)"
    using b by (auto simp: read_u64_def bind_eq_Some_conv get_range_iff checked_add_def reads_def)
  also have "\<dots> \<longleftrightarrow> x < 2 ^ 64 \<and> reads b i (le64 (as_u64 x)) e"
    using le64_iff by (metis length_le64)
  finally show "read_u64 b i = Some (x, e) \<longleftrightarrow> x < 2 ^ 64 \<and> reads b i (le64 (as_u64 x)) e" .
qed

interpretation linec: cursor_code decode_line "\<lambda>l. le64 (as_u64 (length l)) @ l" "\<lambda>l. length l < 2 ^ 64"
proof
  fix b :: bytes and i x e
  assume b: "length b \<le> u64_max" "i \<le> length b"
  have line: "obind (checked_add m n) (\<lambda>e. obind (get_range b m e) (\<lambda>l. Some (l, e))) = Some (x, e) \<longleftrightarrow>
      n = length x \<and> reads b m x e" if "reads b j s m" for n m j s
    using that b by (auto simp: checked_add_def get_range_def reads_def)
  show "decode_line b i = Some (x, e) \<longleftrightarrow>
     length x < 2 ^ 64 \<and> reads b i (le64 (as_u64 (length x)) @ x) e"
    using b by (auto simp: decode_line_def u64c.rd_iff reads_append line
        bind_eq_Some_conv [of "read_u64 b i"] cong: conj_cong)
qed

fun action_ok :: "diff_action \<Rightarrow> bool" where
  "action_ok (DEqual n) \<longleftrightarrow> n < 2 ^ 64"
| "action_ok (DRemove n) \<longleftrightarrow> n < 2 ^ 64"
| "action_ok (DInsert ls) \<longleftrightarrow> length ls < 2 ^ 64 \<and> (\<forall>l \<in> set ls. length l < 2 ^ 64)"

interpretation actc: cursor_code decode_action encode_action action_ok
proof
  fix b :: bytes and i x e
  assume b: "length b \<le> u64_max" "i \<le> length b"
  have lines: "dec_many decode_line b k m = Some (ls, e) \<longleftrightarrow> length ls = k \<and>
      (\<forall>l \<in> set ls. length l < 2 ^ 64) \<and> reads b m (concat (map (\<lambda>l. le64 (as_u64 (length l)) @ l) ls)) e"
    if "reads b j s m" for j s m k ls
    using that by (intro linec.many_iff b) (simp add: reads_def)
  show "decode_action b i = Some (x, e) \<longleftrightarrow> action_ok x \<and> reads b i (encode_action x) e"
    using b by (cases x) (auto simp: decode_action_def arr_get_def bind_eq_Some_conv u64c.rd_iff lines
        reads_Cons reads_append Let_def split: if_splits cong: conj_cong)
qed

lemma decode_actions_iff:
  assumes "length b \<le> u64_max"
  shows "decode_actions b = Some acts \<longleftrightarrow>
     length acts < 2 ^ 64 \<and> (\<forall>a \<in> set acts. action_ok a) \<and> (\<exists>rest. b = encode_actions acts @ rest)"
proof -
  have many: "dec_many decode_action b k m = Some (as, e) \<longleftrightarrow>
      length as = k \<and> (\<forall>a \<in> set as. action_ok a) \<and> reads b m (concat (map encode_action as)) e"
    if "reads b j s m" for j s m k as e
    using that by (intro actc.many_iff assms) (simp add: reads_def)
  show ?thesis
    unfolding reads_from_start [symmetric] encode_actions_def reads_append
    using assms by (auto simp: decode_actions_def bind_eq_Some_conv u64c.rd_iff many cong: conj_cong)
qed

section \<open>The JSON form\<close>

lemma lossy_line: "utf8_ok l \<Longrightarrow> insert_line (JStr (lossy_str l)) = l"
  by (simp add: lossy_str_def utf8_lossy_id)

fun action_text :: "diff_action \<Rightarrow> bool" where
  "action_text (DInsert ls) \<longleftrightarrow> (\<forall>l \<in> set ls. utf8_ok l)"
| "action_text _ \<longleftrightarrow> True"

lemma action_value_roundtrip:
  "action_ok a \<Longrightarrow> action_text a \<Longrightarrow> action_from_value (action_to_value a) = Some a"
  by (cases a) (auto simp: action_from_value_def arr_get_def u64_max_def lossy_line comp_def lossy_str_def utf8_lossy_id map_idI)

lemma collect_opt_map: "\<forall>x \<in> set xs. f (g x) = Some x \<Longrightarrow> collect_opt f (map g xs) = Some xs"
  by (induction xs) auto

section \<open>What the diffs promise\<close>

lemma walk_actions_ok:
  assumes "patch_loop old acts c out = Inr r" "length old < 2 ^ 64"
    and "length (inserted_lines acts) < 2 ^ 64" "\<forall>l \<in> set (inserted_lines acts). length l < 2 ^ 64"
  shows "\<forall>a \<in> set acts. action_ok a"
  using assms
proof (induction old acts c out rule: patch_loop.induct)
  case (2 old n acts c out)
  then show ?case by (auto split: option.splits dest!: diff_end_Some)
next
  case (3 old n acts c out)
  then show ?case by (auto split: option.splits dest!: diff_end_Some)
qed auto

lemma lines_encode_length:
  "length ls \<le> length (concat (map (\<lambda>l. le64 (as_u64 (length l)) @ l) ls))"
  "l \<in> set ls \<Longrightarrow> length l \<le> length (concat (map (\<lambda>l. le64 (as_u64 (length l)) @ l) ls))"
  by (induction ls) auto

lemma encode_length:
  "length acts \<le> length (concat (map encode_action acts))"
  "length (inserted_lines acts) \<le> length (concat (map encode_action acts))"
  "l \<in> set (inserted_lines acts) \<Longrightarrow> length l \<le> length (concat (map encode_action acts))"
proof (induction acts)
  case (Cons a acts)
  have a: "0 < length (encode_action a)" "length (lines_of a) \<le> length (encode_action a)"
    "\<And>l. l \<in> set (lines_of a) \<Longrightarrow> length l \<le> length (encode_action a)"
    using lines_encode_length by (cases a; fastforce intro: le_SucI trans_le_add2)+
  { case 1 show ?case using Cons.IH(1) a(1) by (cases "encode_action a") auto }
  { case 2 show ?case using Cons.IH(2) a(2) by simp }
  { case 3 show ?case using 3 Cons.IH(3) a(3) by fastforce }
qed auto

lemma diff_decode:
  assumes "diff old new limit = Some acts" "length old < 2 ^ 64" "length (encode_actions acts) < 2 ^ 64"
  shows "decode_actions (encode_actions acts) = Some acts"
proof -
  have len: "length (concat (map encode_action acts)) < 2 ^ 64"
    using assms(3) by (simp add: encode_actions_def)
  obtain r where "patch_loop old acts 0 [] = Inr r"
    using diff_patch [OF assms(1)] assms(2) by (cases "patch_loop old acts 0 []") (auto simp: patch_def u64_max_def)
  then have "\<forall>a \<in> set acts. action_ok a"
    by (rule walk_actions_ok) (use assms(2) len encode_length [where acts = acts] in \<open>auto intro: le_less_trans\<close>)
  then show ?thesis
    using assms(3) len encode_length(1) [where acts = acts] by (subst decode_actions_iff) (auto simp: u64_max_def)
qed

text \<open>
  C28. Patching with a diff gives the new file: whatever the limit, when \<open>diff\<close> returns actions, sending
  them byte-exactly and reading them back gives the same actions, and applying them to the old file
  gives exactly the new file.
\<close>

theorem diff_push_roundtrip:
  assumes "diff old new limit = Some acts" "length old < 2 ^ 64" "length (encode_actions acts) < 2 ^ 64"
  shows "obind (decode_actions (encode_actions acts)) (\<lambda>as. Some (patch old as)) = Some (Inr new)"
  using diff_decode [OF assms] diff_patch [OF assms(1)] assms(2) by (simp add: u64_max_def)

lemmas diff_eval = diff_def lcs_table_def lcs_row_def lcs_set_def lcs_cell_def u32_add_def upt_rec
  diff_walk.simps push_equal_def push_remove_def push_insert_def over_limit_def

theorem diff_push_roundtrip_witness:
  "diff [97, 10, 98, 10] [97, 10, 255, 98, 10] (Some 100) = Some [DEqual 2, DRemove 2, DInsert [[255, 98, 10]]] \<and>
   obind (decode_actions (encode_actions [DEqual 2, DRemove 2, DInsert [[255, 98, 10]]]))
     (\<lambda>as. Some (patch [97, 10, 98, 10] as)) = Some (Inr [97, 10, 255, 98, 10])"
proof -
  have s: "split_keepends [97, 10, 98, 10] = [[97, 10], [98, 10]]"
    "split_keepends [97, 10, 255, 98, 10] = [[97, 10], [255, 98, 10]]" by code_simp+
  have d: "diff [97, 10, 98, 10] [97, 10, 255, 98, 10] (Some 100) = Some [DEqual 2, DRemove 2, DInsert [[255, 98, 10]]]"
    by (simp add: diff_eval s)
  then show ?thesis using diff_push_roundtrip [OF d] by (simp add: encode_actions_def)
qed

text \<open>
  A diff exists exactly when the lines it has to insert fit the limit: the actions do not depend on the
  limit, and \<open>None\<close> means that the inserted bytes exceed it.
\<close>

theorem diff_limit:
  "\<exists>acts. diff old new None = Some acts \<and>
     (\<forall>l. diff old new (Some l) = (if inserted_size acts > l then None else Some acts))"
proof -
  obtain acts where "diff old new None = Some acts" using diff_total by blast
  then show ?thesis using diff_capped [of old new "Some _"] by (auto simp: capped_def over_limit_def)
qed

text \<open>
  C29. The diff is minimal in lines: however many lines \<open>zs\<close> the old and the new file have in common, in
  order, every new line outside \<open>zs\<close> would have to be inserted, and the diff inserts no more than that.
\<close>

theorem diff_minimal:
  assumes "diff old new limit = Some acts" "length (split_keepends old) < 2 ^ 32"
    and "subseq zs (split_keepends old)" "subseq zs (split_keepends new)"
  shows "length (inserted_lines acts) \<le> length (split_keepends new) - length zs"
  using diff_inserts_lcs [OF assms(1,2)] lcs_len_upper [OF assms(3,4)] by linarith

theorem diff_minimal_witness:
  "length (inserted_lines [DRemove 2, DEqual 2, DInsert [[97, 10]]]) \<le>
     length (split_keepends [98, 10, 97, 10]) - length [[98, 10 :: u8]]"
proof -
  have s: "split_keepends [97, 10, 98, 10] = [[97, 10], [98, 10]]"
    "split_keepends [98, 10, 97, 10] = [[98, 10], [97, 10]]" by code_simp+
  have d: "diff [97, 10, 98, 10] [98, 10, 97, 10] None = Some [DRemove 2, DEqual 2, DInsert [[97, 10]]]"
    by (simp add: diff_eval s)
  show ?thesis using diff_minimal [OF d, of "[[98, 10]]"] by (simp add: s)
qed

text \<open>
  The JSON form gives back actions whose inserted lines are UTF-8 text.
\<close>

theorem actions_value_roundtrip:
  assumes "\<forall>a \<in> set acts. action_ok a \<and> action_text a"
  shows "actions_from_value (actions_to_value acts) = Some acts"
  unfolding actions_from_value_def actions_to_value_def
  using assms by (simp add: collect_opt_map action_value_roundtrip)

theorem actions_value_roundtrip_witness:
  "actions_from_value (actions_to_value [DEqual 2, DInsert [[97, 0xC3, 0xA9]]]) =
     Some [DEqual 2, DInsert [[97, 0xC3, 0xA9]]]"
  by (rule actions_value_roundtrip) (simp add: cont_byte_def)

text \<open>Bytes that are not UTF-8 do not survive the JSON form: the patched file differs.\<close>

lemma actions_value_lossy:
  "obind (actions_from_value (actions_to_value [DInsert [[0xFF]]])) (\<lambda>as. Some (patch [] as)) =
     Some (Inr [0xEF, 0xBF, 0xBD])"
  by code_simp

end
