(* ===== verification/Xite_Content.thy ===== *)
theory Xite_Content
  imports Content_Verify Content_Diff Hash_Map
begin

text \<open>
  A xite and its content.json units, after \<^verbatim>\<open>epix-xite/src/xite.rs\<close>: adopting a root, adding a child
  unit (with the removal of archived users), the declared files, and what signing hashes.  The last
  sections are the two ends of an update push in \<^verbatim>\<open>epix-ui/src/state.rs\<close>: the publisher's diffs
  (\<open>take_diffs\<close>) and the receiver's patching (\<open>finish_inbound_update\<close>), with the wire maps of
  \<^verbatim>\<open>epix-runtime/src/edx.rs\<close>.
\<close>

section \<open>State\<close>

record xite =
  xi_address :: string
  xi_root :: dir_path
  xi_content :: "json option"

record xfile =
  xf_inner_path :: string
  xf_size :: int
  xf_sha512 :: string

datatype xite_error = XParse | XCrypt string | XIo | XProtocol string | XPanic

definition parent_dir_prefix :: "string \<Rightarrow> string" where
  "parent_dir_prefix inner_path =
     (case rsplit_once slash inner_path of None \<Rightarrow> [] | Some (d, _) \<Rightarrow> d @ ''/'')"

definition root_ctx :: "xite \<Rightarrow> int \<Rightarrow> ctx" where
  "root_ctx x size_limit = \<lparr>cx_address = xi_address x, cx_loaded = (\<lambda>_. None), cx_size_limit = size_limit,
     cx_resolve_xid = (\<lambda>_. []), cx_read_file = (\<lambda>_. None)\<rparr>"

definition child_ctx :: "ext \<Rightarrow> xite \<Rightarrow> disk_files \<Rightarrow> (string \<rightharpoonup> string list) \<Rightarrow> ctx" where
  "child_ctx E x fs xid_map = \<lparr>cx_address = xi_address x,
     cx_loaded = (\<lambda>p. case st_read (xi_root x) fs p of
        Some b \<Rightarrow> ex_parse E b
      | None \<Rightarrow> if p = ''content.json'' then xi_content x else None),
     cx_size_limit = 2 ^ 63 - 1,
     cx_resolve_xid = (\<lambda>n. unwrap_or (xid_map n) []),
     cx_read_file = st_read (xi_root x) fs\<rparr>"

section \<open>The root content.json\<close>

definition stage_content_limited :: "ext \<Rightarrow> xite \<Rightarrow> bytes \<Rightarrow> int \<Rightarrow> xite_error + xite" where
  "stage_content_limited E x b size_limit =
     (case ex_parse E b of
        None \<Rightarrow> Inl XParse
      | Some j \<Rightarrow>
          (case verify_content_file E ''content.json'' j (i64_wrap (int (length b))) (root_ctx x size_limit) of
             Inl e \<Rightarrow> Inl (XCrypt e)
           | Inr _ \<Rightarrow> Inr (x\<lparr>xi_content := Some j\<rparr>)))"

definition stage_content :: "ext \<Rightarrow> xite \<Rightarrow> bytes \<Rightarrow> xite_error + xite" where
  "stage_content E x b = stage_content_limited E x b (2 ^ 63 - 1)"

definition load_content :: "ext \<Rightarrow> xite \<Rightarrow> disk_files \<Rightarrow> xite_error + xite \<times> bool" where
  "load_content E x fs =
     (if \<not> st_exists (xi_root x) fs ''content.json'' then Inr (x, False)
      else case st_read (xi_root x) fs ''content.json'' of
        None \<Rightarrow> Inl XIo
      | Some b \<Rightarrow> (case stage_content E x b of Inl e \<Rightarrow> Inl e | Inr x' \<Rightarrow> Inr (x', True)))"

definition load_content_local :: "ext \<Rightarrow> xite \<Rightarrow> disk_files \<Rightarrow> xite \<times> bool" where
  "load_content_local E x fs =
     (case obind (st_read (xi_root x) fs ''content.json'') (ex_parse E) of
        None \<Rightarrow> (x, False)
      | Some j \<Rightarrow> (x\<lparr>xi_content := Some j\<rparr>, True))"

text \<open>
  The atomic write of \<open>commit_content\<close> is the operating system's write under the resolved path: the
  temporary file and the rename replace the file as a whole.
\<close>

definition commit_content :: "os \<Rightarrow> xite \<Rightarrow> disk_files \<Rightarrow> bytes \<Rightarrow> disk_files \<times> bool" where
  "commit_content sys x fs b = st_write sys (xi_root x) fs ''content.json'' b"

definition set_content_limited :: "ext \<Rightarrow> os \<Rightarrow> xite \<Rightarrow> disk_files \<Rightarrow> bytes \<Rightarrow> int \<Rightarrow> (xite_error + unit) \<times> xite \<times> disk_files" where
  "set_content_limited E sys x fs b size_limit =
     (case stage_content_limited E x b size_limit of
        Inl e \<Rightarrow> (Inl e, x, fs)
      | Inr x' \<Rightarrow> (case commit_content sys x' fs b of
           (fs', ok) \<Rightarrow> (if ok then Inr () else Inl XIo, x', fs')))"

section \<open>Declared files\<close>

definition entry_file :: "string \<Rightarrow> string \<times> json \<Rightarrow> xfile option" where
  "entry_file pre e =
     obind (get_i64 (snd e) ''size'') (\<lambda>sz.
     obind (get_str (snd e) ''sha512'') (\<lambda>h.
       Some \<lparr>xf_inner_path = pre @ fst e, xf_size = sz, xf_sha512 = h\<rparr>))"

definition files_under :: "xite \<Rightarrow> string \<Rightarrow> xfile list" where
  "files_under x node =
     (case obind (xi_content x) (\<lambda>c. get_obj c node) of
        None \<Rightarrow> []
      | Some fs \<Rightarrow> filter_map (entry_file []) fs)"

definition xite_files :: "xite \<Rightarrow> xfile list" where
  "xite_files x = files_under x ''files''"

definition optional_files :: "xite \<Rightarrow> xfile list" where
  "optional_files x = files_under x ''files_optional''"

definition file_info :: "xite \<Rightarrow> string \<Rightarrow> xfile option" where
  "file_info x p = find (\<lambda>f. xf_inner_path f = p) (xite_files x @ optional_files x)"

definition files_needed :: "(bytes \<Rightarrow> string) \<Rightarrow> xite \<Rightarrow> disk_files \<Rightarrow> xfile list" where
  "files_needed hb x fs =
     filter (\<lambda>f. \<not> st_verify hb (xi_root x) fs (xf_inner_path f) (xf_sha512 f)) (xite_files x)"

definition includes_in :: "json \<Rightarrow> string list" where
  "includes_in content = obj_keys content ''includes''"

definition child_includes :: "ext \<Rightarrow> xite \<Rightarrow> disk_files \<Rightarrow> string \<Rightarrow> string list" where
  "child_includes E x fs inner_path =
     (case obind (st_read (xi_root x) fs inner_path) (ex_parse E) of
        None \<Rightarrow> []
      | Some j \<Rightarrow>
          let dir = (case rsplit_once slash inner_path of None \<Rightarrow> [] | Some (d, _) \<Rightarrow> d)
          in map (\<lambda>rel. if dir = [] then rel else dir @ ''/'' @ rel) (includes_in j))"

section \<open>Child units\<close>

text \<open>Deleting the files an archived child declares, then the child itself; failures are ignored.\<close>

definition delete_all :: "os \<Rightarrow> xite \<Rightarrow> string list \<Rightarrow> disk_files \<Rightarrow> disk_files" where
  "delete_all sys x ps fs = fold (\<lambda>p fs. fst (st_delete sys (xi_root x) fs p)) ps fs"

definition remove_child_if_older :: "ext \<Rightarrow> os \<Rightarrow> xite \<Rightarrow> string \<Rightarrow> int \<Rightarrow> disk_files \<Rightarrow> disk_files" where
  "remove_child_if_older E sys x inner_path cutoff fs =
     (case obind (st_read (xi_root x) fs inner_path) (ex_parse E) of
        None \<Rightarrow> fs
      | Some j \<Rightarrow>
          if unwrap_or (get_f64 E j ''modified'') 0 \<ge> cutoff then fs
          else delete_all sys x
                 (map (\<lambda>rel. parent_dir_prefix inner_path @ rel) (obj_keys j ''files'' @ obj_keys j ''files_optional'') @
                  [inner_path]) fs)"

text \<open>
  \<open>listing\<close> is the answer of the directory walk \<open>child_contents_under\<close>, a parameter: the stored child
  units below the directory, in the order the operating system lists them.
\<close>

definition apply_archived :: "ext \<Rightarrow> os \<Rightarrow> (disk_files \<Rightarrow> string \<Rightarrow> string list) \<Rightarrow> xite \<Rightarrow> string \<Rightarrow> json option \<Rightarrow> json \<Rightarrow>
    disk_files \<Rightarrow> disk_files" where
  "apply_archived E sys listing x inner_path old new fs =
     (case j_get new ''user_contents'' of
        None \<Rightarrow> fs
      | Some uc \<Rightarrow>
          let dir = parent_dir_prefix inner_path;
              old_uc = obind old (\<lambda>o'. j_get o' ''user_contents'');
              old_archived = obind old_uc (\<lambda>u. get_obj u ''archived'');
              fs1 = fold (\<lambda>e fs.
                  let date = unwrap_or (as_f64 E (snd e)) 0;
                      unchanged = (obind (obind old_archived (\<lambda>m. map_of m (fst e))) (as_f64 E) = Some date)
                  in if unchanged then fs
                     else remove_child_if_older E sys x (dir @ fst e @ ''/content.json'') date fs)
                (unwrap_or (get_obj uc ''archived'') []) fs;
              before = unwrap_or (get_f64 E uc ''archived_before'') 0;
              old_before = unwrap_or (obind old_uc (\<lambda>u. get_f64 E u ''archived_before'')) 0
          in if before > 0 \<and> before \<noteq> old_before
             then fold (\<lambda>child fs. if child \<noteq> inner_path then remove_child_if_older E sys x child before fs else fs)
                    (listing fs1 dir) fs1
             else fs1)"

definition unit_files :: "string \<Rightarrow> json \<Rightarrow> xfile list" where
  "unit_files inner_path j =
     (let dir = (case rsplit_once slash inner_path of None \<Rightarrow> [] | Some (d, _) \<Rightarrow> d);
          pre = (if dir = [] then [] else dir @ ''/'')
      in concat (map (\<lambda>node. filter_map (entry_file pre) (unwrap_or (get_obj j node) []))
           [''files'', ''files_optional'']))"

definition add_content :: "ext \<Rightarrow> os \<Rightarrow> (disk_files \<Rightarrow> string \<Rightarrow> string list) \<Rightarrow> xite \<Rightarrow> disk_files \<Rightarrow> string \<Rightarrow> bytes \<Rightarrow>
    (string \<rightharpoonup> string list) \<Rightarrow> (xite_error + xfile list) \<times> disk_files" where
  "add_content E sys listing x fs inner_path b xid_map =
     (case ex_parse E b of
        None \<Rightarrow> (Inl XParse, fs)
      | Some j \<Rightarrow>
          (case verify_content_file E inner_path j (i64_wrap (int (length b))) (child_ctx E x fs xid_map) of
             Inl e \<Rightarrow> (Inl (XCrypt e), fs)
           | Inr _ \<Rightarrow>
               let old = obind (st_read (xi_root x) fs inner_path) (ex_parse E)
               in (case st_write sys (xi_root x) fs inner_path b of
                     (fs1, ok) \<Rightarrow>
                       if \<not> ok then (Inl XIo, fs1)
                       else (Inr (unit_files inner_path j), apply_archived E sys listing x inner_path old j fs1))))"

definition valid_signers_for :: "ext \<Rightarrow> xite \<Rightarrow> disk_files \<Rightarrow> string \<Rightarrow> (string \<rightharpoonup> string list) \<Rightarrow> string list" where
  "valid_signers_for E x fs content_inner_path xid_map =
     (case obind (st_read (xi_root x) fs content_inner_path) (ex_parse E) of
        None \<Rightarrow> []
      | Some content \<Rightarrow> valid_signers E content_inner_path content (child_ctx E x fs xid_map))"

section \<open>What signing hashes\<close>

definition skip_hashing :: "string \<Rightarrow> bool" where
  "skip_hashing rel \<longleftrightarrow>
     starts_with ''.'' (last (split_on slash rel)) \<or> ends_with ''-old'' rel \<or> ends_with ''-new'' rel"

text \<open>
  The compiled patterns are the third-party regex objects: a pattern is its match function, or \<open>None\<close>.
\<close>

definition pattern_matches :: "(string \<Rightarrow> bool) option \<Rightarrow> string \<Rightarrow> bool" where
  "pattern_matches re rel = (case re of None \<Rightarrow> False | Some m \<Rightarrow> m rel)"

definition unit_file_class :: "string \<Rightarrow> string list \<Rightarrow> (string \<times> json) list \<Rightarrow> (string \<times> json) list \<Rightarrow>
    (string \<Rightarrow> bool) option \<Rightarrow> (string \<Rightarrow> bool) option \<Rightarrow> bool option" where
  "unit_file_class rel nested_dirs declared_optional declared_merged ignore optional =
     (if rel = ''content.json'' \<or> ends_with ''/content.json'' rel then None
      else if skip_hashing rel \<or> pattern_matches ignore rel then None
      else if map_of declared_merged rel \<noteq> None then None
      else if list_ex (\<lambda>d. starts_with d rel) nested_dirs then None
      else let is_optional = pattern_matches optional rel
           in if \<not> is_optional \<and> map_of declared_optional rel \<noteq> None then None
              else Some is_optional)"

definition nested_dirs_of :: "string \<Rightarrow> string list \<Rightarrow> string list" where
  "nested_dirs_of pre listing =
     map (\<lambda>rel. take (length rel - length ''content.json'') rel)
       (filter (ends_with ''/content.json'') (filter_map (strip_prefix pre) listing))"

definition merge_files_optional :: "(string \<times> json) list \<Rightarrow> (string \<times> json) list \<Rightarrow> (string \<times> json) list \<Rightarrow>
    (string \<times> json) list" where
  "merge_files_optional m files_optional declared_optional =
     (let merged = fold (\<lambda>e acc. bt_upsert (fst e) id (snd e) acc) declared_optional files_optional
      in if merged = [] then m else bt_insert ''files_optional'' (JObj merged) m)"

text \<open>\<open>apply_extend\<close>: fields are added when missing or null, except the merge declarations, which are united.\<close>

definition extend_step :: "string \<times> json \<Rightarrow> (string \<times> json) list \<Rightarrow> (string \<times> json) list" where
  "extend_step e m =
     (if fst e = ''files_merged'' then
        (let m1 = bt_upsert ''files_merged'' id (JObj []) m
         in case (obind (map_of m1 ''files_merged'') as_object, as_object (snd e)) of
              (Some dst, Some src) \<Rightarrow>
                bt_insert ''files_merged'' (JObj (fold (\<lambda>s acc. bt_upsert (fst s) id (snd s) acc) src dst)) m1
            | _ \<Rightarrow> m1)
      else (case map_of m (fst e) of
              None \<Rightarrow> bt_insert (fst e) (snd e) m
            | Some v \<Rightarrow> if v = JNull then bt_insert (fst e) (snd e) m else m))"

definition apply_extend :: "(string \<times> json) list \<Rightarrow> (string \<times> json) list \<Rightarrow> (string \<times> json) list" where
  "apply_extend m ext_map = fold extend_step ext_map m"

section \<open>Update pushes\<close>

type_synonym diffs = "(string, diff_action list) hash_map"

definition DIFF_LIMIT :: nat where
  "DIFF_LIMIT = 30 * 1024"

text \<open>One file of \<open>take_diffs\<close>: its snapshot is diffed against the file and then deleted.\<close>

definition take_diff_step :: "os \<Rightarrow> dir_path \<Rightarrow> string \<Rightarrow> string \<Rightarrow> diffs \<times> disk_files \<Rightarrow> diffs \<times> disk_files" where
  "take_diff_step sys root dir rel st =
     (case st of (out, fs) \<Rightarrow>
        let full = dir @ rel; old_path = full @ ''-old''
        in if \<not> st_exists root fs old_path then (out, fs)
           else let out' =
             (case (st_read root fs old_path, st_read root fs full) of
                (Some old, Some new) \<Rightarrow>
                  (case diff old new (Some DIFF_LIMIT) of
                     Some actions \<Rightarrow> hm_insert rel actions out
                   | None \<Rightarrow> out)
              | _ \<Rightarrow> out)
           in (out', fst (st_delete sys root fs old_path)))"

definition take_diffs :: "ext \<Rightarrow> os \<Rightarrow> dir_path \<Rightarrow> disk_files \<Rightarrow> string \<Rightarrow> diffs \<times> disk_files" where
  "take_diffs E sys root fs content_inner_path =
     (case obind (obind (st_read root fs content_inner_path) (ex_parse E)) (\<lambda>c. get_obj c ''files'') of
        None \<Rightarrow> ([], fs)
      | Some fl \<Rightarrow> fold (take_diff_step sys root (parent_dir_prefix content_inner_path)) (map fst fl) ([], fs))"

definition encode_edx_diffs :: "diffs \<Rightarrow> (string \<times> bytes) list" where
  "encode_edx_diffs ds = map (\<lambda>e. (fst e, encode_actions (snd e))) ds"

definition decode_edx_diffs :: "(string \<times> bytes) list \<Rightarrow> diffs" where
  "decode_edx_diffs ds =
     fold (\<lambda>e out. case decode_actions (snd e) of Some acts \<Rightarrow> hm_insert (fst e) acts out | None \<Rightarrow> out) ds []"

text \<open>One file of the receiver's loop: the patched bytes are written only when they have the declared hash.\<close>

definition apply_diff_step :: "(bytes \<Rightarrow> string) \<Rightarrow> os \<Rightarrow> dir_path \<Rightarrow> (string \<Rightarrow> xfile option) \<Rightarrow> string \<Rightarrow>
    string \<times> diff_action list \<Rightarrow> string list \<times> disk_files \<Rightarrow> string list \<times> disk_files" where
  "apply_diff_step hb sys root info_of diff_dir d st =
     (case st of (arrived, fs) \<Rightarrow>
        let full = diff_dir @ fst d
        in case info_of full of
             None \<Rightarrow> (arrived, fs)
           | Some info \<Rightarrow>
               if st_verify hb root fs full (xf_sha512 info) then (arrived, fs)
               else (case st_read root fs full of
                  None \<Rightarrow> (arrived, fs)
                | Some old \<Rightarrow>
                    (case patch old (snd d) of
                       Inl _ \<Rightarrow> (arrived, fs)
                     | Inr new \<Rightarrow>
                         if hb new \<noteq> xf_sha512 info then (arrived, fs)
                         else (case st_write sys root fs full new of
                            (fs', ok) \<Rightarrow> (if ok then arrived @ [full] else arrived, fs')))))"

definition declared_info :: "xite \<Rightarrow> xfile list option \<Rightarrow> string \<Rightarrow> xfile option" where
  "declared_info x child_files full =
     (case child_files of
        Some fl \<Rightarrow> find (\<lambda>f. xf_inner_path f = full) fl
      | None \<Rightarrow> file_info x full)"

definition apply_diffs :: "(bytes \<Rightarrow> string) \<Rightarrow> os \<Rightarrow> xite \<Rightarrow> disk_files \<Rightarrow> string \<Rightarrow> diffs \<Rightarrow> xfile list option \<Rightarrow>
    string list \<times> disk_files" where
  "apply_diffs hb sys x fs inner_path ds child_files =
     fold (apply_diff_step hb sys (xi_root x) (declared_info x child_files) (parent_dir_prefix inner_path)) ds ([], fs)"

section \<open>Only verified content is adopted\<close>

text \<open>
  The operations that change a xite's content or files, with the file system they leave: staging, setting and
  loading a root, adding a child, taking and applying diffs.  Between them other programs may change any file.
  Reading the local copy without verification (\<open>load_content_local\<close>) is not among them.
\<close>

inductive xite_reach :: "ext \<Rightarrow> os \<Rightarrow> (disk_files \<Rightarrow> string \<Rightarrow> string list) \<Rightarrow> xite \<Rightarrow> disk_files \<Rightarrow> bool"
  for E :: ext and sys :: os and listing :: "disk_files \<Rightarrow> string \<Rightarrow> string list" where
  reach_new: "xi_content x = None \<Longrightarrow> xite_reach E sys listing x fs"
| reach_stage: "xite_reach E sys listing x fs \<Longrightarrow> stage_content_limited E x b lim = Inr x' \<Longrightarrow>
    xite_reach E sys listing x' fs"
| reach_set: "xite_reach E sys listing x fs \<Longrightarrow> set_content_limited E sys x fs b lim = (res, x', fs') \<Longrightarrow>
    xite_reach E sys listing x' fs'"
| reach_load: "xite_reach E sys listing x fs \<Longrightarrow> load_content E x fs = Inr (x', found) \<Longrightarrow>
    xite_reach E sys listing x' fs"
| reach_add: "xite_reach E sys listing x fs \<Longrightarrow> add_content E sys listing x fs p b xids = (r, fs') \<Longrightarrow>
    xite_reach E sys listing x fs'"
| reach_take_diffs: "xite_reach E sys listing x fs \<Longrightarrow> take_diffs E sys (xi_root x) fs p = (ds, fs') \<Longrightarrow>
    xite_reach E sys listing x fs'"
| reach_apply_diffs: "xite_reach E sys listing x fs \<Longrightarrow> apply_diffs hb sys x fs p ds child_files = (arrived, fs') \<Longrightarrow>
    xite_reach E sys listing x fs'"
| reach_others: "xite_reach E sys listing x fs \<Longrightarrow> xite_reach E sys listing x fs'"

definition content_verified :: "ext \<Rightarrow> xite \<Rightarrow> bool" where
  "content_verified E x \<longleftrightarrow>
     (\<forall>c. xi_content x = Some c \<longrightarrow>
        (\<exists>len lim. verify_content_file E ''content.json'' c len (root_ctx x lim) = Inr ()))"

lemma root_ctx_content [simp]: "root_ctx (x\<lparr>xi_content := c\<rparr>) lim = root_ctx x lim"
  by (simp add: root_ctx_def)

lemma stage_verified: "stage_content_limited E x b lim = Inr x' \<Longrightarrow> content_verified E x'"
  by (auto simp: stage_content_limited_def content_verified_def split: option.splits sum.splits) blast

lemma set_content_cases:
  "set_content_limited E sys x fs b lim = (res, x', fs') \<Longrightarrow> x' = x \<or> stage_content_limited E x b lim = Inr x'"
  by (auto simp: set_content_limited_def split: sum.splits prod.splits if_splits)

lemma load_content_cases:
  "load_content E x fs = Inr (x', found) \<Longrightarrow> x' = x \<or> (\<exists>b. stage_content E x b = Inr x')"
  by (auto simp: load_content_def split: if_splits option.splits sum.splits)

lemma reach_verified: "xite_reach E sys listing x fs \<Longrightarrow> content_verified E x"
proof (induction rule: xite_reach.induct)
  case (reach_new x fs)
  then show ?case by (simp add: content_verified_def)
next
  case (reach_set x fs b lim res x' fs')
  then show ?case using set_content_cases stage_verified by blast
next
  case (reach_load x fs x' found)
  then show ?case using load_content_cases stage_verified unfolding stage_content_def by blast
qed (auto intro: stage_verified)

lemma root_ctx_simps [simp]: "cx_address (root_ctx x lim) = xi_address x" "cx_loaded (root_ctx x lim) p = None"
  "cx_resolve_xid (root_ctx x lim) = (\<lambda>_. [])"
  by (simp_all add: root_ctx_def)

definition own_signers :: "xite \<Rightarrow> json \<Rightarrow> string list" where
  "own_signers x c = root_signers c (root_ctx x 0)"

lemma own_signers_eq: "root_signers c (root_ctx x lim) = own_signers x c"
  by (simp add: own_signers_def root_signers_def complete_signers_def Let_def)

text \<open>
  C4. Whatever sequence of staging, setting and loading of a root, child updates, diffs taken and diffs applied a xite
  goes through, and whatever other programs do to its files meanwhile, the content it holds is
  signed by its own key, or by a signer of a list its key has signed.
\<close>

theorem held_content_authentic:
  assumes "xite_reach E sys listing x fs" "xi_content x = Some c"
  shows "signed_by E c (xi_address x) \<or>
    (\<exists>a \<in> set (own_signers x c). signed_by E c a \<and>
       ex_verify E (''1:'' @ join_by '','' (own_signers x c)) (xi_address x) (unwrap_or (get_str c ''signers_sign'') []))"
proof -
  obtain len lim where v: "verify_content_file E ''content.json'' c len (root_ctx x lim) = Inr ()"
    using reach_verified [OF assms(1)] assms(2) by (auto simp: content_verified_def)
  have "\<exists>a \<in> set (own_signers x c). signed_by E c a"
    using verify_content_file_ok(1) [OF v] by (simp add: valid_signers_def own_signers_eq)
  moreover have "ex_verify E (''1:'' @ join_by '','' (own_signers x c)) (xi_address x) (unwrap_or (get_str c ''signers_sign'') [])"
    if "length (own_signers x c) > 1"
    using verify_content_file_ok(3) [OF v] that by (simp add: own_signers_eq)
  moreover have "own_signers x c = [xi_address x]" if "\<not> length (own_signers x c) > 1"
    using complete_signers_single that unfolding own_signers_def root_signers_def by (metis not_less root_ctx_simps(1))
  ultimately show ?thesis by fastforce
qed

section \<open>Rejected children change nothing\<close>

text \<open>
  A child content.json is stored only when it verifies against the units already stored; a rejected
  one leaves the file system as it was.
\<close>

theorem add_content_verified:
  "case add_content E sys listing x fs inner_path b xid_map of
     (Inl (XCrypt e), fs') \<Rightarrow> fs' = fs
   | (Inl XParse, fs') \<Rightarrow> fs' = fs
   | (Inl (XProtocol e), fs') \<Rightarrow> False
   | (Inl XPanic, fs') \<Rightarrow> False
   | (Inl XIo, fs') \<Rightarrow> fs' = fst (st_write sys (xi_root x) fs inner_path b)
   | (Inr _, fs') \<Rightarrow> (\<exists>j. ex_parse E b = Some j \<and> snd (st_write sys (xi_root x) fs inner_path b) \<and>
        verify_content_file E inner_path j (i64_wrap (int (length b))) (child_ctx E x fs xid_map) = Inr ())"
proof (cases "ex_parse E b")
  case (Some j)
  obtain fs1 ok where w: "st_write sys (xi_root x) fs inner_path b = (fs1, ok)" by fastforce
  show ?thesis
    by (cases "verify_content_file E inner_path j (i64_wrap (int (length b))) (child_ctx E x fs xid_map)")
      (auto simp: add_content_def Some w Let_def)
qed (simp add: add_content_def)

definition sample_xite :: xite where
  "sample_xite = \<lparr>xi_address = ''x'', xi_root = [''data''], xi_content = None\<rparr>"

definition sample_os :: os where
  "sample_os = \<lparr>os_write = (\<lambda>fs p b. (fs(p \<mapsto> b), True)), os_remove = (\<lambda>fs p. (fs(p := None), True))\<rparr>"

lemma sample_os_lawful: "os_lawful sample_os"
  by (simp add: os_lawful_def sample_os_def)

theorem held_content_authentic_witness: "signed_by sample_ext sample_root ''x''"
proof -
  let ?E = "sample_ext\<lparr>ex_parse := (\<lambda>_. Some sample_root)\<rparr>"
  have s: "stage_content_limited ?E sample_xite [123] 1000 = Inr (sample_xite\<lparr>xi_content := Some sample_root\<rparr>)"
    by code_simp
  have "xite_reach ?E sample_os (\<lambda>_ _. []) (sample_xite\<lparr>xi_content := Some sample_root\<rparr>) (\<lambda>_. None)"
    by (rule reach_stage [OF reach_new s]) (simp add: sample_xite_def)
  moreover have "own_signers (sample_xite\<lparr>xi_content := Some sample_root\<rparr>) sample_root = [''x'']" by code_simp
  ultimately have "signed_by ?E sample_root ''x''"
    using held_content_authentic [of ?E sample_os "\<lambda>_ _. []" "sample_xite\<lparr>xi_content := Some sample_root\<rparr>"]
    by (fastforce simp: sample_xite_def)
  then show ?thesis by (simp add: signed_by_def)
qed

section \<open>Update pushes deliver and never corrupt\<close>

lemma apply_diff_step_writes:
  assumes "apply_diff_step hb sys root info_of dir d (arrived, fs) = (arrived', fs')"
  shows "fs' = fs \<or> (\<exists>info new. info_of (dir @ fst d) = Some info \<and> hb new = xf_sha512 info \<and>
     fs' = fst (st_write sys root fs (dir @ fst d) new))"
  using assms by (auto simp: apply_diff_step_def Let_def split: option.splits if_splits sum.splits prod.splits)

definition os_writes :: "os \<Rightarrow> bool" where
  "os_writes sys \<longleftrightarrow> os_lawful sys \<and> (\<forall>fs p b. snd (os_write sys fs p b))"

lemma st_write_other:
  assumes "os_writes sys"
  shows "fst (st_write sys root fs p b) q = (if path root p = Inr q then Some b else fs q)"
  using assms by (auto simp: st_write_def os_writes_def os_lawful_def split: sum.splits)

lemma st_write_elsewhere:
  assumes "os_lawful sys" "fst (st_write sys root fs p b) q \<noteq> fs q"
  shows "path root p = Inr q \<and> fst (st_write sys root fs p b) q = fst (os_write sys fs q b) q"
proof (cases "path root p")
  case (Inr p')
  moreover have "p' = q" using assms Inr unfolding os_lawful_def st_write_def by (metis sum.case(2))
  ultimately show ?thesis by (simp add: st_write_def)
qed (use assms(2) in \<open>simp add: st_write_def\<close>)

lemma os_write_success: "os_lawful sys \<Longrightarrow> snd (os_write sys fs p b) \<Longrightarrow> fst (os_write sys fs p b) p = Some b"
  by (simp add: os_lawful_def)

text \<open>
  C14. No diff can corrupt a file: whatever actions a peer sends, a file the patching changes is a file the signed
  content.json declares, and it holds what one write of bytes with the declared hash left there: those very bytes when
  the operating system reported success, whatever a failed write leaves otherwise.
\<close>

theorem apply_diffs_safe:
  assumes "os_lawful sys" "apply_diffs hb sys x fs inner_path ds child_files = (arrived, fs')" "fs' q \<noteq> fs q"
  shows "\<exists>full info new fs0. declared_info x child_files full = Some info \<and> path (xi_root x) full = Inr q \<and>
     hb new = xf_sha512 info \<and> fs' q = fst (os_write sys fs0 q new) q \<and> (\<not> snd (os_write sys fs0 q new) \<or> fs' q = Some new)"
proof -
  let ?info = "declared_info x child_files" and ?dir = "parent_dir_prefix inner_path"
  let ?ok = "\<lambda>fs1. fs1 q \<noteq> fs q \<longrightarrow>
    (\<exists>full info new fs0. ?info full = Some info \<and> path (xi_root x) full = Inr q \<and> hb new = xf_sha512 info \<and>
       fs1 q = fst (os_write sys fs0 q new) q)"
  have step: "?ok (snd (apply_diff_step hb sys (xi_root x) ?info ?dir d st))" if st: "?ok (snd st)" for d st
  proof -
    obtain a1 fs1 a2 fs2 where e: "st = (a1, fs1)" "apply_diff_step hb sys (xi_root x) ?info ?dir d (a1, fs1) = (a2, fs2)"
      by (cases st; cases "apply_diff_step hb sys (xi_root x) ?info ?dir d st") auto
    from apply_diff_step_writes [OF e(2)] show ?thesis
    proof (elim disjE exE conjE)
      assume "fs2 = fs1"
      then show ?thesis using st e by simp
    next
      fix info new
      assume w: "?info (?dir @ fst d) = Some info" "hb new = xf_sha512 info"
        "fs2 = fst (st_write sys (xi_root x) fs1 (?dir @ fst d) new)"
      show ?thesis
      proof (cases "fs2 q = fs1 q")
        case True
        then show ?thesis using st e by simp
      next
        case False
        then show ?thesis using st_write_elsewhere [OF assms(1)] w e by (metis snd_conv)
      qed
    qed
  qed
  have "?ok (snd (fold (apply_diff_step hb sys (xi_root x) ?info ?dir) ds st))" if "?ok (snd st)" for st
    using that by (induction ds arbitrary: st) (use step in auto)
  from this [of "([], fs)"] show ?thesis
    using assms(2,3) os_write_success [OF assms(1)] unfolding apply_diffs_def by (metis snd_conv)
qed

definition sample_info :: "string \<Rightarrow> string \<Rightarrow> xfile" where
  "sample_info p h = \<lparr>xf_inner_path = p, xf_size = 2, xf_sha512 = h\<rparr>"

definition sample_hash :: "bytes \<Rightarrow> string" where
  "sample_hash b = map (\<lambda>w. char_of (unat w)) b"

lemma decode_encode_single:
  assumes "decode_actions (encode_actions acts) = Some acts"
  shows "decode_edx_diffs (encode_edx_diffs [(rel, acts)]) = [(rel, acts)]"
  using assms by (simp add: decode_edx_diffs_def encode_edx_diffs_def)

text \<open>
  C13. A push delivers: when the publisher's diff of a file against its snapshot fits the limit, a receiver
  that still has the snapshot's bytes, and whose signed content.json declares the new file's hash, ends
  with the new bytes after the diff has travelled over the wire.
\<close>

theorem push_delivers_file:
  assumes "st_read rp fp (dir @ rel @ ''-old'') = Some old" "st_read rp fp (dir @ rel) = Some new"
    and "take_diff_step sysP rp dir rel ([], fp) = ([(rel, acts)], fp')"
    and "length old < 2 ^ 64" "length (encode_actions acts) < 2 ^ 64"
    and "os_writes sys" "dir = parent_dir_prefix inner_path"
    and "st_read (xi_root x) fs (dir @ rel) = Some old"
    and "declared_info x child_files (dir @ rel) = Some info" "xf_sha512 info = hb new" "hb old \<noteq> hb new"
    and "apply_diffs hb sys x fs inner_path (decode_edx_diffs (encode_edx_diffs [(rel, acts)])) child_files = (arrived, fs')"
  shows "arrived = [dir @ rel] \<and> st_read (xi_root x) fs' (dir @ rel) = Some new"
proof -
  have d: "diff old new (Some DIFF_LIMIT) = Some acts"
    using assms(1-3) by (auto simp: take_diff_step_def Let_def split: if_splits option.splits)
  have patch: "patch old acts = Inr new" using diff_patch [OF d] assms(4) by (simp add: u64_max_def)
  have wire: "decode_edx_diffs (encode_edx_diffs [(rel, acts)]) = [(rel, acts)]"
    by (rule decode_encode_single [OF diff_decode [OF d assms(4,5)]])
  obtain p where p: "path (xi_root x) (dir @ rel) = Inr p"
    using assms(8) by (auto simp: st_read_def split: sum.splits)
  obtain fs1 ok where w: "st_write sys (xi_root x) fs (dir @ rel) new = (fs1, ok)" by fastforce
  have "ok" using w assms(6) p by (auto simp: st_write_def os_writes_def) (metis snd_conv)
  have nv: "\<not> st_verify hb (xi_root x) fs (dir @ rel) (hb new)" using assms(8,11) by (simp add: st_verify_def)
  have "apply_diffs hb sys x fs inner_path [(rel, acts)] child_files = ([dir @ rel], fs1)"
    using assms(7-10) patch nv w \<open>ok\<close> by (simp add: apply_diffs_def apply_diff_step_def)
  then have r: "arrived = [dir @ rel]" "fs' = fs1" using assms(12) wire by simp_all
  have "fs1 p = Some new" using st_write_other [OF assms(6), of "xi_root x" fs "dir @ rel" new p] w p by simp
  then show ?thesis using r p by (simp add: st_read_def)
qed

definition sample_files :: disk_files where
  "sample_files = [[''data'', ''a''] \<mapsto> [97, 10, 98, 10], [''data'', ''a-old''] \<mapsto> [97, 10]]"

lemma sample_diff: "diff [97, 10] [97, 10, 98, 10] (Some DIFF_LIMIT) = Some [DEqual 2, DInsert [[98, 10]]]"
proof -
  have s: "split_keepends [97, 10] = [[97, 10]]" "split_keepends [97, 10, 98, 10] = [[97, 10], [98, 10]]"
    by code_simp+
  show ?thesis by (simp add: diff_eval s DIFF_LIMIT_def)
qed

lemma sample_paths: "path [''data''] ''a'' = Inr [''data'', ''a'']" "path [''data''] ''a-old'' = Inr [''data'', ''a-old'']"
  "parent_dir_prefix ''content.json'' = []"
  by code_simp+

lemma sample_os_writes: "os_writes sample_os"
  using sample_os_lawful by (simp add: os_writes_def sample_os_def)

theorem push_delivers_file_witness:
  "st_read [''data''] (snd (apply_diffs sample_hash sample_os sample_xite [[''data'', ''a''] \<mapsto> [97, 10]] ''content.json''
     (decode_edx_diffs (encode_edx_diffs [(''a'', [DEqual 2, DInsert [[98, 10]]])]))
     (Some [sample_info ''a'' (sample_hash [97, 10, 98, 10])]))) ''a'' = Some [97, 10, 98, 10]"
proof -
  let ?res = "apply_diffs sample_hash sample_os sample_xite [[''data'', ''a''] \<mapsto> [97, 10]] ''content.json''
     (decode_edx_diffs (encode_edx_diffs [(''a'', [DEqual 2, DInsert [[98, 10]]])]))
     (Some [sample_info ''a'' (sample_hash [97, 10, 98, 10])])"
  have rd: "st_read [''data''] sample_files ([] @ ''a'' @ ''-old'') = Some [97, 10]"
    "st_read [''data''] sample_files ([] @ ''a'') = Some [97, 10, 98, 10]"
    by (simp_all add: st_read_def sample_paths sample_files_def)
  have "take_diff_step sample_os [''data''] [] ''a'' ([], sample_files) =
    ([(''a'', [DEqual 2, DInsert [[98, 10]]])], sample_files([''data'', ''a-old''] := None))"
    using rd by (simp add: take_diff_step_def st_exists_def st_delete_def sample_paths sample_files_def sample_os_def sample_diff Let_def)
  from push_delivers_file [OF rd this _ _ sample_os_writes, of "''content.json''" sample_xite "[[''data'', ''a''] \<mapsto> [97, 10]]"
      "Some [sample_info ''a'' (sample_hash [97, 10, 98, 10])]" "sample_info ''a'' (sample_hash [97, 10, 98, 10])"
      sample_hash "fst ?res" "snd ?res"]
  show ?thesis
    by (simp add: sample_paths sample_xite_def st_read_def declared_info_def sample_info_def sample_hash_def
        encode_actions_def)
qed

theorem apply_diffs_safe_witness:
  "\<exists>full info new. declared_info sample_xite (Some [sample_info ''a'' (sample_hash [97, 10, 98, 10])]) full = Some info \<and>
     path [''data''] full = Inr [''data'', ''a''] \<and> sample_hash new = xf_sha512 info \<and> new = [97, 10, 98, 10]"
proof -
  let ?fs = "[[''data'', ''a''] \<mapsto> [97, 10]] :: disk_files"
  let ?ds = "[(''a'', [DEqual 2, DInsert [[98, 10]]])]"
  let ?ch = "Some [sample_info ''a'' (sample_hash [97, 10, 98, 10])]"
  have p: "patch [97, 10] [DEqual 2, DInsert [[98, 10]]] = Inr [97, 10, 98, 10]"
    by (simp add: patch_def diff_end_def checked_add_def u64_max_def)
  have "apply_diffs sample_hash sample_os sample_xite ?fs ''content.json'' ?ds ?ch =
      ([''a''], ?fs([''data'', ''a''] \<mapsto> [97, 10, 98, 10]))"
    by (simp add: apply_diffs_def apply_diff_step_def declared_info_def sample_info_def st_verify_def st_read_def
        st_write_def sample_paths sample_xite_def sample_os_def p sample_hash_def Let_def)
  from apply_diffs_safe [OF sample_os_lawful this, of "[''data'', ''a'']"] show ?thesis
    by (auto simp: sample_os_def sample_xite_def)
qed

end
