(* ===== verification/Self_Enc.thy ===== *)
theory Self_Enc
  imports Rust_Std
begin

text \<open>
  Self-encryption of private files, after \<^verbatim>\<open>epix-selfenc/src/lib.rs\<close>: the salted-convergent and the
  random-key mode, decryption from a data map through a shard fetcher, and the sealed data map.  BLAKE3
  (hash and key derivation) and XChaCha20-Poly1305 are third-party and are the fields of \<open>aead_suite\<close>;
  the random nonce of a seal is an argument.  The fetcher is an \<open>FnMut\<close>, so its answer may depend on the
  number of the call.
\<close>

section \<open>Definitions\<close>

datatype mode = SaltedConvergent | RandomKey

record aead_suite =
  ae_hash :: "bytes \<Rightarrow> bytes"
  ae_derive_key :: "string \<Rightarrow> bytes \<Rightarrow> bytes"
  ae_encrypt :: "bytes \<Rightarrow> bytes \<Rightarrow> bytes \<Rightarrow> bytes"
  ae_decrypt :: "bytes \<Rightarrow> bytes \<Rightarrow> bytes \<Rightarrow> bytes option"

text \<open>What the two crates document: 32-byte hashes, and decryption inverts encryption under the same key and nonce.\<close>

definition aead_lawful :: "aead_suite \<Rightarrow> bool" where
  "aead_lawful S \<longleftrightarrow> (\<forall>b. length (ae_hash S b) = 32) \<and>
     (\<forall>k n p. ae_decrypt S k n (ae_encrypt S k n p) = Some p)"

definition KDF_CONTEXT :: string where
  "KDF_CONTEXT = ''epixnet-selfenc-v1''"

definition CHUNK_SIZE :: nat where
  "CHUNK_SIZE = 1024 * 1024"

record chunk_ref =
  cr_plain_hash :: bytes
  cr_cipher_addr :: bytes
  cr_len :: u32

record encrypted =
  en_mode :: mode
  en_chunks :: "chunk_ref list"
  en_shards :: "(bytes \<times> bytes) list"
  en_file_key :: "bytes option"

datatype self_enc_error =
  MissingShard bytes | CorruptShard bytes | DecryptFailed nat | PlaintextHashMismatch nat
| DatamapDecryptFailed | MalformedDatamap

definition zero_hash :: bytes where
  "zero_hash = replicate 32 0"

definition NONCE_CHUNK :: u8 where
  "NONCE_CHUNK = 1"

definition nonce_for :: "u8 \<Rightarrow> u64 \<Rightarrow> bytes" where
  "nonce_for tag index = tag # le64 index @ replicate 15 0"

text \<open>The key material of \<open>convergent_key\<close>.\<close>

definition convergent_material :: "bytes \<Rightarrow> bytes \<Rightarrow> bytes \<Rightarrow> bytes \<Rightarrow> u64 \<Rightarrow> bytes" where
  "convergent_material salt own prev1 prev2 i = salt @ own @ prev1 @ prev2 @ le64 i"

definition convergent_key :: "aead_suite \<Rightarrow> bytes \<Rightarrow> bytes \<Rightarrow> bytes \<Rightarrow> bytes \<Rightarrow> u64 \<Rightarrow> bytes" where
  "convergent_key S salt own prev1 prev2 i = ae_derive_key S KDF_CONTEXT (convergent_material salt own prev1 prev2 i)"

definition random_material :: "bytes \<Rightarrow> u64 \<Rightarrow> bytes" where
  "random_material file_key i = file_key @ le64 i"

text \<open>\<open>[T]::chunks\<close>: pieces of \<open>n\<close> elements, the last one possibly shorter.\<close>

function chunks_of :: "nat \<Rightarrow> 'a list \<Rightarrow> 'a list list" where
  "chunks_of n xs = (if xs = [] \<or> n = 0 then [] else take n xs # chunks_of n (drop n xs))"
  by pat_completeness auto
termination by (relation "measure (\<lambda>(n, xs). length xs)") auto

declare chunks_of.simps [simp del]

definition split_data :: "bytes \<Rightarrow> bytes list" where
  "split_data d = (if d = [] then [[]] else chunks_of CHUNK_SIZE d)"

text \<open>\<open>hashes[i - k]\<close> when there is one, else the zero hash.\<close>

definition prev_hash :: "bytes list \<Rightarrow> nat \<Rightarrow> nat \<Rightarrow> bytes" where
  "prev_hash hashes i k = (if i \<ge> k then hashes ! (i - k) else zero_hash)"

text \<open>One chunk: sealed under its key, addressed by the hash of its ciphertext.\<close>

definition seal_chunk :: "aead_suite \<Rightarrow> bytes \<Rightarrow> nat \<Rightarrow> bytes \<Rightarrow> chunk_ref \<times> bytes \<times> bytes" where
  "seal_chunk S key i chunk =
     (let ct = ae_encrypt S key (nonce_for NONCE_CHUNK (as_u64 i)) chunk;
          addr = ae_hash S ct
      in (\<lparr>cr_plain_hash = ae_hash S chunk, cr_cipher_addr = addr, cr_len = as_u32 (length chunk)\<rparr>, addr, ct))"

definition encrypt_convergent :: "aead_suite \<Rightarrow> bytes \<Rightarrow> bytes \<Rightarrow> encrypted" where
  "encrypt_convergent S d salt =
     (let plain_chunks = split_data d;
          hashes = map (ae_hash S) plain_chunks;
          out = map (\<lambda>(i, chunk). seal_chunk S
                  (convergent_key S salt (hashes ! i) (prev_hash hashes i 1) (prev_hash hashes i 2) (as_u64 i)) i chunk)
                (enumerate 0 plain_chunks)
      in \<lparr>en_mode = SaltedConvergent, en_chunks = map fst out, en_shards = map snd out, en_file_key = None\<rparr>)"

definition encrypt_random_key :: "aead_suite \<Rightarrow> bytes \<Rightarrow> bytes \<Rightarrow> encrypted" where
  "encrypt_random_key S d file_key =
     (let out = map (\<lambda>(i, chunk). seal_chunk S
                  (ae_derive_key S KDF_CONTEXT (random_material file_key (as_u64 i))) i chunk)
                (enumerate 0 (split_data d))
      in \<lparr>en_mode = RandomKey, en_chunks = map fst out, en_shards = map snd out, en_file_key = Some file_key\<rparr>)"

definition decrypt_key :: "aead_suite \<Rightarrow> mode \<Rightarrow> chunk_ref list \<Rightarrow> bytes \<Rightarrow> nat \<Rightarrow> bytes" where
  "decrypt_key S md chunks key_material i =
     (case md of
        SaltedConvergent \<Rightarrow>
          convergent_key S key_material (cr_plain_hash (chunks ! i)) (prev_hash (map cr_plain_hash chunks) i 1)
            (prev_hash (map cr_plain_hash chunks) i 2) (as_u64 i)
      | RandomKey \<Rightarrow> ae_derive_key S KDF_CONTEXT (random_material key_material (as_u64 i)))"

fun decrypt_loop :: "aead_suite \<Rightarrow> mode \<Rightarrow> chunk_ref list \<Rightarrow> bytes \<Rightarrow> (nat \<Rightarrow> bytes \<Rightarrow> bytes option) \<Rightarrow>
    nat \<Rightarrow> chunk_ref list \<Rightarrow> bytes \<Rightarrow> self_enc_error + bytes" where
  "decrypt_loop S md chunks km fetch i [] out = Inr out"
| "decrypt_loop S md chunks km fetch i (c # rest) out =
     (case fetch i (cr_cipher_addr c) of
        None \<Rightarrow> Inl (MissingShard (cr_cipher_addr c))
      | Some ct \<Rightarrow>
          if ae_hash S ct \<noteq> cr_cipher_addr c then Inl (CorruptShard (cr_cipher_addr c))
          else (case ae_decrypt S (decrypt_key S md chunks km i) (nonce_for NONCE_CHUNK (as_u64 i)) ct of
             None \<Rightarrow> Inl (DecryptFailed i)
           | Some pt \<Rightarrow>
               if ae_hash S pt \<noteq> cr_plain_hash c then Inl (PlaintextHashMismatch i)
               else decrypt_loop S md chunks km fetch (Suc i) rest (out @ pt)))"

definition se_decrypt :: "aead_suite \<Rightarrow> mode \<Rightarrow> chunk_ref list \<Rightarrow> bytes \<Rightarrow> (nat \<Rightarrow> bytes \<Rightarrow> bytes option) \<Rightarrow>
    self_enc_error + bytes" where
  "se_decrypt S md chunks key_material fetch = decrypt_loop S md chunks key_material fetch 0 chunks []"

section \<open>Data maps\<close>

fun mode_byte :: "mode \<Rightarrow> u8" where
  "mode_byte SaltedConvergent = 0"
| "mode_byte RandomKey = 1"

definition chunk_bytes :: "chunk_ref \<Rightarrow> bytes" where
  "chunk_bytes c = cr_plain_hash c @ cr_cipher_addr c @ le32 (cr_len c)"

definition serialize_datamap :: "chunk_ref list \<Rightarrow> mode \<Rightarrow> bytes" where
  "serialize_datamap chunks md = mode_byte md # le32 (as_u32 (length chunks)) @ concat (map chunk_bytes chunks)"

definition body_len_matches :: "u32 \<Rightarrow> nat \<Rightarrow> bool" where
  "body_len_matches n body_len \<longleftrightarrow> body_len = unat n * 68"

definition read_chunk :: "bytes \<Rightarrow> nat \<Rightarrow> chunk_ref" where
  "read_chunk body i =
     (let o' = i * 68
      in \<lparr>cr_plain_hash = take 32 (drop o' body), cr_cipher_addr = take 32 (drop (o' + 32) body),
          cr_len = as_u32 (of_le_bytes (take 4 (drop (o' + 64) body)))\<rparr>)"

definition deserialize_datamap :: "bytes \<Rightarrow> self_enc_error + (chunk_ref list \<times> mode)" where
  "deserialize_datamap b =
     (if length b < 5 then Inl MalformedDatamap
      else if b ! 0 \<noteq> 0 \<and> b ! 0 \<noteq> 1 then Inl MalformedDatamap
      else let md = (if b ! 0 = 0 then SaltedConvergent else RandomKey);
               n = as_u32 (of_le_bytes (take 4 (drop 1 b)));
               body = drop 5 b
           in if \<not> body_len_matches n (length body) then Inl MalformedDatamap
              else Inr (map (read_chunk body) [0 ..< unat n], md))"

definition datamap_key :: "aead_suite \<Rightarrow> bytes \<Rightarrow> bytes" where
  "datamap_key S viewing_key = ae_derive_key S KDF_CONTEXT (viewing_key @ as_bytes ''datamap'')"

definition seal_datamap :: "aead_suite \<Rightarrow> bytes \<Rightarrow> chunk_ref list \<Rightarrow> mode \<Rightarrow> bytes \<Rightarrow> bytes \<times> bytes" where
  "seal_datamap S nonce chunks md viewing_key =
     (let sealed = nonce @ ae_encrypt S (datamap_key S viewing_key) nonce (serialize_datamap chunks md)
      in (ae_hash S sealed, sealed))"

definition open_datamap :: "aead_suite \<Rightarrow> bytes \<Rightarrow> bytes \<Rightarrow> self_enc_error + (chunk_ref list \<times> mode)" where
  "open_datamap S sealed viewing_key =
     (if length sealed < 24 then Inl DatamapDecryptFailed
      else case ae_decrypt S (datamap_key S viewing_key) (take 24 sealed) (drop 24 sealed) of
        None \<Rightarrow> Inl DatamapDecryptFailed
      | Some plain \<Rightarrow> deserialize_datamap plain)"

section \<open>Decryption\<close>

lemma concat_chunks_of: "n \<noteq> 0 \<Longrightarrow> concat (chunks_of n xs) = xs"
  by (induction n xs rule: chunks_of.induct) (subst chunks_of.simps, auto)

lemma concat_split_data [simp]: "concat (split_data d) = d"
  by (simp add: split_data_def concat_chunks_of CHUNK_SIZE_def)

text \<open>A chunk that the fetcher delivers and that was sealed under the key the reader derives.\<close>

definition chunk_fits :: "aead_suite \<Rightarrow> mode \<Rightarrow> chunk_ref list \<Rightarrow> bytes \<Rightarrow> (nat \<Rightarrow> bytes \<Rightarrow> bytes option) \<Rightarrow> bytes list \<Rightarrow> nat \<Rightarrow> bool" where
  "chunk_fits S md chunks km fetch plains j \<longleftrightarrow>
     fetch j (cr_cipher_addr (chunks ! j)) =
       Some (ae_encrypt S (decrypt_key S md chunks km j) (nonce_for NONCE_CHUNK (as_u64 j)) (plains ! j)) \<and>
     cr_cipher_addr (chunks ! j) =
       ae_hash S (ae_encrypt S (decrypt_key S md chunks km j) (nonce_for NONCE_CHUNK (as_u64 j)) (plains ! j)) \<and>
     cr_plain_hash (chunks ! j) = ae_hash S (plains ! j)"

lemma decrypt_loop_fits:
  assumes "aead_lawful S" "length plains = length chunks" "i \<le> length chunks"
    and "\<And>j. i \<le> j \<Longrightarrow> j < length chunks \<Longrightarrow> chunk_fits S md chunks km fetch plains j"
  shows "decrypt_loop S md chunks km fetch i (drop i chunks) out = Inr (out @ concat (drop i plains))"
  using assms(3,4)
proof (induction "length chunks - i" arbitrary: i out)
  case 0
  then show ?case using assms(2) by simp
next
  case (Suc n)
  then have i: "i < length chunks" by simp
  have fit: "chunk_fits S md chunks km fetch plains i" using Suc.prems(2) i by simp
  have "decrypt_loop S md chunks km fetch (Suc i) (drop (Suc i) chunks) (out @ plains ! i) =
      Inr ((out @ plains ! i) @ concat (drop (Suc i) plains))"
    using Suc.hyps(2) i by (intro Suc.hyps(1)) (auto intro: Suc.prems(2))
  moreover have "drop i chunks = chunks ! i # drop (Suc i) chunks" "drop i plains = plains ! i # drop (Suc i) plains"
    using i assms(2) by (simp_all add: Cons_nth_drop_Suc)
  moreover obtain ct where "fetch i (cr_cipher_addr (chunks ! i)) = Some ct" "ae_hash S ct = cr_cipher_addr (chunks ! i)"
    "ae_decrypt S (decrypt_key S md chunks km i) (nonce_for NONCE_CHUNK (as_u64 i)) ct = Some (plains ! i)"
    "ae_hash S (plains ! i) = cr_plain_hash (chunks ! i)"
    using fit assms(1) unfolding chunk_fits_def aead_lawful_def by metis
  ultimately show ?case by simp
qed

lemma decrypt_loop_binds:
  "decrypt_loop S md chunks km fetch i rest out = Inr res \<Longrightarrow>
     \<exists>pts. res = out @ concat pts \<and> map (ae_hash S) pts = map cr_plain_hash rest"
proof (induction rest arbitrary: i out)
  case (Cons c rest)
  then obtain pt where pt: "ae_hash S pt = cr_plain_hash c"
    "decrypt_loop S md chunks km fetch (Suc i) rest (out @ pt) = Inr res"
    by (auto split: option.splits if_splits)
  then obtain pts where "res = (out @ pt) @ concat pts" "map (ae_hash S) pts = map cr_plain_hash rest"
    using Cons.IH by blast
  then show ?case using pt(1) by (intro exI [of _ "pt # pts"]) simp
qed simp

section \<open>Encryption\<close>

definition sealed_with :: "aead_suite \<Rightarrow> (nat \<Rightarrow> bytes) \<Rightarrow> bytes list \<Rightarrow> encrypted \<Rightarrow> bool" where
  "sealed_with S key plains e \<longleftrightarrow>
     length (en_chunks e) = length plains \<and> length (en_shards e) = length plains \<and>
     (\<forall>j < length plains. (en_chunks e ! j, en_shards e ! j) = seal_chunk S (key j) j (plains ! j))"

lemma sealed_with_map:
  "sealed_with S key plains \<lparr>en_mode = md,
     en_chunks = map fst (map (\<lambda>(i, chunk). seal_chunk S (key i) i chunk) (enumerate 0 plains)),
     en_shards = map snd (map (\<lambda>(i, chunk). seal_chunk S (key i) i chunk) (enumerate 0 plains)), en_file_key = k\<rparr>"
  by (simp add: sealed_with_def nth_enumerate_eq)

lemma sealed_hashes: "sealed_with S key plains e \<Longrightarrow> map cr_plain_hash (en_chunks e) = map (ae_hash S) plains"
  by (rule nth_equalityI) (auto simp: sealed_with_def seal_chunk_def Let_def)

definition convergent_chunk_key :: "aead_suite \<Rightarrow> bytes \<Rightarrow> bytes \<Rightarrow> nat \<Rightarrow> bytes" where
  "convergent_chunk_key S salt d i =
     (let hashes = map (ae_hash S) (split_data d)
      in convergent_key S salt (hashes ! i) (prev_hash hashes i 1) (prev_hash hashes i 2) (as_u64 i))"

lemma convergent_sealed:
  "sealed_with S (convergent_chunk_key S salt d) (split_data d) (encrypt_convergent S d salt)"
  unfolding encrypt_convergent_def convergent_chunk_key_def Let_def by (rule sealed_with_map)

lemma random_sealed:
  "sealed_with S (\<lambda>i. ae_derive_key S KDF_CONTEXT (random_material k (as_u64 i))) (split_data d) (encrypt_random_key S d k)"
  unfolding encrypt_random_key_def Let_def by (rule sealed_with_map)

lemma convergent_decrypt_key:
  assumes "j < length (split_data d)"
  shows "decrypt_key S SaltedConvergent (en_chunks (encrypt_convergent S d salt)) salt j = convergent_chunk_key S salt d j"
proof -
  have h: "map cr_plain_hash (en_chunks (encrypt_convergent S d salt)) = map (ae_hash S) (split_data d)"
    by (rule sealed_hashes [OF convergent_sealed])
  then have "length (en_chunks (encrypt_convergent S d salt)) = length (split_data d)" by (metis length_map)
  then have "cr_plain_hash (en_chunks (encrypt_convergent S d salt) ! j) = map (ae_hash S) (split_data d) ! j"
    using h assms by (metis nth_map)
  then show ?thesis by (simp add: decrypt_key_def convergent_chunk_key_def h Let_def)
qed

lemma sealed_decrypts:
  assumes "aead_lawful S" "sealed_with S key plains e"
    and "\<And>j. j < length plains \<Longrightarrow> decrypt_key S md (en_chunks e) km j = key j"
    and "\<forall>j < length plains. fetch j (fst (en_shards e ! j)) = Some (snd (en_shards e ! j))"
  shows "se_decrypt S md (en_chunks e) km fetch = Inr (concat plains)"
proof -
  have len: "length plains = length (en_chunks e)" using assms(2) by (simp add: sealed_with_def)
  have "chunk_fits S md (en_chunks e) km fetch plains j" if j: "j < length (en_chunks e)" for j
  proof -
    have "(en_chunks e ! j, en_shards e ! j) = seal_chunk S (key j) j (plains ! j)"
      using assms(2) j len by (simp add: sealed_with_def)
    then have "en_shards e ! j = snd (seal_chunk S (key j) j (plains ! j))" "en_chunks e ! j = fst (seal_chunk S (key j) j (plains ! j))"
      by (metis snd_conv) (metis \<open>(en_chunks e ! j, en_shards e ! j) = seal_chunk S (key j) j (plains ! j)\<close> fst_conv)
    moreover have "fetch j (fst (en_shards e ! j)) = Some (snd (en_shards e ! j))" using assms(4) j len by simp
    ultimately show ?thesis
      using assms(3) j len by (simp add: chunk_fits_def seal_chunk_def Let_def)
  qed
  from decrypt_loop_fits [OF assms(1) len, of 0, simplified, OF this]
  show ?thesis by (simp add: se_decrypt_def)
qed

section \<open>Properties\<close>

text \<open>
  C19. Round trip: a reader with the salt (or the file key) and a fetcher that delivers the stored shards gets
  the file back, in both modes.
\<close>

theorem selfenc_roundtrip:
  assumes "aead_lawful S"
  shows "((\<forall>j < length (en_shards (encrypt_convergent S d salt)).
       fetch j (fst (en_shards (encrypt_convergent S d salt) ! j)) = Some (snd (en_shards (encrypt_convergent S d salt) ! j))) \<longrightarrow>
     se_decrypt S SaltedConvergent (en_chunks (encrypt_convergent S d salt)) salt fetch = Inr d) \<and>
    ((\<forall>j < length (en_shards (encrypt_random_key S d k)).
       fetch j (fst (en_shards (encrypt_random_key S d k) ! j)) = Some (snd (en_shards (encrypt_random_key S d k) ! j))) \<longrightarrow>
     se_decrypt S RandomKey (en_chunks (encrypt_random_key S d k)) k fetch = Inr d)"
proof -
  have "length (en_shards (encrypt_convergent S d salt)) = length (split_data d)"
    "length (en_shards (encrypt_random_key S d k)) = length (split_data d)"
    using convergent_sealed [of S salt d] random_sealed [of S k d] by (simp_all add: sealed_with_def)
  then show ?thesis
    using sealed_decrypts [OF assms convergent_sealed [of S salt d] convergent_decrypt_key, of fetch]
      sealed_decrypts [OF assms random_sealed [of S k d], of RandomKey k fetch]
    by (simp add: decrypt_key_def)
qed

text \<open>
  C20. Whatever key material the reader has and whatever the fetcher delivers, a successful decryption of a
  file's data map is the file itself, or exhibits a second preimage of the hash of one of its chunks.
\<close>

theorem decrypt_authentic:
  assumes "e \<in> {encrypt_convergent S d salt, encrypt_random_key S d k}" "se_decrypt S md (en_chunks e) km fetch = Inr out"
  shows "out = d \<or> (\<exists>p \<in> set (split_data d). \<exists>q. q \<noteq> p \<and> ae_hash S q = ae_hash S p)"
proof -
  have "map cr_plain_hash (en_chunks e) = map (ae_hash S) (split_data d)"
    using assms(1) sealed_hashes [OF convergent_sealed] sealed_hashes [OF random_sealed] by auto
  then obtain pts where pts: "out = concat pts" "map (ae_hash S) pts = map (ae_hash S) (split_data d)"
    using decrypt_loop_binds [OF assms(2) [unfolded se_decrypt_def]] by auto
  show ?thesis
  proof (cases "pts = split_data d")
    case False
    moreover have len: "length pts = length (split_data d)" using pts(2) by (metis length_map)
    ultimately obtain j where "j < length pts" "pts ! j \<noteq> split_data d ! j" by (metis nth_equalityI)
    moreover from this have "ae_hash S (pts ! j) = ae_hash S (split_data d ! j)" using pts(2) len by (metis nth_map)
    ultimately show ?thesis using len by (metis nth_mem)
  qed (simp add: pts(1))
qed

text \<open>
  The derived key of a convergent chunk is used for one plaintext only: when two chunks of any two files
  under any two salts get the same key material they are the same chunk at the same position, up to a
  collision of the hash, so a nonce never repeats under a key with different plaintexts.
\<close>

lemma convergent_material_inject:
  assumes "convergent_material s a b c i = convergent_material s' a' b' c' i'"
    and "length a = 32" "length b = 32" "length c = 32" "length a' = 32" "length b' = 32" "length c' = 32"
  shows "s = s' \<and> a = a' \<and> b = b' \<and> c = c' \<and> i = i'"
proof -
  have "length s = length s'" using arg_cong [OF assms(1), of length] assms(2-7) by (simp add: convergent_material_def)
  then show ?thesis using assms by (simp add: convergent_material_def)
qed

lemma prev_hash_length:
  assumes "aead_lawful S" "i < length (split_data d)"
  shows "length (prev_hash (map (ae_hash S) (split_data d)) i k) = 32"
  using assms by (simp add: prev_hash_def zero_hash_def aead_lawful_def)

theorem convergent_key_single_use:
  assumes "aead_lawful S" "i < length (split_data d)" "j < length (split_data d')"
    and "length (split_data d) < 2 ^ 64" "length (split_data d') < 2 ^ 64"
    and "convergent_material salt (map (ae_hash S) (split_data d) ! i) (prev_hash (map (ae_hash S) (split_data d)) i 1)
           (prev_hash (map (ae_hash S) (split_data d)) i 2) (as_u64 i) =
         convergent_material salt' (map (ae_hash S) (split_data d') ! j) (prev_hash (map (ae_hash S) (split_data d')) j 1)
           (prev_hash (map (ae_hash S) (split_data d')) j 2) (as_u64 j)"
  shows "salt = salt' \<and> i = j \<and> ae_hash S (split_data d ! i) = ae_hash S (split_data d' ! j)"
proof -
  have "salt = salt' \<and> ae_hash S (split_data d ! i) = ae_hash S (split_data d' ! j) \<and> as_u64 i = as_u64 j"
    using convergent_material_inject [OF assms(6)] prev_hash_length [OF assms(1,2)] prev_hash_length [OF assms(1,3)] assms(1-3)
    by (simp add: aead_lawful_def)
  moreover have "i = j" if "as_u64 i = as_u64 j"
    using that assms(2-5) as_u64_inject [of i j] by simp
  ultimately show ?thesis by blast
qed

section \<open>The data map\<close>

definition chunk_ref_ok :: "chunk_ref \<Rightarrow> bool" where
  "chunk_ref_ok c \<longleftrightarrow> length (cr_plain_hash c) = 32 \<and> length (cr_cipher_addr c) = 32"

lemma read_chunk_first: "chunk_ref_ok c \<Longrightarrow> read_chunk (chunk_bytes c @ rest) 0 = c"
  by (cases c) (simp add: read_chunk_def chunk_bytes_def chunk_ref_ok_def Let_def of_le_bytes_le32 as_u32_def)

lemma read_chunk_Suc: "length b = 68 \<Longrightarrow> read_chunk (b @ rest) (Suc i) = read_chunk rest i"
proof -
  assume "length b = 68"
  then have d: "drop (68 + n) (b @ rest) = drop n rest" for n by simp
  have "drop (Suc i * 68 + k) (b @ rest) = drop (i * 68 + k) rest" for k
    using d [of "i * 68 + k"] by (simp add: add.assoc del: drop_append)
  from this [of 0] this [of 32] this [of 64] show ?thesis
    unfolding read_chunk_def Let_def by (simp del: drop_append mult_Suc)
qed

lemma chunk_bytes_length: "chunk_ref_ok c \<Longrightarrow> length (chunk_bytes c) = 68"
  by (simp add: chunk_bytes_def chunk_ref_ok_def)

lemma read_chunks:
  "\<forall>c \<in> set cs. chunk_ref_ok c \<Longrightarrow> map (read_chunk (concat (map chunk_bytes cs))) [0 ..< length cs] = cs"
proof (induction cs)
  case (Cons c cs)
  have "map (read_chunk (concat (map chunk_bytes (c # cs)))) [0 ..< length (c # cs)] =
      read_chunk (chunk_bytes c @ concat (map chunk_bytes cs)) 0 #
      map (\<lambda>i. read_chunk (chunk_bytes c @ concat (map chunk_bytes cs)) (Suc i)) [0 ..< length cs]"
    by (simp add: upt_conv_Cons map_Suc_upt [symmetric] del: upt_Suc)
  then show ?case using Cons by (simp add: read_chunk_first read_chunk_Suc chunk_bytes_length)
qed simp

lemma body_length: "\<forall>c \<in> set cs. chunk_ref_ok c \<Longrightarrow> length (concat (map chunk_bytes cs)) = length cs * 68"
  by (induction cs) (simp_all add: chunk_bytes_length)

lemma read_chunk_bytes:
  assumes "(i + 1) * 68 \<le> length body"
  shows "chunk_bytes (read_chunk body i) = take 68 (drop (i * 68) body)" "chunk_ref_ok (read_chunk body i)"
proof -
  let ?b = "drop (i * 68) body"
  have "length (take 4 (drop 64 ?b)) = 4" using assms by simp
  then have "le32 (as_u32 (of_le_bytes (take 4 (drop 64 ?b)))) = take 4 (drop 64 ?b)"
    using le_bytes_of_le_bytes [of "take 4 (drop 64 ?b)"] of_le_bytes_bound [of "take 4 (drop 64 ?b)"]
    by (simp add: le32_def unat_as_u32)
  moreover have "take 68 ?b = take 32 ?b @ take 32 (drop 32 ?b) @ take 4 (drop 64 ?b)"
    using take_add [of 32 36 ?b] take_add [of 32 4 "drop 32 ?b"] by simp
  ultimately show "chunk_bytes (read_chunk body i) = take 68 (drop (i * 68) body)"
    by (simp add: chunk_bytes_def read_chunk_def Let_def add.commute)
  show "chunk_ref_ok (read_chunk body i)" using assms by (simp add: chunk_ref_ok_def read_chunk_def Let_def)
qed

lemma read_chunks_body:
  "m * 68 \<le> length body \<Longrightarrow> concat (map (\<lambda>i. chunk_bytes (read_chunk body i)) [0 ..< m]) = take (m * 68) body"
proof (induction m)
  case (Suc m)
  then have "chunk_bytes (read_chunk body m) = take 68 (drop (m * 68) body)" by (intro read_chunk_bytes(1)) simp
  then show ?case using Suc take_add [of "m * 68" 68 body] by (simp add: add.commute)
qed simp

lemma deserialize_serialize:
  assumes "\<forall>c \<in> set cs. chunk_ref_ok c" "length cs < 2 ^ 32"
  shows "deserialize_datamap (serialize_datamap cs md) = Inr (cs, md)"
proof -
  have n: "as_u32 (of_le_bytes (le32 (as_u32 (length cs)))) = as_u32 (length cs)" "unat (as_u32 (length cs)) = length cs"
    using assms(2) by (simp_all add: of_le_bytes_le32 unat_as_u32)
  then show ?thesis
    using body_length [OF assms(1)] read_chunks [OF assms(1)]
    by (cases md) (simp_all add: deserialize_datamap_def serialize_datamap_def body_len_matches_def Let_def)
qed

lemma serialize_deserialize:
  assumes "deserialize_datamap b = Inr (cs, md)"
  shows "serialize_datamap cs md = b \<and> (\<forall>c \<in> set cs. chunk_ref_ok c)"
proof -
  let ?n = "as_u32 (of_le_bytes (take 4 (drop 1 b)))" and ?body = "drop 5 b"
  have b: "5 \<le> length b" "b ! 0 = mode_byte md" "length ?body = unat ?n * 68"
    "cs = map (read_chunk ?body) [0 ..< unat ?n]"
    using assms by (auto simp: deserialize_datamap_def Let_def body_len_matches_def split: if_splits)
  have "length (take 4 (drop 1 b)) = 4" using b(1) by simp
  then have "le32 ?n = take 4 (drop 1 b)"
    using le_bytes_of_le_bytes [of "take 4 (drop 1 b)"] of_le_bytes_bound [of "take 4 (drop 1 b)"]
    by (simp add: le32_def unat_as_u32)
  moreover have "as_u32 (length cs) = ?n" using b(4) by (simp add: as_u32_def)
  moreover have "concat (map chunk_bytes cs) = ?body"
    using read_chunks_body [of "unat ?n" ?body] b(3,4) by (simp add: comp_def)
  moreover have "b = b ! 0 # take 4 (drop 1 b) @ ?body"
    using b(1) append_take_drop_id [of 4 "tl b"] by (cases b) (simp_all add: numeral_eq_Suc)
  moreover have "chunk_ref_ok c" if "c \<in> set cs" for c
    using that b(3,4) by (auto intro!: read_chunk_bytes(2) simp: add.commute)
  ultimately show ?thesis using b(2) unfolding serialize_datamap_def by (metis (no_types, lifting))
qed

text \<open>
  The data map: a sealed map opens to the same chunks and mode under the viewing key, and a byte string
  that deserialises is the serialisation of what it yields, so every map has one byte form.
\<close>

theorem datamap_roundtrip:
  assumes "aead_lawful S" "length nonce = 24" "\<forall>c \<in> set cs. chunk_ref_ok c" "length cs < 2 ^ 32"
  shows "open_datamap S (snd (seal_datamap S nonce cs md viewing_key)) viewing_key = Inr (cs, md) \<and>
    (deserialize_datamap b = Inr (cs, md) \<longleftrightarrow> b = serialize_datamap cs md)"
proof -
  have "open_datamap S (snd (seal_datamap S nonce cs md viewing_key)) viewing_key = deserialize_datamap (serialize_datamap cs md)"
    using assms(1,2) by (simp add: open_datamap_def seal_datamap_def Let_def aead_lawful_def)
  then show ?thesis using deserialize_serialize [OF assms(3,4)] serialize_deserialize by metis
qed

definition plain_suite :: aead_suite where
  "plain_suite = \<lparr>ae_hash = (\<lambda>b. take 32 (b @ replicate 32 0)), ae_derive_key = (\<lambda>c m. m),
     ae_encrypt = (\<lambda>k n p. 7 # p), ae_decrypt = (\<lambda>k n c. Some (tl c))\<rparr>"

lemma plain_suite_lawful: "aead_lawful plain_suite"
  by (simp add: aead_lawful_def plain_suite_def min_def)

lemma split_data_small: "d \<noteq> [] \<Longrightarrow> length d \<le> CHUNK_SIZE \<Longrightarrow> split_data d = [d]"
  by (simp add: split_data_def chunks_of.simps CHUNK_SIZE_def)

theorem datamap_roundtrip_witness:
  "open_datamap plain_suite (snd (seal_datamap plain_suite (replicate 24 3)
     [\<lparr>cr_plain_hash = zero_hash, cr_cipher_addr = zero_hash, cr_len = 5\<rparr>] RandomKey [9])) [9] =
     Inr ([\<lparr>cr_plain_hash = zero_hash, cr_cipher_addr = zero_hash, cr_len = 5\<rparr>], RandomKey)"
  using datamap_roundtrip [OF plain_suite_lawful, of "replicate 24 3"
      "[\<lparr>cr_plain_hash = zero_hash, cr_cipher_addr = zero_hash, cr_len = 5\<rparr>]"]
  by (simp add: chunk_ref_ok_def zero_hash_def)

theorem decrypt_authentic_witness:
  "se_decrypt plain_suite SaltedConvergent (en_chunks (encrypt_convergent plain_suite [1, 2] [8])) [8]
     (\<lambda>j a. Some [7, 1, 2]) = Inr [1, 2] \<and>
   ([1, 2] = [1, 2 :: u8] \<or> (\<exists>p \<in> set (split_data [1, 2]). \<exists>q. q \<noteq> p \<and> ae_hash plain_suite q = ae_hash plain_suite p))"
proof -
  have "split_data [1, 2] = [[1, 2]]" by (rule split_data_small) (simp_all add: CHUNK_SIZE_def)
  then have d: "se_decrypt plain_suite SaltedConvergent (en_chunks (encrypt_convergent plain_suite [1, 2] [8])) [8]
     (\<lambda>j a. Some [7, 1, 2]) = Inr [1, 2]"
    by (simp add: se_decrypt_def encrypt_convergent_def plain_suite_def seal_chunk_def Let_def)
  with decrypt_authentic [OF _ d, of "[1, 2]" "[8]" "[]"] show ?thesis by simp
qed

theorem selfenc_roundtrip_witness:
  "se_decrypt plain_suite SaltedConvergent (en_chunks (encrypt_convergent plain_suite [1, 2] [8])) [8]
     (\<lambda>j a. Some [7, 1, 2]) = Inr [1, 2]"
proof -
  have "split_data [1, 2] = [[1, 2]]" by (rule split_data_small) (simp_all add: CHUNK_SIZE_def)
  then have "\<forall>j < length (en_shards (encrypt_convergent plain_suite [1, 2] [8])).
      Some [7, 1, 2] = Some (snd (en_shards (encrypt_convergent plain_suite [1, 2] [8]) ! j))"
    by (simp add: encrypt_convergent_def plain_suite_def seal_chunk_def Let_def)
  with selfenc_roundtrip [OF plain_suite_lawful, of "[1, 2]" "[8]" "\<lambda>j a. Some [7, 1, 2]"] show ?thesis by simp
qed

end
