(* ===== verification/Xite_Sign.thy ===== *)
theory Xite_Sign
  imports Xite_Content Blob_Manifest Self_Enc
begin

text \<open>
  Signing a xite, after \<^verbatim>\<open>epix-xite/src/xite.rs\<close> and the on-disk writer of \<^verbatim>\<open>epix-content/src/canonical.rs\<close>: hashing
  the files of a unit with the stat cache, encrypting private files, bundling, signing and writing.
  While the files are hashed other programs may change them: \<open>disk t\<close> is the file system and \<open>meta t\<close>
  the metadata at the \<open>t\<close>-th file operation of the pass.  The later steps run on the file system left
  by the pass.
\<close>

section \<open>The on-disk form of content.json\<close>

text \<open>The items of a container, one per line at the given depth.\<close>

fun join_lines :: "nat \<Rightarrow> string list \<Rightarrow> string" where
  "join_lines level [] = []"
| "join_lines level [x] = CHR 0x0A # replicate level (CHR '' '') @ x"
| "join_lines level (x # xs) = CHR 0x0A # replicate level (CHR '' '') @ x @ '','' @ join_lines level xs"

function write_value_indented :: "json \<Rightarrow> nat \<Rightarrow> string" where
  "write_value_indented v level =
     (case v of
        JArr items \<Rightarrow>
          if items = [] then write_value v
          else ''['' @ join_lines level (map (\<lambda>i. write_value_indented i (level + 1)) items) @
               CHR 0x0A # replicate (level - 1) (CHR '' '') @ '']''
      | JObj m \<Rightarrow>
          if m = [] then write_value v
          else ''{'' @ join_lines level (map (\<lambda>e. write_py_string (fst e) @ '': '' @
                 write_value_indented (snd e) (level + 1)) (sort_key fst m)) @
               CHR 0x0A # replicate (level - 1) (CHR '' '') @ ''}''
      | _ \<Rightarrow> write_value v)"
  by pat_completeness auto
termination
proof (relation "measure (\<lambda>(v, level). size v)")
  fix v level items x
  assume "v = JArr items" "x \<in> set items"
  then show "((x, level + 1), (v, level)) \<in> measure (\<lambda>(v, level). size v)"
    by (simp add: less_Suc_eq_le size_list_estimation')
next
  fix v level and m :: "(string \<times> json) list" and e
  assume "v = JObj m" "e \<in> set (sort_key fst m)"
  then show "((snd e, level + 1), (v, level)) \<in> measure (\<lambda>(v, level). size v)"
    using size_snd_entry [of e m] by simp
qed simp

declare write_value_indented.simps [simp del]

text \<open>\<open>str::replace\<close>: every occurrence from left to right (the pattern is not empty here).\<close>

function str_replace_all :: "string \<Rightarrow> string \<Rightarrow> string \<Rightarrow> string" where
  "str_replace_all pat new s =
     (if s = [] \<or> pat = [] then s
      else if starts_with pat s then new @ str_replace_all pat new (drop (length pat) s)
      else hd s # str_replace_all pat new (tl s))"
  by pat_completeness auto
termination by (relation "measure (\<lambda>(p, n, s). length s)") auto

declare str_replace_all.simps [simp del]

text \<open>
  The regular expressions are a third-party crate: \<open>rx pat s f\<close> replaces every match of \<open>pat\<close> in \<open>s\<close> by
  \<open>f\<close> of the whole match and of its first group.
\<close>

type_synonym regex_replace = "string \<Rightarrow> string \<Rightarrow> (string \<Rightarrow> string \<Rightarrow> string) \<Rightarrow> string"

definition DICT_RE :: string where
  "DICT_RE = ''(?s)'' @ bslash # ''{('' @ bslash # ''n[^,'' @ bslash # ''['' @ bslash # ''{]{10,}?)'' @ bslash # ''}[, ]{0,2}'' @ bslash # ''n''"

definition LIST_RE :: string where
  "LIST_RE = ''(?s)'' @ bslash # ''[([^'' @ bslash # ''['' @ bslash # ''{]{2,}?)'' @ bslash # ''][, ]{0,2}'' @ bslash # ''n''"

definition TRAIL_RE :: string where
  "TRAIL_RE = ''(?m)[ ]+$''"

definition INNER_WS_RE :: string where
  "INNER_WS_RE = bslash # ''n[ ]*''"

definition compact_python_style :: "regex_replace \<Rightarrow> string \<Rightarrow> string" where
  "compact_python_style rx content =
     (let c1 = rx DICT_RE content (\<lambda>whole body. str_replace_all body (trim body) whole);
          c2 = rx LIST_RE c1 (\<lambda>whole body. str_replace_all body (rx INNER_WS_RE body (\<lambda>_ _. [])) whole)
      in rx TRAIL_RE c2 (\<lambda>_ _. []))"

definition dumps_content :: "regex_replace \<Rightarrow> json \<Rightarrow> string" where
  "dumps_content rx v = compact_python_style rx (write_value_indented v 1)"

section \<open>The stat cache\<close>

definition SIGN_CACHE :: string where
  "SIGN_CACHE = ''.sign-cache.json''"

record cached_hash =
  ca_size :: nat
  ca_mtime_ns :: int
  ca_sha512 :: string
  ca_b3 :: string

type_synonym sign_cache = "(string, cached_hash) hash_map"

record sign_opts =
  so_full :: bool
  so_keep_missing_optional :: bool

text \<open>What a signer uses of other crates and the operating system.\<close>

record signer_env =
  sv_sys :: os
  sv_hash :: "bytes \<Rightarrow> string"
  sv_blake3 :: hash_fn
  sv_suite :: aead_suite
  sv_regex :: "string \<Rightarrow> (string \<Rightarrow> bool) option"
  sv_replace :: regex_replace
  sv_load_cache :: "bytes \<Rightarrow> sign_cache option"
  sv_dump_cache :: "sign_cache \<Rightarrow> bytes"
  sv_address :: "string \<Rightarrow> string option"
  sv_sign :: "string \<Rightarrow> string \<Rightarrow> string + string"
  sv_seed :: string

type_synonym disk_history = "nat \<Rightarrow> disk_files"
type_synonym meta_history = "nat \<Rightarrow> dir_path \<Rightarrow> (nat \<times> nat option) option"

text \<open>The metadata of a path: its length and the modification time since the epoch, when there is one.\<close>

definition stat_size_mtime :: "dir_path \<Rightarrow> (dir_path \<Rightarrow> (nat \<times> nat option) option) \<Rightarrow> string \<Rightarrow> (nat \<times> int) option" where
  "stat_size_mtime root mt inner =
     (case path root inner of
        Inl _ \<Rightarrow> None
      | Inr p \<Rightarrow> map_option (\<lambda>(len, modified). (len, case modified of None \<Rightarrow> 0 | Some d \<Rightarrow> i64_wrap (int d))) (mt p))"

definition reuse_cached :: "string \<Rightarrow> (nat \<times> int) option \<Rightarrow> bool \<Rightarrow> sign_cache option \<Rightarrow> cached_hash option" where
  "reuse_cached rel stat is_optional cache =
     obind stat (\<lambda>(sz, mtime_ns).
       if \<not> is_optional \<and> is_bundleable sz then None
       else obind cache (\<lambda>ca. obind (map_of ca rel) (\<lambda>c.
              if ca_size c = sz \<and> ca_mtime_ns c = mtime_ns then Some c else None)))"

definition manifest_entry :: "nat \<Rightarrow> string \<Rightarrow> string \<Rightarrow> json" where
  "manifest_entry sz sha b3 = j_object [(''size'', JInt (int sz)), (''sha512'', JStr sha), (''b3'', JStr b3)]"

definition hash_entry :: "signer_env \<Rightarrow> string \<Rightarrow> bytes \<Rightarrow> (nat \<times> int) option \<Rightarrow> sign_cache \<Rightarrow> json \<times> sign_cache" where
  "hash_entry V rel b stat fresh =
     (let sha = sv_hash V b; b3 = ObjId_to_string (ObjId_of (sv_blake3 V) b)
      in (manifest_entry (length b) sha b3,
          case stat of
            Some (sz, mtime_ns) \<Rightarrow>
              if sz = length b
              then hm_insert rel \<lparr>ca_size = sz, ca_mtime_ns = mtime_ns, ca_sha512 = sha, ca_b3 = b3\<rparr> fresh
              else fresh
          | None \<Rightarrow> fresh))"

section \<open>Hashing a unit\<close>

record unit_hashes =
  uh_files :: "(string \<times> json) list"
  uh_optional :: "(string \<times> json) list"
  uh_bytes :: "(string, bytes) btree_map"
  uh_fresh :: sign_cache

definition add_entry :: "bool \<Rightarrow> string \<Rightarrow> json \<Rightarrow> unit_hashes \<Rightarrow> unit_hashes" where
  "add_entry is_optional rel entry u =
     (if is_optional then u\<lparr>uh_optional := bt_insert rel entry (uh_optional u)\<rparr>
      else u\<lparr>uh_files := bt_insert rel entry (uh_files u)\<rparr>)"

text \<open>One file: stat at time \<open>t\<close>, then the cached hashes or a read at the next operation.\<close>

definition hash_file :: "signer_env \<Rightarrow> dir_path \<Rightarrow> disk_history \<Rightarrow> meta_history \<Rightarrow> sign_cache option \<Rightarrow>
    string \<Rightarrow> string \<Rightarrow> bool \<Rightarrow> nat \<Rightarrow> unit_hashes \<Rightarrow> unit_hashes option" where
  "hash_file V root disk meta cache inner rel is_optional t u =
     (let stat = stat_size_mtime root (meta t) inner
      in case reuse_cached rel stat is_optional cache of
           Some hit \<Rightarrow>
             Some (add_entry is_optional rel (manifest_entry (ca_size hit) (ca_sha512 hit) (ca_b3 hit))
                     (u\<lparr>uh_fresh := hm_insert rel hit (uh_fresh u)\<rparr>))
         | None \<Rightarrow>
             (case st_read root (disk (Suc t)) inner of
                None \<Rightarrow> None
              | Some b \<Rightarrow>
                  (case hash_entry V rel b stat (uh_fresh u) of
                     (entry, fresh) \<Rightarrow>
                       let u1 = u\<lparr>uh_fresh := fresh\<rparr>;
                           u2 = (if \<not> is_optional \<and> is_bundleable (length b)
                                 then u1\<lparr>uh_bytes := bt_insert rel b (uh_bytes u)\<rparr> else u1)
                       in Some (add_entry is_optional rel entry u2))))"

fun hash_unit_loop :: "signer_env \<Rightarrow> dir_path \<Rightarrow> disk_history \<Rightarrow> meta_history \<Rightarrow> sign_cache option \<Rightarrow>
    (string \<Rightarrow> bool option) \<Rightarrow> string \<Rightarrow> string list \<Rightarrow> nat \<Rightarrow> unit_hashes \<Rightarrow> (unit_hashes \<times> nat) option" where
  "hash_unit_loop V root disk meta cache class_of pre [] t u = Some (u, t)"
| "hash_unit_loop V root disk meta cache class_of pre (inner # rest) t u =
     (case strip_prefix pre inner of
        None \<Rightarrow> hash_unit_loop V root disk meta cache class_of pre rest t u
      | Some rel \<Rightarrow>
          (case class_of rel of
             None \<Rightarrow> hash_unit_loop V root disk meta cache class_of pre rest t u
           | Some is_optional \<Rightarrow>
               (case hash_file V root disk meta cache inner rel is_optional t u of
                  None \<Rightarrow> None
                | Some u' \<Rightarrow> hash_unit_loop V root disk meta cache class_of pre rest (t + 2) u')))"

definition unit_prefix :: "string \<Rightarrow> string" where
  "unit_prefix dir = (if dir = [] then [] else dir @ ''/'')"

definition hash_unit_files :: "signer_env \<Rightarrow> dir_path \<Rightarrow> disk_history \<Rightarrow> meta_history \<Rightarrow> nat \<Rightarrow> string list \<Rightarrow> string \<Rightarrow>
    (string \<times> json) list \<Rightarrow> (string \<times> json) list \<Rightarrow> (string \<Rightarrow> bool) option \<Rightarrow> (string \<Rightarrow> bool) option \<Rightarrow>
    sign_cache option \<Rightarrow> (unit_hashes \<times> nat) option" where
  "hash_unit_files V root disk meta t0 listing dir declared_optional declared_merged ignore optional cache =
     (let pre = unit_prefix dir
      in hash_unit_loop V root disk meta cache
           (\<lambda>rel. unit_file_class rel (nested_dirs_of pre listing) declared_optional declared_merged ignore optional)
           pre listing t0 \<lparr>uh_files = [], uh_optional = [], uh_bytes = [], uh_fresh = []\<rparr>)"

definition load_sign_cache :: "signer_env \<Rightarrow> dir_path \<Rightarrow> disk_files \<Rightarrow> bool \<Rightarrow> sign_cache" where
  "load_sign_cache V root fs full =
     (if full then [] else unwrap_or (obind (st_read root fs SIGN_CACHE) (sv_load_cache V)) [])"

definition path_pattern :: "signer_env \<Rightarrow> json option \<Rightarrow> (string \<Rightarrow> bool) option" where
  "path_pattern V pat =
     obind (obind pat as_str) (\<lambda>p. if p = [] then None else sv_regex V (''^(?:'' @ p @ '')''))"

section \<open>Private files\<close>

fun salt_bytes :: "string \<Rightarrow> bytes" where
  "salt_bytes (a # b # s) =
     (case u8_from_str_radix16 [a, b] of None \<Rightarrow> salt_bytes s | Some x \<Rightarrow> x # salt_bytes s)"
| "salt_bytes _ = []"

definition ensure_edx_salt :: "signer_env \<Rightarrow> json \<Rightarrow> bytes \<times> json" where
  "ensure_edx_salt V content =
     (case edx_salt content of
        Some salt \<Rightarrow> (salt, content)
      | None \<Rightarrow> (salt_bytes (sv_seed V),
          case content of JObj m \<Rightarrow> JObj (bt_insert ''edx_salt'' (JStr (sv_seed V)) m) | _ \<Rightarrow> content))"

definition shard_paths :: "(string \<Rightarrow> bool) option \<Rightarrow> json \<Rightarrow> (string \<times> string) list" where
  "shard_paths shard content =
     concat (map (\<lambda>key. case obind (j_get content key) as_object of
         None \<Rightarrow> []
       | Some f \<Rightarrow> map (Pair key) (filter (pattern_matches shard) (map fst f))) [''files'', ''files_optional''])"

definition shard_chunks_of :: "encrypted \<Rightarrow> shard_chunk list" where
  "shard_chunks_of enc =
     map (\<lambda>(c, addr, ct). \<lparr>ch_plain_hash = cr_plain_hash c, ch_cipher_addr = ObjId (cr_cipher_addr c),
            ch_len = cr_len c, ch_csize = as_u32 (length ct)\<rparr>) (zip (en_chunks enc) (en_shards enc))"

fun remove_entry :: "string \<Rightarrow> string \<Rightarrow> json \<Rightarrow> json" where
  "remove_entry key p (JObj m) =
     (case map_of m key of
        Some (JObj f) \<Rightarrow> JObj (bt_insert key (JObj (bt_remove p f)) m)
      | _ \<Rightarrow> JObj m)"
| "remove_entry key p v = v"

fun encrypt_loop :: "signer_env \<Rightarrow> dir_path \<Rightarrow> disk_files \<Rightarrow> bytes \<Rightarrow> (string \<times> string) list \<Rightarrow> json \<Rightarrow> xite_error + json" where
  "encrypt_loop V root fs salt [] content = Inr content"
| "encrypt_loop V root fs salt ((key, p) # rest) content =
     (case st_read root fs p of
        None \<Rightarrow> Inl (XProtocol (p @ '' matches the shard pattern but is not on disk, so it cannot be '' @
            ''encrypted; fetch it or drop it from files_optional before signing''))
      | Some b \<Rightarrow>
          let enc = encrypt_convergent (sv_suite V) b salt
          in case set_shard_entry content p \<lparr>sh_size = length b, sh_mode = 0, sh_chunks = shard_chunks_of enc\<rparr> of
               None \<Rightarrow> Inl XPanic
             | Some content1 \<Rightarrow> encrypt_loop V root fs salt rest (remove_entry key p content1))"

definition drop_empty_optional :: "json \<Rightarrow> json" where
  "drop_empty_optional content =
     (case content of
        JObj m \<Rightarrow> if map_of m ''files_optional'' = Some (JObj []) then JObj (bt_remove ''files_optional'' m) else content
      | _ \<Rightarrow> content)"

definition encrypt_shard_files :: "signer_env \<Rightarrow> dir_path \<Rightarrow> disk_files \<Rightarrow> (string \<Rightarrow> bool) option \<Rightarrow> json \<Rightarrow> xite_error + json" where
  "encrypt_shard_files V root fs shard content =
     (if shard = None then Inr content
      else case ensure_edx_salt V content of
        (salt, content1) \<Rightarrow>
          let content2 = without_keys [''files_shard''] content1
          in (case encrypt_loop V root fs salt (shard_paths shard content2) content2 of
                Inl e \<Rightarrow> Inl e
              | Inr content3 \<Rightarrow> Inr (drop_empty_optional content3)))"

section \<open>The EDX manifest\<close>

definition root_step :: "string \<times> json \<Rightarrow> (string, obj_id) btree_map \<Rightarrow> (string, obj_id) btree_map" where
  "root_step e roots =
     (case obind (get_str (snd e) ''b3'') ObjId_from_hex of
        Some i \<Rightarrow> bt_insert (fst e) i roots
      | None \<Rightarrow> roots)"

definition edx_file_roots :: "json \<Rightarrow> (string, obj_id) btree_map" where
  "edx_file_roots content =
     fold (\<lambda>key roots. case obind (j_get content key) as_object of
         None \<Rightarrow> roots | Some entries \<Rightarrow> fold root_step entries roots) [''files'', ''files_optional''] []"

fun bundle_inputs_loop :: "dir_path \<Rightarrow> disk_files \<Rightarrow> (string \<times> json) list \<Rightarrow> (string, bytes) btree_map \<Rightarrow>
    (string, bytes) btree_map \<Rightarrow> (string, bytes) btree_map option" where
  "bundle_inputs_loop root fs [] hashed out = Some out"
| "bundle_inputs_loop root fs ((p, e) # entries) hashed out =
     (if \<not> is_bundleable (unwrap_or (get_u64 e ''size'') 0) then bundle_inputs_loop root fs entries hashed out
      else (case map_of hashed p of
              Some b \<Rightarrow> bundle_inputs_loop root fs entries (bt_remove p hashed) (bt_insert p b out)
            | None \<Rightarrow>
                (case st_read root fs p of
                   None \<Rightarrow> None
                 | Some b \<Rightarrow> bundle_inputs_loop root fs entries hashed (bt_insert p b out))))"

definition edx_bundle_inputs :: "dir_path \<Rightarrow> disk_files \<Rightarrow> json \<Rightarrow> (string, bytes) btree_map \<Rightarrow> (string, bytes) btree_map option" where
  "edx_bundle_inputs root fs content hashed =
     (case obind (j_get content ''files'') as_object of
        None \<Rightarrow> Some []
      | Some entries \<Rightarrow> bundle_inputs_loop root fs entries hashed [])"

definition stamp_edx_manifest :: "signer_env \<Rightarrow> xite \<Rightarrow> disk_files \<Rightarrow> json \<Rightarrow> (string, bytes) btree_map \<Rightarrow> xite_error + json" where
  "stamp_edx_manifest V x fs content hashed =
     (let prev_bundles = (case xi_content x of None \<Rightarrow> [] | Some c \<Rightarrow> prev_memberships c);
          roots = edx_file_roots content
      in case edx_bundle_inputs (xi_root x) fs content hashed of
           None \<Rightarrow> Inl XIo
         | Some bundleable \<Rightarrow>
             (case apply_edx (sv_blake3 V) roots (assign (sv_blake3 V) bundleable prev_bundles) content of
                None \<Rightarrow> Inr content
              | Some (content', root) \<Rightarrow> Inr content'))"

section \<open>Signing the root\<close>

text \<open>\<open>modified\<close> is the number \<open>json!\<close> makes of the \<open>f64\<close>: an integer when it is whole.\<close>

definition root_fields :: "xite \<Rightarrow> json \<Rightarrow> unit_hashes \<Rightarrow> (string \<times> json) list \<Rightarrow> (string \<times> json) list \<Rightarrow> (string \<times> json) list" where
  "root_fields x modified u declared_optional m =
     (let m1 = bt_insert ''files'' (JObj (uh_files u)) m;
          m2 = merge_files_optional m1 (uh_optional u) declared_optional;
          m3 = bt_insert ''modified'' modified m2;
          m4 = bt_insert ''address'' (JStr (xi_address x)) m3;
          m5 = bt_insert ''inner_path'' (JStr ''content.json'') m4
      in if map_of m5 ''signs_required'' = None then bt_insert ''signs_required'' (JInt 1) m5 else m5)"

text \<open>From the hashed files to the signed content.\<close>

definition finish_sign :: "signer_env \<Rightarrow> xite \<Rightarrow> disk_files \<Rightarrow> string \<Rightarrow> json \<Rightarrow> (string \<times> json) list \<Rightarrow> unit_hashes \<Rightarrow>
    (string \<times> json) list \<Rightarrow> xite_error + json" where
  "finish_sign V x fs privatekey modified declared_optional u m =
     (case encrypt_shard_files V (xi_root x) fs (path_pattern V (map_of m ''shard''))
             (JObj (root_fields x modified u declared_optional m)) of
        Inl e \<Rightarrow> Inl e
      | Inr content1 \<Rightarrow>
          (case stamp_edx_manifest V x fs content1 (uh_bytes u) of
             Inl e \<Rightarrow> Inl e
           | Inr content2 \<Rightarrow>
               (case sign_content (sv_address V) (sv_sign V) content2 privatekey of
                  Inl e \<Rightarrow> Inl (XCrypt e)
                | Inr (content3, sigv) \<Rightarrow> Inr content3)))"

text \<open>
  The whole sign of the root unit.  \<open>write_atomic\<close> of the cache and of \<open>content.json\<close> (a temporary file
  and a rename) is the operating system's write of the file as a whole, as in \<open>commit_content\<close>.
\<close>

definition sign_root :: "signer_env \<Rightarrow> disk_history \<Rightarrow> meta_history \<Rightarrow> nat \<Rightarrow> string list \<Rightarrow> xite \<Rightarrow> string \<Rightarrow> json \<Rightarrow> sign_opts \<Rightarrow>
    (xite_error + unit) \<times> xite \<times> disk_files" where
  "sign_root V disk meta t0 listing x privatekey modified opts =
     (case sv_address V privatekey of
        None \<Rightarrow> (Inl (XCrypt ''that is not a valid private key''), x, disk t0)
      | Some signer \<Rightarrow>
          if signer \<noteq> xi_address x
          then (Inl (XCrypt (''private key address '' @ signer @ '' does not own xite '' @ xi_address x)), x, disk t0)
          else
            let content = unwrap_or (xi_content x) (JObj []);
                declared0 = unwrap_or (obind (j_get content ''files_optional'') as_object) [];
                declared_optional = (if so_keep_missing_optional opts then declared0
                                     else filter (\<lambda>e. st_exists (xi_root x) (disk t0) (fst e)) declared0);
                declared_merged = unwrap_or (obind (j_get content ''files_merged'') as_object) [];
                cache = load_sign_cache V (xi_root x) (disk t0) (so_full opts)
            in (case hash_unit_files V (xi_root x) disk meta t0 listing [] declared_optional declared_merged
                       (path_pattern V (j_get content ''ignore'')) (path_pattern V (j_get content ''optional'')) (Some cache) of
                  None \<Rightarrow> (Inl XIo, x, disk t0)
                | Some (u, t) \<Rightarrow>
                    let fs1 = fst (st_write (sv_sys V) (xi_root x) (disk t) SIGN_CACHE (sv_dump_cache V (uh_fresh u)))
                    in (case as_object content of
                          None \<Rightarrow> (Inl (XProtocol ''content.json is not a JSON object''), x, fs1)
                        | Some m \<Rightarrow>
                            (case finish_sign V x fs1 privatekey modified declared_optional u m of
                               Inl e \<Rightarrow> (Inl e, x, fs1)
                             | Inr content3 \<Rightarrow>
                                 (case st_write (sv_sys V) (xi_root x) fs1 ''content.json''
                                         (as_bytes (dumps_content (sv_replace V) content3)) of
                                    (fs2, ok) \<Rightarrow>
                                      if ok then (Inr (), x\<lparr>xi_content := Some content3\<rparr>, fs2)
                                      else (Inl XIo, x, fs2))))))"

section \<open>The hash pass\<close>

text \<open>The manifest entry of a file with the given bytes, and its cache record.\<close>

definition entry_for :: "signer_env \<Rightarrow> bytes \<Rightarrow> json" where
  "entry_for V b = manifest_entry (length b) (sv_hash V b) (ObjId_to_string (ObjId_of (sv_blake3 V) b))"

definition cached_for :: "signer_env \<Rightarrow> bytes \<Rightarrow> int \<Rightarrow> cached_hash" where
  "cached_for V b mtime = \<lparr>ca_size = length b, ca_mtime_ns = mtime, ca_sha512 = sv_hash V b,
     ca_b3 = ObjId_to_string (ObjId_of (sv_blake3 V) b)\<rparr>"

lemma reuse_cached_Some:
  assumes "reuse_cached rel stat opt cache = Some hit"
  obtains ca where "stat = Some (ca_size hit, ca_mtime_ns hit)" "cache = Some ca" "map_of ca rel = Some hit"
    "opt \<or> \<not> is_bundleable (ca_size hit)"
  using assms by (auto simp: reuse_cached_def bind_eq_Some_conv split: if_splits)

lemma reuse_cached_None [simp]: "reuse_cached rel stat opt None = None"
  by (cases stat) (auto simp: reuse_cached_def)

lemma hash_entry_eq:
  "hash_entry V rel b stat fresh = (entry_for V b,
     case stat of Some (sz, mtime) \<Rightarrow> if sz = length b then hm_insert rel (cached_for V b mtime) fresh else fresh | None \<Rightarrow> fresh)"
  by (auto simp: hash_entry_def entry_for_def cached_for_def Let_def split: option.split)

text \<open>The two ways a file enters the manifest.\<close>

lemma hash_file_cases [consumes 1, case_names hit read]:
  assumes "hash_file V root disk meta cache inner rel opt t u = Some u'"
  obtains (hit) hit ca where "stat_size_mtime root (meta t) inner = Some (ca_size hit, ca_mtime_ns hit)" "cache = Some ca"
      "map_of ca rel = Some hit" "opt \<or> \<not> is_bundleable (ca_size hit)"
      "u' = add_entry opt rel (manifest_entry (ca_size hit) (ca_sha512 hit) (ca_b3 hit)) (u\<lparr>uh_fresh := hm_insert rel hit (uh_fresh u)\<rparr>)"
  | (read) b where "st_read root (disk (Suc t)) inner = Some b"
      "u' = add_entry opt rel (entry_for V b) (u\<lparr>uh_fresh := snd (hash_entry V rel b (stat_size_mtime root (meta t) inner) (uh_fresh u)),
         uh_bytes := (if \<not> opt \<and> is_bundleable (length b) then bt_insert rel b (uh_bytes u) else uh_bytes u)\<rparr>)"
proof (cases "reuse_cached rel (stat_size_mtime root (meta t) inner) opt cache")
  case None
  then obtain b where "st_read root (disk (Suc t)) inner = Some b"
    using assms by (auto simp: hash_file_def Let_def split: option.splits)
  with None assms show thesis
    by (intro read [of b]) (auto simp: hash_file_def hash_entry_eq Let_def)
next
  case (Some h)
  then obtain ca where "stat_size_mtime root (meta t) inner = Some (ca_size h, ca_mtime_ns h)" "cache = Some ca"
    "map_of ca rel = Some h" "opt \<or> \<not> is_bundleable (ca_size h)" by (rule reuse_cached_Some)
  then show thesis using assms Some by (intro hit) (auto simp: hash_file_def Let_def)
qed

lemma add_entry_simps [simp]:
  "uh_bytes (add_entry opt rel e u) = uh_bytes u" "uh_fresh (add_entry opt rel e u) = uh_fresh u"
  "map_of (uh_files (add_entry opt rel e u)) p = (if \<not> opt \<and> p = rel then Some e else map_of (uh_files u) p)"
  "map_of (uh_optional (add_entry opt rel e u)) p = (if opt \<and> p = rel then Some e else map_of (uh_optional u) p)"
  by (simp_all add: add_entry_def)

text \<open>An invariant of the pass holds at its end when every hashed file keeps it.\<close>

lemma hash_unit_loop_invariant:
  assumes "hash_unit_loop V root disk meta cache class_of pre listing t u = Some (u', t')" "Q t u"
    and "\<And>t u u' rel opt. Q t u \<Longrightarrow> class_of rel = Some opt \<Longrightarrow>
      hash_file V root disk meta cache (pre @ rel) rel opt t u = Some u' \<Longrightarrow> Q (t + 2) u'"
  shows "Q t' u'"
  using assms(1,2)
proof (induction listing arbitrary: t u)
  case (Cons inner rest)
  show ?case
  proof (cases "strip_prefix pre inner")
    case None
    then show ?thesis using Cons by simp
  next
    case rel: (Some rel)
    then have inner: "inner = pre @ rel" by (simp add: strip_prefix_Some)
    show ?thesis
    proof (cases "class_of rel")
      case None
      then show ?thesis using Cons rel by simp
    next
      case c: (Some opt)
      then obtain u1 where h: "hash_file V root disk meta cache inner rel opt t u = Some u1"
        "hash_unit_loop V root disk meta cache class_of pre rest (t + 2) u1 = Some (u', t')"
        using Cons.prems(1) rel by (auto split: option.splits)
      then show ?thesis using Cons.IH [OF h(2)] assms(3) [OF Cons.prems(2) c h(1) [unfolded inner]] by blast
    qed
  qed
qed simp

section \<open>The cache changes nothing\<close>

definition cache_true :: "signer_env \<Rightarrow> dir_path \<Rightarrow> disk_files \<Rightarrow> (dir_path \<Rightarrow> (nat \<times> nat option) option) \<Rightarrow> string \<Rightarrow> sign_cache \<Rightarrow> bool" where
  "cache_true V root fs mt pre cache \<longleftrightarrow>
     (\<forall>rel c b. map_of cache rel = Some c \<longrightarrow> stat_size_mtime root mt (pre @ rel) = Some (ca_size c, ca_mtime_ns c) \<longrightarrow>
        st_read root fs (pre @ rel) = Some b \<longrightarrow> c = cached_for V b (ca_mtime_ns c))"

lemma hash_file_cache:
  assumes "hash_file V root (\<lambda>_. fs) (\<lambda>_. mt) None (pre @ rel) rel opt t u = Some u'" "cache_true V root fs mt pre cache"
  shows "hash_file V root (\<lambda>_. fs) (\<lambda>_. mt) (Some cache) (pre @ rel) rel opt t u = Some u'"
  using assms(1)
proof (cases rule: hash_file_cases)
  case (read b)
  show ?thesis
  proof (cases "reuse_cached rel (stat_size_mtime root mt (pre @ rel)) opt (Some cache)")
    case None
    then show ?thesis using assms(1) by (simp add: hash_file_def Let_def)
  next
    case (Some hit)
    then obtain m: "stat_size_mtime root mt (pre @ rel) = Some (ca_size hit, ca_mtime_ns hit)" "map_of cache rel = Some hit"
      "opt \<or> \<not> is_bundleable (ca_size hit)"
      by (auto elim: reuse_cached_Some)
    then have "hit = cached_for V b (ca_mtime_ns hit)" using assms(2) read(1) by (auto simp: cache_true_def)
    then obtain mtime where h: "hit = cached_for V b mtime" by blast
    have "hash_file V root (\<lambda>_. fs) (\<lambda>_. mt) (Some cache) (pre @ rel) rel opt t u =
        Some (add_entry opt rel (entry_for V b) (u\<lparr>uh_fresh := hm_insert rel hit (uh_fresh u)\<rparr>))"
      using Some by (simp add: hash_file_def Let_def h cached_for_def entry_for_def)
    moreover have "snd (hash_entry V rel b (stat_size_mtime root mt (pre @ rel)) (uh_fresh u)) = hm_insert rel hit (uh_fresh u)"
      by (simp add: hash_entry_eq m(1)) (simp add: h cached_for_def)
    moreover have "\<not> (\<not> opt \<and> is_bundleable (length b))" using m(3) by (auto simp: h cached_for_def)
    ultimately show ?thesis using read(2) by auto
  qed
qed simp

lemma hash_unit_loop_cache:
  assumes "hash_unit_loop V root (\<lambda>_. fs) (\<lambda>_. mt) None class_of pre listing t u = Some r" "cache_true V root fs mt pre cache"
  shows "hash_unit_loop V root (\<lambda>_. fs) (\<lambda>_. mt) (Some cache) class_of pre listing t u = Some r"
  using assms(1)
proof (induction listing arbitrary: t u)
  case (Cons inner rest)
  show ?case
  proof (cases "strip_prefix pre inner")
    case rel: (Some rel)
    then have inner: "inner = pre @ rel" by (simp add: strip_prefix_Some)
    show ?thesis
    proof (cases "class_of rel")
      case c: (Some opt)
      then obtain u1 where h: "hash_file V root (\<lambda>_. fs) (\<lambda>_. mt) None (pre @ rel) rel opt t u = Some u1"
        "hash_unit_loop V root (\<lambda>_. fs) (\<lambda>_. mt) None class_of pre rest (t + 2) u1 = Some r"
        using Cons.prems rel inner by (auto split: option.splits)
      then show ?thesis using Cons.IH [OF h(2)] hash_file_cache [OF h(1) assms(2)] c by (simp add: inner)
    qed (use Cons rel in simp)
  qed (use Cons in simp)
qed simp

text \<open>
  Signing with the stat cache gives exactly what a full re-read gives, next cache included, when every
  matching cache record describes the file.
\<close>

theorem sign_cache_transparent:
  assumes "cache_true V root fs mt (unit_prefix dir) cache"
    and "hash_unit_files V root (\<lambda>_. fs) (\<lambda>_. mt) t0 listing dir dopt dmerged ignore optional None = Some r"
  shows "hash_unit_files V root (\<lambda>_. fs) (\<lambda>_. mt) t0 listing dir dopt dmerged ignore optional (Some cache) = Some r"
  using hash_unit_loop_cache [OF assms(2) [unfolded hash_unit_files_def Let_def] assms(1)]
  by (simp only: hash_unit_files_def Let_def)

section \<open>Races with other programs\<close>

text \<open>Every record of the cache was computed from bytes read after the stat it carries.\<close>

definition cache_sound :: "signer_env \<Rightarrow> dir_path \<Rightarrow> disk_history \<Rightarrow> meta_history \<Rightarrow> string \<Rightarrow> sign_cache \<Rightarrow> nat \<Rightarrow> bool" where
  "cache_sound V root disk meta pre cache now \<longleftrightarrow>
     (\<forall>rel c. map_of cache rel = Some c \<longrightarrow>
        (\<exists>t \<tau> b. t \<le> \<tau> \<and> \<tau> \<le> now \<and> st_read root (disk \<tau>) (pre @ rel) = Some b \<and>
           stat_size_mtime root (meta t) (pre @ rel) = Some (ca_size c, ca_mtime_ns c) \<and> c = cached_for V b (ca_mtime_ns c)))"

text \<open>
  Where an entry can come from: bytes the file had during the pass, or, for a file the cache has a
  record of, bytes read before it, after a stat that agrees with the stat taken during the pass and
  whose size is the number of those bytes.
\<close>

definition read_in_pass :: "signer_env \<Rightarrow> dir_path \<Rightarrow> disk_history \<Rightarrow> nat \<Rightarrow> nat \<Rightarrow> string \<Rightarrow> json \<Rightarrow> bool" where
  "read_in_pass V root disk t0 t inner e \<longleftrightarrow>
     (\<exists>\<tau> b. t0 \<le> \<tau> \<and> \<tau> \<le> t \<and> st_read root (disk \<tau>) inner = Some b \<and> e = entry_for V b)"

definition unchanged_by_stat :: "signer_env \<Rightarrow> dir_path \<Rightarrow> disk_history \<Rightarrow> meta_history \<Rightarrow> nat \<Rightarrow> nat \<Rightarrow> string \<Rightarrow> json \<Rightarrow> bool" where
  "unchanged_by_stat V root disk meta t0 t inner e \<longleftrightarrow>
     (\<exists>t1 \<tau> \<tau>' b m. t1 \<le> \<tau> \<and> \<tau> \<le> t0 \<and> t0 \<le> \<tau>' \<and> \<tau>' \<le> t \<and> st_read root (disk \<tau>) inner = Some b \<and> e = entry_for V b \<and>
        stat_size_mtime root (meta t1) inner = Some (length b, m) \<and> stat_size_mtime root (meta \<tau>') inner = Some (length b, m))"

definition entries_seen :: "signer_env \<Rightarrow> dir_path \<Rightarrow> disk_history \<Rightarrow> meta_history \<Rightarrow> string \<Rightarrow> sign_cache \<Rightarrow> nat \<Rightarrow> nat \<Rightarrow>
    (string \<times> json) list \<Rightarrow> bool" where
  "entries_seen V root disk meta pre cache t0 t es \<longleftrightarrow>
     (\<forall>rel e. map_of es rel = Some e \<longrightarrow>
        read_in_pass V root disk t0 t (pre @ rel) e \<or>
        map_of cache rel \<noteq> None \<and> unchanged_by_stat V root disk meta t0 t (pre @ rel) e)"

lemma cache_sound_mono: "cache_sound V root disk meta pre cache n \<Longrightarrow> n \<le> m \<Longrightarrow> cache_sound V root disk meta pre cache m"
  unfolding cache_sound_def by (meson le_trans)

lemma cache_soundD:
  assumes "cache_sound V root disk meta pre cache now" "map_of cache rel = Some c"
  shows "\<exists>t \<tau> b. t \<le> \<tau> \<and> \<tau> \<le> now \<and> st_read root (disk \<tau>) (pre @ rel) = Some b \<and>
    stat_size_mtime root (meta t) (pre @ rel) = Some (ca_size c, ca_mtime_ns c) \<and> c = cached_for V b (ca_mtime_ns c)"
  using assms(1) [unfolded cache_sound_def, rule_format, OF assms(2)] .

lemma read_in_pass_mono: "read_in_pass V root disk t0 t inner e \<Longrightarrow> t \<le> t' \<Longrightarrow> read_in_pass V root disk t0 t' inner e"
  unfolding read_in_pass_def by (elim exE conjE) (intro exI conjI, auto)

lemma unchanged_by_stat_mono:
  assumes "unchanged_by_stat V root disk meta t0 t inner e" "t \<le> t'"
  shows "unchanged_by_stat V root disk meta t0 t' inner e"
proof -
  obtain t1 \<tau> \<tau>' b m where p: "t1 \<le> \<tau>" "\<tau> \<le> t0" "t0 \<le> \<tau>'" "\<tau>' \<le> t" "st_read root (disk \<tau>) inner = Some b" "e = entry_for V b"
    "stat_size_mtime root (meta t1) inner = Some (length b, m)" "stat_size_mtime root (meta \<tau>') inner = Some (length b, m)"
    using assms(1) unfolding unchanged_by_stat_def by blast
  moreover have "\<tau>' \<le> t'" using p(4) assms(2) by simp
  ultimately show ?thesis unfolding unchanged_by_stat_def by blast
qed

lemma entries_seen_mono:
  "entries_seen V root disk meta pre cache t0 t es \<Longrightarrow> t \<le> t' \<Longrightarrow> entries_seen V root disk meta pre cache t0 t' es"
  unfolding entries_seen_def using read_in_pass_mono unchanged_by_stat_mono by blast

lemma cache_sound_insert:
  assumes "cache_sound V root disk meta pre cache now" "t \<le> \<tau>" "\<tau> \<le> now" "st_read root (disk \<tau>) (pre @ rel) = Some b"
    and "stat_size_mtime root (meta t) (pre @ rel) = Some (ca_size c, ca_mtime_ns c)" "c = cached_for V b (ca_mtime_ns c)"
  shows "cache_sound V root disk meta pre (hm_insert rel c cache) now"
  using assms unfolding cache_sound_def by (auto split: if_splits)

lemma cached_entry: "c = cached_for V b m \<Longrightarrow> manifest_entry (ca_size c) (ca_sha512 c) (ca_b3 c) = entry_for V b"
  by (simp add: cached_for_def entry_for_def)

lemma entries_seen_add:
  assumes "entries_seen V root disk meta pre cache t0 t (uh_files u)" "entries_seen V root disk meta pre cache t0 t (uh_optional u)"
    and "read_in_pass V root disk t0 t (pre @ rel) e \<or> map_of cache rel \<noteq> None \<and> unchanged_by_stat V root disk meta t0 t (pre @ rel) e"
  shows "entries_seen V root disk meta pre cache t0 t (uh_files (add_entry opt rel e u))"
    "entries_seen V root disk meta pre cache t0 t (uh_optional (add_entry opt rel e u))"
  using assms unfolding entries_seen_def by (auto split: if_splits)

lemma hash_file_seen:
  assumes "cache_sound V root disk meta pre cache t0" "t0 \<le> t"
    and "cache_sound V root disk meta pre (uh_fresh u) t" "entries_seen V root disk meta pre cache t0 t (uh_files u)"
      "entries_seen V root disk meta pre cache t0 t (uh_optional u)"
    and "hash_file V root disk meta (Some cache) (pre @ rel) rel opt t u = Some u'"
  shows "cache_sound V root disk meta pre (uh_fresh u') (t + 2) \<and> entries_seen V root disk meta pre cache t0 (t + 2) (uh_files u') \<and>
    entries_seen V root disk meta pre cache t0 (t + 2) (uh_optional u')"
proof -
  have base: "cache_sound V root disk meta pre (uh_fresh u) (t + 2)" "entries_seen V root disk meta pre cache t0 (t + 2) (uh_files u)"
    "entries_seen V root disk meta pre cache t0 (t + 2) (uh_optional u)"
    using cache_sound_mono [OF assms(3), of "t + 2"] entries_seen_mono [OF assms(4), of "t + 2"]
      entries_seen_mono [OF assms(5), of "t + 2"] by simp_all
  show ?thesis
    using assms(6)
  proof (cases rule: hash_file_cases)
    case (hit hit ca)
    obtain t1 \<tau> b where p: "t1 \<le> \<tau>" "\<tau> \<le> t0" "st_read root (disk \<tau>) (pre @ rel) = Some b"
      "stat_size_mtime root (meta t1) (pre @ rel) = Some (ca_size hit, ca_mtime_ns hit)" "hit = cached_for V b (ca_mtime_ns hit)"
      using cache_soundD [OF assms(1), of rel hit] hit(2,3) by auto
    have len: "ca_size hit = length b" using arg_cong [OF p(5), of ca_size] by (simp add: cached_for_def)
    have "unchanged_by_stat V root disk meta t0 (t + 2) (pre @ rel) (entry_for V b)"
      unfolding unchanged_by_stat_def using p(1,2,3,4) hit(1) assms(2) len by (intro exI [of _ t1] exI [of _ \<tau>] exI [of _ t] exI [of _ b]) auto
    moreover have "map_of cache rel \<noteq> None" using hit(2,3) by simp
    ultimately have seen: "read_in_pass V root disk t0 (t + 2) (pre @ rel) (entry_for V b) \<or>
        map_of cache rel \<noteq> None \<and> unchanged_by_stat V root disk meta t0 (t + 2) (pre @ rel) (entry_for V b)" by blast
    have fresh: "cache_sound V root disk meta pre (hm_insert rel hit (uh_fresh u)) (t + 2)"
      using cache_sound_insert [OF base(1) p(1) _ p(3,4,5)] p(2) assms(2) by simp
    have "u' = add_entry opt rel (entry_for V b) (u\<lparr>uh_fresh := hm_insert rel hit (uh_fresh u)\<rparr>)"
      using hit(5) cached_entry [OF p(5)] by simp
    then show ?thesis
      using fresh entries_seen_add [OF _ _ seen, of "u\<lparr>uh_fresh := hm_insert rel hit (uh_fresh u)\<rparr>" opt] base by simp
  next
    case (read b)
    have fresh: "cache_sound V root disk meta pre (snd (hash_entry V rel b (stat_size_mtime root (meta t) (pre @ rel)) (uh_fresh u))) (t + 2)"
    proof (cases "stat_size_mtime root (meta t) (pre @ rel)")
      case (Some sm)
      then obtain sz m where sm: "stat_size_mtime root (meta t) (pre @ rel) = Some (sz, m)" by (cases sm) simp
      then show ?thesis
        using base(1) cache_sound_insert [OF base(1), of t "Suc t" rel b "cached_for V b m"] read(1)
        by (simp add: hash_entry_eq cached_for_def)
    qed (use base(1) in \<open>simp add: hash_entry_eq\<close>)
    have "t0 \<le> Suc t" "Suc t \<le> t + 2" using assms(2) by simp_all
    then have seen: "read_in_pass V root disk t0 (t + 2) (pre @ rel) (entry_for V b) \<or>
        map_of cache rel \<noteq> None \<and> unchanged_by_stat V root disk meta t0 (t + 2) (pre @ rel) (entry_for V b)"
      unfolding read_in_pass_def using read(1) by blast
    let ?u = "u\<lparr>uh_fresh := snd (hash_entry V rel b (stat_size_mtime root (meta t) (pre @ rel)) (uh_fresh u)),
         uh_bytes := (if \<not> opt \<and> is_bundleable (length b) then bt_insert rel b (uh_bytes u) else uh_bytes u)\<rparr>"
    show ?thesis
      using fresh entries_seen_add [OF _ _ seen, of ?u opt] base read by (simp only: add_entry_simps) simp
  qed
qed

text \<open>
  C15. Whatever other programs do to the files before and during the pass, every manifest entry holds the
  size and hashes of bytes its file really had: at one moment of the pass, or, only for a file the stat
  cache has a record of, at an earlier read, and then the size and modification time taken before that
  read are those the file has during the pass. The cache written for the next sign has the same
  guarantee, so a write racing a sign is never recorded under a stat taken after it.
\<close>

theorem sign_hashes_current:
  assumes "cache_sound V root disk meta (unit_prefix dir) cache t0"
    and "hash_unit_files V root disk meta t0 listing dir dopt dmerged ignore optional (Some cache) = Some (u, t1)"
  shows "t0 \<le> t1 \<and> cache_sound V root disk meta (unit_prefix dir) (uh_fresh u) t1 \<and>
    entries_seen V root disk meta (unit_prefix dir) cache t0 t1 (uh_files u) \<and>
    entries_seen V root disk meta (unit_prefix dir) cache t0 t1 (uh_optional u)"
  using assms(2) unfolding hash_unit_files_def Let_def
proof (rule hash_unit_loop_invariant)
  show "t0 \<le> t0 \<and> cache_sound V root disk meta (unit_prefix dir) (uh_fresh \<lparr>uh_files = [], uh_optional = [], uh_bytes = [], uh_fresh = []\<rparr>) t0 \<and>
    entries_seen V root disk meta (unit_prefix dir) cache t0 t0 (uh_files \<lparr>uh_files = [], uh_optional = [], uh_bytes = [], uh_fresh = []\<rparr>) \<and>
    entries_seen V root disk meta (unit_prefix dir) cache t0 t0 (uh_optional \<lparr>uh_files = [], uh_optional = [], uh_bytes = [], uh_fresh = []\<rparr>)"
    by (simp add: cache_sound_def entries_seen_def)
qed (use hash_file_seen [OF assms(1)] trans_le_add1 [of t0] in blast)

text \<open>
  On a disk where equal size and modification time do mean unchanged bytes (the contract the cache
  bets on, which a deploy that preserves modification times breaks), an entry taken from the cache is
  current too.
\<close>

definition stat_contract :: "dir_path \<Rightarrow> disk_history \<Rightarrow> meta_history \<Rightarrow> bool" where
  "stat_contract root disk meta \<longleftrightarrow>
     (\<forall>inner t t' \<tau>. stat_size_mtime root (meta t) inner \<noteq> None \<longrightarrow>
        stat_size_mtime root (meta t) inner = stat_size_mtime root (meta t') inner \<longrightarrow> t \<le> \<tau> \<longrightarrow> \<tau> \<le> t' \<longrightarrow>
        st_read root (disk \<tau>) inner = st_read root (disk t') inner)"

lemma entries_seen_current:
  assumes "stat_contract root disk meta" "entries_seen V root disk meta pre cache t0 t es" "map_of es rel = Some e"
  shows "read_in_pass V root disk t0 t (pre @ rel) e"
proof -
  consider "read_in_pass V root disk t0 t (pre @ rel) e" | "unchanged_by_stat V root disk meta t0 t (pre @ rel) e"
    using assms(2,3) unfolding entries_seen_def by blast
  then show ?thesis
  proof cases
    case 2
    then obtain t1 \<tau> \<tau>' b m where p: "t1 \<le> \<tau>" "\<tau> \<le> t0" "t0 \<le> \<tau>'" "\<tau>' \<le> t" "st_read root (disk \<tau>) (pre @ rel) = Some b"
      "e = entry_for V b" "stat_size_mtime root (meta t1) (pre @ rel) = Some (length b, m)"
      "stat_size_mtime root (meta \<tau>') (pre @ rel) = Some (length b, m)"
      unfolding unchanged_by_stat_def by blast
    have "st_read root (disk \<tau>') (pre @ rel) = Some b"
      using assms(1) [unfolded stat_contract_def, rule_format, of t1 "pre @ rel" \<tau>' \<tau>] p by simp
    then show ?thesis unfolding read_in_pass_def using p(3,4,6) by blast
  qed
qed

section \<open>Bundles hold the bytes that were hashed\<close>

text \<open>Sizes on disk fit a \<open>u64\<close>.\<close>

definition sizes_ok :: "disk_history \<Rightarrow> meta_history \<Rightarrow> bool" where
  "sizes_ok disk meta \<longleftrightarrow> (\<forall>t p b. disk t p = Some b \<longrightarrow> length b \<le> u64_max) \<and> (\<forall>t p s. meta t p = Some s \<longrightarrow> fst s \<le> u64_max)"

lemma sizes_ok_read: "sizes_ok disk meta \<Longrightarrow> st_read root (disk t) inner = Some b \<Longrightarrow> length b \<le> u64_max"
  by (auto simp: sizes_ok_def st_read_def split: sum.splits)

lemma sizes_ok_stat: "sizes_ok disk meta \<Longrightarrow> stat_size_mtime root (meta t) inner = Some (sz, m) \<Longrightarrow> sz \<le> u64_max"
  by (fastforce simp: sizes_ok_def stat_size_mtime_def split: sum.splits)

lemma manifest_entry_get:
  "get_u64 (manifest_entry sz sha b3) ''size'' = (if sz \<le> u64_max then Some sz else None)"
  "get_str (manifest_entry sz sha b3) ''b3'' = Some b3" "get_str (manifest_entry sz sha b3) ''bundle'' = None"
  by (simp_all add: manifest_entry_def j_object_def get_u64_def get_str_def)

definition bundled_size :: "json \<Rightarrow> bool" where
  "bundled_size e \<longleftrightarrow> is_bundleable (unwrap_or (get_u64 e ''size'') 0)"

definition bytes_kept :: "signer_env \<Rightarrow> unit_hashes \<Rightarrow> bool" where
  "bytes_kept V u \<longleftrightarrow> bt_inv (uh_files u) \<and>
     (\<forall>rel e. map_of (uh_files u) rel = Some e \<longrightarrow> get_str e ''bundle'' = None \<and> (\<exists>m. e = JObj m) \<and>
        (bundled_size e \<longrightarrow> (\<exists>b. map_of (uh_bytes u) rel = Some b \<and> e = entry_for V b \<and> length b \<le> u64_max)))"

lemma bytes_kept_add:
  assumes "bytes_kept V u" "get_str e ''bundle'' = None" "\<exists>m. e = JObj m"
    and "\<not> opt \<Longrightarrow> bundled_size e \<Longrightarrow> \<exists>b. map_of bs rel = Some b \<and> e = entry_for V b \<and> length b \<le> u64_max"
    and "\<And>p. p \<noteq> rel \<Longrightarrow> map_of bs p = map_of (uh_bytes u) p" "opt \<Longrightarrow> bs = uh_bytes u"
  shows "bytes_kept V (add_entry opt rel e (u\<lparr>uh_fresh := c, uh_bytes := bs\<rparr>))"
proof (cases opt)
  case True
  then show ?thesis using assms(1,6) by (simp add: bytes_kept_def add_entry_def)
next
  case False
  then show ?thesis using assms by (auto simp: bytes_kept_def add_entry_def)
qed

lemma manifest_entry_obj: "\<exists>m. manifest_entry sz sha b3 = JObj m"
  by (simp add: manifest_entry_def j_object_def)

lemma hash_file_kept:
  assumes "sizes_ok disk meta" "bytes_kept V u" "hash_file V root disk meta cache inner rel opt t u = Some u'"
  shows "bytes_kept V u'"
  using assms(3)
proof (cases rule: hash_file_cases)
  case (hit hit ca)
  have "ca_size hit \<le> u64_max" using sizes_ok_stat [OF assms(1) hit(1)] .
  then show ?thesis
    unfolding hit(5) using hit(4) bytes_kept_add [OF assms(2), of "manifest_entry (ca_size hit) (ca_sha512 hit) (ca_b3 hit)" opt "uh_bytes u" rel]
    by (auto simp: bundled_size_def manifest_entry_get manifest_entry_obj)
next
  case (read b)
  have "length b \<le> u64_max" using sizes_ok_read [OF assms(1) read(1)] .
  then show ?thesis
    unfolding read(2)
    by (intro bytes_kept_add [OF assms(2)]) (auto simp: bundled_size_def entry_for_def manifest_entry_get manifest_entry_obj)
qed

lemma hash_unit_files_kept:
  assumes "sizes_ok disk meta" "hash_unit_files V root disk meta t0 listing dir dopt dmerged ignore optional cache = Some (u, t1)"
  shows "bytes_kept V u"
  using assms(2) unfolding hash_unit_files_def Let_def
  by (rule hash_unit_loop_invariant [where Q = "\<lambda>t u. bytes_kept V u"]) (simp add: bytes_kept_def, rule hash_file_kept [OF assms(1)])

text \<open>Encrypting private files only takes entries out of \<open>files\<close>.\<close>

definition files_within :: "(string \<times> json) list \<Rightarrow> json \<Rightarrow> bool" where
  "files_within F content \<longleftrightarrow> (\<exists>m f. content = JObj m \<and> map_of m ''files'' = Some (JObj f) \<and> bt_inv f \<and>
     (\<forall>p e. map_of f p = Some e \<longrightarrow> map_of F p = Some e))"

lemma files_within_insert: "files_within F (JObj m) \<Longrightarrow> k \<noteq> ''files'' \<Longrightarrow> files_within F (JObj (bt_insert k v m))"
  by (simp add: files_within_def)

lemma files_within_remove: "files_within F (JObj m) \<Longrightarrow> k \<noteq> ''files'' \<Longrightarrow> files_within F (JObj (bt_remove k m))"
  by (simp add: files_within_def)

lemma files_within_shard:
  assumes "files_within F content" "set_shard_entry content p entry = Some content'"
  shows "files_within F content'"
proof -
  obtain m where m: "content = JObj m" using assms(1) by (auto simp: files_within_def)
  then show ?thesis
    using assms by (auto simp: set_shard_entry_def Let_def bind_eq_Some_conv split: option.splits intro!: files_within_insert)
qed

lemma files_within_remove_entry: "files_within F content \<Longrightarrow> files_within F (remove_entry key p content)"
  by (auto simp: files_within_def split: option.split json.split)

lemma files_within_encrypt:
  "encrypt_loop V root fs salt ps content = Inr content' \<Longrightarrow> files_within F content \<Longrightarrow> files_within F content'"
proof (induction ps arbitrary: content)
  case (Cons kp rest)
  obtain key p where kp: "kp = (key, p)" by (cases kp)
  obtain entry content1 where "set_shard_entry content p entry = Some content1"
    "encrypt_loop V root fs salt rest (remove_entry key p content1) = Inr content'"
    using Cons.prems(1) by (auto simp: kp Let_def split: option.splits)
  then show ?case using Cons.IH files_within_shard [OF Cons.prems(2)] files_within_remove_entry by blast
qed simp

lemma files_within_encrypt_shard:
  assumes "encrypt_shard_files V root fs shard (JObj m) = Inr content'" "files_within F (JObj m)"
  shows "files_within F content'"
proof (cases shard)
  case (Some sh)
  obtain salt content1 where s: "ensure_edx_salt V (JObj m) = (salt, content1)" by fastforce
  then have "\<exists>m1. content1 = JObj m1 \<and> files_within F (JObj m1)"
    using assms(2) by (auto simp: ensure_edx_salt_def intro: files_within_insert split: option.splits)
  then have "files_within F (without_keys [''files_shard''] content1)" by (auto intro: files_within_remove)
  then obtain content3 where "content' = drop_empty_optional content3" "files_within F content3"
    using assms(1) s Some files_within_encrypt by (auto simp: encrypt_shard_files_def Let_def split: sum.splits)
  then show ?thesis
    by (auto simp: drop_empty_optional_def intro: files_within_remove split: json.split)
qed (use assms in \<open>simp add: encrypt_shard_files_def\<close>)

lemma files_within_root: "bytes_kept V u \<Longrightarrow> files_within (uh_files u) (JObj (root_fields x modified u dopt m))"
  by (simp add: files_within_def root_fields_def merge_files_optional_def bytes_kept_def Let_def)

text \<open>The bundle inputs are the hashed bytes, without a second read.\<close>

lemma bundle_inputs_loop_hashed:
  assumes "distinct (map fst entries)" "\<And>p e. (p, e) \<in> set entries \<Longrightarrow> bundled_size e \<Longrightarrow> map_of hashed p = Some (g p)" "bt_inv out"
  shows "\<exists>out'. bundle_inputs_loop root fs entries hashed out = Some out' \<and> bt_inv out' \<and>
    (\<forall>p. map_of out' p = (if \<exists>e. (p, e) \<in> set entries \<and> bundled_size e then Some (g p) else map_of out p))"
  using assms
proof (induction entries arbitrary: hashed out)
  case (Cons pe entries)
  obtain p e where pe: "pe = (p, e)" by (cases pe)
  show ?case
  proof (cases "bundled_size e")
    case True
    have "\<exists>out'. bundle_inputs_loop root fs entries (bt_remove p hashed) (bt_insert p (g p) out) = Some out' \<and> bt_inv out' \<and>
      (\<forall>q. map_of out' q = (if \<exists>e. (q, e) \<in> set entries \<and> bundled_size e then Some (g q) else map_of (bt_insert p (g p) out) q))"
    proof (rule Cons.IH)
      fix q e' assume q: "(q, e') \<in> set entries" "bundled_size e'"
      then have "q \<noteq> p" using Cons.prems(1) pe by force
      then show "map_of (bt_remove p hashed) q = Some (g q)" using Cons.prems(2) [of q e'] q by simp
    qed (use Cons.prems pe in auto)
    moreover have "p \<notin> fst ` set entries" "map_of hashed p = Some (g p)" using Cons.prems(1) Cons.prems(2) [of p e] True pe by auto
    ultimately show ?thesis using True pe by (auto simp: bundled_size_def [symmetric])
  next
    case False
    have "\<exists>out'. bundle_inputs_loop root fs entries hashed out = Some out' \<and> bt_inv out' \<and>
      (\<forall>q. map_of out' q = (if \<exists>e. (q, e) \<in> set entries \<and> bundled_size e then Some (g q) else map_of out q))"
      using Cons.prems by (intro Cons.IH) auto
    then show ?thesis using False pe by (auto simp: bundled_size_def [symmetric])
  qed
qed simp

lemma edx_bundle_inputs_hashed:
  assumes "bytes_kept V u" "files_within (uh_files u) c1"
  shows "\<exists>out. edx_bundle_inputs root fs c1 (uh_bytes u) = Some out \<and> bt_inv out \<and>
    (\<forall>p b. map_of out p = Some b \<longrightarrow> map_of (uh_files u) p = Some (entry_for V b) \<and> length b \<le> u64_max)"
proof -
  obtain m f where c1: "c1 = JObj m" "map_of m ''files'' = Some (JObj f)" "bt_inv f"
    and sub: "\<And>p e. map_of f p = Some e \<Longrightarrow> map_of (uh_files u) p = Some e"
    using assms(2) by (auto simp: files_within_def)
  have kept: "\<exists>b. map_of (uh_bytes u) p = Some b \<and> e = entry_for V b \<and> length b \<le> u64_max"
    if "(p, e) \<in> set f" "bundled_size e" for p e
    using that sub [of p e] c1(3) assms(1) by (auto simp: bytes_kept_def bt_entry_iff)
  have "\<exists>out. bundle_inputs_loop root fs f (uh_bytes u) [] = Some out \<and> bt_inv out \<and>
      (\<forall>p. map_of out p = (if \<exists>e. (p, e) \<in> set f \<and> bundled_size e then Some (the (map_of (uh_bytes u) p)) else map_of [] p))"
    using kept bt_inv_distinct [OF c1(3)] by (intro bundle_inputs_loop_hashed) force+
  then obtain out where out: "bundle_inputs_loop root fs f (uh_bytes u) [] = Some out" "bt_inv out"
    "\<And>p. map_of out p = (if \<exists>e. (p, e) \<in> set f \<and> bundled_size e then Some (the (map_of (uh_bytes u) p)) else None)"
    by auto
  have "map_of (uh_files u) p = Some (entry_for V b) \<and> length b \<le> u64_max" if b: "map_of out p = Some b" for p b
  proof -
    obtain e where e: "(p, e) \<in> set f" "bundled_size e" "b = the (map_of (uh_bytes u) p)"
      using b out(3) [of p] by (auto split: if_splits)
    then show ?thesis using kept [OF e(1,2)] sub [of p e] bt_entry_iff [OF c1(3)] by auto
  qed
  then show ?thesis using out c1 by (auto simp: edx_bundle_inputs_def)
qed

lemma root_fold_other: "p \<notin> fst ` set es \<Longrightarrow> map_of (fold root_step es roots) p = map_of roots p"
  by (induction es arbitrary: roots) (auto simp: root_step_def split: option.splits)

lemma root_fold_entry:
  "distinct (map fst es) \<Longrightarrow> (p, e) \<in> set es \<Longrightarrow> obind (get_str e ''b3'') ObjId_from_hex = Some i \<Longrightarrow>
   map_of (fold root_step es roots) p = Some i"
proof (induction es arbitrary: roots)
  case (Cons x es)
  show ?case
  proof (cases "x = (p, e)")
    case True
    then have "p \<notin> fst ` set es" using Cons.prems(1) by auto
    moreover have "map_of (root_step x roots) p = Some i" using Cons.prems(3) True by (simp add: root_step_def)
    ultimately show ?thesis using root_fold_other [of p es "root_step x roots"] by simp
  qed (use Cons in auto)
qed simp

lemma edx_file_roots_entry:
  assumes "c1 = JObj m" "map_of m ''files'' = Some (JObj f)" "bt_inv f" "map_of f p = Some e"
    and "obind (get_str e ''b3'') ObjId_from_hex = Some i"
    and "obind (j_get c1 ''files_optional'') (\<lambda>f. j_get f p) = None"
  shows "map_of (edx_file_roots c1) p = Some i"
proof -
  have f: "map_of (fold root_step f []) p = Some i"
    using root_fold_entry [OF bt_inv_distinct [OF assms(3)] _ assms(5)] assms(3,4) by (simp add: bt_entry_iff)
  show ?thesis
  proof (cases "obind (map_of m ''files_optional'') as_object")
    case None
    then show ?thesis using assms(1,2) f by (simp add: edx_file_roots_def)
  next
    case (Some g)
    then have "map_of m ''files_optional'' = Some (JObj g)" by (auto simp: bind_eq_Some_conv elim: as_object.elims)
    then have "p \<notin> fst ` set g" using assms(1,6) by (simp add: map_of_eq_None_iff)
    then show ?thesis using assms(1,2) f Some root_fold_other [of p g] by (simp add: edx_file_roots_def)
  qed
qed

lemma apply_edx_files:
  assumes "apply_edx H roots asg (JObj m) = Some (c2, root)" "map_of m ''files'' = Some (JObj f)"
  shows "obind (j_get c2 ''files'') (\<lambda>g. j_get g p) = map_option (updated_entry roots asg p) (map_of f p)"
proof -
  obtain obj1 me where s: "foldl (apply_section roots asg) (m, []) [''files'', ''files_optional''] = (obj1, me)"
    by (metis surj_pair)
  obtain obj0 me0 where s0: "apply_section roots asg (m, []) ''files'' = (obj0, me0)" by (metis surj_pair)
  have "map_of obj1 ''files'' = map_of obj0 ''files''"
    using apply_section_get [of roots asg obj0 me0 "''files_optional''" "''files''"] s s0
    by (auto split: option.splits json.splits)
  then have "map_of obj1 ''files'' = Some (JObj (map (\<lambda>(p, e). (p, updated_entry roots asg p e)) f))"
    using apply_section_get [of roots asg m "[]" "''files''" "''files''"] s0 assms(2) by simp
  moreover have "j_get c2 ''files'' = map_of obj1 ''files''"
    using assms(1) s by (auto simp: apply_edx_def Let_def)
  ultimately show ?thesis by (simp add: map_of_updated)
qed

lemma updated_bundle:
  assumes "get_str (updated_entry roots asg p (JObj e)) ''bundle'' = Some h" "get_str (JObj e) ''bundle'' = None"
  obtains r idx off len where "map_of roots p = Some r" "map_of (br_members asg) p = Some (idx, off, len)"
    "h = ObjId_to_string (bd_id (br_bundles asg ! idx))"
    "j_get (updated_entry roots asg p (JObj e)) ''off'' = Some (JInt (int off))"
    "get_str (updated_entry roots asg p (JObj e)) ''b3'' = Some (ObjId_to_string r)"
    "get_u64 (updated_entry roots asg p (JObj e)) ''size'' = get_u64 (JObj e) ''size''"
  using assms
  by (auto simp: updated_entry_def apply_bundle_fields_def get_str_def get_u64_def split: option.splits)

lemma stamped_bundle:
  assumes "\<And>b. length (sv_blake3 V b) = 32" "bytes_kept V u" "files_within (uh_files u) c1"
    and prev: "distinct (concat (case xi_content x of None \<Rightarrow> [] | Some c \<Rightarrow> prev_memberships c))"
    and "stamp_edx_manifest V x fs c1 (uh_bytes u) = Inr c2"
    and "obind (j_get c1 ''files_optional'') (\<lambda>f. j_get f p) = None"
    and "obind (j_get c2 ''files'') (\<lambda>f. j_get f p) = Some e2" "get_str e2 ''bundle'' = Some h"
  shows "\<exists>B b off. h = ObjId_to_string (ObjId_of (sv_blake3 V) B) \<and> j_get e2 ''off'' = Some (JInt (int off)) \<and>
    take (length b) (drop off B) = b \<and> get_str e2 ''b3'' = Some (ObjId_to_string (ObjId_of (sv_blake3 V) b)) \<and>
    get_u64 e2 ''size'' = Some (length b)"
proof -
  let ?H = "sv_blake3 V" and ?prev = "case xi_content x of None \<Rightarrow> [] | Some c \<Rightarrow> prev_memberships c"
  obtain m f where c1: "c1 = JObj m" "map_of m ''files'' = Some (JObj f)" "bt_inv f"
    and sub: "\<And>p e. map_of f p = Some e \<Longrightarrow> map_of (uh_files u) p = Some e"
    using assms(3) by (auto simp: files_within_def)
  obtain out where out: "edx_bundle_inputs (xi_root x) fs c1 (uh_bytes u) = Some out" "bt_inv out"
    "\<And>p b. map_of out p = Some b \<Longrightarrow> map_of (uh_files u) p = Some (entry_for V b) \<and> length b \<le> u64_max"
    using edx_bundle_inputs_hashed [OF assms(2,3)] by blast
  let ?asg = "assign ?H out ?prev" and ?roots = "edx_file_roots c1"
  obtain c2' root where "apply_edx ?H ?roots ?asg c1 = Some (c2', root)"
    using c1(1) by (cases "apply_edx ?H ?roots ?asg c1") (auto simp: apply_edx_def Let_def split: prod.splits)
  then have edx: "apply_edx ?H ?roots ?asg (JObj m) = Some (c2, root)"
    using assms(5) out(1) c1(1) by (simp add: stamp_edx_manifest_def Let_def)
  have "map_option (updated_entry ?roots ?asg p) (map_of f p) = Some e2"
    unfolding apply_edx_files [OF edx c1(2), symmetric] by (rule assms(7))
  then obtain e where e: "map_of f p = Some e" "e2 = updated_entry ?roots ?asg p e" by auto
  obtain me where me: "e = JObj me" "get_str e ''bundle'' = None"
    using sub [OF e(1)] assms(2) by (auto simp: bytes_kept_def)
  obtain r idx off len where up: "map_of ?roots p = Some r" "map_of (br_members ?asg) p = Some (idx, off, len)"
    "h = ObjId_to_string (bd_id (br_bundles ?asg ! idx))" "j_get e2 ''off'' = Some (JInt (int off))"
    "get_str e2 ''b3'' = Some (ObjId_to_string r)" "get_u64 e2 ''size'' = get_u64 e ''size''"
    using updated_bundle [of ?roots ?asg p me h thesis] assms(8) e(2) me by auto
  have "p \<in> set (concat (memberships out ?prev))"
    using build_members_None [of "memberships out ?prev" p ?H out] memberships_partition [OF out(2) prev] up(2)
    by (auto simp: assign_def)
  then obtain b where b: "map_of out p = Some b"
    using memberships_partition [OF out(2) prev] by (metis map_of_eq_None_iff not_Some_eq)
  have entry: "e = entry_for V b" "length b \<le> u64_max" using out(3) [OF b] sub [OF e(1)] by auto
  have "obind (get_str e ''b3'') ObjId_from_hex = Some (ObjId_of ?H b)"
    using assms(1) by (simp add: entry(1) entry_for_def manifest_entry_get ObjId_hex ObjId_of_def)
  then have r: "r = ObjId_of ?H b" using edx_file_roots_entry [OF c1(1,2,3) e(1) _ assms(6)] up(1) by simp
  obtain i off' where hold: "map_of (br_members ?asg) p = Some (i, off', length b)" "i < length (br_bundles ?asg)"
    "take (length b) (drop off' (bd_bytes (br_bundles ?asg ! i))) = b"
    using bundle_assign_holds [OF out(2) prev, of ?H p b] b by blast
  moreover have "bd_id (br_bundles ?asg ! idx) = ObjId_of ?H (bd_bytes (br_bundles ?asg ! idx))"
    using bundle_assign_holds [OF out(2) prev, of ?H] hold(1,2) up(2) by simp
  moreover have "get_u64 e ''size'' = Some (length b)" using entry by (simp add: entry_for_def manifest_entry_get)
  ultimately show ?thesis
    using up r by (intro exI [of _ "bd_bytes (br_bundles ?asg ! idx)"] exI [of _ b] exI [of _ off]) simp
qed

lemma sign_content_keeps:
  assumes "sign_content addr_of sgn_with c pk = Inr (c', sigv)" "k \<noteq> ''signs''" "k \<noteq> ''sign''"
  shows "j_get c' k = j_get c k"
  using assms by (auto simp: sign_content_def split: option.splits sum.splits json.splits)

lemma stamped_file_hashed:
  assumes "files_within F c1" "stamp_edx_manifest V x fs c1 bs = Inr c2" "obind (j_get c2 ''files'') (\<lambda>f. j_get f p) = Some e"
  shows "map_of F p \<noteq> None"
proof -
  obtain m f where c1: "c1 = JObj m" "map_of m ''files'' = Some (JObj f)" "\<And>p e. map_of f p = Some e \<Longrightarrow> map_of F p = Some e"
    using assms(1) by (auto simp: files_within_def)
  obtain roots asg root where edx: "apply_edx (sv_blake3 V) roots asg (JObj m) = Some (c2, root)"
    using assms(2) c1(1) by (auto simp: stamp_edx_manifest_def Let_def apply_edx_def split: option.splits prod.splits)
  have "map_option (updated_entry roots asg p) (map_of f p) = Some e" using apply_edx_files [OF edx c1(2), of p] assms(3) by simp
  then show ?thesis using c1(3) [of p] by fastforce
qed

lemma hash_unit_files_classified:
  assumes "hash_unit_files V root disk meta t0 listing dir dopt dmerged ignore optional cache = Some (u, t1)"
  shows "(map_of (uh_files u) rel \<noteq> None \<longrightarrow>
      unit_file_class rel (nested_dirs_of (unit_prefix dir) listing) dopt dmerged ignore optional = Some False) \<and>
    (map_of (uh_optional u) rel \<noteq> None \<longrightarrow>
      unit_file_class rel (nested_dirs_of (unit_prefix dir) listing) dopt dmerged ignore optional = Some True)"
  using assms unfolding hash_unit_files_def Let_def
proof (rule hash_unit_loop_invariant)
  fix t u u' r opt
  let ?c = "\<lambda>rel. unit_file_class rel (nested_dirs_of (unit_prefix dir) listing) dopt dmerged ignore optional"
  assume u: "(map_of (uh_files u) rel \<noteq> None \<longrightarrow> ?c rel = Some False) \<and> (map_of (uh_optional u) rel \<noteq> None \<longrightarrow> ?c rel = Some True)"
    and c: "?c r = Some opt" and h: "hash_file V root disk meta cache (unit_prefix dir @ r) r opt t u = Some u'"
  show "(map_of (uh_files u') rel \<noteq> None \<longrightarrow> ?c rel = Some False) \<and> (map_of (uh_optional u') rel \<noteq> None \<longrightarrow> ?c rel = Some True)"
    using h u c by (cases rule: hash_file_cases) auto
qed simp

lemma unit_file_class_Some:
  assumes "unit_file_class rel nd opt merged ignore optional = Some b"
  shows "rel \<noteq> ''content.json''" "\<not> ends_with ''/content.json'' rel" "\<not> skip_hashing rel" "map_of merged rel = None"
    "b = pattern_matches optional rel" "\<not> b \<Longrightarrow> map_of opt rel = None"
  using assms by (auto simp: unit_file_class_def Let_def split: if_splits)

text \<open>
  No step between the hash pass and the signature adds a path to \<open>files_optional\<close>: a path is there only
  when the pass hashed or kept it as optional, or when the pass found no optional file at all and the
  section of the previous manifest is still in place.
\<close>

definition not_optional :: "string \<Rightarrow> json \<Rightarrow> bool" where
  "not_optional p content \<longleftrightarrow> (\<exists>m. content = JObj m \<and> obind (map_of m ''files_optional'') (\<lambda>f. j_get f p) = None)"

lemma not_optional_insert: "not_optional p (JObj m) \<Longrightarrow> k \<noteq> ''files_optional'' \<Longrightarrow> not_optional p (JObj (bt_insert k v m))"
  by (simp add: not_optional_def)

lemma not_optional_remove: "not_optional p (JObj m) \<Longrightarrow> not_optional p (JObj (bt_remove k m))"
  by (simp add: not_optional_def)

lemma not_optional_shard:
  assumes "not_optional p content" "set_shard_entry content q entry = Some content'"
  shows "not_optional p content'"
proof -
  obtain m where m: "content = JObj m" using assms(1) by (auto simp: not_optional_def)
  then show ?thesis
    using assms by (auto simp: set_shard_entry_def Let_def bind_eq_Some_conv split: option.splits intro!: not_optional_insert)
qed

lemma not_optional_remove_entry: "not_optional p content \<Longrightarrow> not_optional p (remove_entry key q content)"
  by (auto simp: not_optional_def split: option.split json.split)

lemma not_optional_encrypt:
  "encrypt_loop V root fs salt ps content = Inr content' \<Longrightarrow> not_optional p content \<Longrightarrow> not_optional p content'"
proof (induction ps arbitrary: content)
  case (Cons kp rest)
  obtain key q where kp: "kp = (key, q)" by (cases kp)
  obtain entry content1 where "set_shard_entry content q entry = Some content1"
    "encrypt_loop V root fs salt rest (remove_entry key q content1) = Inr content'"
    using Cons.prems(1) by (auto simp: kp Let_def split: option.splits)
  then show ?case using Cons.IH not_optional_shard [OF Cons.prems(2)] not_optional_remove_entry by blast
qed simp

lemma not_optional_encrypt_shard:
  assumes "encrypt_shard_files V root fs shard (JObj m) = Inr content'" "not_optional p (JObj m)"
  shows "not_optional p content'"
proof (cases shard)
  case (Some sh)
  obtain salt content1 where s: "ensure_edx_salt V (JObj m) = (salt, content1)" by fastforce
  then have "\<exists>m1. content1 = JObj m1 \<and> not_optional p (JObj m1)"
    using assms(2) by (auto simp: ensure_edx_salt_def intro: not_optional_insert split: option.splits)
  then have "not_optional p (without_keys [''files_shard''] content1)" by (auto intro: not_optional_remove)
  then obtain content3 where "content' = drop_empty_optional content3" "not_optional p content3"
    using assms(1) s Some not_optional_encrypt by (auto simp: encrypt_shard_files_def Let_def split: sum.splits)
  then show ?thesis
    by (auto simp: drop_empty_optional_def intro: not_optional_remove split: json.split)
qed (use assms in \<open>simp add: encrypt_shard_files_def\<close>)

lemma fold_upsert_None:
  "map_of (fold (\<lambda>e acc. bt_upsert (fst e) id (snd e) acc) es acc) p = None \<longleftrightarrow> map_of es p = None \<and> map_of acc p = None"
  by (induction es arbitrary: acc) auto

lemma fold_upsert_Nil:
  "fold (\<lambda>e acc. bt_upsert (fst e) id (snd e) acc) es acc = [] \<longleftrightarrow> es = [] \<and> acc = []"
proof
  assume n: "fold (\<lambda>e acc. bt_upsert (fst e) id (snd e) acc) es acc = []"
  have "map_of es p = None \<and> map_of acc p = None" for p using fold_upsert_None [of es acc p] n by simp
  then show "es = [] \<and> acc = []" by (metis map_of_eq_empty_iff ext)
qed simp

lemma not_optional_root:
  assumes "map_of (uh_optional u) p = None" "map_of dopt p = None"
    and "uh_optional u \<noteq> [] \<or> dopt \<noteq> [] \<or> obind (map_of m ''files_optional'') (\<lambda>f. j_get f p) = None"
  shows "not_optional p (JObj (root_fields x modified u dopt m))"
proof (cases "uh_optional u = [] \<and> dopt = []")
  case True
  then show ?thesis
    using assms(3) by (simp add: not_optional_def root_fields_def merge_files_optional_def Let_def)
next
  case False
  then have "fold (\<lambda>e acc. bt_upsert (fst e) id (snd e) acc) dopt (uh_optional u) \<noteq> []"
    using fold_upsert_Nil [of dopt "uh_optional u"] by blast
  then show ?thesis
    using fold_upsert_None [of dopt "uh_optional u" p] assms(1,2)
    by (simp add: not_optional_def root_fields_def merge_files_optional_def Let_def)
qed

text \<open>
  C16. Whatever happens to the files while a xite is signed, the signed manifest agrees with itself: the
  bundle a file entry names has, at the entry's offset and size, bytes with the entry's hash.  The only
  entry that can fail it is one the previous manifest listed as optional, in a sign that found no
  optional file and so left that old section in place.
\<close>

theorem sign_bundles_match:
  assumes "\<And>b. length (sv_blake3 V b) = 32" "sizes_ok disk meta"
    and "hash_unit_files V (xi_root x) disk meta t0 listing [] dopt dmerged ignore optional cache = Some (u, t1)"
    and "finish_sign V x fs privatekey modified dopt u m = Inr c3"
    and "distinct (concat (case xi_content x of None \<Rightarrow> [] | Some c \<Rightarrow> prev_memberships c))"
    and "obind (j_get c3 ''files'') (\<lambda>f. j_get f p) = Some e" "get_str e ''bundle'' = Some h"
  shows "(\<exists>B b off. h = ObjId_to_string (ObjId_of (sv_blake3 V) B) \<and> j_get e ''off'' = Some (JInt (int off)) \<and>
      take (length b) (drop off B) = b \<and> get_str e ''b3'' = Some (ObjId_to_string (ObjId_of (sv_blake3 V) b)) \<and>
      get_u64 e ''size'' = Some (length b)) \<or>
    uh_optional u = [] \<and> dopt = [] \<and> obind (map_of m ''files_optional'') (\<lambda>f. j_get f p) \<noteq> None"
proof -
  have kept: "bytes_kept V u" by (rule hash_unit_files_kept [OF assms(2,3)])
  obtain c1 c2 sigv where c: "encrypt_shard_files V (xi_root x) fs (path_pattern V (map_of m ''shard''))
        (JObj (root_fields x modified u dopt m)) = Inr c1"
    "stamp_edx_manifest V x fs c1 (uh_bytes u) = Inr c2"
    "sign_content (sv_address V) (sv_sign V) c2 privatekey = Inr (c3, sigv)"
    using assms(4) by (auto simp: finish_sign_def split: sum.splits)
  have within: "files_within (uh_files u) c1"
    by (rule files_within_encrypt_shard [OF c(1) files_within_root [OF kept]])
  have c3: "obind (j_get c2 ''files'') (\<lambda>f. j_get f p) = Some e"
    using sign_content_keeps [OF c(3), of "''files''"] assms(6) by simp
  have "map_of (uh_files u) p \<noteq> None" by (rule stamped_file_hashed [OF within c(2) c3])
  then have cls: "unit_file_class p (nested_dirs_of (unit_prefix []) listing) dopt dmerged ignore optional = Some False"
    using hash_unit_files_classified [OF assms(3), of p] by blast
  have "map_of dopt p = None" using unit_file_class_Some(6) [OF cls] by simp
  moreover have "map_of (uh_optional u) p = None"
    using hash_unit_files_classified [OF assms(3), of p] cls by fastforce
  ultimately have "not_optional p (JObj (root_fields x modified u dopt m)) \<or>
      uh_optional u = [] \<and> dopt = [] \<and> obind (map_of m ''files_optional'') (\<lambda>f. j_get f p) \<noteq> None"
    using not_optional_root [of u p dopt m x modified] by blast
  then show ?thesis
  proof
    assume "not_optional p (JObj (root_fields x modified u dopt m))"
    then have "not_optional p c1" by (rule not_optional_encrypt_shard [OF c(1)])
    then have "obind (j_get c1 ''files_optional'') (\<lambda>f. j_get f p) = None" by (auto simp: not_optional_def)
    then show ?thesis using stamped_bundle [OF assms(1) kept within assms(5) c(2) _ c3 assms(7)] by blast
  qed blast
qed

text \<open>
  In that case the hash written into the entry is the old optional one, whatever the pass has hashed:
  the optional section is read last.
\<close>

lemma stale_optional_root_wins:
  assumes "j_get content ''files_optional'' = Some (JObj g)" "distinct (map fst g)" "(p, e) \<in> set g"
    and "obind (get_str e ''b3'') ObjId_from_hex = Some i"
  shows "map_of (edx_file_roots content) p = Some i"
  using assms(1) root_fold_entry [OF assms(2-4)] by (simp add: edx_file_roots_def)

section \<open>The signed root verifies\<close>













section \<open>What a pass hashes\<close>

text \<open>
  Signing never hashes a content.json, a hidden or snapshot file, or a declared merge file, and puts
  no file into both sections.
\<close>

theorem hash_unit_files_classes:
  assumes "hash_unit_files V root disk meta t0 listing dir dopt dmerged ignore optional cache = Some (u, t1)"
  shows "(map_of (uh_files u) rel = None \<or> map_of (uh_optional u) rel = None) \<and>
    (map_of (uh_files u) rel \<noteq> None \<or> map_of (uh_optional u) rel \<noteq> None \<longrightarrow>
       map_of dmerged rel = None \<and> rel \<noteq> ''content.json'' \<and> \<not> skip_hashing rel)"
  using hash_unit_files_classified [OF assms, of rel]
    unit_file_class_Some [of rel "nested_dirs_of (unit_prefix dir) listing" dopt dmerged ignore optional] by fastforce

text \<open>A temporary file that an interrupted atomic write leaves behind is hashed as a required file.\<close>

lemma temporary_file_hashed: "unit_file_class ''content.json.epixtmp'' [] [] [] None None = Some False"
  by code_simp

section \<open>The last deleted optional file stays\<close>

lemma stamp_optional_keys:
  assumes "stamp_edx_manifest V x fs (JObj m) bs = Inr c2" "map_of m ''files_optional'' = Some (JObj g)"
  shows "\<exists>g'. j_get c2 ''files_optional'' = Some (JObj g') \<and> map fst g' = map fst g"
proof -
  obtain roots asg root where edx: "apply_edx (sv_blake3 V) roots asg (JObj m) = Some (c2, root)"
    using assms(1) by (auto simp: stamp_edx_manifest_def Let_def apply_edx_def split: option.splits prod.splits)
  obtain obj1 me where s: "foldl (apply_section roots asg) (m, []) [''files'', ''files_optional''] = (obj1, me)"
    by (metis surj_pair)
  obtain obj0 me0 where s0: "apply_section roots asg (m, []) ''files'' = (obj0, me0)" by (metis surj_pair)
  have "map_of obj0 ''files_optional'' = Some (JObj g)"
    using apply_section_get [of roots asg m "[]" "''files''" "''files_optional''"] s0 assms(2) by (auto split: option.splits json.splits)
  then have "map_of obj1 ''files_optional'' = Some (JObj (map (\<lambda>(p, e). (p, updated_entry roots asg p e)) g))"
    using apply_section_get [of roots asg obj0 me0 "''files_optional''" "''files_optional''"] s s0 by simp
  moreover have "j_get c2 ''files_optional'' = map_of obj1 ''files_optional''" using edx s by (auto simp: apply_edx_def Let_def)
  moreover have "map fst (map (\<lambda>(p, e). (p, updated_entry roots asg p e)) g) = map fst g" by (induction g) auto
  ultimately show ?thesis by auto
qed

text \<open>A pass only adds files of the listing.\<close>

lemma hash_unit_loop_listed:
  "hash_unit_loop V root disk meta cache class_of pre listing t u = Some (u', t') \<Longrightarrow>
   map_of (uh_optional u') rel \<noteq> None \<Longrightarrow> map_of (uh_optional u) rel = None \<Longrightarrow> pre @ rel \<in> set listing"
proof (induction listing arbitrary: t u)
  case (Cons inner rest)
  show ?case
  proof (cases "strip_prefix pre inner")
    case r: (Some r)
    then have inner: "inner = pre @ r" by (simp add: strip_prefix_Some)
    show ?thesis
    proof (cases "class_of r")
      case c: (Some opt)
      then obtain u1 where h: "hash_file V root disk meta cache inner r opt t u = Some u1"
        "hash_unit_loop V root disk meta cache class_of pre rest (t + 2) u1 = Some (u', t')"
        using Cons.prems(1) r by (auto split: option.splits)
      have "map_of (uh_optional u1) rel = None" if "r \<noteq> rel"
        using h(1) that Cons.prems(3) by (cases rule: hash_file_cases) auto
      then show ?thesis using Cons.IH [OF h(2) Cons.prems(2)] inner by auto
    qed (use Cons r in auto)
  qed (use Cons in auto)
qed auto

text \<open>
  C18. The default sign promises to drop a declared optional file that is gone from disk.  When all of them
  are gone, no listed file matches the optional pattern and the unit has no pattern for private files,
  it keeps every one of them: the rebuilt section is empty, and an empty section is not written over the
  old one.  (With another optional file on disk the section is rebuilt and the deleted ones are dropped.)
\<close>

theorem deleted_optional_stays:
  assumes "sign_root V disk meta t0 listing x privatekey modified opts = (Inr (), x', fs')"
    and "\<not> so_keep_missing_optional opts" "xi_content x = Some (JObj m)" "map_of m ''files_optional'' = Some (JObj g)"
    and "list_all (\<lambda>p. \<not> st_exists (xi_root x) (disk t0) p) (map fst g)"
    and "list_all (\<lambda>p. \<not> pattern_matches (path_pattern V (map_of m ''optional'')) p) listing" "map_of m ''shard'' = None"
  shows "\<exists>c g'. xi_content x' = Some c \<and> j_get c ''files_optional'' = Some (JObj g') \<and> map fst g' = map fst g"
proof -
  let ?optional = "path_pattern V (map_of m ''optional'')"
  have none: "filter (\<lambda>e. st_exists (xi_root x) (disk t0) (fst e)) g = []"
    using assms(5) by (simp add: list_all_iff filter_empty_conv)
  obtain u t fs1 c dmerged ignore cache where s:
    "hash_unit_files V (xi_root x) disk meta t0 listing [] [] dmerged ignore ?optional (Some cache) = Some (u, t)"
    "finish_sign V x fs1 privatekey modified [] u m = Inr c" "xi_content x' = Some c"
    using assms(1-4) none
    by (auto simp: sign_root_def Let_def split: option.splits sum.splits if_splits prod.splits)
  have "map_of (uh_optional u) rel = None" for rel
  proof (rule ccontr)
    assume r: "map_of (uh_optional u) rel \<noteq> None"
    then have "rel \<in> set listing"
      using hash_unit_loop_listed [OF s(1) [unfolded hash_unit_files_def Let_def], of rel] by (simp add: unit_prefix_def)
    moreover have "pattern_matches ?optional rel"
      using hash_unit_files_classified [OF s(1), of rel] unit_file_class_Some(5) [of rel _ "[]" dmerged ignore ?optional True] r by blast
    ultimately show False using assms(6) by (simp add: list_all_iff)
  qed
  then have u: "uh_optional u = []" by (metis map_of_eq_empty_iff ext)
  obtain c1 c2 sigv where c: "encrypt_shard_files V (xi_root x) fs1 None (JObj (root_fields x modified u [] m)) = Inr c1"
    "stamp_edx_manifest V x fs1 c1 (uh_bytes u) = Inr c2" "sign_content (sv_address V) (sv_sign V) c2 privatekey = Inr (c, sigv)"
    using s(2) assms(7) by (auto simp: finish_sign_def path_pattern_def split: sum.splits)
  have "c1 = JObj (root_fields x modified u [] m)" using c(1) by (simp add: encrypt_shard_files_def)
  moreover have "map_of (root_fields x modified u [] m) ''files_optional'' = Some (JObj g)"
    using assms(4) u by (simp add: root_fields_def merge_files_optional_def Let_def)
  ultimately show ?thesis
    using stamp_optional_keys c(2) sign_content_keeps [OF c(3), of "''files_optional''"] s(3) by fastforce
qed

section \<open>A small site\<close>

definition ex_signer :: signer_env where
  "ex_signer = \<lparr>sv_sys = sample_os, sv_hash = (\<lambda>b. ''h''), sv_blake3 = (\<lambda>b. replicate 32 (word_of_nat (length b))),
     sv_suite = plain_suite, sv_regex = (\<lambda>_. None), sv_replace = (\<lambda>pat s f. s), sv_load_cache = (\<lambda>_. None),
     sv_dump_cache = (\<lambda>_. []), sv_address = (\<lambda>k. Some ''x''), sv_sign = (\<lambda>d k. Inr ''s''), sv_seed = []\<rparr>"

definition ex_disk :: disk_files where
  "ex_disk = [[''data'', ''a''] \<mapsto> [1, 2]]"

definition ex_meta :: "dir_path \<Rightarrow> (nat \<times> nat option) option" where
  "ex_meta = [[''data'', ''a''] \<mapsto> (2, Some 7)]"

definition ex_unit :: unit_hashes where
  "ex_unit = \<lparr>uh_files = [(''a'', entry_for ex_signer [1, 2])], uh_optional = [], uh_bytes = [(''a'', [1, 2])],
     uh_fresh = [(''a'', cached_for ex_signer [1, 2] 7)]\<rparr>"

lemma ex_path: "path [''data''] ''a'' = Inr [''data'', ''a'']"
  by code_simp

lemma ex_stat: "stat_size_mtime [''data''] ex_meta ''a'' = Some (2, 7)"
  by (simp add: stat_size_mtime_def ex_path ex_meta_def i64_wrap_def)

lemma ex_read: "st_read [''data''] ex_disk ''a'' = Some [1, 2]"
  by (simp add: st_read_def ex_path ex_disk_def)

lemma ex_class: "unit_file_class ''a'' (nested_dirs_of [] [''a'']) [] [] None None = Some False"
  by code_simp

lemma ex_hash: "hash_unit_files ex_signer [''data''] (\<lambda>_. ex_disk) (\<lambda>_. ex_meta) 0 [''a''] [] [] [] None None None = Some (ex_unit, 2)"
  by (simp add: hash_unit_files_def unit_prefix_def ex_class hash_file_def ex_stat ex_read hash_entry_eq Let_def strip_prefix_def
      add_entry_def ex_unit_def is_bundleable_def BUNDLE_FILE_MAX_def)

lemma ex_cache_true: "cache_true ex_signer [''data''] ex_disk ex_meta [] [(''a'', cached_for ex_signer [1, 2] 7)]"
  by (auto simp: cache_true_def ex_read cached_for_def split: if_splits)

lemma ex_hash_cached:
  "hash_unit_files ex_signer [''data''] (\<lambda>_. ex_disk) (\<lambda>_. ex_meta) 0 [''a''] [] [] [] None None
     (Some [(''a'', cached_for ex_signer [1, 2] 7)]) = Some (ex_unit, 2)"
  by (simp add: hash_unit_files_def unit_prefix_def ex_class hash_file_def ex_stat ex_read hash_entry_eq Let_def strip_prefix_def
      add_entry_def ex_unit_def reuse_cached_def is_bundleable_def BUNDLE_FILE_MAX_def)

theorem sign_cache_transparent_witness:
  "hash_unit_files ex_signer [''data''] (\<lambda>_. ex_disk) (\<lambda>_. ex_meta) 0 [''a''] [] [] [] None None
     (Some [(''a'', cached_for ex_signer [1, 2] 7)]) = Some (ex_unit, 2)"
  by (rule sign_cache_transparent [OF _ ex_hash]) (simp add: unit_prefix_def ex_cache_true)

theorem sign_hashes_current_witness:
  "entries_seen ex_signer [''data''] (\<lambda>_. ex_disk) (\<lambda>_. ex_meta) [] [(''a'', cached_for ex_signer [1, 2] 7)] 0 2
     [(''a'', entry_for ex_signer [1, 2])]"
proof -
  have "cache_sound ex_signer [''data''] (\<lambda>_. ex_disk) (\<lambda>_. ex_meta) (unit_prefix []) [(''a'', cached_for ex_signer [1, 2] 7)] 0"
    by (auto simp: cache_sound_def unit_prefix_def ex_read ex_stat cached_for_def split: if_splits)
  from sign_hashes_current [OF this ex_hash_cached] show ?thesis by (simp add: ex_unit_def unit_prefix_def)
qed

lemma ex_sign_sizes: "sizes_ok (\<lambda>_. ex_disk) (\<lambda>_. ex_meta)"
  by (auto simp: sizes_ok_def ex_disk_def ex_meta_def u64_max_def split: if_splits)

definition ex_fields :: "(string \<times> json) list" where
  "ex_fields = [(''address'', JStr ''x''), (''files'', JObj [(''a'', entry_for ex_signer [1, 2])]),
     (''inner_path'', JStr ''content.json''), (''modified'', JInt 1), (''signs_required'', JInt 1)]"

lemma ex_root_fields: "root_fields sample_xite (JInt 1) ex_unit [] [] = ex_fields"
  by (simp add: root_fields_def merge_files_optional_def ex_unit_def ex_fields_def sample_xite_def Let_def)

definition ex_assignment :: bundle_result where
  "ex_assignment = \<lparr>br_bundles = [\<lparr>bd_id = ObjId_of (sv_blake3 ex_signer) [1, 2], bd_bytes = [1, 2], bd_members = [''a'']\<rparr>],
     br_members = [(''a'', (0, 0, 2))]\<rparr>"

lemma ex_sign_assign: "assign (sv_blake3 ex_signer) [(''a'', [1, 2])] [] = ex_assignment"
  by (simp add: ex_assignment_def assign_def memberships_def carry_forward_def new_files_def place_new_def needs_repack_def build_def
      build_bundle_def build_member_def file_bytes_def Let_def)

lemma ex_entry_obj: obtains m where "entry_for ex_signer [1, 2] = JObj m"
  using manifest_entry_obj unfolding entry_for_def by blast

lemma ex_roots: "edx_file_roots (JObj ex_fields) = [(''a'', ObjId_of (sv_blake3 ex_signer) [1, 2])]"
  by (simp add: edx_file_roots_def ex_fields_def root_step_def entry_for_def manifest_entry_get ObjId_hex ObjId_of_def ex_signer_def)

lemma ex_inputs: "edx_bundle_inputs root fs (JObj ex_fields) [(''a'', [1, 2])] = Some [(''a'', [1, 2])]"
  by (simp add: edx_bundle_inputs_def ex_fields_def entry_for_def manifest_entry_get u64_max_def is_bundleable_def BUNDLE_FILE_MAX_def)

lemma apply_edx_obj: "\<exists>m2 root. apply_edx H roots asg (JObj m) = Some (JObj m2, root)"
  by (cases "foldl (apply_section roots asg) (m, []) [''files'', ''files_optional'']") (simp add: apply_edx_def Let_def)

lemma ex_finish:
  "\<exists>c e. finish_sign ex_signer sample_xite fs ''k'' (JInt 1) [] ex_unit [] = Inr c \<and>
     obind (j_get c ''files'') (\<lambda>f. j_get f ''a'') = Some e \<and> get_str e ''bundle'' = Some (ObjId_to_string (ObjId_of (sv_blake3 ex_signer) [1, 2]))"
proof -
  let ?H = "sv_blake3 ex_signer" and ?roots = "[(''a'', ObjId_of (sv_blake3 ex_signer) [1, 2])]"
  obtain m where m: "entry_for ex_signer [1, 2] = JObj m" by (rule ex_entry_obj)
  obtain m2 root where edx: "apply_edx ?H ?roots ex_assignment (JObj ex_fields) = Some (JObj m2, root)"
    using apply_edx_obj by blast
  have st: "stamp_edx_manifest ex_signer sample_xite fs (JObj ex_fields) (uh_bytes ex_unit) = Inr (JObj m2)"
    using edx by (simp add: stamp_edx_manifest_def ex_roots ex_unit_def ex_inputs ex_sign_assign sample_xite_def Let_def)
  let ?c = "JObj (bt_insert ''signs'' (JObj [(''x'', JStr ''s'')]) (bt_remove ''sign'' m2))"
  have sign: "sign_content (sv_address ex_signer) (sv_sign ex_signer) (JObj m2) ''k'' = Inr (?c, ''s'')"
    by (simp add: sign_content_def ex_signer_def)
  have "finish_sign ex_signer sample_xite fs ''k'' (JInt 1) [] ex_unit [] = Inr ?c"
    using st sign by (simp add: finish_sign_def path_pattern_def encrypt_shard_files_def ex_root_fields)
  moreover have "obind (j_get (JObj m2) ''files'') (\<lambda>f. j_get f ''a'') = Some (updated_entry ?roots ex_assignment ''a'' (JObj m))"
    using apply_edx_files [OF edx, of "[(''a'', entry_for ex_signer [1, 2])]" "''a''"] m by (simp add: ex_fields_def)
  moreover have "get_str (updated_entry ?roots ex_assignment ''a'' (JObj m)) ''bundle'' = Some (ObjId_to_string (ObjId_of ?H [1, 2]))"
    by (simp add: updated_entry_def apply_bundle_fields_def ex_assignment_def get_str_def)
  ultimately show ?thesis using sign_content_keeps [OF sign]
    by (intro exI [of _ ?c] exI [of _ "updated_entry ?roots ex_assignment ''a'' (JObj m)"]) simp
qed

theorem sign_bundles_match_witness:
  "\<exists>c e B b off. finish_sign ex_signer sample_xite ex_disk ''k'' (JInt 1) [] ex_unit [] = Inr c \<and>
    obind (j_get c ''files'') (\<lambda>f. j_get f ''a'') = Some e \<and>
    get_str e ''bundle'' = Some (ObjId_to_string (ObjId_of (sv_blake3 ex_signer) B)) \<and> j_get e ''off'' = Some (JInt (int off)) \<and>
    take (length b) (drop off B) = b \<and> get_str e ''b3'' = Some (ObjId_to_string (ObjId_of (sv_blake3 ex_signer) b)) \<and>
    get_u64 e ''size'' = Some (length b)"
proof -
  obtain c e where c: "finish_sign ex_signer sample_xite ex_disk ''k'' (JInt 1) [] ex_unit [] = Inr c"
    "obind (j_get c ''files'') (\<lambda>f. j_get f ''a'') = Some e" "get_str e ''bundle'' = Some (ObjId_to_string (ObjId_of (sv_blake3 ex_signer) [1, 2]))"
    using ex_finish by blast
  have h: "hash_unit_files ex_signer (xi_root sample_xite) (\<lambda>_. ex_disk) (\<lambda>_. ex_meta) 0 [''a''] [] [] [] None None None = Some (ex_unit, 2)"
    using ex_hash by (simp add: sample_xite_def)
  have "length (sv_blake3 ex_signer b) = 32" for b by (simp add: ex_signer_def)
  from sign_bundles_match [OF this ex_sign_sizes h c(1) _ c(2,3)] c(1,2,3) show ?thesis
    by (fastforce simp: sample_xite_def)
qed

text \<open>An empty site: its signed root, and a site whose only optional file is gone.\<close>

definition ex_opts :: sign_opts where
  "ex_opts = \<lparr>so_full = True, so_keep_missing_optional = False\<rparr>"

definition ex_empty_signed :: "(string \<times> json) list \<Rightarrow> json" where
  "ex_empty_signed opt = JObj ([(''address'', JStr ''x''), (''edx'', JInt 1), (''files'', JObj [])] @
     [(''files_merkle_root'', JStr (ObjId_to_string (ObjId (replicate 32 0))))] @ opt @
     [(''inner_path'', JStr ''content.json''), (''modified'', JInt 1), (''signs'', JObj [(''x'', JStr ''s'')]), (''signs_required'', JInt 1)])"

lemma ex_content_path: "path [''data''] ''content.json'' = Inr [''data'', ''content.json'']"
  by code_simp

lemma ex_written: "st_write sample_os [''data''] fs ''content.json'' b = (fs([''data'', ''content.json''] \<mapsto> b), True)"
  by (simp add: st_write_def ex_content_path sample_os_def)

lemma ex_assign_empty: "assign H [] [] = \<lparr>br_bundles = [], br_members = []\<rparr>"
  by (simp add: assign_def memberships_def carry_forward_def new_files_def needs_repack_def build_def Let_def)

lemma ex_finish_empty:
  assumes "m = opt" "opt = [] \<or> opt = [(''files_optional'', JObj [(''o'', JObj [])])]" "xi_content x = None \<or> xi_content x = Some (JObj m)" "xi_address x = ''x''"
  shows "finish_sign ex_signer x fs ''k'' (JInt 1) [] \<lparr>uh_files = [], uh_optional = [], uh_bytes = [], uh_fresh = []\<rparr> m =
    Inr (ex_empty_signed opt)"
proof -
  have prev: "(case xi_content x of None \<Rightarrow> [] | Some c \<Rightarrow> prev_memberships c) = []"
    using assms(1-3) by (auto simp: prev_memberships_def bundle_order_def)
  let ?m = "root_fields x (JInt 1) \<lparr>uh_files = [], uh_optional = [], uh_bytes = [], uh_fresh = []\<rparr> [] m"
  have m: "?m = [(''address'', JStr ''x''), (''files'', JObj [])] @ opt @
      [(''inner_path'', JStr ''content.json''), (''modified'', JInt 1), (''signs_required'', JInt 1)]"
    using assms(1,2,4) by (auto simp: root_fields_def merge_files_optional_def Let_def)
  have "stamp_edx_manifest ex_signer x fs (JObj ?m) [] =
      Inr (JObj ([(''address'', JStr ''x''), (''edx'', JInt 1), (''files'', JObj [])] @ [(''files_merkle_root'', JStr (ObjId_to_string (ObjId (replicate 32 0))))] @ opt @
      [(''inner_path'', JStr ''content.json''), (''modified'', JInt 1), (''signs_required'', JInt 1)]))"
    using assms(2) unfolding stamp_edx_manifest_def prev m Let_def
    by (auto simp: edx_bundle_inputs_def ex_assign_empty edx_file_roots_def root_step_def get_str_def
        apply_edx_def apply_section_def bundles_json_def files_merkle_root_def EDX_VERSION_def bt_remove_def Let_def)
  then show ?thesis
    using assms(1,2) unfolding finish_sign_def m
    by (auto simp: path_pattern_def encrypt_shard_files_def sign_content_def ex_signer_def ex_empty_signed_def bt_remove_def)
qed

lemma ex_sign_root:
  assumes "m = opt" "opt = [] \<or> opt = [(''files_optional'', JObj [(''o'', JObj [])])]" "xi_content x = (if opt = [] then None else Some (JObj m))" "xi_address x = ''x''" "xi_root x = [''data'']"
  shows "\<exists>fs'. sign_root ex_signer (\<lambda>_ _. None) (\<lambda>_. ex_meta) 0 [] x ''k'' (JInt 1) ex_opts =
     (Inr (), x\<lparr>xi_content := Some (ex_empty_signed opt)\<rparr>, fs')"
proof -
  have v: "sv_address ex_signer ''k'' = Some ''x''" "sv_sys ex_signer = sample_os" by (simp_all add: ex_signer_def)
  have gone: "\<not> st_exists [''data''] (\<lambda>_. None) p" for p by (simp add: st_exists_def split: sum.split)
  have f: "finish_sign ex_signer x fs ''k'' (JInt 1) [] \<lparr>uh_files = [], uh_optional = [], uh_bytes = [], uh_fresh = []\<rparr> m =
    Inr (ex_empty_signed opt)" for fs using assms by (intro ex_finish_empty) auto
  show ?thesis
    using assms f
    by (auto simp: sign_root_def v gone ex_written ex_opts_def load_sign_cache_def hash_unit_files_def path_pattern_def Let_def split: prod.split)
qed


theorem deleted_optional_stays_witness:
  "\<exists>x' fs' c g'. sign_root ex_signer (\<lambda>_ _. None) (\<lambda>_. ex_meta) 0 []
       (sample_xite\<lparr>xi_content := Some (JObj [(''files_optional'', JObj [(''o'', JObj [])])])\<rparr>) ''k'' (JInt 1) ex_opts = (Inr (), x', fs') \<and>
     xi_content x' = Some c \<and> j_get c ''files_optional'' = Some (JObj g') \<and> map fst g' = [''o'']"
proof -
  let ?m = "[(''files_optional'', JObj [(''o'', JObj [])])]"
  let ?x = "sample_xite\<lparr>xi_content := Some (JObj ?m)\<rparr>"
  obtain fs' where s: "sign_root ex_signer (\<lambda>_ _. None) (\<lambda>_. ex_meta) 0 [] ?x ''k'' (JInt 1) ex_opts =
     (Inr (), ?x\<lparr>xi_content := Some (ex_empty_signed ?m)\<rparr>, fs')"
    using ex_sign_root [of ?m ?m ?x] by (auto simp: sample_xite_def)
  have "list_all (\<lambda>p. \<not> st_exists (xi_root ?x) (\<lambda>_. None) p) (map fst [(''o'', JObj [])])"
    by (simp add: st_exists_def split: sum.split)
  then show ?thesis
    using deleted_optional_stays [OF s, of ?m "[(''o'', JObj [])]"] s by (auto simp: ex_opts_def)
qed

end
