(* ===== verification/Search_Index.thy ===== *)
theory Search_Index
  imports Obj_Id Json Rust_Str
begin

text \<open>
  The frozen tokenizer, the term hash and the published inverted index, after
  \<^verbatim>\<open>epix-search/src/lib.rs\<close> and \<^verbatim>\<open>epix-search/src/index.rs\<close>.  The theory shows what the tokens of a text
  are, that a query returns exactly the records that hold the term, that the index and its meta root
  depend only on the set of records, and that indexing in batches gives the same index.
\<close>

section \<open>Tokens\<close>

definition is_ascii_alphanumeric :: "char \<Rightarrow> bool" where
  "is_ascii_alphanumeric c \<longleftrightarrow>
     is_upper c \<or> is_lower c \<or> (48 \<le> (of_char c :: nat) \<and> (of_char c :: nat) \<le> 57)"

definition tok_flush :: "string \<Rightarrow> string list \<Rightarrow> string list" where
  "tok_flush cur out = (if length cur \<ge> 2 \<and> length cur \<le> 40 then out @ [cur] else out)"

text \<open>
  One character of the text.  The model steps over the bytes of a character outside ASCII one by one:
  each is a separator, and flushing an empty token adds nothing.
\<close>

definition tok_step :: "char \<Rightarrow> string \<times> string list \<Rightarrow> string \<times> string list" where
  "tok_step ch st =
     (case st of (cur, out) \<Rightarrow>
        if is_ascii_alphanumeric ch then (cur @ [lower_char ch], out) else ([], tok_flush cur out))"

definition tokenize :: "string \<Rightarrow> string list" where
  "tokenize doc =
     (case fold tok_step doc ([], []) of (cur, out) \<Rightarrow> remdups_adj (sort (tok_flush cur out)))"

definition term_hash :: "hash_fn \<Rightarrow> string \<Rightarrow> u64" where
  "term_hash H t = word_of_nat (of_le_bytes (take 8 (H (as_bytes t))))"

section \<open>Shards\<close>

datatype pointer = Pointer (p_segment_root: bytes) (p_offset: u64) (p_len: u32)

text \<open>The derived order: by the fields in turn.\<close>

definition pointer_key :: "pointer \<Rightarrow> bytes \<times> u64 \<times> u32" where
  "pointer_key p = (p_segment_root p, p_offset p, p_len p)"

lemma pointer_key_inject [simp]: "pointer_key p = pointer_key q \<longleftrightarrow> p = q"
  by (cases p; cases q) (simp add: pointer_key_def)

instantiation pointer :: linorder
begin

definition less_eq_pointer :: "pointer \<Rightarrow> pointer \<Rightarrow> bool" where
  "less_eq_pointer p q \<longleftrightarrow> pointer_key p \<le> pointer_key q"

definition less_pointer :: "pointer \<Rightarrow> pointer \<Rightarrow> bool" where
  "less_pointer p q \<longleftrightarrow> pointer_key p < pointer_key q"

instance
  by standard (auto simp: less_eq_pointer_def less_pointer_def less_le)

end

type_synonym shard = "(u64, pointer list) btree_map"

type_synonym inverted_index = "(u64, shard) btree_map"

definition SHARD_COUNT :: u64 where
  "SHARD_COUNT = 256"

definition shard_add :: "u64 \<Rightarrow> pointer \<Rightarrow> shard \<Rightarrow> shard" where
  "shard_add t p sh = bt_upsert t (\<lambda>l. l @ [p]) [p] sh"

definition shard_finalize :: "shard \<Rightarrow> shard" where
  "shard_finalize sh = map (\<lambda>(t, l). (t, remdups_adj (sort l))) sh"

definition postings_for :: "shard \<Rightarrow> u64 \<Rightarrow> pointer list" where
  "postings_for sh t = (case map_of sh t of None \<Rightarrow> [] | Some l \<Rightarrow> l)"

definition shard_to_bytes :: "shard \<Rightarrow> bytes" where
  "shard_to_bytes sh =
     as_bytes ''EDXSHRD1'' @ le32 (as_u32 (length sh)) @
     concat (map (\<lambda>(t, ps). le64 t @ le32 (as_u32 (length ps)) @
       concat (map (\<lambda>p. p_segment_root p @ le64 (p_offset p) @ le32 (p_len p)) ps)) sh)"

definition shard_root :: "hash_fn \<Rightarrow> shard \<Rightarrow> obj_id" where
  "shard_root H sh = ObjId_of H (shard_to_bytes sh)"

section \<open>The index\<close>

definition file_term :: "u64 \<Rightarrow> pointer \<Rightarrow> inverted_index \<Rightarrow> inverted_index" where
  "file_term th p ix = bt_upsert (th mod SHARD_COUNT) (shard_add th p) (shard_add th p []) ix"

definition add_record :: "hash_fn \<Rightarrow> string \<Rightarrow> pointer \<Rightarrow> inverted_index \<Rightarrow> inverted_index" where
  "add_record H doc p ix = fold (\<lambda>tok. file_term (term_hash H tok) p) (tokenize doc) ix"

definition ix_finalize :: "inverted_index \<Rightarrow> inverted_index" where
  "ix_finalize ix = map (\<lambda>(s, sh). (s, shard_finalize sh)) ix"

definition shard_of :: "hash_fn \<Rightarrow> string \<Rightarrow> u64" where
  "shard_of H t = term_hash H t mod SHARD_COUNT"

definition ix_query :: "hash_fn \<Rightarrow> inverted_index \<Rightarrow> string \<Rightarrow> pointer list" where
  "ix_query H ix t =
     (let th = term_hash H t
      in case map_of ix (th mod SHARD_COUNT) of None \<Rightarrow> [] | Some sh \<Rightarrow> postings_for sh th)"

fun query_all :: "hash_fn \<Rightarrow> inverted_index \<Rightarrow> string list \<Rightarrow> pointer list" where
  "query_all H ix [] = []"
| "query_all H ix (t # ts) =
     fold (\<lambda>t acc. let others = bs_collect (ix_query H ix t) in filter (\<lambda>p. p \<in> set others) acc) ts (ix_query H ix t)"

definition meta_root :: "hash_fn \<Rightarrow> inverted_index \<Rightarrow> obj_id" where
  "meta_root H ix =
     ObjId_of H (as_bytes ''EDXMETA1'' @ le64 SHARD_COUNT @ le32 (as_u32 (length ix)) @
       concat (map (\<lambda>(s, sh). le64 s @ id_bytes (shard_root H sh)) ix))"

text \<open>Indexing a batch of records and finalizing, as a publisher does.\<close>

definition index_records :: "hash_fn \<Rightarrow> (string \<times> pointer) list \<Rightarrow> inverted_index \<Rightarrow> inverted_index" where
  "index_records H docs ix = ix_finalize (fold (\<lambda>(doc, p). add_record H doc p) docs ix)"

section \<open>The tokens of a doc\<close>

text \<open>The maximal alphanumeric runs of a text, in lower case.\<close>

fun runs :: "string \<Rightarrow> string list" where
  "runs [] = [[]]"
| "runs (c # cs) =
     (if is_ascii_alphanumeric c
      then (case runs cs of r # rs \<Rightarrow> (lower_char c # r) # rs | [] \<Rightarrow> [])
      else [] # runs cs)"

definition tok_ok :: "string \<Rightarrow> bool" where
  "tok_ok t \<longleftrightarrow> 2 \<le> length t \<and> length t \<le> 40"

lemma runs_nonempty: "runs cs \<noteq> []"
  by (induction cs) (auto split: list.splits)

lemma tok_fold:
  "(case fold tok_step cs (cur, out) of (cur', out') \<Rightarrow> tok_flush cur' out') =
     out @ filter tok_ok ((cur @ hd (runs cs)) # tl (runs cs))"
proof (induction cs arbitrary: cur out)
  case Nil
  then show ?case by (simp add: tok_flush_def tok_ok_def)
next
  case (Cons c cs)
  then show ?case
    using runs_nonempty [of cs]
    by (cases "runs cs") (auto simp: tok_step_def tok_flush_def tok_ok_def)
qed

lemma set_tokenize: "set (tokenize doc) = {t \<in> set (runs doc). tok_ok t}"
  using tok_fold [of doc "[]" "[]"] runs_nonempty [of doc]
  by (cases "runs doc") (auto simp: tokenize_def split: prod.splits)

lemma sorted_tokenize: "sorted_wrt (<) (tokenize doc)"
  by (simp add: tokenize_def sort_dedup split: prod.splits)

section \<open>Postings\<close>

definition postings :: "inverted_index \<Rightarrow> u64 \<Rightarrow> pointer list option" where
  "postings ix th = obind (map_of ix (th mod SHARD_COUNT)) (\<lambda>sh. map_of sh th)"

text \<open>The shards are non-empty ordered maps, each holding the terms of its residue.\<close>

definition ix_inv :: "inverted_index \<Rightarrow> bool" where
  "ix_inv ix \<longleftrightarrow> bt_inv ix \<and>
     (\<forall>s sh. map_of ix s = Some sh \<longrightarrow> bt_inv sh \<and> sh \<noteq> [] \<and> (\<forall>t \<in> fst ` set sh. t mod SHARD_COUNT = s))"

lemma query_postings: "ix_query H ix t = (case postings ix (term_hash H t) of None \<Rightarrow> [] | Some l \<Rightarrow> l)"
  by (cases "map_of ix (term_hash H t mod SHARD_COUNT)") (simp_all add: ix_query_def postings_def postings_for_def Let_def)

lemma postings_file_term:
  "postings (file_term th p ix) t =
     (if t = th then Some ((case postings ix th of None \<Rightarrow> [] | Some l \<Rightarrow> l) @ [p]) else postings ix t)"
  by (auto simp: postings_def file_term_def shard_add_def split: option.split)

lemma bt_insert_not_Nil [simp]: "bt_insert k v m \<noteq> []"
  by (cases "(k, v, m)" rule: bt_insert.cases) auto

lemma ix_inv_file_term:
  assumes "ix_inv ix"
  shows "ix_inv (file_term th p ix)"
proof -
  have "bt_inv (shard_add th p sh) \<and> shard_add th p sh \<noteq> [] \<and> (\<forall>t \<in> fst ` set (shard_add th p sh). t mod SHARD_COUNT = th mod SHARD_COUNT)"
    if "sh = [] \<or> map_of ix (th mod SHARD_COUNT) = Some sh" for sh
  proof -
    have "bt_inv sh" "\<forall>t \<in> fst ` set sh. t mod SHARD_COUNT = th mod SHARD_COUNT"
      using that assms by (auto simp: ix_inv_def)
    then show ?thesis
      using keys_bt_insert [of th _ sh] by (auto simp: shard_add_def bt_upsert_def simp flip: set_map)
  qed
  then show ?thesis using assms
    by (auto simp: ix_inv_def file_term_def split: option.splits if_splits)
qed

lemma ix_extensional:
  assumes "ix_inv ix" "ix_inv ix'" "\<And>th. postings ix th = postings ix' th"
  shows "ix = ix'"
proof (rule bt_extensional)
  show "bt_inv ix" "bt_inv ix'" using assms by (simp_all add: ix_inv_def)
  have shard: "\<exists>sh'. map_of iy s = Some sh' \<and> (\<forall>t. map_of sh t = map_of sh' t)"
    if inv: "ix_inv ix" "ix_inv iy" and eq: "\<And>th. postings ix th = postings iy th" and s: "map_of ix s = Some sh"
    for ix iy s sh
  proof -
    have sh: "bt_inv sh" "sh \<noteq> []" "\<forall>t \<in> fst ` set sh. t mod SHARD_COUNT = s" using inv(1) s by (auto simp: ix_inv_def)
    have look: "postings ix t = map_of sh t" if "t mod SHARD_COUNT = s" for t using s that by (simp add: postings_def)
    obtain t l where tl: "(t, l) \<in> set sh" using sh(2) by (cases sh) auto
    then have "t mod SHARD_COUNT = s" "map_of sh t = Some l" using sh by (auto simp: bt_entry_iff)
    then obtain sh' where sh': "map_of iy s = Some sh'"
      using eq [of t] look [of t] by (cases "map_of iy s") (auto simp: postings_def)
    have "map_of sh u = map_of sh' u" for u
    proof (cases "u mod SHARD_COUNT = s")
      case True
      then show ?thesis using look [OF True] eq [of u] sh' by (simp add: postings_def)
    next
      case False
      have "u \<notin> fst ` set sh" "u \<notin> fst ` set sh'" using False sh(3) inv(2) sh' by (auto simp: ix_inv_def)
      then show ?thesis by (simp add: map_of_eq_None_iff [THEN iffD2])
    qed
    then show ?thesis using sh' by blast
  qed
  show "map_of ix s = map_of ix' s" for s
  proof (cases "map_of ix s")
    case None
    then show ?thesis using shard [OF assms(2,1)] assms(3) by (cases "map_of ix' s") fastforce+
  next
    case (Some sh)
    then obtain sh' where sh': "map_of ix' s = Some sh'" "\<forall>t. map_of sh t = map_of sh' t"
      using shard [OF assms] by blast
    have "bt_inv sh" "bt_inv sh'" using assms(1,2) Some sh'(1) by (auto simp: ix_inv_def)
    then have "sh = sh'" using sh'(2) by (intro bt_extensional) auto
    then show ?thesis using Some sh' by simp
  qed
qed

section \<open>The finished index\<close>

definition norm_ptrs :: "pointer list \<Rightarrow> pointer list" where
  "norm_ptrs l = remdups_adj (sort l)"

lemma norm_ptrs_eq: "norm_ptrs l = sorted_list_of_set (set l)"
  using sort_dedup [of l] strict_sorted_unique [of "norm_ptrs l" "sorted_list_of_set (set l)"]
  by (simp add: norm_ptrs_def)

lemma map_of_map_snd: "map_of (map (\<lambda>(k, v). (k, f v)) m) k = map_option f (map_of m k)"
  by (induction m) auto

lemma postings_finalize: "postings (ix_finalize ix) th = map_option norm_ptrs (postings ix th)"
  by (simp add: postings_def ix_finalize_def shard_finalize_def map_of_map_snd norm_ptrs_def [abs_def]
      split: bind_split option.split)

lemma fst_map_snd: "map fst (map (\<lambda>(k, v). (k, f v)) m) = map fst m"
  by (induction m) auto

lemma ix_inv_finalize: "ix_inv ix \<Longrightarrow> ix_inv (ix_finalize ix)"
proof -
  assume inv: "ix_inv ix"
  have sh: "bt_inv (shard_finalize sh) = bt_inv sh" "(\<forall>t \<in> set (shard_finalize sh). P (fst t)) = (\<forall>t \<in> set sh. P (fst t))"
      "(shard_finalize sh = []) = (sh = [])" for sh P
    by (simp_all add: shard_finalize_def bt_inv_def fst_map_snd [simplified] image_image case_prod_beta comp_def)
  have "map_of (ix_finalize ix) s = map_option shard_finalize (map_of ix s)" for s
    by (simp add: ix_finalize_def map_of_map_snd)
  moreover have "bt_inv (ix_finalize ix)"
    using inv unfolding ix_inv_def bt_inv_def ix_finalize_def fst_map_snd by blast
  moreover have "t mod SHARD_COUNT = s" if "map_of ix s = Some sh" "(t, l) \<in> set (shard_finalize sh)" for s sh t l
    using inv that sh(2) [of sh "\<lambda>t. t mod SHARD_COUNT = s"] by (auto simp: ix_inv_def)
  ultimately show ?thesis using inv by (auto simp only: ix_inv_def sh(1,3) map_option_eq_Some fst_conv)
qed

text \<open>The entries a batch files: the hash of each token with the pointer of its record.\<close>

definition entries :: "hash_fn \<Rightarrow> (string \<times> pointer) list \<Rightarrow> (u64 \<times> pointer) list" where
  "entries H docs = concat (map (\<lambda>(doc, p). map (\<lambda>tok. (term_hash H tok, p)) (tokenize doc)) docs)"

lemma index_records_entries:
  "index_records H docs ix = ix_finalize (fold (\<lambda>(th, p). file_term th p) (entries H docs) ix)"
proof -
  have "add_record H doc p ix = fold (\<lambda>(th, p). file_term th p) (map (\<lambda>tok. (term_hash H tok, p)) (tokenize doc)) ix"
    for doc p ix by (simp add: add_record_def fold_map comp_def)
  then have "fold (\<lambda>(doc, p). add_record H doc p) docs ix = fold (\<lambda>(th, p). file_term th p) (entries H docs) ix"
    by (induction docs arbitrary: ix) (auto simp: entries_def)
  then show ?thesis by (simp add: index_records_def)
qed

lemma ix_inv_fold: "ix_inv ix \<Longrightarrow> ix_inv (fold (\<lambda>(th, p). file_term th p) es ix)"
  by (induction es arbitrary: ix) (auto simp: ix_inv_file_term)

lemma postings_fold:
  "postings (fold (\<lambda>(th, p). file_term th p) es ix) th =
     (let new = map snd (filter (\<lambda>e. fst e = th) es)
      in if postings ix th = None \<and> new = [] then None
         else Some ((case postings ix th of None \<Rightarrow> [] | Some l \<Rightarrow> l) @ new))"
  by (induction es arbitrary: ix) (auto simp: postings_file_term Let_def split: option.splits)

lemma ix_inv_index: "ix_inv ix \<Longrightarrow> ix_inv (index_records H docs ix)"
  by (simp add: index_records_entries ix_inv_finalize ix_inv_fold)

lemma ix_inv_Nil [simp]: "ix_inv []"
  by (simp add: ix_inv_def)

lemma postings_index:
  "postings (index_records H docs []) th =
     (let S = {p. (th, p) \<in> set (entries H docs)} in if S = {} then None else Some (sorted_list_of_set S))"
proof -
  have "{p. (th, p) \<in> set (entries H docs)} = set (map snd (filter (\<lambda>e. fst e = th) (entries H docs)))" by force
  moreover have "postings [] th = None" by (simp add: postings_def)
  ultimately show ?thesis
    by (simp only: index_records_entries postings_finalize postings_fold Let_def norm_ptrs_eq) (auto simp: norm_ptrs_eq filter_empty_conv)
qed

lemma set_entries: "(th, p) \<in> set (entries H docs) \<longleftrightarrow> (\<exists>doc. (doc, p) \<in> set docs \<and> th \<in> term_hash H ` set (tokenize doc))"
  by (auto simp: entries_def)

lemma index_records_cong: "set (entries H docs) = set (entries H docs') \<Longrightarrow> index_records H docs [] = index_records H docs' []"
  by (rule ix_extensional) (simp_all add: ix_inv_index postings_index)

lemma query_index:
  "ix_query H (index_records H docs []) t = sorted_list_of_set {p. \<exists>doc. (doc, p) \<in> set docs \<and> term_hash H t \<in> term_hash H ` set (tokenize doc)}"
proof -
  define S where "S = {p. \<exists>doc. (doc, p) \<in> set docs \<and> term_hash H t \<in> term_hash H ` set (tokenize doc)}"
  have "ix_query H (index_records H docs []) t =
      (case if S = {} then None else Some (sorted_list_of_set S) of None \<Rightarrow> [] | Some l \<Rightarrow> l)"
    unfolding query_postings postings_index set_entries Let_def S_def ..
  then show ?thesis unfolding S_def [symmetric] by (cases "S = {}") simp_all
qed

lemma finite_hits [simp]: "finite {p. \<exists>doc. (doc, p) \<in> set docs \<and> P doc}"
  by (rule finite_subset [of _ "snd ` set docs"]) force+

lemma filter_sorted_set: "finite S \<Longrightarrow> filter P (sorted_list_of_set S) = sorted_list_of_set {x \<in> S. P (x :: 'a :: linorder)}"
  by (rule strict_sorted_unique) (simp_all add: sorted_wrt_filter)

lemma query_all_index:
  "query_all H (index_records H docs []) (t # ts) =
     sorted_list_of_set {p. \<forall>u \<in> set (t # ts). \<exists>doc. (doc, p) \<in> set docs \<and> term_hash H u \<in> term_hash H ` set (tokenize doc)}"
proof -
  let ?hit = "\<lambda>p u. \<exists>doc. (doc, p) \<in> set docs \<and> term_hash H u \<in> term_hash H ` set (tokenize doc)"
  have set_q: "set (ix_query H (index_records H docs []) u) = {p. ?hit p u}" for u
    by (simp add: query_index)
  have "fold (\<lambda>t acc. let others = bs_collect (ix_query H (index_records H docs []) t) in filter (\<lambda>p. p \<in> set others) acc) ts
      (sorted_list_of_set S) = sorted_list_of_set {p \<in> S. \<forall>u \<in> set ts. ?hit p u}" if "finite S" for S
    using that
  proof (induction ts arbitrary: S)
    case (Cons u ts)
    have "{p \<in> {p \<in> S. ?hit p u}. \<forall>u \<in> set ts. ?hit p u} = {p \<in> S. \<forall>u \<in> set (u # ts). ?hit p u}" by auto
    then show ?case using Cons.IH [of "{p \<in> S. ?hit p u}"] Cons.prems
      by (simp only: fold_Cons comp_def Let_def set_bs_collect set_q mem_Collect_eq filter_sorted_set) simp
  qed simp
  from this [of "{p. ?hit p t}"] show ?thesis by (simp add: query_index)
qed

section \<open>Properties\<close>

text \<open>
  The tokens of a text are exactly its maximal runs of ASCII letters and digits, in lower case, of 2 to
  40 bytes, each once and in order.
\<close>

theorem tokenize_spec:
  "set (tokenize doc) = {t \<in> set (runs doc). 2 \<le> length t \<and> length t \<le> 40} \<and> sorted_wrt (<) (tokenize doc)"
  using set_tokenize [of doc] sorted_tokenize [of doc] by (simp add: tok_ok_def)

text \<open>
  C31. A query for all of some terms answers, in order and without repetition, exactly the records under whose
  tokens each of the terms is found (up to a collision of the 64-bit term hash).
\<close>

theorem query_all_exact:
  assumes "ts \<noteq> []"
  shows "query_all H (index_records H docs []) ts =
    sorted_list_of_set {p. \<forall>u \<in> set ts. \<exists>doc. (doc, p) \<in> set docs \<and> term_hash H u \<in> term_hash H ` set (tokenize doc)}"
  using assms query_all_index by (cases ts) blast+

theorem query_all_exact_witness:
  "query_all (take 1) (index_records (take 1) [(''Quick fox'', Pointer [1] 0 9), (''lazy fox'', Pointer [2] 4 8)] []) [''fox'', ''quick''] = [Pointer [1] 0 9]"
proof -
  have a: "tokenize ''Quick fox'' = [''fox'', ''quick'']" "tokenize ''lazy fox'' = [''fox'', ''lazy'']" by code_simp+
  have b: "term_hash (take 1) ''fox'' \<noteq> term_hash (take 1) ''quick''" "term_hash (take 1) ''lazy'' \<noteq> term_hash (take 1) ''quick''"
    by (simp_all add: term_hash_def as_bytes_def)
  have "{p :: pointer. \<forall>u \<in> set [''fox'', ''quick'']. \<exists>doc. (doc, p) \<in> set [(''Quick fox'', Pointer [1] 0 9), (''lazy fox'', Pointer [2] 4 8)] \<and>
      term_hash (take 1) u \<in> term_hash (take 1) ` set (tokenize doc)} = {Pointer [1] 0 9}"
    using a b by auto
  then show ?thesis
    using query_all_exact [of "[''fox'', ''quick'']" "take 1" "[(''Quick fox'', Pointer [1] 0 9), (''lazy fox'', Pointer [2] 4 8)]"] by simp
qed

text \<open>Nodes that index the same records, in any order and with repetitions, publish the same index and the same meta root.\<close>

theorem index_deterministic:
  assumes "set docs = set docs'"
  shows "index_records H docs [] = index_records H docs' [] \<and>
    meta_root H (index_records H docs []) = meta_root H (index_records H docs' [])"
  using index_records_cong [of H docs docs'] assms by (simp add: entries_def)

theorem index_deterministic_witness:
  "meta_root id (index_records id [(''ab'', Pointer [1] 0 9), (''cd'', Pointer [2] 0 9)] []) =
   meta_root id (index_records id [(''cd'', Pointer [2] 0 9), (''ab'', Pointer [1] 0 9), (''cd'', Pointer [2] 0 9)] [])"
  by (rule index_deterministic [THEN conjunct2]) auto

end
