(* ===== verification/Xor_Filter.thy ===== *)
theory Xor_Filter
  imports Rust_Std
begin

text \<open>
  The XOR8 term filter of a sealed segment, after \<^verbatim>\<open>epix-search/src/xor8.rs\<close>: construction by peeling,
  membership, and the frozen byte form.  The theory shows that a built filter accepts every key it was
  built from, that the construction ends and never indexes out of range, that it depends only on the
  set of keys, and that the byte form reads back and only well-formed filters are accepted.
\<close>

unbundle bit_operations_syntax

section \<open>The filter\<close>

record xor8 =
  x8_seed :: u64
  x8_block_length :: u32
  x8_fingerprints :: bytes
  x8_match_all :: bool

definition SEEDS :: "u64 list" where
  "SEEDS = [
     0x2545F4914F6CDD1D, 0x9E3779B97F4A7C15, 0xD1B54A32D192ED03,
     0xA0761D6478BD642F, 0xE7037ED1A0B428DB, 0x8EBC6AF09C88C6E3,
     0x58971E0C1D33A6D1, 0x4CF5AD432745937F, 0xFF51AFD7ED558CCD,
     0xC4CEB9FE1A85EC53, 0x165667B19E3779F9, 0x27D4EB2F165667C5,
     0x1111111111111111, 0x2222222222222223, 0x3333333333333335,
     0x4444444444444447, 0x5555555555555559, 0x666666666666666B,
     0x777777777777777D, 0x888888888888888F, 0x9999999999999991,
     0xAAAAAAAAAAAAAAA3, 0xBBBBBBBBBBBBBBB5, 0xCCCCCCCCCCCCCCC7,
     0xDDDDDDDDDDDDDDD9, 0xEEEEEEEEEEEEEEEB, 0xFFFFFFFFFFFFFFFD,
     0x0123456789ABCDEF, 0xFEDCBA9876543210, 0x0F0F0F0F0F0F0F0F,
     0xF0F0F0F0F0F0F0F0, 0xACE1ACE1ACE1ACE1]"

definition mix :: "u64 \<Rightarrow> u64 \<Rightarrow> u64" where
  "mix key seed =
     (let h = key + seed;
          h = (h XOR drop_bit 33 h) * 0xff51afd7ed558ccd;
          h = (h XOR drop_bit 33 h) * 0xc4ceb9fe1a85ec53
      in h XOR drop_bit 33 h)"

definition reduce :: "u32 \<Rightarrow> u32 \<Rightarrow> u32" where
  "reduce hash n = ucast (drop_bit 32 (ucast hash * ucast n :: u64))"

definition fingerprint :: "u64 \<Rightarrow> u8" where
  "fingerprint hash = ucast (hash XOR drop_bit 32 hash)"

text \<open>The three slots of a hash, one in each third of the table.\<close>

definition subhashes :: "u32 \<Rightarrow> u64 \<Rightarrow> u32 list" where
  "subhashes block_length hash =
     [reduce (ucast hash) block_length,
      reduce (ucast (drop_bit 16 hash)) block_length + block_length,
      reduce (ucast (drop_bit 32 hash)) block_length + 2 * block_length]"

section \<open>Construction\<close>

text \<open>Each slot has the exclusive-or of the indices of its keys and their number.\<close>

type_synonym slot_set = "u64 \<times> u32"

definition slot_add :: "nat \<Rightarrow> u32 \<Rightarrow> slot_set list \<Rightarrow> slot_set list" where
  "slot_add i s sets =
     (case sets ! unat s of (x, c) \<Rightarrow> sets[unat s := (x XOR as_u64 i, c + 1)])"

definition slot_sets :: "u32 \<Rightarrow> u64 list \<Rightarrow> nat \<Rightarrow> slot_set list" where
  "slot_sets block_length hashed capacity =
     fold (\<lambda>i sets. fold (slot_add i) (subhashes block_length (hashed ! i)) sets)
       [0..<length hashed] (replicate capacity (0, 0))"

text \<open>Removing a key from one of its slots; a slot left with one key is queued.\<close>

definition slot_remove :: "nat \<Rightarrow> u32 \<Rightarrow> slot_set list \<times> u32 list \<Rightarrow> slot_set list \<times> u32 list" where
  "slot_remove i s st =
     (case st of (sets, queue) \<Rightarrow>
        case sets ! unat s of (x, c) \<Rightarrow>
          (sets[unat s := (x XOR as_u64 i, c - 1)], if c - 1 = 1 then queue @ [s] else queue))"

text \<open>
  The peeling loop, with the queue popped at its end.  \<open>None\<close> stands for a run that does not return: an
  index out of range, or a loop that never ends.
\<close>

partial_function (option) peel_loop ::
    "u32 \<Rightarrow> u64 list \<Rightarrow> slot_set list \<Rightarrow> u32 list \<Rightarrow> (nat \<times> u32) list \<Rightarrow> (nat \<times> u32) list option" where
  "peel_loop block_length hashed sets queue stack =
     (if queue = [] then Some stack
      else let slot = last queue; queue1 = butlast queue in
        if unat slot \<ge> length sets then None
        else if snd (sets ! unat slot) \<noteq> 1 then peel_loop block_length hashed sets queue1 stack
        else let key_idx = unat (fst (sets ! unat slot)) in
          if key_idx \<ge> length hashed then None
          else let hs = subhashes block_length (hashed ! key_idx) in
            if list_ex (\<lambda>s. unat s \<ge> length sets) hs then None
            else let st = fold (slot_remove key_idx) hs (sets, queue1) in
              peel_loop block_length hashed (fst st) (snd st) (stack @ [(key_idx, slot)]))"

definition peel :: "u32 \<Rightarrow> u64 list \<Rightarrow> slot_set list \<Rightarrow> (nat \<times> u32) list option" where
  "peel block_length hashed sets =
     peel_loop block_length hashed sets
       (filter (\<lambda>s. snd (sets ! unat s) = 1) (map word_of_nat [0..<length sets])) []"

definition x8_assign_step :: "u32 \<Rightarrow> u64 list \<Rightarrow> nat \<times> u32 \<Rightarrow> bytes \<Rightarrow> bytes" where
  "x8_assign_step block_length hashed e fp =
     (let h = hashed ! fst e;
          f = fold (\<lambda>s acc. acc XOR (if snd e = s then 0 else fp ! unat s)) (subhashes block_length h) (fingerprint h)
      in fp[unat (snd e) := f])"

definition assign_fingerprints :: "u32 \<Rightarrow> u64 list \<Rightarrow> (nat \<times> u32) list \<Rightarrow> nat \<Rightarrow> bytes" where
  "assign_fingerprints block_length hashed stack capacity =
     fold (x8_assign_step block_length hashed) (rev stack) (replicate capacity 0)"

definition try_build :: "u64 list \<Rightarrow> u64 \<Rightarrow> u32 \<Rightarrow> nat \<Rightarrow> bytes option option" where
  "try_build keys seed block_length capacity =
     (let hashed = map (\<lambda>k. mix k seed) keys
      in case peel block_length hashed (slot_sets block_length hashed capacity) of
           None \<Rightarrow> None
         | Some stack \<Rightarrow>
             Some (if length stack \<noteq> length keys then None
                   else Some (assign_fingerprints block_length hashed stack capacity)))"

text \<open>
  \<open>(1.23 * size as f64).ceil()\<close>: the constant is the \<open>f64\<close> nearest to 1.23, in units of \<open>2 ^ -52\<close>; the
  product is rounded to an \<open>f64\<close> before it is rounded up.
\<close>

definition f64_1_23 :: nat where
  "f64_1_23 = 5539427541665710"

definition filter_capacity :: "nat \<Rightarrow> nat" where
  "filter_capacity sz =
     (let capacity = max (32 + div_ceil (round53 (f64_1_23 * sz)) (2 ^ 52)) 3
      in capacity + (3 - capacity mod 3) mod 3)"

fun build_loop :: "u64 list \<Rightarrow> u32 \<Rightarrow> nat \<Rightarrow> u64 list \<Rightarrow> xor8 option" where
  "build_loop keys block_length capacity [] =
     Some \<lparr>x8_seed = 0, x8_block_length = 0, x8_fingerprints = [], x8_match_all = True\<rparr>"
| "build_loop keys block_length capacity (seed # seeds) =
     (case try_build keys seed block_length capacity of
        None \<Rightarrow> None
      | Some None \<Rightarrow> build_loop keys block_length capacity seeds
      | Some (Some fp) \<Rightarrow>
          Some \<lparr>x8_seed = seed, x8_block_length = block_length, x8_fingerprints = fp, x8_match_all = False\<rparr>)"

definition x8_build :: "u64 list \<Rightarrow> xor8 option" where
  "x8_build keys =
     (let dedup = remdups_adj (sort keys);
          capacity = filter_capacity (length dedup)
      in build_loop dedup (as_u32 (capacity div 3)) capacity SEEDS)"

section \<open>Membership\<close>

definition contains :: "xor8 \<Rightarrow> u64 \<Rightarrow> bool" where
  "contains f key \<longleftrightarrow>
     x8_match_all f \<or>
     (let h = mix key (x8_seed f)
      in fingerprint h = fold (\<lambda>s acc. acc XOR x8_fingerprints f ! unat s) (subhashes (x8_block_length f) h) 0)"

section \<open>Bytes\<close>

definition x8_to_bytes :: "xor8 \<Rightarrow> bytes" where
  "x8_to_bytes f =
     (if x8_match_all f then replicate 16 0
      else le64 (x8_seed f) @ le32 (x8_block_length f) @ le32 (as_u32 (length (x8_fingerprints f))) @
           x8_fingerprints f)"

definition x8_from_bytes :: "bytes \<Rightarrow> xor8 option" where
  "x8_from_bytes b =
     (if length b < 16 then None
      else let seed = word_of_nat (of_le_bytes (take 8 b)) :: u64;
               block_length = word_of_nat (of_le_bytes (take 4 (drop 8 b))) :: u32;
               len = of_le_bytes (take 4 (drop 12 b))
           in if length b \<noteq> 16 + len then None
              else if block_length = 0 then
                (if len \<noteq> 0 then None
                 else Some \<lparr>x8_seed = seed, x8_block_length = 0, x8_fingerprints = [], x8_match_all = True\<rparr>)
              else if len \<noteq> 3 * unat block_length then None
              else Some \<lparr>x8_seed = seed, x8_block_length = block_length, x8_fingerprints = drop 16 b,
                     x8_match_all = False\<rparr>)"

section \<open>Slots\<close>

lemma unat_reduce: "unat (reduce h n) = unat h * unat n div 2 ^ 32"
proof -
  have h: "unat h < 2 ^ 32" "unat n < 2 ^ 32"
    using unsigned_less [of h, where ?'a = nat] unsigned_less [of n, where ?'a = nat] by simp_all
  then have "unat h * unat n < 2 ^ 32 * 2 ^ 32" by (intro mult_strict_mono) auto
  then have "unat (ucast h * ucast n :: u64) = unat h * unat n"
    using h by (simp add: unat_mult_lem [THEN iffD1] unat_word_ariths unsigned_ucast_eq take_bit_eq_mod)
  then have "unat (drop_bit 32 (ucast h * ucast n :: u64)) = unat h * unat n div 2 ^ 32"
    by (simp add: drop_bit_eq_div unat_div_distrib)
  moreover have "unat h * unat n div 2 ^ 32 < 2 ^ 32"
    using \<open>unat h * unat n < 2 ^ 32 * 2 ^ 32\<close> by (simp add: less_mult_imp_div_less)
  ultimately show ?thesis unfolding reduce_def by (simp add: unsigned_ucast_eq take_bit_eq_mod)
qed

lemma reduce_less: "n \<noteq> 0 \<Longrightarrow> unat (reduce h n) < unat n"
proof -
  assume "n \<noteq> 0"
  then have "0 < unat n" by (simp add: unat_gt_0)
  moreover have "unat h < 2 ^ 32" using unsigned_less [of h, where ?'a = nat] by simp
  ultimately have "unat h * unat n < 2 ^ 32 * unat n" by simp
  then show ?thesis unfolding unat_reduce by (simp add: less_mult_imp_div_less mult.commute)
qed

text \<open>A table geometry: three blocks, small enough that no slot number wraps.\<close>

definition geometry :: "u32 \<Rightarrow> nat \<Rightarrow> bool" where
  "geometry bl cap \<longleftrightarrow> bl \<noteq> 0 \<and> cap = 3 * unat bl \<and> cap < 2 ^ 32"

lemma subhashes_slots:
  assumes "geometry bl cap"
  shows "distinct (subhashes bl h)" "s \<in> set (subhashes bl h) \<Longrightarrow> unat s < cap" "length (subhashes bl h) = 3"
proof -
  let ?r = "\<lambda>x. reduce x bl"
  have lt: "unat (?r x) < unat bl" for x using assms by (simp add: geometry_def reduce_less)
  have cap: "3 * unat bl < 2 ^ 32" using assms by (simp add: geometry_def)
  have two: "unat (2 * bl) = 2 * unat bl"
    using cap unat_mult_lem [of 2 bl] by simp
  have s1: "unat (?r x + bl) = unat (?r x) + unat bl" for x
    using cap lt [of x] unat_add_lem [of "?r x" bl] by simp
  have s2: "unat (?r x + 2 * bl) = unat (?r x) + 2 * unat bl" for x
    using cap lt [of x] unat_add_lem [of "?r x" "2 * bl"] two by simp
  show "distinct (subhashes bl h)"
    using lt [of "ucast h"] lt [of "ucast (drop_bit 16 h)"] s1 [of "ucast (drop_bit 16 h)"] s2 [of "ucast (drop_bit 32 h)"]
    by (simp add: subhashes_def word_unat_eq_iff)
  show "unat s < cap" if "s \<in> set (subhashes bl h)"
    using that lt [of "ucast h"] lt [of "ucast (drop_bit 16 h)"] lt [of "ucast (drop_bit 32 h)"] assms
    by (auto simp: subhashes_def s1 s2 geometry_def)
  show "length (subhashes bl h) = 3" by (simp add: subhashes_def)
qed

definition touches :: "u32 \<Rightarrow> u64 list \<Rightarrow> u32 \<Rightarrow> nat \<Rightarrow> bool" where
  "touches bl hashed s i \<longleftrightarrow> s \<in> set (subhashes bl (hashed ! i))"

section \<open>Peeling\<close>

definition xor_of :: "nat list \<Rightarrow> u64" where
  "xor_of is = foldr (\<lambda>i acc. as_u64 i XOR acc) is 0"

lemma xor_of_simps [simp]: "xor_of [] = 0" "xor_of (i # is) = as_u64 i XOR xor_of is"
  by (simp_all add: xor_of_def)

lemma xor_of_append: "xor_of (xs @ ys) = xor_of xs XOR xor_of ys"
  by (induction xs) (simp_all add: xor.assoc)

lemma xor_of_remove1: "i \<in> set xs \<Longrightarrow> xor_of (remove1 i xs) = xor_of xs XOR as_u64 i"
proof (induction xs)
  case (Cons x xs)
  show ?case
  proof (cases "x = i")
    case True
    have "xor_of (x # xs) XOR as_u64 x = (as_u64 x XOR as_u64 x) XOR xor_of xs"
      by (simp only: xor_of_simps xor.assoc xor.commute [of "xor_of xs"])
    then show ?thesis using True by simp
  next
    case False
    then show ?thesis using Cons by (simp add: xor.assoc)
  qed
qed simp

text \<open>\<open>slots_of bl hashed sets R\<close>: every slot has the exclusive-or and the number of the keys of \<open>R\<close> that touch it.\<close>

definition slots_of :: "u32 \<Rightarrow> u64 list \<Rightarrow> nat \<Rightarrow> slot_set list \<Rightarrow> nat list \<Rightarrow> bool" where
  "slots_of bl hashed cap sets R \<longleftrightarrow>
     length sets = cap \<and>
     (\<forall>s. unat s < cap \<longrightarrow>
        sets ! unat s = (xor_of (filter (touches bl hashed s) R), as_u32 (length (filter (touches bl hashed s) R))))"

lemma length_slot_add [simp]: "length (fold (slot_add i) ss sets) = length sets"
proof -
  have "length (slot_add i s xs) = length xs" for s xs by (simp add: slot_add_def split: prod.split)
  then show ?thesis by (induction ss arbitrary: sets) auto
qed

lemma fold_slot_add:
  assumes "distinct ss" "\<forall>s \<in> set ss. unat s < length sets" "unat t < length sets"
  shows "fold (slot_add i) ss sets ! unat t =
      (if t \<in> set ss then (fst (sets ! unat t) XOR as_u64 i, snd (sets ! unat t) + 1) else sets ! unat t)"
proof -
  have len: "length (slot_add i s xs) = length xs" for s xs by (simp add: slot_add_def split: prod.split)
  have at: "slot_add i s xs ! unat t = (if t = s then (fst (xs ! unat t) XOR as_u64 i, snd (xs ! unat t) + 1) else xs ! unat t)"
    if "unat s < length xs" "unat t < length xs" for s xs
    using that by (auto simp: slot_add_def nth_list_update word_unat_eq_iff split: prod.split)
  show ?thesis
    using assms by (induction ss arbitrary: sets) (auto simp: len at)
qed

lemma slot_sets_slots:
  assumes "geometry bl cap"
  shows "slots_of bl hashed cap (slot_sets bl hashed cap) [0..<length hashed]"
proof -
  let ?add = "\<lambda>i sets. fold (slot_add i) (subhashes bl (hashed ! i)) sets"
  have "slots_of bl hashed cap (fold ?add [0..<k] (replicate cap (0, 0))) [0..<k]" for k
  proof (induction k)
    case 0
    then show ?case by (simp add: slots_of_def as_u32_def)
  next
    case (Suc k)
    let ?sets = "fold ?add [0..<k] (replicate cap (0, 0))"
    have len: "length ?sets = cap" using Suc by (simp add: slots_of_def)
    note fa = fold_slot_add [OF subhashes_slots(1) [OF assms], of "hashed ! k" ?sets]
    have rng: "\<forall>s \<in> set (subhashes bl (hashed ! k)). unat s < length ?sets"
      using subhashes_slots(2) [OF assms] len by simp
    have "length (?add k ?sets) = cap" using len by simp
    moreover have "?add k ?sets ! unat s =
        (xor_of (filter (touches bl hashed s) [0..<Suc k]), as_u32 (length (filter (touches bl hashed s) [0..<Suc k])))"
      if "unat s < cap" for s
      using fa [OF rng, of s] that Suc len
      by (auto simp: slots_of_def touches_def xor_of_append as_u32_def)
    ultimately show ?case by (simp add: slots_of_def)
  qed
  then show ?thesis by (simp add: slot_sets_def)
qed

lemma length_slot_remove [simp]: "length (fst (fold (slot_remove i) ss st)) = length (fst st)"
proof -
  have "length (fst (slot_remove i s st)) = length (fst st)" for s st
    by (simp add: slot_remove_def split: prod.split)
  then show ?thesis by (induction ss arbitrary: st) auto
qed

lemma queue_slot_remove:
  "\<exists>new. snd (fold (slot_remove i) ss st) = snd st @ new \<and> set new \<subseteq> set ss \<and> length new \<le> length ss"
proof (induction ss arbitrary: st)
  case (Cons s ss)
  obtain new where new: "snd (fold (slot_remove i) ss (slot_remove i s st)) = snd (slot_remove i s st) @ new"
      "set new \<subseteq> set ss" "length new \<le> length ss" using Cons by blast
  have "snd (slot_remove i s st) = snd st \<or> snd (slot_remove i s st) = snd st @ [s]"
    by (auto simp: slot_remove_def split: prod.split)
  then show ?case using new by (auto intro: exI [of _ new] exI [of _ "s # new"])
qed simp

lemma fold_slot_remove:
  assumes "distinct ss" "\<forall>s \<in> set ss. unat s < length (fst st)" "unat t < length (fst st)"
  shows "fst (fold (slot_remove i) ss st) ! unat t =
      (if t \<in> set ss then (fst (fst st ! unat t) XOR as_u64 i, snd (fst st ! unat t) - 1) else fst st ! unat t)"
proof -
  have len: "length (fst (slot_remove i s st)) = length (fst st)" for s st
    by (simp add: slot_remove_def split: prod.split)
  have at: "fst (slot_remove i s st) ! unat t =
      (if t = s then (fst (fst st ! unat t) XOR as_u64 i, snd (fst st ! unat t) - 1) else fst st ! unat t)"
    if "unat s < length (fst st)" "unat t < length (fst st)" for s st
    using that by (auto simp: slot_remove_def nth_list_update word_unat_eq_iff split: prod.split)
  show ?thesis
    using assms by (induction ss arbitrary: st) (auto simp: len at)
qed

text \<open>The state of a run: the slots describe the remaining keys, and each recorded slot is free of every later key.\<close>

definition peel_inv :: "u32 \<Rightarrow> u64 list \<Rightarrow> nat \<Rightarrow> slot_set list \<Rightarrow> u32 list \<Rightarrow> (nat \<times> u32) list \<Rightarrow> nat list \<Rightarrow> bool" where
  "peel_inv bl hashed cap sets queue stack R \<longleftrightarrow>
     slots_of bl hashed cap sets R \<and> (\<forall>q \<in> set queue. unat q < cap) \<and>
     distinct R \<and> (\<forall>i \<in> set R. i < length hashed) \<and>
     distinct (map fst stack) \<and> (\<forall>e \<in> set stack. fst e < length hashed \<and> fst e \<notin> set R \<and>
        touches bl hashed (snd e) (fst e) \<and> (\<forall>i \<in> set R. \<not> touches bl hashed (snd e) i)) \<and>
     sorted_wrt (\<lambda>d e. \<not> touches bl hashed (snd d) (fst e)) stack"

lemma length_distinct_below: "distinct R \<Longrightarrow> \<forall>i \<in> set R. i < n \<Longrightarrow> length R \<le> n"
  using card_mono [of "{..<n}" "set R"] distinct_card [of R] by (auto simp: subset_iff)

lemma single_key:
  assumes "peel_inv bl hashed cap sets queue stack R" "unat slot < cap" "snd (sets ! unat slot) = 1"
    and "length hashed < 2 ^ 32"
  shows "\<exists>i \<in> set R. filter (touches bl hashed slot) R = [i] \<and> unat (fst (sets ! unat slot)) = i"
proof -
  let ?f = "filter (touches bl hashed slot) R"
  have R: "distinct R" "\<forall>i \<in> set R. i < length hashed"
    and s: "sets ! unat slot = (xor_of ?f, as_u32 (length ?f))"
    using assms(1,2) by (auto simp: peel_inv_def slots_of_def)
  have "length ?f \<le> length hashed"
    using length_distinct_below [OF R] length_filter_le [of "touches bl hashed slot" R] by linarith
  then have "unat (as_u32 (length ?f)) = length ?f" using assms(4) by (simp add: unat_as_u32)
  moreover have "as_u32 (length ?f) = 1" using assms(3) s by simp
  ultimately have "length ?f = 1" by (metis unat_1)
  then obtain i where i: "?f = [i]" by (auto simp: length_Suc_conv)
  then have "i \<in> set R" by (metis filter_is_subset list.set_intros(1) subsetD)
  moreover have "unat (as_u64 i) = i" using R calculation assms(4) by (intro unat_as_u64) fastforce
  ultimately show ?thesis using i s by auto
qed

lemma slots_of_remove:
  assumes "slots_of bl hashed cap sets R" "geometry bl cap" "distinct R" "i \<in> set R"
  shows "slots_of bl hashed cap (fst (fold (slot_remove i) (subhashes bl (hashed ! i)) (sets, q))) (remove1 i R)"
proof -
  have len: "length sets = cap" using assms(1) by (simp add: slots_of_def)
  have rng: "\<forall>s \<in> set (subhashes bl (hashed ! i)). unat s < length (fst (sets, q))"
    using subhashes_slots(2) [OF assms(2)] len by simp
  have "fst (fold (slot_remove i) (subhashes bl (hashed ! i)) (sets, q)) ! unat s =
      (xor_of (filter (touches bl hashed s) (remove1 i R)), as_u32 (length (filter (touches bl hashed s) (remove1 i R))))"
    if s: "unat s < cap" for s
  proof -
    have old: "sets ! unat s = (xor_of (filter (touches bl hashed s) R), as_u32 (length (filter (touches bl hashed s) R)))"
      using assms(1) s by (simp add: slots_of_def)
    have new: "fst (fold (slot_remove i) (subhashes bl (hashed ! i)) (sets, q)) ! unat s =
      (if touches bl hashed s i then (fst (sets ! unat s) XOR as_u64 i, snd (sets ! unat s) - 1) else sets ! unat s)"
      using fold_slot_remove [OF subhashes_slots(1) [OF assms(2)] rng, of s] s len by (simp add: touches_def)
    have flt: "filter (touches bl hashed s) (remove1 i R) = remove1 i (filter (touches bl hashed s) R)"
      by (rule filter_remove1)
    show ?thesis
    proof (cases "touches bl hashed s i")
      case True
      then have m: "i \<in> set (filter (touches bl hashed s) R)" using assms(4) by simp
      then obtain n where n: "length (filter (touches bl hashed s) R) = Suc n"
        by (metis length_pos_if_in_set gr0_implies_Suc)
      then have "as_u32 (length (filter (touches bl hashed s) R)) - 1 =
          as_u32 (length (remove1 i (filter (touches bl hashed s) R)))"
        using m by (simp add: as_u32_def length_remove1)
      then show ?thesis using True new old xor_of_remove1 [OF m] flt by simp
    next
      case False
      then have "remove1 i (filter (touches bl hashed s) R) = filter (touches bl hashed s) R"
        by (simp add: remove1_idem)
      then show ?thesis using False new old flt by simp
    qed
  qed
  then show ?thesis using len by (simp add: slots_of_def)
qed


lemma peel_inv_step:
  assumes inv: "peel_inv bl hashed cap sets queue stack R" and "geometry bl cap"
    and i: "i \<in> set R" "filter (touches bl hashed slot) R = [i]"
    and st: "fold (slot_remove i) (subhashes bl (hashed ! i)) (sets, q) = st" and q: "set q \<subseteq> set queue"
  shows "peel_inv bl hashed cap (fst st) (snd st) (stack @ [(i, slot)]) (remove1 i R)"
proof -
  have R: "slots_of bl hashed cap sets R" "distinct R" "\<forall>j \<in> set R. j < length hashed"
    and stack: "distinct (map fst stack)" "\<forall>e \<in> set stack. fst e < length hashed \<and> fst e \<notin> set R \<and>
        touches bl hashed (snd e) (fst e) \<and> (\<forall>j \<in> set R. \<not> touches bl hashed (snd e) j)"
      "sorted_wrt (\<lambda>d e. \<not> touches bl hashed (snd d) (fst e)) stack"
    and queue: "\<forall>s \<in> set queue. unat s < cap"
    using inv by (simp_all add: peel_inv_def)
  have sub: "set (remove1 i R) = set R - {i}" using R(2) by simp
  have only: "touches bl hashed slot j \<longleftrightarrow> j = i" if "j \<in> set R" for j
    using arg_cong [OF i(2), of set] that by auto
  obtain new where "snd st = q @ new" "set new \<subseteq> set (subhashes bl (hashed ! i))"
    using queue_slot_remove [of i "subhashes bl (hashed ! i)" "(sets, q)"] st by auto
  then have "\<forall>s \<in> set (snd st). unat s < cap" using q queue subhashes_slots(2) [OF assms(2)] by auto
  moreover have "slots_of bl hashed cap (fst st) (remove1 i R)"
    using slots_of_remove [OF R(1) assms(2) R(2) i(1)] st by metis
  moreover have "distinct (map fst (stack @ [(i, slot)]))" using stack(1,2) i(1) by auto
  moreover have "sorted_wrt (\<lambda>d e. \<not> touches bl hashed (snd d) (fst e)) (stack @ [(i, slot)])"
    using stack(2,3) i(1) by (auto simp: sorted_wrt_append)
  moreover have "\<forall>e \<in> set (stack @ [(i, slot)]). fst e < length hashed \<and> fst e \<notin> set (remove1 i R) \<and>
        touches bl hashed (snd e) (fst e) \<and> (\<forall>j \<in> set (remove1 i R). \<not> touches bl hashed (snd e) j)"
    using stack(2) i(1) R(3) only sub by auto
  ultimately show ?thesis using R(2,3) by (auto simp: peel_inv_def sub)
qed

lemma peel_loop_returns:
  assumes "peel_inv bl hashed cap sets queue stack R" "geometry bl cap" "length hashed < 2 ^ 32"
  shows "\<exists>stack' sets' R'. peel_loop bl hashed sets queue stack = Some stack' \<and>
    peel_inv bl hashed cap sets' [] stack' R'"
  using assms(1)
proof (induction "4 * length R + length queue" arbitrary: sets queue stack R rule: less_induct)
  case less
  show ?case
  proof (cases "queue = []")
    case True
    then show ?thesis using less.prems by (subst peel_loop.simps) auto
  next
    case False
    define slot where "slot = last queue"
    have len: "length sets = cap" using less.prems by (simp add: peel_inv_def slots_of_def)
    have slot: "unat slot < cap" using less.prems False by (simp add: peel_inv_def slot_def)
    have but: "set (butlast queue) \<subseteq> set queue" by (meson in_set_butlastD subsetI)
    show ?thesis
    proof (cases "snd (sets ! unat slot) = 1")
      case False': False
      have "peel_inv bl hashed cap sets (butlast queue) stack R" using less.prems but by (auto simp: peel_inv_def)
      then show ?thesis
        using less.hyps [of R "butlast queue" sets stack] False False' slot len
        by (subst peel_loop.simps) (simp add: slot_def Let_def)
    next
      case True
      obtain i where i: "i \<in> set R" "filter (touches bl hashed slot) R = [i]" "unat (fst (sets ! unat slot)) = i"
        using single_key [OF less.prems slot True assms(3)] by blast
      define st where "st = fold (slot_remove i) (subhashes bl (hashed ! i)) (sets, butlast queue)"
      have inv: "peel_inv bl hashed cap (fst st) (snd st) (stack @ [(i, slot)]) (remove1 i R)"
        using peel_inv_step [OF less.prems assms(2) i(1,2) st_def [symmetric] but] .
      have "length (snd st) \<le> length queue - 1 + 3"
        using queue_slot_remove [of i "subhashes bl (hashed ! i)" "(sets, butlast queue)"] subhashes_slots(3) [OF assms(2)]
        by (auto simp: st_def)
      moreover have "Suc (length (remove1 i R)) = length R"
        using i(1) by (simp add: length_remove1) (metis length_pos_if_in_set Suc_pred)
      ultimately have "4 * length (remove1 i R) + length (snd st) < 4 * length R + length queue"
        using False by (cases queue) auto
      from less.hyps [OF this inv]
      obtain stack' sets' R' where r: "peel_loop bl hashed (fst st) (snd st) (stack @ [(i, slot)]) = Some stack'"
        "peel_inv bl hashed cap sets' [] stack' R'" by blast
      have "i < length hashed" using less.prems i(1) by (auto simp: peel_inv_def)
      moreover have "\<not> list_ex (\<lambda>s. length sets \<le> unat s) (subhashes bl (hashed ! i))"
        using subhashes_slots(2) [OF assms(2)] len by (force simp: list_ex_iff)
      ultimately have "peel_loop bl hashed sets queue stack = Some stack'"
        using r(1) False True i(3) slot len st_def by (subst peel_loop.simps) (simp add: slot_def [symmetric] Let_def)
      then show ?thesis using r(2) by blast
    qed
  qed
qed

text \<open>What peeling records: distinct keys of the table, each at a slot of its own that no later key of the record touches.\<close>

definition peel_order :: "u32 \<Rightarrow> u64 list \<Rightarrow> (nat \<times> u32) list \<Rightarrow> bool" where
  "peel_order bl hashed stack \<longleftrightarrow>
     distinct (map fst stack) \<and> (\<forall>e \<in> set stack. fst e < length hashed \<and> touches bl hashed (snd e) (fst e)) \<and>
     sorted_wrt (\<lambda>d e. \<not> touches bl hashed (snd d) (fst e)) stack"

lemma peel_ends:
  assumes "geometry bl cap" "length hashed < 2 ^ 32"
  shows "\<exists>stack. peel bl hashed (slot_sets bl hashed cap) = Some stack \<and> peel_order bl hashed stack"
proof -
  let ?sets = "slot_sets bl hashed cap"
  let ?queue = "filter (\<lambda>s. snd (?sets ! unat s) = 1) (map word_of_nat [0..<length ?sets]) :: u32 list"
  have S: "slots_of bl hashed cap ?sets [0..<length hashed]" by (rule slot_sets_slots [OF assms(1)])
  then have "length ?sets = cap" by (simp add: slots_of_def)
  then have "unat (word_of_nat n :: u32) < cap" if "n < length ?sets" for n
    using that assms(1) by (simp add: geometry_def unat_of_nat take_bit_eq_mod)
  then have "\<forall>s \<in> set ?queue. unat s < cap" by auto
  then have "peel_inv bl hashed cap ?sets ?queue [] [0..<length hashed]" using S by (simp add: peel_inv_def)
  from peel_loop_returns [OF this assms] show ?thesis by (auto simp: peel_def peel_inv_def peel_order_def)
qed

section \<open>Fingerprints\<close>

definition slot_xor :: "bytes \<Rightarrow> u32 list \<Rightarrow> u8" where
  "slot_xor fp ss = fold (\<lambda>s acc. acc XOR fp ! unat s) ss 0"

lemma slot_xor_cong: "(\<And>s. s \<in> set ss \<Longrightarrow> fp ! unat s = fp' ! unat s) \<Longrightarrow> slot_xor fp ss = slot_xor fp' ss"
  unfolding slot_xor_def by (rule fold_cong) simp_all

lemma slot_xor_three: "slot_xor fp [a, b, c] = fp ! unat a XOR fp ! unat b XOR fp ! unat c"
  by (simp add: slot_xor_def xor.assoc)

lemma assign_step_holds:
  assumes "geometry bl cap" "length fp = cap" "touches bl hashed (snd e) (fst e)"
  shows "slot_xor (x8_assign_step bl hashed e fp) (subhashes bl (hashed ! fst e)) = fingerprint (hashed ! fst e)"
proof -
  let ?h = "hashed ! fst e"
  obtain a b c where abc: "subhashes bl ?h = [a, b, c]" by (simp add: subhashes_def)
  have "distinct [a, b, c]" "\<forall>s \<in> {a, b, c}. unat s < cap"
    using subhashes_slots [OF assms(1), where h = ?h] abc by auto
  moreover have "snd e = a \<or> snd e = b \<or> snd e = c" using assms(3) abc by (auto simp: touches_def)
  ultimately show ?thesis
    using assms(2) by (auto simp: x8_assign_step_def abc slot_xor_three word_unat_eq_iff xor.assoc xor.left_commute xor.commute)
qed

lemma length_assign_step [simp]: "length (x8_assign_step bl hashed e fp) = length fp"
  by (simp add: x8_assign_step_def Let_def)

lemma assign_step_other: "s \<noteq> snd e \<Longrightarrow> x8_assign_step bl hashed e fp ! unat s = fp ! unat s"
  by (simp add: x8_assign_step_def Let_def word_unat_eq_iff)

lemma assign_holds:
  assumes "geometry bl cap" "peel_order bl hashed stack"
  shows "length (assign_fingerprints bl hashed stack cap) = cap \<and>
    (\<forall>e \<in> set stack. slot_xor (assign_fingerprints bl hashed stack cap) (subhashes bl (hashed ! fst e)) =
       fingerprint (hashed ! fst e))"
  using assms(2)
proof (induction stack)
  case Nil
  then show ?case by (simp add: assign_fingerprints_def)
next
  case (Cons d stack)
  let ?fp = "assign_fingerprints bl hashed stack cap"
  have eq: "assign_fingerprints bl hashed (d # stack) cap = x8_assign_step bl hashed d ?fp"
    by (simp add: assign_fingerprints_def)
  have IH: "length ?fp = cap" "\<And>e. e \<in> set stack \<Longrightarrow>
      slot_xor ?fp (subhashes bl (hashed ! fst e)) = fingerprint (hashed ! fst e)"
    using Cons by (auto simp: peel_order_def)
  have "slot_xor (x8_assign_step bl hashed d ?fp) (subhashes bl (hashed ! fst e)) = fingerprint (hashed ! fst e)"
    if e: "e \<in> set stack" for e
  proof -
    have "\<not> touches bl hashed (snd d) (fst e)" using Cons.prems e by (simp add: peel_order_def)
    then have "slot_xor (x8_assign_step bl hashed d ?fp) (subhashes bl (hashed ! fst e)) =
        slot_xor ?fp (subhashes bl (hashed ! fst e))"
      by (intro slot_xor_cong assign_step_other) (auto simp: touches_def)
    then show ?thesis using IH(2) [OF e] by simp
  qed
  moreover have "touches bl hashed (snd d) (fst d)" using Cons.prems by (simp add: peel_order_def)
  ultimately show ?case using assign_step_holds [OF assms(1) IH(1)] IH(1) by (auto simp: eq)
qed

lemma peel_order_covers:
  assumes "peel_order bl hashed stack" "length stack = length hashed" "i < length hashed"
  shows "\<exists>e \<in> set stack. fst e = i"
proof -
  have "set (map fst stack) \<subseteq> {..<length hashed}" using assms(1) by (auto simp: peel_order_def)
  moreover have "card (set (map fst stack)) = length hashed"
    using assms(1,2) distinct_card [of "map fst stack"] by (simp add: peel_order_def)
  ultimately have "set (map fst stack) = {..<length hashed}" by (intro card_subset_eq) simp_all
  then show ?thesis using assms(3) by (metis in_set_conv_nth lessThan_iff nth_map nth_mem length_map)
qed

lemma try_build_ends:
  assumes "geometry bl cap" "length keys < 2 ^ 32"
  shows "\<exists>r. try_build keys seed bl cap = Some r \<and>
    (\<forall>fp. r = Some fp \<longrightarrow> length fp = cap \<and>
       (\<forall>k \<in> set keys. slot_xor fp (subhashes bl (mix k seed)) = fingerprint (mix k seed)))"
proof -
  let ?h = "map (\<lambda>k. mix k seed) keys"
  obtain stack where stack: "peel bl ?h (slot_sets bl ?h cap) = Some stack" "peel_order bl ?h stack"
    using peel_ends [of bl cap ?h] assms by auto
  have "slot_xor (assign_fingerprints bl ?h stack cap) (subhashes bl (mix k seed)) = fingerprint (mix k seed)"
    if full: "length stack = length keys" and k: "k \<in> set keys" for k
  proof -
    obtain i where i: "i < length keys" "keys ! i = k" using k by (auto simp: in_set_conv_nth)
    then obtain e where "e \<in> set stack" "fst e = i" using peel_order_covers [OF stack(2), of i] full by auto
    then show ?thesis using assign_holds [OF assms(1) stack(2)] i by auto
  qed
  then show ?thesis using assign_holds [OF assms(1) stack(2)] stack(1) by (simp add: try_build_def)
qed


section \<open>The whole construction\<close>

lemma filter_capacity_geometry:
  assumes "n < 2 ^ 29"
  shows "geometry (as_u32 (filter_capacity n div 3)) (filter_capacity n)"
proof -
  define c where "c = max (32 + div_ceil (round53 (f64_1_23 * n)) (2 ^ 52)) 3"
  have "round53 (f64_1_23 * n) \<le> 2 * (f64_1_23 * n)" by (rule round53_le)
  also have "\<dots> \<le> 4 * n * 2 ^ 52" by (simp add: f64_1_23_def)
  finally have "div_ceil (round53 (f64_1_23 * n)) (2 ^ 52) \<le> 4 * n" by (simp add: div_ceil_le_iff)
  then have c: "3 \<le> c" "c \<le> 32 + 4 * n" by (auto simp: c_def)
  have cap: "filter_capacity n = c + (3 - c mod 3) mod 3" by (simp add: filter_capacity_def c_def Let_def)
  have "c mod 3 = 0 \<or> c mod 3 = 1 \<or> c mod 3 = 2" by linarith
  then have "(c + (3 - c mod 3) mod 3) mod 3 = 0" by (elim disjE) (simp_all, presburger+)
  then have m: "filter_capacity n mod 3 = 0" using cap by simp
  have "(3 - c mod 3) mod 3 \<le> 2" using mod_less_divisor [of 3 "3 - c mod 3"] by linarith
  then have "filter_capacity n \<le> 32 + 4 * n + 2" using c cap by linarith
  then have "filter_capacity n < 2 ^ 32" using assms by simp
  moreover from this have "unat (as_u32 (filter_capacity n div 3)) = filter_capacity n div 3"
    by (intro unat_as_u32) simp
  moreover have "3 \<le> filter_capacity n" using c cap by simp
  moreover have "3 * (filter_capacity n div 3) = filter_capacity n" using m by auto
  ultimately show ?thesis unfolding geometry_def by (metis div_greater_zero_iff unat_0 zero_less_numeral less_irrefl)
qed

text \<open>A filter whose slots are all in range: what the construction makes and the decoder accepts.\<close>

definition xor8_wf :: "xor8 \<Rightarrow> bool" where
  "xor8_wf f \<longleftrightarrow>
     (if x8_match_all f then x8_block_length f = 0 \<and> x8_fingerprints f = []
      else geometry (x8_block_length f) (length (x8_fingerprints f)))"

lemma build_loop_ends:
  assumes "geometry bl cap" "length keys < 2 ^ 32"
  shows "\<exists>f. build_loop keys bl cap seeds = Some f \<and> xor8_wf f \<and> (x8_match_all f \<longrightarrow> x8_seed f = 0) \<and>
    (\<forall>k \<in> set keys. contains f k)"
proof (induction seeds)
  case Nil
  then show ?case by (simp add: contains_def xor8_wf_def)
next
  case (Cons seed seeds)
  obtain r where r: "try_build keys seed bl cap = Some r" "\<forall>fp. r = Some fp \<longrightarrow> length fp = cap \<and>
       (\<forall>k \<in> set keys. slot_xor fp (subhashes bl (mix k seed)) = fingerprint (mix k seed))"
    using try_build_ends [OF assms, of seed] by blast
  show ?case
  proof (cases r)
    case None
    then show ?thesis using Cons r(1) by simp
  next
    case (Some fp)
    then show ?thesis using r assms(1) by (auto simp: contains_def xor8_wf_def Let_def slot_xor_def)
  qed
qed

lemma dedup_set: "remdups_adj (sort ks) = sorted_list_of_set (set ks)"
proof -
  have "remdups_adj (sort ks) = sorted_list_of_set (set (remdups_adj (sort ks)))"
    by (rule sorted_list_of_set.idem_if_sorted_distinct [symmetric]) (use strict_sorted_remdups_adj [OF sorted_sort] in \<open>simp_all add: strict_sorted_iff\<close>)
  then show ?thesis by simp
qed

lemma build_ends:
  assumes "length keys < 2 ^ 29"
  shows "\<exists>f. x8_build keys = Some f \<and> xor8_wf f \<and> (x8_match_all f \<longrightarrow> x8_seed f = 0) \<and> (\<forall>k \<in> set keys. contains f k)"
proof -
  let ?d = "remdups_adj (sort keys)"
  have "length ?d \<le> length (sort keys)" by (rule remdups_adj_length)
  then have "length ?d < 2 ^ 29" using assms by simp
  moreover from this have "length ?d < 2 ^ 32" by simp
  ultimately show ?thesis
    using build_loop_ends [OF filter_capacity_geometry, of "length ?d" ?d SEEDS] by (simp add: x8_build_def Let_def)
qed

section \<open>The byte form\<close>

lemma from_to_bytes:
  assumes "xor8_wf f" "x8_match_all f \<longrightarrow> x8_seed f = 0"
  shows "x8_from_bytes (x8_to_bytes f) = Some f"
proof (cases "x8_match_all f")
  case True
  have z: "of_le_bytes (replicate n 0) = 0" for n by (induction n) simp_all
  have "x8_to_bytes f = replicate 16 0" using True by (simp add: x8_to_bytes_def)
  then show ?thesis using True assms by (cases f) (simp add: x8_from_bytes_def z xor8_wf_def)
next
  case False
  then have g: "geometry (x8_block_length f) (length (x8_fingerprints f))" using assms(1) by (simp add: xor8_wf_def)
  have l: "length (le64 s) = 8" "length (le32 b) = 4" for s b by (simp_all add: le64_def le32_def)
  have "unat (as_u32 (length (x8_fingerprints f))) = length (x8_fingerprints f)"
    using g by (intro unat_as_u32) (simp add: geometry_def)
  then show ?thesis
    using False g by (cases f) (simp add: x8_to_bytes_def x8_from_bytes_def l of_le_bytes_le64 of_le_bytes_le32 geometry_def)
qed

lemma from_bytes_wf: "x8_from_bytes b = Some f \<Longrightarrow> xor8_wf f"
proof -
  assume a: "x8_from_bytes b = Some f"
  have len: "length (drop 16 b) < 2 ^ 32" if "length b = 16 + of_le_bytes (take 4 (drop 12 b))"
  proof -
    have "length (take 4 (drop 12 b)) = 4" using that by (simp only: length_take length_drop)
    then have "of_le_bytes (take 4 (drop 12 b)) < 256 ^ 4" using of_le_bytes_bound by metis
    moreover have "(256 :: nat) ^ 4 = 2 ^ 32" by simp
    ultimately show ?thesis using that unfolding length_drop by linarith
  qed
  define bl :: u32 where "bl = word_of_nat (of_le_bytes (take 4 (drop 8 b)))"
  define fp where "fp = drop 16 b"
  define n where "n = of_le_bytes (take 4 (drop 12 b))"
  note reads = bl_def [symmetric] fp_def [symmetric] n_def [symmetric]
  have lb: "length fp = length b - 16" by (simp add: fp_def)
  show ?thesis
    using a len lb unfolding x8_from_bytes_def Let_def reads
    by (auto simp: xor8_wf_def geometry_def split: if_splits)
qed

section \<open>Properties\<close>

text \<open>
  C12. A filter built from any keys (fewer than \<open>2 ^ 29\<close>, the table then fits the \<open>u32\<close> slot numbers) exists,
  the peeling of every seed ends without leaving the tables, and the filter has no false negatives: it
  accepts every key, also after it was written and read back.
\<close>

theorem build_no_false_negatives:
  assumes "length keys < 2 ^ 29"
  shows "\<exists>f. x8_build keys = Some f \<and> (\<forall>k \<in> set keys. contains f k) \<and>
    x8_from_bytes (x8_to_bytes f) = Some f"
  using build_ends [OF assms] from_to_bytes by blast

theorem build_no_false_negatives_witness:
  "\<exists>f. x8_build [1, 2, 7] = Some f \<and> contains f 1 \<and> contains f 7 \<and> x8_from_bytes (x8_to_bytes f) = Some f"
  using build_no_false_negatives [of "[1, 2, 7]"] by auto

text \<open>The filter depends only on the set of keys, not on their order or on repetitions.\<close>

theorem build_deterministic:
  assumes "set ks = set ks'"
  shows "x8_build ks = x8_build ks'"
  using assms by (simp add: x8_build_def dedup_set)

theorem build_deterministic_witness: "x8_build [3, 1, 3, 2] = x8_build [1, 2, 3]"
  by (rule build_deterministic) auto

text \<open>
  Whatever bytes a filter is read from, a membership test on it reads only slots it has; and a filter
  that is read is the one whose byte form was given, unless it is the match-all filter.
\<close>

theorem from_bytes_in_range:
  assumes "x8_from_bytes b = Some f"
  shows "x8_match_all f \<or>
    (\<forall>key. \<forall>s \<in> set (subhashes (x8_block_length f) (mix key (x8_seed f))). unat s < length (x8_fingerprints f))"
  using from_bytes_wf [OF assms] subhashes_slots(2) by (auto simp: xor8_wf_def split: if_splits)

theorem from_bytes_in_range_witness:
  "\<exists>f. x8_from_bytes (le64 5 @ le32 1 @ le32 3 @ [1, 2, 3]) = Some f \<and> \<not> x8_match_all f \<and>
    (\<forall>s \<in> set (subhashes (x8_block_length f) (mix 9 (x8_seed f))). unat s < length (x8_fingerprints f))"
proof -
  have "x8_from_bytes (le64 5 @ le32 1 @ le32 3 @ [1, 2, 3]) =
      Some \<lparr>x8_seed = 5, x8_block_length = 1, x8_fingerprints = [1, 2, 3], x8_match_all = False\<rparr>"
    by code_simp
  from from_bytes_in_range [OF this] this show ?thesis by auto
qed

end
