(* ===== verification/Feed_Derive.thy ===== *)
theory Feed_Derive
  imports Feed_Adapter Search_Index Xor_Filter
begin

text \<open>
  The node side of the feeds, after \<^verbatim>\<open>epix-ui/src/feed.rs\<close> and the gathering of records in
  \<^verbatim>\<open>epix-ui/src/state.rs\<close>: verified records of the merge files become feed records, the feed artifacts
  (segments, spine, target index, skip filters, checkpoint) are derived from them, and the queries
  answer from the artifacts.  \<open>parse\<close> is \<open>serde_json::from_slice\<close>.
\<close>

type_synonym json_parser = "bytes \<Rightarrow> json option"

section \<open>Terms and filters\<close>

fun collect_strings :: "json \<Rightarrow> string list" where
  "collect_strings (JStr s) = tokenize s"
| "collect_strings (JArr xs) = concat (map collect_strings xs)"
| "collect_strings (JObj m) = concat (map (\<lambda>e. collect_strings (snd e)) m)"
| "collect_strings _ = []"

definition record_terms :: "json_parser \<Rightarrow> feed_record \<Rightarrow> string list" where
  "record_terms parse r =
     (case parse (fr_canonical r) of
        Some v \<Rightarrow> collect_strings v
      | None \<Rightarrow> tokenize (str_of_bytes (utf8_lossy (fr_canonical r))))"

definition segment_filter :: "hash_fn \<Rightarrow> json_parser \<Rightarrow> segment \<Rightarrow> xor8 option" where
  "segment_filter H parse seg =
     x8_build (remdups_adj (sort (concat (map (\<lambda>r. map (term_hash H) (record_terms parse r)) (sg_records seg)))))"

section \<open>Deriving a feed\<close>

record feed_artifacts =
  fa_records :: "feed_record list"
  fa_index :: target_index
  fa_checkpoint :: checkpoint
  fa_spine :: spine
  fa_sealed :: "segment list"
  fa_filters :: "xor8 list"

definition SEGMENT_INTERVAL_MS :: u64 where
  "SEGMENT_INTERVAL_MS = 86400000"

text \<open>\<open>records.retain(|r| seen.insert(r.addr().0))\<close>: the first record of each address is kept.\<close>

definition dedup_step :: "hash_fn \<Rightarrow> obj_id set \<times> feed_record list \<Rightarrow> feed_record \<Rightarrow> obj_id set \<times> feed_record list" where
  "dedup_step H st r =
     (if addr H r \<in> fst st then st else (insert (addr H r) (fst st), snd st @ [r]))"

definition dedup_records :: "hash_fn \<Rightarrow> feed_record list \<Rightarrow> feed_record list" where
  "dedup_records H rs = snd (foldl (dedup_step H) ({}, []) rs)"

definition by_interval :: "feed_record list \<Rightarrow> (u64, feed_record list) btree_map" where
  "by_interval rs = foldl (\<lambda>m r. bt_upsert (fr_clock r div SEGMENT_INTERVAL_MS) (\<lambda>l. l @ [r]) [r] m) [] rs"

text \<open>The edge of interval \<open>k\<close>; the \<open>u64\<close> arithmetic wraps for the last, partial interval.\<close>

definition interval_end :: "u64 \<Rightarrow> u64" where
  "interval_end k = (k + 1) * SEGMENT_INTERVAL_MS"

text \<open>One populated interval.  \<open>None\<close>: the construction of the filter did not return.\<close>

fun seal_intervals :: "hash_fn \<Rightarrow> json_parser \<Rightarrow> (u64, feed_record list) btree_map \<Rightarrow>
    target_index \<times> spine \<times> segment list \<times> xor8 list \<Rightarrow> (target_index \<times> spine \<times> segment list \<times> xor8 list) option" where
  "seal_intervals H parse [] st = Some st"
| "seal_intervals H parse ((k, in_k) # rest) (ix, sp, sealed, filters) =
     (let seg = seal H in_k (interval_end k - 1);
          ix' = add_segment H ix seg
      in case spine_append H sp seg of
           Inl e \<Rightarrow> seal_intervals H parse rest (ix', sp, sealed, filters)
         | Inr sp' \<Rightarrow>
             (case segment_filter H parse seg of
                None \<Rightarrow> None
              | Some f \<Rightarrow> seal_intervals H parse rest (ix', sp', sealed @ [seg], filters @ [f])))"

definition max_clock :: "feed_record list \<Rightarrow> u64" where
  "max_clock rs = (if rs = [] then 0 else Max (set (map fr_clock rs)))"

definition derive_feed :: "hash_fn \<Rightarrow> json_parser \<Rightarrow> feed_record list \<Rightarrow> feed_artifacts option" where
  "derive_feed H parse rs =
     (let records = canonical_order H (dedup_records H rs)
      in case seal_intervals H parse (by_interval records) ([], [], [], []) of
           None \<Rightarrow> None
         | Some (ix, sp, sealed, filters) \<Rightarrow>
             Some \<lparr>fa_records = records, fa_index = ix,
                   fa_checkpoint = checkpoint_compute H records (max_clock records) zero_id,
                   fa_spine = sp, fa_sealed = sealed, fa_filters = filters\<rparr>)"

section \<open>Search\<close>

definition FEED_SEARCH_MAX_TERMS :: nat where
  "FEED_SEARCH_MAX_TERMS = 16"

definition hit_value :: "segment \<Rightarrow> feed_record \<Rightarrow> obj_id \<times> u64 \<times> u32 \<Rightarrow> json" where
  "hit_value seg r ext =
     JObj [(''clock'', JInt (uint (fr_clock r))), (''id'', JStr (fr_id r)), (''len'', JInt (uint (snd (snd ext)))),
           (''offset'', JInt (uint (fst (snd ext)))), (''record'', JStr (ObjId_to_string (fst ext))),
           (''segment_root'', JStr (ObjId_to_string (sg_root seg))), (''target'', JStr (fr_target r))]"

definition hit_step :: "json_parser \<Rightarrow> segment \<Rightarrow> string list \<Rightarrow> nat \<Rightarrow> feed_record \<times> obj_id \<times> u64 \<times> u32 \<Rightarrow>
    json list \<Rightarrow> json list" where
  "hit_step parse seg query limit e hits =
     (if length hits \<ge> limit then hits
      else if \<not> list_all (\<lambda>t. t \<in> set (record_terms parse (fst e))) query then hits
      else hits @ [hit_value seg (fst e) (snd e)])"

definition collect_segment_hits :: "hash_fn \<Rightarrow> json_parser \<Rightarrow> segment \<Rightarrow> string list \<Rightarrow> nat \<Rightarrow> json list \<Rightarrow> json list" where
  "collect_segment_hits H parse seg query limit hits =
     fold (hit_step parse seg query limit) (zip (sg_records seg) (record_extents H seg)) hits"

text \<open>The state of the walk: the hits and the segments scanned and skipped.  A missing filter never skips.\<close>

fun search_walk :: "hash_fn \<Rightarrow> json_parser \<Rightarrow> string list \<Rightarrow> nat \<Rightarrow> segment list \<Rightarrow> xor8 option list \<Rightarrow>
    json list \<times> nat \<times> nat \<Rightarrow> json list \<times> nat \<times> nat" where
  "search_walk H parse query limit [] fs st = st"
| "search_walk H parse query limit (seg # segs) fs (hits, scanned, skipped) =
     (let f = (case fs of [] \<Rightarrow> None | f # _ \<Rightarrow> f);
          candidate = (case f of Some f \<Rightarrow> list_all (\<lambda>t. contains f (term_hash H t)) query | None \<Rightarrow> True)
      in if \<not> candidate then search_walk H parse query limit segs (tl fs) (hits, scanned, Suc skipped)
         else let hits' = collect_segment_hits H parse seg query limit hits
              in if length hits' \<ge> limit then (hits', Suc scanned, skipped)
                 else search_walk H parse query limit segs (tl fs) (hits', Suc scanned, skipped))"

definition search_query :: "string list \<Rightarrow> string list" where
  "search_query terms = take FEED_SEARCH_MAX_TERMS (remdups_adj (sort (concat (map tokenize terms))))"

definition segment_search :: "hash_fn \<Rightarrow> json_parser \<Rightarrow> feed_artifacts \<Rightarrow> string list \<Rightarrow> nat \<Rightarrow> json" where
  "segment_search H parse art terms limit =
     (let query = search_query terms;
          total = JInt (int (length (fa_sealed art)));
          head = JStr (ObjId_to_string (spine_head (fa_spine art)))
      in if query = []
         then JObj [(''pointers'', JArr []), (''segments_scanned'', JInt 0), (''segments_skipped'', JInt 0),
                    (''segments_total'', total), (''spine_head'', head), (''terms'', JArr (map JStr query)),
                    (''unindexable_query'', JBool True)]
         else case search_walk H parse query limit (fa_sealed art) (map Some (fa_filters art)) ([], 0, 0) of
                (hits, scanned, skipped) \<Rightarrow>
                  JObj [(''pointers'', JArr hits), (''segments_scanned'', JInt (int scanned)),
                        (''segments_skipped'', JInt (int skipped)), (''segments_total'', total),
                        (''spine_head'', head), (''terms'', JArr (map JStr query))])"

section \<open>Item and gallery queries\<close>

definition item_winners :: "feed_artifacts \<Rightarrow> string \<Rightarrow> nat option \<Rightarrow> u64 option \<Rightarrow> feed_record list" where
  "item_winners art tgt limit before_clock =
     (let winners = filter (\<lambda>r. case before_clock of Some bc \<Rightarrow> fr_clock r < bc | None \<Rightarrow> True)
            (filter (\<lambda>r. fr_target r = tgt \<or> (fr_target r = [] \<and> fr_id r = tgt)) (ck_live (fa_checkpoint art)));
          newest = rev (sort_key (\<lambda>r. (fr_clock r, fr_id r)) (rev winners))
      in case limit of Some l \<Rightarrow> take l newest | None \<Rightarrow> newest)"

definition counts_value :: "reaction_counts \<Rightarrow> json" where
  "counts_value c = JObj (map (\<lambda>e. (fst e, JInt (int (snd e)))) c)"

definition item_query :: "json_parser \<Rightarrow> feed_artifacts \<Rightarrow> string \<Rightarrow> nat option \<Rightarrow> u64 option \<Rightarrow> json" where
  "item_query parse art tgt limit before_clock =
     JObj [(''checkpoint_root'', JStr (ObjId_to_string (ck_root (fa_checkpoint art)))),
           (''reactions'', (case map_of (ck_reaction_counts (fa_checkpoint art)) tgt of
              Some kinds \<Rightarrow> counts_value kinds | None \<Rightarrow> JObj [])),
           (''records'', JArr (filter_map (\<lambda>r. parse (fr_canonical r)) (item_winners art tgt limit before_clock))),
           (''segment_roots'', JArr (map (\<lambda>s. JStr (ObjId_to_string (sg_root s))) (fa_sealed art))),
           (''target'', JStr tgt)]"

definition summary_value :: "item_summary \<Rightarrow> json" where
  "summary_value s =
     JObj [(''comment_count'', JInt (int (is_comment_count s))), (''newest_clock'', JInt (uint (is_newest_clock s))),
           (''reactions'', counts_value (is_reactions s))]"

definition empty_summary :: item_summary where
  "empty_summary = \<lparr>is_comment_count = 0, is_reactions = [], is_newest_clock = 0\<rparr>"

definition gallery_rollup :: "hash_fn \<Rightarrow> feed_artifacts \<Rightarrow> string list \<Rightarrow> json" where
  "gallery_rollup H art items =
     (let roll = rollup_compute H items (fa_records art);
          m = fold (\<lambda>item m. bt_insert item (summary_value (unwrap_or (rollup_get roll item) empty_summary)) m) items []
      in JObj [(''items'', JObj m), (''rollup_root'', JStr (ObjId_to_string (rollup_root H roll)))])"

section \<open>Gathering records\<close>

text \<open>
  One entry of a merge file: verified against the signers of the unit that declares the file, and
  converted with the descriptor.
\<close>

definition gather_record :: "sig_check \<Rightarrow> sig_check \<Rightarrow> feed_descriptor \<Rightarrow> string list \<Rightarrow> int \<Rightarrow> json \<Rightarrow> feed_record option" where
  "gather_record ver kec desc signers now rec =
     (case verify_record ver kec rec signers now of
        Inl e \<Rightarrow> None
      | Inr _ \<Rightarrow> (case record_from_value desc rec (as_bytes (dumps_sorted rec)) of
          Inl e \<Rightarrow> None | Inr r \<Rightarrow> Some r))"


section \<open>Deduplication and grouping\<close>

lemma dedup_foldl:
  assumes "distinct (map (addr H) ks)"
  shows "distinct (map (addr H) (snd (foldl (dedup_step H) (addr H ` set ks, ks) rs)))"
    and "addr H ` set (snd (foldl (dedup_step H) (addr H ` set ks, ks) rs)) = addr H ` (set ks \<union> set rs)"
    and "set (snd (foldl (dedup_step H) (addr H ` set ks, ks) rs)) \<subseteq> set ks \<union> set rs"
proof -
  have "distinct (map (addr H) (snd (foldl (dedup_step H) (addr H ` set ks, ks) rs))) \<and>
      addr H ` set (snd (foldl (dedup_step H) (addr H ` set ks, ks) rs)) = addr H ` (set ks \<union> set rs) \<and>
      set (snd (foldl (dedup_step H) (addr H ` set ks, ks) rs)) \<subseteq> set ks \<union> set rs"
    using assms
  proof (induction rs arbitrary: ks)
    case (Cons r rs)
    show ?case
    proof (cases "addr H r \<in> addr H ` set ks")
      case True
      then have "dedup_step H (addr H ` set ks, ks) r = (addr H ` set ks, ks)" by (simp add: dedup_step_def)
      then show ?thesis using Cons.IH [OF Cons.prems] True by auto
    next
      case False
      then have "dedup_step H (addr H ` set ks, ks) r = (addr H ` set (ks @ [r]), ks @ [r])"
        by (auto simp: dedup_step_def)
      then show ?thesis using Cons.IH [of "ks @ [r]"] Cons.prems False by auto
    qed
  qed simp
  then show "distinct (map (addr H) (snd (foldl (dedup_step H) (addr H ` set ks, ks) rs)))"
    "addr H ` set (snd (foldl (dedup_step H) (addr H ` set ks, ks) rs)) = addr H ` (set ks \<union> set rs)"
    "set (snd (foldl (dedup_step H) (addr H ` set ks, ks) rs)) \<subseteq> set ks \<union> set rs"
    by blast+
qed

lemma dedup_records_spec:
  "distinct (map (addr H) (dedup_records H rs))" "addr H ` set (dedup_records H rs) = addr H ` set rs"
  "set (dedup_records H rs) \<subseteq> set rs"
  using dedup_foldl [of H "[]" rs] by (simp_all add: dedup_records_def)

lemma dedup_records_set: "inj_on (addr H) (set rs) \<Longrightarrow> set (dedup_records H rs) = set rs"
  using dedup_records_spec(2,3) [of H rs] inj_on_image_eq_iff by blast

lemma addr_order_inj: "inj_on (addr H) S \<Longrightarrow> inj_on (order_key H) S"
  unfolding inj_on_def order_key_def by (metis obj_id.expand prod.inject)

lemma derived_records_cong:
  assumes "set rs = set rs'" "inj_on (addr H) (set rs)"
  shows "canonical_order H (dedup_records H rs) = canonical_order H (dedup_records H rs')"
proof (rule canonical_order_mset)
  have sets: "set (dedup_records H rs) = set rs" "set (dedup_records H rs') = set rs"
    using dedup_records_set assms by metis+
  moreover have "distinct (dedup_records H rs)" "distinct (dedup_records H rs')"
    using dedup_records_spec(1) distinct_map by blast+
  ultimately show "mset (dedup_records H rs) = mset (dedup_records H rs')" by (metis set_eq_iff_mset_eq_distinct)
  show "inj_on (order_key H) (set (dedup_records H rs))"
    using addr_order_inj assms(2) sets(1) by metis
qed

lemma by_interval_inv: "bt_inv (by_interval rs)"
  unfolding by_interval_def by (rule btm.inv_foldl) simp

lemma by_interval_get:
  "map_of (by_interval rs) k =
     (let l = filter (\<lambda>r. fr_clock r div SEGMENT_INTERVAL_MS = k) rs in if l = [] then None else Some l)"
proof (induction rs rule: rev_induct)
  case Nil
  then show ?case by (simp add: by_interval_def)
next
  case (snoc r rs)
  have "by_interval (rs @ [r]) = bt_upsert (fr_clock r div SEGMENT_INTERVAL_MS) (\<lambda>l. l @ [r]) [r] (by_interval rs)"
    by (simp add: by_interval_def)
  then show ?case using snoc by (auto simp: Let_def)
qed

lemma by_interval_entry:
  "(k, l) \<in> set (by_interval rs) \<longleftrightarrow> l = filter (\<lambda>r. fr_clock r div SEGMENT_INTERVAL_MS = k) rs \<and> l \<noteq> []"
  using bt_entry_iff [OF by_interval_inv, of rs k l] by_interval_get [of rs k] by (auto simp: Let_def split: if_splits)

section \<open>Sealing\<close>

text \<open>The number of whole intervals of the \<open>u64\<close> clock.\<close>

definition WHOLE_INTERVALS :: nat where
  "WHOLE_INTERVALS = 213503982334"

lemma interval_end_exact:
  assumes "unat k < WHOLE_INTERVALS"
  shows "unat (interval_end k) = (unat k + 1) * 86400000"
proof -
  have k: "unat (k + 1) = unat k + 1"
    using assms unat_add_lem [of k 1] by (simp add: WHOLE_INTERVALS_def)
  have "(unat k + 1) * 86400000 < 2 ^ 64" using assms by (simp add: WHOLE_INTERVALS_def)
  then show ?thesis
    using k unat_mult_lem [of "k + 1" SEGMENT_INTERVAL_MS] by (simp add: interval_end_def SEGMENT_INTERVAL_MS_def)
qed

lemma interval_boundary:
  assumes "unat k < WHOLE_INTERVALS"
  shows "unat (interval_end k - 1) = unat k * 86400000 + 86399999"
proof -
  have e: "unat (interval_end k) = (unat k + 1) * 86400000" by (rule interval_end_exact [OF assms])
  then have "1 \<le> interval_end k" by (simp add: word_le_nat_alt)
  then show ?thesis using e by (simp add: unat_sub)
qed

lemma unat_interval: "unat (c div SEGMENT_INTERVAL_MS) = unat c div 86400000"
  by (simp add: SEGMENT_INTERVAL_MS_def unat_div_distrib)

lemma clock_in_interval:
  assumes "unat (fr_clock r) div 86400000 < WHOLE_INTERVALS" "fr_clock r div SEGMENT_INTERVAL_MS = k"
  shows "fr_clock r \<le> interval_end k - 1"
proof -
  have k: "unat k = unat (fr_clock r) div 86400000" using assms(2) unat_interval by metis
  then have "unat (interval_end k - 1) = unat k * 86400000 + 86399999" using assms(1) by (intro interval_boundary) simp
  moreover have "unat (fr_clock r) < (unat k + 1) * 86400000" using k
    by (metis Suc_eq_plus1 dividend_less_div_times mult.commute mult_Suc zero_less_numeral add.commute)
  ultimately show ?thesis by (simp add: word_le_nat_alt)
qed

definition interval_segment :: "hash_fn \<Rightarrow> u64 \<times> feed_record list \<Rightarrow> segment" where
  "interval_segment H e = seal H (snd e) (interval_end (fst e) - 1)"

lemma boundary_mono:
  assumes "k < k'" "unat k' < WHOLE_INTERVALS"
  shows "interval_end k - 1 < interval_end k' - 1"
proof -
  have "unat k < unat k'" using assms(1) by (simp add: word_less_nat_alt)
  then show ?thesis using interval_boundary [of k] interval_boundary [of k'] assms(2) by (simp add: word_less_nat_alt)
qed

text \<open>On whole intervals every segment is appended to the spine.\<close>

lemma seal_intervals_whole:
  assumes "sorted_wrt (<) (map fst m)" "\<forall>e \<in> set m. unat (fst e) < WHOLE_INTERVALS"
    and "sp = [] \<or> (\<forall>e \<in> set m. sl_boundary (last sp) < interval_end (fst e) - 1)"
    and "\<forall>e \<in> set m. segment_filter H parse (interval_segment H e) \<noteq> None"
  shows "\<exists>ix' sp'. seal_intervals H parse m (ix, sp, sealed, filters) =
      Some (ix', sp', sealed @ map (interval_segment H) m,
            filters @ map (\<lambda>e. the (segment_filter H parse (interval_segment H e))) m) \<and>
    ix' = foldl (add_segment H) ix (map (interval_segment H) m) \<and> length sp' = length sp + length m"
  using assms
proof (induction m arbitrary: ix sp sealed filters)
  case (Cons e m)
  obtain k l where e: "e = (k, l)" by (cases e)
  let ?seg = "interval_segment H e"
  have seg: "?seg = seal H l (interval_end k - 1)" by (simp add: interval_segment_def e)
  have b: "sg_boundary ?seg = interval_end k - 1" by (simp add: seg seal_sel)
  obtain sp' where sp': "spine_append H sp ?seg = Inr sp'" "sl_boundary (last sp') = interval_end k - 1"
      "sp' \<noteq> []" "length sp' = Suc (length sp)"
  proof -
    have "\<not> (sp \<noteq> [] \<and> sg_boundary ?seg \<le> sl_boundary (last sp))"
      using Cons.prems(3) b by (auto simp: e not_le)
    then show thesis using that b by (simp add: spine_append_def)
  qed
  obtain f where f: "segment_filter H parse ?seg = Some f" using Cons.prems(4) by auto
  have "sl_boundary (last sp') < interval_end (fst d) - 1" if "d \<in> set m" for d
    using that Cons.prems(1,2) sp'(2) boundary_mono [of k "fst d"] by (auto simp: e)
  then obtain ix' sp'' where "seal_intervals H parse m (add_segment H ix ?seg, sp', sealed @ [?seg], filters @ [f]) =
      Some (ix', sp'', (sealed @ [?seg]) @ map (interval_segment H) m,
            (filters @ [f]) @ map (\<lambda>e. the (segment_filter H parse (interval_segment H e))) m)"
      "ix' = foldl (add_segment H) (add_segment H ix ?seg) (map (interval_segment H) m)"
      "length sp'' = length sp' + length m"
    using Cons.IH [of sp' "add_segment H ix ?seg" "sealed @ [?seg]" "filters @ [f]"] Cons.prems by auto
  then show ?case using sp' f by (simp add: e seg [symmetric, unfolded e] Let_def)
qed simp


section \<open>The derived feed\<close>

text \<open>The number of term keys of a list of records.\<close>

definition term_count :: "json_parser \<Rightarrow> feed_record list \<Rightarrow> nat" where
  "term_count parse rs = sum_list (map (\<lambda>r. length (record_terms parse r)) rs)"

definition whole_clocks :: "feed_record list \<Rightarrow> bool" where
  "whole_clocks rs \<longleftrightarrow> (\<forall>r \<in> set rs. unat (fr_clock r) div 86400000 < WHOLE_INTERVALS)"

lemma segment_filter_holds:
  assumes "term_count parse (sg_records seg) < 2 ^ 29"
  shows "\<exists>f. segment_filter H parse seg = Some f \<and>
    (\<forall>r \<in> set (sg_records seg). \<forall>t \<in> set (record_terms parse r). contains f (term_hash H t))"
proof -
  let ?keys = "concat (map (\<lambda>r. map (term_hash H) (record_terms parse r)) (sg_records seg))"
  have "length ?keys = term_count parse (sg_records seg)"
    by (simp add: length_concat term_count_def comp_def)
  moreover have "length (remdups_adj (sort ?keys)) \<le> length (sort ?keys)" by (rule remdups_adj_length)
  ultimately have "length (remdups_adj (sort ?keys)) < 2 ^ 29" using assms by simp
  from build_ends [OF this] show ?thesis by (auto simp: segment_filter_def)
qed

lemma sum_list_mset_mono: "mset xs \<subseteq># mset ys \<Longrightarrow> sum_list (map f xs) \<le> (sum_list (map f ys) :: nat)"
  by (metis image_mset_subseteq_mono mset_map sum_mset_sum_list le_iff_add mset_subset_eq_exists_conv sum_mset.union)

lemma term_count_mono: "mset rs \<subseteq># mset rs' \<Longrightarrow> term_count parse rs \<le> term_count parse rs'"
  unfolding term_count_def by (rule sum_list_mset_mono)

lemma distinct_subset_mset: "distinct xs \<Longrightarrow> set xs \<subseteq> set ys \<Longrightarrow> mset xs \<subseteq># mset ys"
  by (rule mset_subset_eqI) (auto simp: distinct_count_atmost_1 count_mset_0_iff [symmetric] Suc_le_eq)

text \<open>What a node derives from: the deduplicated records in canonical order.\<close>

definition derived_records :: "hash_fn \<Rightarrow> feed_record list \<Rightarrow> feed_record list" where
  "derived_records H rs = canonical_order H (dedup_records H rs)"

lemma derived_records_mset: "mset (derived_records H rs) \<subseteq># mset rs"
proof -
  have "distinct (dedup_records H rs)" using dedup_records_spec(1) distinct_map by blast
  then have "mset (dedup_records H rs) \<subseteq># mset rs" using dedup_records_spec(3) by (rule distinct_subset_mset)
  then show ?thesis by (simp add: derived_records_def canonical_order_def)
qed

lemma set_derived_records: "inj_on (addr H) (set rs) \<Longrightarrow> set (derived_records H rs) = set rs"
  by (simp add: derived_records_def dedup_records_set)

lemma interval_records_mset:
  assumes "e \<in> set (by_interval rs)"
  shows "mset (sg_records (interval_segment H e)) \<subseteq># mset rs"
proof -
  have "snd e = filter (\<lambda>r. fr_clock r div SEGMENT_INTERVAL_MS = fst e) rs"
    using assms by_interval_entry [of "fst e" "snd e" rs] by simp
  then have "mset (snd e) \<subseteq># mset rs" by simp
  moreover have "mset (sg_records (interval_segment H e)) \<subseteq># mset (snd e)"
    by (simp add: interval_segment_def seal_records canonical_order_def)
  ultimately show ?thesis by (rule subset_mset.order_trans [rotated])
qed

lemma set_interval_records:
  assumes "e \<in> set (by_interval rs)" "whole_clocks rs"
  shows "set (sg_records (interval_segment H e)) = {r \<in> set rs. fr_clock r div SEGMENT_INTERVAL_MS = fst e}"
proof -
  have l: "snd e = filter (\<lambda>r. fr_clock r div SEGMENT_INTERVAL_MS = fst e) rs"
    using assms(1) by_interval_entry [of "fst e" "snd e" rs] by simp
  then show ?thesis
    using assms(2) clock_in_interval [of _ "fst e"]
    by (auto simp: interval_segment_def seal_records whole_clocks_def)
qed

lemma by_interval_whole:
  assumes "e \<in> set (by_interval rs)" "whole_clocks rs"
  shows "unat (fst e) < WHOLE_INTERVALS"
proof -
  have "filter (\<lambda>r. fr_clock r div SEGMENT_INTERVAL_MS = fst e) rs \<noteq> []"
    using by_interval_entry [of "fst e" "snd e" rs] assms(1) by (metis prod.collapse)
  then obtain r where r: "r \<in> set rs" "fr_clock r div SEGMENT_INTERVAL_MS = fst e"
    by (auto simp: filter_empty_conv)
  then have "unat (fst e) = unat (fr_clock r) div 86400000" using unat_interval by metis
  then show ?thesis using r(1) assms(2) by (auto simp: whole_clocks_def)
qed

lemma derive_feed_whole:
  assumes "whole_clocks rs" "term_count parse rs < 2 ^ 29"
  shows "\<exists>art. derive_feed H parse rs = Some art \<and> fa_records art = derived_records H rs \<and>
    fa_sealed art = map (interval_segment H) (by_interval (derived_records H rs)) \<and>
    fa_filters art = map (\<lambda>seg. the (segment_filter H parse seg)) (fa_sealed art) \<and>
    fa_index art = foldl (add_segment H) [] (fa_sealed art) \<and> length (fa_spine art) = length (fa_sealed art) \<and>
    fa_checkpoint art = checkpoint_compute H (derived_records H rs) (max_clock (derived_records H rs)) zero_id"
proof -
  let ?rs = "derived_records H rs"
  let ?m = "by_interval ?rs"
  have sub: "set ?rs \<subseteq> set rs" using set_mset_mono [OF derived_records_mset [of H rs]] by simp
  have "sorted_wrt (<) (map fst ?m)" using by_interval_inv [of ?rs] by (simp add: bt_inv_def)
  moreover have "whole_clocks ?rs" using sub assms(1) by (auto simp: whole_clocks_def)
  then have "unat (fst e) < WHOLE_INTERVALS" if "e \<in> set ?m" for e
    using that by_interval_whole by blast
  moreover have "segment_filter H parse (interval_segment H e) \<noteq> None" if "e \<in> set ?m" for e
  proof -
    have "mset (sg_records (interval_segment H e)) \<subseteq># mset rs"
      using interval_records_mset [OF that] derived_records_mset by (rule subset_mset.order_trans)
    then have "term_count parse (sg_records (interval_segment H e)) < 2 ^ 29"
      using term_count_mono assms(2) le_less_trans by blast
    then show ?thesis using segment_filter_holds by fastforce
  qed
  ultimately obtain ix sp where "seal_intervals H parse ?m ([], [], [], []) =
      Some (ix, sp, map (interval_segment H) ?m, map (\<lambda>e. the (segment_filter H parse (interval_segment H e))) ?m)"
      "ix = foldl (add_segment H) [] (map (interval_segment H) ?m)" "length sp = length ?m"
    using seal_intervals_whole [of ?m "[]" H parse "[]" "[]" "[]"] by auto
  then show ?thesis
    by (simp add: derive_feed_def derived_records_def [symmetric] Let_def comp_def)
qed


lemma interval_boundaries_sorted:
  assumes "whole_clocks rs"
  shows "sorted_wrt (<) (map sg_boundary (map (interval_segment H) (by_interval rs)))"
proof -
  have whole: "unat (fst e) < WHOLE_INTERVALS" if "e \<in> set (by_interval rs)" for e
    using by_interval_whole [OF that assms] .
  have "sorted_wrt (\<lambda>d e. fst d < fst e) (by_interval rs)"
    using by_interval_inv [of rs] by (simp add: bt_inv_def sorted_wrt_map)
  then have "sorted_wrt (\<lambda>d e. interval_end (fst d) - 1 < interval_end (fst e) - 1) (by_interval rs)"
    by (rule sorted_wrt_mono_rel [rotated]) (use whole boundary_mono in blast)
  then show ?thesis by (simp add: sorted_wrt_map interval_segment_def seal_sel)
qed

section \<open>Search lemmas\<close>

definition seg_matches :: "json_parser \<Rightarrow> string list \<Rightarrow> feed_record \<Rightarrow> bool" where
  "seg_matches parse query r \<longleftrightarrow> (\<forall>t \<in> set query. t \<in> set (record_terms parse r))"

text \<open>The matches of a segment without a filter and without a limit.\<close>

definition seg_hits :: "hash_fn \<Rightarrow> json_parser \<Rightarrow> string list \<Rightarrow> segment \<Rightarrow> json list" where
  "seg_hits H parse query seg =
     map (\<lambda>e. hit_value seg (fst e) (snd e))
       (filter (\<lambda>e. seg_matches parse query (fst e)) (zip (sg_records seg) (record_extents H seg)))"

lemma hit_fold:
  assumes "length hits \<le> limit"
  shows "fold (hit_step parse seg query limit) es hits =
    take limit (hits @ map (\<lambda>e. hit_value seg (fst e) (snd e)) (filter (\<lambda>e. seg_matches parse query (fst e)) es))"
  using assms
proof (induction es arbitrary: hits)
  case (Cons e es)
  have "length (hit_step parse seg query limit e hits) \<le> limit" using Cons.prems by (simp add: hit_step_def)
  from Cons.IH [OF this] show ?case
    using Cons.prems by (auto simp: hit_step_def seg_matches_def list_all_iff take_Cons')
qed simp

lemma collect_hits:
  "length hits \<le> limit \<Longrightarrow> collect_segment_hits H parse seg query limit hits = take limit (hits @ seg_hits H parse query seg)"
  by (simp add: collect_segment_hits_def hit_fold seg_hits_def)

lemma take_take_append: "take n (take n xs @ ys) = take n (xs @ ys)"
  by (cases "n \<le> length xs") simp_all

lemma search_walk_hits:
  assumes "length hits \<le> limit" "list_all2 (\<lambda>seg f. case f of Some f \<Rightarrow>
      (\<forall>r \<in> set (sg_records seg). \<forall>t \<in> set (record_terms parse r). contains f (term_hash H t)) | None \<Rightarrow> True) segs fs"
    and "query \<noteq> []"
  shows "fst (search_walk H parse query limit segs fs (hits, a, b)) = take limit (hits @ concat (map (seg_hits H parse query) segs))"
  using assms
proof (induction segs arbitrary: fs hits a b)
  case (Cons seg segs)
  then obtain f fs' where fs: "fs = f # fs'" by (auto simp: list_all2_Cons1)
  have all: "list_all2 (\<lambda>seg f. case f of Some f \<Rightarrow>
      (\<forall>r \<in> set (sg_records seg). \<forall>t \<in> set (record_terms parse r). contains f (term_hash H t)) | None \<Rightarrow> True) segs fs'"
    and f: "\<And>g r t. f = Some g \<Longrightarrow> r \<in> set (sg_records seg) \<Longrightarrow> t \<in> set (record_terms parse r) \<Longrightarrow> contains g (term_hash H t)"
    using Cons.prems(2) fs by auto
  let ?cand = "case f of Some f \<Rightarrow> list_all (\<lambda>t. contains f (term_hash H t)) query | None \<Rightarrow> True"
  let ?hits = "collect_segment_hits H parse seg query limit hits"
  have step: "search_walk H parse query limit (seg # segs) fs (hits, a, b) =
      (if \<not> ?cand then search_walk H parse query limit segs fs' (hits, a, Suc b)
       else if length ?hits \<ge> limit then (?hits, Suc a, b) else search_walk H parse query limit segs fs' (?hits, Suc a, b))"
    by (simp add: fs Let_def)
  have h: "?hits = take limit (hits @ seg_hits H parse query seg)" by (rule collect_hits [OF Cons.prems(1)])
  show ?case
  proof (cases ?cand)
    case False
    have "\<not> seg_matches parse query r" if "r \<in> set (sg_records seg)" for r
      using False f that by (auto simp: seg_matches_def list_all_iff split: option.splits)
    then have "seg_hits H parse query seg = []"
      by (auto simp: seg_hits_def filter_empty_conv dest: set_zip_leftD)
    then show ?thesis using step False Cons.IH [OF Cons.prems(1) all assms(3), of a "Suc b"] by simp
  next
    case True
    show ?thesis
    proof (cases "length ?hits \<ge> limit")
      case full: True
      then have "limit \<le> length (hits @ seg_hits H parse query seg)" using h by simp
      then show ?thesis using step True full h by simp
    next
      case False
      then have "length ?hits \<le> limit" by simp
      from Cons.IH [OF this all assms(3), of "Suc a" b] show ?thesis
        using step True False h take_take_append [of limit "hits @ seg_hits H parse query seg"] by simp
    qed
  qed
qed simp

lemma search_pointers:
  assumes "whole_clocks rs" "term_count parse rs < 2 ^ 29" "derive_feed H parse rs = Some art" "search_query terms \<noteq> []"
  shows "j_get (segment_search H parse art terms limit) ''pointers'' =
    Some (JArr (take limit (concat (map (seg_hits H parse (search_query terms)) (fa_sealed art)))))"
proof -
  let ?q = "search_query terms"
  have sealed: "fa_sealed art = map (interval_segment H) (by_interval (derived_records H rs))"
    and filters: "fa_filters art = map (\<lambda>seg. the (segment_filter H parse seg)) (fa_sealed art)"
    using derive_feed_whole [OF assms(1,2), of H] assms(3) by auto
  have "list_all2 (\<lambda>seg f. case f of Some f \<Rightarrow>
      (\<forall>r \<in> set (sg_records seg). \<forall>t \<in> set (record_terms parse r). contains f (term_hash H t)) | None \<Rightarrow> True)
      (fa_sealed art) (map Some (fa_filters art))"
  proof (simp only: filters list.rel_map, rule list.rel_refl_strong, simp, intro ballI)
    fix seg r t
    assume s: "seg \<in> set (fa_sealed art)" and rt: "r \<in> set (sg_records seg)" "t \<in> set (record_terms parse r)"
    obtain e where "e \<in> set (by_interval (derived_records H rs))" "seg = interval_segment H e" using s sealed by auto
    then have "mset (sg_records seg) \<subseteq># mset rs"
      using interval_records_mset derived_records_mset subset_mset.order_trans by metis
    then have "term_count parse (sg_records seg) < 2 ^ 29" using term_count_mono assms(2) le_less_trans by blast
    then show "contains (the (segment_filter H parse seg)) (term_hash H t)"
      using segment_filter_holds [of parse seg H] rt by auto
  qed
  from search_walk_hits [OF _ this assms(4), of "[]" limit 0 0] show ?thesis
    using assms(4) by (auto simp: segment_search_def Let_def split: prod.split)
qed

section \<open>Properties\<close>

text \<open>
  C25. A derived feed covers its records.  For records that no two of share an address, whose clocks are below
  the last whole interval and whose terms are fewer than \<open>2 ^ 29\<close>: the derivation returns; it keeps every
  record; every record is in exactly one sealed segment, the one of its interval; the boundaries increase
  and each segment has its link in the spine and its filter.
\<close>

theorem derive_feed_covers:
  assumes "inj_on (addr H) (set rs)" "whole_clocks rs" "term_count parse rs < 2 ^ 29"
  shows "\<exists>art. derive_feed H parse rs = Some art \<and> set (fa_records art) = set rs \<and>
    (\<forall>r \<in> set rs. \<exists>!seg. seg \<in> set (fa_sealed art) \<and> r \<in> set (sg_records seg)) \<and>
    (\<forall>seg \<in> set (fa_sealed art). sg_records seg \<noteq> [] \<and> set (sg_records seg) \<subseteq> set rs) \<and>
    sorted_wrt (<) (map sg_boundary (fa_sealed art)) \<and>
    length (fa_filters art) = length (fa_sealed art) \<and> length (fa_spine art) = length (fa_sealed art)"
proof -
  let ?rs = "derived_records H rs"
  obtain art where art: "derive_feed H parse rs = Some art" "fa_records art = ?rs"
      "fa_sealed art = map (interval_segment H) (by_interval ?rs)"
      "fa_filters art = map (\<lambda>seg. the (segment_filter H parse seg)) (fa_sealed art)"
      "length (fa_spine art) = length (fa_sealed art)"
    using derive_feed_whole [OF assms(2,3), of H] by blast
  have rs: "set ?rs = set rs" by (rule set_derived_records [OF assms(1)])
  then have w: "whole_clocks ?rs" using assms(2) by (simp add: whole_clocks_def)
  have seg: "set (sg_records (interval_segment H e)) = {r \<in> set rs. fr_clock r div SEGMENT_INTERVAL_MS = fst e}"
    if "e \<in> set (by_interval ?rs)" for e using set_interval_records [OF that w] rs by simp
  have "\<exists>!s. s \<in> set (fa_sealed art) \<and> r \<in> set (sg_records s)" if r: "r \<in> set rs" for r
  proof -
    let ?k = "fr_clock r div SEGMENT_INTERVAL_MS"
    let ?e = "(?k, filter (\<lambda>r. fr_clock r div SEGMENT_INTERVAL_MS = ?k) ?rs)"
    have e: "?e \<in> set (by_interval ?rs)" using r rs by (auto simp: by_interval_entry filter_empty_conv)
    show ?thesis
    proof (rule ex1I [of _ "interval_segment H ?e"])
      show "interval_segment H ?e \<in> set (fa_sealed art) \<and> r \<in> set (sg_records (interval_segment H ?e))"
        using art(3) e seg [OF e] r by auto
      fix s assume s: "s \<in> set (fa_sealed art) \<and> r \<in> set (sg_records s)"
      then obtain d where d: "d \<in> set (by_interval ?rs)" "s = interval_segment H d" using art(3) by auto
      then have "fst d = ?k" using s seg [OF d(1)] by auto
      moreover have "snd d = filter (\<lambda>r. fr_clock r div SEGMENT_INTERVAL_MS = fst d) ?rs"
        using by_interval_entry [of "fst d" "snd d" ?rs] d(1) by (metis prod.collapse)
      ultimately have "d = ?e" by (metis prod.collapse)
      then show "s = interval_segment H ?e" using d(2) by simp
    qed
  qed
  moreover have "sg_records s \<noteq> [] \<and> set (sg_records s) \<subseteq> set rs" if s: "s \<in> set (fa_sealed art)" for s
  proof -
    obtain d where d: "d \<in> set (by_interval ?rs)" "s = interval_segment H d" using s art(3) by auto
    then have "filter (\<lambda>r. fr_clock r div SEGMENT_INTERVAL_MS = fst d) ?rs \<noteq> []"
      using by_interval_entry [of "fst d" "snd d" ?rs] by (metis prod.collapse)
    then have "{r \<in> set rs. fr_clock r div SEGMENT_INTERVAL_MS = fst d} \<noteq> {}" using rs by (auto simp: filter_empty_conv)
    then have "set (sg_records s) \<noteq> {}" using seg [OF d(1)] d(2) by metis
    then show ?thesis using seg [OF d(1)] d(2) by auto
  qed
  moreover have "sorted_wrt (<) (map sg_boundary (fa_sealed art))"
    using interval_boundaries_sorted [OF w] art(3) by simp
  ultimately show ?thesis using art rs by auto
qed


definition ex_note :: "string \<Rightarrow> nat \<Rightarrow> feed_record" where
  "ex_note i c = \<lparr>fr_canonical = as_bytes i, fr_id = i, fr_author = ''a'', fr_target = [],
     fr_clock = as_u64 c, fr_kind = Post\<rparr>"

lemma ex_note_sel [simp]: "fr_canonical (ex_note i c) = as_bytes i" "fr_clock (ex_note i c) = as_u64 c"
    "addr id (ex_note i c) = ObjId (as_bytes i)"
  by (simp_all add: ex_note_def addr_def ObjId_of_def)

lemma ex_notes_ok:
  "inj_on (addr id) (set [ex_note ''red'' 1, ex_note ''blue'' 86400001])"
  "whole_clocks [ex_note ''red'' 1, ex_note ''blue'' 86400001]"
  "term_count (\<lambda>b. Some (JStr (str_of_bytes b))) [ex_note ''red'' 1, ex_note ''blue'' 86400001] < 2 ^ 29"
proof -
  have t: "tokenize ''red'' = [''red'']" "tokenize ''blue'' = [''blue'']" by code_simp+
  have b: "str_of_bytes (as_bytes ''red'') = ''red''" "str_of_bytes (as_bytes ''blue'') = ''blue''" by code_simp+
  show "term_count (\<lambda>b. Some (JStr (str_of_bytes b))) [ex_note ''red'' 1, ex_note ''blue'' 86400001] < 2 ^ 29"
    by (simp add: term_count_def record_terms_def t b)
  show "inj_on (addr id) (set [ex_note ''red'' 1, ex_note ''blue'' 86400001])" by (simp add: inj_on_def)
  show "whole_clocks [ex_note ''red'' 1, ex_note ''blue'' 86400001]"
    by (simp add: whole_clocks_def unat_as_u64 WHOLE_INTERVALS_def)
qed

theorem derive_feed_covers_witness:
  "\<exists>art. derive_feed id (\<lambda>b. Some (JStr (str_of_bytes b))) [ex_note ''red'' 1, ex_note ''blue'' 86400001] = Some art \<and>
    set (fa_records art) = {ex_note ''red'' 1, ex_note ''blue'' 86400001}"
  using derive_feed_covers [OF ex_notes_ok] by auto

text \<open>
  C5. The search is exact: whatever the filters let it skip, the pointers are the first \<open>limit\<close> records, in the
  order of the segments, that hold every term of the query, each with its byte range and addresses.
\<close>

theorem segment_search_exact:
  assumes "whole_clocks rs" "term_count parse rs < 2 ^ 29" "derive_feed H parse rs = Some art" "search_query terms \<noteq> []"
  shows "j_get (segment_search H parse art terms limit) ''pointers'' =
    Some (JArr (take limit (concat (map (\<lambda>seg. map (\<lambda>e. hit_value seg (fst e) (snd e))
      (filter (\<lambda>e. \<forall>t \<in> set (search_query terms). t \<in> set (record_terms parse (fst e)))
        (zip (sg_records seg) (record_extents H seg)))) (fa_sealed art)))))"
  using search_pointers [OF assms, of limit] by (simp only: seg_hits_def [abs_def] seg_matches_def)

theorem segment_search_exact_witness:
  "\<exists>art. derive_feed id (\<lambda>b. Some (JStr (str_of_bytes b))) [ex_note ''red'' 1, ex_note ''blue'' 86400001] = Some art \<and>
    j_get (segment_search id (\<lambda>b. Some (JStr (str_of_bytes b))) art [''Blue!''] 5) ''pointers'' =
    Some (JArr (take 5 (concat (map (\<lambda>seg. map (\<lambda>e. hit_value seg (fst e) (snd e))
      (filter (\<lambda>e. ''blue'' \<in> set (record_terms (\<lambda>b. Some (JStr (str_of_bytes b))) (fst e)))
        (zip (sg_records seg) (record_extents id seg)))) (fa_sealed art)))))"
proof -
  obtain art where "derive_feed id (\<lambda>b. Some (JStr (str_of_bytes b))) [ex_note ''red'' 1, ex_note ''blue'' 86400001] = Some art"
    using derive_feed_whole [OF ex_notes_ok(2,3), of id] by blast
  moreover have "search_query [''Blue!''] = [''blue'']" by code_simp
  ultimately show ?thesis
    using segment_search_exact [OF ex_notes_ok(2,3), where terms = "[''Blue!'']" and limit = 5] by auto
qed

section \<open>Verified records\<close>

lemma gather_record_Some:
  "gather_record ver kec desc signers now rec = Some r \<longleftrightarrow>
     verify_record ver kec rec signers now = Inr () \<and> record_from_value desc rec (as_bytes (dumps_sorted rec)) = Inr r"
  by (auto simp: gather_record_def split: sum.splits)

lemma gathered_inj:
  assumes "\<forall>v \<in> set js. canon v" "inj_on H ((\<lambda>v. as_bytes (dumps_sorted v)) ` set js)"
  shows "inj_on (addr H) (set (filter_map (gather_record ver kec desc signers now) js))"
proof (rule inj_onI)
  fix r r' assume r: "r \<in> set (filter_map (gather_record ver kec desc signers now) js)"
    and r': "r' \<in> set (filter_map (gather_record ver kec desc signers now) js)" and eq: "addr H r = addr H r'"
  obtain v where v: "v \<in> set js" "record_from_value desc v (as_bytes (dumps_sorted v)) = Inr r"
    using r by (auto simp: set_filter_map gather_record_Some)
  obtain v' where v': "v' \<in> set js" "record_from_value desc v' (as_bytes (dumps_sorted v')) = Inr r'"
    using r' by (auto simp: set_filter_map gather_record_Some)
  have "H (as_bytes (dumps_sorted v)) = H (as_bytes (dumps_sorted v'))"
    using eq record_from_value_Inr(1) [OF v(2)] record_from_value_Inr(1) [OF v'(2)] by (simp add: addr_def ObjId_of_def)
  then have "dumps_sorted v = dumps_sorted v'" using assms(2) v(1) v'(1) by (auto dest: inj_onD)
  then have "v = v'" using assms(1) v(1) v'(1) dumps_sorted_inject by blast
  then show "r = r'" using v(2) v'(2) by simp
qed

lemma derive_feed_set:
  assumes "set rs = set rs'" "inj_on (addr H) (set rs)"
  shows "derive_feed H parse rs = derive_feed H parse rs'"
  unfolding derive_feed_def derived_records_cong [OF assms] ..

text \<open>
  C1. Nodes converge on a feed: if two nodes hold the same verified records, in any order, with repetitions and
  whatever else that does not verify, they derive the same artifacts (segments, spine, index, filters and
  checkpoint), as long as the hash does not collide on the records.
\<close>

theorem feed_converges:
  assumes "\<forall>v \<in> set js. canon v" "inj_on H ((\<lambda>v. as_bytes (dumps_sorted v)) ` set js)"
    and "{v \<in> set js. verify_record ver kec v signers now = Inr ()} = {v \<in> set js'. verify_record ver kec v signers now = Inr ()}"
  shows "derive_feed H parse (filter_map (gather_record ver kec desc signers now) js) =
    derive_feed H parse (filter_map (gather_record ver kec desc signers now) js')"
proof (rule derive_feed_set [OF _ gathered_inj [OF assms(1,2)]])
  let ?good = "\<lambda>ks. {v \<in> set ks. verify_record ver kec v signers now = Inr ()}"
  have "set (filter_map (gather_record ver kec desc signers now) ks) =
      {r. \<exists>v \<in> ?good ks. record_from_value desc v (as_bytes (dumps_sorted v)) = Inr r}" for ks
    by (auto simp: set_filter_map gather_record_Some)
  then show "set (filter_map (gather_record ver kec desc signers now) js) =
      set (filter_map (gather_record ver kec desc signers now) js')"
    unfolding assms(3) [symmetric] by (simp only: assms(3))
qed

definition ex_desc :: feed_descriptor where
  "ex_desc = \<lparr>fd_name = ''posts'', fd_record_format = ''epix-orset-1'', fd_files = ''data/*/posts.json'',
     fd_record_key = ''post'', fd_map = \<lparr>fm_id = ''post_id'', fm_author = ''author'', fm_clock = ''clock'', fm_target = None\<rparr>,
     fd_kind = \<lparr>ks_default = ''post'', ks_reaction_kind_field = None, ks_active_field = None\<rparr>,
     fd_clock_scale = 1, fd_deleted_field = ''deleted'', fd_moderated_field = ''moderated''\<rparr>"

theorem feed_converges_witness:
  "derive_feed id (\<lambda>_. None) (filter_map (gather_record (\<lambda>_ _ _. True) (\<lambda>_ _ _. True) ex_desc [''a''] 5) [sample_record 1 ''x'', JNull]) =
   derive_feed id (\<lambda>_. None) (filter_map (gather_record (\<lambda>_ _ _. True) (\<lambda>_ _ _. True) ex_desc [''a''] 5) [sample_record 1 ''x'', sample_record 1 ''x''])"
proof (rule feed_converges)
  have "canon (sample_record 1 ''x'')" by code_simp
  then show "\<forall>v \<in> set [sample_record 1 ''x'', JNull]. canon v" by simp
  show "inj_on id ((\<lambda>v. as_bytes (dumps_sorted v)) ` set [sample_record 1 ''x'', JNull])" by simp
  have "verify_record (\<lambda>_ _ _. True) (\<lambda>_ _ _. True) JNull [''a''] 5 \<noteq> Inr ()" by (simp add: verify_record_def)
  then show "{v \<in> set [sample_record 1 ''x'', JNull]. verify_record (\<lambda>_ _ _. True) (\<lambda>_ _ _. True) v [''a''] 5 = Inr ()} =
      {v \<in> set [sample_record 1 ''x'', sample_record 1 ''x'']. verify_record (\<lambda>_ _ _. True) (\<lambda>_ _ _. True) v [''a''] 5 = Inr ()}"
    by auto
qed

section \<open>Deletion\<close>

lemma le_max_clock: "r \<in> set rs \<Longrightarrow> fr_clock r \<le> max_clock rs"
  by (auto simp: max_clock_def intro: Max_ge)

lemma derive_feed_checkpoint:
  "derive_feed H parse rs = Some art \<Longrightarrow>
   fa_checkpoint art = checkpoint_compute H (derived_records H rs) (max_clock (derived_records H rs)) zero_id"
  by (auto simp: derive_feed_def derived_records_def Let_def split: option.splits)

lemma derived_live:
  assumes "derive_feed H parse rs = Some art" "inj_on (addr H) (set rs)" "x \<in> set (ck_live (fa_checkpoint art))"
  shows "x \<in> set rs" "\<not> is_reaction x" "\<not> is_tombstone x"
    "\<And>r. r \<in> set rs \<Longrightarrow> is_tombstone r \<Longrightarrow> (fr_author x, fr_id x) \<noteq> (fr_author r, fr_target r)"
proof -
  let ?rs = "derived_records H rs" and ?b = "max_clock (derived_records H rs)"
  have rs: "set ?rs = set rs" by (rule set_derived_records [OF assms(2)])
  have "in_scope ?rs ?b = ?rs" using le_max_clock by (auto simp: in_scope_def list_all_iff)
  then have live: "x \<in> set (live_records H ?rs (tombstoned_ids ?rs))"
    using assms(3) derive_feed_checkpoint [OF assms(1)] by (simp add: checkpoint_sel)
  have "inj_on (order_key H) (set ?rs)" using addr_order_inj assms(2) rs by metis
  from live_records_iff [OF this, THEN iffD1, OF live]
  show "x \<in> set rs" "\<not> is_reaction x" "\<not> is_tombstone x"
      "\<And>r. r \<in> set rs \<Longrightarrow> is_tombstone r \<Longrightarrow> (fr_author x, fr_id x) \<noteq> (fr_author r, fr_target r)"
    using rs by (auto simp: set_tombstoned_ids)
qed

lemma set_item_winners:
  "set (item_winners art tgt limit bc) \<subseteq> set (ck_live (fa_checkpoint art))"
  by (auto simp: item_winners_def Let_def split: option.splits dest: in_set_takeD)

text \<open>
  C2. A query answers only with records that verify, and a delete is final: every record an item query answers
  with was verified against the signers and is neither a reaction nor a delete, and once a verified record
  of the item (same author and id) has its delete field set, no version of the item is answered, whatever
  the clocks.
\<close>

theorem item_query_safe:
  assumes "\<forall>v \<in> set js. canon v" "inj_on H ((\<lambda>v. as_bytes (dumps_sorted v)) ` set js)"
    and "derive_feed H parse (filter_map (gather_record ver kec desc signers now) js) = Some art"
    and "x \<in> set (item_winners art tgt limit bc)"
  shows "(\<exists>v \<in> set js. verify_record ver kec v signers now = Inr () \<and> fr_canonical x = as_bytes (dumps_sorted v) \<and>
      get_str v (fm_author (fd_map desc)) = Some (fr_author x) \<and> get_bool v (fd_deleted_field desc) \<noteq> Some True) \<and>
    (\<forall>v \<in> set js. \<forall>r. verify_record ver kec v signers now = Inr () \<longrightarrow>
       record_from_value desc v (as_bytes (dumps_sorted v)) = Inr r \<longrightarrow>
       fr_author r = fr_author x \<longrightarrow> fr_id r = fr_id x \<longrightarrow> get_bool v (fd_deleted_field desc) \<noteq> Some True)"
proof -
  let ?rs = "filter_map (gather_record ver kec desc signers now) js"
  have inj: "inj_on (addr H) (set ?rs)" by (rule gathered_inj [OF assms(1,2)])
  have x: "x \<in> set (ck_live (fa_checkpoint art))" using assms(4) set_item_winners by blast
  note live = derived_live [OF assms(3) inj x]
  obtain v where v: "v \<in> set js" "verify_record ver kec v signers now = Inr ()"
      "record_from_value desc v (as_bytes (dumps_sorted v)) = Inr x"
    using live(1) by (auto simp: set_filter_map gather_record_Some)
  have "get_bool v (fd_deleted_field desc) \<noteq> Some True"
    using live(3) deleted_tombstone(1) [OF v(3)] by (simp add: is_tombstone_def)
  moreover have "get_bool w (fd_deleted_field desc) \<noteq> Some True"
    if w: "w \<in> set js" "verify_record ver kec w signers now = Inr ()"
      "record_from_value desc w (as_bytes (dumps_sorted w)) = Inr r" "fr_author r = fr_author x" "fr_id r = fr_id x" for w r
  proof
    assume d: "get_bool w (fd_deleted_field desc) = Some True"
    have "r \<in> set ?rs" using w by (auto simp: set_filter_map gather_record_Some)
    then show False
      using live(4) [of r] deleted_tombstone [OF w(3)] d w(4,5) by (simp add: is_tombstone_def)
  qed
  ultimately show ?thesis
    using v record_from_value_Inr(1,2) [OF v(3)] by blast
qed


definition ex_post_7 :: feed_record where
  "ex_post_7 = \<lparr>fr_canonical = as_bytes (dumps_sorted (sample_record 1 ''x'')), fr_id = ''7'', fr_author = ''a'', fr_target = [],
     fr_clock = 1, fr_kind = Post\<rparr>"

lemma ex_gather: "filter_map (gather_record (\<lambda>_ _ _. True) (\<lambda>_ _ _. True) ex_desc [''a''] 5) [sample_record 1 ''x''] = [ex_post_7]"
proof -
  have "verify_record (\<lambda>_ _ _. True) (\<lambda>_ _ _. True) (sample_record 1 ''x'') [''a''] 5 = Inr ()"
    by (simp add: verify_record_iff sample_record_def record_sig_ok_def get_str_def get_i64_def get_bool_def
        is_deleted_def CLOCK_SKEW_BOUND_MS_def i64_wrap_def)
  moreover have "show_int 7 = ''7''" by code_simp
  then have "record_from_value ex_desc (sample_record 1 ''x'') (as_bytes (dumps_sorted (sample_record 1 ''x''))) = Inr ex_post_7"
    by (simp add: record_from_value_def ex_desc_def ex_post_7_def sample_record_def get_str_def scaled_clock_def get_i64_def
        checked_mul_def u64_max_def kind_and_target_def get_bool_def record_target_def as_u64_def)
  ultimately have "gather_record (\<lambda>_ _ _. True) (\<lambda>_ _ _. True) ex_desc [''a''] 5 (sample_record 1 ''x'') = Some ex_post_7"
    by (simp add: gather_record_Some)
  then show ?thesis by simp
qed

lemma ex_item_winners:
  assumes "derive_feed id (\<lambda>_. Some JNull) [ex_post_7] = Some art"
  shows "item_winners art ''7'' None None = [ex_post_7]"
proof -
  have r: "fr_clock ex_post_7 = 1" "fr_kind ex_post_7 = Post" "fr_target ex_post_7 = []" "fr_id ex_post_7 = ''7''"
    by (simp_all add: ex_post_7_def)
  have d: "derived_records id [ex_post_7] = [ex_post_7]"
    by (simp add: derived_records_def dedup_records_def dedup_step_def canonical_order_def)
  have "live_records id [ex_post_7] [] = [ex_post_7]"
    by (simp add: live_records_def live_step_def is_reaction_def is_tombstone_def r bt_upsert_def canonical_order_def)
  then have "ck_live (fa_checkpoint art) = [ex_post_7]"
    using derive_feed_checkpoint [OF assms]
    by (simp add: d checkpoint_sel in_scope_def max_clock_def tombstoned_ids_def is_tombstone_def r bs_collect_def)
  then show ?thesis by (simp add: item_winners_def r)
qed

theorem item_query_safe_witness:
  "\<exists>art. derive_feed id (\<lambda>_. Some JNull) [ex_post_7] = Some art \<and> ex_post_7 \<in> set (item_winners art ''7'' None None) \<and>
    get_bool (sample_record 1 ''x'') ''deleted'' \<noteq> Some True"
proof -
  have w: "whole_clocks [ex_post_7]" "term_count (\<lambda>_. Some JNull) [ex_post_7] < 2 ^ 29"
    by (simp_all add: whole_clocks_def WHOLE_INTERVALS_def ex_post_7_def term_count_def record_terms_def)
  obtain art where art: "derive_feed id (\<lambda>_. Some JNull) [ex_post_7] = Some art" using derive_feed_whole [OF w] by blast
  have x: "ex_post_7 \<in> set (item_winners art ''7'' None None)" using ex_item_winners [OF art] by simp
  have "canon (sample_record 1 ''x'')" by code_simp
  then have "\<forall>v \<in> set [sample_record 1 ''x'']. canon v" by simp
  from item_query_safe [OF this _ _ x, of id "\<lambda>_. Some JNull" "\<lambda>_ _ _. True" "\<lambda>_ _ _. True" ex_desc "[''a'']" 5]
  have "get_bool (sample_record 1 ''x'') (fd_deleted_field ex_desc) \<noteq> Some True" using ex_gather art by auto
  then show ?thesis using art x by (auto simp: ex_desc_def)
qed

section \<open>The last interval\<close>

lemma seal_intervals_sealed:
  assumes "seal_intervals H parse m st = Some (ix, sp, sealed, filters)"
  shows "set sealed \<subseteq> set (fst (snd (snd st))) \<union> interval_segment H ` set m"
  using assms
proof (induction m arbitrary: st)
  case (Cons e m)
  obtain k l where e: "e = (k, l)" by (cases e)
  obtain ix0 sp0 sealed0 filters0 where st: "st = (ix0, sp0, sealed0, filters0)" by (cases st) auto
  have seg: "seal H l (interval_end k - 1) = interval_segment H e" by (simp add: interval_segment_def e)
  show ?case
  proof (cases "spine_append H sp0 (interval_segment H e)")
    case (Inl _)
    then show ?thesis using Cons.prems Cons.IH unfolding e st seal_intervals.simps Let_def seg [unfolded e] by (fastforce simp: e)
  next
    case (Inr sp')
    then show ?thesis using Cons.prems Cons.IH unfolding e st seal_intervals.simps Let_def seg [unfolded e]
      by (fastforce simp: e split: option.splits)
  qed
qed simp

lemma last_interval_wraps:
  assumes "WHOLE_INTERVALS \<le> unat c div 86400000"
  shows "interval_end (c div SEGMENT_INTERVAL_MS) - 1 = 34448383"
proof -
  have "unat c < 2 ^ 64" using unsigned_less [of c, where ?'a = nat] by simp
  then have "unat c div 86400000 \<le> WHOLE_INTERVALS" by (simp add: WHOLE_INTERVALS_def)
  then have "unat (c div SEGMENT_INTERVAL_MS) = 213503982334" using assms unat_interval by (simp add: WHOLE_INTERVALS_def)
  then have "c div SEGMENT_INTERVAL_MS = 213503982334" by (simp add: word_unat_eq_iff)
  then show ?thesis by (simp add: interval_end_def SEGMENT_INTERVAL_MS_def)
qed

text \<open>
  C27. The edge of the last, partial interval of the \<open>u64\<close> clock wraps around in a release build: a record there
  is in no sealed segment, so neither the target index nor the search ever finds it.  A descriptor with a
  clock in seconds admits such records, since the scaled clock only has to fit the \<open>u64\<close>.
\<close>

theorem last_interval_dropped:
  assumes "WHOLE_INTERVALS \<le> unat (fr_clock r) div 86400000" "derive_feed H parse rs = Some art"
  shows "\<forall>seg \<in> set (fa_sealed art). r \<notin> set (sg_records seg)"
proof
  fix seg assume s: "seg \<in> set (fa_sealed art)"
  obtain ix sp sealed filters where si: "seal_intervals H parse (by_interval (derived_records H rs)) ([], [], [], []) =
      Some (ix, sp, sealed, filters)" and "fa_sealed art = sealed"
    using assms(2) by (auto simp: derive_feed_def derived_records_def Let_def split: option.splits)
  then obtain e where e: "e \<in> set (by_interval (derived_records H rs))" "seg = interval_segment H e"
    using seal_intervals_sealed [OF si] s by auto
  show "r \<notin> set (sg_records seg)"
  proof
    assume "r \<in> set (sg_records seg)"
    then have r: "r \<in> set (snd e)" "fr_clock r \<le> interval_end (fst e) - 1"
      using e(2) by (auto simp: interval_segment_def seal_records)
    moreover have "snd e = filter (\<lambda>r. fr_clock r div SEGMENT_INTERVAL_MS = fst e) (derived_records H rs)"
      using by_interval_entry [of "fst e" "snd e" "derived_records H rs"] e(1) by (metis prod.collapse)
    ultimately have "fr_clock r div SEGMENT_INTERVAL_MS = fst e"
      by (metis (mono_tags, lifting) mem_Collect_eq set_filter)
    then have "fr_clock r \<le> 34448383" using r(2) last_interval_wraps [OF assms(1)] by simp
    then show False using assms(1) by (simp add: word_le_nat_alt WHOLE_INTERVALS_def)
  qed
qed

theorem last_interval_dropped_witness:
  "derive_feed id (\<lambda>_. Some JNull) [ex_note ''late'' 18446744073709551000] \<noteq> None \<and>
   ex_note ''late'' 18446744073709551000 \<notin> set (concat (map sg_records
     (fa_sealed (the (derive_feed id (\<lambda>_. Some JNull) [ex_note ''late'' 18446744073709551000])))))"
proof -
  let ?r = "ex_note ''late'' 18446744073709551000"
  have "term_count (\<lambda>_. Some JNull) (sg_records (interval_segment id e)) < 2 ^ 29" for e
    by (simp add: term_count_def record_terms_def)
  from segment_filter_holds [OF this] have f: "\<exists>f. segment_filter id (\<lambda>_. Some JNull) (interval_segment id e) = Some f" for e by blast
  have d: "derived_records id [?r] = [?r]"
    by (simp add: derived_records_def dedup_records_def dedup_step_def canonical_order_def)
  let ?e = "(fr_clock ?r div SEGMENT_INTERVAL_MS, [?r])"
  have m: "by_interval [?r] = [?e]" by (simp add: by_interval_def bt_upsert_def)
  obtain g where "segment_filter id (\<lambda>_. Some JNull) (seal id [?r] (interval_end (fst ?e) - 1)) = Some g"
    using f [of ?e] by (auto simp: interval_segment_def)
  then obtain art where art: "derive_feed id (\<lambda>_. Some JNull) [?r] = Some art"
    unfolding derive_feed_def derived_records_def [symmetric] d m Let_def
    by (simp add: spine_append_def Let_def)
  have "WHOLE_INTERVALS \<le> unat (fr_clock ?r) div 86400000" by (simp add: WHOLE_INTERVALS_def unat_as_u64)
  from last_interval_dropped [OF this art] art show ?thesis by simp
qed

end
