(* ===== verification/Feed_Gather.thy ===== *)
theory Feed_Gather
  imports Feed_Derive Xite_Content
begin

text \<open>
  Which merge files feed a feed: the glob matcher of \<^verbatim>\<open>epix-ui/src/feed.rs\<close> and the gathering of the verified
  records of a xite in \<^verbatim>\<open>epix-ui/src/state.rs\<close>.  The matcher is an iterative backtracking loop over two
  indices; it is a partial function here and shown to return.
\<close>

section \<open>The matcher\<close>

definition star :: char where
  "star = CHR ''*''"

definition crosses_segments :: "string \<Rightarrow> nat \<Rightarrow> bool" where
  "crosses_segments pat p \<longleftrightarrow> p + 1 < length pat \<and> pat ! (p + 1) = star"

definition star_width :: "bool \<Rightarrow> nat" where
  "star_width crosses = (if crosses then 2 else 1)"

function skip_trailing_stars :: "string \<Rightarrow> nat \<Rightarrow> nat" where
  "skip_trailing_stars pat p =
     (if p < length pat \<and> pat ! p = star then skip_trailing_stars pat (p + star_width (crosses_segments pat p)) else p)"
  by pat_completeness auto
termination
  by (relation "measure (\<lambda>(pat, p). length pat - p)") (auto simp: star_width_def)

declare skip_trailing_stars.simps [simp del]

text \<open>The last wildcard met: its place in the pattern, where the path it has swallowed ends, whether it is \<open>**\<close>.\<close>

partial_function (option) glob_loop :: "string \<Rightarrow> string \<Rightarrow> nat \<Rightarrow> nat \<Rightarrow> (nat \<times> nat \<times> bool) option \<Rightarrow> bool option" where
  "glob_loop pat tx p s st =
     (if \<not> s < length tx then Some (skip_trailing_stars pat p = length pat)
      else if p < length pat \<and> pat ! p = star then
        (let crosses = crosses_segments pat p
         in glob_loop pat tx (p + star_width crosses) s (Some (p, s, crosses)))
      else if p < length pat \<and> pat ! p = tx ! s then glob_loop pat tx (p + 1) (s + 1) st
      else case st of
        None \<Rightarrow> Some False
      | Some (sp, ss, crosses) \<Rightarrow>
          if \<not> crosses \<and> tx ! ss = CHR ''/'' then Some False
          else glob_loop pat tx (sp + star_width crosses) (ss + 1) (Some (sp, ss + 1, crosses)))"

declare glob_loop.simps [code]

definition glob_inner :: "string \<Rightarrow> string \<Rightarrow> bool option" where
  "glob_inner pat tx = glob_loop pat tx 0 0 None"

definition glob_match :: "string \<Rightarrow> string \<Rightarrow> bool option" where
  "glob_match pat tx = glob_inner pat tx"

section \<open>What a glob means\<close>

text \<open>A single star matches a run without a separator, a double star any run.\<close>

function gmatch :: "string \<Rightarrow> string \<Rightarrow> bool" where
  "gmatch pat s =
     (case pat of
        [] \<Rightarrow> s = []
      | c # ps \<Rightarrow>
          if c = star then
            (if ps \<noteq> [] \<and> hd ps = star
             then list_ex (\<lambda>i. gmatch (tl ps) (drop i s)) [0 ..< length s + 1]
             else list_ex (\<lambda>i. CHR ''/'' \<notin> set (take i s) \<and> gmatch ps (drop i s)) [0 ..< length s + 1])
          else s \<noteq> [] \<and> hd s = c \<and> gmatch ps (tl s))"
  by pat_completeness auto
termination
  by (relation "measure (\<lambda>(pat, s). length pat)") (auto simp: less_Suc_eq_le)

declare gmatch.simps [simp del]

definition gm :: "string \<Rightarrow> string \<Rightarrow> nat \<Rightarrow> nat \<Rightarrow> bool" where
  "gm pat tx p s = gmatch (drop p pat) (drop s tx)"

lemma gm_end: "gm pat tx p s \<longleftrightarrow> s \<ge> length tx" if "p \<ge> length pat"
  using that by (simp add: gm_def gmatch.simps)

lemma gm_literal:
  assumes "p < length pat" "pat ! p \<noteq> star"
  shows "gm pat tx p s \<longleftrightarrow> s < length tx \<and> tx ! s = pat ! p \<and> gm pat tx (p + 1) (s + 1)"
proof -
  have d: "drop p pat = pat ! p # drop (p + 1) pat" using assms(1) by (simp add: Cons_nth_drop_Suc)
  show ?thesis
  proof (cases "s < length tx")
    case True
    then have "drop s tx = tx ! s # drop (s + 1) tx" by (simp add: Cons_nth_drop_Suc)
    then show ?thesis using True assms(2) unfolding gm_def d by (simp add: gmatch.simps [of "_ # _"])
  qed (use assms(2) in \<open>simp add: gm_def d gmatch.simps [of "_ # _"]\<close>)
qed

text \<open>The run a wildcard at place \<open>p\<close> may swallow from \<open>s\<close> to \<open>j\<close>.\<close>

definition swallows :: "string \<Rightarrow> bool \<Rightarrow> nat \<Rightarrow> nat \<Rightarrow> bool" where
  "swallows tx crosses s j \<longleftrightarrow> s \<le> j \<and> j \<le> length tx \<and> (crosses \<or> (\<forall>i. s \<le> i \<longrightarrow> i < j \<longrightarrow> tx ! i \<noteq> CHR ''/''))"

lemma set_take_drop: "c \<in> set (take i (drop s xs)) \<longleftrightarrow> (\<exists>k. s \<le> k \<and> k < s + i \<and> k < length xs \<and> xs ! k = c)"
proof
  assume "c \<in> set (take i (drop s xs))"
  then obtain k where "k < length (take i (drop s xs))" "take i (drop s xs) ! k = c" by (metis in_set_conv_nth)
  then show "\<exists>k. s \<le> k \<and> k < s + i \<and> k < length xs \<and> xs ! k = c" by (intro exI [of _ "s + k"]) auto
next
  assume "\<exists>k. s \<le> k \<and> k < s + i \<and> k < length xs \<and> xs ! k = c"
  then obtain k where k: "s \<le> k" "k < s + i" "k < length xs" "xs ! k = c" by blast
  then have "k - s < length (take i (drop s xs))" "take i (drop s xs) ! (k - s) = c" by auto
  then show "c \<in> set (take i (drop s xs))" by (metis nth_mem)
qed

lemma list_ex_upt: "list_ex P [0 ..< n + 1] \<longleftrightarrow> (\<exists>i \<le> n. P i)"
  by (auto simp: list_ex_iff less_Suc_eq_le simp del: upt_Suc)

lemma gmatch_star2: "gmatch (star # star # ps) t \<longleftrightarrow> (\<exists>i \<le> length t. gmatch ps (drop i t))"
  by (subst gmatch.simps) (simp add: list_ex_upt del: upt_Suc Suc_eq_plus1 One_nat_def)

lemma gmatch_star1:
  assumes "ps = [] \<or> hd ps \<noteq> star"
  shows "gmatch (star # ps) t \<longleftrightarrow> (\<exists>i \<le> length t. CHR ''/'' \<notin> set (take i t) \<and> gmatch ps (drop i t))"
  using assms by (subst gmatch.simps) (auto simp: list_ex_upt simp del: upt_Suc Suc_eq_plus1 One_nat_def)

lemma gm_star:
  assumes "p < length pat" "pat ! p = star" "s \<le> length tx"
  shows "gm pat tx p s \<longleftrightarrow>
    (\<exists>j. swallows tx (crosses_segments pat p) s j \<and> gm pat tx (p + star_width (crosses_segments pat p)) j)"
proof -
  have d: "drop p pat = star # drop (p + 1) pat" using assms(1,2) by (metis Cons_nth_drop_Suc Suc_eq_plus1)
  have sw: "swallows tx cr s (s + i) \<longleftrightarrow> i \<le> length tx - s \<and> (cr \<or> CHR ''/'' \<notin> set (take i (drop s tx)))" for cr i
    using assms(3) by (auto simp: swallows_def set_take_drop)
  have "gm pat tx p s \<longleftrightarrow> (\<exists>i. swallows tx (crosses_segments pat p) s (s + i) \<and>
      gm pat tx (p + star_width (crosses_segments pat p)) (s + i))"
  proof (cases "crosses_segments pat p")
    case True
    then have "drop (p + 1) pat = star # drop (p + 2) pat"
      by (metis Cons_nth_drop_Suc Suc_eq_plus1 add_2_eq_Suc' crosses_segments_def)
    then show ?thesis using True unfolding gm_def d sw by (simp add: gmatch_star2 star_width_def add.commute)
  next
    case False
    then have "drop (p + 1) pat = [] \<or> hd (drop (p + 1) pat) \<noteq> star"
      by (auto simp: crosses_segments_def hd_drop_conv_nth)
    then show ?thesis using False unfolding gm_def d sw by (simp add: gmatch_star1 star_width_def add.commute conj_assoc)
  qed
  also have "\<dots> \<longleftrightarrow> (\<exists>j. swallows tx (crosses_segments pat p) s j \<and> gm pat tx (p + star_width (crosses_segments pat p)) j)"
    by (metis le_add_diff_inverse swallows_def)
  finally show ?thesis .
qed

lemma skip_trailing_gm: "p \<le> length pat \<Longrightarrow> skip_trailing_stars pat p = length pat \<longleftrightarrow> gm pat tx p (length tx)"
proof (induction pat p rule: skip_trailing_stars.induct)
  case (1 pat p)
  show ?case
  proof (cases "p < length pat \<and> pat ! p = star")
    case True
    let ?w = "star_width (crosses_segments pat p)"
    have w: "p + ?w \<le> length pat" using True by (auto simp: star_width_def crosses_segments_def)
    have "gm pat tx p (length tx) \<longleftrightarrow> gm pat tx (p + ?w) (length tx)"
      using gm_star [of p pat "length tx" tx] True by (auto simp: swallows_def)
    then show ?thesis using 1 True w by (simp add: skip_trailing_stars.simps [of pat p])
  next
    case False
    then have "skip_trailing_stars pat p = p" by (subst skip_trailing_stars.simps) auto
    then show ?thesis
      using False 1(2) gm_literal [of p pat tx "length tx"] gm_end [of pat p tx "length tx"]
      by (cases "p < length pat") auto
  qed
qed

section \<open>The loop returns, and what it finds is a match\<close>

text \<open>What the loop keeps: its indices stay in range, and the wildcard it would come back to stands before \<open>p\<close>.\<close>

definition glob_inv :: "string \<Rightarrow> string \<Rightarrow> nat \<Rightarrow> nat \<Rightarrow> (nat \<times> nat \<times> bool) option \<Rightarrow> bool" where
  "glob_inv pat tx p s st \<longleftrightarrow> p \<le> length pat \<and> s \<le> length tx \<and>
     (case st of None \<Rightarrow> True
      | Some (sp, ss, cr) \<Rightarrow> sp < length pat \<and> pat ! sp = star \<and> cr = crosses_segments pat sp \<and>
          sp + star_width cr \<le> p \<and> ss \<le> s)"

definition glob_rank :: "string \<Rightarrow> string \<Rightarrow> nat \<Rightarrow> nat \<Rightarrow> (nat \<times> nat \<times> bool) option \<Rightarrow> nat \<times> nat \<times> nat" where
  "glob_rank pat tx p s st =
     (case st of None \<Rightarrow> (length pat, 0, length tx - s + (length pat - p))
      | Some (sp, ss, cr) \<Rightarrow> (length pat - (sp + star_width cr), length tx - ss, length tx - s + (length pat - p)))"

text \<open>The matches the last wildcard could still find by swallowing more.\<close>

definition glob_alt :: "string \<Rightarrow> string \<Rightarrow> (nat \<times> nat \<times> bool) option \<Rightarrow> bool" where
  "glob_alt pat tx st \<longleftrightarrow>
     (case st of None \<Rightarrow> False
      | Some (sp, ss, cr) \<Rightarrow> \<exists>j > ss. swallows tx cr ss j \<and> gm pat tx (sp + star_width cr) j)"

lemma star_width_pos [simp]: "0 < star_width cr"
  by (simp add: star_width_def)

lemma star_width_le: "p < length pat \<Longrightarrow> p + star_width (crosses_segments pat p) \<le> length pat"
  by (auto simp: star_width_def crosses_segments_def)

lemma swallows_refl: "swallows tx cr s s \<longleftrightarrow> s \<le> length tx"
  by (auto simp: swallows_def)

lemma swallows_step:
  assumes "j > s"
  shows "swallows tx cr s j \<longleftrightarrow> (cr \<or> tx ! s \<noteq> CHR ''/'') \<and> swallows tx cr (s + 1) j"
proof -
  have "(\<forall>i. s \<le> i \<longrightarrow> i < j \<longrightarrow> Q i) \<longleftrightarrow> Q s \<and> (\<forall>i. s + 1 \<le> i \<longrightarrow> i < j \<longrightarrow> Q i)" for Q
    using assms by (metis Suc_eq_plus1 Suc_leD Suc_leI le_neq_implies_less order_refl)
  then show ?thesis using assms unfolding swallows_def by auto
qed

lemma swallows_now_or_later:
  "s \<le> length tx \<Longrightarrow> (\<exists>j. swallows tx cr s j \<and> Q j) \<longleftrightarrow> Q s \<or> (\<exists>j > s. swallows tx cr s j \<and> Q j)"
  by (metis le_neq_implies_less swallows_def swallows_refl)

lemma gm_star_alt:
  assumes "p < length pat" "pat ! p = star" "s \<le> length tx"
  shows "gm pat tx p s \<longleftrightarrow>
    gm pat tx (p + star_width (crosses_segments pat p)) s \<or> glob_alt pat tx (Some (p, s, crosses_segments pat p))"
  unfolding gm_star [OF assms] glob_alt_def
  by (simp add: swallows_now_or_later [OF assms(3)])

lemma glob_alt_step:
  assumes "ss < length tx"
  shows "glob_alt pat tx (Some (sp, ss, cr)) \<longleftrightarrow> (cr \<or> tx ! ss \<noteq> CHR ''/'') \<and>
    (gm pat tx (sp + star_width cr) (ss + 1) \<or> glob_alt pat tx (Some (sp, ss + 1, cr)))"
proof -
  have "glob_alt pat tx (Some (sp, ss, cr)) \<longleftrightarrow>
      (\<exists>j > ss. (cr \<or> tx ! ss \<noteq> CHR ''/'') \<and> swallows tx cr (ss + 1) j \<and> gm pat tx (sp + star_width cr) j)"
    by (auto simp: glob_alt_def swallows_step)
  also have "\<dots> \<longleftrightarrow> (cr \<or> tx ! ss \<noteq> CHR ''/'') \<and> (\<exists>j. swallows tx cr (ss + 1) j \<and> gm pat tx (sp + star_width cr) j)"
    by (auto simp: swallows_def Suc_le_eq)
  finally show ?thesis using swallows_now_or_later [of "ss + 1" tx] assms by (simp add: glob_alt_def)
qed

lemma gm_mismatch:
  assumes "p \<le> length pat" "s < length tx" "\<not> (p < length pat \<and> pat ! p = star)" "\<not> (p < length pat \<and> pat ! p = tx ! s)"
  shows "\<not> gm pat tx p s"
  using assms gm_end [of pat p tx s] gm_literal [of p pat tx s] by (cases "p < length pat") auto

text \<open>The four ways a round of the loop goes, over any state that satisfies the invariant.\<close>

lemma glob_loop_induct [consumes 1, case_names ended star literal fail swallow]:
  assumes inv: "glob_inv pat tx p s st"
    and ended: "\<And>p st. glob_inv pat tx p (length tx) st \<Longrightarrow> P p (length tx) st"
    and star: "\<And>p s st. \<lbrakk>glob_inv pat tx p s st; s < length tx; p < length pat; pat ! p = star;
        P (p + star_width (crosses_segments pat p)) s (Some (p, s, crosses_segments pat p))\<rbrakk> \<Longrightarrow> P p s st"
    and literal: "\<And>p s st. \<lbrakk>glob_inv pat tx p s st; s < length tx; p < length pat; pat ! p \<noteq> star; pat ! p = tx ! s;
        P (p + 1) (s + 1) st\<rbrakk> \<Longrightarrow> P p s st"
    and fail: "\<And>p s. \<lbrakk>glob_inv pat tx p s None; s < length tx; \<not> (p < length pat \<and> pat ! p = star);
        \<not> (p < length pat \<and> pat ! p = tx ! s)\<rbrakk> \<Longrightarrow> P p s None"
    and swallow: "\<And>p s sp ss cr. \<lbrakk>glob_inv pat tx p s (Some (sp, ss, cr)); s < length tx;
        \<not> (p < length pat \<and> pat ! p = star); \<not> (p < length pat \<and> pat ! p = tx ! s);
        cr \<or> tx ! ss \<noteq> CHR ''/'' \<Longrightarrow> P (sp + star_width cr) (ss + 1) (Some (sp, ss + 1, cr))\<rbrakk>
        \<Longrightarrow> P p s (Some (sp, ss, cr))"
  shows "P p s st"
  using inv
proof (induction "glob_rank pat tx p s st" arbitrary: p s st
    rule: wf_induct_rule [OF wf_lex_prod [OF wf_less_than wf_lex_prod [OF wf_less_than wf_less_than]]])
  case (1 p s st)
  note i = 1(2)
  consider (ended) "s = length tx" | (star) "s < length tx" "p < length pat" "pat ! p = star"
    | (literal) "s < length tx" "p < length pat" "pat ! p \<noteq> star" "pat ! p = tx ! s"
    | (other) "s < length tx" "\<not> (p < length pat \<and> pat ! p = star)" "\<not> (p < length pat \<and> pat ! p = tx ! s)"
    using i unfolding glob_inv_def by (metis le_neq_implies_less)
  then show ?case
  proof cases
    case ended
    with i show ?thesis using assms(2) by simp
  next
    case star
    let ?st = "Some (p, s, crosses_segments pat p)" and ?p = "p + star_width (crosses_segments pat p)"
    have "glob_inv pat tx ?p s ?st" using star i star_width_le by (auto simp: glob_inv_def)
    moreover have "(glob_rank pat tx ?p s ?st, glob_rank pat tx p s st) \<in> less_than <*lex*> less_than <*lex*> less_than"
      using star i star_width_le [OF star(2)] star_width_pos [of "crosses_segments pat p"]
      unfolding glob_inv_def glob_rank_def by (auto simp del: star_width_pos split: option.splits)
    ultimately show ?thesis using assms(3) [OF i star] 1(1) by blast
  next
    case literal
    have "glob_inv pat tx (p + 1) (s + 1) st" using literal i by (auto simp: glob_inv_def split: option.splits)
    moreover have "(glob_rank pat tx (p + 1) (s + 1) st, glob_rank pat tx p s st) \<in> less_than <*lex*> less_than <*lex*> less_than"
      using literal i by (auto simp: glob_inv_def glob_rank_def split: option.splits)
    ultimately show ?thesis using assms(4) [OF i literal] 1(1) by blast
  next
    case other
    show ?thesis
    proof (cases st)
      case None
      then show ?thesis using i other assms(5) by blast
    next
      case (Some t)
      obtain sp ss cr where t: "t = (sp, ss, cr)" by (metis prod_cases3)
      have j: "glob_inv pat tx p s (Some (sp, ss, cr))" using i Some t by simp
      have "glob_inv pat tx (sp + star_width cr) (ss + 1) (Some (sp, ss + 1, cr))"
        using j other by (auto simp: glob_inv_def)
      moreover have "(glob_rank pat tx (sp + star_width cr) (ss + 1) (Some (sp, ss + 1, cr)), glob_rank pat tx p s st)
          \<in> less_than <*lex*> less_than <*lex*> less_than"
        using j other unfolding Some t by (auto simp: glob_inv_def glob_rank_def)
      ultimately have "P (sp + star_width cr) (ss + 1) (Some (sp, ss + 1, cr))" using 1(1) by blast
      then show ?thesis using assms(6) [OF j other] Some t by blast
    qed
  qed
qed

lemma glob_loop_done: "glob_loop pat tx p (length tx) st = Some (skip_trailing_stars pat p = length pat)"
  by (subst glob_loop.simps) simp

lemma glob_loop_star:
  "\<lbrakk>s < length tx; p < length pat; pat ! p = star\<rbrakk> \<Longrightarrow> glob_loop pat tx p s st =
     glob_loop pat tx (p + star_width (crosses_segments pat p)) s (Some (p, s, crosses_segments pat p))"
  by (subst glob_loop.simps) (simp add: Let_def)

lemma glob_loop_literal:
  "\<lbrakk>s < length tx; p < length pat; pat ! p \<noteq> star; pat ! p = tx ! s\<rbrakk> \<Longrightarrow>
     glob_loop pat tx p s st = glob_loop pat tx (p + 1) (s + 1) st"
  by (subst glob_loop.simps) simp

lemma glob_loop_other:
  assumes "s < length tx" "\<not> (p < length pat \<and> pat ! p = star)" "\<not> (p < length pat \<and> pat ! p = tx ! s)"
  shows "glob_loop pat tx p s st = (case st of None \<Rightarrow> Some False
    | Some (sp, ss, cr) \<Rightarrow> if \<not> cr \<and> tx ! ss = CHR ''/'' then Some False
        else glob_loop pat tx (sp + star_width cr) (ss + 1) (Some (sp, ss + 1, cr)))"
proof -
  have c: "(p < length pat \<and> pat ! p = star) = False" "(p < length pat \<and> pat ! p = tx ! s) = False" "(\<not> s < length tx) = False"
    using assms by auto
  show ?thesis by (subst glob_loop.simps) (simp only: c if_False)
qed

lemmas glob_loop_rounds = glob_loop_done glob_loop_star glob_loop_literal glob_loop_other

lemma glob_loop_returns: "glob_inv pat tx p s st \<Longrightarrow> \<exists>b. glob_loop pat tx p s st = Some b"
  by (induction rule: glob_loop_induct) (auto simp: glob_loop_rounds)

lemma glob_loop_sound:
  assumes "glob_inv pat tx p s st" "glob_loop pat tx p s st = Some True"
  shows "gm pat tx p s \<or> glob_alt pat tx st"
  using assms
proof (induction rule: glob_loop_induct)
  case (ended p st)
  then show ?case using skip_trailing_gm [of p pat tx] by (simp add: glob_loop_done glob_inv_def)
next
  case (star p s st)
  then show ?case using gm_star_alt [of p pat s tx] by (simp add: glob_loop_star)
next
  case (literal p s st)
  then show ?case using gm_literal [of p pat tx s] by (simp add: glob_loop_literal)
next
  case (fail p s)
  then show ?case by (simp add: glob_loop_other)
next
  case (swallow p s sp ss cr)
  then have "ss < length tx" by (simp add: glob_inv_def)
  with swallow show ?case using glob_alt_step [of ss tx pat sp cr] by (auto simp: glob_loop_other split: if_splits)
qed

section \<open>When the loop finds every match\<close>

text \<open>The loop only comes back to the last wildcard.  A single star that has met a separator gives up although an
  earlier \<open>**\<close> could swallow more; the patterns where no single star follows a \<open>**\<close> are the ones it decides.\<close>

fun stars_ordered :: "bool \<Rightarrow> string \<Rightarrow> bool" where
  "stars_ordered seen [] = True"
| "stars_ordered seen (c # ps) =
     (if c = star \<and> ps \<noteq> [] \<and> hd ps = star then stars_ordered True (tl ps)
      else if c = star then \<not> seen \<and> stars_ordered False ps
      else stars_ordered seen ps)"

definition seen_double :: "(nat \<times> nat \<times> bool) option \<Rightarrow> bool" where
  "seen_double st = (case st of None \<Rightarrow> False | Some (sp, ss, cr) \<Rightarrow> cr)"

text \<open>The stretch of the pattern between the last wildcard and \<open>p\<close> is literal, and the path holds it before \<open>s\<close>.\<close>

definition literal_run :: "string \<Rightarrow> string \<Rightarrow> nat \<Rightarrow> nat \<Rightarrow> (nat \<times> nat \<times> bool) option \<Rightarrow> bool" where
  "literal_run pat tx p s st =
     (case st of None \<Rightarrow> True
      | Some (sp, ss, cr) \<Rightarrow> (let a = sp + star_width cr in
          p - a = s - ss \<and> (\<forall>k < p - a. pat ! (a + k) \<noteq> star \<and> tx ! (ss + k) = pat ! (a + k))))"

lemma stars_ordered_literal:
  "\<lbrakk>p < length pat; pat ! p \<noteq> star; stars_ordered seen (drop p pat)\<rbrakk> \<Longrightarrow> stars_ordered seen (drop (p + 1) pat)"
  by (auto simp: Cons_nth_drop_Suc [symmetric])

lemma stars_ordered_star:
  assumes "p < length pat" "pat ! p = star" "stars_ordered seen (drop p pat)"
  shows "stars_ordered (crosses_segments pat p) (drop (p + star_width (crosses_segments pat p)) pat)"
    and "seen \<Longrightarrow> crosses_segments pat p"
proof -
  have d: "drop p pat = star # drop (p + 1) pat" using assms(1,2) by (metis Cons_nth_drop_Suc Suc_eq_plus1)
  have c: "crosses_segments pat p \<longleftrightarrow> drop (p + 1) pat \<noteq> [] \<and> hd (drop (p + 1) pat) = star"
    by (auto simp: crosses_segments_def hd_drop_conv_nth)
  have t: "tl (drop (p + 1) pat) = drop (p + 2) pat" by (simp add: tl_drop drop_Suc)
  show "stars_ordered (crosses_segments pat p) (drop (p + star_width (crosses_segments pat p)) pat)"
    using assms(3) c t unfolding d by (cases "crosses_segments pat p") (auto simp: star_width_def)
  show "seen \<Longrightarrow> crosses_segments pat p"
    using assms(3) c unfolding d by (auto split: if_splits)
qed

lemma gm_run:
  assumes "a + n \<le> length pat" "\<forall>k < n. pat ! (a + k) \<noteq> star" "gm pat tx a j"
  shows "gm pat tx (a + n) (j + n) \<and> (\<forall>k < n. j + k < length tx \<and> tx ! (j + k) = pat ! (a + k))"
  using assms
proof (induction n)
  case (Suc n)
  then have "gm pat tx (a + n) (j + n) \<and> (\<forall>k < n. j + k < length tx \<and> tx ! (j + k) = pat ! (a + k))" by simp
  then show ?case using gm_literal [of "a + n" pat tx "j + n"] Suc.prems(1,2) by (auto simp: less_Suc_eq)
qed simp

lemma gm_run_end: "gm pat tx a j \<Longrightarrow> a + n \<le> length pat \<Longrightarrow> \<forall>k < n. pat ! (a + k) \<noteq> star \<Longrightarrow> j \<le> length tx \<Longrightarrow> j + n \<le> length tx"
  using gm_run [of a n pat tx j] by (cases n) auto

lemma gm_star_earlier:
  assumes "p < length pat" "pat ! p = star" "swallows tx (crosses_segments pat p) s t" "gm pat tx p t"
  shows "gm pat tx p s"
proof -
  let ?c = "crosses_segments pat p"
  have b: "s \<le> length tx" "t \<le> length tx" using assms(3) by (auto simp: swallows_def)
  obtain j where j: "swallows tx ?c t j" "gm pat tx (p + star_width ?c) j" using assms(1,2,4) b gm_star by blast
  have "swallows tx ?c s j" using assms(3) j(1) unfolding swallows_def by (meson le_trans not_le)
  then show ?thesis using assms(1,2) b j(2) gm_star by blast
qed

text \<open>A word that stands at \<open>u\<close> and again at a later \<open>j\<close> with no separator from \<open>u\<close> to \<open>j\<close> has no separator in it.\<close>

lemma repeated_word_no_separator:
  assumes "u < j" "\<And>i. u \<le> i \<Longrightarrow> i < j \<Longrightarrow> xs ! i \<noteq> c"
    and "\<And>k. k < n \<Longrightarrow> xs ! (u + k) = w k" "\<And>k. k < n \<Longrightarrow> xs ! (j + k) = w k" and "k < n"
  shows "w k \<noteq> c"
  using assms(5)
proof (induction k rule: less_induct)
  case (less k)
  show ?case
  proof (cases "u + k < j")
    case True
    then show ?thesis using assms(2) [of "u + k"] assms(3) [OF less.prems] by simp
  next
    case False
    define m where "m = u + k - j"
    have m: "j + m = u + k" "m < k" using False assms(1) by (auto simp: m_def)
    then have "w m = w k" using assms(3) [OF less.prems] assms(4) [of m] less.prems by simp
    then show ?thesis using less.IH [OF m(2)] m(2) less.prems by simp
  qed
qed

text \<open>A match the last wildcard finds later is a match from the next wildcard on, so that forgetting the last one
  loses nothing: a single star that may skip text holding the separator would have met it in the literal stretch.\<close>

lemma glob_alt_next_star:
  assumes inv: "glob_inv pat tx p s (Some (sp, ss, cr))" and run: "literal_run pat tx p s (Some (sp, ss, cr))"
    and star: "p < length pat" "pat ! p = star" "cr \<Longrightarrow> crosses_segments pat p"
    and alt: "glob_alt pat tx (Some (sp, ss, cr))"
  shows "gm pat tx p s"
proof -
  let ?a = "sp + star_width cr" and ?n = "s - ss"
  have n: "?a + ?n = p" "ss + ?n = s" and lit: "\<And>k. k < ?n \<Longrightarrow> pat ! (?a + k) \<noteq> star \<and> tx ! (ss + k) = pat ! (?a + k)"
    using inv run by (auto simp: glob_inv_def literal_run_def Let_def)
  obtain j where j: "ss < j" "swallows tx cr ss j" "gm pat tx ?a j" using alt by (auto simp: glob_alt_def)
  have g: "gm pat tx p (j + ?n)" and copy: "\<And>k. k < ?n \<Longrightarrow> tx ! (j + k) = pat ! (?a + k)"
    using gm_run [of ?a ?n pat tx j] n lit j(3) star(1) by auto
  have le: "j + ?n \<le> length tx" using gm_run_end [OF j(3), of ?n] n lit star(1) j(2) by (auto simp: swallows_def)
  have nosep: "tx ! i \<noteq> CHR ''/''" if i: "s \<le> i" "i < j + ?n" and ncr: "\<not> cr" for i
  proof (cases "i < j")
    case True
    then show ?thesis using j(2) i(1) ncr inv by (auto simp: swallows_def glob_inv_def)
  next
    case False
    have "\<And>i. ss \<le> i \<Longrightarrow> i < j \<Longrightarrow> tx ! i \<noteq> CHR ''/''" using j(2) ncr by (auto simp: swallows_def)
    then have "pat ! (?a + (i - j)) \<noteq> CHR ''/''"
      using repeated_word_no_separator [of ss j tx _ ?n "\<lambda>k. pat ! (?a + k)" "i - j"] j(1) lit copy False i(2) by simp
    then show ?thesis using copy [of "i - j"] False i by simp
  qed
  have "swallows tx (crosses_segments pat p) s (j + ?n)"
    using j(1) le n nosep star(3) by (auto simp: swallows_def)
  then show ?thesis using gm_star_earlier [OF star(1,2)] g by blast
qed

lemma glob_alt_exhausted:
  assumes "glob_inv pat tx p (length tx) st" "literal_run pat tx p (length tx) st"
  shows "\<not> glob_alt pat tx st"
proof
  assume alt: "glob_alt pat tx st"
  then obtain sp ss cr j where st: "st = Some (sp, ss, cr)" and j: "ss < j" "swallows tx cr ss j" "gm pat tx (sp + star_width cr) j"
    by (auto simp: glob_alt_def split: option.splits)
  let ?a = "sp + star_width cr" and ?n = "length tx - ss"
  have n: "?a + ?n = p" "p \<le> length pat" "ss \<le> length tx" and lit: "\<forall>k < ?n. pat ! (?a + k) \<noteq> star"
    using assms unfolding st by (auto simp: glob_inv_def literal_run_def Let_def)
  have "j + ?n \<le> length tx" using gm_run_end [OF j(3), of ?n] n lit j(2) by (auto simp: swallows_def)
  then show False using j(1) n by simp
qed

text \<open>The state of the loop on a pattern it decides.\<close>

definition glob_decided :: "string \<Rightarrow> string \<Rightarrow> nat \<Rightarrow> nat \<Rightarrow> (nat \<times> nat \<times> bool) option \<Rightarrow> bool" where
  "glob_decided pat tx p s st \<longleftrightarrow> literal_run pat tx p s st \<and> stars_ordered (seen_double st) (drop p pat) \<and>
     (case st of None \<Rightarrow> True | Some (sp, ss, cr) \<Rightarrow> stars_ordered cr (drop (sp + star_width cr) pat))"

lemma literal_run_next:
  assumes "literal_run pat tx p s st" "glob_inv pat tx p s st" "pat ! p \<noteq> star" "pat ! p = tx ! s"
  shows "literal_run pat tx (p + 1) (s + 1) st"
proof (cases st)
  case (Some t)
  obtain sp ss cr where t: "t = (sp, ss, cr)" by (metis prod_cases3)
  let ?a = "sp + star_width cr"
  have e: "p = ?a + (p - ?a)" "s = ss + (p - ?a)" "p + 1 - ?a = Suc (p - ?a)" "s + 1 - ss = Suc (p - ?a)"
    using assms(1,2) unfolding Some t by (auto simp: literal_run_def glob_inv_def Let_def)
  have "\<forall>k < Suc (p - ?a). pat ! (?a + k) \<noteq> star \<and> tx ! (ss + k) = pat ! (?a + k)"
    using assms(1,3,4) e(1,2) unfolding Some t literal_run_def by (auto simp: less_Suc_eq Let_def)
  then show ?thesis unfolding Some t literal_run_def by (simp only: option.case prod.case Let_def e(3,4) simp_thms)
qed (simp add: literal_run_def)

lemma glob_loop_complete:
  assumes "glob_inv pat tx p s st" "glob_decided pat tx p s st" "gm pat tx p s \<or> glob_alt pat tx st"
  shows "glob_loop pat tx p s st = Some True"
  using assms
proof (induction rule: glob_loop_induct)
  case (ended p st)
  then show ?case using skip_trailing_gm [of p pat tx] glob_alt_exhausted [of pat tx p st]
    by (auto simp: glob_loop_done glob_inv_def glob_decided_def)
next
  case (star p s st)
  note o = stars_ordered_star [OF star(3,4), of "seen_double st"]
  have "gm pat tx p s" if alt: "glob_alt pat tx st"
  proof -
    obtain sp ss cr where st: "st = Some (sp, ss, cr)" using alt by (cases st) (auto simp: glob_alt_def)
    show ?thesis
      using glob_alt_next_star [of pat tx p s sp ss cr] star(1,3,4) star.prems(1) alt o(2)
      unfolding st glob_decided_def seen_double_def by simp
  qed
  then have "gm pat tx p s" using star.prems by blast
  then have "gm pat tx (p + star_width (crosses_segments pat p)) s \<or> glob_alt pat tx (Some (p, s, crosses_segments pat p))"
    using gm_star_alt star by simp
  moreover have "glob_decided pat tx (p + star_width (crosses_segments pat p)) s (Some (p, s, crosses_segments pat p))"
    using o(1) star.prems(1) by (simp add: glob_decided_def literal_run_def seen_double_def)
  ultimately show ?case using star.IH star(2-4) by (simp add: glob_loop_star)
next
  case (literal p s st)
  have "glob_decided pat tx (p + 1) (s + 1) st"
    using literal literal_run_next stars_ordered_literal by (simp add: glob_decided_def)
  then show ?case using literal gm_literal [of p pat tx s] by (simp add: glob_loop_literal)
next
  case (fail p s)
  then show ?case using gm_mismatch [of p pat s tx] by (simp add: glob_alt_def glob_inv_def)
next
  case (swallow p s sp ss cr)
  have ss: "ss < length tx" using swallow by (simp add: glob_inv_def)
  have "glob_alt pat tx (Some (sp, ss, cr))" using swallow gm_mismatch [of p pat s tx] by (simp add: glob_inv_def)
  then have a: "cr \<or> tx ! ss \<noteq> CHR ''/''"
      "gm pat tx (sp + star_width cr) (ss + 1) \<or> glob_alt pat tx (Some (sp, ss + 1, cr))"
    using glob_alt_step [OF ss] by blast+
  have "glob_decided pat tx (sp + star_width cr) (ss + 1) (Some (sp, ss + 1, cr))"
    using swallow.prems(1) by (simp add: glob_decided_def literal_run_def seen_double_def)
  then show ?case using swallow.IH [OF a(1) _ a(2)] a(1) swallow(2-4) by (auto simp: glob_loop_other)
qed

lemma glob_inv_start: "glob_inv pat tx 0 0 None"
  by (simp add: glob_inv_def)

text \<open>The matcher returns on every pattern and path; what it accepts is a match; on patterns where no single
  star follows a \<open>**\<close> it accepts every match.\<close>

theorem glob_match_decides:
  shows "\<exists>b. glob_match pat tx = Some b \<and> (b \<longrightarrow> gmatch pat tx) \<and> (stars_ordered False pat \<longrightarrow> b = gmatch pat tx)"
proof -
  obtain b where b: "glob_loop pat tx 0 0 None = Some b" using glob_loop_returns [OF glob_inv_start] by blast
  have "b \<longrightarrow> gmatch pat tx"
    using glob_loop_sound [OF glob_inv_start] b by (auto simp: gm_def glob_alt_def)
  moreover have "stars_ordered False pat \<longrightarrow> gmatch pat tx \<longrightarrow> b"
    using glob_loop_complete [OF glob_inv_start] b
    by (auto simp: gm_def glob_decided_def literal_run_def seen_double_def)
  ultimately show ?thesis using b by (auto simp: glob_match_def glob_inner_def)
qed

text \<open>Beyond those patterns it misses matches: a \<open>**\<close> followed by a single star no longer crosses segments.\<close>

definition deep_pattern :: string where "deep_pattern = ''**/*.c''"
definition deep_path :: string where "deep_path = ''a/b/x.c''"

lemma glob_double_star_misses:
  "gmatch deep_pattern deep_path" "glob_match deep_pattern deep_path = Some False"
  unfolding deep_pattern_def deep_path_def glob_match_def glob_inner_def
  by code_simp+

section \<open>Gathering the records of a feed\<close>

text \<open>
  \<open>chain\<close> answers the on-chain lookup \<open>xid_signers::resolve\<close> of a label under a top-level name, \<open>walk\<close> is the
  answer of the directory walk for content.json files.
\<close>

definition resolve_xid_map :: "ext \<Rightarrow> (string \<Rightarrow> string \<Rightarrow> string list) \<Rightarrow> dir_path \<Rightarrow> disk_files \<Rightarrow> string \<Rightarrow>
    (string \<rightharpoonup> string list)" where
  "resolve_xid_map E chain root fs content_inner_path =
     (let parent_path = parent_content_path content_inner_path;
          parent = unwrap_or (obind (st_read root fs parent_path) (ex_parse E)) (JObj [(''inner_path'', JStr parent_path)])
      in foldl (\<lambda>xid_map name.
            let (label, tld) = unwrap_or (rsplit_once CHR ''.'' name) (name, ''epix'');
                signers = chain label tld
            in if signers = [] then xid_map else xid_map(name \<mapsto> signers))
          Map.empty (user_content_xid_names parent content_inner_path))"

definition matching_merge_paths :: "json \<Rightarrow> string \<Rightarrow> feed_descriptor \<Rightarrow> string list" where
  "matching_merge_paths content dir desc =
     filter (\<lambda>mpath. glob_match (fd_files desc) mpath = Some True)
       (map (\<lambda>rel. if dir = [] then rel else dir @ ''/'' @ rel) (declared_merge_files content))"

definition unit_signers :: "ext \<Rightarrow> (string \<Rightarrow> string \<Rightarrow> string list) \<Rightarrow> xite \<Rightarrow> disk_files \<Rightarrow> string \<Rightarrow> string list" where
  "unit_signers E chain view fs content_path =
     valid_signers_for E view fs content_path (resolve_xid_map E chain (xi_root view) fs content_path)"

text \<open>One merge file: the signers of the unit are resolved when a file first holds records of this feed, and kept.\<close>

definition feed_records_from_merge_file :: "ext \<Rightarrow> (string \<Rightarrow> string \<Rightarrow> string list) \<Rightarrow> xite \<Rightarrow> disk_files \<Rightarrow>
    feed_descriptor \<Rightarrow> string \<Rightarrow> int \<Rightarrow> string \<Rightarrow> string list option \<times> feed_record list \<Rightarrow> string list option \<times> feed_record list" where
  "feed_records_from_merge_file E chain view fs desc content_path now mpath acc =
     (case acc of (signers, out) \<Rightarrow>
       (case obind (st_read (xi_root view) fs mpath) (ex_parse E) of
          None \<Rightarrow> (signers, out)
        | Some container \<Rightarrow>
            if unwrap_or (get_str container ''record_format'') [] \<noteq> fd_record_format desc then (signers, out)
            else (case obind (j_get container (fd_record_key desc)) as_array of
                    None \<Rightarrow> (signers, out)
                  | Some recs \<Rightarrow>
                      let sg = (case signers of Some sg \<Rightarrow> sg
                        | None \<Rightarrow> unit_signers E chain view fs content_path)
                      in (Some sg, out @ filter_map (gather_record (ex_verify E) (ex_keccak E) desc sg now) recs))))"

definition unit_dir :: "string \<Rightarrow> string" where
  "unit_dir content_path =
     rev (dropWhile (\<lambda>c. c = slash) (rev (unwrap_or (strip_suffix ''content.json'' content_path) [])))"

definition gather_unit :: "ext \<Rightarrow> (string \<Rightarrow> string \<Rightarrow> string list) \<Rightarrow> xite \<Rightarrow> disk_files \<Rightarrow> feed_descriptor \<Rightarrow> int \<Rightarrow>
    string \<Rightarrow> feed_record list \<Rightarrow> feed_record list" where
  "gather_unit E chain view fs desc now content_path out =
     (case obind (st_read (xi_root view) fs content_path) (ex_parse E) of
        None \<Rightarrow> out
      | Some content \<Rightarrow>
          snd (fold (feed_records_from_merge_file E chain view fs desc content_path now)
            (matching_merge_paths content (unit_dir content_path) desc) (None, out)))"

definition gather_feed_records :: "ext \<Rightarrow> (string \<Rightarrow> string \<Rightarrow> string list) \<Rightarrow> xite option \<Rightarrow> disk_files \<Rightarrow> string list \<Rightarrow>
    feed_descriptor \<Rightarrow> int \<Rightarrow> feed_record list" where
  "gather_feed_records E chain view fs walk desc now =
     (case view of None \<Rightarrow> [] | Some x \<Rightarrow> fold (gather_unit E chain x fs desc now) walk [])"

definition feed_descriptors :: "json option \<Rightarrow> feed_descriptor list" where
  "feed_descriptors content =
     (case obind content (\<lambda>c. get_obj c ''feeds'') of
        None \<Rightarrow> []
      | Some feeds \<Rightarrow>
          filter_map (\<lambda>(name, obj). parse_descriptor name obj (map_of feeds ''_common''))
            (filter (\<lambda>(name, _). name \<noteq> ''_common'') feeds))"

text \<open>What a merge file holds for a feed.\<close>

definition merge_file_holds :: "ext \<Rightarrow> xite \<Rightarrow> disk_files \<Rightarrow> feed_descriptor \<Rightarrow> string \<Rightarrow> json list" where
  "merge_file_holds E view fs desc mpath =
     (case obind (st_read (xi_root view) fs mpath) (ex_parse E) of
        None \<Rightarrow> []
      | Some container \<Rightarrow>
          if unwrap_or (get_str container ''record_format'') [] \<noteq> fd_record_format desc then []
          else unwrap_or (obind (j_get container (fd_record_key desc)) as_array) [])"

lemma merge_file_step:
  assumes "signers \<in> {None, Some (unit_signers E chain view fs cp)}"
  shows "\<exists>signers' \<in> {None, Some (unit_signers E chain view fs cp)}.
    feed_records_from_merge_file E chain view fs desc cp now mpath (signers, out) =
      (signers', out @ filter_map (gather_record (ex_verify E) (ex_keccak E) desc (unit_signers E chain view fs cp) now)
        (merge_file_holds E view fs desc mpath))"
proof -
  have c: "(case signers of Some sg \<Rightarrow> sg | None \<Rightarrow> unit_signers E chain view fs cp) = unit_signers E chain view fs cp"
    using assms by (cases signers) auto
  show ?thesis
  proof (cases "obind (st_read (xi_root view) fs mpath) (ex_parse E)")
    case None
    then show ?thesis using assms by (simp add: feed_records_from_merge_file_def merge_file_holds_def)
  next
    case (Some j)
    show ?thesis
      by (cases "obind (j_get j (fd_record_key desc)) as_array")
        (use assms in \<open>simp_all add: feed_records_from_merge_file_def merge_file_holds_def Some Let_def c\<close>)
  qed
qed

lemma merge_files_fold:
  assumes "signers \<in> {None, Some (unit_signers E chain view fs cp)}"
  shows "snd (fold (feed_records_from_merge_file E chain view fs desc cp now) mps (signers, out)) =
    out @ concat (map (\<lambda>m. filter_map (gather_record (ex_verify E) (ex_keccak E) desc (unit_signers E chain view fs cp) now)
        (merge_file_holds E view fs desc m)) mps)"
  using assms
proof (induction mps arbitrary: signers out)
  case (Cons m mps)
  obtain signers' where s: "signers' \<in> {None, Some (unit_signers E chain view fs cp)}"
    "feed_records_from_merge_file E chain view fs desc cp now m (signers, out) =
      (signers', out @ filter_map (gather_record (ex_verify E) (ex_keccak E) desc (unit_signers E chain view fs cp) now)
        (merge_file_holds E view fs desc m))"
    using merge_file_step [OF Cons.prems] by metis
  show ?case using Cons.IH [OF s(1)] by (simp add: s(2))
qed simp

text \<open>The declared merge files of a unit, as full inner paths.\<close>

definition unit_merge_files :: "ext \<Rightarrow> xite \<Rightarrow> disk_files \<Rightarrow> string \<Rightarrow> string list" where
  "unit_merge_files E view fs cp =
     (case obind (st_read (xi_root view) fs cp) (ex_parse E) of
        None \<Rightarrow> []
      | Some content \<Rightarrow> map (\<lambda>rel. if unit_dir cp = [] then rel else unit_dir cp @ ''/'' @ rel) (declared_merge_files content))"

lemma gather_unit_eq:
  "gather_unit E chain view fs desc now cp out = out @ concat (map (\<lambda>m.
      filter_map (gather_record (ex_verify E) (ex_keccak E) desc (unit_signers E chain view fs cp) now) (merge_file_holds E view fs desc m))
     (filter (\<lambda>m. glob_match (fd_files desc) m = Some True) (unit_merge_files E view fs cp)))"
  by (cases "obind (st_read (xi_root view) fs cp) (ex_parse E)")
    (simp_all add: gather_unit_def unit_merge_files_def matching_merge_paths_def merge_files_fold)

lemma gather_fold:
  "fold (gather_unit E chain view fs desc now) walk out = out @ concat (map (\<lambda>cp. gather_unit E chain view fs desc now cp []) walk)"
  by (induction walk arbitrary: out) (simp_all add: gather_unit_eq)

lemma gathered_iff:
  "r \<in> set (gather_feed_records E chain (Some view) fs walk desc now) \<longleftrightarrow>
   (\<exists>cp \<in> set walk. \<exists>m \<in> set (unit_merge_files E view fs cp). glob_match (fd_files desc) m = Some True \<and>
      (\<exists>j \<in> set (merge_file_holds E view fs desc m).
         gather_record (ex_verify E) (ex_keccak E) desc (unit_signers E chain view fs cp) now j = Some r))"
  unfolding gather_feed_records_def
  by (simp add: gather_fold) (auto simp: gather_unit_eq set_filter_map)

text \<open>
  A record a feed should hold: some unit found by the walk declares a merge file the descriptor's glob
  matches, and that file holds, under the descriptor's format and key, an entry that verifies against the
  signers the unit's rules accept and converts to the record.
\<close>

definition gatherable :: "ext \<Rightarrow> (string \<Rightarrow> string \<Rightarrow> string list) \<Rightarrow> xite \<Rightarrow> disk_files \<Rightarrow> string list \<Rightarrow>
    feed_descriptor \<Rightarrow> int \<Rightarrow> feed_record \<Rightarrow> bool" where
  "gatherable E chain view fs walk desc now r \<longleftrightarrow>
    (\<exists>cp m j. cp \<in> set walk \<and> m \<in> set (unit_merge_files E view fs cp) \<and> gmatch (fd_files desc) m \<and>
       j \<in> set (merge_file_holds E view fs desc m) \<and>
       verify_record (ex_verify E) (ex_keccak E) j (unit_signers E chain view fs cp) now = Inr () \<and>
       record_from_value desc j (as_bytes (dumps_sorted j)) = Inr r)"

lemma glob_accepts: "glob_match pat m = Some True \<Longrightarrow> gmatch pat m"
  using glob_match_decides [of pat m] by auto

lemma glob_accepts_iff: "stars_ordered False pat \<Longrightarrow> glob_match pat m = Some True \<longleftrightarrow> gmatch pat m"
  using glob_match_decides [of pat m] by auto

text \<open>
  C26. The glob matcher returns on every path, every record gathered for a feed is one the feed should
  hold, and, for a glob in which no single star follows a double star, every record the feed should hold
  is gathered.
\<close>

theorem gather_exact:
  "(\<exists>b. glob_match (fd_files desc) p = Some b) \<and>
   (r \<in> set (gather_feed_records E chain (Some view) fs walk desc now) \<longrightarrow> gatherable E chain view fs walk desc now r) \<and>
   (stars_ordered False (fd_files desc) \<longrightarrow> gatherable E chain view fs walk desc now r \<longrightarrow>
      r \<in> set (gather_feed_records E chain (Some view) fs walk desc now))"
proof (intro conjI impI)
  show "\<exists>b. glob_match (fd_files desc) p = Some b" using glob_match_decides by blast
next
  assume "r \<in> set (gather_feed_records E chain (Some view) fs walk desc now)"
  then show "gatherable E chain view fs walk desc now r"
    unfolding gathered_iff gather_record_Some gatherable_def using glob_accepts by blast
next
  assume "stars_ordered False (fd_files desc)" "gatherable E chain view fs walk desc now r"
  then show "r \<in> set (gather_feed_records E chain (Some view) fs walk desc now)"
    unfolding gathered_iff gather_record_Some gatherable_def using glob_accepts_iff by blast
qed

section \<open>An example\<close>

definition ex_feed_unit :: json where
  "ex_feed_unit = JObj [(''files_merged'', JObj [(''data/u/posts.json'', JNull)])]"

definition ex_feed_box :: json where
  "ex_feed_box = JObj [(''post'', JArr [sample_record 1 ''x'']), (''record_format'', JStr ''epix-orset-1'')]"

definition ex_feed_host :: ext where
  "ex_feed_host = \<lparr>ex_verify = (\<lambda>_ _ _. True), ex_keccak = (\<lambda>_ _ _. True), ex_regex = (\<lambda>_ _. False),
     ex_parse = (\<lambda>b. if b = [0] then Some ex_feed_unit else if b = [1] then Some ex_feed_box else None), ex_float = (\<lambda>_. 0)\<rparr>"

definition ex_feed_disk :: disk_files where
  "ex_feed_disk = [[''content.json''] \<mapsto> [0], [''data'', ''u'', ''posts.json''] \<mapsto> [1]]"

definition ex_feed_view :: xite where
  "ex_feed_view = \<lparr>xi_address = ''a'', xi_root = [], xi_content = None\<rparr>"

lemma ex_feed_reads: "st_read [] ex_feed_disk ''content.json'' = Some [0]" "st_read [] ex_feed_disk ''data/u/posts.json'' = Some [1]"
proof -
  have "path [] ''content.json'' = Inr [''content.json'']" "path [] ''data/u/posts.json'' = Inr [''data'', ''u'', ''posts.json'']"
    by code_simp+
  then show "st_read [] ex_feed_disk ''content.json'' = Some [0]" "st_read [] ex_feed_disk ''data/u/posts.json'' = Some [1]"
    by (simp_all add: st_read_def ex_feed_disk_def)
qed

lemma ex_feed_sources:
  "unit_merge_files ex_feed_host ex_feed_view ex_feed_disk ''content.json'' = [''data/u/posts.json'']"
  "merge_file_holds ex_feed_host ex_feed_view ex_feed_disk ex_desc ''data/u/posts.json'' = [sample_record 1 ''x'']"
  "unit_signers ex_feed_host (\<lambda>_ _. []) ex_feed_view ex_feed_disk ''content.json'' = [''a'']"
proof -
  have d: "unit_dir ''content.json'' = []" by code_simp
  show "unit_merge_files ex_feed_host ex_feed_view ex_feed_disk ''content.json'' = [''data/u/posts.json'']"
    by (simp add: unit_merge_files_def ex_feed_view_def ex_feed_reads d ex_feed_host_def ex_feed_unit_def declared_merge_files_def)
  show "merge_file_holds ex_feed_host ex_feed_view ex_feed_disk ex_desc ''data/u/posts.json'' = [sample_record 1 ''x'']"
    by (simp add: merge_file_holds_def ex_feed_view_def ex_feed_reads ex_feed_host_def ex_feed_box_def ex_desc_def get_str_def)
  show "unit_signers ex_feed_host (\<lambda>_ _. []) ex_feed_view ex_feed_disk ''content.json'' = [''a'']"
    by (simp add: unit_signers_def valid_signers_for_def ex_feed_view_def ex_feed_reads ex_feed_host_def ex_feed_unit_def valid_signers_def
        root_signers_def child_ctx_def complete_signers_def str_items_def get_arr_def Let_def)
qed

theorem gather_exact_witness:
  "ex_post_7 \<in> set (gather_feed_records ex_feed_host (\<lambda>_ _. []) (Some ex_feed_view) ex_feed_disk [''content.json''] ex_desc 5)"
proof -
  have o: "stars_ordered False (fd_files ex_desc)" "gmatch (fd_files ex_desc) ''data/u/posts.json''"
    by (simp_all add: ex_desc_def) code_simp+
  have g: "gather_record (\<lambda>_ _ _. True) (\<lambda>_ _ _. True) ex_desc [''a''] 5 (sample_record 1 ''x'') = Some ex_post_7"
    using ex_gather by (simp split: option.splits)
  have h: "ex_verify ex_feed_host = (\<lambda>_ _ _. True)" "ex_keccak ex_feed_host = (\<lambda>_ _ _. True)" by (simp_all add: ex_feed_host_def)
  have "gatherable ex_feed_host (\<lambda>_ _. []) ex_feed_view ex_feed_disk [''content.json''] ex_desc 5 ex_post_7"
    unfolding gatherable_def
    by (rule exI [of _ "''content.json''"], rule exI [of _ "''data/u/posts.json''"], rule exI [of _ "sample_record 1 ''x''"])
      (use o g in \<open>simp add: ex_feed_sources gather_record_Some h\<close>)
  then show ?thesis using gather_exact [of ex_desc] o(1) by blast
qed

end
