(* ===== verification/Spec2Isabelle.thy ===== *)
theory Spec2Isabelle
  imports Group_Bits Feed_Checkpoint Dht_Node Propagation Ui_Tracker Piece_Field Choker Blob_Policy
    Blob_Manifest Peer_Prober Torrent_Meta Swarm_Fetch Xite_Sign Feed_Gather
begin

text \<open>
  EpixNet: a verification development.

  EpixNet is a peer-to-peer node for signed web sites ("xites").  A site's files are content-addressed
  objects split into 16 KiB groups; nodes find each other through a private Kademlia table, announce
  trackers and gossip, fetch missing groups from many peers at once, verify everything against signed
  roots, and serve what they hold under an upload governor.  Social data is organised into signed feeds that
  every node folds to the same state.  The sources are Rust crates under \<^verbatim>\<open>src/crates\<close>; the theories
  below model the crates that hold this logic as executable HOL functions and step relations, one theory (or
  a few) per component, in the order the code has them.

  \<^bold>\<open>Shared theories.\<close>
  \<^item> \<open>Prelude\<close>: machine integers, byte strings, little-endian encodings, list lemmas.
  \<^item> \<open>Rust_Std\<close>, \<open>Rust_Str\<close>, \<open>Decimal\<close>: what the sources use of the standard library (wrapping, checked and
    saturating arithmetic, binary search, \<open>str\<close> operations, integer parsing and printing).
  \<^item> \<open>Ordered_Map\<close>, \<open>Hash_Map\<close>: \<open>BTreeMap\<close> as sorted association lists, \<open>HashMap\<close> as association lists with
    distinct keys and free order.
  \<^item> \<open>Prefix_Code\<close>, \<open>Lww_Fold\<close>, \<open>Merkle\<close>: the contracts several components share, as locales with their
    consequences: prefix-free encodings, last-writer-wins folds, Merkle roots over a hash.
  \<^item> \<open>Json\<close>, \<open>Canonical_Json\<close>: \<open>serde_json::Value\<close>, its accessors, and the canonical text of a value that
    signatures cover, with its injectivity.

  \<^bold>\<open>Feeds (epix-feed).\<close>  \<open>Feed_Record\<close> models records, identities, reactions and the canonical order
  (\<^verbatim>\<open>lib.rs\<close>, \<^verbatim>\<open>reactions.rs\<close>); \<open>Feed_Segment\<close> sealing, the spine and the target index (\<^verbatim>\<open>segment.rs\<close>,
  \<^verbatim>\<open>index.rs\<close>); \<open>Feed_Checkpoint\<close> checkpoints and the rollup (\<^verbatim>\<open>checkpoint.rs\<close>, \<^verbatim>\<open>rollup.rs\<close>).  Shown: feeds
  depend on the set of records only, tombstones are permanent, counts are exact, the roots commit to their
  contents.  BLAKE3 is the parameter \<open>H\<close>; commitment theorems say which two hashed strings would collide.
  \<open>Feed_Adapter\<close> (\<^verbatim>\<open>adapter.rs\<close>) converts signed JSON records with a site's descriptor, and \<open>Feed_Derive\<close> models
  the node side (epix-ui \<^verbatim>\<open>feed.rs\<close>): verified records of the merge files
  become artifacts and the artifacts answer item, gallery and search queries.  Shown: nodes with the same
  verified records derive the same feed, deleted items never come back in a query, a search misses nothing
  in spite of its skip filters, every record of a whole clock interval is sealed once.  \<open>Feed_Gather\<close> is the way in:
  the glob matcher (an index loop, a partial function shown to return and to decide the globs in which no
  single star follows a double star) and the walk over the content units, with the lazily resolved signers of each unit.

  \<^bold>\<open>Site content (epix-content, epix-xite).\<close>  \<open>Content_Record\<close> models signed records and the OR-Set merge
  (\<^verbatim>\<open>record.rs\<close>, \<^verbatim>\<open>merge.rs\<close>), \<open>Content_Verify\<close> the rules, signers, certificates and the verification of
  \<^verbatim>\<open>content.json\<close> (\<^verbatim>\<open>verify.rs\<close>), \<open>Content_Diff\<close> line diffs and their wire form (\<^verbatim>\<open>diff.rs\<close>), \<open>Xite_Storage\<close> path
  resolution and the disk (\<^verbatim>\<open>storage.rs\<close>), \<open>Xite_Content\<close> the operations of a xite on its content (\<^verbatim>\<open>xite.rs\<close>, with the
  diff push of epix-ui and epix-runtime), \<open>Xite_Sign\<close> signing (\<^verbatim>\<open>xite.rs\<close>: the hash pass with its stat cache while
  other programs write, private files, bundles, the signed root and its on-disk form) over \<open>Self_Enc\<close>, the
  self-encryption of private files (epix-selfenc).  Shown: merges converge and lose nothing verified; content held in
  any reachable state is signed by someone the site's address authorised; accepted paths stay inside the
  site; a pushed diff delivers exactly the new version and no diff writes bytes other than those of a declared hash
  (a write the operating system fails half-way is reported as not arrived); whatever races a sign, its entries
  hold bytes the files had during the pass, or that the stat cache read under the stat the file still shows,
  and the bundles agree with the entries but for one case the development names; receivers accept the
  signed root, and private files decrypt to themselves.  Signature checks,
  JSON text parsing, regular expressions and the operating system are parameters.

  \<^bold>\<open>Search (epix-search).\<close>  \<open>Xor_Filter\<close> (\<^verbatim>\<open>xor8.rs\<close>) and \<open>Search_Index\<close> (\<^verbatim>\<open>index.rs\<close>).  Shown: building returns,
  no false negatives, parsed filters index in range, queries and roots are determined by the set of documents.

  \<^bold>\<open>Objects (epix-blob).\<close>  \<open>Obj_Id\<close>, \<open>Group_Bits\<close>, \<open>Bundles\<close>, \<open>Blob_Policy\<close> and \<open>Blob_Manifest\<close> model
  \<^verbatim>\<open>lib.rs\<close>, \<^verbatim>\<open>bitfield.rs\<close>, \<^verbatim>\<open>bundle.rs\<close>, \<^verbatim>\<open>policy.rs\<close> and \<^verbatim>\<open>manifest.rs\<close>.  Shown: the run-length bitfield
  implements finite sets canonically, its wire form round-trips and rejects oversized input; bundles hold
  every file once and stay stable; policies decide by the longest prefix; the files root commits.

  \<^bold>\<open>Peers.\<close>  \<open>Peer_Addr\<close> (epix-core), \<open>Peer_Registry\<close> (epix-peer), \<open>Peer_Prober\<close> (the probe pass of
  epix-runtime over the state of epix-ui), \<open>Dht_Routing\<close>, \<open>Peer_Directory\<close>, \<open>Dht_Store\<close>, \<open>Dht_Node\<close>
  (epix-dht), \<open>Propagation\<close> (epix-propagation), \<open>Ui_Tracker\<close> (the announce tracker of epix-ui).  Shown:
  round trips of addresses, exact backoff bounds, sound and starvation-free selection and probing, the
  routing table's closest sets, termination and result of the iterative lookup against any network, flood
  caps of the stores, and exactly-once catch-up by cursors.

  \<^bold>\<open>Transfer.\<close>  \<open>Choker\<close> models the upload governor (epix-edx \<^verbatim>\<open>choke.rs\<close>).  \<open>Swarm_Order\<close>, \<open>Swarm_Window\<close>
  and \<open>Swarm_Fetch\<close> model the fetch scheduler (\<^verbatim>\<open>sched.rs\<close>): decision functions, the sliding window and its
  outcomes, and the fetch loop as a step relation in which the answers of peers, timers, the store and other
  swarms are free.  Shown: the window invariant in every reachable state, termination by a lexicographic rank
  for finitely many joiners, and that a fetch that is not streaming gives up only when every complete holder has
  reached its failure limit or has a full link after the whole saturation patience was spent; and a run in which groups held by healthy peers are stranded.

  \<^bold>\<open>BitTorrent bridge (epix-bt).\<close>  \<open>Bencode\<close> and \<open>Torrent_Meta\<close> model \<^verbatim>\<open>bencode.rs\<close>, \<^verbatim>\<open>metainfo.rs\<close> and
  \<^verbatim>\<open>magnet.rs\<close>: the decoder returns on every input and accepts exactly a grammar spelled
  independently of it (bencode and two tolerated number forms), canonical encodings round-trip, parsed torrents are hash-bound and path-safe.  \<open>Piece_Field\<close> models the piece and hash fields of
  epix-xite.

  \<^bold>\<open>Bounds and fuel.\<close>  The recursive bencode parser takes fuel equal to the input length plus one and is shown
  never to run out.  The Rust parser's call-stack depth is not modelled.  The refill loop of the scheduler is a partial function into \<open>option\<close> and shown to return
  in every reachable window.  The peeling loop of the filter is such a function too and shown to return for
  fewer than 2 ^ 29 keys, where the \<open>u32\<close> slots suffice.  Coverage of the segments is shown for clocks in
  whole intervals; the last, partial interval is the subject of its own theorem.  Sizes and counters are \<open>nat\<close> with the \<open>u64\<close>, \<open>u32\<close> or \<open>i64\<close> wrap-around,
  saturation or panic written where the code could reach it.

  \<^bold>\<open>Not modelled.\<close>  Code that only moves bytes between sockets, files, databases, HTTP handlers, browsers and
  third-party crates (transports, SQLite, cryptographic primitives, bao trees, postcard), the UI command layer
  and the platform launchers: their effects are those of libraries that are not in the repository.  Where
  modelled code relies on such a function (BLAKE3, SHA-1, IP text conversion, percent decoding) it is a
  parameter, with its documented behaviour as a named hypothesis of the theorems that need it.  Inside modelled
  components three error paths are left out: a panicking probe task, the I/O error of \<open>ensure_sparse\<close> before a
  fetch starts, and the temporary file of an atomic write (the write replaces the file as a whole or fails).
\<close>

end
